(* ===== verification/Prelude.thy ===== *)
theory Prelude
  imports Main "HOL-Library.Word" "HOL-Library.Multiset"
begin

unbundle bit_operations_syntax

text \<open>
  What the components share: the machine types of the C sources, the error values a
  function can return, the kernel's page arithmetic, and generic lemmas on words, lists
  and transition systems.

  An error is a value of \<open>err\<close>: an \<open>Errno\<close> the C function returns, or \<open>Fault\<close>, which
  stands for undefined behaviour of the C code (a null or dangling pointer is used, an
  array is overrun). \<open>Fault\<close> is never returned by the source; a lemma that a call is
  not a \<open>Fault\<close> is a memory-safety lemma.
\<close>

section \<open>Machine types and error values\<close>

type_synonym u8 = "8 word"
type_synonym u16 = "16 word"
type_synonym u32 = "32 word"
type_synonym u64 = "64 word"
type_synonym phys_addr = "64 word"

datatype errno = EINVAL | ENOMEM | EFAULT | ENODEV | EBUSY | EIO | ENOENT | ENXIO
  | ENODATA | ERESTARTSYS | EOTHER nat

datatype err = Errno errno | Fault

type_synonym 'a res = "err + 'a"

abbreviation Ok :: "'a \<Rightarrow> 'a res" where
  "Ok \<equiv> Inr"

abbreviation Error :: "errno \<Rightarrow> 'a res" where
  "Error e \<equiv> Inl (Errno e)"

abbreviation Oops :: "'a res" where
  "Oops \<equiv> Inl Fault"

named_theorems word_nat_simps "readings of word operations as operations on nat"
named_theorems model_simps "unfolding rules of the small accessor definitions"

section \<open>Words read as naturals\<close>

lemma unat_ucast_mod: "unat (ucast (x :: 'a::len word) :: 'b::len word) = unat x mod 2 ^ LENGTH('b)"
proof -
  have "unat (ucast x :: 'b word) = take_bit LENGTH('b) (unat x)" by (rule unsigned_ucast_eq)
  then show ?thesis by (simp only: take_bit_eq_mod [where 'a=nat])
qed

lemma unat_ucast_up:
  assumes "LENGTH('a) \<le> LENGTH('b)"
  shows "unat (ucast (x :: 'a::len word) :: 'b::len word) = unat x"
proof -
  have "unat x < 2 ^ LENGTH('a)" by simp
  also have "(2::nat) ^ LENGTH('a) \<le> 2 ^ LENGTH('b)" using assms by simp
  finally show ?thesis by (simp only: unat_ucast_mod mod_less)
qed

lemma unat_u32_u64 [simp]: "unat (ucast (x :: u32) :: u64) = unat x"
  by (rule unat_ucast_up) simp

lemma unat_u64_u32: "unat (ucast (x :: u64) :: u32) = unat x mod 2 ^ 32"
  by (simp add: unat_ucast_mod)

lemma unat_add_small: "unat a + unat b < 2 ^ LENGTH('a) \<Longrightarrow> unat (a + b) = unat a + unat (b :: 'a::len word)"
  by (simp add: unat_add_lem)

lemma unat_add_u32: "unat a + unat b < 2 ^ 32 \<Longrightarrow> unat (a + b) = unat a + unat (b :: u32)"
  and unat_add_u64: "unat c + unat d < 2 ^ 64 \<Longrightarrow> unat (c + d) = unat c + unat (d :: u64)"
  using unat_add_small [of a b] unat_add_small [of c d] by simp_all

lemma unat_lt_u32: "unat (a :: u32) < 2 ^ 32" and unat_lt_u64: "unat (c :: u64) < 2 ^ 64"
  using unsigned_less [of a] unsigned_less [of c] by simp_all

section \<open>Page arithmetic\<close>

definition PAGE_SHIFT :: nat where
  "PAGE_SHIFT = 12"

abbreviation PAGE_SIZE :: "'a::len word" where
  "PAGE_SIZE \<equiv> 4096"

definition ALIGN :: "'a::len word \<Rightarrow> 'a word \<Rightarrow> 'a word" where
  "ALIGN v a = (v + a - 1) AND (- a)"

text \<open>
  The page arithmetic on words read as arithmetic on \<open>nat\<close>. \<open>ALIGN\<close> rounds up to a
  multiple of a power of two as long as the sum fits (\<open>unat_ALIGN\<close>, \<open>ALIGN_ge\<close>); when
  it does not fit the result is 0 (\<open>ALIGN_overflow\<close>).
\<close>

lemma unat_pow2: "k < LENGTH('a) \<Longrightarrow> unat (2 ^ k :: 'a::len word) = 2 ^ k"
  by (rule of_nat_inverse) (simp_all add: power_strict_increasing)

lemma unat_take_bit_mod: "unat (take_bit k x) = unat (x :: 'a::len word) mod 2 ^ k"
proof -
  have "unat (take_bit k x) = take_bit k (unat x)" by (rule unsigned_take_bit_eq)
  then show ?thesis by (simp only: take_bit_eq_mod [where 'a=nat])
qed

lemma and_neg_pow2: "x AND - (2 ^ k) = x - take_bit k (x :: 'a::len word)"
proof -
  have n: "- (2 ^ k :: 'a word) = NOT (mask k)"
    by (simp add: mask_eq_exp_minus_1 minus_eq_not_minus_1)
  have "x AND NOT (mask k) = x AND NOT (take_bit k x)"
    by (rule bit_eqI) (auto simp: bit_simps)
  also have "\<dots> = x - take_bit k x"
    by (rule disjunctive_diff [symmetric]) (auto simp: bit_simps)
  finally show ?thesis by (simp add: n)
qed

lemma unat_and_neg_pow2: "unat (x AND - (2 ^ k) :: 'a::len word) = (unat x div 2 ^ k) * 2 ^ k"
proof -
  have "take_bit k x \<le> x" by (simp only: word_le_nat_alt unat_take_bit_mod mod_less_eq_dividend)
  then have "unat (x - take_bit k x) = unat x - unat (take_bit k x)" by (rule unat_sub)
  also have "\<dots> = unat x - unat x mod 2 ^ k" by (simp only: unat_take_bit_mod)
  finally show ?thesis by (simp only: and_neg_pow2 minus_mod_eq_div_mult)
qed

lemma unat_pow2_minus_1: "k < LENGTH('a) \<Longrightarrow> unat (2 ^ k - 1 :: 'a::len word) = 2 ^ k - 1"
  by (subst unat_minus_one) (auto simp: unat_pow2 simp flip: unat_eq_zero)

lemma unat_ALIGN:
  fixes v :: "'a::len word"
  assumes k: "k < LENGTH('a)" and le: "unat v + 2 ^ k \<le> 2 ^ LENGTH('a)"
  shows "unat (ALIGN v (2 ^ k)) = ((unat v + 2 ^ k - 1) div 2 ^ k) * 2 ^ k"
proof -
  have p: "(0::nat) < 2 ^ k" by simp
  have "unat v + unat (2 ^ k - 1 :: 'a word) < 2 ^ LENGTH('a)"
    unfolding unat_pow2_minus_1 [OF k] using le p by linarith
  then have "unat (v + (2 ^ k - 1)) = unat v + (2 ^ k - 1)"
    by (metis unat_add_lem unat_pow2_minus_1 [OF k])
  moreover have "unat v + (2 ^ k - 1) = unat v + 2 ^ k - 1" using p by linarith
  moreover have "v + 2 ^ k - 1 = v + (2 ^ k - 1)" by (rule add_diff_eq [symmetric])
  ultimately show ?thesis
    by (simp only: ALIGN_def unat_and_neg_pow2)
qed

lemma ALIGN_overflow:
  fixes v :: "'a::len word"
  assumes k: "k < LENGTH('a)" and gt: "2 ^ LENGTH('a) < unat v + 2 ^ k"
  shows "ALIGN v (2 ^ k) = 0"
proof -
  have p: "(0::nat) < 2 ^ k" by simp
  have k2: "(2::nat) ^ k \<le> 2 ^ LENGTH('a)" using k by simp
  have "v + 2 ^ k - 1 = v + (2 ^ k - 1)" by (rule add_diff_eq [symmetric])
  moreover have "\<not> unat v + unat (2 ^ k - 1 :: 'a word) < 2 ^ LENGTH('a)"
    unfolding unat_pow2_minus_1 [OF k] using gt p by linarith
  then have "unat (v + (2 ^ k - 1)) = unat v + (2 ^ k - 1) - 2 ^ LENGTH('a)"
    using unat_plus_if' [of v "2 ^ k - 1"] by (simp only: unat_pow2_minus_1 [OF k] if_False)
  ultimately have "unat (v + 2 ^ k - 1) = unat v + (2 ^ k - 1) - 2 ^ LENGTH('a)" by (simp only:)
  moreover have "unat v < 2 ^ LENGTH('a)" by simp
  ultimately have "unat (v + 2 ^ k - 1) < 2 ^ k" using gt p k2 by linarith
  then have "unat (ALIGN v (2 ^ k)) = 0"
    by (simp add: ALIGN_def unat_and_neg_pow2)
  then show ?thesis by (simp add: unat_eq_zero)
qed

lemma ALIGN_ge:
  fixes v :: "'a::len word"
  assumes k: "k < LENGTH('a)" and le: "unat v + 2 ^ k \<le> 2 ^ LENGTH('a)"
  shows "unat v \<le> unat (ALIGN v (2 ^ k))" and "unat (ALIGN v (2 ^ k)) < unat v + 2 ^ k"
    and "2 ^ k dvd unat (ALIGN v (2 ^ k))"
proof -
  let ?p = "(2::nat) ^ k"
  have p: "0 < ?p" by simp
  have e: "(unat v + ?p - 1) div ?p * ?p + (unat v + ?p - 1) mod ?p = unat v + ?p - 1"
    by (rule div_mult_mod_eq)
  have m: "(unat v + ?p - 1) mod ?p < ?p" using p by (rule mod_less_divisor)
  show "unat v \<le> unat (ALIGN v (2 ^ k))" "unat (ALIGN v (2 ^ k)) < unat v + 2 ^ k"
    unfolding unat_ALIGN [OF k le] using e m p by linarith+
  show "2 ^ k dvd unat (ALIGN v (2 ^ k))"
    unfolding unat_ALIGN [OF k le] by simp
qed

lemma nat_pow2_test:
  fixes n :: nat
  assumes "n AND (n - 1) = 0" "0 < n"
  shows "\<exists>k. n = 2 ^ k"
  using assms
proof (induction n rule: less_induct)
  case (less n)
  show ?case
  proof (cases "even n")
    case True
    then obtain m where m: "n = 2 * m" by blast
    have p: "0 < m" using less m by simp
    have "n - 1 = 2 * (m - 1) + 1" using m p by simp
    then have "n AND (n - 1) = 2 * (m AND (m - 1))"
      unfolding m by (subst and_nat_unfold) (use p in auto)
    then have "m AND (m - 1) = 0" using less by simp
    then obtain k where "m = 2 ^ k" using less(1) [of m] m p by auto
    then have "n = 2 ^ Suc k" using m by simp
    then show ?thesis by blast
  next
    case False
    then obtain m where m: "n = 2 * m + 1" by (metis oddE)
    have "n AND (n - 1) = 2 * (m AND m)"
      unfolding m by (subst and_nat_unfold) auto
    then have "m = 0" using less by simp
    then have "n = 2 ^ 0" using m by simp
    then show ?thesis by blast
  qed
qed

lemma word_pow2_test:
  fixes w :: "'a::len word"
  assumes "w AND (w - 1) = 0" "w \<noteq> 0"
  shows "\<exists>k < LENGTH('a). unat w = 2 ^ k"
proof -
  have "unat w AND unat (w - 1) = 0"
    using assms(1) by (metis unsigned_and_eq unsigned_0)
  moreover have "unat (w - 1) = unat w - 1" using assms(2) by (simp add: unat_minus_one)
  moreover have "0 < unat w" using assms(2) by (simp add: unat_gt_0)
  ultimately obtain k where k: "unat w = 2 ^ k" using nat_pow2_test by metis
  have "(2::nat) ^ k < 2 ^ LENGTH('a)" using unsigned_less [of w, where 'a=nat] unfolding k .
  then have "k < LENGTH('a)" by (rule power_less_imp_less_exp [rotated]) simp
  then show ?thesis using k by blast
qed

lemma unat_eq_pow2: "unat (w :: 'a::len word) = 2 ^ k \<Longrightarrow> w = 2 ^ k"
proof -
  assume a: "unat w = 2 ^ k"
  have "(2::nat) ^ k < 2 ^ LENGTH('a)" using unsigned_less [of w, where 'a=nat] unfolding a .
  then have "k < LENGTH('a)" by (rule power_less_imp_less_exp [rotated]) simp
  then have "unat (2 ^ k :: 'a word) = 2 ^ k" by (rule unat_pow2)
  then show ?thesis using a by (simp add: word_unat_eq_iff)
qed

text \<open>Alignment up to the page size of a power of two of 32 bits.\<close>

lemma ALIGN_page_pow2:
  assumes "unat (al :: u32) = 2 ^ j"
  shows "\<exists>k. 12 \<le> k \<and> k < 32 \<and> j \<le> k \<and> ALIGN al PAGE_SIZE = 2 ^ k"
proof -
  have "(2::nat) ^ j < 2 ^ 32" using unat_lt_u32 [of al] unfolding assms .
  then have j: "j < 32" by (rule power_less_imp_less_exp [rotated]) simp
  have "unat al + 2 ^ 12 \<le> 2 ^ 32"
    using power_increasing [of j 31 "2::nat"] j assms by simp
  then have u: "unat (ALIGN al (2 ^ 12)) = ((2 ^ j + 2 ^ 12 - 1) div 2 ^ 12) * 2 ^ 12"
    using unat_ALIGN [of 12 al] assms by simp
  show ?thesis
  proof (cases "j \<le> 12")
    case True
    then have "(1::nat) \<le> 2 ^ j" "(2::nat) ^ j \<le> 2 ^ 12" by (simp, intro power_increasing) simp_all
    then have "(2 ^ j + 2 ^ 12 - 1) div 2 ^ 12 = (1::nat)" by (intro div_nat_eqI) auto
    then have "unat (ALIGN al (2 ^ 12)) = 2 ^ 12" using u by simp
    then have "ALIGN al (2 ^ 12) = 2 ^ 12" by (rule unat_eq_pow2)
    then show ?thesis using True by (intro exI [of _ 12]) simp
  next
    case False
    then obtain d where d: "j = 12 + d" by (metis le_Suc_ex nat_le_linear)
    have "(2 ^ j + 2 ^ 12 - 1) div 2 ^ 12 = (2 ^ d + (2 ^ 12 - 1) div 2 ^ 12 :: nat)"
      unfolding d power_add by simp
    then have "unat (ALIGN al (2 ^ 12)) = 2 ^ j" using u by (simp add: d power_add)
    then have "ALIGN al (2 ^ 12) = 2 ^ j" by (rule unat_eq_pow2)
    then show ?thesis using False j by (intro exI [of _ j]) simp
  qed
qed


end
