(* ===== verification/Interfaces.thy ===== *)
theory Interfaces
  imports Prelude
begin

text \<open>
  The contracts the components offer each other, as locales: an invariant of a transition
  system, a registry with keys, a store of counted objects. Each is interpreted on the
  code's own operations in the theory of the component that provides them.
\<close>

section \<open>Invariants of a transition system\<close>

locale invariant_system =
  fixes initial :: "'s \<Rightarrow> bool"
    and step :: "'s \<Rightarrow> 's \<Rightarrow> bool"
    and inv :: "'s \<Rightarrow> bool"
  assumes initial_inv: "initial s \<Longrightarrow> inv s"
    and step_inv: "inv s \<Longrightarrow> step s t \<Longrightarrow> inv t"
begin

lemma steps_inv:
  assumes "step\<^sup>*\<^sup>* s t" and "inv s"
  shows "inv t"
  using assms by (induction rule: rtranclp_induct) (auto intro: step_inv)

lemma reachable_inv: "initial s \<Longrightarrow> step\<^sup>*\<^sup>* s t \<Longrightarrow> inv t"
  using steps_inv initial_inv by blast

end

section \<open>A registry with keys\<close>

text \<open>
  The registries of the driver stack never overwrite: registering a key that is present
  changes nothing. The contract is given on well-formed representations by what a lookup
  returns; \<open>reg_key\<close> restricts the keys (identifiers have a fixed length), and \<open>has_room\<close> says when
  there is memory for a new entry. An operation answers whether it changed the registry.
\<close>

datatype ('k, 'v) reg_op = Register 'k 'v | Unregister 'k

fun abs_op :: "('k, 'v) reg_op \<Rightarrow> ('k \<rightharpoonup> 'v) \<Rightarrow> 'k \<rightharpoonup> 'v" where
  "abs_op (Register k v) m = (if m k = None then m(k \<mapsto> v) else m)"
| "abs_op (Unregister k) m = m(k := None)"

fun op_key :: "('k, 'v) reg_op \<Rightarrow> 'k" where
  "op_key (Register k v) = k"
| "op_key (Unregister k) = k"

text \<open>
  What a sequence of operations with their answers does to a finite map; \<open>None\<close> when an answer is
  impossible: a key that is present is never registered, and a removal answers whether there was an entry.
\<close>

fun reg_run :: "('k, 'v) reg_op list \<Rightarrow> bool list \<Rightarrow> ('k \<rightharpoonup> 'v) \<Rightarrow> ('k \<rightharpoonup> 'v) option" where
  "reg_run [] [] m = Some m"
| "reg_run (Register k v # ops) (b # bs) m =
    (if \<not> b then reg_run ops bs m else if m k = None then reg_run ops bs (m(k \<mapsto> v)) else None)"
| "reg_run (Unregister k # ops) (b # bs) m = (if b = (m k \<noteq> None) then reg_run ops bs (m(k := None)) else None)"
| "reg_run _ _ m = None"

locale keyed_registry =
  fixes reg_wf :: "'m \<Rightarrow> bool"
    and reg_key :: "'k \<Rightarrow> bool"
    and has_room :: "'e \<Rightarrow> 'm \<Rightarrow> bool"
    and reg_lookup :: "'m \<Rightarrow> 'k \<rightharpoonup> 'v"
    and reg_insert :: "'e \<Rightarrow> 'k \<Rightarrow> 'v \<Rightarrow> 'm \<Rightarrow> ('m \<times> bool) res"
    and reg_remove :: "'k \<Rightarrow> 'm \<Rightarrow> ('m \<times> bool) res"
  assumes insert_ok: "reg_wf m \<Longrightarrow> reg_key k \<Longrightarrow>
      \<exists>m' b. reg_insert e k v m = Ok (m', b) \<and> reg_wf m' \<and> (b \<longleftrightarrow> reg_lookup m k = None \<and> has_room e m) \<and>
        reg_lookup m' = (if b then (reg_lookup m)(k \<mapsto> v) else reg_lookup m)"
    and remove_ok: "reg_wf m \<Longrightarrow> reg_key k \<Longrightarrow>
      \<exists>m' b. reg_remove k m = Ok (m', b) \<and> reg_wf m' \<and> (b \<longleftrightarrow> reg_lookup m k \<noteq> None) \<and>
        reg_lookup m' = (reg_lookup m)(k := None)"
begin

text \<open>An operation with the memory it finds.\<close>

fun run_op :: "'e \<Rightarrow> ('k, 'v) reg_op \<Rightarrow> 'm \<Rightarrow> ('m \<times> bool) res" where
  "run_op e (Register k v) m = reg_insert e k v m"
| "run_op e (Unregister k) m = reg_remove k m"

fun run_ops :: "('e \<times> ('k, 'v) reg_op) list \<Rightarrow> 'm \<Rightarrow> ('m \<times> bool list) res" where
  "run_ops [] m = Ok (m, [])"
| "run_ops (eo # ops) m =
    (case run_op (fst eo) (snd eo) m of
       Inl f \<Rightarrow> Inl f
     | Inr (m1, b) \<Rightarrow> (case run_ops ops m1 of Inl f \<Rightarrow> Inl f | Inr (m2, bs) \<Rightarrow> Ok (m2, b # bs)))"

lemma run_op_ok:
  assumes "reg_wf m" "reg_key (op_key oper)"
  shows "\<exists>m' b. run_op e oper m = Ok (m', b) \<and> reg_wf m' \<and>
    (\<forall>ops bs. reg_run (oper # ops) (b # bs) (reg_lookup m) = reg_run ops bs (reg_lookup m')) \<and>
    (has_room e m \<longrightarrow> reg_lookup m' = abs_op oper (reg_lookup m))"
proof (cases oper)
  case (Register k v)
  then show ?thesis using insert_ok [of m k e v] assms by fastforce
next
  case (Unregister k)
  then show ?thesis using remove_ok [of m k] assms by fastforce
qed

text \<open>Any sequence of operations computes what it computes on the abstract map.\<close>

lemma run_ops_ok:
  assumes "reg_wf m" "\<forall>eo \<in> set ops. reg_key (op_key (snd eo))"
  shows "\<exists>m' bs. run_ops ops m = Ok (m', bs) \<and> reg_wf m' \<and> reg_run (map snd ops) bs (reg_lookup m) = Some (reg_lookup m') \<and>
    ((\<forall>eo \<in> set ops. \<forall>n. has_room (fst eo) n) \<longrightarrow> reg_lookup m' = fold abs_op (map snd ops) (reg_lookup m))"
  using assms
proof (induction ops arbitrary: m)
  case Nil
  then show ?case by simp
next
  case (Cons eo ops)
  obtain m1 b where m1: "run_op (fst eo) (snd eo) m = Ok (m1, b)" "reg_wf m1"
    "\<And>bs. reg_run (snd eo # map snd ops) (b # bs) (reg_lookup m) = reg_run (map snd ops) bs (reg_lookup m1)"
    "has_room (fst eo) m \<Longrightarrow> reg_lookup m1 = abs_op (snd eo) (reg_lookup m)"
    using run_op_ok [of m "snd eo" "fst eo"] Cons.prems by auto
  obtain m2 bs where "run_ops ops m1 = Ok (m2, bs)" "reg_wf m2" "reg_run (map snd ops) bs (reg_lookup m1) = Some (reg_lookup m2)"
    "(\<forall>eo \<in> set ops. \<forall>n. has_room (fst eo) n) \<longrightarrow> reg_lookup m2 = fold abs_op (map snd ops) (reg_lookup m1)"
    using Cons.IH [OF m1(2)] Cons.prems by auto
  then show ?case using m1 by (intro exI [of _ m2] exI [of _ "b # bs"]) auto
qed

lemma insert_remove_fresh:
  assumes "reg_wf m" "reg_key k" "reg_lookup m k = None" "reg_insert e k v m = Ok (m1, b)" "reg_remove k m1 = Ok (m2, c)"
  shows "reg_lookup m2 = reg_lookup m"
proof -
  have "reg_wf m1" "reg_lookup m1 = (if b then (reg_lookup m)(k \<mapsto> v) else reg_lookup m)"
    using insert_ok [OF assms(1,2), of e v] assms(4) by auto
  then show ?thesis using remove_ok [of m1 k] assms(2,3,5) by (auto simp: fun_upd_idem)
qed

end

section \<open>A store of reference-counted objects\<close>

text \<open>
  What the users of allocations rely on. \<open>counted r s\<close>: in the state \<open>s\<close> exactly the objects
  with a count above 0 are alive, and their counters are \<open>r\<close>. Taking a reference of a live
  object and dropping one never faults, as long as the counter does not overflow.
\<close>

locale ref_store =
  fixes counted :: "('i \<Rightarrow> nat) \<Rightarrow> 's \<Rightarrow> bool"
    and take_ref :: "'i \<Rightarrow> 's \<Rightarrow> 's \<times> unit res"
    and drop_ref :: "'i \<Rightarrow> 's \<Rightarrow> 's \<times> unit res"
    and max_ref :: nat
  assumes take_counted: "counted r s \<Longrightarrow> 0 < r i \<Longrightarrow> r i < max_ref \<Longrightarrow>
      \<exists>s'. take_ref i s = (s', Ok ()) \<and> counted (r(i := r i + 1)) s'"
    and drop_counted: "counted r s \<Longrightarrow> 0 < r i \<Longrightarrow>
      \<exists>s'. drop_ref i s = (s', Ok ()) \<and> counted (r(i := r i - 1)) s'"
begin

text \<open>A reference that was taken can be dropped, and the counts are as before.\<close>

lemma take_drop:
  assumes "counted r s" "0 < r i" "r i < max_ref" "take_ref i s = (s1, x)" "drop_ref i s1 = (s2, y)"
  shows "x = Ok () \<and> y = Ok () \<and> counted r s2"
proof -
  have 1: "x = Ok ()" "counted (r(i := r i + 1)) s1" using take_counted [OF assms(1-3)] assms(4) by auto
  then have "y = Ok () \<and> counted ((r(i := r i + 1))(i := r i)) s2"
    using drop_counted [OF 1(2), of i] assms(5) by auto
  then show ?thesis using 1(1) by simp
qed

text \<open>Dropping a list of references that are all counted.\<close>

fun drop_all :: "'i list \<Rightarrow> 's \<Rightarrow> 's \<times> unit res" where
  "drop_all [] s = (s, Ok ())"
| "drop_all (i # is) s =
    (case drop_ref i s of (s1, Inl e) \<Rightarrow> (s1, Inl e) | (s1, Inr _) \<Rightarrow> drop_all is s1)"

lemma drop_all_counted:
  assumes "counted r s" "\<And>i. count_list is i \<le> r i"
  shows "\<exists>s'. drop_all is s = (s', Ok ()) \<and> counted (\<lambda>i. r i - count_list is i) s'"
  using assms
proof (induction "is" arbitrary: r s)
  case Nil
  then show ?case by simp
next
  case (Cons i "is")
  have "0 < r i" using Cons.prems(2) [of i] by simp
  then obtain s1 where s1: "drop_ref i s = (s1, Ok ())" "counted (r(i := r i - 1)) s1"
    using drop_counted [OF Cons.prems(1)] by blast
  have "count_list is j \<le> (r(i := r i - 1)) j" for j using Cons.prems(2) [of j] by (auto split: if_splits)
  from Cons.IH [OF s1(2) this]
  obtain s' where s': "drop_all is s1 = (s', Ok ())" "counted (\<lambda>j. (r(i := r i - 1)) j - count_list is j) s'" by blast
  moreover have "(\<lambda>j. (r(i := r i - 1)) j - count_list is j) = (\<lambda>j. r j - count_list (i # is) j)"
    by (auto simp: fun_eq_iff)
  ultimately show ?case using s1(1) by simp
qed

end

end
