(* ===== verification/Intervals.thy ===== *)
theory Intervals
  imports Prelude
begin

text \<open>
  Sorted lists of intervals: the abstract specification of the driver's free-list allocator.
  A block is read as the half-open interval of the addresses it covers, a free list as the
  list of its intervals. \<open>ilist lo hi\<close> is the representation invariant: the intervals lie
  within the pool, are not empty, ascend and do not even touch (touching blocks have been
  merged). \<open>ifree\<close> is the release of an interval on that view and \<open>ialloc\<close> the first-fit
  allocation.
\<close>

type_synonym interval = "nat \<times> nat"

fun ilist :: "nat \<Rightarrow> nat \<Rightarrow> interval list \<Rightarrow> bool" where
  "ilist lo hi [] = True"
| "ilist lo hi ((a, b) # r) = (lo \<le> a \<and> a < b \<and> b \<le> hi \<and> ilist (Suc b) hi r)"

fun ibytes :: "interval list \<Rightarrow> nat set" where
  "ibytes [] = {}"
| "ibytes ((a, b) # r) = {a..<b} \<union> ibytes r"

fun ifree :: "nat \<Rightarrow> nat \<Rightarrow> interval list \<Rightarrow> interval list" where
  "ifree s e [] = [(s, e)]"
| "ifree s e ((a, b) # r) =
    (if b = s then
       (case r of
          [] \<Rightarrow> [(a, e)]
        | (c, d) # r1 \<Rightarrow> if e = c then (a, d) # r1 else (a, e) # (c, d) # r1)
     else if s < a then
       if e = a then (s, b) # r else (s, e) # (a, b) # r
     else (a, b) # ifree s e r)"

lemma ilist_mono: "ilist lo hi l \<Longrightarrow> lo' \<le> lo \<Longrightarrow> ilist lo' hi l"
  by (cases l) auto

lemma ibytes_bounds: "ilist lo hi l \<Longrightarrow> x \<in> ibytes l \<Longrightarrow> lo \<le> x \<and> x < hi"
  by (induction l arbitrary: lo rule: ibytes.induct) fastforce+

lemma ibytes_below: "ilist lo hi l \<Longrightarrow> x < lo \<Longrightarrow> x \<notin> ibytes l"
  using ibytes_bounds by fastforce

lemma ilist_first: "ilist lo hi ((a, b) # r) \<Longrightarrow> a \<in> ibytes ((a, b) # r)"
  by auto

lemma disjoint_interval:
  "{s..<e} \<inter> {a..<b} = {} \<longleftrightarrow> e \<le> s \<or> b \<le> a \<or> e \<le> a \<or> b \<le> (s::nat)"
  by (auto simp: disjoint_iff)

lemma ifree_ok:
  assumes "ilist lo hi l" "lo \<le> s" "s < e" "e \<le> hi" "{s..<e} \<inter> ibytes l = {}"
  shows "ilist lo hi (ifree s e l) \<and> ibytes (ifree s e l) = {s..<e} \<union> ibytes l"
  using assms
proof (induction s e l arbitrary: lo rule: ifree.induct)
  case (1 s e)
  then show ?case by simp
next
  case (2 s e a b r)
  have d: "{s..<e} \<inter> ibytes r = {}" and ab: "a < b" "lo \<le> a" "b \<le> hi" "ilist (Suc b) hi r"
    and o: "b \<le> s \<or> e \<le> a"
    using 2 by (auto simp: Int_Un_distrib disjoint_interval)
  show ?case
  proof (cases "b = s")
    case True
    show ?thesis
    proof (cases r)
      case Nil
      then show ?thesis using 2 True ab by auto
    next
      case (Cons c r1)
      obtain c1 d1 where c: "c = (c1, d1)" by (cases c)
      have "e \<le> c1" using d Cons c ab True 2 by (auto simp: Int_Un_distrib disjoint_interval)
      then show ?thesis using 2 True ab Cons c by (auto intro: ilist_mono)
    qed
  next
    case False
    show ?thesis
    proof (cases "s < a")
      case True
      then show ?thesis using 2 False ab o by auto
    next
      case nl: False
      have "Suc b \<le> s" using o False nl ab 2 by auto
      then show ?thesis using 2 False nl ab d by auto
    qed
  qed
qed

text \<open>A representation is determined by the addresses it covers.\<close>

lemma ilist_unique:
  assumes "ilist lo hi l" "ilist lo hi m" "ibytes l = ibytes m"
  shows "l = m"
  using assms
proof (induction l arbitrary: lo m rule: ibytes.induct)
  case 1
  then show ?case by (cases m rule: ibytes.cases) auto
next
  case (2 a b r)
  obtain c d q where m: "m = (c, d) # q"
    using 2 ilist_first [OF 2(2)] by (cases m rule: ibytes.cases) auto
  have q: "ilist (Suc d) hi q" "ilist (Suc b) hi r" "a < b" "c < d" using 2 m by auto
  have lb: "\<And>x. x \<in> ibytes q \<Longrightarrow> d < x" "\<And>x. x \<in> ibytes r \<Longrightarrow> b < x"
    using q(1,2) ibytes_bounds Suc_le_eq by blast+
  have eq: "{a..<b} \<union> ibytes r = {c..<d} \<union> ibytes q" using 2 m by simp
  have ac: "a = c"
  proof -
    have "a \<in> {c..<d} \<union> ibytes q" "c \<in> {a..<b} \<union> ibytes r" using eq q by auto
    then have "c \<le> a" "a \<le> c" using lb q by fastforce+
    then show ?thesis by simp
  qed
  have bd: "b = d"
  proof (rule ccontr)
    assume "b \<noteq> d"
    then consider "b < d" | "d < b" by linarith
    then show False
    proof cases
      case 1
      then have "b \<in> {a..<b} \<union> ibytes r" using eq ac q by auto
      then show False using lb(2) [of b] by simp
    next
      case 2
      then have "d \<in> {c..<d} \<union> ibytes q" using eq ac q by auto
      then show False using lb(1) [of d] by simp
    qed
  qed
  have "ibytes r = {x \<in> {a..<b} \<union> ibytes r. b < x}" using lb(2) by fastforce
  also have "\<dots> = {x \<in> {c..<d} \<union> ibytes q. b < x}" by (simp only: eq)
  also have "\<dots> = {x \<in> {c..<d} \<union> ibytes q. d < x}" by (simp only: bd)
  also have "\<dots> = ibytes q" using lb(1) by fastforce
  finally have "ibytes r = ibytes q" .
  then have "r = q" using 2(1) q bd by blast
  then show ?case using m ac bd by simp
qed

section \<open>First-fit allocation\<close>

definition round_up :: "nat \<Rightarrow> nat \<Rightarrow> nat" where
  "round_up al a = ((a + al - 1) div al) * al"

fun ialloc :: "nat \<Rightarrow> nat \<Rightarrow> interval list \<Rightarrow> (nat \<times> interval list) option" where
  "ialloc n al [] = None"
| "ialloc n al ((a, b) # r) =
    (let s = round_up al a in
     if s + n \<le> b
     then Some (s, (if a < s then [(a, s)] else []) @ (if s + n < b then [(s + n, b)] else []) @ r)
     else map_option (\<lambda>(s, l). (s, (a, b) # l)) (ialloc n al r))"

lemma round_up_ge: "0 < al \<Longrightarrow> a \<le> round_up al a"
proof -
  assume p: "0 < al"
  have "(a + al - 1) div al * al + (a + al - 1) mod al = a + al - 1" by (rule div_mult_mod_eq)
  moreover have "(a + al - 1) mod al < al" using p by simp
  ultimately show ?thesis unfolding round_up_def by linarith
qed

lemma round_up_dvd: "al dvd round_up al a"
  by (simp add: round_up_def)

lemma round_up_least: "0 < al \<Longrightarrow> al dvd s \<Longrightarrow> a \<le> s \<Longrightarrow> round_up al a \<le> s"
proof -
  assume p: "0 < al" and d: "al dvd s" and le: "a \<le> s"
  obtain k where k: "s = al * k" using d by blast
  have "(a + al - 1) div al \<le> (al * k + (al - 1)) div al"
    using le k p by (intro div_le_mono) linarith
  also have "\<dots> = k + (al - 1) div al"
    using p div_mult_self2 [of al "al - 1" k] by (simp only: add.commute)
  also have "\<dots> = k" using p by simp
  finally show ?thesis by (simp add: round_up_def k)
qed

lemma ialloc_ok:
  assumes "ialloc n al l = Some (s, m)" "ilist lo hi l" "0 < n" "0 < al"
  shows "al dvd s \<and> lo \<le> s \<and> s + n \<le> hi \<and> {s..<s + n} \<subseteq> ibytes l \<and> ilist lo hi m \<and>
         ibytes m = ibytes l - {s..<s + n}"
  using assms
proof (induction n al l arbitrary: lo m rule: ialloc.induct)
  case (1 n al)
  then show ?case by simp
next
  case (2 n al a b r)
  have g: "a \<le> round_up al a" using 2 round_up_ge by simp
  have r: "ilist (Suc b) hi r" "lo \<le> a" "a < b" "b \<le> hi" using 2 by auto
  have above: "x \<in> ibytes r \<Longrightarrow> b < x" for x using r ibytes_bounds Suc_le_eq by blast
  show ?case
  proof (cases "round_up al a + n \<le> b")
    case True
    then have s: "s = round_up al a"
      and m: "m = (if a < s then [(a, s)] else []) @ (if s + n < b then [(s + n, b)] else []) @ r"
      using 2 by (auto simp: Let_def)
    have "ibytes m = ({a..<s} \<union> {s + n..<b}) \<union> ibytes r" using m g s True by auto
    also have "\<dots> = ({a..<b} \<union> ibytes r) - {s..<s + n}"
      using g s True by (auto dest: above)
    finally have "ibytes m = ibytes ((a, b) # r) - {s..<s + n}" by simp
    moreover have "ilist lo hi m" using m g s True r 2 by (auto intro: ilist_mono)
    moreover have "lo \<le> s \<and> s + n \<le> hi \<and> a \<le> s \<and> s + n \<le> b" using s True r g by linarith
    moreover from this have "{s..<s + n} \<subseteq> {a..<b}" by auto
    then have "{s..<s + n} \<subseteq> ibytes ((a, b) # r)" unfolding ibytes.simps by blast
    moreover have "al dvd s" unfolding s by (rule round_up_dvd)
    ultimately show ?thesis by (elim conjE) (intro conjI; assumption)
  next
    case False
    then obtain m1 where i: "ialloc n al r = Some (s, m1)" and m: "m = (a, b) # m1"
      using 2 by (auto simp: Let_def)
    have h: "al dvd s \<and> Suc b \<le> s \<and> s + n \<le> hi \<and> {s..<s + n} \<subseteq> ibytes r \<and> ilist (Suc b) hi m1 \<and>
         ibytes m1 = ibytes r - {s..<s + n}"
      using 2(1) False i r 2 by simp
    then have "{a..<b} \<inter> {s..<s + n} = {}" by auto
    then show ?thesis using h m r by (auto simp del: ivl_disj_int)
  qed
qed

text \<open>
  First fit is complete: since touching blocks are merged, an aligned free region lies in
  one block, and the lowest aligned address of that block fits.
\<close>

lemma region_in_one:
  assumes "ilist lo hi l" "{s..<s + n} \<subseteq> ibytes l" "0 < n"
  shows "\<exists>(a, b) \<in> set l. a \<le> s \<and> s + n \<le> b"
  using assms
proof (induction l arbitrary: lo rule: ibytes.induct)
  case 1
  then show ?case by auto
next
  case (2 a b r)
  have r: "ilist (Suc b) hi r" "a < b" using 2 by auto
  have above: "x \<in> ibytes r \<Longrightarrow> b < x" for x using r ibytes_bounds Suc_le_eq by blast
  have nb: "b \<notin> {s..<s + n}" using 2 above by fastforce
  show ?case
  proof (cases "s < b")
    case True
    then have "s + n \<le> b" using nb by auto
    moreover have "s \<in> {s..<s + n}" using 2 by simp
    then have "s \<in> ibytes ((a, b) # r)" using 2(3) by blast
    then have "a \<le> s" using above [of s] True by auto
    ultimately show ?thesis by auto
  next
    case False
    then have "{s..<s + n} \<subseteq> ibytes r" using 2 by auto
    then show ?thesis using 2(1) r 2 by auto
  qed
qed

lemma ialloc_fits:
  "(a, b) \<in> set l \<Longrightarrow> al dvd s \<Longrightarrow> a \<le> s \<Longrightarrow> s + n \<le> b \<Longrightarrow> 0 < al \<Longrightarrow> ialloc n al l \<noteq> None"
  by (induction n al l rule: ialloc.induct) (auto simp: Let_def dest: round_up_least)

lemma ialloc_complete:
  assumes "ilist lo hi l" "{s..<s + n} \<subseteq> ibytes l" "al dvd s" "0 < n" "0 < al"
  shows "ialloc n al l \<noteq> None"
  using region_in_one [OF assms(1,2,4)] ialloc_fits assms by blast

text \<open>Every finite set of addresses has a representation.\<close>

lemma ilist_exists:
  assumes "finite X" "X \<subseteq> {lo..<hi}"
  shows "\<exists>l. ilist lo hi l \<and> ibytes l = X"
  using assms
proof (induction X rule: finite_induct)
  case empty
  then show ?case by (intro exI [of _ "[]"]) simp
next
  case (insert x X)
  then obtain l where l: "ilist lo hi l" "ibytes l = X" by auto
  have "{x..<Suc x} \<inter> ibytes l = {}" using l(2) insert.hyps(2) by (auto simp: less_Suc_eq_le)
  then have "ilist lo hi (ifree x (Suc x) l) \<and> ibytes (ifree x (Suc x) l) = {x..<Suc x} \<union> ibytes l"
    using insert.prems l(1) by (intro ifree_ok) auto
  then show ?case using l(2) by (intro exI [of _ "ifree x (Suc x) l"]) auto
qed

text \<open>Releasing what was just allocated gives back the list itself, not only its addresses.\<close>

lemma ifree_ialloc:
  assumes "ialloc n al l = Some (s, m)" "ilist lo hi l" "0 < n" "0 < al"
  shows "ifree s (s + n) m = l"
proof -
  note ok = ialloc_ok [OF assms]
  have "ilist lo hi (ifree s (s + n) m) \<and> ibytes (ifree s (s + n) m) = {s..<s + n} \<union> ibytes m"
    using ok assms by (intro ifree_ok) auto
  then show ?thesis using ok assms by (intro ilist_unique) auto
qed

end
