(* ===== verification/Alloc.thy ===== *)
theory Alloc
  imports Prelude Interfaces Intervals
begin

unbundle bit_operations_syntax

text \<open>
  The physical-memory allocator of the kernel driver: \<open>xrp-kernel/xrp_alloc.c\<close>,
  \<open>xrp_alloc.h\<close> and \<open>xrp_cma_alloc.c\<close>.

  A pool keeps a list of free blocks. The C list is singly linked through \<open>next\<close>; here it
  is a list of blocks in list order. A block that is handed out leaves the list and becomes
  a value of type \<open>allocation\<close>, which names the operations its pool dispatches to.
  The lock is held over each of the two list operations, so each is one atomic step.
\<close>

section \<open>Data\<close>

record block =
  b_start :: phys_addr
  b_size :: u32

record private_pool =
  pp_start :: phys_addr
  pp_size :: u32
  pp_free_list :: "block list"

datatype pool_ops = Private_Pool_Ops | Gfp_Pool_Ops | Cma_Pool_Ops

record allocation =
  al_pool :: pool_ops
  al_start :: phys_addr
  al_size :: u32
  al_ref :: u32

section \<open>Reference counting of an allocation\<close>

definition xrp_allocation_get :: "allocation \<Rightarrow> allocation" where
  "xrp_allocation_get a = a\<lparr>al_ref := al_ref a + 1\<rparr>"

text \<open>\<open>atomic_dec_and_test\<close>: the flag says that this was the last reference.\<close>

definition xrp_allocation_put :: "allocation \<Rightarrow> allocation \<times> bool" where
  "xrp_allocation_put a = (let a' = a\<lparr>al_ref := al_ref a - 1\<rparr> in (a', al_ref a' = 0))"

section \<open>Returning a block to the free list\<close>

text \<open>
  \<open>xrp_private_free\<close>: the loop runs along the list until it finds the block that ends where
  the freed one starts (merge at its tail, and with the next block if the hole is closed),
  or the first block that starts above the freed one (merge at its head, or insert), or the
  end of the list (append). Sums of addresses are 64 bits wide, sums of sizes 32.
\<close>

fun free_into :: "block \<Rightarrow> block list \<Rightarrow> block list" where
  "free_into x [] = [x]"
| "free_into x (cur # rest) =
    (if b_start cur + ucast (b_size cur) = b_start x then
       let cur1 = cur\<lparr>b_size := b_size cur + b_size x\<rparr> in
       (case rest of
          [] \<Rightarrow> [cur1]
        | nxt # rest1 \<Rightarrow>
            if b_start cur1 + ucast (b_size cur1) = b_start nxt
            then cur1\<lparr>b_size := b_size cur1 + b_size nxt\<rparr> # rest1
            else cur1 # nxt # rest1)
     else if b_start x < b_start cur then
       if b_start x + ucast (b_size x) = b_start cur
       then cur\<lparr>b_size := b_size cur + b_size x, b_start := b_start x\<rparr> # rest
       else x # cur # rest
     else cur # free_into x rest)"

definition xrp_private_free :: "private_pool \<Rightarrow> allocation \<Rightarrow> private_pool" where
  "xrp_private_free p a =
     p\<lparr>pp_free_list := free_into \<lparr>b_start = al_start a, b_size = al_size a\<rparr> (pp_free_list p)\<rparr>"

section \<open>Carving an allocation out of the free list\<close>

text \<open>
  The loop of \<open>xrp_private_alloc\<close>. The tag says which of the four ways a block was used: it
  fixes what the C variables \<open>cur\<close> and \<open>new\<close> hold after the loop.
\<close>

datatype carve = Whole | Cut_Head | Cut_Tail | Split

fun alloc_scan :: "u32 \<Rightarrow> u32 \<Rightarrow> block list \<Rightarrow> (carve \<times> phys_addr \<times> block list) option" where
  "alloc_scan sz al [] = None"
| "alloc_scan sz al (cur # rest) =
    (let as = ALIGN (b_start cur) (ucast al);
         cur_end = b_start cur + ucast (b_size cur) in
     if b_start cur \<le> as \<and> as - b_start cur + ucast sz \<le> ucast (b_size cur) then
       if as = b_start cur then
         if as + ucast sz = cur_end then Some (Whole, as, rest)
         else Some (Cut_Head, as,
           cur\<lparr>b_size := ucast (ucast (b_size cur) - (as + ucast sz - b_start cur)),
               b_start := as + ucast sz\<rparr> # rest)
       else
         if as + ucast sz = cur_end
         then Some (Cut_Tail, as, cur\<lparr>b_size := ucast (as - b_start cur)\<rparr> # rest)
         else Some (Split, as,
           cur\<lparr>b_size := ucast (as - b_start cur)\<rparr> #
           \<lparr>b_start = as + ucast sz, b_size = ucast (cur_end - (as + ucast sz))\<rparr> # rest)
     else map_option (\<lambda>(c, a, l). (c, a, cur # l)) (alloc_scan sz al rest))"

text \<open>
  The kernel services the fall-back path uses: the two \<open>kzalloc\<close> calls, \<open>get_order\<close>, the
  constant \<open>MAX_ORDER\<close> and \<open>alloc_pages\<close> (\<open>None\<close> is the null page).
\<close>

record gfp_env =
  ge_kzalloc_new :: bool
  ge_kzalloc_pool :: bool
  ge_get_order :: "u32 \<Rightarrow> nat"
  ge_max_order :: nat
  ge_alloc_pages :: "nat \<Rightarrow> phys_addr option"

text \<open>
  \<open>xrp_alloc_gfp\<close>. The page pointer is not tested after \<open>alloc_pages\<close>; marking the pages of
  a null page reserved is a \<open>Fault\<close>.
\<close>

definition xrp_alloc_gfp :: "gfp_env \<Rightarrow> u32 \<Rightarrow> u32 \<Rightarrow> allocation res" where
  "xrp_alloc_gfp ge sz al =
     (if sz = 0 \<or> al AND (al - 1) \<noteq> 0 then Error EINVAL
      else if \<not> ge_kzalloc_new ge then Error ENOMEM
      else if \<not> ge_kzalloc_pool ge then Error ENOMEM
      else
        let sz1 = ALIGN sz PAGE_SIZE; order = ge_get_order ge sz1 in
        if ge_max_order ge \<le> order then Error ENOMEM
        else case ge_alloc_pages ge order of
            None \<Rightarrow> Oops
          | Some pa \<Rightarrow> Ok (xrp_allocation_get
              \<lparr>al_pool = Gfp_Pool_Ops, al_start = pa, al_size = sz1, al_ref = 0\<rparr>))"

text \<open>
  \<open>xrp_private_alloc\<close>. \<open>kz1\<close> and \<open>kz2\<close> are the results of the first and of the second
  \<open>kzalloc\<close>; the second is only reached when the block was split, and its failure returns
  with the region already off the list.
\<close>

definition xrp_private_alloc ::
  "bool \<Rightarrow> bool \<Rightarrow> gfp_env \<Rightarrow> private_pool \<Rightarrow> u32 \<Rightarrow> u32 \<Rightarrow> private_pool \<times> allocation res" where
  "xrp_private_alloc kz1 kz2 ge p sz al =
     (if sz = 0 \<or> al AND (al - 1) \<noteq> 0 then (p, Error EINVAL)
      else
        let al1 = (if al = 0 then 1 else al) in
        if \<not> kz1 then (p, Error ENOMEM)
        else
          let al2 = ALIGN al1 PAGE_SIZE; sz2 = ALIGN sz PAGE_SIZE in
          case alloc_scan sz2 al2 (pp_free_list p) of
            None \<Rightarrow> (p, case xrp_alloc_gfp ge sz2 al2 of
                          Inr a \<Rightarrow> Ok a
                        | Inl Fault \<Rightarrow> Oops
                        | Inl (Errno _) \<Rightarrow> Error ENOMEM)
          | Some (c, as, l) \<Rightarrow>
              let p' = p\<lparr>pp_free_list := l\<rparr> in
              if c = Split \<and> \<not> kz2 then (p', Error ENOMEM)
              else (p', Ok (xrp_allocation_get
                \<lparr>al_pool = Private_Pool_Ops, al_start = as, al_size = sz2, al_ref = 0\<rparr>)))"

definition xrp_private_offset :: "allocation \<Rightarrow> phys_addr" where
  "xrp_private_offset a = al_start a"

definition xrp_init_private_pool :: "bool \<Rightarrow> bool \<Rightarrow> phys_addr \<Rightarrow> u32 \<Rightarrow> private_pool res" where
  "xrp_init_private_pool kpool kalloc st sz =
     (if \<not> kpool \<or> \<not> kalloc then Error ENOMEM
      else Ok \<lparr>pp_start = st, pp_size = sz, pp_free_list = [\<lparr>b_start = st, b_size = sz\<rparr>]\<rparr>)"

section \<open>The other two providers\<close>

text \<open>
  \<open>xrp_free_gfp\<close>: the pages it clears and frees, given the order \<open>get_order\<close> computes; an
  allocation that is not page aligned is left alone (and leaks). \<open>xrp_cma_alloc\<close>: the
  result of \<open>kzalloc\<close> and the region \<open>dma_alloc_attrs\<close> returned are arguments.
\<close>

definition xrp_free_gfp :: "gfp_env \<Rightarrow> allocation \<Rightarrow> (phys_addr list \<times> phys_addr \<times> nat) option" where
  "xrp_free_gfp ge a =
     (if al_size a AND (PAGE_SIZE - 1) \<noteq> 0 \<or> al_start a AND (PAGE_SIZE - 1) \<noteq> 0 then None
      else Some (map (\<lambda>i. al_start a + of_nat i * PAGE_SIZE) [0..<unat (al_size a) div 2 ^ PAGE_SHIFT],
                 al_start a, ge_get_order ge (al_size a)))"

definition xrp_cma_alloc :: "bool \<Rightarrow> (u32 \<Rightarrow> phys_addr option) \<Rightarrow> u32 \<Rightarrow> allocation res" where
  "xrp_cma_alloc kz dma_alloc sz =
     (let sz1 = ALIGN sz PAGE_SIZE in
      if \<not> kz then Error ENOMEM
      else case dma_alloc sz1 of
          None \<Rightarrow> Error ENOMEM
        | Some pa \<Rightarrow> Ok (xrp_allocation_get
            \<lparr>al_pool = Cma_Pool_Ops, al_start = pa, al_size = sz1, al_ref = 0\<rparr>))"

text \<open>
  \<open>xrp_allocate\<close> and \<open>xrp_free\<close> dispatch through the operations of the pool. An allocation
  of the private pool goes back to its free list; the others leave the list alone.
\<close>

definition xrp_free :: "private_pool \<Rightarrow> allocation \<Rightarrow> private_pool" where
  "xrp_free p a = (case al_pool a of
      Private_Pool_Ops \<Rightarrow> xrp_private_free p a
    | Gfp_Pool_Ops \<Rightarrow> p
    | Cma_Pool_Ops \<Rightarrow> p)"

section \<open>The free list as a list of intervals\<close>

definition b_end :: "block \<Rightarrow> nat" where
  "b_end b = unat (b_start b) + unat (b_size b)"

fun ivs :: "block list \<Rightarrow> interval list" where
  "ivs [] = []"
| "ivs (b # l) = (unat (b_start b), b_end b) # ivs l"

definition pool_range :: "nat \<Rightarrow> nat \<Rightarrow> bool" where
  "pool_range lo hi = (hi < 2 ^ 64 \<and> hi < lo + 2 ^ 32)"

lemma end_word: "b_end b < 2 ^ 64 \<Longrightarrow> unat (b_start b + ucast (b_size b)) = b_end b"
  unfolding b_end_def by (subst unat_add_u64) simp_all

lemma end_eq_start_iff:
  assumes "b_end b < 2 ^ 64"
  shows "b_start b + ucast (b_size b) = s \<longleftrightarrow> b_end b = unat s"
  using end_word [OF assms] by (metis word_unat_eq_iff)

lemma iv_bounds:
  "pool_range lo hi \<Longrightarrow> ilist lo' hi (ivs (b # l)) \<Longrightarrow> b_end b < 2 ^ 64"
  by (simp add: pool_range_def)

lemma grow_end:
  assumes "unat (b_start c) + (unat (b_size c) + unat s) \<le> hi" "pool_range lo hi" "lo \<le> unat (b_start c)"
  shows "b_end (c\<lparr>b_size := b_size c + s\<rparr>) = b_end c + unat s"
proof -
  have s: "unat (b_size c) + unat s < 2 ^ 32" using assms by (simp add: pool_range_def)
  show ?thesis by (simp add: b_end_def unat_add_u32 [OF s])
qed

lemma free_into_refines:
  assumes "pool_range lo hi" "ilist lo' hi (ivs l)" "lo \<le> lo'" "lo \<le> unat (b_start x)" "b_end x \<le> hi"
    "b_size x \<noteq> 0" "{unat (b_start x)..<b_end x} \<inter> ibytes (ivs l) = {}"
  shows "ivs (free_into x l) = ifree (unat (b_start x)) (b_end x) (ivs l)"
  using assms
proof (induction x l arbitrary: lo' rule: free_into.induct)
  case (1 x)
  then show ?case by simp
next
  case (2 x cur rest)
  have x: "unat (b_start x) < b_end x" using 2 by (simp add: b_end_def unat_gt_0)
  have e: "b_end cur < 2 ^ 64" "b_end x < 2 ^ 64"
    using 2 iv_bounds by (auto simp: pool_range_def)
  note w = end_eq_start_iff [OF e(1)] end_eq_start_iff [OF e(2)] word_less_nat_alt
  have c: "lo \<le> unat (b_start cur)" "unat (b_start cur) < b_end cur" "b_end cur \<le> hi"
    "ilist (Suc (b_end cur)) hi (ivs rest)" and d: "{unat (b_start x)..<b_end x} \<inter> ibytes (ivs rest) = {}"
    using 2 by (auto simp del: list.map simp add: Int_Un_distrib)
  show ?case
  proof (cases "b_end cur = unat (b_start x)")
    case True
    then have g: "b_end (cur\<lparr>b_size := b_size cur + b_size x\<rparr>) = b_end x"
      using grow_end [of cur "b_size x" hi lo] 2 c by (simp add: b_end_def)
    show ?thesis
    proof (cases rest)
      case Nil
      then show ?thesis using True g by (simp add: w)
    next
      case (Cons nxt r)
      let ?c = "cur\<lparr>b_size := b_size cur + b_size x\<rparr>"
      have "b_end ?c < 2 ^ 64" using g e by simp
      note w2 = end_eq_start_iff [OF this]
      show ?thesis
      proof (cases "b_end x = unat (b_start nxt)")
        case m: True
        have "b_end nxt \<le> hi" using Cons c by simp
        then have "b_end (?c\<lparr>b_size := b_size ?c + b_size nxt\<rparr>) = b_end ?c + unat (b_size nxt)"
          using grow_end [of ?c "b_size nxt" hi lo] 2 c m g unfolding b_end_def by simp
        then have "b_end (?c\<lparr>b_size := b_size ?c + b_size nxt\<rparr>) = b_end nxt"
          using m g by (simp add: b_end_def)
        then show ?thesis
          using True m g Cons w2 [of "b_start nxt"] by (simp add: w Let_def)
      next
        case False
        then show ?thesis
          using True g Cons w2 [of "b_start nxt"] by (simp add: w Let_def)
      qed
    qed
  next
    case False
    show ?thesis
    proof (cases "unat (b_start x) < unat (b_start cur)")
      case lt: True
      show ?thesis
      proof (cases "b_end x = unat (b_start cur)")
        case True
        have "unat (b_size cur) + unat (b_size x) < 2 ^ 32"
          using 2 c True by (simp add: b_end_def pool_range_def)
        then have "unat (b_size cur + b_size x) = unat (b_size cur) + unat (b_size x)" by (rule unat_add_u32)
        then have "b_end (cur\<lparr>b_size := b_size cur + b_size x, b_start := b_start x\<rparr>) = b_end cur"
          using True by (simp add: b_end_def)
        then show ?thesis using False lt True by (simp add: w)
      next
        case ne: False
        then show ?thesis using False lt by (simp add: w)
      qed
    next
      case ge: False
      have "ivs (free_into x rest) = ifree (unat (b_start x)) (b_end x) (ivs rest)"
        using 2(1)[of "Suc (b_end cur)"] False ge 2 c d by (simp add: w)
      then show ?thesis using False ge by (simp add: w)
    qed
  qed
qed


text \<open>
  The scan: the rounded-up address either wraps to 0, and then the block is skipped as the
  rounded-up natural would exceed it, or it is the rounded-up natural.
\<close>

lemma ALIGN_round_up:
  fixes v :: u64
  assumes "k < 64" "unat v + 2 ^ k \<le> 2 ^ 64"
  shows "unat (ALIGN v (2 ^ k)) = round_up (2 ^ k) (unat v)"
  using unat_ALIGN [of k v] assms by (simp add: round_up_def)

lemma round_up_beyond:
  assumes "k \<le> m" "(2::nat) ^ m < a + 2 ^ k"
  shows "2 ^ m \<le> round_up (2 ^ k) a"
proof -
  obtain q where q: "round_up (2 ^ k) a = 2 ^ k * q" using round_up_dvd [of "2 ^ k" a] by blast
  obtain d where d: "m = k + d" using assms(1) le_Suc_ex by blast
  have "2 ^ k * 2 ^ d < 2 ^ k * q + 2 ^ k"
    using assms(2) round_up_ge [of "2 ^ k" a] by (simp add: d power_add q)
  also have "\<dots> = 2 ^ k * (q + 1)" by simp
  finally have "2 ^ d < q + 1" by (simp only: mult_less_cancel1)
  then have "2 ^ d \<le> q" by simp
  then show ?thesis by (simp add: q d power_add)
qed

definition fits :: "u32 \<Rightarrow> u32 \<Rightarrow> block \<Rightarrow> bool" where
  "fits sz al cur = (let as = ALIGN (b_start cur) (ucast al) in
     b_start cur \<le> as \<and> as - b_start cur + ucast sz \<le> ucast (b_size cur))"

lemma fits_iff:
  assumes k: "k < 32" and al: "al = 2 ^ k" and e: "b_end cur < 2 ^ 64" and ne: "b_size cur \<noteq> 0"
  shows "fits sz al cur \<longleftrightarrow> round_up (2 ^ k) (unat (b_start cur)) + unat sz \<le> b_end cur"
    and "round_up (2 ^ k) (unat (b_start cur)) + unat sz \<le> b_end cur \<Longrightarrow> unat (ALIGN (b_start cur) (ucast al)) = round_up (2 ^ k) (unat (b_start cur))"
proof -
  have ua: "(ucast al :: u64) = 2 ^ k"
    by (rule unat_eq_pow2) (simp add: al unat_pow2 k)
  let ?s = "unat (b_start cur)" and ?r = "round_up (2 ^ k) (unat (b_start cur))"
  let ?as = "ALIGN (b_start cur) (ucast al)" and ?L = "fits sz al cur"
  let ?R = "?r + unat sz \<le> b_end cur"
  have ge: "?s \<le> ?r" by (rule round_up_ge) simp
  have "(?L \<longleftrightarrow> ?R) \<and> (?R \<longrightarrow> unat ?as = ?r)"
  proof (cases "?s + 2 ^ k \<le> 2 ^ 64")
    case True
    have as: "unat ?as = ?r" unfolding ua using True k by (intro ALIGN_round_up) auto
    have "?r < ?s + 2 ^ k" using ALIGN_ge(2) [of k "b_start cur"] True k as ua by simp
    moreover have "(2::nat) ^ k < 2 ^ 32" using k by (intro power_strict_increasing) simp_all
    ultimately have lt: "?r - ?s < 2 ^ 32" by simp
    have le: "b_start cur \<le> ?as" using as ge by (simp add: word_le_nat_alt)
    have d: "unat (?as - b_start cur) = ?r - ?s" using unat_sub [OF le] as by simp
    have "unat (?as - b_start cur + ucast sz) = ?r - ?s + unat sz"
      using lt unat_lt_u32 [of sz] d by (subst unat_add_u64) auto
    then have "?L \<longleftrightarrow> ?r - ?s + unat sz \<le> unat (b_size cur)"
      unfolding fits_def Let_def word_le_nat_alt [of "_ + _"] using le by simp
    also have "\<dots> \<longleftrightarrow> ?R" using ge by (simp add: b_end_def) linarith
    finally show ?thesis using as by simp
  next
    case False
    have "0 < ?s" using False k power_strict_increasing [of k 64 "2::nat"] by linarith
    moreover have "?as = 0" unfolding ua using ALIGN_overflow [of k "b_start cur"] False k by simp
    ultimately have "\<not> b_start cur \<le> ?as" by (simp add: word_le_nat_alt)
    then have "\<not> ?L" by (simp add: fits_def Let_def)
    moreover have "2 ^ 64 \<le> ?r" using round_up_beyond [of k 64] False k by simp
    then have "\<not> ?R" using e by simp
    ultimately show ?thesis by blast
  qed
  then show "?L \<longleftrightarrow> ?R" "?R \<Longrightarrow> unat ?as = ?r" by blast+
qed


lemma alloc_scan_fits:
  "alloc_scan sz al (cur # rest) =
    (let as = ALIGN (b_start cur) (ucast al);
         cur_end = b_start cur + ucast (b_size cur) in
     if fits sz al cur then
       if as = b_start cur then
         if as + ucast sz = cur_end then Some (Whole, as, rest)
         else Some (Cut_Head, as,
           cur\<lparr>b_size := ucast (ucast (b_size cur) - (as + ucast sz - b_start cur)),
               b_start := as + ucast sz\<rparr> # rest)
       else
         if as + ucast sz = cur_end
         then Some (Cut_Tail, as, cur\<lparr>b_size := ucast (as - b_start cur)\<rparr> # rest)
         else Some (Split, as,
           cur\<lparr>b_size := ucast (as - b_start cur)\<rparr> #
           \<lparr>b_start = as + ucast sz, b_size = ucast (cur_end - (as + ucast sz))\<rparr> # rest)
     else map_option (\<lambda>(c, a, l). (c, a, cur # l)) (alloc_scan sz al rest))"
  by (simp add: fits_def Let_def)

lemma ucast_diff:
  fixes a b :: u64
  assumes "unat b \<le> unat a" "unat a - unat b < 2 ^ 32"
  shows "unat (ucast (a - b) :: u32) = unat a - unat b"
proof -
  have "unat (a - b) = unat a - unat b" using assms by (simp add: unat_sub word_le_nat_alt)
  then show ?thesis using assms by (simp add: unat_u64_u32)
qed

lemma alloc_scan_refines:
  assumes "pool_range lo hi" "ilist lo' hi (ivs l)" "lo \<le> lo'" "k < 32" "al = 2 ^ k" "sz \<noteq> 0"
  shows "map_option (\<lambda>(c, as, m). (unat as, ivs m)) (alloc_scan sz al l) = ialloc (unat sz) (2 ^ k) (ivs l)"
  using assms
proof (induction sz al l arbitrary: lo' rule: alloc_scan.induct)
  case (1 sz al)
  then show ?case by simp
next
  case (2 sz al cur rest)
  let ?s = "unat (b_start cur)" and ?r = "round_up (2 ^ k) (unat (b_start cur))"
  let ?as = "ALIGN (b_start cur) (ucast al)"
  have c: "lo \<le> ?s" "?s < b_end cur" "b_end cur \<le> hi"
    "ilist (Suc (b_end cur)) hi (ivs rest)" using 2 by auto
  have e: "b_end cur < 2 ^ 64" and ne: "b_size cur \<noteq> 0" and w: "b_end cur - ?s < 2 ^ 32"
    using c 2 by (auto simp: pool_range_def b_end_def)
  have n: "0 < unat sz" using 2 by (simp add: unat_gt_0)
  note f = fits_iff [OF \<open>k < 32\<close> \<open>al = 2 ^ k\<close> e ne, of sz]
  have ge: "?s \<le> ?r" by (rule round_up_ge) simp
  show ?case
  proof (cases "fits sz al cur")
    case False
    then have "map_option (\<lambda>(c, as, m). (unat as, ivs m)) (alloc_scan sz al rest) =
        ialloc (unat sz) (2 ^ k) (ivs rest)"
      using 2 c by (intro "2.IH" [of _ _ "Suc (b_end cur)"]) (auto simp: fits_def Let_def)
    moreover have "alloc_scan sz al (cur # rest) =
        map_option (\<lambda>(c, a, l). (c, a, cur # l)) (alloc_scan sz al rest)"
      using False by (simp only: alloc_scan_fits Let_def if_False)
    ultimately show ?thesis using False f(1)
      by (cases "alloc_scan sz al rest") (auto simp del: alloc_scan.simps dest!: sym [of "Some _" "ialloc _ _ _"])
  next
    case True
    then have R: "?r + unat sz \<le> b_end cur" using f by simp
    then have as: "unat ?as = ?r" using f by simp
    let ?top = "?as + ucast sz" and ?ce = "b_start cur + ucast (b_size cur)"
    have top: "unat ?top = ?r + unat sz" using R e as by (subst unat_add_u64) simp_all
    have ce: "unat ?ce = b_end cur" using end_word [OF e] .
    have i1: "?as = b_start cur \<longleftrightarrow> ?r = ?s" using as by (simp add: word_unat_eq_iff)
    have i2: "?top = ?ce \<longleftrightarrow> ?r + unat sz = b_end cur" using top ce by (simp add: word_unat_eq_iff)
    have head: "unat (ucast (?as - b_start cur) :: u32) = ?r - ?s"
      using ucast_diff [of "b_start cur" ?as] as ge w R n by simp
    have tail: "unat (ucast (?ce - ?top) :: u32) = b_end cur - (?r + unat sz)"
      using ucast_diff [of ?top ?ce] top ce w R ge by simp
    have top_s: "unat (?top - b_start cur) = ?r + unat sz - ?s"
      using ge top by (simp add: unat_sub word_le_nat_alt)
    have "unat (?top - b_start cur) \<le> unat (ucast (b_size cur) :: u64)"
      using top_s R by (simp add: b_end_def)
    then have cut: "unat (ucast (ucast (b_size cur) - (?top - b_start cur)) :: u32) = b_end cur - (?r + unat sz)"
      using ucast_diff [of "?top - b_start cur" "ucast (b_size cur)"] top_s w R ge n
      by (simp add: b_end_def)
    have scan: "alloc_scan sz al (cur # rest) =
      (if ?r = ?s then
         if ?r + unat sz = b_end cur then Some (Whole, ?as, rest)
         else Some (Cut_Head, ?as,
           cur\<lparr>b_size := ucast (ucast (b_size cur) - (?top - b_start cur)), b_start := ?top\<rparr> # rest)
       else
         if ?r + unat sz = b_end cur
         then Some (Cut_Tail, ?as, cur\<lparr>b_size := ucast (?as - b_start cur)\<rparr> # rest)
         else Some (Split, ?as, cur\<lparr>b_size := ucast (?as - b_start cur)\<rparr> #
           \<lparr>b_start = ?top, b_size = ucast (?ce - ?top)\<rparr> # rest))"
      using True i1 i2 by (simp only: alloc_scan_fits Let_def if_True)
    have ends: "b_end (cur\<lparr>b_size := ucast (ucast (b_size cur) - (?top - b_start cur)), b_start := ?top\<rparr>) = b_end cur"
      "b_end (cur\<lparr>b_size := ucast (?as - b_start cur)\<rparr>) = ?r"
      "b_end \<lparr>b_start = ?top, b_size = ucast (?ce - ?top)\<rparr> = b_end cur"
      using cut head tail top R ge by (simp_all add: b_end_def)
    show ?thesis
      unfolding scan using R ge as top ends by (auto simp: Let_def)
  qed
qed


section \<open>What one call guarantees\<close>

definition pool_bytes :: "private_pool \<Rightarrow> nat set" where
  "pool_bytes p = {unat (pp_start p)..<unat (pp_start p) + unat (pp_size p)}"

definition pool_free :: "private_pool \<Rightarrow> nat set" where
  "pool_free p = ibytes (ivs (pp_free_list p))"

definition pool_wf :: "private_pool \<Rightarrow> bool" where
  "pool_wf p = (unat (pp_start p) + unat (pp_size p) < 2 ^ 64 \<and>
     ilist (unat (pp_start p)) (unat (pp_start p) + unat (pp_size p)) (ivs (pp_free_list p)))"

definition region :: "allocation \<Rightarrow> nat set" where
  "region a = (if al_pool a = Private_Pool_Ops
     then {unat (al_start a)..<unat (al_start a) + unat (al_size a)} else {})"

text \<open>
  The largest request: rounding a larger size up to a page overflows 32 bits.
\<close>

definition MAX_REQUEST :: u32 where
  "MAX_REQUEST = 0xFFFFF000"

definition page_up :: "nat \<Rightarrow> nat" where
  "page_up n = round_up (2 ^ PAGE_SHIFT) n"

definition alignment :: "u32 \<Rightarrow> nat" where
  "alignment al = unat (ALIGN (if al = 0 then 1 else al) PAGE_SIZE)"

lemma pool_wf_range: "pool_wf p \<Longrightarrow> pool_range (unat (pp_start p)) (unat (pp_start p) + unat (pp_size p))"
  using unat_lt_u32 [of "pp_size p"] by (simp add: pool_wf_def pool_range_def)

lemma page_round:
  assumes "sz \<noteq> 0" "sz \<le> MAX_REQUEST"
  shows "unat (ALIGN sz PAGE_SIZE) = page_up (unat sz)" "ALIGN sz PAGE_SIZE \<noteq> 0"
proof -
  have "unat sz + 2 ^ 12 \<le> 2 ^ 32" using assms by (simp add: MAX_REQUEST_def word_le_nat_alt)
  then show e: "unat (ALIGN sz PAGE_SIZE) = page_up (unat sz)"
    using unat_ALIGN [of 12 sz] by (simp add: page_up_def round_up_def PAGE_SHIFT_def)
  have "0 < unat sz" using assms by (simp add: unat_gt_0)
  also have "\<dots> \<le> page_up (unat sz)" unfolding page_up_def by (rule round_up_ge) simp
  finally show "ALIGN sz PAGE_SIZE \<noteq> 0" using e by (metis unat_0 less_irrefl)
qed

lemma alignment_pow2:
  assumes "al AND (al - 1) = 0"
  shows "\<exists>k. 12 \<le> k \<and> k < 32 \<and> ALIGN (if al = 0 then 1 else al) PAGE_SIZE = 2 ^ k \<and> alignment al = 2 ^ k"
proof -
  have "\<exists>j. unat (if al = 0 then 1 else al) = 2 ^ j"
    using word_pow2_test [OF assms] by (cases "al = 0") (auto intro: exI [of _ 0])
  then obtain j where "unat (if al = 0 then 1 else al) = 2 ^ j" ..
  then obtain k where "12 \<le> k" "k < 32" "ALIGN (if al = 0 then 1 else al) PAGE_SIZE = 2 ^ k"
    using ALIGN_page_pow2 by blast
  then show ?thesis by (auto simp: alignment_def unat_pow2)
qed

text \<open>The interval-level fact the allocator rests on.\<close>

lemma scan_ok:
  assumes wf: "pool_wf p" and al: "al AND (al - 1) = 0" and sz: "sz \<noteq> 0" "sz \<le> MAX_REQUEST"
    and scan: "alloc_scan (ALIGN sz PAGE_SIZE) (ALIGN (if al = 0 then 1 else al) PAGE_SIZE) (pp_free_list p) = Some (c, as, l)"
  shows "pool_wf (p\<lparr>pp_free_list := l\<rparr>)"
    and "alignment al dvd unat as"
    and "{unat as..<unat as + page_up (unat sz)} \<subseteq> pool_free p"
    and "pool_free (p\<lparr>pp_free_list := l\<rparr>) = pool_free p - {unat as..<unat as + page_up (unat sz)}"
    and "ialloc (page_up (unat sz)) (alignment al) (ivs (pp_free_list p)) = Some (unat as, ivs l)"
proof -
  let ?lo = "unat (pp_start p)" and ?hi = "unat (pp_start p) + unat (pp_size p)"
  have i: "ilist ?lo ?hi (ivs (pp_free_list p))" using wf by (simp add: pool_wf_def)
  obtain k where k: "k < 32" "ALIGN (if al = 0 then 1 else al) PAGE_SIZE = 2 ^ k" "alignment al = 2 ^ k"
    using alignment_pow2 [OF al] by blast
  have e: "Some (unat as, ivs l) = ialloc (page_up (unat sz)) (2 ^ k) (ivs (pp_free_list p))"
    using alloc_scan_refines [OF pool_wf_range [OF wf] i order_refl k(1,2) page_round(2) [OF sz]]
    by (simp add: scan page_round(1) [OF sz])
  then show "ialloc (page_up (unat sz)) (alignment al) (ivs (pp_free_list p)) = Some (unat as, ivs l)"
    using k by simp
  have "0 < page_up (unat sz)" using page_round [OF sz] by (metis unat_gt_0)
  from ialloc_ok [OF e [symmetric] i this]
  show "pool_wf (p\<lparr>pp_free_list := l\<rparr>)" "alignment al dvd unat as"
    "{unat as..<unat as + page_up (unat sz)} \<subseteq> pool_free p"
    "pool_free (p\<lparr>pp_free_list := l\<rparr>) = pool_free p - {unat as..<unat as + page_up (unat sz)}"
    using wf k by (auto simp: pool_wf_def pool_free_def)
qed

lemma private_alloc_cases:
  assumes "xrp_private_alloc kz1 kz2 ge p sz al = (p', r)"
  obtains (err) e where "p' = p" "r = Inl e"
  | (gfp) a where "p' = p" "r = Ok a" "al_pool a = Gfp_Pool_Ops" "al_ref a = 1"
  | (lost) as l where "r = Error ENOMEM" "p' = p\<lparr>pp_free_list := l\<rparr>" "\<not> kz2" "sz \<noteq> 0" "al AND (al - 1) = 0"
      "alloc_scan (ALIGN sz PAGE_SIZE) (ALIGN (if al = 0 then 1 else al) PAGE_SIZE) (pp_free_list p) = Some (Split, as, l)"
  | (ok) c as l where "r = Ok \<lparr>al_pool = Private_Pool_Ops, al_start = as, al_size = ALIGN sz PAGE_SIZE, al_ref = 1\<rparr>"
      "p' = p\<lparr>pp_free_list := l\<rparr>" "sz \<noteq> 0" "al AND (al - 1) = 0"
      "alloc_scan (ALIGN sz PAGE_SIZE) (ALIGN (if al = 0 then 1 else al) PAGE_SIZE) (pp_free_list p) = Some (c, as, l)"
  using assms unfolding xrp_private_alloc_def xrp_alloc_gfp_def
  by (auto simp: Let_def xrp_allocation_get_def split: if_splits option.splits prod.splits sum.splits err.splits)

lemma private_free_ok:
  assumes wf: "pool_wf p" and a: "al_pool a = Private_Pool_Ops" "al_size a \<noteq> 0" "region a \<subseteq> pool_bytes p"
    "region a \<inter> pool_free p = {}"
  shows "pool_wf (xrp_private_free p a)" and "pool_free (xrp_private_free p a) = region a \<union> pool_free p"
    and "ivs (pp_free_list (xrp_private_free p a)) =
      ifree (unat (al_start a)) (unat (al_start a) + unat (al_size a)) (ivs (pp_free_list p))"
proof -
  let ?b = "\<lparr>b_start = al_start a, b_size = al_size a\<rparr>"
  let ?lo = "unat (pp_start p)" and ?hi = "unat (pp_start p) + unat (pp_size p)"
  have i: "ilist ?lo ?hi (ivs (pp_free_list p))" using wf by (simp add: pool_wf_def)
  have lt: "unat (al_start a) < b_end ?b" using a(2) by (simp add: b_end_def unat_gt_0)
  have be: "?lo \<le> unat (b_start ?b)" "b_end ?b \<le> ?hi"
    using a lt by (auto simp: region_def pool_bytes_def b_end_def)
  have d: "{unat (b_start ?b)..<b_end ?b} \<inter> ibytes (ivs (pp_free_list p)) = {}"
    using a by (simp add: region_def pool_free_def b_end_def)
  have r: "ivs (free_into ?b (pp_free_list p)) = ifree (unat (al_start a)) (b_end ?b) (ivs (pp_free_list p))"
    using free_into_refines [OF pool_wf_range [OF wf] i order_refl be(1) be(2) _ d] a by simp
  then show "ivs (pp_free_list (xrp_private_free p a)) =
      ifree (unat (al_start a)) (unat (al_start a) + unat (al_size a)) (ivs (pp_free_list p))"
    by (simp add: xrp_private_free_def b_end_def)
  have "ilist ?lo ?hi (ifree (unat (al_start a)) (b_end ?b) (ivs (pp_free_list p))) \<and>
      ibytes (ifree (unat (al_start a)) (b_end ?b) (ivs (pp_free_list p))) =
      {unat (al_start a)..<b_end ?b} \<union> ibytes (ivs (pp_free_list p))"
    using i be lt d by (intro ifree_ok) simp_all
  then show "pool_wf (xrp_private_free p a)" "pool_free (xrp_private_free p a) = region a \<union> pool_free p"
    using wf a r by (simp_all add: pool_wf_def pool_free_def xrp_private_free_def region_def b_end_def)
qed

lemma ivs_inj: "ivs l = ivs m \<Longrightarrow> l = m"
proof (induction l arbitrary: m)
  case Nil
  then show ?case by (cases m) auto
next
  case (Cons b l)
  then obtain c q where m: "m = c # q" "ivs l = ivs q" "unat (b_start b) = unat (b_start c)" "b_end b = b_end c"
    by (cases m) auto
  then have "unat (b_size b) = unat (b_size c)" by (simp add: b_end_def)
  then have "b = c" using m(3) by (simp add: word_unat_eq_iff)
  then show ?case using Cons.IH [OF m(2)] m(1) by simp
qed


text \<open>A pool with the same bounds exists for every part of the free memory.\<close>

lemma ivs_exists:
  assumes "ilist lo hi l" "hi < 2 ^ 64" "hi - lo < 2 ^ 32"
  shows "\<exists>bs. ivs bs = l"
  using assms
proof (induction l arbitrary: lo rule: ibytes.induct)
  case 1
  then show ?case by (intro exI [of _ "[]"]) simp
next
  case (2 a b r)
  have i: "lo \<le> a" "a < b" "b \<le> hi" "ilist (Suc b) hi r" using 2 by auto
  obtain bs where bs: "ivs bs = r" using "2.IH" [OF i(4)] "2.prems" i by fastforce
  have "unat (of_nat a :: u64) = a" "unat (of_nat (b - a) :: u32) = b - a"
    using i "2.prems" by (auto intro!: of_nat_inverse)
  then have "ivs (\<lparr>b_start = of_nat a, b_size = of_nat (b - a)\<rparr> # bs) = (a, b) # r"
    using bs i(2) by (simp add: b_end_def)
  then show ?case by blast
qed

lemma pool_without:
  assumes "pool_wf p"
  shows "\<exists>q. pool_wf q \<and> pp_start q = pp_start p \<and> pp_size q = pp_size p \<and> pool_free q = pool_free p - L"
proof -
  let ?lo = "unat (pp_start p)" and ?hi = "unat (pp_start p) + unat (pp_size p)"
  have sub: "pool_free p \<subseteq> {?lo..<?hi}"
    using assms ibytes_bounds by (fastforce simp: pool_wf_def pool_free_def)
  then have "finite (pool_free p - L)" by (meson finite_Diff finite_atLeastLessThan finite_subset)
  then obtain l where l: "ilist ?lo ?hi l" "ibytes l = pool_free p - L"
    using ilist_exists [of "pool_free p - L" ?lo ?hi] sub by blast
  have "?hi - ?lo < 2 ^ 32" using unat_lt_u32 [of "pp_size p"] by simp
  then obtain bs where "ivs bs = l" using ivs_exists [OF l(1)] assms by (auto simp: pool_wf_def)
  then show ?thesis using l assms
    by (intro exI [of _ "p\<lparr>pp_free_list := bs\<rparr>"]) (simp add: pool_wf_def pool_free_def)
qed

section \<open>The life of allocations\<close>

text \<open>
  A state is the pool, the allocations clients hold, and the addresses the failing second
  \<open>kzalloc\<close> has dropped (a ghost: the code forgets them). Clients allocate, take and drop
  references; the last reference returns the block through \<open>xrp_free\<close>.
\<close>

record alloc_state =
  as_pool :: private_pool
  as_held :: "allocation multiset"
  as_lost :: "nat set"

inductive alloc_step :: "alloc_state \<Rightarrow> alloc_state \<Rightarrow> bool" where
  allocate: "sz \<le> MAX_REQUEST \<Longrightarrow> xrp_private_alloc kz1 kz2 ge (as_pool s) sz al = (p', Ok a) \<Longrightarrow>
    alloc_step s (s\<lparr>as_pool := p', as_held := add_mset a (as_held s)\<rparr>)"
| alloc_fail: "sz \<le> MAX_REQUEST \<Longrightarrow> xrp_private_alloc kz1 kz2 ge (as_pool s) sz al = (p', Inl e) \<Longrightarrow>
    alloc_step s (s\<lparr>as_pool := p', as_lost := as_lost s \<union> (pool_free (as_pool s) - pool_free p')\<rparr>)"
| get_ref: "as_held s = add_mset a h \<Longrightarrow> al_ref a \<noteq> - 1 \<Longrightarrow>
    alloc_step s (s\<lparr>as_held := add_mset (xrp_allocation_get a) h\<rparr>)"
| put_ref: "as_held s = add_mset a h \<Longrightarrow> xrp_allocation_put a = (a', False) \<Longrightarrow>
    alloc_step s (s\<lparr>as_held := add_mset a' h\<rparr>)"
| put_last: "as_held s = add_mset a h \<Longrightarrow> xrp_allocation_put a = (a', True) \<Longrightarrow>
    alloc_step s (s\<lparr>as_pool := xrp_free (as_pool s) a', as_held := h\<rparr>)"

definition owners :: "alloc_state \<Rightarrow> nat \<Rightarrow> nat" where
  "owners s x = size {#a \<in># as_held s. x \<in> region a#} + of_bool (x \<in> pool_free (as_pool s)) +
     of_bool (x \<in> as_lost s)"

definition alloc_inv :: "phys_addr \<Rightarrow> u32 \<Rightarrow> alloc_state \<Rightarrow> bool" where
  "alloc_inv st sz s =
    (pp_start (as_pool s) = st \<and> pp_size (as_pool s) = sz \<and> pool_wf (as_pool s) \<and>
     (\<forall>a \<in># as_held s. al_ref a \<noteq> 0 \<and> (al_pool a = Private_Pool_Ops \<longrightarrow> al_size a \<noteq> 0)) \<and>
     (\<forall>x. owners s x = of_bool (x \<in> pool_bytes (as_pool s))))"

definition alloc_initial :: "phys_addr \<Rightarrow> u32 \<Rightarrow> alloc_state \<Rightarrow> bool" where
  "alloc_initial st sz s = (unat st + unat sz < 2 ^ 64 \<and> sz \<noteq> 0 \<and>
     xrp_init_private_pool True True st sz = Ok (as_pool s) \<and> as_held s = {#} \<and> as_lost s = {})"

lemma region_ref [simp]:
  "region (xrp_allocation_get a) = region a" "region (a\<lparr>al_ref := n\<rparr>) = region a"
  by (simp_all add: region_def xrp_allocation_get_def)

lemma held_region:
  assumes "alloc_inv st sz s" "as_held s = add_mset a h"
  shows "region a \<subseteq> pool_bytes (as_pool s)" "region a \<inter> pool_free (as_pool s) = {}"
    "al_pool a = Private_Pool_Ops \<Longrightarrow> al_size a \<noteq> 0"
proof -
  have o: "owners s x = of_bool (x \<in> pool_bytes (as_pool s))" for x
    using assms(1) by (simp add: alloc_inv_def)
  have c: "owners s x = size {#b \<in># h. x \<in> region b#} + 1 + of_bool (x \<in> pool_free (as_pool s)) +
      of_bool (x \<in> as_lost s)" if "x \<in> region a" for x
    using that assms(2) by (simp add: owners_def)
  show "region a \<subseteq> pool_bytes (as_pool s)" "region a \<inter> pool_free (as_pool s) = {}"
    using o c by (fastforce simp: of_bool_def split: if_splits)+
  show "al_pool a = Private_Pool_Ops \<Longrightarrow> al_size a \<noteq> 0"
    using assms by (simp add: alloc_inv_def)
qed

lemma alloc_pool_same:
  assumes "xrp_private_alloc kz1 kz2 ge p sz al = (p', r)"
  shows "pp_start p' = pp_start p" "pp_size p' = pp_size p" "pool_bytes p' = pool_bytes p"
  using assms by (cases rule: private_alloc_cases; auto simp: pool_bytes_def)+

lemma alloc_step_inv:
  assumes "alloc_inv st sz s" "alloc_step s t"
  shows "alloc_inv st sz t"
  using assms(2)
proof cases
  case (allocate rs kz1 kz2 ge al p' a)
  note same = alloc_pool_same [OF allocate(3)]
  have wf: "pool_wf (as_pool s)" using assms(1) by (simp add: alloc_inv_def)
  from allocate(3) show ?thesis
  proof (cases rule: private_alloc_cases)
    case (err e)
    then show ?thesis by simp
  next
    case (gfp b)
    then show ?thesis using assms(1) allocate(1)
      by (simp add: alloc_inv_def owners_def region_def)
  next
    case (lost as l)
    then show ?thesis by simp
  next
    case (ok c as l)
    note sc = scan_ok [OF wf ok(4,3) allocate(2) ok(5)] page_round [OF ok(3) allocate(2)]
    have r: "region a = {unat as..<unat as + page_up (unat rs)}" "al_size a \<noteq> 0" "al_ref a = 1"
      using ok(1) sc by (auto simp: region_def)
    have "owners t x = owners s x" for x
      using r sc(3,4) ok(2) allocate(1) by (auto simp: owners_def)
    then show ?thesis
      using assms(1) allocate(1) same sc(1) ok(2) r by (simp add: alloc_inv_def)
  qed
next
  case (alloc_fail rs kz1 kz2 ge al p' e)
  note same = alloc_pool_same [OF alloc_fail(3)]
  have wf: "pool_wf (as_pool s)" using assms(1) by (simp add: alloc_inv_def)
  from alloc_fail(3) show ?thesis
  proof (cases rule: private_alloc_cases)
    case (err e)
    then show ?thesis using assms(1) alloc_fail(1) by (simp add: alloc_inv_def owners_def)
  next
    case (gfp b)
    then show ?thesis by simp
  next
    case (lost as l)
    note sc = scan_ok [OF wf lost(5,4) alloc_fail(2) lost(6)]
    have o: "owners s x = of_bool (x \<in> pool_bytes (as_pool s))" for x
      using assms(1) by (simp add: alloc_inv_def)
    have nl: "x \<notin> as_lost s" if "x \<in> pool_free (as_pool s)" for x
      using o [of x] that by (auto simp: owners_def of_bool_def split: if_splits)
    have "owners t x = owners s x" for x
      using sc(3,4) lost(2) alloc_fail(1) nl [of x] by (auto simp: owners_def)
    then show ?thesis
      using assms(1) alloc_fail(1) same sc(1) lost(2) by (simp add: alloc_inv_def)
  next
    case (ok c as l)
    then show ?thesis by simp
  qed
next
  case (get_ref a h)
  have "al_ref a + 1 \<noteq> 0" using get_ref(3) by (metis add_eq_0_iff2)
  moreover have "owners t x = owners s x" for x using get_ref(1,2) by (simp add: owners_def)
  ultimately show ?thesis using assms(1) get_ref(1,2)
    by (simp add: alloc_inv_def) (simp add: xrp_allocation_get_def)
next
  case (put_ref a h a')
  have r: "region a' = region a" "al_ref a' \<noteq> 0" "al_pool a' = al_pool a" "al_size a' = al_size a"
    using put_ref(3) by (auto simp: xrp_allocation_put_def Let_def)
  moreover have "owners t x = owners s x" for x using put_ref(1,2) r by (simp add: owners_def)
  ultimately show ?thesis using assms(1) put_ref(1,2) by (simp add: alloc_inv_def)
next
  case (put_last a h a')
  have r: "region a' = region a" "al_pool a' = al_pool a" "al_size a' = al_size a"
    using put_last(3) by (auto simp: xrp_allocation_put_def Let_def)
  note h = held_region [OF assms(1) put_last(2)]
  have wf: "pool_wf (as_pool s)" using assms(1) by (simp add: alloc_inv_def)
  show ?thesis
  proof (cases "al_pool a = Private_Pool_Ops")
    case True
    have f: "pool_wf (xrp_private_free (as_pool s) a')"
      "pool_free (xrp_private_free (as_pool s) a') = region a \<union> pool_free (as_pool s)"
      using private_free_ok [of "as_pool s" a'] wf r True h by simp_all
    have "owners t x = owners s x" for x
      using put_last(1,2) f r True h(2) by (auto simp: owners_def xrp_free_def)
    then show ?thesis using assms(1) put_last(1,2) f r True
      by (simp add: alloc_inv_def xrp_free_def) (simp add: xrp_private_free_def pool_bytes_def)
  next
    case False
    then show ?thesis using assms(1) put_last(1,2) r
      by (cases "al_pool a") (simp_all add: alloc_inv_def owners_def xrp_free_def region_def)
  qed
qed

lemma alloc_initial_inv: "alloc_initial st sz s \<Longrightarrow> alloc_inv st sz s"
proof -
  assume a: "alloc_initial st sz s"
  then have p: "as_pool s = \<lparr>pp_start = st, pp_size = sz, pp_free_list = [\<lparr>b_start = st, b_size = sz\<rparr>]\<rparr>"
    by (simp add: alloc_initial_def xrp_init_private_pool_def)
  show ?thesis using a
    by (simp add: alloc_initial_def alloc_inv_def p pool_wf_def owners_def pool_free_def pool_bytes_def
        b_end_def unat_gt_0)
qed

interpretation pool: invariant_system "alloc_initial st sz" alloc_step "alloc_inv st sz"
  by unfold_locales (auto intro: alloc_initial_inv alloc_step_inv)

section \<open>Properties of the allocator\<close>

text \<open>
  C4: an allocation from the private pool lies in what was free, is aligned as asked and to
  a page, has the requested size rounded up to pages and one reference; exactly its
  addresses leave the free list, which stays well formed.
\<close>

theorem xrp_private_alloc_safe:
  assumes wf: "pool_wf p" and sz: "sz \<le> MAX_REQUEST"
    and r: "xrp_private_alloc kz1 kz2 ge p sz al = (p', Ok a)" and priv: "al_pool a = Private_Pool_Ops"
  shows "pool_wf p' \<and> region a \<subseteq> pool_free p \<and> pool_free p' = pool_free p - region a \<and>
         alignment al dvd unat (al_start a) \<and> 2 ^ PAGE_SHIFT dvd unat (al_start a) \<and>
         unat (al_size a) = page_up (unat sz) \<and> al_ref a = 1"
  using r
proof (cases rule: private_alloc_cases)
  case (ok c as l)
  note sc = scan_ok [OF wf ok(4,3) sz ok(5)] page_round [OF ok(3) sz]
  obtain k where "12 \<le> k" "alignment al = 2 ^ k" using alignment_pow2 [OF ok(4)] by blast
  then have "2 ^ PAGE_SHIFT dvd alignment al" unfolding PAGE_SHIFT_def by (simp only: le_imp_power_dvd)
  then have "2 ^ PAGE_SHIFT dvd unat as" using sc(2) dvd_trans by blast
  then show ?thesis using ok sc by (simp add: region_def)
qed (use priv in auto)

definition demo_pool :: private_pool where
  "demo_pool = \<lparr>pp_start = 0x80000000, pp_size = 0x10000,
     pp_free_list = [\<lparr>b_start = 0x80001000, b_size = 0x2000\<rparr>, \<lparr>b_start = 0x80005000, b_size = 0xB000\<rparr>]\<rparr>"

definition demo_env :: gfp_env where
  "demo_env = \<lparr>ge_kzalloc_new = True, ge_kzalloc_pool = True, ge_get_order = (\<lambda>n. unat n div 4096),
     ge_max_order = 11, ge_alloc_pages = (\<lambda>_. None)\<rparr>"

lemma demo_alloc:
  "xrp_private_alloc True True demo_env demo_pool 0x2800 0x4000 =
     (demo_pool\<lparr>pp_free_list := [\<lparr>b_start = 0x80001000, b_size = 0x2000\<rparr>,
        \<lparr>b_start = 0x80005000, b_size = 0x3000\<rparr>, \<lparr>b_start = 0x8000B000, b_size = 0x5000\<rparr>]\<rparr>,
      Ok \<lparr>al_pool = Private_Pool_Ops, al_start = 0x80008000, al_size = 0x3000, al_ref = 1\<rparr>)"
  by (simp add: xrp_private_alloc_def demo_pool_def ALIGN_def Let_def xrp_allocation_get_def)

lemma demo_wf: "pool_wf demo_pool"
  by (simp add: pool_wf_def demo_pool_def b_end_def)

theorem xrp_private_alloc_safe_witness:
  "pool_wf (fst (xrp_private_alloc True True demo_env demo_pool 0x2800 0x4000))"
  using xrp_private_alloc_safe [OF demo_wf _ demo_alloc] by (simp add: MAX_REQUEST_def demo_alloc)

text \<open>
  C37: first fit is complete. If somewhere in the pool an aligned free region of the
  rounded-up size exists, the allocation is served from the pool and the page-allocator
  fall-back is not taken.
\<close>

theorem xrp_private_alloc_complete:
  assumes wf: "pool_wf p" and sz: "sz \<noteq> 0" "sz \<le> MAX_REQUEST" and al: "al AND (al - 1) = 0"
    and free: "{s..<s + page_up (unat sz)} \<subseteq> pool_free p" and s: "alignment al dvd s"
  shows "\<exists>p' a. xrp_private_alloc True True ge p sz al = (p', Ok a) \<and> al_pool a = Private_Pool_Ops"
proof -
  obtain k where k: "k < 32" "ALIGN (if al = 0 then 1 else al) PAGE_SIZE = 2 ^ k" "alignment al = 2 ^ k"
    using alignment_pow2 [OF al] by blast
  have i: "ilist (unat (pp_start p)) (unat (pp_start p) + unat (pp_size p)) (ivs (pp_free_list p))"
    using wf by (simp add: pool_wf_def)
  have "0 < page_up (unat sz)" using page_round [OF sz] by (metis unat_gt_0)
  then have "ialloc (page_up (unat sz)) (2 ^ k) (ivs (pp_free_list p)) \<noteq> None"
    using ialloc_complete [OF i] free s k by (simp add: pool_free_def)
  then have "alloc_scan (ALIGN sz PAGE_SIZE) (ALIGN (if al = 0 then 1 else al) PAGE_SIZE) (pp_free_list p) \<noteq> None"
    using alloc_scan_refines [OF pool_wf_range [OF wf] i order_refl k(1,2) page_round(2) [OF sz]]
    by (auto simp: page_round(1) [OF sz])
  then show ?thesis
    using sz al by (auto simp: xrp_private_alloc_def Let_def xrp_allocation_get_def split: option.splits)
qed

theorem xrp_private_alloc_complete_witness:
  "\<exists>p' a. xrp_private_alloc True True demo_env demo_pool 0xA800 1 = (p', Ok a) \<and> al_pool a = Private_Pool_Ops"
  by (rule xrp_private_alloc_complete [OF demo_wf, where s = "0x80005000"])
    (simp_all add: MAX_REQUEST_def alignment_def ALIGN_def page_up_def round_up_def PAGE_SHIFT_def
      pool_free_def demo_pool_def b_end_def)

text \<open>
  releasing an allocation undoes it. The free list itself comes back, block by block,
  whatever way the block was carved: neighbours are merged again.
\<close>

theorem xrp_free_undoes_alloc:
  assumes wf: "pool_wf p" and sz: "sz \<le> MAX_REQUEST"
    and r: "xrp_private_alloc kz1 kz2 ge p sz al = (p', Ok a)" and priv: "al_pool a = Private_Pool_Ops"
  shows "xrp_free p' a = p"
  using r
proof (cases rule: private_alloc_cases)
  case (ok c as l)
  note sc = scan_ok [OF wf ok(4,3) sz ok(5)] page_round [OF ok(3) sz]
  have i: "ilist (unat (pp_start p)) (unat (pp_start p) + unat (pp_size p)) (ivs (pp_free_list p))"
    using wf by (simp add: pool_wf_def)
  obtain k where k: "alignment al = 2 ^ k" using alignment_pow2 [OF ok(4)] by blast
  have pos: "0 < page_up (unat sz)" using sc(6,7) by (metis unat_gt_0)
  have "pool_free p \<subseteq> pool_bytes p"
    using ibytes_bounds [OF i] by (auto simp: pool_free_def pool_bytes_def)
  moreover have rg: "region a = {unat as..<unat as + page_up (unat sz)}" "al_size a \<noteq> 0"
    using ok sc by (simp_all add: region_def)
  moreover have "pool_bytes p' = pool_bytes p" using ok by (simp add: pool_bytes_def)
  ultimately have "region a \<subseteq> pool_bytes p'" "region a \<inter> pool_free p' = {}" "al_size a \<noteq> 0"
    using sc(3,4) ok(2) by blast+
  then have "ivs (pp_free_list (xrp_private_free p' a)) =
      ifree (unat as) (unat as + page_up (unat sz)) (ivs l)"
    using private_free_ok(3) [of p' a] sc ok by simp
  also have "\<dots> = ivs (pp_free_list p)"
    using pos k by (intro ifree_ialloc [OF sc(5) i]) simp_all
  finally have "pp_free_list (xrp_private_free p' a) = pp_free_list p" by (rule ivs_inj)
  then show ?thesis using ok by (simp add: xrp_free_def xrp_private_free_def)
qed (use priv in auto)

theorem xrp_free_undoes_alloc_witness:
  "xrp_free (fst (xrp_private_alloc True True demo_env demo_pool 0x2800 0x4000))
     \<lparr>al_pool = Private_Pool_Ops, al_start = 0x80008000, al_size = 0x3000, al_ref = 1\<rparr> = demo_pool"
  using xrp_free_undoes_alloc [OF demo_wf _ demo_alloc] by (simp add: MAX_REQUEST_def demo_alloc)

text \<open>
  C5: ownership. Whatever clients do (allocate with any failure of the kernel's services,
  share, drop), every address of the pool has exactly one owner: it is free, or held by
  one allocation, or lost by a failed call; no address outside the pool has one.
\<close>

theorem pool_ownership:
  assumes "alloc_initial st sz s0" and "alloc_step\<^sup>*\<^sup>* s0 s"
  shows "size {#a \<in># as_held s. x \<in> region a#} + of_bool (x \<in> pool_free (as_pool s)) +
     of_bool (x \<in> as_lost s) = of_bool (x \<in> {unat st..<unat st + unat sz})"
  using pool.reachable_inv [OF assms] by (auto simp: alloc_inv_def owners_def pool_bytes_def)

definition demo_init :: alloc_state where
  "demo_init = \<lparr>as_pool = \<lparr>pp_start = 0x80000000, pp_size = 0x10000,
     pp_free_list = [\<lparr>b_start = 0x80000000, b_size = 0x10000\<rparr>]\<rparr>, as_held = {#}, as_lost = {}\<rparr>"

theorem pool_ownership_witness:
  "\<exists>s. alloc_step\<^sup>*\<^sup>* demo_init s \<and> as_held s \<noteq> {#} \<and>
     size {#a \<in># as_held s. 0x80000800 \<in> region a#} + of_bool (0x80000800 \<in> pool_free (as_pool s)) +
     of_bool (0x80000800 \<in> as_lost s) = (1::nat)"
proof -
  let ?a = "\<lparr>al_pool = Private_Pool_Ops, al_start = 0x80000000, al_size = 0x1000, al_ref = 1\<rparr>"
  let ?p = "(as_pool demo_init)\<lparr>pp_free_list := [\<lparr>b_start = 0x80001000, b_size = 0xF000\<rparr>]\<rparr>"
  let ?s = "demo_init\<lparr>as_pool := ?p, as_held := add_mset ?a (as_held demo_init)\<rparr>"
  have "xrp_private_alloc True True demo_env (as_pool demo_init) 16 16 = (?p, Ok ?a)"
    by (simp add: xrp_private_alloc_def demo_init_def ALIGN_def Let_def xrp_allocation_get_def)
  then have "alloc_step demo_init ?s" by (intro alloc_step.allocate) (auto simp: MAX_REQUEST_def)
  then have st: "alloc_step\<^sup>*\<^sup>* demo_init ?s" by simp
  have "alloc_initial 0x80000000 0x10000 demo_init"
    by (simp add: alloc_initial_def demo_init_def xrp_init_private_pool_def)
  from pool_ownership [OF this st, of "0x80000800"] st show ?thesis by (intro exI [of _ ?s]) simp
qed

text \<open>
  C36: A failing allocation leaves the pool as it was, unless the second \<open>kzalloc\<close> failed:
  then the carved region is gone from the free list though nobody holds it.
\<close>

theorem xrp_private_alloc_error:
  assumes wf: "pool_wf p" and sz: "sz \<le> MAX_REQUEST"
    and r: "xrp_private_alloc kz1 kz2 ge p sz al = (p', Inl e)"
  shows "p' = p \<or> kz2 = False \<and> e = Errno ENOMEM \<and>
    (\<exists>s. {s..<s + page_up (unat sz)} \<subseteq> pool_free p \<and>
         pool_free p' = pool_free p - {s..<s + page_up (unat sz)})"
  using r
proof (cases rule: private_alloc_cases)
  case (lost as l)
  then show ?thesis using scan_ok [OF wf lost(5,4) sz lost(6)] by blast
qed auto

theorem xrp_private_alloc_error_witness:
  "\<exists>p'. xrp_private_alloc True False demo_env demo_pool 0x2800 0x4000 = (p', Error ENOMEM) \<and> p' \<noteq> demo_pool \<and>
    (\<exists>s. {s..<s + page_up 0x2800} \<subseteq> pool_free demo_pool \<and>
         pool_free p' = pool_free demo_pool - {s..<s + page_up 0x2800})"
proof -
  let ?p = "demo_pool\<lparr>pp_free_list := [\<lparr>b_start = 0x80001000, b_size = 0x2000\<rparr>,
        \<lparr>b_start = 0x80005000, b_size = 0x3000\<rparr>, \<lparr>b_start = 0x8000B000, b_size = 0x5000\<rparr>]\<rparr>"
  have r: "xrp_private_alloc True False demo_env demo_pool 0x2800 0x4000 = (?p, Error ENOMEM)"
    by (simp add: xrp_private_alloc_def demo_pool_def ALIGN_def Let_def xrp_allocation_get_def)
  have ne: "?p \<noteq> demo_pool" by (simp add: demo_pool_def)
  from xrp_private_alloc_error [OF demo_wf _ r] r ne show ?thesis by (simp add: MAX_REQUEST_def)
qed

text \<open>
  a request within a page of 4 GiB is rounded up to size 0 and served: the caller
  gets an allocation of no bytes at the start of the first free block.
\<close>

theorem xrp_private_alloc_wraps:
  assumes "MAX_REQUEST < sz" and "pp_free_list p = b # bs" and "ALIGN (b_start b) PAGE_SIZE = b_start b"
    and "b_size b \<noteq> 0"
  shows "xrp_private_alloc True kz2 ge p sz 0 =
    (p, Ok \<lparr>al_pool = Private_Pool_Ops, al_start = b_start b, al_size = 0, al_ref = 1\<rparr>)"
proof -
  have "2 ^ LENGTH(32) < unat sz + 2 ^ 12" using assms(1) by (simp add: MAX_REQUEST_def word_less_nat_alt)
  then have z: "ALIGN sz PAGE_SIZE = 0" using ALIGN_overflow [of 12 sz] by simp
  have one: "ALIGN 1 PAGE_SIZE = (PAGE_SIZE :: u32)" by (simp add: ALIGN_def)
  have nz: "(ucast (b_size b) :: u64) \<noteq> 0"
    using assms(4) by (metis unat_u32_u64 unat_eq_zero unat_0)
  have e: "b_start b \<noteq> b_start b + ucast (b_size b)" using nz by simp
  have "(ucast (ucast (b_size b) :: u64) :: u32) = b_size b"
    by (rule word_unat_eq_iff [THEN iffD2]) (simp add: unat_u64_u32 mod_less unat_lt_u32 [simplified])
  then have "alloc_scan 0 PAGE_SIZE (pp_free_list p) = Some (Cut_Head, b_start b, pp_free_list p)"
    using assms(2,3) e by (simp add: Let_def)
  moreover have "sz \<noteq> 0" using assms(1) by auto
  ultimately show ?thesis
    by (simp add: xrp_private_alloc_def z one xrp_allocation_get_def)
qed

theorem xrp_private_alloc_wraps_witness:
  "xrp_private_alloc True True demo_env demo_pool 0xFFFFF001 0 =
    (demo_pool, Ok \<lparr>al_pool = Private_Pool_Ops, al_start = 0x80001000, al_size = 0, al_ref = 1\<rparr>)"
  using xrp_private_alloc_wraps [where sz = "0xFFFFF001" and p = demo_pool and
      b = "\<lparr>b_start = 0x80001000, b_size = 0x2000\<rparr>"]
  by (simp add: MAX_REQUEST_def demo_pool_def ALIGN_def)

end
