(* ===== verification/Address_Map.thy ===== *)
theory Address_Map
  imports Prelude
begin

text \<open>
  Translation between host physical addresses and addresses seen by the DSP:
  \<open>xrp-kernel/xrp_address_map.c\<close> and \<open>xrp_address_map.h\<close>.

  The kernel's \<open>bsearch\<close> and \<open>sort\<close> and the device-tree readers are arguments of the
  definitions. What is used of \<open>bsearch\<close> is its documented contract (\<open>bsearch_law\<close>): on an
  array ordered for the comparison it returns an element that compares equal, and nothing
  when there is none.
\<close>

section \<open>Data and comparison functions\<close>

record map_entry =
  src_addr :: phys_addr
  dst_addr :: u32
  me_size :: u32

definition XRP_NO_TRANSLATION :: u32 where
  "XRP_NO_TRANSLATION = - 1"

definition OF_BAD_ADDR :: u64 where
  "OF_BAD_ADDR = - 1"

definition xrp_compare_address_sort :: "map_entry \<Rightarrow> map_entry \<Rightarrow> int" where
  "xrp_compare_address_sort pa pb =
     (if src_addr pa < src_addr pb \<and> ucast (me_size pa) \<le> src_addr pb - src_addr pa then -1
      else if src_addr pb < src_addr pa \<and> ucast (me_size pb) \<le> src_addr pa - src_addr pb then 1
      else 0)"

definition xrp_compare_address :: "phys_addr \<Rightarrow> map_entry \<Rightarrow> int" where
  "xrp_compare_address addr entry =
     (if addr < src_addr entry then -1
      else if addr - src_addr entry < ucast (me_size entry) then 0
      else 1)"

definition xrp_compare_dev_address :: "phys_addr \<Rightarrow> map_entry \<Rightarrow> int" where
  "xrp_compare_dev_address addr entry =
     (if addr < ucast (dst_addr entry) then -1
      else if addr - ucast (dst_addr entry) < ucast (me_size entry) then 0
      else 1)"

section \<open>Building the map\<close>

text \<open>
  What \<open>xrp_init_address_map\<close> reads: the cells of the \<open>ranges\<close> property with its length in
  bytes, whether the node has a child, the cell counts, and the device-tree readers. The
  loop stores an entry every \<open>na + pna + ns\<close> cells while cells are left; a store beyond the
  \<open>n\<close> entries that were allocated, and a division by zero cells, is a \<open>Fault\<close>.
\<close>

record dt_env =
  dt_ranges :: "u32 list option"
  dt_child :: bool
  dt_na :: nat
  dt_ns :: nat
  dt_pna :: nat
  dt_translate_address :: "u32 list \<Rightarrow> phys_addr"
  dt_read_number :: "u32 list \<Rightarrow> nat \<Rightarrow> u64"
  dt_kmalloc :: bool
  dt_sort :: "(map_entry \<Rightarrow> map_entry \<Rightarrow> int) \<Rightarrow> map_entry list \<Rightarrow> map_entry list"

definition read_entry :: "dt_env \<Rightarrow> u32 list \<Rightarrow> map_entry" where
  "read_entry dt cells =
     \<lparr>src_addr = dt_translate_address dt cells,
      dst_addr = ucast (dt_read_number dt cells (dt_na dt)),
      me_size = ucast (dt_read_number dt (drop (dt_na dt + dt_pna dt) cells) (dt_ns dt))\<rparr>"

function read_entries :: "dt_env \<Rightarrow> nat \<Rightarrow> u32 list \<Rightarrow> map_entry list res" where
  "read_entries dt room [] = Ok []"
| "read_entries dt room (c # cs) =
    (if room = 0 then Oops
     else case read_entries dt (room - 1) (drop (dt_na dt + dt_pna dt + dt_ns dt) (c # cs)) of
         Inl e \<Rightarrow> Inl e
       | Inr es \<Rightarrow> Ok (read_entry dt (c # cs) # es))"
  by pat_completeness auto
termination by (relation "measure (\<lambda>(dt, room, cs). room)") auto

definition identity_map :: "map_entry list" where
  "identity_map = [\<lparr>src_addr = 0, dst_addr = 0, me_size = - 1\<rparr>]"

definition xrp_init_address_map :: "dt_env \<Rightarrow> map_entry list res" where
  "xrp_init_address_map dt =
     (case dt_ranges dt of
        None \<Rightarrow> if dt_kmalloc dt then Ok identity_map else Oops
      | Some cells \<Rightarrow>
          if \<not> dt_child dt then if dt_kmalloc dt then Ok identity_map else Oops
          else if dt_na dt + dt_pna dt + dt_ns dt = 0 then Oops
          else if \<not> dt_kmalloc dt then Error ENOMEM
          else case read_entries dt (length cells div (dt_na dt + dt_pna dt + dt_ns dt)) cells of
              Inl e \<Rightarrow> Inl e
            | Inr es \<Rightarrow> Ok (dt_sort dt xrp_compare_address_sort es))"

text \<open>
  \<open>xrp_free_address_map\<close> tests \<open>!map->entry\<close>: the flag says whether the table is freed.
\<close>

definition xrp_free_address_map :: "map_entry list option \<Rightarrow> bool" where
  "xrp_free_address_map entry = (case entry of None \<Rightarrow> True | Some _ \<Rightarrow> False)"

section \<open>Translation\<close>

type_synonym bsearch_fn = "(map_entry \<Rightarrow> int) \<Rightarrow> map_entry list \<Rightarrow> map_entry option"

definition xrp_get_address_mapping :: "bsearch_fn \<Rightarrow> map_entry list \<Rightarrow> phys_addr \<Rightarrow> map_entry option" where
  "xrp_get_address_mapping bs mp addr = bs (xrp_compare_address addr) mp"

definition xrp_translate_to_dsp :: "bsearch_fn \<Rightarrow> map_entry list \<Rightarrow> phys_addr \<Rightarrow> u32" where
  "xrp_translate_to_dsp bs mp addr =
     (case xrp_get_address_mapping bs mp addr of
        None \<Rightarrow> XRP_NO_TRANSLATION
      | Some e \<Rightarrow> ucast (ucast (dst_addr e) + addr - src_addr e))"

fun xrp_translate_dsp_to_host :: "map_entry list \<Rightarrow> u32 \<Rightarrow> phys_addr" where
  "xrp_translate_dsp_to_host [] addr = OF_BAD_ADDR"
| "xrp_translate_dsp_to_host (e # es) addr =
    (if dst_addr e \<le> addr \<and> addr < dst_addr e + me_size e
     then src_addr e + ucast addr - ucast (dst_addr e)
     else xrp_translate_dsp_to_host es addr)"

section \<open>Well-formed maps\<close>

text \<open>
  A map is well formed when no region wraps in either address space, the regions are ordered
  in the host space (what the sort achieves) and disjoint in both.
\<close>

definition src_range :: "map_entry \<Rightarrow> nat set" where
  "src_range e = {unat (src_addr e)..<unat (src_addr e) + unat (me_size e)}"

definition dst_range :: "map_entry \<Rightarrow> nat set" where
  "dst_range e = {unat (dst_addr e)..<unat (dst_addr e) + unat (me_size e)}"

definition entry_wf :: "map_entry \<Rightarrow> bool" where
  "entry_wf e = (unat (src_addr e) + unat (me_size e) \<le> 2 ^ 64 \<and>
     unat (dst_addr e) + unat (me_size e) < 2 ^ 32)"

definition map_wf :: "map_entry list \<Rightarrow> bool" where
  "map_wf mp = ((\<forall>e \<in> set mp. entry_wf e) \<and>
     sorted_wrt (\<lambda>d e. unat (src_addr d) + unat (me_size d) \<le> unat (src_addr e)) mp \<and>
     sorted_wrt (\<lambda>d e. dst_range d \<inter> dst_range e = {}) mp)"

definition ordered_for :: "('a \<Rightarrow> int) \<Rightarrow> 'a list \<Rightarrow> bool" where
  "ordered_for cmp xs = sorted_wrt (\<lambda>x y. sgn (cmp y) \<le> sgn (cmp x)) xs"

definition bsearch_law :: "bsearch_fn \<Rightarrow> bool" where
  "bsearch_law bs = (\<forall>cmp xs. ordered_for cmp xs \<longrightarrow>
     (case bs cmp xs of
        None \<Rightarrow> \<forall>e \<in> set xs. cmp e \<noteq> 0
      | Some e \<Rightarrow> e \<in> set xs \<and> cmp e = 0))"

definition linear_search :: bsearch_fn where
  "linear_search cmp xs = List.find (\<lambda>e. cmp e = 0) xs"

lemma linear_search_law: "bsearch_law linear_search"
  by (auto simp: bsearch_law_def linear_search_def find_None_iff find_Some_iff split: option.splits)

lemma compare_zero_iff: "xrp_compare_address addr e = 0 \<longleftrightarrow> unat addr \<in> src_range e"
proof (cases "addr < src_addr e")
  case True
  then show ?thesis by (simp add: xrp_compare_address_def src_range_def word_less_nat_alt)
next
  case False
  then have le: "src_addr e \<le> addr" by simp
  then have "unat (addr - src_addr e) = unat addr - unat (src_addr e)" by (rule unat_sub)
  then show ?thesis using False le
    by (auto simp: xrp_compare_address_def src_range_def word_less_nat_alt word_le_nat_alt)
qed

lemma compare_sign:
  "xrp_compare_address addr e < 0 \<longleftrightarrow> unat addr < unat (src_addr e)"
  "0 < xrp_compare_address addr e \<longleftrightarrow> unat (src_addr e) + unat (me_size e) \<le> unat addr"
  using compare_zero_iff [of addr e]
  by (auto simp: xrp_compare_address_def src_range_def word_less_nat_alt split: if_splits)

lemma map_wf_ordered: "map_wf mp \<Longrightarrow> ordered_for (xrp_compare_address addr) mp"
  unfolding ordered_for_def map_wf_def
proof (elim conjE, rule sorted_wrt_mono_rel)
  fix d e :: map_entry
  assume "unat (src_addr d) + unat (me_size d) \<le> unat (src_addr e)"
  then show "sgn (xrp_compare_address addr e) \<le> sgn (xrp_compare_address addr d)"
    using compare_sign [of addr d] compare_sign [of addr e] compare_zero_iff [of addr d]
    by (auto simp: sgn_if src_range_def)
qed

lemma get_address_mapping:
  assumes "bsearch_law bs" "map_wf mp"
  shows "case xrp_get_address_mapping bs mp addr of
      None \<Rightarrow> \<forall>e \<in> set mp. unat addr \<notin> src_range e
    | Some e \<Rightarrow> e \<in> set mp \<and> unat addr \<in> src_range e"
proof -
  have "case bs (xrp_compare_address addr) mp of
      None \<Rightarrow> \<forall>e \<in> set mp. xrp_compare_address addr e \<noteq> 0
    | Some e \<Rightarrow> e \<in> set mp \<and> xrp_compare_address addr e = 0"
    using assms(1) map_wf_ordered [OF assms(2), of addr] unfolding bsearch_law_def by blast
  then show ?thesis
    by (simp add: xrp_get_address_mapping_def compare_zero_iff split: option.splits)
qed

lemma to_dsp_offset:
  assumes "entry_wf e" "unat addr \<in> src_range e"
  shows "unat (ucast (ucast (dst_addr e) + addr - src_addr e) :: u32) =
    unat (dst_addr e) + (unat addr - unat (src_addr e))"
proof -
  have le: "src_addr e \<le> addr" using assms by (simp add: src_range_def word_le_nat_alt)
  have d: "unat (addr - src_addr e) = unat addr - unat (src_addr e)" using le by (rule unat_sub)
  have small: "unat (dst_addr e) + (unat addr - unat (src_addr e)) < 2 ^ 32"
    using assms by (auto simp: entry_wf_def src_range_def)
  have "unat (ucast (dst_addr e) + (addr - src_addr e)) = unat (dst_addr e) + (unat addr - unat (src_addr e))"
    using small by (subst unat_add_u64) (simp_all add: d)
  then show ?thesis using small by (simp add: unat_u64_u32 add_diff_eq)
qed

lemma dst_test:
  assumes "entry_wf e"
  shows "(dst_addr e \<le> a \<and> a < dst_addr e + me_size e) \<longleftrightarrow> unat a \<in> dst_range e"
proof -
  have "unat (dst_addr e + me_size e) = unat (dst_addr e) + unat (me_size e)"
    using assms by (intro unat_add_u32) (simp add: entry_wf_def)
  then show ?thesis by (auto simp: dst_range_def word_less_nat_alt word_le_nat_alt)
qed

lemma dsp_to_host_hit:
  assumes "map_wf mp" "e \<in> set mp" "unat a \<in> dst_range e"
  shows "xrp_translate_dsp_to_host mp a = src_addr e + ucast a - ucast (dst_addr e)"
  using assms
proof (induction mp)
  case Nil
  then show ?case by simp
next
  case (Cons d mp)
  have w: "entry_wf d" "map_wf mp" using Cons by (auto simp: map_wf_def)
  show ?case
  proof (cases "unat a \<in> dst_range d")
    case True
    then have "d = e" using Cons by (auto simp: map_wf_def)
    then show ?thesis using True dst_test [OF w(1)] by auto
  next
    case False
    then show ?thesis using Cons w dst_test [OF w(1)] by auto
  qed
qed

section \<open>What the sort of the initialisation achieves\<close>

text \<open>
  The contract of the kernel's \<open>sort\<close>: when the comparison is antisymmetric and transitive on
  the elements, the result is a permutation in which no element compares above a later one.
\<close>

definition sort_law :: "((map_entry \<Rightarrow> map_entry \<Rightarrow> int) \<Rightarrow> map_entry list \<Rightarrow> map_entry list) \<Rightarrow> bool" where
  "sort_law srt = (\<forall>cmp xs.
     (\<forall>x \<in> set xs. \<forall>y \<in> set xs. cmp y x = - cmp x y) \<longrightarrow>
     (\<forall>x \<in> set xs. \<forall>y \<in> set xs. \<forall>z \<in> set xs. cmp x y \<le> 0 \<longrightarrow> cmp y z \<le> 0 \<longrightarrow> cmp x z \<le> 0) \<longrightarrow>
     mset (srt cmp xs) = mset xs \<and> sorted_wrt (\<lambda>x y. cmp x y \<le> 0) (srt cmp xs))"

fun insert_cmp :: "('a \<Rightarrow> 'a \<Rightarrow> int) \<Rightarrow> 'a \<Rightarrow> 'a list \<Rightarrow> 'a list" where
  "insert_cmp cmp x [] = [x]"
| "insert_cmp cmp x (y # ys) = (if cmp x y \<le> 0 then x # y # ys else y # insert_cmp cmp x ys)"

definition insertion_sort :: "('a \<Rightarrow> 'a \<Rightarrow> int) \<Rightarrow> 'a list \<Rightarrow> 'a list" where
  "insertion_sort cmp xs = foldr (insert_cmp cmp) xs []"

lemma insert_cmp_mset [simp]: "mset (insert_cmp cmp x ys) = add_mset x (mset ys)"
  by (induction ys) auto

lemma insert_cmp_sorted:
  assumes "\<forall>a \<in> S. \<forall>b \<in> S. cmp b a = - cmp a b"
    "\<forall>a \<in> S. \<forall>b \<in> S. \<forall>c \<in> S. cmp a b \<le> 0 \<longrightarrow> cmp b c \<le> 0 \<longrightarrow> cmp a c \<le> (0 :: int)"
    "x \<in> S" "set ys \<subseteq> S" "sorted_wrt (\<lambda>x y. cmp x y \<le> 0) ys"
  shows "sorted_wrt (\<lambda>x y. cmp x y \<le> 0) (insert_cmp cmp x ys)"
  using assms(4,5)
proof (induction ys)
  case Nil
  then show ?case by simp
next
  case (Cons y ys)
  have se: "set (insert_cmp cmp x ys) = insert x (set ys)" by (metis insert_cmp_mset set_mset_add_mset_insert set_mset_mset)
  show ?case
  proof (cases "cmp x y \<le> 0")
    case True
    have "cmp x z \<le> 0" if "z \<in> set ys" for z
    proof -
      have "cmp y z \<le> 0" "y \<in> S" "z \<in> S" using Cons that by auto
      then show ?thesis using assms(2,3) True by blast
    qed
    then show ?thesis using Cons True by simp
  next
    case False
    have "y \<in> S" using Cons by simp
    then have "cmp y x = - cmp x y" using assms(1,3) by blast
    then have "cmp y x \<le> 0" using False by simp
    then show ?thesis using Cons False se by simp
  qed
qed

lemma insertion_sort_law: "sort_law insertion_sort"
proof -
  have "mset (insertion_sort cmp xs) = mset xs" for cmp and xs :: "map_entry list"
    unfolding insertion_sort_def by (induction xs) auto
  moreover have "sorted_wrt (\<lambda>x y. cmp x y \<le> 0) (insertion_sort cmp xs)"
    if "\<forall>x \<in> S. \<forall>y \<in> S. cmp y x = - cmp x y" "set xs \<subseteq> S"
      "\<forall>x \<in> S. \<forall>y \<in> S. \<forall>z \<in> S. cmp x y \<le> 0 \<longrightarrow> cmp y z \<le> 0 \<longrightarrow> cmp x z \<le> 0"
    for cmp and xs :: "map_entry list" and S
    using that(2)
  proof (induction xs)
    case Nil
    then show ?case by (simp add: insertion_sort_def)
  next
    case (Cons x xs)
    have "set (insertion_sort cmp xs) = set xs" by (metis calculation set_mset_mset)
    then show ?case using insert_cmp_sorted [OF that(1,3), of x "insertion_sort cmp xs"] Cons
      by (simp add: insertion_sort_def)
  qed
  ultimately show ?thesis unfolding sort_law_def by blast
qed

definition separate :: "map_entry \<Rightarrow> map_entry \<Rightarrow> bool" where
  "separate d e = (unat (src_addr d) + unat (me_size d) \<le> unat (src_addr e))"

lemma compare_sort_neg:
  assumes "me_size d \<noteq> 0" "separate d e"
  shows "xrp_compare_address_sort d e = -1" "xrp_compare_address_sort e d = 1"
proof -
  have lt: "src_addr d < src_addr e"
    using assms by (auto simp: separate_def word_less_nat_alt simp flip: unat_gt_0)
  then have "unat (src_addr e - src_addr d) = unat (src_addr e) - unat (src_addr d)"
    by (intro unat_sub) simp
  then have "ucast (me_size d) \<le> src_addr e - src_addr d"
    using assms by (simp add: separate_def word_le_nat_alt)
  then show "xrp_compare_address_sort d e = -1" "xrp_compare_address_sort e d = 1"
    using lt by (auto simp: xrp_compare_address_sort_def)
qed

lemma sorted_by_compare:
  assumes "sort_law srt" "distinct xs" "\<forall>e \<in> set xs. me_size e \<noteq> 0"
    "\<forall>d \<in> set xs. \<forall>e \<in> set xs. d \<noteq> e \<longrightarrow> separate d e \<or> separate e d"
  shows "mset (srt xrp_compare_address_sort xs) = mset xs \<and>
    sorted_wrt separate (srt xrp_compare_address_sort xs)"
proof -
  let ?c = xrp_compare_address_sort
  have self: "?c e e = 0" for e by (simp add: xrp_compare_address_sort_def)
  have neg: "?c d e \<le> 0 \<longleftrightarrow> d = e \<or> separate d e" if "d \<in> set xs" "e \<in> set xs" for d e
    using compare_sort_neg that assms(3,4) self by (metis neg_le_0_iff_le not_one_le_zero zero_le_one order_refl)
  have anti: "\<forall>x \<in> set xs. \<forall>y \<in> set xs. ?c y x = - ?c x y"
    using compare_sort_neg assms(3,4) self by (metis minus_minus neg_0_equal_iff_equal)
  have trans: "\<forall>x \<in> set xs. \<forall>y \<in> set xs. \<forall>z \<in> set xs. ?c x y \<le> 0 \<longrightarrow> ?c y z \<le> 0 \<longrightarrow> ?c x z \<le> 0"
    using neg by (auto simp: separate_def)
  have s: "mset (srt ?c xs) = mset xs" "sorted_wrt (\<lambda>x y. ?c x y \<le> 0) (srt ?c xs)"
    using assms(1) anti trans unfolding sort_law_def by blast+
  have st: "set (srt ?c xs) = set xs" "distinct (srt ?c xs)"
    using s(1) assms(2) by (metis set_mset_mset) (metis s(1) assms(2) mset_eq_imp_distinct_iff)
  have "sorted_wrt separate (srt ?c xs)"
    unfolding sorted_wrt_iff_nth_less
  proof (intro allI impI)
    fix i j
    assume ij: "i < j" "j < length (srt ?c xs)"
    then have "?c (srt ?c xs ! i) (srt ?c xs ! j) \<le> 0" using s(2) by (simp add: sorted_wrt_iff_nth_less)
    moreover have "srt ?c xs ! i \<noteq> srt ?c xs ! j" using st(2) ij by (simp add: nth_eq_iff_index_eq)
    ultimately show "separate (srt ?c xs ! i) (srt ?c xs ! j)"
      using neg st(1) ij by (metis nth_mem less_trans)
  qed
  then show ?thesis using s(1) by simp
qed

section \<open>Reading the device tree\<close>

definition cells_per_entry :: "dt_env \<Rightarrow> nat" where
  "cells_per_entry dt = dt_na dt + dt_pna dt + dt_ns dt"

definition dt_entries :: "dt_env \<Rightarrow> u32 list \<Rightarrow> map_entry list" where
  "dt_entries dt cells =
     map (\<lambda>i. read_entry dt (drop (i * cells_per_entry dt) cells)) [0..<length cells div cells_per_entry dt]"

lemma read_entries_exact:
  assumes "0 < cells_per_entry dt"
  shows "length cells = n * cells_per_entry dt \<Longrightarrow>
    read_entries dt n cells = Ok (map (\<lambda>i. read_entry dt (drop (i * cells_per_entry dt) cells)) [0..<n])"
proof (induction n arbitrary: cells)
  case 0
  then show ?case by simp
next
  case (Suc n)
  then obtain c cs where c: "cells = c # cs" using assms by (cases cells) auto
  let ?k = "cells_per_entry dt"
  have "read_entries dt n (drop ?k cells) =
      Ok (map (\<lambda>i. read_entry dt (drop (i * ?k) (drop ?k cells))) [0..<n])"
    using Suc by simp
  moreover have "[0..<Suc n] = 0 # map Suc [0..<n]" by (simp add: map_Suc_upt upt_conv_Cons)
  ultimately show ?case using c by (simp add: cells_per_entry_def add.commute)
qed

lemma read_entries_over:
  assumes "0 < cells_per_entry dt"
  shows "n * cells_per_entry dt < length cells \<Longrightarrow> read_entries dt n cells = Oops"
proof (induction n arbitrary: cells)
  case 0
  then show ?case by (cases cells) auto
next
  case (Suc n)
  then obtain c cs where c: "cells = c # cs" by (cases cells) auto
  have "read_entries dt n (drop (cells_per_entry dt) cells) = Oops" using Suc by simp
  then show ?case using c by (simp add: cells_per_entry_def)
qed

section \<open>Properties of the address map\<close>

definition demo_map :: "map_entry list" where
  "demo_map = [\<lparr>src_addr = 0x1000, dst_addr = 0x8000, me_size = 0x1000\<rparr>,
     \<lparr>src_addr = 0xF00000000, dst_addr = 0x20000, me_size = 0x10000\<rparr>]"

lemma demo_map_wf: "map_wf demo_map"
  by (simp add: map_wf_def demo_map_def entry_wf_def dst_range_def)

lemma map_wf_src_unique:
  "map_wf mp \<Longrightarrow> d \<in> set mp \<Longrightarrow> e \<in> set mp \<Longrightarrow> x \<in> src_range d \<Longrightarrow> x \<in> src_range e \<Longrightarrow> d = e"
  by (induction mp) (auto simp: map_wf_def src_range_def)

text \<open>
  C6: on a well-formed map a host address inside a region is translated to the same
  offset of the region's device range, and translating back gives the host address.
\<close>

theorem translate_round_trip:
  assumes bs: "bsearch_law bs" and wf: "map_wf mp" and e: "e \<in> set mp" and a: "unat addr \<in> src_range e"
  shows "unat (xrp_translate_to_dsp bs mp addr) = unat (dst_addr e) + (unat addr - unat (src_addr e)) \<and>
         xrp_translate_dsp_to_host mp (xrp_translate_to_dsp bs mp addr) = addr"
proof -
  obtain d where d: "xrp_get_address_mapping bs mp addr = Some d" "d \<in> set mp" "unat addr \<in> src_range d"
    using get_address_mapping [OF bs wf, of addr] e a by (auto split: option.splits)
  have wd: "entry_wf d" "entry_wf e" using wf d e by (auto simp: map_wf_def)
  have "d = e" using map_wf_src_unique [OF wf d(2) e d(3) a] .
  then have t: "xrp_translate_to_dsp bs mp addr = ucast (ucast (dst_addr e) + addr - src_addr e)"
    using d by (simp add: xrp_translate_to_dsp_def)
  have u: "unat (xrp_translate_to_dsp bs mp addr) = unat (dst_addr e) + (unat addr - unat (src_addr e))"
    unfolding t using to_dsp_offset wd a by blast
  moreover have "unat (xrp_translate_to_dsp bs mp addr) \<in> dst_range e"
    using u a by (auto simp: dst_range_def src_range_def)
  then have "xrp_translate_dsp_to_host mp (xrp_translate_to_dsp bs mp addr) =
      src_addr e + ucast (xrp_translate_to_dsp bs mp addr) - ucast (dst_addr e)"
    by (rule dsp_to_host_hit [OF wf e])
  moreover have "(ucast (xrp_translate_to_dsp bs mp addr) :: u64) = ucast (dst_addr e) + (addr - src_addr e)"
  proof (rule word_unat_eq_iff [THEN iffD2])
    have le: "src_addr e \<le> addr" using a by (simp add: src_range_def word_le_nat_alt)
    have "unat (addr - src_addr e) = unat addr - unat (src_addr e)" using le by (rule unat_sub)
    moreover have "unat (dst_addr e) + (unat addr - unat (src_addr e)) < 2 ^ 64"
      using u unat_lt_u32 [of "xrp_translate_to_dsp bs mp addr"] by simp
    ultimately show "unat (ucast (xrp_translate_to_dsp bs mp addr) :: u64) =
        unat (ucast (dst_addr e) + (addr - src_addr e))"
      using u by (subst unat_add_u64) simp_all
  qed
  ultimately show ?thesis by simp
qed

theorem translate_round_trip_witness:
  "xrp_translate_dsp_to_host demo_map (xrp_translate_to_dsp linear_search demo_map 0xF00001234) = 0xF00001234"
  using translate_round_trip [OF linear_search_law demo_map_wf,
      of "\<lparr>src_addr = 0xF00000000, dst_addr = 0x20000, me_size = 0x10000\<rparr>" "0xF00001234"]
  by (simp add: demo_map_def src_range_def)

text \<open>
  outside every region neither direction invents an address: the result is the
  sentinel of that direction.
\<close>

theorem translate_unmapped:
  assumes "bsearch_law bs" "map_wf mp"
  shows "((\<forall>e \<in> set mp. unat addr \<notin> src_range e) \<longrightarrow> xrp_translate_to_dsp bs mp addr = XRP_NO_TRANSLATION) \<and>
         ((\<forall>e \<in> set mp. unat a \<notin> dst_range e) \<longrightarrow> xrp_translate_dsp_to_host mp a = OF_BAD_ADDR)"
proof (intro conjI impI)
  assume "\<forall>e \<in> set mp. unat addr \<notin> src_range e"
  then show "xrp_translate_to_dsp bs mp addr = XRP_NO_TRANSLATION"
    using get_address_mapping [OF assms, of addr]
    by (auto simp: xrp_translate_to_dsp_def split: option.splits)
next
  assume h: "\<forall>e \<in> set mp. unat a \<notin> dst_range e"
  have "\<forall>e \<in> set mp. entry_wf e" using assms(2) by (simp add: map_wf_def)
  with h show "xrp_translate_dsp_to_host mp a = OF_BAD_ADDR"
  proof (induction mp)
    case (Cons e mp)
    then show ?case using dst_test [of e a] by auto
  qed simp
qed

theorem translate_unmapped_witness:
  "xrp_translate_to_dsp linear_search demo_map 0x2000 = XRP_NO_TRANSLATION \<and>
   xrp_translate_dsp_to_host demo_map 0x7FFF = OF_BAD_ADDR"
  using translate_unmapped [OF linear_search_law demo_map_wf, of "0x2000" "0x7FFF"]
  by (simp add: demo_map_def src_range_def dst_range_def)

text \<open>
  a region that ends at the top of the 32-bit device space cannot be translated back:
  its end wraps to 0 and the test of \<open>xrp_translate_dsp_to_host\<close> never holds.
\<close>

theorem top_region_untranslatable:
  assumes "unat (dst_addr e) + unat (me_size e) = 2 ^ 32"
  shows "xrp_translate_dsp_to_host (e # es) a = xrp_translate_dsp_to_host es a"
proof -
  have "unat (dst_addr e + me_size e) = 0"
    using assms unat_plus_if' [of "dst_addr e" "me_size e"] by simp
  then show ?thesis by (simp add: word_less_nat_alt)
qed

theorem top_region_untranslatable_witness:
  "xrp_translate_dsp_to_host [\<lparr>src_addr = 0x1000, dst_addr = 0xFFFFF000, me_size = 0x1000\<rparr>]
     (xrp_translate_to_dsp linear_search [\<lparr>src_addr = 0x1000, dst_addr = 0xFFFFF000, me_size = 0x1000\<rparr>] 0x1800)
   = OF_BAD_ADDR"
  by (subst top_region_untranslatable) simp_all

text \<open>
  when the \<open>ranges\<close> property is a whole number of entries that describe non-empty
  regions, separate in the host space and disjoint in the device space, the map the
  initialisation builds is well formed and holds exactly those entries; when cells are
  left over, the loop stores behind the end of the table.
\<close>

theorem xrp_init_address_map_wf:
  assumes env: "dt_ranges dt = Some cells" "dt_child dt" "dt_kmalloc dt" "0 < cells_per_entry dt"
    and srt: "sort_law (dt_sort dt)"
    and es: "distinct (dt_entries dt cells)" "\<forall>e \<in> set (dt_entries dt cells). entry_wf e \<and> me_size e \<noteq> 0"
      "\<forall>d \<in> set (dt_entries dt cells). \<forall>e \<in> set (dt_entries dt cells). d \<noteq> e \<longrightarrow>
         (separate d e \<or> separate e d) \<and> dst_range d \<inter> dst_range e = {}"
  shows "if cells_per_entry dt dvd length cells
    then \<exists>mp. xrp_init_address_map dt = Ok mp \<and> map_wf mp \<and> mset mp = mset (dt_entries dt cells)
    else xrp_init_address_map dt = Oops"
proof (cases "cells_per_entry dt dvd length cells")
  case True
  let ?mp = "dt_sort dt xrp_compare_address_sort (dt_entries dt cells)"
  have "read_entries dt (length cells div cells_per_entry dt) cells = Ok (dt_entries dt cells)"
    unfolding dt_entries_def using True env(4) by (intro read_entries_exact) simp_all
  then have r: "xrp_init_address_map dt = Ok ?mp"
    using env by (simp add: xrp_init_address_map_def cells_per_entry_def)
  have s: "mset ?mp = mset (dt_entries dt cells)" "sorted_wrt separate ?mp"
    using sorted_by_compare [OF srt es(1)] es(2,3) by auto
  have st: "set ?mp = set (dt_entries dt cells)" "distinct ?mp"
    using s(1) es(1) by (metis set_mset_mset) (metis s(1) es(1) mset_eq_imp_distinct_iff)
  have "sorted_wrt (\<lambda>d e. dst_range d \<inter> dst_range e = {}) ?mp"
    unfolding sorted_wrt_iff_nth_less
  proof (intro allI impI)
    fix i j assume ij: "i < j" "j < length ?mp"
    then have "?mp ! i \<noteq> ?mp ! j" using st(2) by (simp add: nth_eq_iff_index_eq)
    then show "dst_range (?mp ! i) \<inter> dst_range (?mp ! j) = {}"
      using es(3) st(1) ij by (metis nth_mem less_trans)
  qed
  then have "map_wf ?mp" using s(2) st(1) es(2) by (simp add: map_wf_def separate_def [abs_def])
  then show ?thesis using True r s(1) by simp
next
  case False
  then have "length cells div cells_per_entry dt * cells_per_entry dt < length cells"
    by (metis div_times_less_eq_dividend dvd_triv_right le_neq_implies_less)
  then have "read_entries dt (length cells div cells_per_entry dt) cells = Oops"
    by (rule read_entries_over [OF env(4)])
  then show ?thesis using env False by (simp add: xrp_init_address_map_def cells_per_entry_def)
qed

definition demo_dt :: dt_env where
  "demo_dt = \<lparr>dt_ranges = Some [0x8000, 0x5000, 0x1000, 0x9000, 0x1000, 0x1000], dt_child = True,
     dt_na = 1, dt_ns = 1, dt_pna = 1, dt_translate_address = (\<lambda>cs. ucast (cs ! 1)),
     dt_read_number = (\<lambda>cs n. ucast (cs ! 0)), dt_kmalloc = True, dt_sort = insertion_sort\<rparr>"

theorem xrp_init_address_map_wf_witness:
  "\<exists>mp. xrp_init_address_map demo_dt = Ok mp \<and> map_wf mp \<and>
     mset mp = mset [\<lparr>src_addr = 0x5000, dst_addr = 0x8000, me_size = 0x1000\<rparr>,
                     \<lparr>src_addr = 0x1000, dst_addr = 0x9000, me_size = 0x1000\<rparr>]"
proof -
  have c: "dt_entries demo_dt [0x8000, 0x5000, 0x1000, 0x9000, 0x1000, 0x1000] =
      [\<lparr>src_addr = 0x5000, dst_addr = 0x8000, me_size = 0x1000\<rparr>,
       \<lparr>src_addr = 0x1000, dst_addr = 0x9000, me_size = 0x1000\<rparr>]"
    by (simp add: dt_entries_def demo_dt_def cells_per_entry_def read_entry_def upt_rec)
  have "cells_per_entry demo_dt dvd length [0x8000, 0x5000, 0x1000, 0x9000, 0x1000, 0x1000 :: u32]"
    by (rule dvdI [where k = 2]) (simp add: cells_per_entry_def demo_dt_def)
  then show ?thesis
    using xrp_init_address_map_wf [of demo_dt "[0x8000, 0x5000, 0x1000, 0x9000, 0x1000, 0x1000]"]
      insertion_sort_law
    unfolding c by (simp add: demo_dt_def cells_per_entry_def entry_wf_def separate_def dst_range_def)
qed

end
