(* ===== verification/Ns_Map.thy ===== *)
theory Ns_Map
  imports Prelude Interfaces "HOL-Library.List_Lexorder"
begin

text \<open>
  The table of command namespaces, \<open>xrp-common/xrp_ns.c\<close>: a growing array kept sorted by
  namespace identifier, searched by bisection. The array is modelled with its whole
  capacity: \<open>memmove\<close> works on the cells, and a move or a store outside the array is a
  \<open>Fault\<close>. \<open>size_t\<close> counters are naturals.
\<close>

section \<open>Identifiers\<close>

text \<open>
  Identifiers are 16 bytes ordered by \<open>memcmp\<close>, as unsigned characters. They are an
  instance of \<open>linorder\<close>; on identifiers of one length that order is the sign of \<open>memcmp\<close>.
\<close>

fun memcmp :: "u8 list \<Rightarrow> u8 list \<Rightarrow> int" where
  "memcmp (x # xs) (y # ys) = (if x = y then memcmp xs ys else uint x - uint y)"
| "memcmp _ _ = 0"

datatype nsid = Nsid (nsid_bytes: "u8 list")

definition XRP_NAMESPACE_ID_SIZE :: nat where
  "XRP_NAMESPACE_ID_SIZE = 16"

definition nsid_ok :: "nsid \<Rightarrow> bool" where
  "nsid_ok i = (length (nsid_bytes i) = XRP_NAMESPACE_ID_SIZE)"

instantiation nsid :: linorder
begin

definition less_eq_nsid :: "nsid \<Rightarrow> nsid \<Rightarrow> bool" where
  "less_eq_nsid a b = (nsid_bytes a \<le> nsid_bytes b)"

definition less_nsid :: "nsid \<Rightarrow> nsid \<Rightarrow> bool" where
  "less_nsid a b = (nsid_bytes a < nsid_bytes b)"

instance
  by standard (auto simp: less_eq_nsid_def less_nsid_def nsid.expand)

end

record cmd_ns =
  ns_id :: nsid
  ns_handler :: nat
  ns_context :: nat

record cmd_ns_map =
  n_cmd_ns :: nat
  size_cmd_ns :: nat
  ns_array :: "cmd_ns list"

definition compare_cmd_ns :: "nsid \<Rightarrow> cmd_ns \<Rightarrow> int" where
  "compare_cmd_ns i c = memcmp (nsid_bytes i) (nsid_bytes (ns_id c))"

definition xrp_cmd_ns_match :: "nsid \<Rightarrow> cmd_ns option \<Rightarrow> bool" where
  "xrp_cmd_ns_match i c = (case c of None \<Rightarrow> False | Some e \<Rightarrow> compare_cmd_ns i e = 0)"

section \<open>Search\<close>

text \<open>A pointer into the array is its index. The loop of \<open>xrp_find_cmd_ns\<close>:\<close>

definition cmd_ns_present :: "cmd_ns_map \<Rightarrow> nat \<Rightarrow> bool" where
  "cmd_ns_present m p = (p < n_cmd_ns m)"

function find_loop :: "nsid \<Rightarrow> cmd_ns list \<Rightarrow> nat \<Rightarrow> nat \<Rightarrow> nat \<times> nat" where
  "find_loop i es a b =
     (if 1 < b - a then
        let c = (a + b) div 2 in
        if compare_cmd_ns i (es ! c) < 0 then find_loop i es a c else find_loop i es c b
      else (a, b))"
  by pat_completeness auto
termination by (relation "measure (\<lambda>(i, es, a, b). b - a)") auto

declare find_loop.simps [simp del]

definition xrp_find_cmd_ns :: "cmd_ns_map \<Rightarrow> nsid \<Rightarrow> nat" where
  "xrp_find_cmd_ns m i =
     (let (a, b) = find_loop i (ns_array m) 0 (n_cmd_ns m) in
      if a < b \<and> 0 < compare_cmd_ns i (ns_array m ! a) then a + 1 else a)"

section \<open>Insertion and removal\<close>

definition memmove :: "'a list \<Rightarrow> nat \<Rightarrow> nat \<Rightarrow> nat \<Rightarrow> 'a list res" where
  "memmove xs dst src n =
     (if dst + n \<le> length xs \<and> src + n \<le> length xs
      then Ok (take dst xs @ take n (drop src xs) @ drop (dst + n) xs)
      else Oops)"

text \<open>
  \<open>insert_cmd_ns\<close>: \<open>realloc\<close> is an argument; given the new capacity it returns what the
  cells it adds happen to hold, or nothing. The result is the map and the index to fill, or no index on failure.
\<close>

type_synonym realloc_fn = "nat \<Rightarrow> (nat \<Rightarrow> cmd_ns) option"

definition insert_cmd_ns ::
  "realloc_fn \<Rightarrow> cmd_ns_map \<Rightarrow> nat \<Rightarrow> (cmd_ns_map \<times> nat option) res" where
  "insert_cmd_ns realloc m i =
     (let grown =
        (if n_cmd_ns m = size_cmd_ns m then
           let new_size = (size_cmd_ns m + 1) * 2 in
           case realloc new_size of
             None \<Rightarrow> None
           | Some fresh \<Rightarrow> Some (m\<lparr>ns_array := ns_array m @ map fresh [size_cmd_ns m..<new_size],
                                 size_cmd_ns := new_size\<rparr>)
         else Some m) in
      case grown of
        None \<Rightarrow> Ok (m, None)
      | Some m1 \<Rightarrow>
          (case memmove (ns_array m1) (i + 1) i (n_cmd_ns m1 - i) of
             Inl e \<Rightarrow> Inl e
           | Inr arr \<Rightarrow> Ok (m1\<lparr>ns_array := arr, n_cmd_ns := n_cmd_ns m1 + 1\<rparr>, Some i)))"

definition remove_cmd_ns :: "cmd_ns_map \<Rightarrow> nat \<Rightarrow> cmd_ns_map res" where
  "remove_cmd_ns m i =
     (case memmove (ns_array m) i (i + 1) (n_cmd_ns m - i - 1) of
        Inl e \<Rightarrow> Inl e
      | Inr arr \<Rightarrow> Ok (m\<lparr>ns_array := arr, n_cmd_ns := n_cmd_ns m - 1\<rparr>))"

definition xrp_register_namespace ::
  "realloc_fn \<Rightarrow> cmd_ns_map \<Rightarrow> nsid \<Rightarrow> nat \<Rightarrow> nat \<Rightarrow> (cmd_ns_map \<times> bool) res" where
  "xrp_register_namespace realloc m i h ctx =
     (let p = xrp_find_cmd_ns m i in
      if cmd_ns_present m p \<and> xrp_cmd_ns_match i (Some (ns_array m ! p)) then Ok (m, False)
      else case insert_cmd_ns realloc m p of
          Inl e \<Rightarrow> Inl e
        | Inr (m1, None) \<Rightarrow> Ok (m1, False)
        | Inr (m1, Some q) \<Rightarrow>
            if q < length (ns_array m1)
            then Ok (m1\<lparr>ns_array := (ns_array m1)[q := \<lparr>ns_id = i, ns_handler = h, ns_context = ctx\<rparr>]\<rparr>, True)
            else Oops)"

definition xrp_unregister_namespace :: "cmd_ns_map \<Rightarrow> nsid \<Rightarrow> (cmd_ns_map \<times> bool) res" where
  "xrp_unregister_namespace m i =
     (let p = xrp_find_cmd_ns m i in
      if cmd_ns_present m p \<and> xrp_cmd_ns_match i (Some (ns_array m ! p))
      then case remove_cmd_ns m p of
          Inl e \<Rightarrow> Inl e
        | Inr m1 \<Rightarrow> Ok (m1, True)
      else Ok (m, False))"

section \<open>The order of identifiers is memcmp\<close>

lemma memcmp_less: "length a = length b \<Longrightarrow> memcmp a b < 0 \<longleftrightarrow> a < b"
proof (induction a b rule: memcmp.induct)
  case (1 x xs y ys)
  then show ?case by (auto simp: word_less_def)
qed auto

lemma memcmp_zero: "length a = length b \<Longrightarrow> memcmp a b = 0 \<longleftrightarrow> a = b"
  by (induction a b rule: memcmp.induct) (auto simp: word_uint_eq_iff)

lemma memcmp_greater: "length a = length b \<Longrightarrow> 0 < memcmp a b \<longleftrightarrow> b < a"
  using memcmp_less [of a b] memcmp_zero [of a b] by (metis linorder_less_linear less_asym)

lemma compare_cmd_ns_simps:
  assumes "nsid_ok i" "nsid_ok (ns_id c)"
  shows "compare_cmd_ns i c < 0 \<longleftrightarrow> i < ns_id c" "0 < compare_cmd_ns i c \<longleftrightarrow> ns_id c < i"
    "compare_cmd_ns i c = 0 \<longleftrightarrow> i = ns_id c"
  using assms memcmp_less memcmp_greater memcmp_zero
  by (auto simp: compare_cmd_ns_def nsid_ok_def less_nsid_def nsid.expand)

section \<open>The invariant and the search\<close>

definition live :: "cmd_ns_map \<Rightarrow> cmd_ns list" where
  "live m = take (n_cmd_ns m) (ns_array m)"

definition sorted_ids :: "cmd_ns list \<Rightarrow> bool" where
  "sorted_ids es = (sorted_wrt (\<lambda>c d. ns_id c < ns_id d) es \<and> (\<forall>c \<in> set es. nsid_ok (ns_id c)))"

definition ns_wf :: "cmd_ns_map \<Rightarrow> bool" where
  "ns_wf m = (n_cmd_ns m \<le> size_cmd_ns m \<and> length (ns_array m) = size_cmd_ns m \<and> sorted_ids (live m))"

definition ns_lookup :: "cmd_ns_map \<Rightarrow> nsid \<rightharpoonup> nat \<times> nat" where
  "ns_lookup m = map_of (map (\<lambda>c. (ns_id c, (ns_handler c, ns_context c))) (live m))"

text \<open>
  The loop keeps: everything before \<open>a\<close> is below the identifier, the cell at \<open>a\<close> is not
  above it once \<open>a\<close> has moved, and everything from \<open>b\<close> on is above it.
\<close>

definition splits_at :: "nsid \<Rightarrow> cmd_ns list \<Rightarrow> nat \<Rightarrow> bool" where
  "splits_at i es p = (p \<le> length es \<and> (\<forall>j < p. ns_id (es ! j) < i) \<and>
     (\<forall>j < length es. p \<le> j \<longrightarrow> i \<le> ns_id (es ! j)))"

lemma find_loop_inv:
  assumes "nsid_ok i" "sorted_ids es" "b \<le> length es" "a \<le> b"
    "a = 0 \<or> ns_id (es ! a) \<le> i \<and> a < b" "\<forall>j < length es. b \<le> j \<longrightarrow> i < ns_id (es ! j)"
  shows "case find_loop i es a b of (a', b') \<Rightarrow>
     a' \<le> b' \<and> b' \<le> a' + 1 \<and> b' \<le> length es \<and> (a' = 0 \<or> ns_id (es ! a') \<le> i \<and> a' < b') \<and>
     (b' = 0 \<longrightarrow> b = 0) \<and> (\<forall>j < length es. b' \<le> j \<longrightarrow> i < ns_id (es ! j))"
  using assms
proof (induction i es a b rule: find_loop.induct)
  case (1 i es a b)
  show ?case
  proof (cases "1 < b - a")
    case False
    then have "find_loop i es a b = (a, b)" by (subst find_loop.simps) simp
    then show ?thesis using 1 False by auto
  next
    case True
    let ?c = "(a + b) div 2"
    have c: "a < ?c" "?c < b" "?c < length es" using True 1 by auto
    have ok: "nsid_ok (ns_id (es ! ?c))" using 1 c by (simp add: sorted_ids_def)
    show ?thesis
    proof (cases "compare_cmd_ns i (es ! ?c) < 0")
      case lt: True
      have r: "find_loop i es a b = find_loop i es a ?c" using True lt by (subst find_loop.simps) simp
      have "i < ns_id (es ! ?c)" using lt compare_cmd_ns_simps(1) [OF 1(3) ok] by simp
      then have "\<forall>j < length es. ?c \<le> j \<longrightarrow> i < ns_id (es ! j)"
        using 1(4) by (auto simp: sorted_ids_def sorted_wrt_iff_nth_less) (metis le_neq_implies_less less_trans)
      then show ?thesis using 1(1) [OF True refl lt] 1 c r by auto
    next
      case ge: False
      have r: "find_loop i es a b = find_loop i es ?c b" using True ge by (subst find_loop.simps) simp
      have "ns_id (es ! ?c) \<le> i" using ge compare_cmd_ns_simps(1) [OF 1(3) ok] by simp
      then show ?thesis using 1(2) [OF True refl ge] 1 c r by auto
    qed
  qed
qed

lemma find_loop_cong:
  "b \<le> n \<Longrightarrow> find_loop i (take n es) a b = find_loop i es a b"
proof (induction i es a b rule: find_loop.induct)
  case (1 i es a b)
  then show ?case
    by (subst (1 2) find_loop.simps) (auto simp: Let_def)
qed

lemma xrp_find_cmd_ns_splits:
  assumes "ns_wf m" "nsid_ok i"
  shows "splits_at i (live m) (xrp_find_cmd_ns m i)"
proof -
  let ?es = "live m" and ?n = "n_cmd_ns m"
  have len: "length ?es = ?n" using assms by (simp add: ns_wf_def live_def)
  have so: "sorted_ids ?es" using assms by (simp add: ns_wf_def)
  obtain a b where ab: "find_loop i (ns_array m) 0 ?n = (a, b)" by fastforce
  then have "find_loop i ?es 0 ?n = (a, b)" by (simp add: live_def find_loop_cong)
  then have inv: "a \<le> b" "b \<le> a + 1" "b \<le> ?n" "a = 0 \<or> ns_id (?es ! a) \<le> i \<and> a < b" "b = 0 \<longrightarrow> ?n = 0"
    "\<forall>j < length ?es. b \<le> j \<longrightarrow> i < ns_id (?es ! j)"
    using find_loop_inv [OF assms(2) so, of ?n 0] len by auto
  show ?thesis
  proof (cases "a < b")
    case False
    then show ?thesis using inv ab len by (auto simp: splits_at_def xrp_find_cmd_ns_def)
  next
    case True
    have at: "ns_array m ! a = ?es ! a" using True inv by (simp add: live_def)
    have ok: "nsid_ok (ns_id (?es ! a))" using so True inv len by (simp add: sorted_ids_def)
    have before: "ns_id (?es ! j) < ns_id (?es ! a)" if "j < a" for j
      using that so True inv len by (simp add: sorted_ids_def sorted_wrt_iff_nth_less)
    have b: "b = a + 1" using True inv by simp
    show ?thesis
    proof (cases "ns_id (?es ! a) < i")
      case lt: True
      then have "xrp_find_cmd_ns m i = a + 1"
        using ab True at compare_cmd_ns_simps(2) [OF assms(2) ok] by (simp add: xrp_find_cmd_ns_def)
      then show ?thesis using inv b len lt before
        by (auto simp: splits_at_def less_Suc_eq dest: less_trans less_imp_le)
    next
      case ge: False
      then have p: "xrp_find_cmd_ns m i = a"
        using ab True at compare_cmd_ns_simps(2) [OF assms(2) ok] by (simp add: xrp_find_cmd_ns_def)
      have "\<forall>j < a. ns_id (?es ! j) < i" using before inv ge by fastforce
      moreover have "i \<le> ns_id (?es ! j)" if "j < length ?es" "a \<le> j" for j
        using that inv(6) ge b by (cases "j = a") auto
      ultimately show ?thesis using p inv len by (auto simp: splits_at_def)
    qed
  qed
qed

section \<open>The table as a finite map\<close>

lemma sorted_ids_distinct: "sorted_ids es \<Longrightarrow> distinct (map ns_id es)"
  by (auto simp: sorted_ids_def distinct_conv_nth sorted_wrt_iff_nth_less)
    (metis linorder_neqE_nat order_less_irrefl)

lemma length_live: "ns_wf m \<Longrightarrow> length (live m) = n_cmd_ns m"
  by (simp add: ns_wf_def live_def)

lemma lookup_nth:
  assumes "ns_wf m" "p < n_cmd_ns m"
  shows "ns_lookup m (ns_id (live m ! p)) = Some (ns_handler (live m ! p), ns_context (live m ! p))"
proof -
  let ?kv = "map (\<lambda>c. (ns_id c, (ns_handler c, ns_context c))) (live m)"
  have "live m ! p \<in> set (live m)" using assms length_live by simp
  then have "(ns_id (live m ! p), (ns_handler (live m ! p), ns_context (live m ! p))) \<in> set ?kv" by force
  moreover have "distinct (map fst ?kv)"
    using assms sorted_ids_distinct by (simp add: ns_wf_def o_def)
  ultimately show ?thesis unfolding ns_lookup_def by (intro map_of_is_SomeI) auto
qed

lemma lookup_none:
  assumes "\<forall>c \<in> set (live m). ns_id c \<noteq> i"
  shows "ns_lookup m i = None"
  using assms by (auto simp: ns_lookup_def map_of_eq_None_iff)

lemma splits_absent:
  assumes wf: "ns_wf m" and sp: "splits_at i (live m) p"
    and no: "\<not> (p < n_cmd_ns m \<and> ns_id (live m ! p) = i)"
  shows "\<forall>j < p. ns_id (live m ! j) < i" "\<forall>j < n_cmd_ns m. p \<le> j \<longrightarrow> i < ns_id (live m ! j)"
    "ns_lookup m i = None"
proof -
  have len: "length (live m) = n_cmd_ns m" using wf by (simp add: ns_wf_def live_def)
  show below: "\<forall>j < p. ns_id (live m ! j) < i" using sp by (simp add: splits_at_def)
  show above: "\<forall>j < n_cmd_ns m. p \<le> j \<longrightarrow> i < ns_id (live m ! j)"
  proof (intro allI impI)
    fix j assume j: "j < n_cmd_ns m" "p \<le> j"
    show "i < ns_id (live m ! j)"
    proof (cases "j = p")
      case True
      then show ?thesis using sp no j len by (auto simp: splits_at_def order.strict_iff_order)
    next
      case False
      then have "ns_id (live m ! p) < ns_id (live m ! j)"
        using wf j len by (simp add: ns_wf_def sorted_ids_def sorted_wrt_iff_nth_less)
      then show ?thesis using sp j len by (auto simp: splits_at_def intro: le_less_trans)
    qed
  qed
  show "ns_lookup m i = None"
    by (rule lookup_none) (metis above below in_set_conv_nth len not_less order_less_irrefl)
qed

lemma match_iff:
  assumes "ns_wf m" "nsid_ok i"
  shows "cmd_ns_present m p \<and> xrp_cmd_ns_match i (Some (ns_array m ! p)) \<longleftrightarrow>
    p < n_cmd_ns m \<and> ns_id (live m ! p) = i"
proof (cases "p < n_cmd_ns m")
  case True
  then have "live m ! p \<in> set (live m)" using assms length_live by simp
  then have "nsid_ok (ns_id (live m ! p))" using assms by (simp add: ns_wf_def sorted_ids_def)
  moreover have "ns_array m ! p = live m ! p" using True by (simp add: live_def)
  ultimately show ?thesis using True compare_cmd_ns_simps(3) [OF assms(2)]
    by (auto simp: cmd_ns_present_def xrp_cmd_ns_match_def)
qed (simp add: cmd_ns_present_def)

lemma sorted_ids_insert:
  assumes "sorted_ids es" "p \<le> length es" "\<forall>j < p. ns_id (es ! j) < i"
    "\<forall>j < length es. p \<le> j \<longrightarrow> i < ns_id (es ! j)" "nsid_ok i" "ns_id c = i"
  shows "sorted_ids (take p es @ c # drop p es)"
proof -
  have "\<forall>d \<in> set (take p es). ns_id d < i" "\<forall>d \<in> set (drop p es). i < ns_id d"
    using assms(2-4) by (auto simp: in_set_conv_nth)
  moreover have "sorted_wrt (\<lambda>c d. ns_id c < ns_id d) (take p es @ drop p es)"
    using assms(1) by (simp add: sorted_ids_def)
  ultimately show ?thesis
    using assms unfolding sorted_ids_def sorted_wrt_append
    by (auto dest: in_set_takeD in_set_dropD)
qed

lemma lookup_insert_at:
  assumes "sorted_ids (take p es @ c # drop p es)"
  shows "map_of (map (\<lambda>c. (ns_id c, (ns_handler c, ns_context c))) (take p es @ c # drop p es)) =
    (map_of (map (\<lambda>c. (ns_id c, (ns_handler c, ns_context c))) es))(ns_id c \<mapsto> (ns_handler c, ns_context c))"
    (is "map_of (map ?f (?t @ c # ?d)) = _")
proof -
  have d: "distinct (map ns_id (?t @ c # ?d))" using sorted_ids_distinct [OF assms] .
  have "map_of (map ?f es) = map_of (map ?f (?t @ ?d))" by simp
  also have "\<dots> = map_of (map ?f ?d) ++ map_of (map ?f ?t)" unfolding map_append map_of_append ..
  finally have e: "map_of (map ?f es) = map_of (map ?f ?d) ++ map_of (map ?f ?t)" .
  have "ns_id c \<notin> dom (map_of (map ?f ?t))" using d by (auto simp: dom_map_of_conv_image_fst)
  then show ?thesis by (simp add: e map_add_upd_left)
qed

text \<open>Insertion makes room at the index; the array never overflows.\<close>

lemma memmove_up:
  assumes "p \<le> n" "n < length xs"
  shows "memmove xs (p + 1) p (n - p) = Ok (take (p + 1) xs @ take (n - p) (drop p xs) @ drop (n + 1) xs)"
  using assms by (simp add: memmove_def)

lemma take_insert_gap:
  assumes "p \<le> n" "n < length xs"
  shows "take (n + 1) ((take (p + 1) xs @ take (n - p) (drop p xs) @ drop (n + 1) xs)[p := c]) =
     take p (take n xs) @ c # drop p (take n xs)"
proof -
  have "take (p + 1) xs = take p xs @ [xs ! p]" using assms by (simp add: take_Suc_conv_app_nth)
  moreover have "Suc n - p = Suc (n - p)" using assms by simp
  ultimately show ?thesis using assms by (auto simp: list_update_append drop_take min_def)
qed

lemma insert_cmd_ns_ok:
  assumes wf: "ns_wf m" and p: "p \<le> n_cmd_ns m"
  shows "(\<exists>k. n_cmd_ns m = size_cmd_ns m \<and> realloc k = None \<and> insert_cmd_ns realloc m p = Ok (m, None)) \<or>
    (\<exists>m1. insert_cmd_ns realloc m p = Ok (m1, Some p) \<and> n_cmd_ns m1 = n_cmd_ns m + 1 \<and>
       n_cmd_ns m1 \<le> size_cmd_ns m1 \<and> length (ns_array m1) = size_cmd_ns m1 \<and>
       (\<forall>c. live (m1\<lparr>ns_array := (ns_array m1)[p := c]\<rparr>) = take p (live m) @ c # drop p (live m)))"
proof -
  have fits: "n_cmd_ns m \<le> size_cmd_ns m" "length (ns_array m) = size_cmd_ns m"
    using wf by (auto simp: ns_wf_def)
  have go: "\<exists>m1. (case memmove (ns_array m0) (p + 1) p (n_cmd_ns m0 - p) of
        Inl e \<Rightarrow> Inl e | Inr arr \<Rightarrow> Ok (m0\<lparr>ns_array := arr, n_cmd_ns := n_cmd_ns m0 + 1\<rparr>, Some p)) = Ok (m1, Some p) \<and>
      n_cmd_ns m1 = n_cmd_ns m + 1 \<and> n_cmd_ns m1 \<le> size_cmd_ns m1 \<and> length (ns_array m1) = size_cmd_ns m1 \<and>
       (\<forall>c. live (m1\<lparr>ns_array := (ns_array m1)[p := c]\<rparr>) = take p (live m) @ c # drop p (live m))"
    if m0: "n_cmd_ns m0 = n_cmd_ns m" "n_cmd_ns m < size_cmd_ns m0" "length (ns_array m0) = size_cmd_ns m0"
      "take (n_cmd_ns m) (ns_array m0) = live m" for m0
    using memmove_up [of p "n_cmd_ns m" "ns_array m0"] take_insert_gap [of p "n_cmd_ns m" "ns_array m0"] m0 p
    by (auto simp: live_def)
  show ?thesis
  proof (cases "n_cmd_ns m = size_cmd_ns m")
    case False
    then show ?thesis using go [of m] fits by (simp add: insert_cmd_ns_def live_def)
  next
    case True
    show ?thesis
    proof (cases "realloc ((size_cmd_ns m + 1) * 2)")
      case None
      then show ?thesis using True by (auto simp: insert_cmd_ns_def)
    next
      case (Some fresh)
      define k where "k = (size_cmd_ns m + 1) * 2"
      define m0 where "m0 = m\<lparr>ns_array := ns_array m @ map fresh [size_cmd_ns m..<k], size_cmd_ns := k\<rparr>"
      have "n_cmd_ns m0 = n_cmd_ns m" "n_cmd_ns m < size_cmd_ns m0" "length (ns_array m0) = size_cmd_ns m0"
        "take (n_cmd_ns m) (ns_array m0) = live m"
        using True fits by (auto simp: m0_def k_def live_def)
      moreover have "insert_cmd_ns realloc m p = (case memmove (ns_array m0) (p + 1) p (n_cmd_ns m0 - p) of
        Inl e \<Rightarrow> Inl e | Inr arr \<Rightarrow> Ok (m0\<lparr>ns_array := arr, n_cmd_ns := n_cmd_ns m0 + 1\<rparr>, Some p))"
        using True Some unfolding k_def [symmetric] insert_cmd_ns_def m0_def Let_def by simp
      ultimately show ?thesis using go [of m0] by simp
    qed
  qed
qed

section \<open>Registration and removal\<close>

lemma register_spec:
  assumes wf: "ns_wf m" and i: "nsid_ok i"
  shows "\<exists>m' b. xrp_register_namespace realloc m i h ctx = Ok (m', b) \<and> ns_wf m' \<and>
    ns_lookup m' = (if b then (ns_lookup m)(i \<mapsto> (h, ctx)) else ns_lookup m) \<and>
    (b \<longleftrightarrow> ns_lookup m i = None \<and>
       \<not> (n_cmd_ns m = size_cmd_ns m \<and> realloc ((size_cmd_ns m + 1) * 2) = None))"
proof -
  define p where "p = xrp_find_cmd_ns m i"
  have sp: "splits_at i (live m) p" unfolding p_def using xrp_find_cmd_ns_splits [OF wf i] .
  have pn: "p \<le> n_cmd_ns m" using sp length_live [OF wf] by (simp add: splits_at_def)
  show ?thesis
  proof (cases "p < n_cmd_ns m \<and> ns_id (live m ! p) = i")
    case True
    then have "ns_lookup m i \<noteq> None" using lookup_nth [OF wf, of p] by auto
    moreover have "xrp_register_namespace realloc m i h ctx = Ok (m, False)"
      using match_iff [OF wf i, of p] True by (simp add: xrp_register_namespace_def p_def Let_def)
    ultimately show ?thesis using wf by auto
  next
    case False
    note ab = splits_absent [OF wf sp False]
    have r: "xrp_register_namespace realloc m i h ctx =
      (case insert_cmd_ns realloc m p of
          Inl e \<Rightarrow> Inl e
        | Inr (m1, None) \<Rightarrow> Ok (m1, False)
        | Inr (m1, Some q) \<Rightarrow>
            if q < length (ns_array m1)
            then Ok (m1\<lparr>ns_array := (ns_array m1)[q := \<lparr>ns_id = i, ns_handler = h, ns_context = ctx\<rparr>]\<rparr>, True)
            else Oops)"
      using match_iff [OF wf i, of p] False by (auto simp: xrp_register_namespace_def p_def Let_def)
    show ?thesis
    proof (cases "n_cmd_ns m = size_cmd_ns m \<and> realloc ((size_cmd_ns m + 1) * 2) = None")
      case True
      then have "insert_cmd_ns realloc m p = Ok (m, None)" by (simp add: insert_cmd_ns_def)
      then have "xrp_register_namespace realloc m i h ctx = Ok (m, False)" using r by simp
      then show ?thesis using wf True by (intro exI [of _ m] exI [of _ False]) simp
    next
      case ok: False
      then have "\<And>m0. insert_cmd_ns realloc m p \<noteq> Ok (m0, None)"
        by (auto simp: insert_cmd_ns_def Let_def split: if_splits option.splits sum.splits)
      then obtain m1 where m1: "insert_cmd_ns realloc m p = Ok (m1, Some p)" "n_cmd_ns m1 = n_cmd_ns m + 1"
        "n_cmd_ns m1 \<le> size_cmd_ns m1" "length (ns_array m1) = size_cmd_ns m1"
        "\<And>c. live (m1\<lparr>ns_array := (ns_array m1)[p := c]\<rparr>) = take p (live m) @ c # drop p (live m)"
        using insert_cmd_ns_ok [OF wf pn, of realloc] by blast
      let ?c = "\<lparr>ns_id = i, ns_handler = h, ns_context = ctx\<rparr>"
      let ?m2 = "m1\<lparr>ns_array := (ns_array m1)[p := ?c]\<rparr>"
      have res: "xrp_register_namespace realloc m i h ctx = Ok (?m2, True)"
        using r m1 pn by simp
      have so: "sorted_ids (take p (live m) @ ?c # drop p (live m))"
        using wf ab(1,2) i pn length_live [OF wf] by (intro sorted_ids_insert [where i = i]) (auto simp: ns_wf_def)
      then have "ns_wf ?m2" using m1 by (simp add: ns_wf_def)
      moreover have "ns_lookup ?m2 = (ns_lookup m)(i \<mapsto> (h, ctx))"
        unfolding ns_lookup_def m1(5) using lookup_insert_at [OF so] by simp
      ultimately show ?thesis using res ab(3) ok by auto
    qed
  qed
qed

lemma memmove_down:
  assumes "p < n" "n \<le> length xs"
  shows "memmove xs p (p + 1) (n - p - 1) = Ok (take p xs @ take (n - p - 1) (drop (p + 1) xs) @ drop (n - 1) xs)"
  using assms by (simp add: memmove_def)

lemma take_remove_gap:
  assumes "p < n" "n \<le> length xs"
  shows "take (n - 1) (take p xs @ take (n - p - 1) (drop (p + 1) xs) @ drop (n - 1) xs) =
     take p (take n xs) @ drop (p + 1) (take n xs)"
proof -
  obtain d where "n = Suc (p + d)" using assms(1) less_imp_Suc_add by blast
  then show ?thesis using assms by (auto simp: drop_take min_def)
qed

lemma sorted_ids_remove: "sorted_ids es \<Longrightarrow> sorted_ids (take p es @ drop (p + 1) es)"
proof -
  assume s: "sorted_ids es"
  have "es = take p es @ take 1 (drop p es) @ drop (p + 1) es"
    by (metis append_take_drop_id add.commute drop_drop)
  then obtain u v w where e: "es = u @ v @ w" and uw: "take p es @ drop (p + 1) es = u @ w" by blast
  have "sorted_ids (u @ w)" using s unfolding e by (auto simp: sorted_ids_def sorted_wrt_append)
  then show ?thesis by (simp only: uw)
qed

lemma lookup_remove_at:
  assumes "sorted_ids es" "p < length es"
  shows "map_of (map (\<lambda>c. (ns_id c, (ns_handler c, ns_context c))) (take p es @ drop (p + 1) es)) =
    (map_of (map (\<lambda>c. (ns_id c, (ns_handler c, ns_context c))) es))(ns_id (es ! p) := None)"
    (is "map_of (map ?f (?t @ ?d)) = _")
proof -
  have es: "es = ?t @ es ! p # ?d" using assms(2) by (simp add: id_take_nth_drop)
  then have d: "distinct (map ns_id (?t @ es ! p # ?d))" using sorted_ids_distinct assms(1) by simp
  have "map_of (map ?f es) = (map_of (map ?f ?d))(ns_id (es ! p) \<mapsto> (ns_handler (es ! p), ns_context (es ! p)))
      ++ map_of (map ?f ?t)"
    by (subst es) simp
  moreover have "map_of (map ?f ?t) (ns_id (es ! p)) = None" "map_of (map ?f ?d) (ns_id (es ! p)) = None"
    using d by (auto simp: map_of_eq_None_iff)
  ultimately show ?thesis
    by (auto simp: fun_eq_iff map_add_def split: option.splits)
qed

lemma unregister_spec:
  assumes wf: "ns_wf m" and i: "nsid_ok i"
  shows "\<exists>m' b. xrp_unregister_namespace m i = Ok (m', b) \<and> ns_wf m' \<and>
    ns_lookup m' = (ns_lookup m)(i := None) \<and> (b \<longleftrightarrow> ns_lookup m i \<noteq> None)"
proof -
  define p where "p = xrp_find_cmd_ns m i"
  have sp: "splits_at i (live m) p" unfolding p_def using xrp_find_cmd_ns_splits [OF wf i] .
  show ?thesis
  proof (cases "p < n_cmd_ns m \<and> ns_id (live m ! p) = i")
    case False
    note ab = splits_absent [OF wf sp False]
    have "xrp_unregister_namespace m i = Ok (m, False)"
      using match_iff [OF wf i, of p] False by (auto simp: xrp_unregister_namespace_def p_def Let_def)
    moreover have "ns_lookup m = (ns_lookup m)(i := None)" using ab(3) by (simp add: fun_upd_idem)
    ultimately show ?thesis using wf ab(3) by auto
  next
    case True
    have fits: "n_cmd_ns m \<le> length (ns_array m)" "length (ns_array m) = size_cmd_ns m"
      using wf by (auto simp: ns_wf_def)
    let ?arr = "take p (ns_array m) @ take (n_cmd_ns m - p - 1) (drop (p + 1) (ns_array m)) @ drop (n_cmd_ns m - 1) (ns_array m)"
    let ?m2 = "m\<lparr>ns_array := ?arr, n_cmd_ns := n_cmd_ns m - 1\<rparr>"
    have "remove_cmd_ns m p = Ok ?m2"
      using memmove_down [of p "n_cmd_ns m" "ns_array m"] True fits by (simp add: remove_cmd_ns_def)
    then have res: "xrp_unregister_namespace m i = Ok (?m2, True)"
      using match_iff [OF wf i, of p] True by (simp add: xrp_unregister_namespace_def p_def Let_def)
    have lv: "live ?m2 = take p (live m) @ drop (p + 1) (live m)"
      using take_remove_gap [of p "n_cmd_ns m" "ns_array m"] True fits by (simp add: live_def)
    have so: "sorted_ids (live m)" using wf by (simp add: ns_wf_def)
    have "length ?arr = size_cmd_ns m" using True fits by simp
    then have "ns_wf ?m2"
      using sorted_ids_remove [OF so, of p] lv fits by (simp add: ns_wf_def)
    moreover have "ns_lookup ?m2 = (ns_lookup m)(i := None)"
      unfolding ns_lookup_def lv using lookup_remove_at [OF so, of p] True length_live [OF wf] by simp
    moreover have "ns_lookup m i \<noteq> None" using lookup_nth [OF wf, of p] True by auto
    ultimately show ?thesis using res by auto
  qed
qed

text \<open>
  The table is a registry: the interpretation hands the lemmas of \<open>keyed_registry\<close> to the operations of
  this file. There is room for an entry when the array is not full or \<open>realloc\<close> gives a larger one.
\<close>

definition ns_room :: "realloc_fn \<Rightarrow> cmd_ns_map \<Rightarrow> bool" where
  "ns_room realloc m \<longleftrightarrow> n_cmd_ns m \<noteq> size_cmd_ns m \<or> realloc ((size_cmd_ns m + 1) * 2) \<noteq> None"

definition ns_insert :: "realloc_fn \<Rightarrow> nsid \<Rightarrow> nat \<times> nat \<Rightarrow> cmd_ns_map \<Rightarrow> (cmd_ns_map \<times> bool) res" where
  "ns_insert realloc i v m = xrp_register_namespace realloc m i (fst v) (snd v)"

definition ns_remove :: "nsid \<Rightarrow> cmd_ns_map \<Rightarrow> (cmd_ns_map \<times> bool) res" where
  "ns_remove i m = xrp_unregister_namespace m i"

interpretation ns: keyed_registry ns_wf nsid_ok ns_room ns_lookup ns_insert ns_remove
proof unfold_locales
  fix m i realloc v
  assume a: "ns_wf m" "nsid_ok i"
  show "\<exists>m' b. ns_insert realloc i v m = Ok (m', b) \<and> ns_wf m' \<and> (b \<longleftrightarrow> ns_lookup m i = None \<and> ns_room realloc m) \<and>
      ns_lookup m' = (if b then (ns_lookup m)(i \<mapsto> v) else ns_lookup m)"
    using register_spec [OF a, of realloc "fst v" "snd v"] unfolding ns_insert_def ns_room_def prod.collapse by blast
next
  fix m i
  assume a: "ns_wf m" "nsid_ok i"
  show "\<exists>m' b. ns_remove i m = Ok (m', b) \<and> ns_wf m' \<and> (b \<longleftrightarrow> ns_lookup m i \<noteq> None) \<and>
      ns_lookup m' = (ns_lookup m)(i := None)"
    using unregister_spec [OF a] unfolding ns_remove_def by blast
qed

section \<open>Properties of the namespace table\<close>

definition demo_id :: "u8 \<Rightarrow> nsid" where
  "demo_id x = Nsid (replicate 15 7 @ [x])"

definition demo_ns :: cmd_ns_map where
  "demo_ns = \<lparr>n_cmd_ns = 2, size_cmd_ns = 2,
     ns_array = [\<lparr>ns_id = demo_id 3, ns_handler = 30, ns_context = 31\<rparr>,
                 \<lparr>ns_id = demo_id 9, ns_handler = 90, ns_context = 91\<rparr>]\<rparr>"

lemma demo_id_less: "demo_id x < demo_id y \<longleftrightarrow> x < y"
proof -
  have "xs @ [x] < xs @ [y] \<longleftrightarrow> x < y" for xs :: "u8 list" by (induction xs) auto
  then show ?thesis by (simp only: demo_id_def less_nsid_def nsid.sel)
qed

lemma demo_ns_wf: "ns_wf demo_ns" and demo_id_ok: "nsid_ok (demo_id x)"
  by (simp_all add: ns_wf_def demo_ns_def live_def sorted_ids_def demo_id_less)
    (simp_all add: nsid_ok_def demo_id_def XRP_NAMESPACE_ID_SIZE_def)

text \<open>
  C40: registering keeps the table sorted, never writes outside the array, adds the entry
  exactly when the identifier is new and memory was available, and leaves every other
  lookup alone.
\<close>

theorem xrp_register_namespace_ok:
  assumes "ns_wf m" "nsid_ok i"
  shows "\<exists>m' b. xrp_register_namespace realloc m i h ctx = Ok (m', b) \<and> ns_wf m' \<and>
    ns_lookup m' = (if b then (ns_lookup m)(i \<mapsto> (h, ctx)) else ns_lookup m) \<and>
    (b \<longleftrightarrow> ns_lookup m i = None \<and>
       (n_cmd_ns m < size_cmd_ns m \<or> realloc ((size_cmd_ns m + 1) * 2) \<noteq> None))"
  using register_spec [OF assms, of realloc h ctx] assms(1) by (auto simp: ns_wf_def)

theorem xrp_register_namespace_ok_witness:
  "\<exists>m' b. xrp_register_namespace (\<lambda>_. Some (\<lambda>_. \<lparr>ns_id = demo_id 0, ns_handler = 0, ns_context = 0\<rparr>))
     demo_ns (demo_id 5) 50 51 = Ok (m', b) \<and> ns_wf m' \<and> ns_lookup m' (demo_id 9) = Some (90, 91)"
  using xrp_register_namespace_ok [OF demo_ns_wf demo_id_ok, of
      "\<lambda>_. Some (\<lambda>_. \<lparr>ns_id = demo_id 0, ns_handler = 0, ns_context = 0\<rparr>)" 5 50 51]
  by (auto simp: ns_lookup_def demo_ns_def live_def demo_id_def)

text \<open>
  C15: any sequence of registrations and removals, each with its own \<open>realloc\<close>, never faults and computes
  what it computes on an abstract finite map: registering a present identifier changes nothing and
  answers 0, registering a new one adds it or, when the array cannot grow, answers 0 and changes nothing,
  a removal answers whether there was an entry. When the array can always grow the result is
  that of the operations alone.
\<close>

theorem ns_refines_map:
  assumes "ns_wf m" "\<forall>eo \<in> set ops. nsid_ok (op_key (snd eo))"
  shows "\<exists>m' bs. ns.run_ops ops m = Ok (m', bs) \<and> ns_wf m' \<and> reg_run (map snd ops) bs (ns_lookup m) = Some (ns_lookup m') \<and>
    ((\<forall>eo \<in> set ops. \<forall>n. ns_room (fst eo) n) \<longrightarrow> ns_lookup m' = fold abs_op (map snd ops) (ns_lookup m))"
  using assms by (rule ns.run_ops_ok)

definition fresh_cells :: realloc_fn where
  "fresh_cells = (\<lambda>k. Some (\<lambda>j. \<lparr>ns_id = demo_id 0, ns_handler = 0, ns_context = 0\<rparr>))"

theorem ns_refines_map_witness:
  "\<exists>m' bs. ns.run_ops [(fresh_cells, Register (demo_id 5) (50, 51)), (\<lambda>k. None, Unregister (demo_id 3)),
      (\<lambda>k. None, Register (demo_id 9) (1, 1))] demo_ns = Ok (m', bs) \<and> ns_lookup m' (demo_id 9) = Some (90, 91)"
proof -
  let ?ops = "[(fresh_cells, Register (demo_id 5) (50, 51)), (\<lambda>k. None, Unregister (demo_id 3)),
      (\<lambda>k. None, Register (demo_id 9) (1, 1))]"
  obtain m' bs where r: "ns.run_ops ?ops demo_ns = Ok (m', bs)" "reg_run (map snd ?ops) bs (ns_lookup demo_ns) = Some (ns_lookup m')"
    using ns_refines_map [OF demo_ns_wf, of ?ops] demo_id_ok by auto
  have l: "ns_lookup demo_ns (demo_id 9) = Some (90, 91)" by (simp add: ns_lookup_def demo_ns_def live_def demo_id_def)
  have ne: "demo_id 9 \<noteq> demo_id 5" "demo_id 9 \<noteq> demo_id 3" by (simp_all add: demo_id_def)
  have len: "length bs = 3" using r(1) by (auto split: sum.splits)
  then obtain b1 b2 b3 where "bs = [b1, b2, b3]" by (auto simp: numeral_3_eq_3 length_Suc_conv)
  moreover obtain g where g: "g = ns_lookup m'" by blast
  ultimately have "g (demo_id 9) = Some (90, 91)" using r(2) l ne unfolding g [symmetric] by (auto split: if_split_asm)
  then show ?thesis using r(1) g by blast
qed

end
