(* ===== verification/Comm.thy ===== *)
theory Comm
  imports Prelude
begin

unbundle bit_operations_syntax

text \<open>
  The shared communication area: \<open>xrp-kernel/xvp_main.c\<close> with the layouts of
  \<open>xrp_kernel_dsp_interface.h\<close>. Device memory is a map from word indices to 32-bit words;
  a C pointer into it is the index of its word. This theory holds the word and byte
  transfers, the type-length-value records and the start-up handshake with the DSP.
\<close>

section \<open>Words and bytes\<close>

type_synonym mmio = "nat \<Rightarrow> u32"

definition le_bytes :: "u32 \<Rightarrow> u8 list" where
  "le_bytes w = [ucast w, ucast (drop_bit 8 w), ucast (drop_bit 16 w), ucast (drop_bit 24 w)]"

definition le_word :: "u8 \<Rightarrow> u8 \<Rightarrow> u8 \<Rightarrow> u8 \<Rightarrow> u32" where
  "le_word a b c d = ucast a OR push_bit 8 (ucast b) OR push_bit 16 (ucast c) OR push_bit 24 (ucast d)"

lemma bit_u8_beyond [simp]: "8 \<le> n \<Longrightarrow> \<not> bit (x :: u8) n"
  using bit_imp_le_length [of x n] by auto

lemma le_bytes_word [simp]: "le_bytes (le_word a b c d) = [a, b, c, d]"
  by (auto simp: le_bytes_def le_word_def bit_simps intro!: bit_word_eqI)

lemma le_word_bytes: "le_word (ucast w) (ucast (drop_bit 8 w)) (ucast (drop_bit 16 w)) (ucast (drop_bit 24 w)) = w"
proof (rule bit_word_eqI)
  fix n assume "n < LENGTH(32)"
  then have "n < 32" by simp
  then consider "n < 8" | "8 \<le> n" "n < 16" | "16 \<le> n" "n < 24" | "24 \<le> n" "n < 32" by linarith
  then show "bit (le_word (ucast w) (ucast (drop_bit 8 w)) (ucast (drop_bit 16 w)) (ucast (drop_bit 24 w))) n = bit w n"
    by cases (auto simp: le_word_def bit_simps)
qed

section \<open>Transfers\<close>

definition xrp_comm_write32 :: "nat \<Rightarrow> u32 \<Rightarrow> mmio \<Rightarrow> mmio" where
  "xrp_comm_write32 a v m = m(a := v)"

definition xrp_comm_read32 :: "nat \<Rightarrow> mmio \<Rightarrow> u32" where
  "xrp_comm_read32 a m = m a"

text \<open>
  \<open>xrp_comm_write\<close>: whole words first, then one word with the remaining one to three bytes,
  padded with zeros. \<open>xrp_comm_read\<close> reads as many bytes as asked.
\<close>

fun xrp_comm_write :: "nat \<Rightarrow> u8 list \<Rightarrow> mmio \<Rightarrow> mmio" where
  "xrp_comm_write a (b0 # b1 # b2 # b3 # bs) m =
     xrp_comm_write (a + 1) bs (xrp_comm_write32 a (le_word b0 b1 b2 b3) m)"
| "xrp_comm_write a [b0, b1, b2] m = xrp_comm_write32 a (le_word b0 b1 b2 0) m"
| "xrp_comm_write a [b0, b1] m = xrp_comm_write32 a (le_word b0 b1 0 0) m"
| "xrp_comm_write a [b0] m = xrp_comm_write32 a (le_word b0 0 0 0) m"
| "xrp_comm_write a [] m = m"

fun xrp_comm_read :: "nat \<Rightarrow> nat \<Rightarrow> mmio \<Rightarrow> u8 list" where
  "xrp_comm_read a sz m =
     (if 4 \<le> sz then le_bytes (xrp_comm_read32 a m) @ xrp_comm_read (a + 1) (sz - 4) m
      else if 0 < sz then take sz (le_bytes (xrp_comm_read32 a m))
      else [])"

declare xrp_comm_read.simps [simp del]

definition words_for :: "nat \<Rightarrow> nat" where
  "words_for n = (n + 3) div 4"

definition xrp_comm_put_tlv :: "nat \<Rightarrow> u32 \<Rightarrow> u32 \<Rightarrow> mmio \<Rightarrow> nat \<times> nat \<times> mmio" where
  "xrp_comm_put_tlv a ty len m =
     (a + 2, a + 2 + unat ((len + 3) div 4),
      xrp_comm_write32 (a + 1) len (xrp_comm_write32 a ty m))"

definition xrp_comm_get_tlv :: "nat \<Rightarrow> mmio \<Rightarrow> nat \<times> nat \<times> u32 \<times> u32" where
  "xrp_comm_get_tlv a m =
     (let ty = xrp_comm_read32 a m; len = xrp_comm_read32 (a + 1) m in
      (a + 2, a + 2 + unat ((len + 3) div 4), ty, len))"

lemma words_for_simps [simp]:
  "words_for 0 = 0" "words_for (Suc 0) = 1" "words_for (Suc (Suc 0)) = 1" "words_for (Suc (Suc (Suc 0))) = 1"
  "words_for (Suc (Suc (Suc (Suc n)))) = Suc (words_for n)"
  by (auto simp: words_for_def)

lemma comm_write_other:
  "b < a \<or> a + words_for (length bs) \<le> b \<Longrightarrow> xrp_comm_write a bs m b = m b"
  by (induction a bs m rule: xrp_comm_write.induct) (auto simp: xrp_comm_write32_def)

lemma comm_read_cong:
  "(\<And>i. a \<le> i \<Longrightarrow> i < a + words_for sz \<Longrightarrow> m i = m' i) \<Longrightarrow> xrp_comm_read a sz m = xrp_comm_read a sz m'"
proof (induction a sz m rule: xrp_comm_read.induct)
  case (1 a sz m)
  have w: "4 \<le> sz \<Longrightarrow> words_for sz = Suc (words_for (sz - 4))" by (auto simp: words_for_def)
  have a: "0 < sz \<Longrightarrow> m a = m' a" using 1(2) [of a] by (auto simp: words_for_def)
  have "4 \<le> sz \<Longrightarrow> xrp_comm_read (a + 1) (sz - 4) m = xrp_comm_read (a + 1) (sz - 4) m'"
    using 1 w by auto
  then show ?case using a by (subst (1 2) xrp_comm_read.simps) (auto simp: xrp_comm_read32_def)
qed

lemma comm_read_write: "xrp_comm_read a (length bs) (xrp_comm_write a bs m) = bs"
proof (induction a bs m rule: xrp_comm_write.induct)
  case (1 a b0 b1 b2 b3 bs m)
  have "xrp_comm_write (a + 1) bs (xrp_comm_write32 a (le_word b0 b1 b2 b3) m) a = le_word b0 b1 b2 b3"
    by (simp add: comm_write_other xrp_comm_write32_def)
  then show ?case using 1 by (subst xrp_comm_read.simps) (simp add: xrp_comm_read32_def)
qed (subst xrp_comm_read.simps, simp add: xrp_comm_read32_def xrp_comm_write32_def)+

lemma comm_read_length [simp]: "length (xrp_comm_read a sz m) = sz"
  by (induction a sz m rule: xrp_comm_read.induct)
    (subst xrp_comm_read.simps, auto simp: le_bytes_def)

section \<open>The handshake\<close>

abbreviation (input) XRP_DSP_SYNC_IDLE :: u32 where "XRP_DSP_SYNC_IDLE \<equiv> 0"
abbreviation (input) XRP_DSP_SYNC_HOST_TO_DSP :: u32 where "XRP_DSP_SYNC_HOST_TO_DSP \<equiv> 0x1"
abbreviation (input) XRP_DSP_SYNC_DSP_TO_HOST :: u32 where "XRP_DSP_SYNC_DSP_TO_HOST \<equiv> 0x3"
abbreviation (input) XRP_DSP_SYNC_START :: u32 where "XRP_DSP_SYNC_START \<equiv> 0x101"
abbreviation (input) XRP_DSP_SYNC_DSP_READY_V1 :: u32 where "XRP_DSP_SYNC_DSP_READY_V1 \<equiv> 0x203"
abbreviation (input) XRP_DSP_SYNC_DSP_READY_V2 :: u32 where "XRP_DSP_SYNC_DSP_READY_V2 \<equiv> 0x303"

abbreviation (input) XRP_DSP_SYNC_TYPE_ACCEPT :: u32 where "XRP_DSP_SYNC_TYPE_ACCEPT \<equiv> 0x80000000"
abbreviation (input) XRP_DSP_SYNC_TYPE_LAST :: u32 where "XRP_DSP_SYNC_TYPE_LAST \<equiv> 0"
abbreviation (input) XRP_DSP_SYNC_TYPE_HW_SPEC_DATA :: u32 where "XRP_DSP_SYNC_TYPE_HW_SPEC_DATA \<equiv> 1"
abbreviation (input) XRP_DSP_SYNC_TYPE_HW_QUEUES :: u32 where "XRP_DSP_SYNC_TYPE_HW_QUEUES \<equiv> 2"
abbreviation (input) XRP_DSP_SYNC_TYPE_HW_DEBUG_INFO :: u32 where "XRP_DSP_SYNC_TYPE_HW_DEBUG_INFO \<equiv> 3"

text \<open>
  The part of \<open>struct xvp\<close> the handshake uses. \<open>xs_comm\<close> and \<open>xs_queue_comm\<close> are word
  indices of the shared area and of the areas of the queues.
\<close>

record xvp_sync =
  xs_n_queues :: nat
  xs_queue_priority :: "u32 list"
  xs_comm :: nat
  xs_queue_comm :: "nat list"
  xs_panic_phy :: phys_addr
  xs_log_mode :: u32

definition put_bytes_tlv :: "nat \<Rightarrow> u32 \<Rightarrow> u8 list \<Rightarrow> mmio \<Rightarrow> nat \<times> mmio" where
  "put_bytes_tlv a ty bs m =
     (let (v, a', m1) = xrp_comm_put_tlv a ty (of_nat (length bs)) m in (a', xrp_comm_write v bs m1))"

definition priority_bytes :: "xvp_sync \<Rightarrow> u8 list" where
  "priority_bytes x = concat (map le_bytes (take (xs_n_queues x) (xs_queue_priority x)))"

definition debug_info_bytes :: "xvp_sync \<Rightarrow> u8 list" where
  "debug_info_bytes x = le_bytes (ucast (xs_panic_phy x)) @ le_bytes (xs_log_mode x) @ le_bytes 0"

definition idle_queues :: "xvp_sync \<Rightarrow> mmio \<Rightarrow> mmio" where
  "idle_queues x m = fold (\<lambda>i. xrp_comm_write32 (xs_queue_comm x ! i) XRP_DSP_SYNC_IDLE) [1..<xs_n_queues x] m"

definition xrp_sync_v2 :: "xvp_sync \<Rightarrow> u8 list \<Rightarrow> mmio \<Rightarrow> mmio" where
  "xrp_sync_v2 x hw_sync_data m =
     (let (a1, m1) = put_bytes_tlv (xs_comm x + 4) XRP_DSP_SYNC_TYPE_HW_SPEC_DATA hw_sync_data m;
          (a2, m2) =
            (if 1 < xs_n_queues x then
               let (a, m') = put_bytes_tlv a1 XRP_DSP_SYNC_TYPE_HW_QUEUES (priority_bytes x) m1
               in (a, idle_queues x m')
             else (a1, m1));
          (a3, m3) = put_bytes_tlv a2 XRP_DSP_SYNC_TYPE_HW_DEBUG_INFO (debug_info_bytes x) m2;
          (v, a4, m4) = xrp_comm_put_tlv a3 XRP_DSP_SYNC_TYPE_LAST 0 m3
      in m4)"

fun words_of_bytes :: "u8 list \<Rightarrow> u32 list" where
  "words_of_bytes (a # b # c # d # bs) = le_word a b c d # words_of_bytes bs"
| "words_of_bytes _ = []"

definition xrp_sync_complete_v2 :: "xvp_sync \<Rightarrow> nat \<Rightarrow> mmio \<Rightarrow> xvp_sync \<times> unit res" where
  "xrp_sync_complete_v2 x sz m =
     (let (v, a1, ty, len) = xrp_comm_get_tlv (xs_comm x + 4) m in
      if unat len \<noteq> sz then (x, Error EINVAL)
      else if 1 < xs_n_queues x then
        let (p, a2, ty2, len2) = xrp_comm_get_tlv a1 m in
        if unat len2 \<noteq> xs_n_queues x * 4 then (x, Error EINVAL)
        else if ty2 AND XRP_DSP_SYNC_TYPE_ACCEPT \<noteq> 0
        then (x\<lparr>xs_queue_priority := words_of_bytes (xrp_comm_read p (xs_n_queues x * 4) m)\<rparr>, Ok ())
        else (x\<lparr>xs_n_queues := 1\<rparr>, Ok ())
      else (x, Ok ()))"

text \<open>
  One polling loop: each round reads the word, tests it, then tests for a firmware panic;
  the list ends with the round after which the deadline has passed. \<open>None\<close> is a panic.
\<close>

fun poll :: "(u32 \<Rightarrow> bool) \<Rightarrow> u32 \<times> bool \<Rightarrow> (u32 \<times> bool) list \<Rightarrow> u32 option" where
  "poll stop (v, panic) rest =
     (if stop v then Some v
      else if panic then None
      else case rest of [] \<Rightarrow> Some v | r # rs \<Rightarrow> poll stop r rs)"

text \<open>
  What the DSP does during the handshake: the words the two loops see, and its effect on
  the area between the host's message and its acknowledgement.
\<close>

record sync_env =
  se_first :: "u32 \<times> bool"
  se_rest :: "(u32 \<times> bool) list"
  se_dsp :: "mmio \<Rightarrow> mmio"
  se_first2 :: "u32 \<times> bool"
  se_rest2 :: "(u32 \<times> bool) list"

definition sync_err :: "xvp_sync \<Rightarrow> mmio \<Rightarrow> errno \<Rightarrow> xvp_sync \<times> mmio \<times> unit res" where
  "sync_err x m e = (x, xrp_comm_write32 (xs_comm x) XRP_DSP_SYNC_IDLE m, Error e)"

definition xrp_synchronize ::
  "sync_env \<Rightarrow> u8 list option \<Rightarrow> xvp_sync \<Rightarrow> mmio \<Rightarrow> xvp_sync \<times> mmio \<times> unit res" where
  "xrp_synchronize env data x m =
     (case data of
        None \<Rightarrow> sync_err x m ENOMEM
      | Some d \<Rightarrow>
          let m1 = xrp_comm_write32 (xs_comm x) XRP_DSP_SYNC_START m in
          case poll (\<lambda>v. v \<noteq> XRP_DSP_SYNC_START) (se_first env) (se_rest env) of
            None \<Rightarrow> sync_err x m1 ENODEV
          | Some v \<Rightarrow>
              if v \<noteq> XRP_DSP_SYNC_DSP_READY_V1 \<and> v \<noteq> XRP_DSP_SYNC_DSP_READY_V2
              then sync_err x m1 ENODEV
              else
                let (x2, m2) =
                      (if v = XRP_DSP_SYNC_DSP_READY_V1
                       then (if 1 < xs_n_queues x then x\<lparr>xs_n_queues := 1\<rparr> else x,
                             xrp_comm_write (xs_comm x + 1) d m1)
                       else (x, xrp_sync_v2 x d m1));
                    m3 = se_dsp env (xrp_comm_write32 (xs_comm x) XRP_DSP_SYNC_HOST_TO_DSP m2) in
                case poll (\<lambda>v. v = XRP_DSP_SYNC_DSP_TO_HOST) (se_first2 env) (se_rest2 env) of
                  None \<Rightarrow> sync_err x2 m3 ENODEV
                | Some v1 \<Rightarrow>
                    if v1 \<noteq> XRP_DSP_SYNC_DSP_TO_HOST then sync_err x2 m3 ENODEV
                    else
                      (case (if v = XRP_DSP_SYNC_DSP_READY_V2 then xrp_sync_complete_v2 x2 (length d) m3
                             else (x2, Ok ())) of
                         (x3, r) \<Rightarrow> (x3, xrp_comm_write32 (xs_comm x) XRP_DSP_SYNC_IDLE m3, r)))"

section \<open>Reading back what was written\<close>

definition tlv_at :: "nat \<Rightarrow> u32 \<Rightarrow> u8 list \<Rightarrow> mmio \<Rightarrow> bool" where
  "tlv_at a ty bs m = (m a = ty \<and> m (a + 1) = of_nat (length bs) \<and> xrp_comm_read (a + 2) (length bs) m = bs)"

definition tlv_end :: "nat \<Rightarrow> u8 list \<Rightarrow> nat" where
  "tlv_end a bs = a + 2 + words_for (length bs)"

lemma tlv_len_words:
  "n < 2 ^ 32 - 3 \<Longrightarrow> unat ((of_nat n + 3 :: u32) div 4) = words_for n"
proof -
  assume n: "n < 2 ^ 32 - 3"
  then have "unat (of_nat n :: u32) = n" by (intro of_nat_inverse [OF refl]) simp
  then have "unat (of_nat n + 3 :: u32) = n + 3" using n by (subst unat_add_u32) simp_all
  then show ?thesis by (simp add: unat_div words_for_def)
qed

lemma put_bytes_tlv_at:
  assumes "length bs < 2 ^ 32 - 3" "put_bytes_tlv a ty bs m = (a', m')"
  shows "a' = tlv_end a bs" "tlv_at a ty bs m'" "b < a \<or> tlv_end a bs \<le> b \<Longrightarrow> m' b = m b"
  using assms tlv_len_words [OF assms(1)]
  by (auto simp: put_bytes_tlv_def xrp_comm_put_tlv_def tlv_end_def tlv_at_def comm_write_other
      xrp_comm_write32_def comm_read_write)

lemma tlv_at_cong:
  assumes "\<And>i. a \<le> i \<Longrightarrow> i < tlv_end a bs \<Longrightarrow> m' i = m i"
  shows "tlv_at a ty bs m' = tlv_at a ty bs m"
proof -
  have "m' a = m a" "m' (a + 1) = m (a + 1)" using assms by (auto simp: tlv_end_def)
  moreover have "xrp_comm_read (a + 2) (length bs) m' = xrp_comm_read (a + 2) (length bs) m"
    using assms by (intro comm_read_cong) (auto simp: tlv_end_def)
  ultimately show ?thesis by (simp add: tlv_at_def)
qed

lemma get_tlv_at:
  assumes "tlv_at a ty bs m" "length bs < 2 ^ 32 - 3"
  shows "xrp_comm_get_tlv a m = (a + 2, tlv_end a bs, ty, of_nat (length bs))"
  using assms tlv_len_words [OF assms(2)]
  by (simp add: tlv_at_def xrp_comm_get_tlv_def xrp_comm_read32_def tlv_end_def Let_def)

text \<open>
  A receiver that walks the records until the one of type 0 (fuel bounds the number of
  records it accepts).
\<close>

fun parse_tlvs :: "nat \<Rightarrow> nat \<Rightarrow> mmio \<Rightarrow> (u32 \<times> u8 list) list option" where
  "parse_tlvs 0 a m = None"
| "parse_tlvs (Suc fuel) a m =
    (case xrp_comm_get_tlv a m of
       (v, a', ty, len) \<Rightarrow>
         if ty = XRP_DSP_SYNC_TYPE_LAST then Some []
         else map_option ((#) (ty, xrp_comm_read v (unat len) m)) (parse_tlvs fuel a' m))"

fun tlvs_at :: "nat \<Rightarrow> (u32 \<times> u8 list) list \<Rightarrow> mmio \<Rightarrow> bool" where
  "tlvs_at a [] m = (m a = XRP_DSP_SYNC_TYPE_LAST)"
| "tlvs_at a ((ty, bs) # ts) m =
    (ty \<noteq> XRP_DSP_SYNC_TYPE_LAST \<and> length bs < 2 ^ 32 - 3 \<and> tlv_at a ty bs m \<and> tlvs_at (tlv_end a bs) ts m)"

lemma parse_tlvs_at: "tlvs_at a ts m \<Longrightarrow> length ts < fuel \<Longrightarrow> parse_tlvs fuel a m = Some ts"
proof (induction ts arbitrary: a fuel)
  case Nil
  then show ?case
    by (cases fuel) (auto simp: xrp_comm_get_tlv_def xrp_comm_read32_def Let_def)
next
  case (Cons t ts)
  obtain ty bs where t: "t = (ty, bs)" by (cases t)
  obtain f where f: "fuel = Suc f" using Cons by (cases fuel) auto
  have "unat (of_nat (length bs) :: u32) = length bs"
    using Cons t by (intro of_nat_inverse [OF refl]) auto
  then show ?case using Cons t f get_tlv_at [of a ty bs m] by (auto simp: tlv_at_def)
qed

lemma idle_queues_other:
  assumes "\<And>i. 1 \<le> i \<Longrightarrow> i < xs_n_queues x \<Longrightarrow> xs_queue_comm x ! i \<noteq> b"
  shows "idle_queues x m b = m b"
proof -
  have "fold (\<lambda>i. xrp_comm_write32 (xs_queue_comm x ! i) 0) is m b = m b"
    if "set is \<subseteq> {1..<xs_n_queues x}" for "is"
    using that assms by (induction "is" arbitrary: m) (auto simp: xrp_comm_write32_def)
  then show ?thesis by (simp add: idle_queues_def)
qed

definition sync_message :: "xvp_sync \<Rightarrow> u8 list \<Rightarrow> (u32 \<times> u8 list) list" where
  "sync_message x d =
     (XRP_DSP_SYNC_TYPE_HW_SPEC_DATA, d) #
     (if 1 < xs_n_queues x then [(XRP_DSP_SYNC_TYPE_HW_QUEUES, priority_bytes x)] else []) @
     [(XRP_DSP_SYNC_TYPE_HW_DEBUG_INFO, debug_info_bytes x)]"

text \<open>The words the message occupies, up to and including its last record.\<close>

definition sync_end :: "xvp_sync \<Rightarrow> u8 list \<Rightarrow> nat" where
  "sync_end x d = xs_comm x + 4 + (2 + words_for (length d)) +
     (if 1 < xs_n_queues x then 2 + xs_n_queues x else 0) + 5 + 2"

definition sync_layout :: "xvp_sync \<Rightarrow> u8 list \<Rightarrow> bool" where
  "sync_layout x d = (length d < 2 ^ 32 - 3 \<and> xs_n_queues x * 4 < 2 ^ 32 - 3 \<and>
     length (xs_queue_priority x) = xs_n_queues x \<and>
     (\<forall>i. 1 \<le> i \<longrightarrow> i < xs_n_queues x \<longrightarrow>
        (xs_queue_comm x ! i < xs_comm x + 4 \<or> sync_end x d \<le> xs_queue_comm x ! i)))"

lemma length_concat_le: "length (concat (map le_bytes ws)) = 4 * length ws"
  by (induction ws) (auto simp: le_bytes_def)

lemma priority_bytes_length: "length (xs_queue_priority x) = xs_n_queues x \<Longrightarrow> length (priority_bytes x) = 4 * xs_n_queues x"
  by (simp add: priority_bytes_def length_concat_le)

lemma words_for_4 [simp]: "words_for (4 * n) = n"
  by (simp add: words_for_def)

lemma sync_v2_message:
  assumes lay: "sync_layout x d"
  shows "tlvs_at (xs_comm x + 4) (sync_message x d) (xrp_sync_v2 x d m)"
    and "b < xs_comm x + 4 \<Longrightarrow> (\<And>i. 1 \<le> i \<Longrightarrow> i < xs_n_queues x \<Longrightarrow> xs_queue_comm x ! i \<noteq> b) \<Longrightarrow>
      xrp_sync_v2 x d m b = m b"
proof -
  let ?a0 = "xs_comm x + 4"
  have dl: "length d < 2 ^ 32 - 3" using lay by (simp add: sync_layout_def)
  have pl: "length (priority_bytes x) = 4 * xs_n_queues x"
    using lay by (simp add: sync_layout_def priority_bytes_length)
  have pl': "length (priority_bytes x) < 2 ^ 32 - 3" using lay pl by (simp add: sync_layout_def)
  have bl: "length (debug_info_bytes x) = 12" by (simp add: debug_info_bytes_def le_bytes_def)
  have bl': "length (debug_info_bytes x) < 2 ^ 32 - 3" by (simp add: bl)
  obtain a1 m1 where e1: "put_bytes_tlv ?a0 1 d m = (a1, m1)" by fastforce
  note p1 = put_bytes_tlv_at [OF dl e1]
  define a2 m2 where "a2 = (if 1 < xs_n_queues x then tlv_end a1 (priority_bytes x) else a1)"
    and "m2 = (if 1 < xs_n_queues x then idle_queues x (snd (put_bytes_tlv a1 2 (priority_bytes x) m1)) else m1)"
  obtain q mq where eq: "put_bytes_tlv a1 2 (priority_bytes x) m1 = (q, mq)" by fastforce
  note pq = put_bytes_tlv_at [OF pl' eq]
  obtain a3 m3 where e3: "put_bytes_tlv a2 3 (debug_info_bytes x) m2 = (a3, m3)" by fastforce
  note p3 = put_bytes_tlv_at [OF bl' e3]
  have res: "xrp_sync_v2 x d m = m3(a3 := 0, a3 + 1 := 0)"
    using e1 eq e3 pq(1)
    by (simp add: xrp_sync_v2_def a2_def m2_def xrp_comm_put_tlv_def xrp_comm_write32_def split: if_splits)
  have ends: "a1 = tlv_end ?a0 d" "?a0 \<le> a1" "a1 \<le> a2" "a2 \<le> a3" "a3 + 2 = sync_end x d"
    "1 < xs_n_queues x \<Longrightarrow> tlv_end a1 (priority_bytes x) = a2"
    using p1(1) p3(1) pl bl by (auto simp: tlv_end_def a2_def sync_end_def words_for_def)
  have qc: "xs_queue_comm x ! i < ?a0 \<or> a3 + 2 \<le> xs_queue_comm x ! i" if "1 \<le> i" "i < xs_n_queues x" for i
    using lay that ends(5) by (simp add: sync_layout_def)
  have idle: "idle_queues x mm b = mm b" if "?a0 \<le> b" "b < a3 + 2" for mm b
  proof (rule idle_queues_other)
    fix i assume "1 \<le> i" "i < xs_n_queues x"
    then show "xs_queue_comm x ! i \<noteq> b" using qc [of i] that by auto
  qed
  have keep2: "m2 b = m1 b" if "?a0 \<le> b" "b < a1" for b
    using that ends idle [of b] eq pq(3) [of b] by (auto simp: m2_def)
  have keep3: "xrp_sync_v2 x d m b = m2 b" if "b < a2" for b
    using that ends p3(3) [of b] by (simp add: res)
  have t1: "tlv_at ?a0 1 d (xrp_sync_v2 x d m)"
    using p1(2) keep2 keep3 ends by (subst tlv_at_cong [where m = m1]) auto
  have t2: "tlv_at a1 2 (priority_bytes x) (xrp_sync_v2 x d m)" if n: "1 < xs_n_queues x"
    using pq(2) keep3 ends n idle eq by (subst tlv_at_cong [where m = mq]) (auto simp: m2_def)
  have t3: "tlv_at a2 3 (debug_info_bytes x) (xrp_sync_v2 x d m)"
    using p3(1,2) by (subst tlv_at_cong [where m = m3]) (auto simp: res)
  show "tlvs_at ?a0 (sync_message x d) (xrp_sync_v2 x d m)"
    using t1 t2 t3 ends(1,6) p3(1) dl pl' bl' by (auto simp: sync_message_def res a2_def)
  show "xrp_sync_v2 x d m b = m b"
    if "b < ?a0" "\<And>i. 1 \<le> i \<Longrightarrow> i < xs_n_queues x \<Longrightarrow> xs_queue_comm x ! i \<noteq> b"
    using that ends keep3 [of b] p1(3) [of b] pq(3) [of b] idle_queues_other [of x b] eq
    by (auto simp: m2_def)
qed

section \<open>Properties of the communication area\<close>

text \<open>
  bytes written to the area are read back, whatever their number, and no word beyond
  the rounded-up length is touched.
\<close>

theorem xrp_comm_round_trip:
  "xrp_comm_read a (length bs) (xrp_comm_write a bs m) = bs \<and>
   (\<forall>b. b < a \<or> a + words_for (length bs) \<le> b \<longrightarrow> xrp_comm_write a bs m b = m b)"
  by (simp add: comm_read_write comm_write_other)

theorem xrp_comm_round_trip_witness:
  "xrp_comm_read 5 (length [1, 2, 3, 4, 250, 6 :: u8]) (xrp_comm_write 5 [1, 2, 3, 4, 250, 6] (\<lambda>_. 9)) =
     [1, 2, 3, 4, 250, 6] \<and> xrp_comm_write 5 [1, 2, 3, 4, 250, 6] (\<lambda>_. 9) 7 = 9"
proof -
  note r = xrp_comm_round_trip [of 5 "[1, 2, 3, 4, 250, 6]" "\<lambda>_. 9"]
  have "xrp_comm_write 5 [1, 2, 3, 4, 250, 6] (\<lambda>_. 9) 7 = 9"
    by (rule conjunct2 [OF r, rule_format]) (simp add: words_for_def)
  then show ?thesis using conjunct1 [OF r] by blast
qed

text \<open>
  a receiver that walks the records of the synchronisation area finds the hardware
  data, the queue priorities when there are several queues, and the debug information, as
  long as the areas of the other queues lie outside the message.
\<close>

theorem sync_message_delivered:
  assumes "sync_layout x d"
  shows "parse_tlvs 4 (xs_comm x + 4) (xrp_sync_v2 x d m) =
    Some ([(1, d)] @ (if 1 < xs_n_queues x then [(2, priority_bytes x)] else []) @ [(3, debug_info_bytes x)])"
  using parse_tlvs_at [OF sync_v2_message(1) [OF assms], of 4 m] by (simp add: sync_message_def)

definition demo_sync :: xvp_sync where
  "demo_sync = \<lparr>xs_n_queues = 2, xs_queue_priority = [7, 5], xs_comm = 0, xs_queue_comm = [0, 32],
     xs_panic_phy = 0x90000000, xs_log_mode = 1\<rparr>"

lemma demo_sync_layout: "sync_layout demo_sync (replicate 36 1)"
  by (auto simp: sync_layout_def demo_sync_def sync_end_def words_for_def less_Suc_eq)

theorem sync_message_delivered_witness:
  "parse_tlvs 4 4 (xrp_sync_v2 demo_sync (replicate 36 1) (\<lambda>_. 9)) =
    Some [(1, replicate 36 1), (2, [7, 0, 0, 0, 5, 0, 0, 0]), (3, [0, 0, 0, 0x90, 1, 0, 0, 0, 0, 0, 0, 0])]"
  using sync_message_delivered [OF demo_sync_layout, of "\<lambda>_. 9"]
  by (simp add: demo_sync_def priority_bytes_def debug_info_bytes_def le_bytes_def)

definition accepting :: "u32 set \<Rightarrow> xvp_sync \<Rightarrow> u8 list \<Rightarrow> (mmio \<Rightarrow> mmio) \<Rightarrow> bool" where
  "accepting tys x d dsp = (\<forall>m b. dsp m b =
     (if b = xs_comm x + 4 \<and> 1 \<in> tys \<or> b = tlv_end (xs_comm x + 4) d \<and> 2 \<in> tys
      then m b OR XRP_DSP_SYNC_TYPE_ACCEPT else m b))"

lemma words_of_le_bytes: "words_of_bytes (concat (map le_bytes ws)) = ws"
  by (induction ws) (simp_all add: le_bytes_def le_word_bytes)

lemma sync_complete_spec:
  assumes lay: "sync_layout x d"
    and t: "tlv_at (xs_comm x + 4) ty1 d m"
    and q: "1 < xs_n_queues x \<Longrightarrow> tlv_at (tlv_end (xs_comm x + 4) d) ty2 (priority_bytes x) m"
  shows "xrp_sync_complete_v2 x (length d) m =
    (if 1 < xs_n_queues x \<and> ty2 AND XRP_DSP_SYNC_TYPE_ACCEPT = 0 then x\<lparr>xs_n_queues := 1\<rparr> else x, Ok ())"
proof -
  have dl: "length d < 2 ^ 32 - 3" "length (priority_bytes x) = 4 * xs_n_queues x"
    "length (priority_bytes x) < 2 ^ 32 - 3" "length (xs_queue_priority x) = xs_n_queues x"
    using lay by (auto simp: sync_layout_def priority_bytes_length)
  have u: "unat (of_nat (length d) :: u32) = length d" "unat (of_nat (4 * xs_n_queues x) :: u32) = 4 * xs_n_queues x"
    using dl by (intro of_nat_inverse [OF refl], simp)+
  note g1 = get_tlv_at [OF t dl(1)]
  have pr: "words_of_bytes (priority_bytes x) = xs_queue_priority x"
    using dl(4) by (simp add: priority_bytes_def words_of_le_bytes)
  show ?thesis
  proof (cases "1 < xs_n_queues x")
    case False
    then show ?thesis using g1 u by (simp add: xrp_sync_complete_v2_def)
  next
    case True
    note g2 = get_tlv_at [OF q [OF True] dl(3)]
    have "xrp_comm_read (tlv_end (xs_comm x + 4) d + 2) (xs_n_queues x * 4) m = priority_bytes x"
      using q [OF True] dl(2) by (simp add: tlv_at_def mult.commute)
    then show ?thesis using g1 g2 True u dl(2) pr
      by (auto simp: xrp_sync_complete_v2_def mult.commute)
  qed
qed

lemma accept_bit: "(ty OR XRP_DSP_SYNC_TYPE_ACCEPT) AND XRP_DSP_SYNC_TYPE_ACCEPT \<noteq> 0"
proof
  assume a: "(ty OR XRP_DSP_SYNC_TYPE_ACCEPT) AND XRP_DSP_SYNC_TYPE_ACCEPT = 0"
  have b: "(0x80000000 :: u32) = push_bit 31 1" by simp
  have "bit ((ty OR XRP_DSP_SYNC_TYPE_ACCEPT) AND XRP_DSP_SYNC_TYPE_ACCEPT) 31"
    unfolding b by (simp add: bit_simps)
  then show False using a by simp
qed

lemma tlv_at_typed:
  assumes "tlv_at a ty bs m" "\<And>i. a < i \<Longrightarrow> i < tlv_end a bs \<Longrightarrow> m' i = m i"
  shows "tlv_at a (m' a) bs m'"
proof -
  have "m' (a + 1) = m (a + 1)" using assms(2) by (auto simp: tlv_end_def)
  moreover have "xrp_comm_read (a + 2) (length bs) m' = xrp_comm_read (a + 2) (length bs) m"
    using assms(2) by (intro comm_read_cong) (auto simp: tlv_end_def)
  ultimately show ?thesis using assms(1) by (simp add: tlv_at_def)
qed

text \<open>
  C28: with a DSP that speaks version 2, answers in time and sets the accept bit of some
  records, the handshake succeeds; the driver keeps its queues and their priorities when
  the queue record was accepted and falls back to one queue when it was not; the
  synchronisation word is idle afterwards.
\<close>

theorem xrp_synchronize_v2:
  assumes lay: "sync_layout x d" and qs: "\<forall>i. 1 \<le> i \<longrightarrow> i < xs_n_queues x \<longrightarrow> xs_queue_comm x ! i \<noteq> xs_comm x"
    and p1: "poll (\<lambda>v. v \<noteq> XRP_DSP_SYNC_START) (se_first env) (se_rest env) = Some XRP_DSP_SYNC_DSP_READY_V2"
    and p2: "poll (\<lambda>v. v = XRP_DSP_SYNC_DSP_TO_HOST) (se_first2 env) (se_rest2 env) = Some XRP_DSP_SYNC_DSP_TO_HOST"
    and dsp: "accepting tys x d (se_dsp env)"
  shows "\<exists>m'. xrp_synchronize env (Some d) x m =
      (if 1 < xs_n_queues x \<and> 2 \<notin> tys then x\<lparr>xs_n_queues := 1\<rparr> else x, m', Ok ()) \<and>
    m' (xs_comm x) = XRP_DSP_SYNC_IDLE"
proof -
  define m1 where "m1 = xrp_comm_write32 (xs_comm x) XRP_DSP_SYNC_START m"
  define m2 where "m2 = xrp_comm_write32 (xs_comm x) XRP_DSP_SYNC_HOST_TO_DSP (xrp_sync_v2 x d m1)"
  define m3 where "m3 = se_dsp env m2"
  let ?a0 = "xs_comm x + 4" and ?a1 = "tlv_end (xs_comm x + 4) d"
  have lt: "?a0 + 2 \<le> ?a1" by (simp add: tlv_end_def)
  note msg = sync_v2_message(1) [OF lay, of m1]
  have keep: "m2 b = xrp_sync_v2 x d m1 b" if "b \<noteq> xs_comm x" for b
    using that by (simp add: m2_def xrp_comm_write32_def)
  have m3: "m3 b = (if b = ?a0 \<and> 1 \<in> tys \<or> b = ?a1 \<and> 2 \<in> tys then m2 b OR XRP_DSP_SYNC_TYPE_ACCEPT else m2 b)" for b
    using dsp by (simp add: accepting_def m3_def)
  have t1: "tlv_at ?a0 (m3 ?a0) d m3"
    using msg m3 keep by (intro tlv_at_typed [of ?a0 1 d "xrp_sync_v2 x d m1"]) (auto simp: sync_message_def)
  have t2: "tlv_at ?a1 2 (priority_bytes x) (xrp_sync_v2 x d m1)" if "1 < xs_n_queues x"
    using msg that by (simp add: sync_message_def)
  then have q: "tlv_at ?a1 (m3 ?a1) (priority_bytes x) m3" if "1 < xs_n_queues x"
    using that m3 keep lt by (intro tlv_at_typed [of ?a1 2 _ "xrp_sync_v2 x d m1"]) auto
  have "m3 ?a1 AND XRP_DSP_SYNC_TYPE_ACCEPT = 0 \<longleftrightarrow> 2 \<notin> tys" if "1 < xs_n_queues x"
  proof -
    have "m2 ?a1 = 2" using t2 that keep [of ?a1] lt by (simp add: tlv_at_def)
    then show ?thesis using m3 [of ?a1] lt accept_bit [of 2] by auto
  qed
  then have "xrp_sync_complete_v2 x (length d) m3 =
      (if 1 < xs_n_queues x \<and> 2 \<notin> tys then x\<lparr>xs_n_queues := 1\<rparr> else x, Ok ())"
    using sync_complete_spec [OF lay t1 q] by auto
  then have "xrp_synchronize env (Some d) x m =
      (if 1 < xs_n_queues x \<and> 2 \<notin> tys then x\<lparr>xs_n_queues := 1\<rparr> else x,
       xrp_comm_write32 (xs_comm x) XRP_DSP_SYNC_IDLE m3, Ok ())"
    using p1 p2 by (simp add: xrp_synchronize_def Let_def m1_def m2_def m3_def del: poll.simps)
  then show ?thesis by (auto simp: xrp_comm_write32_def)
qed

definition demo_sync_env :: sync_env where
  "demo_sync_env = \<lparr>se_first = (0x101, False), se_rest = [(0x101, False), (0x303, False)],
     se_dsp = (\<lambda>m b. if b = 4 \<or> b = tlv_end 4 (replicate 36 1) then m b OR 0x80000000 else m b),
     se_first2 = (1, False), se_rest2 = [(3, False)]\<rparr>"

theorem xrp_synchronize_v2_witness:
  "\<exists>m'. xrp_synchronize demo_sync_env (Some (replicate 36 1)) demo_sync (\<lambda>_. 0) = (demo_sync, m', Ok ()) \<and> m' 0 = 0"
  using xrp_synchronize_v2 [OF demo_sync_layout, of demo_sync_env "{1, 2}" "\<lambda>_. 0"]
  by (simp add: demo_sync_env_def accepting_def) (simp add: demo_sync_def less_Suc_eq numeral_eq_Suc)

text \<open>
  whatever the DSP does (silence, garbage, a panic, corrupted lengths), the handshake
  ends with the synchronisation word idle, and it fails without a fault.
\<close>

theorem xrp_synchronize_idle:
  "\<exists>x' m' r. xrp_synchronize env data x m = (x', m', r) \<and> m' (xs_comm x) = XRP_DSP_SYNC_IDLE \<and>
     r \<in> {Ok (), Error ENOMEM, Error ENODEV, Error EINVAL} \<and>
     (xs_n_queues x' = xs_n_queues x \<or> xs_n_queues x' = 1)"
  by (auto simp: xrp_synchronize_def sync_err_def xrp_sync_complete_v2_def xrp_comm_write32_def Let_def
      split: option.split prod.split)

end
