(* ===== verification/Hw_Request.thy ===== *)
theory Hw_Request
  imports Comm Address_Map
begin

unbundle bit_operations_syntax

text \<open>
  Commands to the DSP: how \<open>xvp_main.c\<close> fills a command slot, waits for its completion,
  takes the answer, and what the interrupt handler does. A slot is \<open>struct xrp_dsp_cmd\<close>;
  its fields are the words at fixed offsets from the slot's address.
\<close>

section \<open>The command slot\<close>

definition cmd_flags :: nat where "cmd_flags = 0"
definition cmd_in_data_size :: nat where "cmd_in_data_size = 1"
definition cmd_out_data_size :: nat where "cmd_out_data_size = 2"
definition cmd_buffer_size :: nat where "cmd_buffer_size = 3"
definition cmd_in_data :: nat where "cmd_in_data = 4"
definition cmd_out_data :: nat where "cmd_out_data = 8"
definition cmd_buffer_data :: nat where "cmd_buffer_data = 12"
definition cmd_nsid :: nat where "cmd_nsid = 16"
definition cmd_report_id :: nat where "cmd_report_id = 20"
definition cmd_cmd_flag :: nat where "cmd_cmd_flag = 28"

lemmas cmd_offsets = cmd_flags_def cmd_in_data_size_def cmd_out_data_size_def cmd_buffer_size_def
  cmd_in_data_def cmd_out_data_def cmd_buffer_data_def cmd_nsid_def cmd_report_id_def cmd_cmd_flag_def

abbreviation (input) REQUEST_VALID :: u32 where "REQUEST_VALID \<equiv> 1"
abbreviation (input) RESPONSE_VALID :: u32 where "RESPONSE_VALID \<equiv> 2"
abbreviation (input) REQUEST_NSID :: u32 where "REQUEST_NSID \<equiv> 4"
abbreviation (input) RESPONSE_DELIVERY_FAIL :: u32 where "RESPONSE_DELIVERY_FAIL \<equiv> 8"
abbreviation (input) REPORT_TO_HOST_FLAG :: u32 where "REPORT_TO_HOST_FLAG \<equiv> 0x10000000"
abbreviation (input) INLINE_DATA_SIZE :: nat where "INLINE_DATA_SIZE \<equiv> 16"
abbreviation (input) INLINE_BUFFER_COUNT :: nat where "INLINE_BUFFER_COUNT \<equiv> 1"

record dsp_buffer =
  db_flags :: u32
  db_size :: u32
  db_addr :: u32

record ioctl_queue =
  q_flags :: u32
  q_in_data_size :: u32
  q_out_data_size :: u32
  q_buffer_size :: u32
  q_in_data_addr :: u64
  q_out_data_addr :: u64
  q_buffer_addr :: u64
  q_nsid_addr :: u64

text \<open>
  The part of \<open>struct xrp_request\<close> that reaches the slot: inline data, or physical addresses
  of data that was shared (the unions of the C structure are told apart by the sizes).
\<close>

record hw_request =
  rq_queue :: ioctl_queue
  rq_dsp_buffer :: "dsp_buffer list"
  rq_in_data :: "u8 list"
  rq_out_data :: "u8 list"
  rq_in_data_phys :: phys_addr
  rq_out_data_phys :: phys_addr
  rq_dsp_buffer_phys :: phys_addr
  rq_nsid :: "u8 list"

abbreviation rq_n_buffers :: "hw_request \<Rightarrow> nat" where
  "rq_n_buffers rq \<equiv> length (rq_dsp_buffer rq)"

definition buffer_bytes :: "dsp_buffer \<Rightarrow> u8 list" where
  "buffer_bytes b = le_bytes (db_flags b) @ le_bytes (db_size b) @ le_bytes (db_addr b)"

section \<open>Filling and completing a slot\<close>

text \<open>
  \<open>xrp_fill_hw_request\<close> as the sequence of its stores, in program order: the write barrier
  before the last one makes this also the order the DSP sees.
\<close>

definition fill_steps :: "bsearch_fn \<Rightarrow> map_entry list \<Rightarrow> nat \<Rightarrow> hw_request \<Rightarrow> (mmio \<Rightarrow> mmio) list" where
  "fill_steps bs mp cmd rq =
    [xrp_comm_write32 (cmd + cmd_in_data_size) (q_in_data_size (rq_queue rq)),
     xrp_comm_write32 (cmd + cmd_out_data_size) (q_out_data_size (rq_queue rq)),
     xrp_comm_write32 (cmd + cmd_buffer_size) (of_nat (rq_n_buffers rq * 12)),
     (if INLINE_DATA_SIZE < unat (q_in_data_size (rq_queue rq))
      then xrp_comm_write32 (cmd + cmd_in_data) (xrp_translate_to_dsp bs mp (rq_in_data_phys rq))
      else xrp_comm_write (cmd + cmd_in_data) (take (unat (q_in_data_size (rq_queue rq))) (rq_in_data rq)))] @
    (if INLINE_DATA_SIZE < unat (q_out_data_size (rq_queue rq))
     then [xrp_comm_write32 (cmd + cmd_out_data) (xrp_translate_to_dsp bs mp (rq_out_data_phys rq))]
     else []) @
    [if INLINE_BUFFER_COUNT < rq_n_buffers rq
     then xrp_comm_write32 (cmd + cmd_buffer_data) (xrp_translate_to_dsp bs mp (rq_dsp_buffer_phys rq))
     else xrp_comm_write (cmd + cmd_buffer_data) (concat (map buffer_bytes (rq_dsp_buffer rq)))] @
    (if q_flags (rq_queue rq) AND REQUEST_NSID \<noteq> 0
     then [xrp_comm_write (cmd + cmd_nsid) (rq_nsid rq)] else []) @
    [xrp_comm_write32 (cmd + cmd_flags)
       ((q_flags (rq_queue rq) AND NOT RESPONSE_VALID) OR REQUEST_VALID)]"

definition xrp_fill_hw_request :: "bsearch_fn \<Rightarrow> map_entry list \<Rightarrow> nat \<Rightarrow> hw_request \<Rightarrow> mmio \<Rightarrow> mmio" where
  "xrp_fill_hw_request bs mp cmd rq m = fold id (fill_steps bs mp cmd rq) m"

fun buffers_of_bytes :: "u8 list \<Rightarrow> dsp_buffer list" where
  "buffers_of_bytes (a0 # a1 # a2 # a3 # b0 # b1 # b2 # b3 # c0 # c1 # c2 # c3 # bs) =
     \<lparr>db_flags = le_word a0 a1 a2 a3, db_size = le_word b0 b1 b2 b3, db_addr = le_word c0 c1 c2 c3\<rparr> #
     buffers_of_bytes bs"
| "buffers_of_bytes _ = []"

definition xrp_complete_hw_request :: "nat \<Rightarrow> hw_request \<Rightarrow> mmio \<Rightarrow> hw_request \<times> mmio \<times> unit res" where
  "xrp_complete_hw_request cmd rq m =
     (let flags = xrp_comm_read32 (cmd + cmd_flags) m;
          out_sz = unat (q_out_data_size (rq_queue rq));
          rq1 = (if out_sz \<le> INLINE_DATA_SIZE
                 then rq\<lparr>rq_out_data := xrp_comm_read (cmd + cmd_out_data) out_sz m @ drop out_sz (rq_out_data rq)\<rparr>
                 else rq);
          rq2 = (if rq_n_buffers rq1 \<le> INLINE_BUFFER_COUNT
                 then rq1\<lparr>rq_dsp_buffer :=
                   buffers_of_bytes (xrp_comm_read (cmd + cmd_buffer_data) (rq_n_buffers rq1 * 12) m)\<rparr>
                 else rq1)
      in (rq2, xrp_comm_write32 (cmd + cmd_flags) 0 m,
          if flags AND RESPONSE_DELIVERY_FAIL \<noteq> 0 then Error ENXIO else Ok ()))"

definition xrp_cmd_complete :: "nat \<Rightarrow> mmio \<Rightarrow> bool" where
  "xrp_cmd_complete cmd m =
     (xrp_comm_read32 (cmd + cmd_flags) m AND (REQUEST_VALID OR RESPONSE_VALID) = (REQUEST_VALID OR RESPONSE_VALID))"

section \<open>Waiting for completion\<close>

text \<open>
  What one round of a wait sees: whether the command is complete, whether the firmware has
  panicked, and, for the interrupt-driven wait, the value the interruptible wait returned
  (positive: time left, 0: timed out, negative: interrupted). A polling list ends with the
  round after which the deadline has passed.
\<close>

fun complete_cmd_poll :: "bool \<times> bool \<Rightarrow> (bool \<times> bool) list \<Rightarrow> unit res" where
  "complete_cmd_poll (complete, panic) rest =
     (if complete then Ok ()
      else if panic then Error EBUSY
      else case rest of [] \<Rightarrow> Error EBUSY | r # rs \<Rightarrow> complete_cmd_poll r rs)"

fun complete_irq_loop :: "(int \<times> bool \<times> bool) list \<Rightarrow> unit res option" where
  "complete_irq_loop [] = None"
| "complete_irq_loop ((timeout, complete, panic) # rest) =
     (if complete then Some (Ok ())
      else if panic then Some (Error EBUSY)
      else if 0 < timeout then complete_irq_loop rest
      else if timeout = 0 then Some (Error EBUSY)
      else Some (Error (EOTHER (nat (- timeout)))))"

definition xvp_complete_cmd_irq :: "bool \<times> bool \<Rightarrow> (int \<times> bool \<times> bool) list \<Rightarrow> unit res option" where
  "xvp_complete_cmd_irq first rounds =
     (if fst first then Some (Ok ())
      else if snd first then Some (Error EBUSY)
      else complete_irq_loop rounds)"

section \<open>The interrupt handler\<close>

record irq_state =
  is_mem :: mmio
  is_comm :: "nat option"
  is_queue_comm :: "nat list"
  is_reporter :: bool
  is_report_scheduled :: nat
  is_completions :: "nat list"

definition xrp_report_complete :: "nat \<Rightarrow> irq_state \<Rightarrow> irq_state \<times> bool" where
  "xrp_report_complete cmd s =
     (if \<not> is_reporter s then (s, False)
      else
        let flags = xrp_comm_read32 (cmd + cmd_report_id) (is_mem s) in
        if flags AND REPORT_TO_HOST_FLAG \<noteq> 0
        then (s\<lparr>is_mem := xrp_comm_write32 (cmd + cmd_report_id) (flags AND NOT REPORT_TO_HOST_FLAG) (is_mem s),
                is_report_scheduled := is_report_scheduled s + 1\<rparr>, True)
        else (s, False))"

definition xrp_device_cmd_complete :: "nat \<Rightarrow> irq_state \<Rightarrow> irq_state \<times> bool" where
  "xrp_device_cmd_complete cmd s =
     (if xrp_comm_read32 (cmd + cmd_cmd_flag) (is_mem s) AND REPORT_TO_HOST_FLAG \<noteq> 0
      then (s\<lparr>is_mem := xrp_comm_write32 (cmd + cmd_cmd_flag) 0 (is_mem s)\<rparr>, True)
      else (s, False))"

definition complete_queue :: "nat \<Rightarrow> irq_state \<times> nat \<Rightarrow> irq_state \<times> nat" where
  "complete_queue i sn =
     (let (s, n) = sn in
      if xrp_cmd_complete (is_queue_comm s ! i) (is_mem s)
      then (s\<lparr>is_completions := (is_completions s)[i := is_completions s ! i + 1]\<rparr>, n + 1)
      else (s, n))"

datatype irqreturn = IRQ_NONE | IRQ_HANDLED

definition xrp_irq_handler :: "irq_state \<Rightarrow> irq_state \<times> irqreturn" where
  "xrp_irq_handler s =
     (case is_comm s of
        None \<Rightarrow> (s, IRQ_NONE)
      | Some cmd \<Rightarrow>
          let (s1, reported) = xrp_report_complete cmd s;
              (s2, flagged) = xrp_device_cmd_complete cmd s1 in
          if \<not> flagged then (s2, IRQ_HANDLED)
          else let (s3, n) = fold complete_queue [0..<length (is_queue_comm s2)] (s2, 0) in
            (s3, if n = 0 then IRQ_NONE else IRQ_HANDLED))"

section \<open>Properties of commands\<close>

lemma buffers_round_trip: "buffers_of_bytes (concat (map buffer_bytes bs)) = bs"
  by (induction bs) (simp_all add: buffer_bytes_def le_bytes_def le_word_bytes)

lemma length_buffer_bytes: "length (concat (map buffer_bytes bs)) = 12 * length bs"
  by (induction bs) (simp_all add: buffer_bytes_def le_bytes_def)

text \<open>
  Writes to separate parts of a slot do not disturb each other: a read of a part skips the
  writes to the others.
\<close>

lemma read_skip_write:
  "a + words_for sz \<le> b \<or> b + words_for (length bs) \<le> a \<Longrightarrow>
   xrp_comm_read a sz (xrp_comm_write b bs m) = xrp_comm_read a sz m"
  by (rule comm_read_cong) (auto simp: comm_write_other)

lemma read_skip_write32:
  "b < a \<or> a + words_for sz \<le> b \<Longrightarrow> xrp_comm_read a sz (xrp_comm_write32 b v m) = xrp_comm_read a sz m"
  by (rule comm_read_cong) (auto simp: xrp_comm_write32_def)

lemma write32_at: "xrp_comm_write32 a v m b = (if b = a then v else m b)"
  by (simp add: xrp_comm_write32_def)

definition rq_wf :: "hw_request \<Rightarrow> bool" where
  "rq_wf rq = (length (rq_in_data rq) = 16 \<and> length (rq_out_data rq) = 16 \<and> length (rq_nsid rq) = 16)"

lemma words_for_mono: "m \<le> n \<Longrightarrow> words_for m \<le> words_for n"
  by (simp add: words_for_def div_le_mono)

lemma words_for_16: "n \<le> 16 \<Longrightarrow> words_for n \<le> 4"
  using words_for_mono [of n 16] by (simp add: words_for_def)

lemma comm_read_write_sz: "length bs = sz \<Longrightarrow> xrp_comm_read a sz (xrp_comm_write a bs m) = bs"
  using comm_read_write [of a bs m] by simp

lemma fill_delivers:
  fixes m :: mmio and cmd :: nat and rq :: hw_request and bs :: bsearch_fn
  assumes wf: "rq_wf rq" and m'_def: "m' = xrp_fill_hw_request bs mp cmd rq m" and q_def: "q = rq_queue rq"
  shows "m' (cmd + cmd_flags) = (q_flags q AND NOT RESPONSE_VALID) OR REQUEST_VALID"
    and "m' (cmd + cmd_in_data_size) = q_in_data_size q"
    and "m' (cmd + cmd_out_data_size) = q_out_data_size q"
    and "m' (cmd + cmd_buffer_size) = of_nat (rq_n_buffers rq * 12)"
    and "unat (q_in_data_size q) \<le> 16 \<Longrightarrow>
      xrp_comm_read (cmd + cmd_in_data) (unat (q_in_data_size q)) m' = take (unat (q_in_data_size q)) (rq_in_data rq)"
    and "16 < unat (q_in_data_size q) \<Longrightarrow> m' (cmd + cmd_in_data) = xrp_translate_to_dsp bs mp (rq_in_data_phys rq)"
    and "16 < unat (q_out_data_size q) \<Longrightarrow> m' (cmd + cmd_out_data) = xrp_translate_to_dsp bs mp (rq_out_data_phys rq)"
    and "rq_n_buffers rq \<le> 1 \<Longrightarrow>
      buffers_of_bytes (xrp_comm_read (cmd + cmd_buffer_data) (rq_n_buffers rq * 12) m') = rq_dsp_buffer rq"
    and "1 < rq_n_buffers rq \<Longrightarrow> m' (cmd + cmd_buffer_data) = xrp_translate_to_dsp bs mp (rq_dsp_buffer_phys rq)"
    and "q_flags q AND REQUEST_NSID \<noteq> 0 \<Longrightarrow> xrp_comm_read (cmd + cmd_nsid) 16 m' = rq_nsid rq"
    and "cmd + 20 \<le> b \<Longrightarrow> m' b = m b"
proof -
  have len: "length (take (unat (q_in_data_size q)) (rq_in_data rq)) = unat (q_in_data_size q)"
    if "unat (q_in_data_size q) \<le> 16" using that wf by (simp add: rq_wf_def)
  have w: "unat (q_in_data_size q) \<le> 16 \<Longrightarrow> words_for (unat (q_in_data_size q)) \<le> 4" by (rule words_for_16)
  have wb: "rq_n_buffers rq \<le> 1 \<Longrightarrow> words_for (length (concat (map buffer_bytes (rq_dsp_buffer rq)))) \<le> 3"
    unfolding length_buffer_bytes using words_for_mono [of "12 * rq_n_buffers rq" 12] by (simp add: words_for_def)
  have wn: "words_for 16 = 4" by (simp add: words_for_def)
  have lb: "length (concat (map buffer_bytes (rq_dsp_buffer rq))) = rq_n_buffers rq * 12"
    by (simp add: length_buffer_bytes)
  note simps = m'_def xrp_fill_hw_request_def fill_steps_def cmd_offsets write32_at comm_write_other
    read_skip_write32 read_skip_write comm_read_write_sz q_def [symmetric] wn
    min_absorb2 wf [unfolded rq_wf_def]
  show "m' (cmd + cmd_flags) = (q_flags q AND NOT RESPONSE_VALID) OR REQUEST_VALID"
    "m' (cmd + cmd_in_data_size) = q_in_data_size q"
    "m' (cmd + cmd_out_data_size) = q_out_data_size q"
    "m' (cmd + cmd_buffer_size) = of_nat (rq_n_buffers rq * 12)"
    by (simp_all add: simps)
  show "xrp_comm_read (cmd + cmd_in_data) (unat (q_in_data_size q)) m' = take (unat (q_in_data_size q)) (rq_in_data rq)"
    if "unat (q_in_data_size q) \<le> 16" using that len w by (simp add: simps)
  show "m' (cmd + cmd_in_data) = xrp_translate_to_dsp bs mp (rq_in_data_phys rq)"
    if "16 < unat (q_in_data_size q)" using that by (simp add: simps)
  show "m' (cmd + cmd_out_data) = xrp_translate_to_dsp bs mp (rq_out_data_phys rq)"
    if "16 < unat (q_out_data_size q)" using that by (simp add: simps)
  show "buffers_of_bytes (xrp_comm_read (cmd + cmd_buffer_data) (rq_n_buffers rq * 12) m') = rq_dsp_buffer rq"
    if "rq_n_buffers rq \<le> 1" using that wb lb by (simp add: simps buffers_round_trip)
  show "m' (cmd + cmd_buffer_data) = xrp_translate_to_dsp bs mp (rq_dsp_buffer_phys rq)"
    if "1 < rq_n_buffers rq" using that by (simp add: simps)
  show "xrp_comm_read (cmd + cmd_nsid) 16 m' = rq_nsid rq" if "q_flags q AND REQUEST_NSID \<noteq> 0"
    using that wf by (simp add: simps rq_wf_def words_for_def)
  show "m' b = m b" if "cmd + 20 \<le> b"
    using that w wb by (cases "unat (q_in_data_size q) \<le> 16"; cases "rq_n_buffers rq \<le> 1") (simp_all add: simps)
qed

text \<open>
  C2: after the driver has filled a slot, the DSP finds there the sizes, the inline input
  or its translated address, the buffer descriptors or their translated address, the
  namespace when one is given, and the flags with the request valid and no response; the
  report channel behind the request is untouched.
\<close>

theorem xrp_fill_hw_request_delivers:
  assumes "rq_wf rq" and "m' = xrp_fill_hw_request bs mp cmd rq m" and "q = rq_queue rq"
  shows "m' (cmd + cmd_flags) = (q_flags q AND NOT RESPONSE_VALID) OR REQUEST_VALID \<and>
    m' (cmd + cmd_in_data_size) = q_in_data_size q \<and>
    m' (cmd + cmd_out_data_size) = q_out_data_size q \<and>
    m' (cmd + cmd_buffer_size) = of_nat (rq_n_buffers rq * 12) \<and>
    (if unat (q_in_data_size q) \<le> 16
     then xrp_comm_read (cmd + cmd_in_data) (unat (q_in_data_size q)) m' = take (unat (q_in_data_size q)) (rq_in_data rq)
     else m' (cmd + cmd_in_data) = xrp_translate_to_dsp bs mp (rq_in_data_phys rq)) \<and>
    (16 < unat (q_out_data_size q) \<longrightarrow> m' (cmd + cmd_out_data) = xrp_translate_to_dsp bs mp (rq_out_data_phys rq)) \<and>
    (if rq_n_buffers rq \<le> 1
     then buffers_of_bytes (xrp_comm_read (cmd + cmd_buffer_data) (rq_n_buffers rq * 12) m') = rq_dsp_buffer rq
     else m' (cmd + cmd_buffer_data) = xrp_translate_to_dsp bs mp (rq_dsp_buffer_phys rq)) \<and>
    (q_flags q AND REQUEST_NSID \<noteq> 0 \<longrightarrow> xrp_comm_read (cmd + cmd_nsid) 16 m' = rq_nsid rq) \<and>
    (\<forall>b. cmd + 20 \<le> b \<longrightarrow> m' b = m b)"
  using fill_delivers [OF assms] by (simp add: not_le)

definition demo_rq :: hw_request where
  "demo_rq = \<lparr>rq_queue = \<lparr>q_flags = 4, q_in_data_size = 5, q_out_data_size = 40, q_buffer_size = 16,
       q_in_data_addr = 0, q_out_data_addr = 0, q_buffer_addr = 0, q_nsid_addr = 0\<rparr>,
     rq_dsp_buffer = [\<lparr>db_flags = 3, db_size = 64, db_addr = 0x8000\<rparr>],
     rq_in_data = replicate 16 7, rq_out_data = replicate 16 0, rq_in_data_phys = 0,
     rq_out_data_phys = 0x1010, rq_dsp_buffer_phys = 0, rq_nsid = replicate 16 9\<rparr>"

lemma demo_rq_wf: "rq_wf demo_rq"
  by (simp add: rq_wf_def demo_rq_def)

theorem xrp_fill_hw_request_delivers_witness:
  "xrp_fill_hw_request linear_search [\<lparr>src_addr = 0x1000, dst_addr = 0x8000, me_size = 0x1000\<rparr>] 32 demo_rq (\<lambda>_. 0)
     (32 + cmd_out_data) = 0x8010"
  using xrp_fill_hw_request_delivers [OF demo_rq_wf refl refl, of linear_search
      "[\<lparr>src_addr = 0x1000, dst_addr = 0x8000, me_size = 0x1000\<rparr>]" 32 "\<lambda>_. 0"]
  by (simp add: demo_rq_def xrp_translate_to_dsp_def xrp_get_address_mapping_def linear_search_def
      xrp_compare_address_def)

text \<open>
  the request becomes valid last. At every moment before the last store the flags word
  still holds its old value, so a DSP that polls it never reads a half-written request.
\<close>

theorem fill_flags_last:
  assumes "rq_wf rq" and "k < length (fill_steps bs mp cmd rq)"
  shows "fold id (take k (fill_steps bs mp cmd rq)) m (cmd + cmd_flags) = m (cmd + cmd_flags)"
proof -
  let ?front = "butlast (fill_steps bs mp cmd rq)"
  have step: "\<forall>f \<in> set ?front. \<forall>m. f m (cmd + cmd_flags) = m (cmd + cmd_flags)"
    by (auto simp: fill_steps_def cmd_offsets write32_at comm_write_other split: if_splits)
  have keep: "fold id fs m (cmd + cmd_flags) = m (cmd + cmd_flags)" if "set fs \<subseteq> set ?front" for fs m
    using that step by (induction fs arbitrary: m) auto
  have "take k (fill_steps bs mp cmd rq) = take k ?front"
    using assms(2) by (simp add: take_butlast)
  then show ?thesis using keep [of "take k ?front"] set_take_subset by metis
qed

theorem fill_flags_last_witness:
  "fold id (take 6 (fill_steps linear_search [] 32 demo_rq)) (\<lambda>_. 2) (32 + cmd_flags) = 2"
  using fill_flags_last [OF demo_rq_wf, of 6 linear_search "[]" 32 "\<lambda>_. 2"]
  by (simp add: fill_steps_def demo_rq_def)

definition dsp_answer :: "nat \<Rightarrow> u32 \<Rightarrow> u8 list \<Rightarrow> dsp_buffer list \<Rightarrow> mmio \<Rightarrow> mmio" where
  "dsp_answer cmd flags out bufs m =
     xrp_comm_write32 (cmd + cmd_flags) flags
       (xrp_comm_write (cmd + cmd_buffer_data) (concat (map buffer_bytes bufs))
         (xrp_comm_write (cmd + cmd_out_data) out m))"

text \<open>
  C22: the answer comes back. When the DSP has written inline output, at most one inline buffer
  descriptor and its flags, completing the request returns exactly them and reports a
  delivery failure exactly when the DSP flagged one. It leaves the slot idle: the flags word
  is 0, so neither the request nor the response bit is set, and no other word has changed.
\<close>

theorem xrp_complete_hw_request_answer:
  assumes sz: "length out = unat (q_out_data_size (rq_queue rq))" "length out \<le> 16"
    and n: "length bufs = rq_n_buffers rq" "rq_n_buffers rq \<le> 1"
  shows "case xrp_complete_hw_request cmd rq (dsp_answer cmd flags out bufs m) of (rq', m', r) \<Rightarrow>
    take (length out) (rq_out_data rq') = out \<and> rq_dsp_buffer rq' = bufs \<and>
    (r = Error ENXIO \<longleftrightarrow> flags AND RESPONSE_DELIVERY_FAIL \<noteq> 0) \<and>
    (r = Ok () \<longleftrightarrow> flags AND RESPONSE_DELIVERY_FAIL = 0) \<and>
    xrp_comm_read32 (cmd + cmd_flags) m' = 0 \<and> \<not> xrp_cmd_complete cmd m' \<and>
    (\<forall>a. a \<noteq> cmd + cmd_flags \<longrightarrow> m' a = dsp_answer cmd flags out bufs m a)"
proof -
  have w: "words_for (length out) \<le> 4" using sz by (simp add: words_for_16)
  have lb: "length (concat (map buffer_bytes bufs)) = rq_n_buffers rq * 12"
    using n by (simp add: length_buffer_bytes)
  then have wb: "words_for (rq_n_buffers rq * 12) \<le> 3"
    using words_for_mono [of "rq_n_buffers rq * 12" 12] n by (simp add: words_for_def)
  have out: "xrp_comm_read (cmd + cmd_out_data) (length out) (dsp_answer cmd flags out bufs m) = out"
    using w wb lb by (simp add: dsp_answer_def cmd_offsets read_skip_write32 read_skip_write comm_read_write)
  have bufs: "buffers_of_bytes (xrp_comm_read (cmd + cmd_buffer_data) (rq_n_buffers rq * 12)
      (dsp_answer cmd flags out bufs m)) = bufs"
    using wb lb by (simp add: dsp_answer_def cmd_offsets read_skip_write32 comm_read_write_sz buffers_round_trip)
  have fl: "dsp_answer cmd flags out bufs m (cmd + cmd_flags) = flags"
    by (simp add: dsp_answer_def write32_at)
  show ?thesis
    using sz n bufs out fl
    by (simp add: xrp_complete_hw_request_def Let_def xrp_comm_read32_def xrp_cmd_complete_def write32_at)
qed

theorem xrp_complete_hw_request_answer_witness:
  "\<exists>rq' m'. xrp_complete_hw_request 32 (demo_rq\<lparr>rq_queue := (rq_queue demo_rq)\<lparr>q_out_data_size := 3\<rparr>\<rparr>)
     (dsp_answer 32 3 [1, 2, 3] [\<lparr>db_flags = 2, db_size = 64, db_addr = 0x8000\<rparr>] (\<lambda>_. 0)) = (rq', m', Ok ()) \<and>
     take 3 (rq_out_data rq') = [1, 2, 3]"
proof -
  have "length [1, 2, 3 :: u8] = unat (q_out_data_size (rq_queue (demo_rq\<lparr>rq_queue := (rq_queue demo_rq)\<lparr>q_out_data_size := 3\<rparr>\<rparr>)))"
    by simp
  from xrp_complete_hw_request_answer [OF this, where bufs = "[\<lparr>db_flags = 2, db_size = 64, db_addr = 0x8000\<rparr>]"
      and cmd = 32 and flags = 3 and m = "\<lambda>_. 0"]
  show ?thesis by (simp add: demo_rq_def numeral_3_eq_3 split: prod.splits)
qed

text \<open>
  the polling wait succeeds exactly when some round sees the command complete and no
  earlier round has seen a panic; in every other case the device is reported busy.
\<close>

theorem complete_cmd_poll_result:
  "complete_cmd_poll r rs =
    (if \<exists>i < length (r # rs). fst ((r # rs) ! i) \<and> (\<forall>j < i. \<not> snd ((r # rs) ! j)) then Ok () else Error EBUSY)"
proof (induction r rs rule: complete_cmd_poll.induct)
  case (1 complete panic rest)
  have shift: "(\<exists>i < length (a # xs). fst ((a # xs) ! i) \<and> (\<forall>j < i. \<not> snd ((a # xs) ! j))) \<longleftrightarrow>
      fst a \<or> \<not> snd a \<and> (\<exists>i < length xs. fst (xs ! i) \<and> (\<forall>j < i. \<not> snd (xs ! j)))"
    for a :: "bool \<times> bool" and xs
    by (simp add: Ex_less_Suc2 All_less_Suc2) blast
  show ?case
  proof (cases rest)
    case Nil
    then show ?thesis by (simp add: shift del: length_Cons)
  next
    case (Cons r' rs')
    have "complete_cmd_poll (complete, panic) rest =
        (if complete then Ok () else if panic then Error EBUSY else complete_cmd_poll r' rs')"
      using Cons by simp
    also have "\<dots> = (if complete \<or> \<not> panic \<and>
        (\<exists>i < length rest. fst (rest ! i) \<and> (\<forall>j < i. \<not> snd (rest ! j))) then Ok () else Error EBUSY)"
      using 1 [of r' rs'] Cons by auto
    finally show ?thesis by (simp only: shift fst_conv snd_conv)
  qed
qed

theorem complete_cmd_poll_result_witness:
  "complete_cmd_poll (False, False) [(True, True), (False, True)] = Ok () \<and>
   complete_cmd_poll (False, True) [(True, False)] = Error EBUSY"
  unfolding complete_cmd_poll_result by (simp add: Ex_less_Suc All_less_Suc)

definition slot_done :: "irq_state \<Rightarrow> nat \<Rightarrow> bool" where
  "slot_done s i = xrp_cmd_complete (is_queue_comm s ! i) (is_mem s)"

lemma complete_queue_fold:
  assumes "length (is_completions s) = length (is_queue_comm s)" "n \<le> length (is_queue_comm s)"
  shows "fold complete_queue [0..<n] (s, 0) =
    (s\<lparr>is_completions := map (\<lambda>i. is_completions s ! i + of_bool (i < n \<and> slot_done s i)) [0..<length (is_queue_comm s)]\<rparr>,
     card {i. i < n \<and> slot_done s i})"
  using assms(2)
proof (induction n)
  case 0
  have "map (\<lambda>i. is_completions s ! i) [0..<length (is_queue_comm s)] = is_completions s"
    using assms(1) map_nth by metis
  then show ?case by simp
next
  case (Suc n)
  have c: "{i. i < Suc n \<and> slot_done s i} = (if slot_done s n then insert n else id) {i. i < n \<and> slot_done s i}"
    by (auto simp: less_Suc_eq)
  have e: "map (\<lambda>i. is_completions s ! i + of_bool (i < Suc n \<and> slot_done s i)) [0..<length (is_queue_comm s)] =
      (if slot_done s n then (\<lambda>xs. xs[n := xs ! n + 1]) else id)
        (map (\<lambda>i. is_completions s ! i + of_bool (i < n \<and> slot_done s i)) [0..<length (is_queue_comm s)])"
    by (intro nth_equalityI) (use Suc.prems in \<open>auto simp: nth_list_update less_Suc_eq\<close>)
  show ?case using Suc e c by (simp add: complete_queue_def slot_done_def)
qed

text \<open>
  C21: the interrupt handler. When the DSP flagged a command message, exactly the queues
  whose slots hold both valid flags are completed, once each, and the flag is consumed; a
  report is consumed and scheduled when a reporter is registered; no other word of the
  shared area changes.
\<close>

theorem xrp_irq_handler_completes:
  assumes len: "length (is_completions s) = length (is_queue_comm s)" and cmd: "is_comm s = Some cmd"
    and flag: "is_mem s (cmd + cmd_cmd_flag) AND REPORT_TO_HOST_FLAG \<noteq> 0"
    and slots: "\<forall>i < length (is_queue_comm s). is_queue_comm s ! i \<noteq> cmd + cmd_cmd_flag \<and> is_queue_comm s ! i \<noteq> cmd + cmd_report_id"
  shows "case xrp_irq_handler s of (s', r) \<Rightarrow>
    is_completions s' = map (\<lambda>i. is_completions s ! i + of_bool (slot_done s i)) [0..<length (is_queue_comm s)] \<and>
    (r = IRQ_HANDLED \<longleftrightarrow> (\<exists>i < length (is_queue_comm s). slot_done s i)) \<and>
    is_mem s' (cmd + cmd_cmd_flag) = 0 \<and>
    is_report_scheduled s' = is_report_scheduled s +
      of_bool (is_reporter s \<and> is_mem s (cmd + cmd_report_id) AND REPORT_TO_HOST_FLAG \<noteq> 0) \<and>
    (is_reporter s \<longrightarrow> is_mem s' (cmd + cmd_report_id) = is_mem s (cmd + cmd_report_id) AND NOT REPORT_TO_HOST_FLAG) \<and>
    (\<forall>b. b \<noteq> cmd + cmd_cmd_flag \<longrightarrow> b \<noteq> cmd + cmd_report_id \<longrightarrow> is_mem s' b = is_mem s b)"
proof -
  obtain s1 rep where s1: "xrp_report_complete cmd s = (s1, rep)" by fastforce
  have same1: "is_queue_comm s1 = is_queue_comm s" "is_completions s1 = is_completions s"
    "is_mem s1 (cmd + cmd_cmd_flag) = is_mem s (cmd + cmd_cmd_flag)"
    "\<And>b. b \<noteq> cmd + cmd_report_id \<Longrightarrow> is_mem s1 b = is_mem s b"
    "is_report_scheduled s1 = is_report_scheduled s +
      of_bool (is_reporter s \<and> is_mem s (cmd + cmd_report_id) AND REPORT_TO_HOST_FLAG \<noteq> 0)"
    using s1 by (auto simp: xrp_report_complete_def Let_def write32_at xrp_comm_read32_def cmd_offsets split: if_splits)
  have id0: "x AND NOT REPORT_TO_HOST_FLAG = x" if "x AND REPORT_TO_HOST_FLAG = 0" for x :: u32
  proof -
    have "x = (x AND REPORT_TO_HOST_FLAG) OR (x AND NOT REPORT_TO_HOST_FLAG)"
      by (metis bit.conj_disj_distrib and.right_neutral bit.disj_cancel_right)
    then show ?thesis using that by simp
  qed
  have rep: "is_reporter s \<Longrightarrow> is_mem s1 (cmd + cmd_report_id) = is_mem s (cmd + cmd_report_id) AND NOT REPORT_TO_HOST_FLAG"
    using s1 id0 by (auto simp: xrp_report_complete_def Let_def write32_at xrp_comm_read32_def split: if_splits)
  let ?s2 = "s1\<lparr>is_mem := xrp_comm_write32 (cmd + cmd_cmd_flag) 0 (is_mem s1)\<rparr>"
  have s2: "xrp_device_cmd_complete cmd s1 = (?s2, True)"
    using flag same1 by (simp add: xrp_device_cmd_complete_def xrp_comm_read32_def)
  have dn: "slot_done ?s2 i = slot_done s i" if "i < length (is_queue_comm s)" for i
    using slots that same1 by (simp add: slot_done_def xrp_cmd_complete_def xrp_comm_read32_def write32_at cmd_flags_def)
  have fold: "fold complete_queue [0..<length (is_queue_comm ?s2)] (?s2, 0) =
    (?s2\<lparr>is_completions := map (\<lambda>i. is_completions s ! i + of_bool (slot_done s i)) [0..<length (is_queue_comm s)]\<rparr>,
     card {i. i < length (is_queue_comm s) \<and> slot_done s i})"
    using complete_queue_fold [of ?s2 "length (is_queue_comm s)"] len same1 dn
    by (simp cong: conj_cong map_cong)
  have card: "card {i. i < length (is_queue_comm s) \<and> slot_done s i} = 0 \<longleftrightarrow> \<not> (\<exists>i < length (is_queue_comm s). slot_done s i)"
    by (subst card_0_eq) auto
  have r: "xrp_irq_handler s = (?s2\<lparr>is_completions := map (\<lambda>i. is_completions s ! i + of_bool (slot_done s i)) [0..<length (is_queue_comm s)]\<rparr>,
      if card {i. i < length (is_queue_comm s) \<and> slot_done s i} = 0 then IRQ_NONE else IRQ_HANDLED)"
    using cmd s1 s2 fold by (simp add: xrp_irq_handler_def)
  show ?thesis unfolding r
    using same1 rep card by (auto simp: write32_at cmd_offsets)
qed

definition demo_irq :: irq_state where
  "demo_irq = \<lparr>is_mem = (\<lambda>a. if a = 28 then 0x10000000 else if a = 32 then 3 else if a = 0 then 1 else 0),
     is_comm = Some 0, is_queue_comm = [0, 32], is_reporter = False, is_report_scheduled = 0,
     is_completions = [0, 0]\<rparr>"

lemma demo_irq_facts:
  "length (is_completions demo_irq) = length (is_queue_comm demo_irq)" "is_comm demo_irq = Some 0"
  "is_mem demo_irq (0 + cmd_cmd_flag) AND REPORT_TO_HOST_FLAG \<noteq> 0"
  "\<forall>i < length (is_queue_comm demo_irq). is_queue_comm demo_irq ! i \<noteq> 0 + cmd_cmd_flag \<and>
     is_queue_comm demo_irq ! i \<noteq> 0 + cmd_report_id"
  "slot_done demo_irq 1" "\<not> slot_done demo_irq 0"
  by (simp_all add: demo_irq_def cmd_offsets slot_done_def xrp_cmd_complete_def xrp_comm_read32_def less_Suc_eq)

theorem xrp_irq_handler_completes_witness:
  "\<exists>s'. xrp_irq_handler demo_irq = (s', IRQ_HANDLED) \<and> is_completions s' = [0, 1]"
proof -
  obtain s' r where e: "xrp_irq_handler demo_irq = (s', r)" by fastforce
  have n: "length (is_queue_comm demo_irq) = 2" "is_completions demo_irq = [0, 0]" by (simp_all add: demo_irq_def)
  note t = xrp_irq_handler_completes [OF demo_irq_facts(1-4), unfolded e prod.case]
  have "r = IRQ_HANDLED" using t demo_irq_facts(5) n by auto
  moreover have "is_completions s' = [0, 1]"
    using t demo_irq_facts(5,6) by (simp add: n upt_rec)
  ultimately show ?thesis using e by simp
qed

end
