(* ===== verification/Share.thy ===== *)
theory Share
  imports Hw_Request Alloc
begin

unbundle bit_operations_syntax

text \<open>
  Sharing user and kernel memory with the DSP: \<open>xvp_main.c\<close> from \<open>xrp_put_pages\<close> to
  \<open>xrp_map_request\<close>. A block is shared natively (memory the driver allocated), by pinning
  its pages, by its page-frame numbers, or through a shadow copy in the pool; what was taken
  (references of allocations, page references, pool memory) is given back when it is
  unshared. The memory management of the kernel is an argument (\<open>share_env\<close>).
\<close>

section \<open>Data\<close>

datatype alien_type = ALIEN_GUP | ALIEN_PFN_MAP | ALIEN_COPY

record alien_mapping =
  am_vaddr :: u64
  am_size :: u64
  am_paddr :: phys_addr
  am_allocation :: nat
  am_type :: alien_type

text \<open>
  \<open>struct xrp_mapping\<close>: \<open>Uninit\<close> is a mapping whose memory was never written (its \<open>type\<close> is
  garbage); looking at it is a \<open>Fault\<close>. A pointer to an allocation is its identifier.
\<close>

datatype mapping =
    Uninit
  | Mapping_None
  | Native nat u64
  | Alien alien_mapping
  | Kernel
  | Alien_Kernel alien_mapping

record vma =
  vm_start :: u64
  vm_end :: u64
  vm_pgoff :: u64
  vm_file :: nat
  vm_pfnmap :: bool
  vm_cache_ops :: bool
  vm_allocation :: nat

record share_env =
  en_find_vma :: "u64 \<Rightarrow> vma option"
  en_filp :: nat
  en_known_file :: "nat \<Rightarrow> bool"
  en_follow_pfn :: "vma \<Rightarrow> u64 \<Rightarrow> u64 res"
  en_get_user_pages :: "u64 \<Rightarrow> nat \<Rightarrow> int \<times> u64 list"
  en_kmalloc :: bool
  en_cacheable :: "u64 \<Rightarrow> u64 \<Rightarrow> bool"
  en_pa :: "u64 \<Rightarrow> phys_addr"
  en_bsearch :: bsearch_fn
  en_map :: "map_entry list"
  en_ioremap :: "phys_addr \<Rightarrow> u64 \<Rightarrow> bool"
  en_copy_to_user :: "u64 \<Rightarrow> u64 \<Rightarrow> bool"
  en_copy_from_user :: "u64 \<Rightarrow> u64 \<Rightarrow> bool"
  en_direct_read :: "u64 \<Rightarrow> u64 \<Rightarrow> bool"
  en_kz1 :: "nat \<Rightarrow> bool"
  en_kz2 :: "nat \<Rightarrow> bool"
  en_gfp :: gfp_env
  en_old_kernel :: bool

text \<open>
  The small allocations of the pool's allocator succeed or fail independently for each
  object (\<open>en_kz1\<close> and \<open>en_kz2\<close> at the number of objects made before); \<open>en_direct_read\<close> says
  whether the kernel can read a region through the address itself.

  The state: the pool, the allocation objects by identifier (\<open>ss_next\<close> is the next fresh
  one), the reference count and the dirty mark of each page, and whether the task's address
  limit is the kernel's (\<open>set_fs\<close>).
\<close>

record share_state =
  ss_pool :: private_pool
  ss_allocs :: "nat \<rightharpoonup> allocation"
  ss_next :: nat
  ss_pages :: "u64 \<Rightarrow> int"
  ss_dirty :: "u64 set"
  ss_kernel_ds :: bool

abbreviation (input) XRP_FLAG_READ :: u64 where "XRP_FLAG_READ \<equiv> 1"
abbreviation (input) XRP_FLAG_WRITE :: u64 where "XRP_FLAG_WRITE \<equiv> 2"
abbreviation (input) XRP_FLAG_READ_WRITE :: u64 where "XRP_FLAG_READ_WRITE \<equiv> 3"

definition PFN_DOWN :: "u64 \<Rightarrow> u64" where
  "PFN_DOWN x = drop_bit PAGE_SHIFT x"

definition PFN_UP :: "u64 \<Rightarrow> u64" where
  "PFN_UP x = drop_bit PAGE_SHIFT (x + (PAGE_SIZE - 1))"

definition pfn_to_phys :: "u64 \<Rightarrow> phys_addr" where
  "pfn_to_phys pfn = push_bit PAGE_SHIFT pfn"

definition page_count :: "u64 \<Rightarrow> u64 \<Rightarrow> u64" where
  "page_count vaddr sz = PFN_UP (vaddr + sz) - PFN_DOWN vaddr"

section \<open>Objects and pages\<close>

definition allocate_obj :: "share_env \<Rightarrow> u32 \<Rightarrow> u32 \<Rightarrow> share_state \<Rightarrow> share_state \<times> nat res" where
  "allocate_obj en sz al s =
     (case xrp_private_alloc (en_kz1 en (ss_next s)) (en_kz2 en (ss_next s)) (en_gfp en) (ss_pool s) sz al of
        (p, Inl e) \<Rightarrow> (s\<lparr>ss_pool := p\<rparr>, Inl e)
      | (p, Inr a) \<Rightarrow>
          (s\<lparr>ss_pool := p, ss_allocs := (ss_allocs s)(ss_next s \<mapsto> a), ss_next := ss_next s + 1\<rparr>, Ok (ss_next s)))"

definition get_obj :: "nat \<Rightarrow> share_state \<Rightarrow> share_state \<times> unit res" where
  "get_obj i s =
     (case ss_allocs s i of
        None \<Rightarrow> (s, Oops)
      | Some a \<Rightarrow> (s\<lparr>ss_allocs := (ss_allocs s)(i \<mapsto> xrp_allocation_get a)\<rparr>, Ok ()))"

definition put_obj :: "nat \<Rightarrow> share_state \<Rightarrow> share_state \<times> unit res" where
  "put_obj i s =
     (case ss_allocs s i of
        None \<Rightarrow> (s, Oops)
      | Some a \<Rightarrow>
          let (a', last) = xrp_allocation_put a in
          if last then (s\<lparr>ss_pool := xrp_free (ss_pool s) a', ss_allocs := (ss_allocs s)(i := None)\<rparr>, Ok ())
          else (s\<lparr>ss_allocs := (ss_allocs s)(i \<mapsto> a')\<rparr>, Ok ()))"

definition add_pages :: "int \<Rightarrow> u64 list \<Rightarrow> share_state \<Rightarrow> share_state" where
  "add_pages d ps s = s\<lparr>ss_pages := (\<lambda>p. ss_pages s p + d * int (count_list ps p))\<rparr>"

definition phys_pages :: "phys_addr \<Rightarrow> u64 \<Rightarrow> u64 list" where
  "phys_pages phys n = map (\<lambda>i. PFN_DOWN phys + of_nat i) [0..<unat n]"

definition xrp_put_pages :: "phys_addr \<Rightarrow> u64 \<Rightarrow> share_state \<Rightarrow> share_state" where
  "xrp_put_pages phys n s = add_pages (-1) (phys_pages phys n) s"

definition xrp_alien_mapping_destroy :: "alien_mapping \<Rightarrow> share_state \<Rightarrow> share_state \<times> unit res" where
  "xrp_alien_mapping_destroy am s =
     (case am_type am of
        ALIEN_GUP \<Rightarrow> (xrp_put_pages (am_paddr am) (page_count (am_vaddr am) (am_size am)) s, Ok ())
      | ALIEN_COPY \<Rightarrow> put_obj (am_allocation am) s
      | ALIEN_PFN_MAP \<Rightarrow> (s, Ok ()))"

section \<open>From virtual to physical addresses\<close>

text \<open>
  \<open>xvp_pfn_virt_to_phys\<close>: the page frames of the region must be consecutive and lie in one
  region of the address map. The counter of the loop runs over the pages behind the first.
\<close>

primrec pfn_loop :: "share_env \<Rightarrow> vma \<Rightarrow> u64 \<Rightarrow> map_entry \<Rightarrow> nat \<Rightarrow> u64 \<Rightarrow> u64 \<Rightarrow> unit res" where
  "pfn_loop en v vaddr e 0 i pfn = Ok ()"
| "pfn_loop en v vaddr e (Suc k) i pfn =
    (case en_follow_pfn en v (vaddr + push_bit PAGE_SHIFT i) of
       Inl er \<Rightarrow> Inl er
     | Inr next_pfn \<Rightarrow>
         if next_pfn \<noteq> pfn + 1 then Error EINVAL
         else if xrp_compare_address (pfn_to_phys next_pfn) e \<noteq> 0 then Error EINVAL
         else pfn_loop en v vaddr e k (i + 1) next_pfn)"

definition xvp_pfn_virt_to_phys :: "share_env \<Rightarrow> vma \<Rightarrow> u64 \<Rightarrow> u64 \<Rightarrow> alien_mapping res" where
  "xvp_pfn_virt_to_phys en v vaddr sz =
     (case en_follow_pfn en v vaddr of
        Inl er \<Rightarrow> Inl er
      | Inr pfn \<Rightarrow>
          let paddr = pfn_to_phys pfn + (vaddr AND (PAGE_SIZE - 1)) in
          (case xrp_get_address_mapping (en_bsearch en) (en_map en) paddr of
             None \<Rightarrow> Error EINVAL
           | Some e \<Rightarrow>
               (case pfn_loop en v vaddr e (unat (page_count vaddr sz) - 1) 1 pfn of
                  Inl er \<Rightarrow> Inl er
                | Inr _ \<Rightarrow> Ok \<lparr>am_vaddr = vaddr, am_size = sz, am_paddr = paddr, am_allocation = 0,
                               am_type = ALIEN_PFN_MAP\<rparr>)))"

text \<open>
  \<open>xvp_gup_virt_to_phys\<close>: pins the pages, then checks them; on a failed check every pinned
  page is released. \<open>get_user_pages_fast\<close> returns how many pages it pinned and which. With
  no page to pin, reading the first one is a \<open>Fault\<close>.
\<close>

fun contiguous_in :: "map_entry \<Rightarrow> u64 list \<Rightarrow> bool" where
  "contiguous_in e (p # q # ps) =
    (q = p + 1 \<and> xrp_compare_address (pfn_to_phys q) e = 0 \<and> contiguous_in e (q # ps))"
| "contiguous_in e _ = True"

definition INT_MAX :: nat where
  "INT_MAX = 2147483647"

definition xvp_gup_virt_to_phys :: "share_env \<Rightarrow> u64 \<Rightarrow> u64 \<Rightarrow> share_state \<Rightarrow> share_state \<times> alien_mapping res" where
  "xvp_gup_virt_to_phys en vaddr sz s =
     (let nr_pages = unat (page_count vaddr sz) in
      if INT_MAX < nr_pages then (s, Error EINVAL)
      else if \<not> en_kmalloc en then (s, Error ENOMEM)
      else
        let (ret, pages) = en_get_user_pages en vaddr nr_pages in
        if ret < 0 then (s, Error (EOTHER (nat (- ret))))
        else
          let got = take (nat ret) pages; s1 = add_pages 1 got s in
          if ret < int nr_pages then (add_pages (-1) got s1, Error EINVAL)
          else case got of
              [] \<Rightarrow> (s1, Oops)
            | p # ps \<Rightarrow>
                (case xrp_get_address_mapping (en_bsearch en) (en_map en) (pfn_to_phys p) of
                   None \<Rightarrow> (add_pages (-1) got s1, Error EINVAL)
                 | Some e \<Rightarrow>
                     if \<not> contiguous_in e got then (add_pages (-1) got s1, Error EINVAL)
                     else (s1, Ok \<lparr>am_vaddr = vaddr, am_size = sz,
                                   am_paddr = pfn_to_phys p + (vaddr AND (PAGE_SIZE - 1)),
                                   am_allocation = 0, am_type = ALIEN_GUP\<rparr>)))"

text \<open>
  \<open>_xrp_copy_user_phys\<close> in its two directions. When \<open>copy_from_user\<close> fails, copying to the
  device falls back to \<open>xrp_comm_write\<close>, which reads the address as a kernel pointer: this
  succeeds where the kernel can read the region and is a \<open>Fault\<close> where it cannot.
\<close>

definition xrp_copy_user_to_phys :: "share_env \<Rightarrow> u64 \<Rightarrow> u64 \<Rightarrow> phys_addr \<Rightarrow> unit res" where
  "xrp_copy_user_to_phys en vaddr sz paddr =
     (if \<not> en_ioremap en paddr sz then Error EINVAL
      else if en_copy_from_user en vaddr sz then Ok ()
      else if en_direct_read en vaddr sz then Ok () else Oops)"

definition xrp_copy_user_from_phys :: "share_env \<Rightarrow> u64 \<Rightarrow> u64 \<Rightarrow> phys_addr \<Rightarrow> unit res" where
  "xrp_copy_user_from_phys en vaddr sz paddr =
     (if \<not> en_ioremap en paddr sz then Error EINVAL
      else if en_copy_to_user en vaddr sz then Ok () else Error EFAULT)"

definition shadow_align :: "u64 \<Rightarrow> u64" where
  "shadow_align vaddr = (let a = vaddr AND (- vaddr) in if a < 16 then 16 else if PAGE_SIZE < a then PAGE_SIZE else a)"

definition shadow_phys :: "u64 \<Rightarrow> phys_addr \<Rightarrow> phys_addr" where
  "shadow_phys vaddr st =
     (let align = shadow_align vaddr; phys = (st AND (- align)) OR (vaddr AND (align - 1)) in
      if phys < st then phys + align else phys)"

definition xvp_copy_virt_to_phys ::
  "share_env \<Rightarrow> u64 \<Rightarrow> u64 \<Rightarrow> u64 \<Rightarrow> share_state \<Rightarrow> share_state \<times> alien_mapping res" where
  "xvp_copy_virt_to_phys en flags vaddr sz s =
     (let align = shadow_align vaddr in
      case allocate_obj en (ucast (sz + align)) (ucast align) s of
        (s1, Inl e) \<Rightarrow> (s1, Inl e)
      | (s1, Inr i) \<Rightarrow>
          (case ss_allocs s1 i of
             None \<Rightarrow> (s1, Oops)
           | Some a \<Rightarrow>
               let phys = shadow_phys vaddr (al_start a) in
               (case (if flags AND XRP_FLAG_READ \<noteq> 0 then xrp_copy_user_to_phys en vaddr sz phys else Ok ()) of
                  Inl Fault \<Rightarrow> (s1, Oops)
                | Inl (Errno _) \<Rightarrow>
                    (case put_obj i s1 of
                       (s2, Inl e) \<Rightarrow> (s2, Inl e)
                     | (s2, Inr _) \<Rightarrow> (s2, Error EFAULT))
                | Inr _ \<Rightarrow> (s1, Ok \<lparr>am_vaddr = vaddr, am_size = sz, am_paddr = phys, am_allocation = i,
                                    am_type = ALIEN_COPY\<rparr>))))"

section \<open>Sharing a block\<close>

text \<open>
  \<open>xvp_get_region_vma_count\<close>: how many adjacent areas cover the region, 0 for none. The
  kernel's \<open>find_vma\<close> returns an area that ends above the address it was given; the
  comparison of the two ends says so, which is what makes the walk end.
\<close>

function vma_walk :: "share_env \<Rightarrow> u64 \<Rightarrow> vma \<Rightarrow> nat \<Rightarrow> nat" where
  "vma_walk en region_end v i =
    (case en_find_vma en (vm_end v) of
       None \<Rightarrow> 0
     | Some nxt \<Rightarrow>
         if vm_start nxt \<noteq> vm_end v \<or> \<not> vm_end v < vm_end nxt then 0
         else if region_end \<le> vm_end nxt then i
         else vma_walk en region_end nxt (i + 1))"
  by pat_completeness auto
termination
proof (relation "measure (\<lambda>(en, region_end, v, i). 2 ^ 64 - unat (vm_end v))", simp)
  fix en :: share_env and region_end :: u64 and v nxt :: vma and i :: nat
  assume "\<not> (vm_start nxt \<noteq> vm_end v \<or> \<not> vm_end v < vm_end nxt)"
  then show "((en, region_end, nxt, i + 1), en, region_end, v, i) \<in>
      measure (\<lambda>(en, region_end, v, i). 2 ^ 64 - unat (vm_end v))"
    using unat_lt_u64 [of "vm_end nxt"] by (auto simp: word_less_nat_alt intro!: diff_less_mono2)
qed

declare vma_walk.simps [simp del]

definition xvp_get_region_vma_count :: "share_env \<Rightarrow> u64 \<Rightarrow> u64 \<Rightarrow> vma \<Rightarrow> nat" where
  "xvp_get_region_vma_count en virt sz v =
     (if virt + sz < virt then 0
      else if virt < vm_start v then 0
      else if virt + sz \<le> vm_end v then 1
      else vma_walk en (virt + sz) v 2)"

text \<open>
  \<open>xrp_share_kernel\<close>. The mapping is marked as a kernel shadow copy even when the copy
  failed, and then its other fields were never written.
\<close>

definition xrp_share_kernel ::
  "share_env \<Rightarrow> u64 \<Rightarrow> u64 \<Rightarrow> u64 \<Rightarrow> share_state \<Rightarrow> share_state \<times> mapping \<times> phys_addr res" where
  "xrp_share_kernel en virt sz flags s =
     (let phys = en_pa en virt in
      if xrp_translate_to_dsp (en_bsearch en) (en_map en) phys = XRP_NO_TRANSLATION
      then (case xvp_copy_virt_to_phys en flags virt sz s of
              (s1, Inl e) \<Rightarrow> (s1, Uninit, Inl e)
            | (s1, Inr am) \<Rightarrow> (s1, Alien_Kernel am, Ok (am_paddr am)))
      else (s, Kernel, Ok phys))"

text \<open>
  The part of \<open>__xrp_share_block\<close> for memory of an XRP file: the physical address when the
  region can be shared natively. An area of another known file is checked against the
  address map of this device.
\<close>

definition native_phys :: "share_env \<Rightarrow> vma option \<Rightarrow> u64 \<Rightarrow> u64 \<Rightarrow> (nat \<times> phys_addr) option" where
  "native_phys en v virt sz =
     (case v of
        None \<Rightarrow> None
      | Some v \<Rightarrow>
          if vm_file v = en_filp en \<or> en_known_file en (vm_file v) then
            let phys = push_bit PAGE_SHIFT (vm_pgoff v) + virt - vm_start v in
            if vm_file v \<noteq> en_filp en then
              (case xrp_get_address_mapping (en_bsearch en) (en_map en) phys of
                 None \<Rightarrow> None
               | Some e \<Rightarrow> if xrp_compare_address (phys + sz - 1) e \<noteq> 0 then None
                           else Some (vm_allocation v, phys))
            else Some (vm_allocation v, phys)
          else None)"

text \<open>
  The part for all other memory: by page frames for I/O areas, else by pinning; when that
  fails, or the cache cannot be managed, by a shadow copy.
\<close>

definition share_direct ::
  "share_env \<Rightarrow> vma option \<Rightarrow> u64 \<Rightarrow> u64 \<Rightarrow> share_state \<Rightarrow> share_state \<times> alien_mapping res" where
  "share_direct en v virt sz s =
     (case v of
        Some w \<Rightarrow>
          if vm_pfnmap w then
            (case xvp_pfn_virt_to_phys en w virt sz of
               Inl e \<Rightarrow> (s, Inl e)
             | Inr am \<Rightarrow>
                 if vm_cache_ops w \<and> \<not> en_cacheable en (PFN_DOWN (am_paddr am)) (page_count virt sz)
                 then (s, Error EINVAL) else (s, Ok am))
          else
            (case xvp_gup_virt_to_phys en virt sz s of
               (s1, Inl e) \<Rightarrow> (s1, Inl e)
             | (s1, Inr am) \<Rightarrow>
                 if vm_cache_ops w \<and> \<not> en_cacheable en (PFN_DOWN (am_paddr am)) (page_count virt sz)
                 then (xrp_put_pages (am_paddr am) (page_count virt sz) s1, Error EINVAL) else (s1, Ok am))
      | None \<Rightarrow>
          (case xvp_gup_virt_to_phys en virt sz s of
             (s1, Inl e) \<Rightarrow> (s1, Inl e)
           | (s1, Inr am) \<Rightarrow>
               if \<not> en_cacheable en (PFN_DOWN (am_paddr am)) (page_count virt sz)
               then (xrp_put_pages (am_paddr am) (page_count virt sz) s1, Error EINVAL) else (s1, Ok am)))"

text \<open>
  \<open>__xrp_share_block\<close>: the mapping passed in is what the mapping structure holds before (it
  is kept when sharing fails); the result carries the physical address and whether the
  caches are synchronised.
\<close>

definition xrp_share_block ::
  "share_env \<Rightarrow> u64 \<Rightarrow> u64 \<Rightarrow> u64 \<Rightarrow> mapping \<Rightarrow> share_state \<Rightarrow> share_state \<times> mapping \<times> (phys_addr \<times> bool) res" where
  "xrp_share_block en virt sz flags old s =
     (case en_find_vma en virt of
        None \<Rightarrow> (s, old, Error EINVAL)
      | Some v0 \<Rightarrow>
          let count = xvp_get_region_vma_count en virt sz v0 in
          if count = 0 then (s, old, Error EINVAL)
          else
            let v = (if count = 1 then Some v0 else None) in
            case native_phys en v virt sz of
              Some (i, phys) \<Rightarrow>
                (case get_obj i s of
                   (s1, Inl e) \<Rightarrow> (s1, old, Inl e)
                 | (s1, Inr _) \<Rightarrow> (s1, Native i virt, Ok (phys, vm_cache_ops v0)))
            | None \<Rightarrow>
                (case share_direct en v virt sz s of
                   (s1, Inr am) \<Rightarrow>
                     (s1, Alien am, Ok (am_paddr am + virt - am_vaddr am,
                                        case v of None \<Rightarrow> True | Some w \<Rightarrow> vm_cache_ops w))
                 | (s1, Inl Fault) \<Rightarrow> (s1, old, Oops)
                 | (s1, Inl (Errno _)) \<Rightarrow>
                     (case xvp_copy_virt_to_phys en flags virt sz s1 of
                        (s2, Inr am) \<Rightarrow> (s2, Alien am, Ok (am_paddr am + virt - am_vaddr am, False))
                      | (s2, Inl Fault) \<Rightarrow> (s2, old, Oops)
                      | (s2, Inl (Errno _)) \<Rightarrow> (s2, old, Error EINVAL))))"

section \<open>Unsharing\<close>

definition xrp_writeback_alien_mapping ::
  "share_env \<Rightarrow> alien_mapping \<Rightarrow> share_state \<Rightarrow> share_state \<times> unit res" where
  "xrp_writeback_alien_mapping en am s =
     (case am_type am of
        ALIEN_GUP \<Rightarrow>
          (s\<lparr>ss_dirty := ss_dirty s \<union> set (phys_pages (am_paddr am) (page_count (am_vaddr am) (am_size am)))\<rparr>, Ok ())
      | ALIEN_COPY \<Rightarrow>
          (s, case xrp_copy_user_from_phys en (am_vaddr am) (am_size am) (am_paddr am) of
                Inl _ \<Rightarrow> Error EINVAL | Inr _ \<Rightarrow> Ok ())
      | ALIEN_PFN_MAP \<Rightarrow> (s, Ok ()))"

definition unshare_alien ::
  "share_env \<Rightarrow> alien_mapping \<Rightarrow> u64 \<Rightarrow> share_state \<Rightarrow> share_state \<times> unit res" where
  "unshare_alien en am flags s =
     (let (s1, ret) = (if flags AND XRP_FLAG_WRITE \<noteq> 0 then xrp_writeback_alien_mapping en am s else (s, Ok ())) in
      case xrp_alien_mapping_destroy am s1 of
        (s2, Inl e) \<Rightarrow> (s2, Inl e)
      | (s2, Inr _) \<Rightarrow> (s2, ret))"

text \<open>
  \<open>__xrp_unshare_block\<close>. On kernels before 5.10 the two statements after the test of the
  kernel mark are not one block: the address limit is raised for every mapping, and put
  back only for mappings with the mark.
\<close>

definition raise_limit :: "share_env \<Rightarrow> share_state \<Rightarrow> share_state" where
  "raise_limit en s = (if en_old_kernel en then s\<lparr>ss_kernel_ds := True\<rparr> else s)"

definition restore_limit :: "share_env \<Rightarrow> mapping \<Rightarrow> bool \<Rightarrow> share_state \<Rightarrow> share_state" where
  "restore_limit en mp old s =
     (if en_old_kernel en \<and> (case mp of Kernel \<Rightarrow> True | Alien_Kernel _ \<Rightarrow> True | _ \<Rightarrow> False)
      then s\<lparr>ss_kernel_ds := old\<rparr> else s)"

definition xrp_unshare_block ::
  "share_env \<Rightarrow> mapping \<Rightarrow> u64 \<Rightarrow> share_state \<Rightarrow> share_state \<times> unit res" where
  "xrp_unshare_block en mp flags s =
     (let s0 = raise_limit en s;
          (s1, ret) =
            (case mp of
               Uninit \<Rightarrow> (s0, Oops)
             | Mapping_None \<Rightarrow> (s0, Ok ())
             | Kernel \<Rightarrow> (s0, Ok ())
             | Native i _ \<Rightarrow> put_obj i s0
             | Alien am \<Rightarrow> unshare_alien en am flags s0
             | Alien_Kernel am \<Rightarrow> unshare_alien en am flags s0)
      in (restore_limit en mp (ss_kernel_ds s) s1, ret))"

section \<open>Whole requests\<close>

text \<open>
  \<open>struct xrp_request\<close> extends the part that reaches the hardware by the mappings. The
  user's memory is read through \<open>user_env\<close>: whether the namespace and the inline input can
  be copied, the buffer descriptors, and the two memory allocations.
\<close>

record request = hw_request +
  rq_buffer_mapping :: "mapping list"
  rq_in_mapping :: mapping
  rq_out_mapping :: mapping
  rq_dsp_mapping :: mapping

record ioctl_buffer =
  ib_flags :: u32
  ib_size :: u32
  ib_addr :: u64

record user_env =
  us_nsid :: "u8 list option"
  us_in_data :: "u8 list option"
  us_buffer :: "nat \<Rightarrow> ioctl_buffer option"
  us_copy_out :: bool
  us_kz_mapping :: bool
  us_kz_dsp_buffer :: bool
  us_dsp_buffer_virt :: u64

text \<open>Unsharing a sequence of mappings; the first \<open>Fault\<close> ends the execution.\<close>

fun unshare_list :: "share_env \<Rightarrow> (mapping \<times> u64) list \<Rightarrow> share_state \<Rightarrow> share_state \<times> unit res" where
  "unshare_list en [] s = (s, Ok ())"
| "unshare_list en ((mp, flags) # ms) s =
    (case xrp_unshare_block en mp flags s of
       (s1, Inl Fault) \<Rightarrow> (s1, Oops)
     | (s1, r) \<Rightarrow>
         (case unshare_list en ms s1 of
            (s2, Inr _) \<Rightarrow> (s2, r)
          | (s2, Inl e) \<Rightarrow> (s2, Inl e)))"

abbreviation in_shared :: "'a hw_request_scheme \<Rightarrow> bool" where
  "in_shared rq \<equiv> INLINE_DATA_SIZE < unat (q_in_data_size (rq_queue rq))"

abbreviation out_shared :: "'a hw_request_scheme \<Rightarrow> bool" where
  "out_shared rq \<equiv> INLINE_DATA_SIZE < unat (q_out_data_size (rq_queue rq))"

text \<open>
  The mappings of \<open>n\<close> buffers: entries behind the end of the array (it is null when \<open>kzalloc\<close>
  failed) are memory that was never written.
\<close>

definition buffer_mappings :: "nat \<Rightarrow> request \<Rightarrow> mapping list" where
  "buffer_mappings n rq = take n (rq_buffer_mapping rq @ replicate n Uninit)"

definition nowb_list :: "nat \<Rightarrow> request \<Rightarrow> (mapping \<times> u64) list" where
  "nowb_list n rq =
     (if in_shared rq then [(rq_in_mapping rq, 0)] else []) @
     (if out_shared rq then [(rq_out_mapping rq, 0)] else []) @
     map (\<lambda>mp. (mp, 0)) (buffer_mappings n rq) @
     (if INLINE_BUFFER_COUNT < n then [(rq_dsp_mapping rq, 0)] else [])"

definition xrp_unmap_request_nowb :: "share_env \<Rightarrow> nat \<Rightarrow> request \<Rightarrow> share_state \<Rightarrow> share_state \<times> unit res" where
  "xrp_unmap_request_nowb en n rq s =
     (case unshare_list en (nowb_list n rq) s of
        (s1, Inl Fault) \<Rightarrow> (s1, Oops)
      | (s1, _) \<Rightarrow> (s1, Ok ()))"

text \<open>
  \<open>xrp_unmap_request\<close>: the last failure of the output and of the buffers is returned; the
  results of unsharing the input and the descriptor array are ignored.
\<close>

definition xrp_unmap_request :: "share_env \<Rightarrow> user_env \<Rightarrow> nat \<Rightarrow> request \<Rightarrow> share_state \<Rightarrow> share_state \<times> unit res" where
  "xrp_unmap_request en us n rq s =
     (case (if in_shared rq then xrp_unshare_block en (rq_in_mapping rq) XRP_FLAG_READ s else (s, Ok ())) of
        (s1, Inl Fault) \<Rightarrow> (s1, Oops)
      | (s1, _) \<Rightarrow>
          (case (if out_shared rq then xrp_unshare_block en (rq_out_mapping rq) XRP_FLAG_WRITE s1
                 else (s1, if us_copy_out us then Ok () else Error EFAULT)) of
             (s2, Inl Fault) \<Rightarrow> (s2, Oops)
           | (s2, r2) \<Rightarrow>
               (case (if INLINE_BUFFER_COUNT < n
                      then xrp_unshare_block en (rq_dsp_mapping rq) XRP_FLAG_READ_WRITE s2 else (s2, Ok ())) of
                  (s3, Inl Fault) \<Rightarrow> (s3, Oops)
                | (s3, _) \<Rightarrow>
                    (case unshare_list en (zip (buffer_mappings n rq)
                         (map (\<lambda>b. ucast (db_flags b)) (rq_dsp_buffer rq))) s3 of
                       (s4, Inl Fault) \<Rightarrow> (s4, Oops)
                     | (s4, Inl e) \<Rightarrow> (s4, Inl e)
                     | (s4, Inr _) \<Rightarrow> (s4, r2)))))"

text \<open>
  The loop of \<open>xrp_map_request\<close> over the buffer descriptors. It stores the mapping and the
  descriptor of each buffer and stops at the first failure. Buffers without an access flag
  are not shared and translate an invalid address.
\<close>

definition no_phys :: phys_addr where
  "no_phys = - 1"

fun map_buffers :: "share_env \<Rightarrow> user_env \<Rightarrow> nat \<Rightarrow> nat \<Rightarrow> request \<Rightarrow> share_state \<Rightarrow>
    share_state \<times> request \<times> unit res" where
  "map_buffers en us i 0 rq s = (s, rq, Ok ())"
| "map_buffers en us i (Suc k) rq s =
    (case us_buffer us i of
       None \<Rightarrow> (s, rq, Error EFAULT)
     | Some b \<Rightarrow>
         (case (if ucast (ib_flags b) AND XRP_FLAG_READ_WRITE \<noteq> 0
                then if i < length (rq_buffer_mapping rq)
                     then xrp_share_block en (ib_addr b) (ucast (ib_size b)) (ucast (ib_flags b))
                            (rq_buffer_mapping rq ! i) s
                     else (s, Uninit, Oops)
                else (s, Mapping_None, Ok (no_phys, False))) of
            (s1, mp, Inl e) \<Rightarrow> (s1, rq, Inl e)
          | (s1, mp, Inr (phys, _)) \<Rightarrow>
              map_buffers en us (i + 1) k
                (rq\<lparr>rq_buffer_mapping := (rq_buffer_mapping rq)[i := mp],
                    rq_dsp_buffer := (rq_dsp_buffer rq)[i := \<lparr>db_flags = ib_flags b, db_size = ib_size b,
                       db_addr = xrp_translate_to_dsp (en_bsearch en) (en_map en) phys\<rparr>]\<rparr>) s1))"

text \<open>
  The three sharing steps in front of the loop's end: input, output, buffers, descriptor
  array; each stage runs only when the ones before succeeded.
\<close>

definition map_in :: "share_env \<Rightarrow> user_env \<Rightarrow> request \<Rightarrow> share_state \<Rightarrow> share_state \<times> request \<times> unit res" where
  "map_in en us rq s =
     (if in_shared rq then
        (case xrp_share_block en (q_in_data_addr (rq_queue rq)) (ucast (q_in_data_size (rq_queue rq)))
                XRP_FLAG_READ (rq_in_mapping rq) s of
           (s1, mp, Inl e) \<Rightarrow> (s1, rq\<lparr>rq_in_mapping := mp\<rparr>, Inl e)
         | (s1, mp, Inr (phys, _)) \<Rightarrow> (s1, rq\<lparr>rq_in_mapping := mp, rq_in_data_phys := phys\<rparr>, Ok ()))
      else
        (case us_in_data us of
           None \<Rightarrow> (s, rq, Error EFAULT)
         | Some bs \<Rightarrow> (s, rq\<lparr>rq_in_data := bs\<rparr>, Ok ())))"

definition map_out :: "share_env \<Rightarrow> request \<Rightarrow> share_state \<Rightarrow> share_state \<times> request \<times> unit res" where
  "map_out en rq s =
     (if out_shared rq then
        (case xrp_share_block en (q_out_data_addr (rq_queue rq)) (ucast (q_out_data_size (rq_queue rq)))
                XRP_FLAG_WRITE (rq_out_mapping rq) s of
           (s1, mp, Inl e) \<Rightarrow> (s1, rq\<lparr>rq_out_mapping := mp\<rparr>, Inl e)
         | (s1, mp, Inr (phys, _)) \<Rightarrow> (s1, rq\<lparr>rq_out_mapping := mp, rq_out_data_phys := phys\<rparr>, Ok ()))
      else (s, rq, Ok ()))"

definition map_descriptors ::
  "share_env \<Rightarrow> user_env \<Rightarrow> nat \<Rightarrow> request \<Rightarrow> share_state \<Rightarrow> share_state \<times> request \<times> unit res" where
  "map_descriptors en us n rq s =
     (if INLINE_BUFFER_COUNT < n then
        (case xrp_share_kernel en (us_dsp_buffer_virt us) (of_nat (n * 12)) XRP_FLAG_READ_WRITE s of
           (s1, mp, Inl e) \<Rightarrow> (s1, rq\<lparr>rq_dsp_mapping := mp\<rparr>, Inl e)
         | (s1, mp, Inr phys) \<Rightarrow> (s1, rq\<lparr>rq_dsp_mapping := mp, rq_dsp_buffer_phys := phys\<rparr>, Ok ()))
      else (s, rq, Ok ()))"

definition map_stages ::
  "share_env \<Rightarrow> user_env \<Rightarrow> nat \<Rightarrow> request \<Rightarrow> share_state \<Rightarrow> share_state \<times> request \<times> unit res" where
  "map_stages en us n rq s =
     (case map_in en us rq s of
        (s1, rq1, Inl e) \<Rightarrow> (s1, rq1, Inl e)
      | (s1, rq1, Inr _) \<Rightarrow>
          (case map_out en rq1 s1 of
             (s2, rq2, Inl e) \<Rightarrow> (s2, rq2, Inl e)
           | (s2, rq2, Inr _) \<Rightarrow>
               (case map_buffers en us 0 n rq2 s2 of
                  (s3, rq3, Inl e) \<Rightarrow> (s3, rq3, Inl e)
                | (s3, rq3, Inr _) \<Rightarrow> map_descriptors en us n rq3 s3)))"

text \<open>
  \<open>xrp_map_request\<close>. The request lives on the stack: its mappings are \<open>Uninit\<close> until they are
  shared; the array of buffer mappings is zeroed when it was allocated, and \<open>kzalloc\<close>'s
  result is not tested. On a failure everything is unshared again, whatever was reached.
\<close>

definition xrp_map_request ::
  "share_env \<Rightarrow> user_env \<Rightarrow> ioctl_queue \<Rightarrow> share_state \<Rightarrow> share_state \<times> request \<times> unit res" where
  "xrp_map_request en us q s =
     (let n = unat (q_buffer_size q) div 16;
          rq0 = \<lparr>rq_queue = q, rq_dsp_buffer = replicate n \<lparr>db_flags = 0, db_size = 0, db_addr = 0\<rparr>,
                 rq_in_data = [], rq_out_data = replicate 16 0, rq_in_data_phys = 0, rq_out_data_phys = 0,
                 rq_dsp_buffer_phys = 0, rq_nsid = (case us_nsid us of None \<Rightarrow> [] | Some ns \<Rightarrow> ns),
                 rq_buffer_mapping = (if us_kz_mapping us then replicate n Mapping_None else []),
                 rq_in_mapping = Uninit, rq_out_mapping = Uninit, rq_dsp_mapping = Uninit\<rparr> in
      if q_flags q AND REQUEST_NSID \<noteq> 0 \<and> us_nsid us = None then (s, rq0, Error EINVAL)
      else if INLINE_BUFFER_COUNT < n \<and> \<not> us_kz_dsp_buffer us then (s, rq0, Error ENOMEM)
      else
        (case map_stages en us n rq0 s of
           (s1, rq, Inr _) \<Rightarrow> (s1, rq, Ok ())
         | (s1, rq, Inl Fault) \<Rightarrow> (s1, rq, Oops)
         | (s1, rq, Inl (Errno e)) \<Rightarrow>
             (case xrp_unmap_request_nowb en n rq s1 of
                (s2, Inl Fault) \<Rightarrow> (s2, rq, Oops)
              | (s2, _) \<Rightarrow> (s2, rq, Error e))))"

section \<open>What a set of mappings holds\<close>

text \<open>
  \<open>holds s0 ms s\<close>: the state \<open>s\<close> is \<open>s0\<close> plus exactly what the mappings \<open>ms\<close> hold: a reference
  of an allocation for each native mapping, a page reference for each page of a pinned one,
  an allocation of its own for each shadow copy. The order in which mappings are made and
  dropped does not matter, so \<open>ms\<close> is a multiset.
\<close>

fun alien_of :: "mapping \<Rightarrow> alien_mapping option" where
  "alien_of (Alien am) = Some am"
| "alien_of (Alien_Kernel am) = Some am"
| "alien_of _ = None"

definition native_of :: "mapping \<Rightarrow> nat option" where
  "native_of m = (case m of Native i v \<Rightarrow> Some i | _ \<Rightarrow> None)"

definition copy_of :: "mapping \<Rightarrow> nat option" where
  "copy_of m = (case alien_of m of
     Some am \<Rightarrow> if am_type am = ALIEN_COPY then Some (am_allocation am) else None | None \<Rightarrow> None)"

definition page_use :: "mapping \<Rightarrow> u64 \<Rightarrow> int" where
  "page_use m p = (case alien_of m of
     Some am \<Rightarrow> if am_type am = ALIEN_GUP
       then int (count_list (phys_pages (am_paddr am) (page_count (am_vaddr am) (am_size am))) p) else 0
   | None \<Rightarrow> 0)"

definition copy_region :: "share_state \<Rightarrow> mapping \<Rightarrow> nat set" where
  "copy_region s m = (case copy_of m of
     None \<Rightarrow> {} | Some i \<Rightarrow> (case ss_allocs s i of None \<Rightarrow> {} | Some a \<Rightarrow> region a))"

definition natives :: "mapping multiset \<Rightarrow> nat \<Rightarrow> nat" where
  "natives ms i = size {#m \<in># ms. native_of m = Some i#}"

definition copies :: "mapping multiset \<Rightarrow> nat \<Rightarrow> nat" where
  "copies ms i = size {#m \<in># ms. copy_of m = Some i#}"

definition base_ok :: "nat \<Rightarrow> share_state \<Rightarrow> bool" where
  "base_ok N s0 = (pool_wf (ss_pool s0) \<and>
     (\<forall>i a. ss_allocs s0 i = Some a \<longrightarrow> i < ss_next s0 \<and> al_ref a \<noteq> 0 \<and> unat (al_ref a) + N < 2 ^ 32))"

definition holds :: "share_state \<Rightarrow> mapping multiset \<Rightarrow> share_state \<Rightarrow> bool" where
  "holds s0 ms s =
    (pp_start (ss_pool s) = pp_start (ss_pool s0) \<and> pp_size (ss_pool s) = pp_size (ss_pool s0) \<and>
     pool_wf (ss_pool s) \<and> ss_next s0 \<le> ss_next s \<and>
     (\<forall>p. ss_pages s p = ss_pages s0 p + (\<Sum>m \<in># ms. page_use m p)) \<and>
     (\<forall>i. 0 < natives ms i \<longrightarrow> ss_allocs s0 i \<noteq> None) \<and>
     (\<forall>i a. ss_allocs s0 i = Some a \<longrightarrow> ss_allocs s i = Some (a\<lparr>al_ref := al_ref a + of_nat (natives ms i)\<rparr>)) \<and>
     (\<forall>i. copies ms i \<le> 1 \<and> (0 < copies ms i \<longrightarrow> ss_next s0 \<le> i \<and> i < ss_next s)) \<and>
     (\<forall>i. ss_allocs s0 i = None \<longrightarrow>
        (if copies ms i = 0 then ss_allocs s i = None
         else \<exists>a. ss_allocs s i = Some a \<and> al_ref a = 1 \<and> (al_pool a = Private_Pool_Ops \<longrightarrow> al_size a \<noteq> 0))) \<and>
     (\<forall>x. size {#m \<in># ms. x \<in> copy_region s m#} + of_bool (x \<in> pool_free (ss_pool s)) =
          of_bool (x \<in> pool_free (ss_pool s0))))"

lemma copy_region_none [simp]: "copy_of m = None \<Longrightarrow> copy_region s m = {}"
  by (simp add: copy_region_def)

lemma holds_empty: "base_ok N s0 \<Longrightarrow> holds s0 {#} s0"
  by (auto simp: holds_def base_ok_def natives_def copies_def)

lemma holds_base:
  assumes "holds s0 {#} s" "base_ok N s0"
  shows "ss_pool s = ss_pool s0" "ss_allocs s = ss_allocs s0" "ss_pages s = ss_pages s0"
proof -
  let ?lo = "unat (pp_start (ss_pool s0))" and ?hi = "unat (pp_start (ss_pool s0)) + unat (pp_size (ss_pool s0))"
  have same: "pp_start (ss_pool s) = pp_start (ss_pool s0)" "pp_size (ss_pool s) = pp_size (ss_pool s0)"
    using assms by (simp_all add: holds_def)
  have wf: "ilist ?lo ?hi (ivs (pp_free_list (ss_pool s)))" "ilist ?lo ?hi (ivs (pp_free_list (ss_pool s0)))"
    using assms same by (simp_all add: holds_def base_ok_def pool_wf_def)
  have "of_bool (x \<in> pool_free (ss_pool s)) = (of_bool (x \<in> pool_free (ss_pool s0)) :: nat)" for x
    using assms by (simp add: holds_def)
  then have "pool_free (ss_pool s) = pool_free (ss_pool s0)" by (metis of_bool_eq_iff set_eqI)
  then have "ivs (pp_free_list (ss_pool s)) = ivs (pp_free_list (ss_pool s0))"
    using ilist_unique [OF wf] by (simp add: pool_free_def)
  then show "ss_pool s = ss_pool s0" using same by (intro private_pool.equality) (simp_all add: ivs_inj)
  show "ss_allocs s = ss_allocs s0"
  proof
    fix i
    show "ss_allocs s i = ss_allocs s0 i"
      using assms by (cases "ss_allocs s0 i") (auto simp: holds_def natives_def copies_def)
  qed
  show "ss_pages s = ss_pages s0" using assms by (auto simp: holds_def)
qed

lemma counts_add:
  "natives (add_mset m ms) i = natives ms i + of_bool (native_of m = Some i)"
  "copies (add_mset m ms) i = copies ms i + of_bool (copy_of m = Some i)"
  by (auto simp: natives_def copies_def)

text \<open>Mappings that hold nothing, and pages.\<close>

lemma holds_plain:
  assumes "native_of m = None" "copy_of m = None" "\<And>p. page_use m p = 0"
  shows "holds s0 (add_mset m ms) s = holds s0 ms s"
  using assms by (simp add: holds_def counts_add copy_region_def)

lemma holds_pages_plus:
  assumes "native_of m = None" "copy_of m = None" "holds s0 ms s"
    "\<And>p. ss_pages s' p = ss_pages s p + page_use m p"
    "ss_pool s' = ss_pool s" "ss_allocs s' = ss_allocs s" "ss_next s' = ss_next s"
  shows "holds s0 (add_mset m ms) s'"
  using assms by (simp add: holds_def counts_add copy_region_def cong: option.case_cong)

lemma holds_pages_minus:
  assumes "native_of m = None" "copy_of m = None" "holds s0 (add_mset m ms) s"
    "\<And>p. ss_pages s' p = ss_pages s p - page_use m p"
    "ss_pool s' = ss_pool s" "ss_allocs s' = ss_allocs s" "ss_next s' = ss_next s"
  shows "holds s0 ms s'"
  using assms by (simp add: holds_def counts_add copy_region_def cong: option.case_cong)

lemma holds_limit [simp]:
  "holds s0 ms (s\<lparr>ss_kernel_ds := b\<rparr>) = holds s0 ms s" "holds s0 ms (s\<lparr>ss_dirty := d\<rparr>) = holds s0 ms s"
  by (simp_all add: holds_def copy_region_def cong: option.case_cong)

lemma natives_le: "natives ms i \<le> size ms"
  unfolding natives_def by (simp add: size_filter_mset_lesseq)

text \<open>Taking and dropping a reference of an allocation.\<close>

lemma holds_get:
  assumes "holds s0 ms s" "ss_allocs s0 i \<noteq> None"
  shows "\<exists>s'. get_obj i s = (s', Ok ()) \<and> holds s0 (add_mset (Native i v) ms) s'"
proof -
  obtain a where a: "ss_allocs s0 i = Some a" using assms by auto
  then have si: "ss_allocs s i = Some (a\<lparr>al_ref := al_ref a + of_nat (natives ms i)\<rparr>)"
    using assms by (simp add: holds_def)
  let ?s = "s\<lparr>ss_allocs := (ss_allocs s)(i \<mapsto> a\<lparr>al_ref := al_ref a + of_nat (natives ms i) + 1\<rparr>)\<rparr>"
  have g: "get_obj i s = (?s, Ok ())" by (simp add: get_obj_def si xrp_allocation_get_def)
  have cr: "copy_region ?s m = copy_region s m" for m
    using si by (auto simp: copy_region_def region_def split: option.splits)
  have nc: "native_of (Native i v) = Some i" "copy_of (Native i v) = None" "\<And>p. page_use (Native i v) p = 0"
    by (simp_all add: native_of_def copy_of_def page_use_def)
  have "holds s0 (add_mset (Native i v) ms) ?s"
    using assms(1) a nc cr by (auto simp: holds_def counts_add add.assoc)
  then show ?thesis using g by blast
qed


lemma holds_put_native:
  assumes "holds s0 (add_mset (Native i v) ms) s" "base_ok N s0" "size ms < N"
  shows "\<exists>s'. put_obj i s = (s', Ok ()) \<and> holds s0 ms s'"
proof -
  have nc: "native_of (Native i v) = Some i" "copy_of (Native i v) = None" "\<And>p. page_use (Native i v) p = 0"
    by (simp_all add: native_of_def copy_of_def page_use_def)
  obtain a where a: "ss_allocs s0 i = Some a"
    using assms nc by (auto simp: holds_def counts_add)
  then have si: "ss_allocs s i = Some (a\<lparr>al_ref := al_ref a + of_nat (natives ms i) + 1\<rparr>)"
    using assms nc by (simp add: holds_def counts_add add.assoc add.commute [of _ 1])
  have b: "0 < unat (al_ref a)" "unat (al_ref a) + N < 2 ^ 32"
    using assms(2) a by (auto simp: base_ok_def unat_gt_0)
  have nl: "natives ms i < N" using natives_le [of ms i] assms(3) by linarith
  then have u: "unat (of_nat (natives ms i) :: u32) = natives ms i"
    using b by (intro of_nat_inverse [OF refl]) simp
  then have "unat (al_ref a + of_nat (natives ms i)) = unat (al_ref a) + natives ms i"
    using b nl by (subst unat_add_u32) simp_all
  then have nz: "al_ref a + of_nat (natives ms i) \<noteq> 0" using b by (metis add_gr_0 unat_0 less_irrefl)
  let ?s = "s\<lparr>ss_allocs := (ss_allocs s)(i \<mapsto> a\<lparr>al_ref := al_ref a + of_nat (natives ms i)\<rparr>)\<rparr>"
  have p: "put_obj i s = (?s, Ok ())"
    using nz by (simp add: put_obj_def si xrp_allocation_put_def Let_def)
  have cr: "copy_region ?s m = copy_region s m" for m
    using si by (auto simp: copy_region_def region_def split: option.splits)
  have "holds s0 ms ?s"
    using assms(1) a nc cr by (auto simp: holds_def counts_add)
  then show ?thesis using p by blast
qed

text \<open>Shadow copies: a fresh object with its region of the pool, and its release.\<close>

definition copy_mapping :: "nat \<Rightarrow> mapping \<Rightarrow> bool" where
  "copy_mapping i m = (native_of m = None \<and> copy_of m = Some i \<and> (\<forall>p. page_use m p = 0))"

text \<open>
  The allocator forgets the region it carved when its second \<open>kzalloc\<close> fails. \<open>loses en s0 s1\<close>:
  the state \<open>s1\<close> is \<open>s0\<close>, or \<open>s0\<close> without one such region of its free memory.
\<close>

definition pool_loses :: "private_pool \<Rightarrow> private_pool \<Rightarrow> bool" where
  "pool_loses p q = (pool_wf q \<and> pp_start q = pp_start p \<and> pp_size q = pp_size p \<and>
     (\<exists>a b. {a..<b} \<subseteq> pool_free p \<and> pool_free q = pool_free p - {a..<b}))"

definition loses :: "share_env \<Rightarrow> share_state \<Rightarrow> share_state \<Rightarrow> bool" where
  "loses en s0 s1 = (s1 = s0 \<or>
     (\<exists>i q. \<not> en_kz2 en i \<and> pool_loses (ss_pool s0) q \<and> s1 = s0\<lparr>ss_pool := q\<rparr>))"

lemma loses_refl [simp]: "loses en s0 s0"
  by (simp add: loses_def)

lemma loses_none: "holds s0 ms s \<Longrightarrow> \<exists>s1. loses en s0 s1 \<and> holds s1 ms s"
  using loses_refl by blast

lemma loses_base: "loses en s0 s1 \<Longrightarrow> base_ok N s0 \<Longrightarrow> base_ok N s1"
  by (auto simp: loses_def base_ok_def pool_loses_def)

lemma holds_lost:
  assumes h: "holds s0 ms s" and b: "base_ok N s0" and p: "pool_wf p'" "pp_start p' = pp_start (ss_pool s)"
    "pp_size p' = pp_size (ss_pool s)" and i: "{a..<b} \<subseteq> pool_free (ss_pool s)"
    "pool_free p' = pool_free (ss_pool s) - {a..<b}" and kz: "\<not> en_kz2 en i"
  shows "\<exists>s1. loses en s0 s1 \<and> holds s1 ms (s\<lparr>ss_pool := p'\<rparr>)"
proof -
  have reg: "size {#m \<in># ms. x \<in> copy_region s m#} + of_bool (x \<in> pool_free (ss_pool s)) =
      of_bool (x \<in> pool_free (ss_pool s0))" for x using h by (simp add: holds_def)
  obtain q where q: "pool_wf q" "pp_start q = pp_start (ss_pool s0)" "pp_size q = pp_size (ss_pool s0)"
      "pool_free q = pool_free (ss_pool s0) - {a..<b}"
    using pool_without [of "ss_pool s0" "{a..<b}"] b by (auto simp: base_ok_def)
  have "x \<in> pool_free (ss_pool s0)" if "x \<in> pool_free (ss_pool s)" for x
    using reg [of x] that by (cases "x \<in> pool_free (ss_pool s0)") simp_all
  then have "{a..<b} \<subseteq> pool_free (ss_pool s0)" using i(1) by blast
  then have l: "loses en s0 (s0\<lparr>ss_pool := q\<rparr>)" using q kz by (auto simp: loses_def pool_loses_def)
  have cr: "copy_region (s\<lparr>ss_pool := p'\<rparr>) m = copy_region s m" for m
    by (simp add: copy_region_def cong: option.case_cong)
  have reg': "size {#m \<in># ms. x \<in> copy_region s m#} + of_bool (x \<in> pool_free p') =
      of_bool (x \<in> pool_free q)" for x
  proof (cases "x \<in> {a..<b}")
    case True
    then have "x \<in> pool_free (ss_pool s)" using i(1) by blast
    then have "size {#m \<in># ms. x \<in> copy_region s m#} = 0"
      using reg [of x] by (cases "x \<in> pool_free (ss_pool s0)") simp_all
    then show ?thesis using True i(2) q(4) by simp
  next
    case False
    then show ?thesis using reg [of x] i(2) q(4) by (simp del: atLeastLessThan_iff)
  qed
  have "holds (s0\<lparr>ss_pool := q\<rparr>) ms (s\<lparr>ss_pool := p'\<rparr>)"
    unfolding holds_def cr using h p q reg' by (simp add: holds_def)
  then show ?thesis using l by blast
qed

lemma holds_alloc:
  assumes h: "holds s0 ms s" and b: "base_ok N s0" and sz: "sz \<le> MAX_REQUEST"
  shows "case allocate_obj en sz al s of
      (s', Inr i) \<Rightarrow> ss_allocs s' i \<noteq> None \<and> (\<forall>m. copy_mapping i m \<longrightarrow> holds s0 (add_mset m ms) s')
    | (s', Inl e) \<Rightarrow> \<exists>s1. loses en s0 s1 \<and> holds s1 ms s'"
proof -
  have wf: "pool_wf (ss_pool s)" using h by (simp add: holds_def)
  obtain p' r where pr: "xrp_private_alloc (en_kz1 en (ss_next s)) (en_kz2 en (ss_next s)) (en_gfp en) (ss_pool s) sz al = (p', r)"
    by fastforce
  have fresh: "ss_allocs s (ss_next s) = None" "ss_allocs s0 (ss_next s) = None" "copies ms (ss_next s) = 0"
  proof -
    show n0: "ss_allocs s0 (ss_next s) = None"
    proof (rule ccontr)
      assume "ss_allocs s0 (ss_next s) \<noteq> None"
      then have "ss_next s < ss_next s0" using b unfolding base_ok_def by blast
      then show False using h by (simp add: holds_def)
    qed
    show c0: "copies ms (ss_next s) = 0" using h by (auto simp: holds_def)
    show "ss_allocs s (ss_next s) = None" using h n0 c0 by (simp add: holds_def)
  qed
  have good: "holds s0 (add_mset m ms)
      (s\<lparr>ss_pool := p', ss_allocs := (ss_allocs s)(ss_next s \<mapsto> a), ss_next := ss_next s + 1\<rparr>)"
    if m: "copy_mapping (ss_next s) m" and p: "pp_start p' = pp_start (ss_pool s)" "pp_size p' = pp_size (ss_pool s)"
      "pool_wf p'" and a: "al_ref a = 1" "al_pool a = Private_Pool_Ops \<longrightarrow> al_size a \<noteq> 0"
      "region a \<subseteq> pool_free (ss_pool s)" "pool_free p' = pool_free (ss_pool s) - region a" for m a
  proof -
    let ?s = "s\<lparr>ss_pool := p', ss_allocs := (ss_allocs s)(ss_next s \<mapsto> a), ss_next := ss_next s + 1\<rparr>"
    have cm: "native_of m = None" "copy_of m = Some (ss_next s)" "\<And>p. page_use m p = 0"
      using m by (simp_all add: copy_mapping_def)
    have crm: "copy_region ?s m = region a" using cm by (simp add: copy_region_def)
    have cr: "copy_region ?s k = copy_region s k" if "k \<in># ms" for k
    proof -
      have "copy_of k \<noteq> Some (ss_next s)" using fresh(3) that by (auto simp: copies_def)
      then show ?thesis by (auto simp: copy_region_def split: option.splits)
    qed
    have flt: "{#k \<in># ms. x \<in> copy_region ?s k#} = {#k \<in># ms. x \<in> copy_region s k#}" for x
      using cr by (intro filter_mset_cong) auto
    have reg: "size {#k \<in># add_mset m ms. x \<in> copy_region ?s k#} + of_bool (x \<in> pool_free p') =
        of_bool (x \<in> pool_free (ss_pool s0))" for x
    proof -
      have hx: "size {#k \<in># ms. x \<in> copy_region s k#} + of_bool (x \<in> pool_free (ss_pool s)) =
          of_bool (x \<in> pool_free (ss_pool s0))" using h by (simp add: holds_def)
      show ?thesis
      proof (cases "x \<in> region a")
        case True
        then have "x \<in> pool_free (ss_pool s)" "x \<notin> pool_free p'" using a(3,4) by auto
        then show ?thesis using hx crm flt [of x] True by simp
      next
        case False
        then have "x \<in> pool_free p' \<longleftrightarrow> x \<in> pool_free (ss_pool s)" using a(4) by auto
        then show ?thesis using hx crm flt [of x] False by simp
      qed
    qed
    show ?thesis
      unfolding holds_def
      using h p a(1,2) cm fresh reg by (simp add: holds_def counts_add less_Suc_eq)
  qed
  from pr show ?thesis
  proof (cases rule: private_alloc_cases)
    case (err e)
    then show ?thesis using pr loses_none [OF h] by (simp add: allocate_obj_def)
  next
    case (gfp a)
    then show ?thesis using pr h good [of _ a] by (simp add: allocate_obj_def region_def wf)
  next
    case (lost as l)
    note sc = scan_ok [OF wf lost(5,4) sz lost(6)]
    have "\<exists>s1. loses en s0 s1 \<and> holds s1 ms (s\<lparr>ss_pool := p'\<rparr>)"
      using holds_lost [OF h b _ _ _ sc(3) _ lost(3)] sc lost(2) by simp
    then show ?thesis using pr lost(1) by (simp add: allocate_obj_def)
  next
    case (ok c as l)
    note sc = scan_ok [OF wf ok(4,3) sz ok(5)] page_round [OF ok(3) sz]
    then show ?thesis using pr ok good [of _ "\<lparr>al_pool = Private_Pool_Ops, al_start = as, al_size = ALIGN sz PAGE_SIZE, al_ref = 1\<rparr>"]
      by (simp add: allocate_obj_def region_def)
  qed
qed


lemma holds_put_copy:
  assumes h: "holds s0 (add_mset m ms) s" and b: "base_ok N s0" and m: "copy_mapping i m"
  shows "\<exists>s'. put_obj i s = (s', Ok ()) \<and> holds s0 ms s'"
proof -
  have cm: "native_of m = None" "copy_of m = Some i" "\<And>p. page_use m p = 0"
    using m by (simp_all add: copy_mapping_def)
  have ci: "copies ms i = 0" "ss_next s0 \<le> i" "i < ss_next s"
    using h cm by (auto simp: holds_def counts_add)
  have n0: "ss_allocs s0 i = None"
  proof (rule ccontr)
    assume "ss_allocs s0 i \<noteq> None"
    then have "i < ss_next s0" using b unfolding base_ok_def by blast
    then show False using ci by simp
  qed
  obtain a where a: "ss_allocs s i = Some a" "al_ref a = 1" "al_pool a = Private_Pool_Ops \<longrightarrow> al_size a \<noteq> 0"
  proof -
    have "if copies (add_mset m ms) i = 0 then ss_allocs s i = None
      else \<exists>a. ss_allocs s i = Some a \<and> al_ref a = 1 \<and> (al_pool a = Private_Pool_Ops \<longrightarrow> al_size a \<noteq> 0)"
      using h n0 unfolding holds_def by blast
    moreover have "copies (add_mset m ms) i \<noteq> 0" using cm by (simp add: counts_add)
    ultimately show thesis using that by auto
  qed
  let ?a = "a\<lparr>al_ref := 0\<rparr>"
  let ?s = "s\<lparr>ss_pool := xrp_free (ss_pool s) ?a, ss_allocs := (ss_allocs s)(i := None)\<rparr>"
  have p: "put_obj i s = (?s, Ok ())" using a by (simp add: put_obj_def xrp_allocation_put_def)
  have hx: "size {#k \<in># ms. x \<in> copy_region s k#} + of_bool (x \<in> region a) + of_bool (x \<in> pool_free (ss_pool s)) =
      of_bool (x \<in> pool_free (ss_pool s0))" for x
  proof -
    have "copy_region s m = region a" using a(1) cm by (simp add: copy_region_def)
    moreover have "size {#k \<in># add_mset m ms. x \<in> copy_region s k#} + of_bool (x \<in> pool_free (ss_pool s)) =
      of_bool (x \<in> pool_free (ss_pool s0))" using h unfolding holds_def by blast
    ultimately show ?thesis by (cases "x \<in> region a") simp_all
  qed
  have wf: "pool_wf (ss_pool s)" "pool_wf (ss_pool s0)"
    "pp_start (ss_pool s) = pp_start (ss_pool s0)" "pp_size (ss_pool s) = pp_size (ss_pool s0)"
    using h b by (simp_all add: holds_def base_ok_def)
  have free_sub: "pool_free (ss_pool s0) \<subseteq> pool_bytes (ss_pool s)"
    using ibytes_bounds wf by (fastforce simp: pool_free_def pool_bytes_def pool_wf_def)
  have disj: "region a \<inter> pool_free (ss_pool s) = {}" "region a \<subseteq> pool_bytes (ss_pool s)"
  proof -
    have "x \<in> region a \<Longrightarrow> x \<notin> pool_free (ss_pool s) \<and> x \<in> pool_free (ss_pool s0)" for x
      using hx [of x] by (cases "x \<in> pool_free (ss_pool s)"; cases "x \<in> pool_free (ss_pool s0)") simp_all
    then show "region a \<inter> pool_free (ss_pool s) = {}" "region a \<subseteq> pool_bytes (ss_pool s)"
      using free_sub by auto
  qed
  have fr: "pool_wf (xrp_free (ss_pool s) ?a)" "pool_free (xrp_free (ss_pool s) ?a) = region a \<union> pool_free (ss_pool s)"
    "pp_start (xrp_free (ss_pool s) ?a) = pp_start (ss_pool s)" "pp_size (xrp_free (ss_pool s) ?a) = pp_size (ss_pool s)"
  proof -
    have "pool_wf (xrp_free (ss_pool s) ?a) \<and> pool_free (xrp_free (ss_pool s) ?a) = region a \<union> pool_free (ss_pool s)"
    proof (cases "al_pool a = Private_Pool_Ops")
      case True
      then show ?thesis using private_free_ok [of "ss_pool s" ?a] wf disj a by (simp add: xrp_free_def)
    next
      case False
      then show ?thesis using wf by (cases "al_pool a") (simp_all add: xrp_free_def region_def)
    qed
    then show "pool_wf (xrp_free (ss_pool s) ?a)" "pool_free (xrp_free (ss_pool s) ?a) = region a \<union> pool_free (ss_pool s)"
      by simp_all
    show "pp_start (xrp_free (ss_pool s) ?a) = pp_start (ss_pool s)" "pp_size (xrp_free (ss_pool s) ?a) = pp_size (ss_pool s)"
      by (cases "al_pool a"; simp add: xrp_free_def xrp_private_free_def)+
  qed
  have cr: "copy_region ?s k = copy_region s k" if "k \<in># ms" for k
  proof -
    have "copy_of k \<noteq> Some i" using ci(1) that by (auto simp: copies_def)
    then show ?thesis by (auto simp: copy_region_def split: option.splits)
  qed
  have flt: "{#k \<in># ms. x \<in> copy_region ?s k#} = {#k \<in># ms. x \<in> copy_region s k#}" for x
    using cr by (intro filter_mset_cong) auto
  have reg: "size {#k \<in># ms. x \<in> copy_region ?s k#} + of_bool (x \<in> pool_free (ss_pool ?s)) =
      of_bool (x \<in> pool_free (ss_pool s0))" for x
    using hx [of x] flt [of x] fr(2) disj(1) by (cases "x \<in> region a") auto
  have cc: "copies (add_mset m ms) j = (if j = i then 1 else copies ms j)" for j
    using ci(1) cm by (simp add: counts_add)
  have al: "ss_allocs s0 j = None \<Longrightarrow>
      (if copies ms j = 0 then ss_allocs ?s j = None
       else \<exists>a. ss_allocs ?s j = Some a \<and> al_ref a = 1 \<and> (al_pool a = Private_Pool_Ops \<longrightarrow> al_size a \<noteq> 0))" for j
    using h cc [of j] ci(1) by (auto simp: holds_def split: if_splits)
  have nat: "natives (add_mset m ms) j = natives ms j" for j using cm by (simp add: counts_add)
  have h': "ss_next s0 \<le> ss_next s"
    "\<forall>p. ss_pages s p = ss_pages s0 p + (\<Sum>k \<in># add_mset m ms. page_use k p)"
    "\<forall>j. 0 < natives ms j \<longrightarrow> ss_allocs s0 j \<noteq> None"
    "\<forall>j a. ss_allocs s0 j = Some a \<longrightarrow> ss_allocs s j = Some (a\<lparr>al_ref := al_ref a + of_nat (natives ms j)\<rparr>)"
    "\<forall>j. copies (add_mset m ms) j \<le> 1 \<and> (0 < copies (add_mset m ms) j \<longrightarrow> ss_next s0 \<le> j \<and> j < ss_next s)"
    using h unfolding holds_def nat by blast+
  have "holds s0 ms ?s"
    unfolding holds_def
  proof (intro conjI)
    show "\<forall>p. ss_pages ?s p = ss_pages s0 p + (\<Sum>k \<in># ms. page_use k p)" using h'(2) cm by simp
    show "\<forall>j a. ss_allocs s0 j = Some a \<longrightarrow> ss_allocs ?s j = Some (a\<lparr>al_ref := al_ref a + of_nat (natives ms j)\<rparr>)"
      using h'(4) n0 by auto
    show "\<forall>j. copies ms j \<le> 1 \<and> (0 < copies ms j \<longrightarrow> ss_next s0 \<le> j \<and> j < ss_next ?s)"
    proof
      fix j
      show "copies ms j \<le> 1 \<and> (0 < copies ms j \<longrightarrow> ss_next s0 \<le> j \<and> j < ss_next ?s)"
        using spec [OF h'(5), of j] ci(1) cc [of j] by (cases "j = i") simp_all
    qed
    show "\<forall>j. ss_allocs s0 j = None \<longrightarrow>
      (if copies ms j = 0 then ss_allocs ?s j = None
       else \<exists>a. ss_allocs ?s j = Some a \<and> al_ref a = 1 \<and> (al_pool a = Private_Pool_Ops \<longrightarrow> al_size a \<noteq> 0))"
      using al by blast
    show "\<forall>x. size {#k \<in># ms. x \<in> copy_region ?s k#} + of_bool (x \<in> pool_free (ss_pool ?s)) =
      of_bool (x \<in> pool_free (ss_pool s0))" using reg by blast
  qed (use fr wf h' in simp_all)
  then show ?thesis using p by blast
qed

section \<open>Each way of sharing takes what its mapping holds\<close>

text \<open>
  What is used of the kernel: \<open>get_user_pages_fast\<close> returns as many pages as it says and no
  more than asked, with page frames below the physical address limit; an area of an XRP
  file refers to a live allocation.
\<close>

definition share_laws :: "share_env \<Rightarrow> share_state \<Rightarrow> bool" where
  "share_laws en s0 =
    ((\<forall>a n. case en_get_user_pages en a n of (ret, ps) \<Rightarrow>
        ret \<le> int n \<and> (0 \<le> ret \<longrightarrow> length ps = nat ret) \<and> (\<forall>p \<in> set ps. unat p < 2 ^ 52)) \<and>
     (\<forall>a v. en_find_vma en a = Some v \<longrightarrow> vm_file v = en_filp en \<or> en_known_file en (vm_file v) \<longrightarrow>
        ss_allocs s0 (vm_allocation v) \<noteq> None))"

lemma holds_same:
  assumes "ss_pool s' = ss_pool s" "ss_allocs s' = ss_allocs s" "ss_next s' = ss_next s" "ss_pages s' = ss_pages s"
  shows "holds s0 ms s' = holds s0 ms s"
  using assms by (simp add: holds_def copy_region_def cong: option.case_cong)

lemma pfn_of_phys:
  assumes "unat p < 2 ^ 52"
  shows "PFN_DOWN (pfn_to_phys p + (v AND (PAGE_SIZE - 1))) = p"
proof -
  have m: "(PAGE_SIZE - 1 :: u64) = mask 12" by (simp add: mask_eq_exp_minus_1)
  have d: "push_bit 12 p + (v AND mask 12) = push_bit 12 p OR (v AND mask 12)"
    by (rule disjunctive_add_eq_or) (auto intro!: bit_eqI simp: bit_simps)
  have hi: "n < 52" if b: "bit p n" for n
  proof (rule ccontr)
    assume "\<not> n < 52"
    then have that: "52 \<le> n" by simp
    have "bit (unat p) n" using b by (simp add: bit_unsigned_iff bit_imp_possible_bit)
    then have "odd (unat p div 2 ^ n)" by (simp add: bit_iff_odd)
    moreover have "unat p < 2 ^ n"
      using assms power_increasing [of 52 n "2::nat"] that by linarith
    ultimately show False by simp
  qed
  show ?thesis
    unfolding PFN_DOWN_def pfn_to_phys_def PAGE_SHIFT_def m d
    by (rule bit_word_eqI) (auto simp: bit_simps dest: hi)
qed

lemma contiguous_pages:
  "contiguous_in e (p # ps) \<Longrightarrow> p # ps = map (\<lambda>i. p + of_nat i) [0..<Suc (length ps)]"
proof (induction ps arbitrary: p)
  case Nil
  then show ?case by simp
next
  case (Cons q ps)
  have q: "q = p + 1" "q # ps = map (\<lambda>i. q + of_nat i) [0..<Suc (length ps)]" using Cons by auto
  have "map (\<lambda>i. p + of_nat i) [0..<Suc (Suc (length ps))] = p # map (\<lambda>i. p + of_nat (Suc i)) [0..<Suc (length ps)]"
    by (simp add: map_upt_Suc del: upt_Suc)
  also have "\<dots> = p # map (\<lambda>i. q + of_nat i) [0..<Suc (length ps)]" by (simp add: q(1) add.assoc)
  finally show ?case using q(2) by simp
qed


lemma gup_holds:
  assumes h: "holds s0 ms s" and l: "share_laws en s0"
  shows "case xvp_gup_virt_to_phys en virt sz s of
      (s', Inr am) \<Rightarrow> holds s0 (add_mset (Alien am) ms) s' \<and> am_type am = ALIEN_GUP \<and> am_vaddr am = virt \<and>
        am_size am = sz \<and> ss_pages s = ss_pages (xrp_put_pages (am_paddr am) (page_count virt sz) s') \<and>
        ss_pool s' = ss_pool s \<and> ss_allocs s' = ss_allocs s \<and> ss_next s' = ss_next s
    | (s', Inl e) \<Rightarrow> e \<noteq> Fault \<longrightarrow> holds s0 ms s'"
proof -
  define n where "n = unat (page_count virt sz)"
  obtain ret pages where g: "en_get_user_pages en virt n = (ret, pages)" by fastforce
  let ?got = "take (nat ret) pages"
  have law: "ret \<le> int n" "0 \<le> ret \<Longrightarrow> length pages = nat ret" "\<forall>p \<in> set pages. unat p < 2 ^ 52"
    using l g unfolding share_laws_def by (auto dest!: spec [of _ virt] spec [of _ n])
  have undo: "holds s0 ms (add_pages (-1) ?got (add_pages 1 ?got s))"
    using h by (subst holds_same [where s = s]) (simp_all add: add_pages_def)
  consider (early) e where "xvp_gup_virt_to_phys en virt sz s = (s, Inl e)"
    | (undone) e where "xvp_gup_virt_to_phys en virt sz s = (add_pages (-1) ?got (add_pages 1 ?got s), Inl e)"
    | (fault) s' where "xvp_gup_virt_to_phys en virt sz s = (s', Inl Fault)"
    | (ok) p ps e am where "ret = int n" "?got = p # ps" "contiguous_in e ?got"
        "xvp_gup_virt_to_phys en virt sz s = (add_pages 1 ?got s, Inr am)"
        "am = \<lparr>am_vaddr = virt, am_size = sz, am_paddr = pfn_to_phys p + (virt AND (PAGE_SIZE - 1)),
               am_allocation = 0, am_type = ALIEN_GUP\<rparr>"
  proof (cases "INT_MAX < n \<or> \<not> en_kmalloc en \<or> ret < 0")
    case True
    then have "\<exists>e. xvp_gup_virt_to_phys en virt sz s = (s, Inl e)"
      unfolding xvp_gup_virt_to_phys_def Let_def n_def [symmetric] g by auto
    then show thesis using early by blast
  next
    case False
    then have u: "xvp_gup_virt_to_phys en virt sz s =
      (if ret < int n then (add_pages (-1) ?got (add_pages 1 ?got s), Error EINVAL)
       else case ?got of
           [] \<Rightarrow> (add_pages 1 ?got s, Oops)
         | p # ps \<Rightarrow>
             (case xrp_get_address_mapping (en_bsearch en) (en_map en) (pfn_to_phys p) of
                None \<Rightarrow> (add_pages (-1) ?got (add_pages 1 ?got s), Error EINVAL)
              | Some e \<Rightarrow>
                  if \<not> contiguous_in e ?got then (add_pages (-1) ?got (add_pages 1 ?got s), Error EINVAL)
                  else (add_pages 1 ?got s, Ok \<lparr>am_vaddr = virt, am_size = sz,
                                am_paddr = pfn_to_phys p + (virt AND (PAGE_SIZE - 1)),
                                am_allocation = 0, am_type = ALIEN_GUP\<rparr>)))"
      unfolding xvp_gup_virt_to_phys_def Let_def n_def [symmetric] g by (simp only: prod.case if_False de_Morgan_disj not_not) simp
    show thesis
    proof (cases "ret < int n")
      case True
      then show thesis using u undone by simp
    next
      case nlt: False
      show thesis
      proof (cases ?got)
        case Nil
        then show thesis using u nlt fault by (simp only: if_False list.case)
      next
        case (Cons p ps)
        show thesis
        proof (cases "xrp_get_address_mapping (en_bsearch en) (en_map en) (pfn_to_phys p)")
          case None
          then show thesis using u nlt undone Cons by (simp only: if_False list.case option.case)
        next
          case (Some e)
          have rn: "ret = int n" using nlt law(1) by simp
          note u' = u [simplified nlt, unfolded if_False Cons list.case Some option.case]
          show thesis
          proof (cases "contiguous_in e (p # ps)")
            case True
            then show thesis
              using u' by (intro ok [OF rn Cons _ _ refl, of e]) (simp_all add: Cons)
          next
            case False
            then show thesis using u' by (intro undone) (simp add: Cons)
          qed
        qed
      qed
    qed
  qed
  then show ?thesis
  proof cases
    case early
    then show ?thesis using h by simp
  next
    case undone
    then show ?thesis using undo by simp
  next
    case fault
    then show ?thesis by simp
  next
    case ok
    have "length ?got = n" using ok(1) law(2) by simp
    then have len: "Suc (length ps) = n" using ok(2) by simp
    have "p \<in> set pages" using ok(2) by (metis in_set_takeD list.set_intros(1))
    then have "PFN_DOWN (am_paddr am) = p" using law(3) ok(5) pfn_of_phys by simp
    then have eq: "phys_pages (am_paddr am) (page_count virt sz) = ?got"
      using contiguous_pages [of e p ps] ok(2,3) len by (simp add: phys_pages_def n_def del: upt_Suc)
    have use: "page_use (Alien am) q = int (count_list ?got q)" for q
      using ok(5) eq by (simp add: page_use_def)
    have "holds s0 (add_mset (Alien am) ms) (add_pages 1 ?got s)"
      using h ok(5) use by (intro holds_pages_plus [where s = s]) (simp_all add: native_of_def copy_of_def add_pages_def)
    then show ?thesis using ok eq by (auto simp: xrp_put_pages_def add_pages_def)
  qed
qed

lemma share_direct_holds:
  assumes h: "holds s0 ms s" and l: "share_laws en s0"
  shows "case share_direct en v virt sz s of
      (s', Inr am) \<Rightarrow> holds s0 (add_mset (Alien am) ms) s' \<and> am_vaddr am = virt
    | (s', Inl e) \<Rightarrow> e \<noteq> Fault \<longrightarrow> holds s0 ms s'"
proof -
  have pfn: "holds s0 (add_mset (Alien am) ms) s \<and> am_vaddr am = virt"
    if "xvp_pfn_virt_to_phys en w virt sz = Inr am" for w am
  proof -
    have "am_type am = ALIEN_PFN_MAP" "am_vaddr am = virt"
      using that by (auto simp: xvp_pfn_virt_to_phys_def Let_def split: sum.splits option.splits)
    then show ?thesis
      using h by (simp add: holds_plain native_of_def copy_of_def page_use_def)
  qed
  have put: "holds s0 ms (xrp_put_pages (am_paddr am) (page_count virt sz) s')"
    if "xvp_gup_virt_to_phys en virt sz s = (s', Inr am)" for s' am
    using gup_holds [OF h l, of virt sz] that h
    by (subst holds_same [where s = s]) (auto simp: xrp_put_pages_def add_pages_def)
  show ?thesis
    using gup_holds [OF h l, of virt sz] pfn put h
    by (auto simp: share_direct_def split: option.splits sum.splits prod.splits)
qed

lemma shadow_align_bounds: "unat (shadow_align v) \<le> 4096" "16 \<le> unat (shadow_align v)"
  by (auto simp: shadow_align_def Let_def word_le_nat_alt word_less_nat_alt)

lemma shadow_request:
  assumes "unat sz \<le> 0xFFFFE000"
  shows "(ucast (sz + shadow_align v) :: u32) \<le> MAX_REQUEST"
proof -
  have "unat (sz + shadow_align v) = unat sz + unat (shadow_align v)"
    using assms shadow_align_bounds [of v] by (intro unat_add_u64) simp
  then show ?thesis
    using assms shadow_align_bounds [of v] by (simp add: word_le_nat_alt unat_u64_u32 MAX_REQUEST_def)
qed

lemma copy_holds:
  assumes h: "holds s0 ms s" and b: "base_ok N s0" and sz: "unat sz \<le> 0xFFFFE000"
  shows "case xvp_copy_virt_to_phys en flags virt sz s of
      (s', Inr am) \<Rightarrow> am_vaddr am = virt \<and>
        (\<forall>m. alien_of m = Some am \<and> native_of m = None \<longrightarrow> holds s0 (add_mset m ms) s')
    | (s', Inl e) \<Rightarrow> e \<noteq> Fault \<longrightarrow> (\<exists>s1. loses en s0 s1 \<and> holds s1 ms s')"
proof -
  let ?al = "ucast (shadow_align virt) :: u32" and ?sz = "ucast (sz + shadow_align virt) :: u32"
  note al = holds_alloc [OF h b shadow_request [OF sz, of virt], of en ?al]
  obtain s1 r where a: "allocate_obj en ?sz ?al s = (s1, r)" by fastforce
  show ?thesis
  proof (cases r)
    case (Inl e)
    then show ?thesis using a Inl al by (simp add: xvp_copy_virt_to_phys_def Let_def)
  next
    case (Inr i)
    obtain o' where o: "ss_allocs s1 i = Some o'" using al a Inr by auto
    have good: "holds s0 (add_mset m ms) s1" if "copy_mapping i m" for m using al a Inr that by simp
    let ?ph = "shadow_phys virt (al_start o')"
    let ?am = "\<lparr>am_vaddr = virt, am_size = sz, am_paddr = ?ph, am_allocation = i, am_type = ALIEN_COPY\<rparr>"
    have cm: "copy_mapping i m" if "alien_of m = Some ?am" "native_of m = None" for m
      using that by (simp add: copy_mapping_def copy_of_def page_use_def)
    obtain s2 where p: "put_obj i s1 = (s2, Ok ())" "holds s0 ms s2"
      using holds_put_copy [OF good b, of "Alien ?am"] cm [of "Alien ?am"] by (auto simp: native_of_def)
    define c where "c = (if flags AND XRP_FLAG_READ \<noteq> 0 then xrp_copy_user_to_phys en virt sz ?ph else Ok ())"
    have u: "xvp_copy_virt_to_phys en flags virt sz s = (case c of
        Inl Fault \<Rightarrow> (s1, Oops) | Inl (Errno _) \<Rightarrow> (s2, Error EFAULT) | Inr _ \<Rightarrow> (s1, Ok ?am))"
      using a Inr o p(1) by (simp add: xvp_copy_virt_to_phys_def Let_def c_def [symmetric] split: sum.split err.split)
    show ?thesis
      unfolding u using good cm loses_none [OF p(2)] by (auto split: sum.split err.split)
  qed
qed

section \<open>Sharing and unsharing a block\<close>

lemma share_block_holds:
  assumes h: "holds s0 ms s" and b: "base_ok N s0" and l: "share_laws en s0" and sz: "unat sz \<le> 0xFFFFE000"
  shows "case xrp_share_block en virt sz flags old s of
      (s', mp, Inr _) \<Rightarrow> holds s0 (add_mset mp ms) s' \<and> mp \<noteq> Uninit
    | (s', mp, Inl e) \<Rightarrow> e \<noteq> Fault \<longrightarrow> (\<exists>s1. loses en s0 s1 \<and> holds s1 ms s') \<and> mp = old"
proof (cases "en_find_vma en virt")
  case None
  then show ?thesis using loses_none [OF h] by (simp add: xrp_share_block_def)
next
  case (Some v0)
  define count where "count = xvp_get_region_vma_count en virt sz v0"
  define v where "v = (if count = 1 then Some v0 else None)"
  show ?thesis
  proof (cases "count = 0")
    case True
    then show ?thesis using loses_none [OF h] Some by (simp add: xrp_share_block_def count_def)
  next
    case False
    show ?thesis
    proof (cases "native_phys en v virt sz")
      case (Some np)
      then obtain i phys where np: "native_phys en v virt sz = Some (i, phys)" by (cases np) auto
      then have "v = Some v0" "vm_file v0 = en_filp en \<or> en_known_file en (vm_file v0)" "i = vm_allocation v0"
        by (auto simp: native_phys_def v_def Let_def split: if_splits option.splits)
      then have "ss_allocs s0 i \<noteq> None" using l \<open>en_find_vma en virt = Some v0\<close> unfolding share_laws_def by blast
      then obtain s' where "get_obj i s = (s', Ok ())" "holds s0 (add_mset (Native i virt) ms) s'"
        using holds_get [OF h] by blast
      then show ?thesis
        using np False \<open>en_find_vma en virt = Some v0\<close> by (simp add: xrp_share_block_def Let_def count_def v_def)
    next
      case None
      have u: "xrp_share_block en virt sz flags old s =
        (case share_direct en v virt sz s of
           (s1, Inr am) \<Rightarrow>
             (s1, Alien am, Ok (am_paddr am + virt - am_vaddr am,
                                case v of None \<Rightarrow> True | Some w \<Rightarrow> vm_cache_ops w))
         | (s1, Inl Fault) \<Rightarrow> (s1, old, Oops)
         | (s1, Inl (Errno _)) \<Rightarrow>
             (case xvp_copy_virt_to_phys en flags virt sz s1 of
                (s2, Inr am) \<Rightarrow> (s2, Alien am, Ok (am_paddr am + virt - am_vaddr am, False))
              | (s2, Inl Fault) \<Rightarrow> (s2, old, Oops)
              | (s2, Inl (Errno _)) \<Rightarrow> (s2, old, Error EINVAL)))"
        unfolding xrp_share_block_def Let_def \<open>en_find_vma en virt = Some v0\<close> option.case
          count_def [symmetric] v_def [symmetric] None using False by (simp only: if_False)
      obtain s1 r where d: "share_direct en v virt sz s = (s1, r)" by fastforce
      show ?thesis
      proof (cases r)
        case (Inr am)
        then show ?thesis using share_direct_holds [OF h l, where v = v and virt = virt and sz = sz] d by (simp add: u)
      next
        case (Inl e)
        show ?thesis
        proof (cases e)
          case (Errno x)
          have h1: "holds s0 ms s1" using share_direct_holds [OF h l, where v = v and virt = virt and sz = sz] d Inl Errno by simp
          obtain s2 r2 where c: "xvp_copy_virt_to_phys en flags virt sz s1 = (s2, r2)" by fastforce
          show ?thesis
            using copy_holds [OF h1 b sz, where flags = flags and virt = virt and en = en] c d Inl Errno
            by (cases r2; cases "projl r2") (auto simp: u native_of_def)
        next
          case Fault
          then show ?thesis using d Inl by (simp add: u)
        qed
      qed
    qed
  qed
qed

lemma share_kernel_holds:
  assumes h: "holds s0 ms s" and b: "base_ok N s0" and sz: "unat sz \<le> 0xFFFFE000"
  shows "case xrp_share_kernel en virt sz flags s of
      (s', mp, Inr _) \<Rightarrow> holds s0 (add_mset mp ms) s' \<and> mp \<noteq> Uninit
    | (s', mp, Inl _) \<Rightarrow> mp = Uninit"
proof -
  have k: "native_of Kernel = None" "copy_of Kernel = None" "page_use Kernel p = 0" for p
    by (simp_all add: native_of_def copy_of_def page_use_def)
  show ?thesis
    using copy_holds [OF h b sz, where flags = flags and virt = virt and en = en] h
    by (auto simp: xrp_share_kernel_def Let_def holds_plain k native_of_def split: prod.splits sum.splits)
qed

text \<open>Unsharing a mapping that holds something never faults and gives back what it holds.\<close>

lemma writeback_holds:
  "\<exists>s' r. xrp_writeback_alien_mapping en am s = (s', r) \<and> r \<noteq> Oops \<and> (\<forall>s0 ms. holds s0 ms s' = holds s0 ms s) \<and>
    ss_pages s' = ss_pages s \<and> ss_pool s' = ss_pool s \<and> ss_allocs s' = ss_allocs s \<and> ss_next s' = ss_next s"
  by (cases "am_type am") (simp_all add: xrp_writeback_alien_mapping_def split: sum.split)

lemma destroy_holds:
  assumes "holds s0 (add_mset m ms) s" "base_ok N s0" "alien_of m = Some am"
  shows "\<exists>s'. xrp_alien_mapping_destroy am s = (s', Ok ()) \<and> holds s0 ms s'"
proof -
  have n: "native_of m = None" using assms(3) by (cases m) (simp_all add: native_of_def)
  show ?thesis
  proof (cases "am_type am")
    case ALIEN_GUP
    then show ?thesis
      using assms n holds_pages_minus [OF n _ assms(1)]
      by (simp add: xrp_alien_mapping_destroy_def copy_of_def page_use_def xrp_put_pages_def add_pages_def)
  next
    case ALIEN_PFN_MAP
    then show ?thesis
      using assms n by (simp add: xrp_alien_mapping_destroy_def copy_of_def page_use_def holds_plain)
  next
    case ALIEN_COPY
    then have "copy_mapping (am_allocation am) m"
      using assms(3) n by (simp add: copy_mapping_def copy_of_def page_use_def)
    then show ?thesis
      using holds_put_copy [OF assms(1,2)] ALIEN_COPY by (simp add: xrp_alien_mapping_destroy_def)
  qed
qed

lemma unshare_alien_holds:
  assumes "holds s0 (add_mset m ms) s" "base_ok N s0" "alien_of m = Some am"
  shows "\<exists>s' r. unshare_alien en am flags s = (s', r) \<and> r \<noteq> Oops \<and> holds s0 ms s'"
proof -
  obtain s1 r where w: "xrp_writeback_alien_mapping en am s = (s1, r)" "r \<noteq> Oops" "holds s0 (add_mset m ms) s1"
    using writeback_holds [of en am s] assms(1) by blast
  obtain s2 where "xrp_alien_mapping_destroy am s1 = (s2, Ok ())" "holds s0 ms s2"
    using destroy_holds [OF w(3) assms(2,3)] by blast
  moreover obtain s3 where "xrp_alien_mapping_destroy am s = (s3, Ok ())" "holds s0 ms s3"
    using destroy_holds [OF assms] by blast
  ultimately show ?thesis using w by (simp add: unshare_alien_def)
qed

lemma unshare_block_holds:
  assumes "holds s0 (add_mset m ms) s" "base_ok N s0" "size ms < N" "m \<noteq> Uninit"
  shows "\<exists>s' r. xrp_unshare_block en m flags s = (s', r) \<and> r \<noteq> Oops \<and> holds s0 ms s'"
proof -
  let ?s = "raise_limit en s"
  have h: "holds s0 (add_mset m ms) ?s" using assms(1) by (simp add: raise_limit_def)
  have al: "\<exists>s' r. unshare_alien en am flags ?s = (s', r) \<and> r \<noteq> Oops \<and> holds s0 ms s'" if "alien_of m = Some am" for am
    using unshare_alien_holds [OF h assms(2) that] .
  have plain: "holds s0 ms ?s" if "m = Mapping_None \<or> m = Kernel"
    using h that by (auto simp: holds_plain native_of_def copy_of_def page_use_def)
  have rest: "holds s0 ms (restore_limit en mp old s') = holds s0 ms s'" for mp old s'
    by (simp add: restore_limit_def)
  show ?thesis
  proof (cases m)
    case (Native i v)
    then show ?thesis
      using holds_put_native [of s0 i v ms ?s N] h assms(2,3) by (auto simp: xrp_unshare_block_def Let_def rest)
  qed (use assms(4) al plain in \<open>auto simp: xrp_unshare_block_def Let_def rest\<close>)
qed

lemma unshare_list_holds:
  assumes "holds s0 (mset (map fst ms) + ks) s" "base_ok N s0" "length ms + size ks \<le> N" "Uninit \<notin> fst ` set ms"
  shows "\<exists>s' r. unshare_list en ms s = (s', r) \<and> r \<noteq> Oops \<and> holds s0 ks s'"
  using assms
proof (induction ms arbitrary: s)
  case Nil
  then show ?case by simp
next
  case (Cons x ms)
  obtain mp flags where x: "x = (mp, flags)" by (cases x)
  have "holds s0 (add_mset mp (mset (map fst ms) + ks)) s" "mp \<noteq> Uninit" "size (mset (map fst ms) + ks) < N"
    using Cons.prems x by auto
  then obtain s1 r1 where s1: "xrp_unshare_block en mp flags s = (s1, r1)" "r1 \<noteq> Oops"
      "holds s0 (mset (map fst ms) + ks) s1"
    using unshare_block_holds [of s0 mp "mset (map fst ms) + ks" s N en flags] Cons.prems(2) by blast
  obtain s2 r2 where s2: "unshare_list en ms s1 = (s2, r2)" "r2 \<noteq> Oops" "holds s0 ks s2"
    using Cons.IH [OF s1(3) Cons.prems(2)] Cons.prems(3,4) by auto
  show ?case
    using s1 s2 x by (cases r1; cases r2; cases "projl r1") auto
qed

section \<open>Whole requests\<close>

text \<open>The mappings of a request that was mapped, and what every stage keeps of a request.\<close>

definition request_mappings :: "nat \<Rightarrow> request \<Rightarrow> mapping list" where
  "request_mappings n rq =
     (if in_shared rq then [rq_in_mapping rq] else []) @
     (if out_shared rq then [rq_out_mapping rq] else []) @
     rq_buffer_mapping rq @
     (if INLINE_BUFFER_COUNT < n then [rq_dsp_mapping rq] else [])"

definition sizes_ok :: "user_env \<Rightarrow> nat \<Rightarrow> ioctl_queue \<Rightarrow> bool" where
  "sizes_ok us n q = (unat (q_in_data_size q) \<le> 0xFFFFE000 \<and> unat (q_out_data_size q) \<le> 0xFFFFE000 \<and>
     n * 12 \<le> 0xFFFFE000 \<and> (\<forall>i < n. \<forall>b. us_buffer us i = Some b \<longrightarrow> unat (ib_size b) \<le> 0xFFFFE000))"

definition mapped :: "share_state \<Rightarrow> mapping list \<Rightarrow> share_state \<Rightarrow> bool" where
  "mapped s0 ms s = (holds s0 (mset ms) s \<and> Uninit \<notin> set ms)"

lemma loses_none_mapped: "mapped s0 ks s \<Longrightarrow> \<exists>s1. loses en s0 s1 \<and> mapped s1 ks s"
  using loses_refl by blast

lemma mapped_plain: "mapped s0 (ms @ replicate k Mapping_None) s = mapped s0 ms s"
proof -
  have "holds s0 (replicate_mset k Mapping_None + ms) s = holds s0 ms s" for ms :: "mapping multiset"
    by (induction k) (simp_all add: holds_plain native_of_def copy_of_def page_use_def)
  then show ?thesis by (auto simp: mapped_def add.commute)
qed

lemma add_mset_put: "i < length xs \<Longrightarrow> add_mset (xs ! i) (mset (xs[i := x])) = add_mset x (mset xs)"
  by (simp add: mset_update)

lemma map_buffers_holds:
  assumes "mapped s0 (rq_buffer_mapping rq @ ks) s" "base_ok N s0" "share_laws en s0"
    "length (rq_buffer_mapping rq) = i + k" "\<forall>j. i \<le> j \<and> j < i + k \<longrightarrow> rq_buffer_mapping rq ! j = Mapping_None"
    "\<forall>j < i + k. \<forall>b. us_buffer us j = Some b \<longrightarrow> unat (ib_size b) \<le> 0xFFFFE000"
  shows "case map_buffers en us i k rq s of (s', rq', r) \<Rightarrow>
      r \<noteq> Oops \<longrightarrow> (\<exists>s1. loses en s0 s1 \<and> (r = Ok () \<longrightarrow> s1 = s0) \<and> mapped s1 (rq_buffer_mapping rq' @ ks) s') \<and> length (rq_buffer_mapping rq') = i + k \<and>
      length (rq_dsp_buffer rq') = length (rq_dsp_buffer rq) \<and>
      rq_in_mapping rq' = rq_in_mapping rq \<and> rq_out_mapping rq' = rq_out_mapping rq \<and>
      rq_dsp_mapping rq' = rq_dsp_mapping rq \<and> rq_queue rq' = rq_queue rq"
  using assms
proof (induction k arbitrary: i rq s)
  case 0
  then show ?case by simp
next
  case (Suc k)
  show ?case
  proof (cases "us_buffer us i")
    case None
    then show ?thesis using Suc.prems loses_none_mapped [OF Suc.prems(1)] by simp
  next
    case (Some b)
    have li: "i < length (rq_buffer_mapping rq)" "rq_buffer_mapping rq ! i = Mapping_None"
      using Suc.prems(4,5) by auto
    have bs: "unat (ucast (ib_size b) :: u64) \<le> 0xFFFFE000" using spec [OF Suc.prems(6), of i] Some by simp
    have h: "holds s0 (mset (rq_buffer_mapping rq @ ks)) s" "Uninit \<notin> set (rq_buffer_mapping rq @ ks)"
      using Suc.prems(1) by (simp_all add: mapped_def)
    define sh where "sh = (if ucast (ib_flags b) AND XRP_FLAG_READ_WRITE \<noteq> 0
       then xrp_share_block en (ib_addr b) (ucast (ib_size b)) (ucast (ib_flags b)) (rq_buffer_mapping rq ! i) s
       else (s, Mapping_None, Ok (no_phys, False)))"
    obtain s1 mp r where e: "sh = (s1, mp, r)" by (cases sh)
    have law: "case r of Inr _ \<Rightarrow> holds s0 (add_mset mp (mset (rq_buffer_mapping rq @ ks))) s1 \<and> mp \<noteq> Uninit
        | Inl e \<Rightarrow> e \<noteq> Fault \<longrightarrow> (\<exists>t. loses en s0 t \<and> holds t (mset (rq_buffer_mapping rq @ ks)) s1)"
    proof (cases "ucast (ib_flags b) AND XRP_FLAG_READ_WRITE \<noteq> 0")
      case True
      then show ?thesis
        using share_block_holds [OF h(1) Suc.prems(2,3) bs, where virt = "ib_addr b" and flags = "ucast (ib_flags b)" and old = "rq_buffer_mapping rq ! i"] e
        by (cases r) (auto simp: sh_def)
    next
      case False
      then have "s1 = s" "mp = Mapping_None" "r = Ok (no_phys, False)" using e by (auto simp: sh_def)
      then show ?thesis using h by (simp add: holds_plain native_of_def copy_of_def page_use_def)
    qed
    have u: "map_buffers en us i (Suc k) rq s = (case (s1, mp, r) of
            (s1, mp, Inl e) \<Rightarrow> (s1, rq, Inl e)
          | (s1, mp, Inr (phys, _)) \<Rightarrow>
              map_buffers en us (i + 1) k
                (rq\<lparr>rq_buffer_mapping := (rq_buffer_mapping rq)[i := mp],
                    rq_dsp_buffer := (rq_dsp_buffer rq)[i := \<lparr>db_flags = ib_flags b, db_size = ib_size b,
                       db_addr = xrp_translate_to_dsp (en_bsearch en) (en_map en) phys\<rparr>]\<rparr>) s1)"
      by (simp only: e [symmetric] sh_def map_buffers.simps Some option.case li(1) if_True)
    show ?thesis
    proof (cases r)
      case (Inl er)
      then show ?thesis using u law Suc.prems(4) h by (auto simp: mapped_def)
    next
      case (Inr pf)
      obtain phys fl where pf: "pf = (phys, fl)" by (cases pf)
      let ?rq = "rq\<lparr>rq_buffer_mapping := (rq_buffer_mapping rq)[i := mp],
                    rq_dsp_buffer := (rq_dsp_buffer rq)[i := \<lparr>db_flags = ib_flags b, db_size = ib_size b,
                       db_addr = xrp_translate_to_dsp (en_bsearch en) (en_map en) phys\<rparr>]\<rparr>"
      have "add_mset Mapping_None (mset (rq_buffer_mapping ?rq @ ks)) = add_mset mp (mset (rq_buffer_mapping rq @ ks))"
        using add_mset_put [OF li(1), of mp] li(2) by (simp flip: union_mset_add_mset_left)
      then have "holds s0 (add_mset Mapping_None (mset (rq_buffer_mapping ?rq @ ks))) s1"
        using law Inr by (simp only: sum.case simp_thms)
      then have h1: "holds s0 (mset (rq_buffer_mapping ?rq @ ks)) s1"
        by (simp only: holds_plain native_of_def copy_of_def page_use_def alien_of.simps mapping.case option.case simp_thms)
      have "Uninit \<notin> set (rq_buffer_mapping ?rq @ ks)"
        using h(2) law Inr by (auto dest!: set_update_subset_insert [THEN subsetD])
      then have "mapped s0 (rq_buffer_mapping ?rq @ ks) s1" using h1 by (simp only: mapped_def simp_thms)
      moreover have "\<forall>j. i + 1 \<le> j \<and> j < i + 1 + k \<longrightarrow> rq_buffer_mapping ?rq ! j = Mapping_None"
        using Suc.prems(5) by simp
      ultimately show ?thesis
        using Suc.IH [of ?rq s1 "i + 1"] Suc.prems(2,3,4,6) u Inr pf by (simp del: map_buffers.simps)
    qed
  qed
qed


lemma map_in_holds:
  assumes "mapped s0 ks s" "base_ok N s0" "share_laws en s0" "unat (q_in_data_size (rq_queue rq)) \<le> 0xFFFFE000"
  shows "case map_in en us rq s of (s', rq', r) \<Rightarrow>
      (r = Ok () \<longrightarrow> mapped s0 ((if in_shared rq then [rq_in_mapping rq'] else []) @ ks) s') \<and>
      (r \<noteq> Ok () \<longrightarrow> r \<noteq> Oops \<longrightarrow> (\<exists>s1. loses en s0 s1 \<and> mapped s1 ks s') \<and> rq_in_mapping rq' = rq_in_mapping rq) \<and>
      rq_queue rq' = rq_queue rq \<and> rq_out_mapping rq' = rq_out_mapping rq \<and> rq_dsp_mapping rq' = rq_dsp_mapping rq \<and>
      rq_buffer_mapping rq' = rq_buffer_mapping rq \<and> rq_dsp_buffer rq' = rq_dsp_buffer rq"
proof (cases "in_shared rq")
  case True
  have h: "holds s0 (mset ks) s" "Uninit \<notin> set ks" using assms(1) by (simp_all add: mapped_def)
  have sz: "unat (ucast (q_in_data_size (rq_queue rq)) :: u64) \<le> 0xFFFFE000" using assms(4) by simp
  note law = share_block_holds [OF h(1) assms(2,3) sz, where virt = "q_in_data_addr (rq_queue rq)" and
      flags = XRP_FLAG_READ and old = "rq_in_mapping rq"]
  show ?thesis
    using True law h(2) by (auto simp: map_in_def mapped_def split: prod.splits sum.splits)
next
  case False
  then show ?thesis using assms(1) loses_none_mapped [OF assms(1)] by (auto simp: map_in_def split: option.splits)
qed

lemma map_out_holds:
  assumes "mapped s0 ks s" "base_ok N s0" "share_laws en s0" "unat (q_out_data_size (rq_queue rq)) \<le> 0xFFFFE000"
  shows "case map_out en rq s of (s', rq', r) \<Rightarrow>
      (r = Ok () \<longrightarrow> mapped s0 ((if out_shared rq then [rq_out_mapping rq'] else []) @ ks) s') \<and>
      (r \<noteq> Ok () \<longrightarrow> r \<noteq> Oops \<longrightarrow> out_shared rq \<and> rq_out_mapping rq' = rq_out_mapping rq) \<and>
      rq_queue rq' = rq_queue rq \<and> rq_in_mapping rq' = rq_in_mapping rq \<and> rq_dsp_mapping rq' = rq_dsp_mapping rq \<and>
      rq_buffer_mapping rq' = rq_buffer_mapping rq \<and> rq_dsp_buffer rq' = rq_dsp_buffer rq"
proof (cases "out_shared rq")
  case True
  have h: "holds s0 (mset ks) s" "Uninit \<notin> set ks" using assms(1) by (simp_all add: mapped_def)
  have sz: "unat (ucast (q_out_data_size (rq_queue rq)) :: u64) \<le> 0xFFFFE000" using assms(4) by simp
  note law = share_block_holds [OF h(1) assms(2,3) sz, where virt = "q_out_data_addr (rq_queue rq)" and
      flags = XRP_FLAG_WRITE and old = "rq_out_mapping rq"]
  show ?thesis
    using True law h(2) by (auto simp: map_out_def mapped_def split: prod.splits sum.splits)
next
  case False
  then show ?thesis using assms(1) by (simp add: map_out_def)
qed

lemma map_descriptors_holds:
  assumes "mapped s0 ks s" "base_ok N s0" "n * 12 \<le> 0xFFFFE000"
  shows "case map_descriptors en us n rq s of (s', rq', r) \<Rightarrow>
      (r = Ok () \<longrightarrow> mapped s0 ((if INLINE_BUFFER_COUNT < n then [rq_dsp_mapping rq'] else []) @ ks) s') \<and>
      (r \<noteq> Ok () \<longrightarrow> INLINE_BUFFER_COUNT < n \<and> rq_dsp_mapping rq' = Uninit) \<and>
      rq_queue rq' = rq_queue rq \<and> rq_in_mapping rq' = rq_in_mapping rq \<and> rq_out_mapping rq' = rq_out_mapping rq \<and>
      rq_buffer_mapping rq' = rq_buffer_mapping rq \<and> rq_dsp_buffer rq' = rq_dsp_buffer rq"
proof (cases "INLINE_BUFFER_COUNT < n")
  case True
  have h: "holds s0 (mset ks) s" "Uninit \<notin> set ks" using assms(1) by (simp_all add: mapped_def)
  have "unat (of_nat (n * 12) :: u64) = n * 12"
    using assms(3) by (intro of_nat_inverse [OF refl]) simp
  then have sz: "unat (of_nat (n * 12) :: u64) \<le> 0xFFFFE000" using assms(3) by simp
  note law = share_kernel_holds [OF h(1) assms(2) sz, where virt = "us_dsp_buffer_virt us" and
      flags = XRP_FLAG_READ_WRITE]
  obtain s1 mp r where k: "xrp_share_kernel en (us_dsp_buffer_virt us) (of_nat (n * 12)) XRP_FLAG_READ_WRITE s = (s1, mp, r)"
    by (metis prod.collapse)
  have u: "map_descriptors en us n rq s = (case (s1, mp, r) of
           (s1, mp, Inl e) \<Rightarrow> (s1, rq\<lparr>rq_dsp_mapping := mp\<rparr>, Inl e)
         | (s1, mp, Inr phys) \<Rightarrow> (s1, rq\<lparr>rq_dsp_mapping := mp, rq_dsp_buffer_phys := phys\<rparr>, Ok ()))"
    by (simp only: map_descriptors_def True if_True k)
  show ?thesis
    unfolding u using law [of en, unfolded k] True h(2) by (cases r) (auto simp: mapped_def)
next
  case False
  then show ?thesis using assms(1) by (simp add: map_descriptors_def)
qed

lemma mapped_mset: "mset as = mset bs \<Longrightarrow> mapped s0 as s = mapped s0 bs s"
  by (metis mapped_def set_mset_mset)

lemma map_stages_holds:
  assumes "base_ok N s0" "share_laws en s0" "sizes_ok us n (rq_queue rq)"
    "rq_buffer_mapping rq = replicate n Mapping_None" "length (rq_dsp_buffer rq) = n"
    "rq_in_mapping rq = Uninit" "rq_out_mapping rq = Uninit" "rq_dsp_mapping rq = Uninit"
    "map_stages en us n rq s0 = (s', rq', r)" "r \<noteq> Oops"
  shows "length (rq_buffer_mapping rq') = n \<and> length (rq_dsp_buffer rq') = n \<and> rq_queue rq' = rq_queue rq \<and>
    ((\<exists>t. loses en s0 t \<and> (r = Ok () \<longrightarrow> t = s0) \<and> mapped t (request_mappings n rq') s') \<or>
     r \<noteq> Ok () \<and> Uninit \<in> set (request_mappings n rq'))"
proof -
  have start: "mapped s0 (replicate n Mapping_None) s0"
    using mapped_plain [of s0 "[]" n s0] holds_empty [OF assms(1)] by (simp add: mapped_def)
  obtain s1 rq1 r1 where i: "map_in en us rq s0 = (s1, rq1, r1)" by (cases "map_in en us rq s0")
  obtain s2 rq2 r2 where o: "map_out en rq1 s1 = (s2, rq2, r2)" by (cases "map_out en rq1 s1")
  obtain s3 rq3 r3 where b: "map_buffers en us 0 n rq2 s2 = (s3, rq3, r3)" by (cases "map_buffers en us 0 n rq2 s2")
  obtain s4 rq4 r4 where d: "map_descriptors en us n rq3 s3 = (s4, rq4, r4)" by (cases "map_descriptors en us n rq3 s3")
  let ?I = "\<lambda>rq'. if in_shared rq then [rq_in_mapping rq'] else []"
  let ?O = "\<lambda>rq'. if out_shared rq then [rq_out_mapping rq'] else []"
  let ?D = "\<lambda>rq'. if INLINE_BUFFER_COUNT < n then [rq_dsp_mapping rq'] else []"
  have sz: "unat (q_in_data_size (rq_queue rq)) \<le> 0xFFFFE000" "unat (q_out_data_size (rq_queue rq)) \<le> 0xFFFFE000"
    "n * 12 \<le> 0xFFFFE000" "\<forall>j < 0 + n. \<forall>b. us_buffer us j = Some b \<longrightarrow> unat (ib_size b) \<le> 0xFFFFE000"
    using assms(3) by (simp_all add: sizes_ok_def)
  have in_law: "(r1 = Ok () \<longrightarrow> mapped s0 (?I rq1 @ replicate n Mapping_None) s1)"
    "r1 \<noteq> Ok () \<longrightarrow> r1 \<noteq> Oops \<longrightarrow> (\<exists>t. loses en s0 t \<and> mapped t (replicate n Mapping_None) s1) \<and> rq_in_mapping rq1 = Uninit"
    "rq_queue rq1 = rq_queue rq" "rq_out_mapping rq1 = Uninit" "rq_dsp_mapping rq1 = Uninit"
    "rq_buffer_mapping rq1 = replicate n Mapping_None" "length (rq_dsp_buffer rq1) = n"
    using map_in_holds [OF start assms(1,2) sz(1), of us] i assms(4-8) by simp_all
  show ?thesis
  proof (cases "r1 = Ok ()")
    case False
    then have e: "rq' = rq1" "s' = s1" "r = r1" using assms(9) i by (auto simp: map_stages_def split: sum.splits)
    then show ?thesis using False in_law assms(10) by (auto simp: request_mappings_def)
  next
    case r1: True
    note m1 = in_law(1) [rule_format, OF r1]
    have out_law: "r2 = Ok () \<longrightarrow> mapped s0 (?O rq2 @ ?I rq2 @ replicate n Mapping_None) s2"
      "r2 \<noteq> Ok () \<longrightarrow> r2 \<noteq> Oops \<longrightarrow> out_shared rq \<and> rq_out_mapping rq2 = Uninit"
      "rq_queue rq2 = rq_queue rq" "rq_in_mapping rq2 = rq_in_mapping rq1" "rq_dsp_mapping rq2 = Uninit"
      "rq_buffer_mapping rq2 = replicate n Mapping_None" "length (rq_dsp_buffer rq2) = n"
      using map_out_holds [OF m1 assms(1,2), of rq1] sz(2) o in_law(3-) by (simp_all split del: if_split cong: if_cong)
    show ?thesis
    proof (cases "r2 = Ok ()")
      case False
      then have e: "rq' = rq2" "s' = s2" "r = r2"
        using assms(9) i o r1 by (auto simp: map_stages_def split: sum.splits)
      then show ?thesis using False out_law assms(10) by (auto simp: request_mappings_def)
    next
      case r2: True
      have m2: "mapped s0 (rq_buffer_mapping rq2 @ (?O rq2 @ ?I rq2)) s2"
        using out_law(1) r2 by (subst mapped_mset [where bs = "?O rq2 @ ?I rq2 @ replicate n Mapping_None"]) (simp_all add: out_law(6))
      have buf_law: "r3 \<noteq> Oops \<longrightarrow>
          (\<exists>t. loses en s0 t \<and> (r3 = Ok () \<longrightarrow> t = s0) \<and> mapped t (rq_buffer_mapping rq3 @ (?O rq2 @ ?I rq2)) s3) \<and>
          length (rq_buffer_mapping rq3) = n \<and> length (rq_dsp_buffer rq3) = n \<and>
          rq_in_mapping rq3 = rq_in_mapping rq2 \<and> rq_out_mapping rq3 = rq_out_mapping rq2 \<and>
          rq_dsp_mapping rq3 = Uninit \<and> rq_queue rq3 = rq_queue rq"
        using map_buffers_holds [OF m2 assms(1,2) _ _ sz(4)] b out_law by (simp split del: if_split cong: if_cong)
      show ?thesis
      proof (cases "r3 = Ok ()")
        case False
        then have e: "rq' = rq3" "s' = s3" "r = r3"
          using assms(9) i o b r1 r2 by (auto simp: map_stages_def split: sum.splits)
        obtain t where t: "loses en s0 t" "mapped t (rq_buffer_mapping rq3 @ (?O rq2 @ ?I rq2)) s3"
          using buf_law e(3) assms(10) by blast
        have "mapped t (?I rq3 @ ?O rq3 @ rq_buffer_mapping rq3) s3"
          using buf_law t(2) e(3) assms(10)
          by (subst mapped_mset [where bs = "rq_buffer_mapping rq3 @ (?O rq2 @ ?I rq2)"]) auto
        then show ?thesis using False e t(1) buf_law assms(10) by (auto simp: request_mappings_def)
      next
        case r3: True
        have e: "rq' = rq4" "s' = s4" "r = r4"
          using assms(9) i o b d r1 r2 r3 by (auto simp: map_stages_def)
        have m3: "mapped s0 (rq_buffer_mapping rq3 @ (?O rq2 @ ?I rq2)) s3" using buf_law r3 by simp
        note law = map_descriptors_holds [OF m3 assms(1) sz(3), where en = en and us = us and rq = rq3, unfolded d prod.case]
        have k: "rq_queue rq4 = rq_queue rq" "rq_in_mapping rq4 = rq_in_mapping rq2" "rq_out_mapping rq4 = rq_out_mapping rq2"
          "rq_buffer_mapping rq4 = rq_buffer_mapping rq3" "length (rq_dsp_buffer rq4) = n" "length (rq_buffer_mapping rq4) = n"
          using law buf_law r3 by auto
        have m4: "r4 = Ok () \<Longrightarrow> mapped s0 (?D rq4 @ rq_buffer_mapping rq3 @ (?O rq2 @ ?I rq2)) s4"
          "r4 \<noteq> Ok () \<Longrightarrow> INLINE_BUFFER_COUNT < n \<and> rq_dsp_mapping rq4 = Uninit" using law by blast+
        have fin: "mapped s0 (request_mappings n rq4) s4" if "r4 = Ok ()"
          using m4(1) [OF that] k
          by (subst mapped_mset [where bs = "?D rq4 @ rq_buffer_mapping rq3 @ (?O rq2 @ ?I rq2)"])
             (auto simp: request_mappings_def)
        have bad: "Uninit \<in> set (request_mappings n rq4)" if "r4 \<noteq> Ok ()"
          using m4(2) [OF that] by (simp add: request_mappings_def)
        show ?thesis unfolding e using fin bad k loses_refl [of en s0] by blast
      qed
    qed
  qed
qed

text \<open>With the array of the buffer mappings null, every stage leaves it so.\<close>

lemma map_buffers_null:
  "map_buffers en us i k rq s = (s', rq', r) \<Longrightarrow> rq_buffer_mapping rq = [] \<Longrightarrow>
    rq_buffer_mapping rq' = [] \<and> length (rq_dsp_buffer rq') = length (rq_dsp_buffer rq)"
  by (induction k arbitrary: i rq s) (fastforce split: option.splits prod.splits sum.splits if_splits)+

lemma map_stages_null:
  assumes "map_stages en us n rq s = (s', rq', r)" "rq_buffer_mapping rq = []"
  shows "rq_buffer_mapping rq' = [] \<and> length (rq_dsp_buffer rq') = length (rq_dsp_buffer rq)"
proof -
  have i: "rq_buffer_mapping q' = rq_buffer_mapping q \<and> rq_dsp_buffer q' = rq_dsp_buffer q"
    if "map_in en us q t = (t', q', x)" for q t t' q' x
    using that by (auto simp: map_in_def split: if_splits option.splits prod.splits sum.splits)
  have o: "rq_buffer_mapping q' = rq_buffer_mapping q \<and> rq_dsp_buffer q' = rq_dsp_buffer q"
    if "map_out en q t = (t', q', x)" for q t t' q' x
    using that by (auto simp: map_out_def split: if_splits prod.splits sum.splits)
  have d: "rq_buffer_mapping q' = rq_buffer_mapping q \<and> rq_dsp_buffer q' = rq_dsp_buffer q"
    if "map_descriptors en us n q t = (t', q', x)" for q t t' q' x
    using that by (auto simp: map_descriptors_def split: if_splits prod.splits sum.splits)
  obtain s1 rq1 r1 where a: "map_in en us rq s = (s1, rq1, r1)" by (cases "map_in en us rq s")
  obtain s2 rq2 r2 where b: "map_out en rq1 s1 = (s2, rq2, r2)" by (cases "map_out en rq1 s1")
  obtain s3 rq3 r3 where c: "map_buffers en us 0 n rq2 s2 = (s3, rq3, r3)" by (cases "map_buffers en us 0 n rq2 s2")
  obtain s4 rq4 r4 where e: "map_descriptors en us n rq3 s3 = (s4, rq4, r4)" by (cases "map_descriptors en us n rq3 s3")
  have m: "rq_buffer_mapping rq1 = [] \<and> length (rq_dsp_buffer rq1) = length (rq_dsp_buffer rq)"
    "rq_buffer_mapping rq2 = [] \<and> length (rq_dsp_buffer rq2) = length (rq_dsp_buffer rq)"
    using i [OF a] o [OF b] assms(2) by simp_all
  then have "rq_buffer_mapping rq3 = [] \<and> length (rq_dsp_buffer rq3) = length (rq_dsp_buffer rq)"
    using map_buffers_null [OF c] by simp
  moreover from this have "rq_buffer_mapping rq4 = [] \<and> length (rq_dsp_buffer rq4) = length (rq_dsp_buffer rq)"
    using d [OF e] by simp
  ultimately show ?thesis
    using assms(1) m a b c e by (auto simp: map_stages_def split: sum.splits)
qed


lemma unshare_list_uninit: "Uninit \<in> fst ` set ms \<Longrightarrow> snd (unshare_list en ms s) = Oops"
proof (induction ms arbitrary: s)
  case Nil
  then show ?case by simp
next
  case (Cons x ms)
  obtain mp flags where x: "x = (mp, flags)" by (cases x)
  show ?case
  proof (cases "mp = Uninit")
    case True
    then show ?thesis using x by (simp add: xrp_unshare_block_def Let_def)
  next
    case False
    then have "Uninit \<in> fst ` set ms" using Cons.prems x by auto
    obtain s1 r1 where s1: "xrp_unshare_block en mp flags s = (s1, r1)" by fastforce
    obtain s2 where "unshare_list en ms s1 = (s2, Oops)"
      using Cons.IH [OF \<open>Uninit \<in> fst ` set ms\<close>, of s1] by (metis prod.collapse)
    then show ?thesis using s1 x by (cases r1; cases "projl r1") auto
  qed
qed

lemma not_oops_case:
  "r \<noteq> Oops \<Longrightarrow> (case r of Inl e \<Rightarrow> (case e of Errno x \<Rightarrow> b | Fault \<Rightarrow> a) | Inr _ \<Rightarrow> b) = b"
  by (auto split: sum.splits err.splits)

lemma not_oops_cases:
  "r \<noteq> Oops \<Longrightarrow> (\<And>x. r = Ok x \<Longrightarrow> P) \<Longrightarrow> (\<And>x. r = Error x \<Longrightarrow> P) \<Longrightarrow> P"
  by (cases r; cases "projl r") auto

lemma nowb_list_mappings:
  assumes "length (rq_buffer_mapping rq) = n"
  shows "map fst (nowb_list n rq) = request_mappings n rq"
  using assms by (simp add: nowb_list_def request_mappings_def buffer_mappings_def comp_def)

lemma unmap_nowb_holds:
  assumes "mapped s0 (request_mappings n rq) s" "base_ok (n + 3) s0" "length (rq_buffer_mapping rq) = n"
  shows "\<exists>s'. xrp_unmap_request_nowb en n rq s = (s', Ok ()) \<and> holds s0 {#} s'"
proof -
  have l: "map fst (nowb_list n rq) = request_mappings n rq" using nowb_list_mappings [OF assms(3)] .
  have "length (nowb_list n rq) = length (request_mappings n rq)" using l by (metis length_map)
  then have "length (nowb_list n rq) + size {#} \<le> n + 3" using assms(3) by (simp add: request_mappings_def)
  moreover have "fst ` set (nowb_list n rq) = set (request_mappings n rq)" using l by (metis set_map)
  moreover have "holds s0 (mset (map fst (nowb_list n rq)) + {#}) s" using assms(1) l by (simp add: mapped_def)
  ultimately obtain s' r where "unshare_list en (nowb_list n rq) s = (s', r)" "r \<noteq> Oops" "holds s0 {#} s'"
    using unshare_list_holds [of s0 "nowb_list n rq" "{#}" s "n + 3" en] assms(1,2) by (auto simp: mapped_def)
  then show ?thesis by (auto simp: xrp_unmap_request_nowb_def split: sum.splits err.splits)
qed

lemma unmap_holds:
  assumes "mapped s0 (request_mappings n rq) s" "base_ok (n + 3) s0" "length (rq_buffer_mapping rq) = n"
    "length (rq_dsp_buffer rq) = n"
  shows "\<exists>s' r. xrp_unmap_request en us n rq s = (s', r) \<and> r \<noteq> Oops \<and> holds s0 {#} s'"
proof -
  let ?B = "rq_buffer_mapping rq"
  let ?I = "if in_shared rq then [rq_in_mapping rq] else []"
  let ?O = "if out_shared rq then [rq_out_mapping rq] else []"
  let ?D = "if INLINE_BUFFER_COUNT < n then [rq_dsp_mapping rq] else []"
  have h0: "holds s0 (mset ?I + (mset ?O + (mset ?D + mset ?B))) s"
    and u: "Uninit \<notin> set ?I" "Uninit \<notin> set ?O" "Uninit \<notin> set ?D" "Uninit \<notin> set ?B"
    using assms(1) by (simp_all add: mapped_def request_mappings_def ac_simps split: if_splits)
  define step where "step b mp f t = (if b then xrp_unshare_block en mp f t else (t, Ok ()))"
    for b mp f and t :: share_state
  have st: "\<exists>s' r. step b mp f t = (s', r) \<and> r \<noteq> Oops \<and> holds s0 ks s'"
    if "holds s0 (mset (if b then [mp] else []) + ks) t" "Uninit \<notin> set (if b then [mp] else [])" "size ks < n + 3"
    for b mp f t ks
    using that unshare_block_holds [of s0 mp ks t "n + 3" en f] assms(2) by (cases b) (auto simp: step_def)
  have len: "size (mset ?D + mset ?B) < n + 3" "size (mset ?O + (mset ?D + mset ?B)) < n + 3" "size (mset ?B) < n + 3"
    using assms(3) by simp_all
  obtain s1 r1 where s1: "step (in_shared rq) (rq_in_mapping rq) XRP_FLAG_READ s = (s1, r1)" "r1 \<noteq> Oops"
      "holds s0 (mset ?O + (mset ?D + mset ?B)) s1"
    using st [OF h0 u(1) len(2)] by blast
  obtain s2 r2 where s2: "step (out_shared rq) (rq_out_mapping rq) XRP_FLAG_WRITE s1 = (s2, r2)" "r2 \<noteq> Oops"
      "holds s0 (mset ?D + mset ?B) s2"
    using st [OF s1(3) u(2) len(1)] by blast
  obtain s3 r3 where s3: "step (INLINE_BUFFER_COUNT < n) (rq_dsp_mapping rq) XRP_FLAG_READ_WRITE s2 = (s3, r3)"
      "r3 \<noteq> Oops" "holds s0 (mset ?B) s3"
    using st [OF s2(3) u(3) len(3)] by blast
  let ?zs = "zip (buffer_mappings n rq) (map (\<lambda>b. ucast (db_flags b) :: u64) (rq_dsp_buffer rq))"
  have z: "map fst ?zs = ?B" using assms(3,4) by (simp add: buffer_mappings_def)
  have zl: "length ?zs + size {#} \<le> n + 3" using assms(3,4) by (simp add: buffer_mappings_def)
  have zu: "Uninit \<notin> fst ` set ?zs" using z u(4) by (metis set_map)
  have z4: "holds s0 (mset (map fst ?zs) + {#}) s3" using s3(3) z by simp
  obtain s4 r4 where s4: "unshare_list en ?zs s3 = (s4, r4)" "r4 \<noteq> Oops" "holds s0 {#} s4"
    using unshare_list_holds [OF z4 assms(2) zl zu] by blast
  obtain r2' where o: "(if out_shared rq then xrp_unshare_block en (rq_out_mapping rq) XRP_FLAG_WRITE s1
      else (s1, if us_copy_out us then Ok () else Error EFAULT)) = (s2, r2')" "r2' \<noteq> Oops"
    using s2(1,2) by (cases "out_shared rq") (auto simp: step_def)
  note eqs = s1(1) [unfolded step_def] o(1) s3(1) [unfolded step_def] s4(1)
  note r3 = not_oops_case [OF s3(2)]
  show ?thesis
  proof (rule not_oops_cases [OF o(2)])
    fix x assume "r2' = Ok x"
    then show ?thesis
      unfolding xrp_unmap_request_def eqs prod.case not_oops_case [OF s1(2)]
      using s4(2,3) by (auto simp only: sum.case err.case eqs prod.case r3 split: sum.splits err.splits)
  next
    fix x assume "r2' = Error x"
    then show ?thesis
      unfolding xrp_unmap_request_def eqs prod.case not_oops_case [OF s1(2)]
      using s4(2,3) by (auto simp only: sum.case err.case eqs prod.case r3 split: sum.splits err.splits)
  qed
qed

section \<open>What the requests guarantee\<close>

text \<open>With the array of the buffer mappings null and a buffer in the request, unsharing faults.\<close>

lemma buffer_mappings_null:
  "rq_buffer_mapping rq = [] \<Longrightarrow> buffer_mappings n rq = replicate n Uninit"
  by (simp add: buffer_mappings_def)

lemma unmap_nowb_null:
  assumes "rq_buffer_mapping rq = []" "n \<noteq> 0"
  shows "snd (xrp_unmap_request_nowb en n rq s) = Oops"
proof -
  have "Uninit \<in> fst ` set (nowb_list n rq)"
    using assms(2) by (force simp: nowb_list_def buffer_mappings_null [OF assms(1)])
  then have "snd (unshare_list en (nowb_list n rq) s) = Oops" by (rule unshare_list_uninit)
  then show ?thesis by (cases "unshare_list en (nowb_list n rq) s") (simp add: xrp_unmap_request_nowb_def)
qed

lemma unmap_null:
  assumes "rq_buffer_mapping rq = []" "n \<noteq> 0" "length (rq_dsp_buffer rq) = n"
  shows "snd (xrp_unmap_request en us n rq s) = Oops"
proof -
  let ?zs = "zip (buffer_mappings n rq) (map (\<lambda>b. ucast (db_flags b) :: u64) (rq_dsp_buffer rq))"
  have "map fst ?zs = replicate n Uninit" using assms(3) by (simp add: buffer_mappings_null [OF assms(1)])
  then have "Uninit \<in> fst ` set ?zs" using assms(2) by (metis in_set_replicate list.set_map)
  then have z: "snd (unshare_list en ?zs t) = Oops" for t by (rule unshare_list_uninit)
  define f where "f t = fst (unshare_list en ?zs t)" for t
  have "unshare_list en ?zs t = (f t, Oops)" for t using z [of t] by (simp add: f_def prod_eq_iff)
  then have z: "unshare_list en (zip (buffer_mappings n rq) (map (\<lambda>b. ucast (db_flags b)) (rq_dsp_buffer rq))) t = (f t, Oops)"
    for t by simp
  obtain s1 r1 where a: "(if in_shared rq then xrp_unshare_block en (rq_in_mapping rq) XRP_FLAG_READ s else (s, Ok ())) = (s1, r1)"
    by fastforce
  obtain s2 r2 where b: "(if out_shared rq then xrp_unshare_block en (rq_out_mapping rq) XRP_FLAG_WRITE s1
      else (s1, if us_copy_out us then Ok () else Error EFAULT)) = (s2, r2)" by fastforce
  obtain s3 r3 where c: "(if INLINE_BUFFER_COUNT < n
      then xrp_unshare_block en (rq_dsp_mapping rq) XRP_FLAG_READ_WRITE s2 else (s2, Ok ())) = (s3, r3)" by fastforce
  show ?thesis
    unfolding xrp_unmap_request_def a prod.case b c z by (auto split: sum.split err.split)
qed

text \<open>The outcome of mapping a request.\<close>

lemma map_request_cases:
  assumes "base_ok (n + 3) s0" "share_laws en s0" "sizes_ok us n q"
    "n = unat (q_buffer_size q) div 16" "xrp_map_request en us q s0 = (s', rq, r)" "r \<noteq> Oops"
  shows "(r = Ok () \<longrightarrow> length (rq_dsp_buffer rq) = n \<and>
      (if us_kz_mapping us \<or> n = 0
       then mapped s0 (request_mappings n rq) s' \<and> length (rq_buffer_mapping rq) = n \<and> rq_queue rq = q
       else rq_buffer_mapping rq = [])) \<and>
    (r \<noteq> Ok () \<longrightarrow> (\<exists>t. loses en s0 t \<and> holds t {#} s'))"
proof -
  define rq0 :: request where "rq0 = \<lparr>rq_queue = q, rq_dsp_buffer = replicate n \<lparr>db_flags = 0, db_size = 0, db_addr = 0\<rparr>,
                 rq_in_data = [], rq_out_data = replicate 16 0, rq_in_data_phys = 0, rq_out_data_phys = 0,
                 rq_dsp_buffer_phys = 0, rq_nsid = (case us_nsid us of None \<Rightarrow> [] | Some ns \<Rightarrow> ns),
                 rq_buffer_mapping = (if us_kz_mapping us then replicate n Mapping_None else []),
                 rq_in_mapping = Uninit, rq_out_mapping = Uninit, rq_dsp_mapping = Uninit\<rparr>"
  obtain s1 rq1 r1 where m: "map_stages en us n rq0 s0 = (s1, rq1, r1)" by (cases "map_stages en us n rq0 s0")
  have base: "\<exists>t. loses en s0 t \<and> holds t {#} s0" using loses_none [OF holds_empty [OF assms(1)]] .
  show ?thesis
  proof (cases "q_flags q AND REQUEST_NSID \<noteq> 0 \<and> us_nsid us = None \<or> INLINE_BUFFER_COUNT < n \<and> \<not> us_kz_dsp_buffer us")
    case True
    then have "s' = s0 \<and> r \<noteq> Ok ()"
      using assms(5) unfolding xrp_map_request_def Let_def assms(4) [symmetric] by (auto split: if_splits)
    then show ?thesis using base by auto
  next
    case False
    have c: "(q_flags q AND REQUEST_NSID \<noteq> 0 \<and> us_nsid us = None) = False"
      "(INLINE_BUFFER_COUNT < n \<and> \<not> us_kz_dsp_buffer us) = False"
      using False by blast+
    have u: "(s', rq, r) =
        (case (s1, rq1, r1) of
           (s1, rq, Inr _) \<Rightarrow> (s1, rq, Ok ())
         | (s1, rq, Inl Fault) \<Rightarrow> (s1, rq, Oops)
         | (s1, rq, Inl (Errno e)) \<Rightarrow>
             (case xrp_unmap_request_nowb en n rq s1 of
                (s2, Inl Fault) \<Rightarrow> (s2, rq, Oops)
              | (s2, _) \<Rightarrow> (s2, rq, Error e)))"
      unfolding assms(5) [symmetric] xrp_map_request_def Let_def assms(4) [symmetric] c if_False
      by (simp only: rq0_def [symmetric] m)
    have ok: "r1 = Ok () \<Longrightarrow> s' = s1 \<and> rq = rq1 \<and> r = Ok ()" using u by simp
    have er: "\<exists>r2. xrp_unmap_request_nowb en n rq1 s1 = (s', r2) \<and> r2 \<noteq> Oops \<and> r \<noteq> Ok () \<and> rq = rq1"
      if "r1 = Error e" for e
      using u that assms(6) by (auto split: prod.splits sum.splits err.splits)
    have no: "r1 \<noteq> Oops" using u assms(6) by auto
    show ?thesis
    proof (cases "us_kz_mapping us \<or> n = 0")
      case False
      then have null: "rq_buffer_mapping rq1 = []" "length (rq_dsp_buffer rq1) = n"
        using map_stages_null [OF m] by (simp_all add: rq0_def)
      have "r1 \<noteq> Error e" for e
        using er [of e] unmap_nowb_null [OF null(1), of n en s1] False by auto
      then have "r1 = Ok ()" using no by (metis (full_types) err.exhaust old.sum.exhaust old.unit.exhaust)
      then show ?thesis using ok null False by auto
    next
      case True
      have rb: "rq_buffer_mapping rq0 = replicate n Mapping_None" using True by (auto simp: rq0_def)
      have st: "length (rq_buffer_mapping rq1) = n \<and> length (rq_dsp_buffer rq1) = n \<and> rq_queue rq1 = q \<and>
          ((\<exists>t. loses en s0 t \<and> (r1 = Ok () \<longrightarrow> t = s0) \<and> mapped t (request_mappings n rq1) s1) \<or>
           r1 \<noteq> Ok () \<and> Uninit \<in> set (request_mappings n rq1))"
        using map_stages_holds [OF assms(1,2) _ rb _ _ _ _ m no] assms(3) by (simp add: rq0_def)
      show ?thesis
      proof (cases "r1 = Ok ()")
        case r1: True
        then show ?thesis using ok st True by auto
      next
        case False
        then obtain e where "r1 = Error e" using no by (metis (full_types) err.exhaust old.sum.exhaust old.unit.exhaust)
        then obtain r2 where n: "xrp_unmap_request_nowb en n rq1 s1 = (s', r2)" "r2 \<noteq> Oops" "r \<noteq> Ok ()"
          using er by blast
        have "Uninit \<notin> set (request_mappings n rq1)"
        proof
          assume "Uninit \<in> set (request_mappings n rq1)"
          then have "Uninit \<in> fst ` set (nowb_list n rq1)" using nowb_list_mappings st by (metis set_map)
          then have "snd (unshare_list en (nowb_list n rq1) s1) = Oops" by (rule unshare_list_uninit)
          then have "r2 = Oops" using n(1) by (auto simp: xrp_unmap_request_nowb_def split: prod.splits sum.splits err.splits)
          then show False using n(2) by simp
        qed
        then obtain t where t: "loses en s0 t" "mapped t (request_mappings n rq1) s1" using st by blast
        then have "holds t {#} s'"
          using unmap_nowb_holds [of t n rq1 s1 en] loses_base [OF t(1) assms(1)] st n(1) by auto
        then show ?thesis using t(1) n(3) by blast
      qed
    qed
  qed
qed

text \<open>
  C24: What a request that cannot be mapped leaves behind: when \<open>xrp_map_request\<close> returns an
  error, the allocation objects with their reference counts and all page reference counts
  are what they were before the call. So is the pool's free list, unless the allocator's
  second \<open>kzalloc\<close> failed for a shadow copy: then at most one region of the free memory is
  missing, which nobody holds (see the allocator).
\<close>

theorem xrp_map_request_error_restores:
  assumes "base_ok (unat (q_buffer_size q) div 16 + 3) s0" "share_laws en s0"
    "sizes_ok us (unat (q_buffer_size q) div 16) q"
    "xrp_map_request en us q s0 = (s', rq, Error e)"
  shows "ss_allocs s' = ss_allocs s0 \<and> ss_pages s' = ss_pages s0 \<and>
    (ss_pool s' = ss_pool s0 \<or> (\<exists>i. \<not> en_kz2 en i) \<and> pool_loses (ss_pool s0) (ss_pool s'))"
proof -
  obtain t where t: "loses en s0 t" "holds t {#} s'"
    using map_request_cases [OF assms(1-3) refl assms(4)] by auto
  show ?thesis
    using holds_base [OF t(2) loses_base [OF t(1) assms(1)]] t(1) by (auto simp: loses_def)
qed

text \<open>
  C1: Mapping a request and unmapping it is a round trip, with or without write-back, and
  whatever the DSP wrote into the buffer descriptors and the inline output in between: once
  \<open>xrp_map_request\<close> has succeeded, unmapping gives back all that was taken (pool memory,
  allocation references, page references) and does not fault. The one exception is a request
  with buffers whose array of mappings could not be allocated: \<open>kzalloc\<close>'s result is not
  tested, and unmapping dereferences the null pointer.
\<close>

theorem map_unmap_request_restores:
  assumes "base_ok (unat (q_buffer_size q) div 16 + 3) s0" "share_laws en s0"
    "sizes_ok us (unat (q_buffer_size q) div 16) q"
    "xrp_map_request en us q s0 = (s1, rq, Ok ())" "length bs = length (rq_dsp_buffer rq)"
    "unmap = xrp_unmap_request en us (unat (q_buffer_size q) div 16) (rq\<lparr>rq_dsp_buffer := bs, rq_out_data := os\<rparr>) \<or>
     unmap = xrp_unmap_request_nowb en (unat (q_buffer_size q) div 16) (rq\<lparr>rq_dsp_buffer := bs, rq_out_data := os\<rparr>)"
  shows "if us_kz_mapping us \<or> unat (q_buffer_size q) div 16 = 0
    then \<exists>s2 r. unmap s1 = (s2, r) \<and> r \<noteq> Oops \<and>
      ss_pool s2 = ss_pool s0 \<and> ss_allocs s2 = ss_allocs s0 \<and> ss_pages s2 = ss_pages s0
    else snd (unmap s1) = Oops"
proof -
  let ?n = "unat (q_buffer_size q) div 16" and ?rq = "rq\<lparr>rq_dsp_buffer := bs, rq_out_data := os\<rparr>"
  have same: "request_mappings ?n ?rq = request_mappings ?n rq" by (simp add: request_mappings_def)
  note mc = map_request_cases [OF assms(1-3) refl assms(4)]
  show ?thesis
  proof (cases "us_kz_mapping us \<or> ?n = 0")
    case True
    then have m: "mapped s0 (request_mappings ?n ?rq) s1" "length (rq_buffer_mapping ?rq) = ?n" "length (rq_dsp_buffer ?rq) = ?n"
      unfolding same using mc assms(5) by auto
    have "\<exists>s2 r. unmap s1 = (s2, r) \<and> r \<noteq> Oops \<and> holds s0 {#} s2"
      using assms(6) unmap_holds [OF m(1) assms(1) m(2,3), of en us] unmap_nowb_holds [OF m(1) assms(1) m(2), of en]
      by (elim disjE) auto
    then have "\<exists>s2 r. unmap s1 = (s2, r) \<and> r \<noteq> Oops \<and>
      ss_pool s2 = ss_pool s0 \<and> ss_allocs s2 = ss_allocs s0 \<and> ss_pages s2 = ss_pages s0"
      using holds_base [of s0] assms(1) by blast
    then show ?thesis using True by (simp only: if_True)
  next
    case False
    have "rq_buffer_mapping ?rq = []" "length (rq_dsp_buffer ?rq) = ?n" using mc assms(5) False by auto
    then have "snd (unmap s1) = Oops" using assms(6) unmap_null unmap_nowb_null False by blast
    then show ?thesis using False by (simp only: if_False)
  qed
qed


text \<open>A device with one pinned output and one pinned buffer.\<close>

definition demo_env :: share_env where
  "demo_env = \<lparr>en_find_vma = (\<lambda>a. Some \<lparr>vm_start = 0, vm_end = 0x10000000, vm_pgoff = 0, vm_file = 1,
       vm_pfnmap = False, vm_cache_ops = True, vm_allocation = 0\<rparr>),
     en_filp = 0, en_known_file = (\<lambda>f. False), en_follow_pfn = (\<lambda>v a. Error EFAULT),
     en_get_user_pages = (\<lambda>a n. if n = 1 then (1, [7]) else (-14, [])),
     en_kmalloc = True, en_cacheable = (\<lambda>a n. True), en_pa = (\<lambda>v. v),
     en_bsearch = linear_search, en_map = [\<lparr>src_addr = 0, dst_addr = 0x80000000, me_size = 0x100000\<rparr>],
     en_ioremap = (\<lambda>a n. True), en_copy_to_user = (\<lambda>a n. True), en_copy_from_user = (\<lambda>a n. True),
     en_direct_read = (\<lambda>a n. False), en_kz1 = (\<lambda>i. True), en_kz2 = (\<lambda>i. True),
     en_gfp = \<lparr>ge_kzalloc_new = True, ge_kzalloc_pool = True, ge_get_order = (\<lambda>n. 0), ge_max_order = 0,
               ge_alloc_pages = (\<lambda>n. None)\<rparr>,
     en_old_kernel = False\<rparr>"

definition demo_state :: share_state where
  "demo_state = \<lparr>ss_pool = \<lparr>pp_start = 0x100000, pp_size = 0x10000,
       pp_free_list = [\<lparr>b_start = 0x100000, b_size = 0x10000\<rparr>]\<rparr>,
     ss_allocs = Map.empty, ss_next = 0, ss_pages = (\<lambda>p. 0), ss_dirty = {}, ss_kernel_ds = False\<rparr>"

definition demo_user :: "ioctl_buffer option \<Rightarrow> user_env" where
  "demo_user b = \<lparr>us_nsid = None, us_in_data = Some [], us_buffer = (\<lambda>i. b), us_copy_out = True,
     us_kz_mapping = True, us_kz_dsp_buffer = True, us_dsp_buffer_virt = 0\<rparr>"

definition demo_queue :: ioctl_queue where
  "demo_queue = \<lparr>q_flags = 0, q_in_data_size = 0, q_out_data_size = 32, q_buffer_size = 16,
     q_in_data_addr = 0, q_out_data_addr = 0x2100, q_buffer_addr = 0, q_nsid_addr = 0\<rparr>"

lemma demo_laws:
  "base_ok N demo_state" "share_laws demo_env demo_state"
  by (simp_all add: base_ok_def pool_wf_def b_end_def demo_state_def share_laws_def demo_env_def)

lemmas share_eval = xrp_share_block_def xvp_get_region_vma_count_def native_phys_def share_direct_def
  xvp_gup_virt_to_phys_def page_count_def PFN_UP_def PFN_DOWN_def PAGE_SHIFT_def xrp_get_address_mapping_def
  linear_search_def xrp_compare_address_def pfn_to_phys_def INT_MAX_def demo_env_def

lemma demo_share:
  "xrp_share_block demo_env 0x2100 32 f old s =
     (add_pages 1 [7] s, Alien \<lparr>am_vaddr = 0x2100, am_size = 32, am_paddr = 0x7100, am_allocation = 0, am_type = ALIEN_GUP\<rparr>,
      Ok (0x7100, True))"
  "xrp_share_block demo_env 0x3100 16 f old s =
     (add_pages 1 [7] s, Alien \<lparr>am_vaddr = 0x3100, am_size = 16, am_paddr = 0x7100, am_allocation = 0, am_type = ALIEN_GUP\<rparr>,
      Ok (0x7100, True))"
  by (simp_all add: share_eval)

lemmas demo_eval = xrp_map_request_def map_stages_def map_in_def map_out_def map_descriptors_def demo_share
  demo_queue_def demo_user_def Let_def

lemmas unshare_eval = xrp_unmap_request_nowb_def nowb_list_def buffer_mappings_def
  xrp_unshare_block_def raise_limit_def restore_limit_def unshare_alien_def xrp_alien_mapping_destroy_def

theorem xrp_map_request_error_restores_witness:
  "\<exists>s' rq. xrp_map_request demo_env (demo_user None) demo_queue demo_state = (s', rq, Error EFAULT) \<and>
     ss_pool s' = ss_pool demo_state \<and> ss_allocs s' = ss_allocs demo_state \<and> ss_pages s' = ss_pages demo_state"
proof -
  have e: "\<exists>s' rq. xrp_map_request demo_env (demo_user None) demo_queue demo_state = (s', rq, Error EFAULT)"
    by (simp add: demo_eval unshare_eval)
  have z: "sizes_ok (demo_user None) (unat (q_buffer_size demo_queue) div 16) demo_queue"
    by (simp add: sizes_ok_def demo_queue_def demo_user_def)
  from e obtain s' rq where r: "xrp_map_request demo_env (demo_user None) demo_queue demo_state = (s', rq, Error EFAULT)"
    by blast
  show ?thesis using xrp_map_request_error_restores [OF demo_laws z r] r by (auto simp: demo_env_def)
qed


theorem map_unmap_request_restores_witness:
  "\<exists>s1 rq s2 r. xrp_map_request demo_env (demo_user (Some \<lparr>ib_flags = 3, ib_size = 16, ib_addr = 0x3100\<rparr>))
       demo_queue demo_state = (s1, rq, Ok ()) \<and>
     xrp_unmap_request demo_env (demo_user (Some \<lparr>ib_flags = 3, ib_size = 16, ib_addr = 0x3100\<rparr>)) 1
       (rq\<lparr>rq_dsp_buffer := [\<lparr>db_flags = 2, db_size = 16, db_addr = 0\<rparr>], rq_out_data := []\<rparr>) s1 = (s2, r) \<and> r \<noteq> Oops \<and>
     ss_pool s2 = ss_pool demo_state \<and> ss_allocs s2 = ss_allocs demo_state \<and> ss_pages s2 = ss_pages demo_state"
proof -
  let ?us = "demo_user (Some \<lparr>ib_flags = 3, ib_size = 16, ib_addr = 0x3100\<rparr>)"
  have e: "\<exists>s' rq. xrp_map_request demo_env ?us demo_queue demo_state = (s', rq, Ok ()) \<and> length (rq_dsp_buffer rq) = 1"
    by (simp add: demo_eval)
  have z: "sizes_ok ?us (unat (q_buffer_size demo_queue) div 16) demo_queue" and n: "unat (q_buffer_size demo_queue) div 16 = 1"
    by (simp_all add: sizes_ok_def demo_queue_def demo_user_def)
  have k: "us_kz_mapping ?us" by (simp add: demo_user_def)
  from e obtain s' rq where r: "xrp_map_request demo_env ?us demo_queue demo_state = (s', rq, Ok ())"
    "length (rq_dsp_buffer rq) = 1" by blast
  show ?thesis
    using map_unmap_request_restores [OF demo_laws z r(1), of "[\<lparr>db_flags = 2, db_size = 16, db_addr = 0\<rparr>]" _ "[]"]
      r n k by simp
qed

text \<open>
  The error path of \<open>xrp_map_request\<close> unshares mappings that were never made: when the
  input of a request (more than 16 bytes) cannot be shared, \<open>xrp_unmap_request_nowb\<close> looks
  at the input's mapping, which is uninitialised stack memory.
\<close>

theorem xrp_map_request_input_fault:
  assumes "q_flags q AND REQUEST_NSID = 0" "unat (q_buffer_size q) div 16 \<le> INLINE_BUFFER_COUNT"
    "INLINE_DATA_SIZE < unat (q_in_data_size q)"
    "xrp_share_block en (q_in_data_addr q) (ucast (q_in_data_size q)) XRP_FLAG_READ Uninit s = (s1, Uninit, Error e)"
  shows "snd (snd (xrp_map_request en us q s)) = Oops"
proof -
  define n where "n = unat (q_buffer_size q) div 16"
  define rq0 :: request where "rq0 = \<lparr>rq_queue = q, rq_dsp_buffer = replicate n \<lparr>db_flags = 0, db_size = 0, db_addr = 0\<rparr>,
                 rq_in_data = [], rq_out_data = replicate 16 0, rq_in_data_phys = 0, rq_out_data_phys = 0,
                 rq_dsp_buffer_phys = 0, rq_nsid = (case us_nsid us of None \<Rightarrow> [] | Some ns \<Rightarrow> ns),
                 rq_buffer_mapping = (if us_kz_mapping us then replicate n Mapping_None else []),
                 rq_in_mapping = Uninit, rq_out_mapping = Uninit, rq_dsp_mapping = Uninit\<rparr>"
  have c: "(q_flags q AND REQUEST_NSID \<noteq> 0 \<and> us_nsid us = None) = False"
    "(INLINE_BUFFER_COUNT < n \<and> \<not> us_kz_dsp_buffer us) = False"
    using assms(1,2) by (simp_all add: n_def)
  have f: "rq_queue rq0 = q" "rq_in_mapping rq0 = Uninit" by (simp_all add: rq0_def)
  have m: "map_stages en us n rq0 s = (s1, rq0, Error e)"
    using assms(3,4) f by (simp add: map_stages_def map_in_def)
  have "Uninit \<in> fst ` set (nowb_list n rq0)" using f assms(3) by (simp add: nowb_list_def)
  then have "snd (unshare_list en (nowb_list n rq0) s1) = Oops" by (rule unshare_list_uninit)
  then obtain s2 where "xrp_unmap_request_nowb en n rq0 s1 = (s2, Oops)"
    by (cases "unshare_list en (nowb_list n rq0) s1") (simp add: xrp_unmap_request_nowb_def)
  then show ?thesis
    unfolding xrp_map_request_def Let_def n_def [symmetric] c if_False
    by (simp only: rq0_def [symmetric] m prod.case sum.case err.case snd_conv)
qed

theorem xrp_map_request_input_fault_witness:
  "snd (snd (xrp_map_request (demo_env\<lparr>en_find_vma := (\<lambda>a. None)\<rparr>) (demo_user None)
     (demo_queue\<lparr>q_in_data_size := 64\<rparr>) demo_state)) = Oops"
  by (rule xrp_map_request_input_fault [where e = EINVAL and ?s1.0 = demo_state])
     (simp_all add: demo_queue_def xrp_share_block_def)

section \<open>Areas that cover a region, and shadow copies\<close>

definition in_vma :: "share_env \<Rightarrow> u64 \<Rightarrow> bool" where
  "in_vma en a = (\<exists>x v. en_find_vma en x = Some v \<and> vm_start v \<le> a \<and> a < vm_end v)"

lemma in_vmaI: "en_find_vma en x = Some v \<Longrightarrow> vm_start v \<le> a \<Longrightarrow> a < vm_end v \<Longrightarrow> in_vma en a"
  by (auto simp: in_vma_def)

lemma vma_walk_covers:
  "vma_walk en e v i \<noteq> 0 \<Longrightarrow> vm_end v \<le> a \<Longrightarrow> a < e \<Longrightarrow> in_vma en a"
proof (induction en e v i rule: vma_walk.induct)
  case (1 en e v i)
  obtain w where w: "en_find_vma en (vm_end v) = Some w" "vm_start w = vm_end v" "vm_end v < vm_end w"
    using "1.prems"(1) by (subst (asm) vma_walk.simps) (auto split: option.splits if_splits)
  show ?case
  proof (cases "a < vm_end w")
    case True
    then show ?thesis using w "1.prems"(2) by (intro in_vmaI [OF w(1)]) simp_all
  next
    case False
    then have ne: "\<not> e \<le> vm_end w" using "1.prems"(3) by simp
    then have "vma_walk en e w (i + 1) \<noteq> 0"
      using "1.prems"(1) w by (subst (asm) vma_walk.simps) simp
    then show ?thesis using "1.IH" [OF w(1) _ ne] w False "1.prems"(3) by simp
  qed
qed

text \<open>
  A region that \<open>__xrp_share_block\<close> accepts is covered by the task's areas without a gap:
  if \<open>xvp_get_region_vma_count\<close> does not return 0, every address of the region lies in an
  area that \<open>find_vma\<close> found.
\<close>

theorem xvp_get_region_vma_count_covers:
  assumes "en_find_vma en virt = Some v" "xvp_get_region_vma_count en virt sz v \<noteq> 0"
    "virt \<le> a" "a < virt + sz"
  shows "in_vma en a"
proof (cases "a < vm_end v")
  case True
  have "vm_start v \<le> virt" using assms(2) by (auto simp: xvp_get_region_vma_count_def split: if_splits)
  then show ?thesis using assms(3) True by (intro in_vmaI [OF assms(1)]) simp_all
next
  case False
  then have "vma_walk en (virt + sz) v 2 \<noteq> 0"
    using assms by (auto simp: xvp_get_region_vma_count_def split: if_splits)
  then show ?thesis using vma_walk_covers False assms(4) by (metis not_less)
qed

theorem xvp_get_region_vma_count_covers_witness:
  "in_vma demo_env 0x2110"
  using xvp_get_region_vma_count_covers [where en = demo_env and virt = "0x2100" and sz = 32 and a = "0x2110"]
  by (simp add: demo_env_def xvp_get_region_vma_count_def)


text \<open>
  The alignment of a shadow copy is a power of two, the lowest bit of the virtual address
  clipped to 16 bytes and to a page.
\<close>

lemma odd_and_minus: "bit w 0 \<Longrightarrow> w AND - w = (1 :: u64)"
proof -
  assume b: "bit w 0"
  have "- w = NOT w + 1" by (simp add: minus_eq_not_plus_1)
  also have "NOT w + 1 = NOT w OR 1"
    using b by (intro disjunctive_add_eq_or bit_eqI) (auto simp: bit_simps bit_1_iff)
  finally show ?thesis using b by (intro bit_eqI) (auto simp: bit_simps bit_1_iff)
qed

lemma lowest_bit: "v \<noteq> (0 :: u64) \<Longrightarrow> \<exists>j < 64. v AND - v = 2 ^ j"
proof -
  assume "v \<noteq> 0"
  then obtain i where i: "bit v i" by (metis bit_eqI bit_0_eq bot_apply bot_bool_def)
  define j where "j = (LEAST i. bit v i)"
  have j: "bit v j" "\<And>k. k < j \<Longrightarrow> \<not> bit v k"
    using LeastI [of "bit v", OF i] not_less_Least by (auto simp: j_def)
  have "j < 64" using j(1) bit_imp_le_length by fastforce
  define w where "w = drop_bit j v"
  have jn: "bit v n \<Longrightarrow> j \<le> n" for n using j(2) not_less by blast
  have v: "v = push_bit j w"
    using jn by (intro bit_eqI) (auto simp: w_def bit_simps)
  have "bit w 0" using j(1) by (simp add: w_def bit_drop_bit_eq)
  then have "w AND - w = 1" by (rule odd_and_minus)
  moreover have "v AND - v = push_bit j (w AND - w)"
    unfolding v by (simp add: push_bit_and push_bit_minus)
  ultimately show ?thesis using \<open>j < 64\<close> by (auto simp: push_bit_eq_mult)
qed

lemma shadow_align_pow2: "\<exists>k. 4 \<le> k \<and> k \<le> 12 \<and> shadow_align v = 2 ^ k"
proof (cases "v = 0")
  case True
  then show ?thesis by (intro exI [of _ 4]) (simp add: shadow_align_def)
next
  case False
  then obtain j where j: "j < 64" "v AND - v = 2 ^ j" using lowest_bit by blast
  have u: "unat (2 ^ j :: u64) = 2 ^ j" using j(1) by (intro unat_pow2) simp
  have lt: "(2 ^ j :: u64) < 16 \<longleftrightarrow> j < 4" "(PAGE_SIZE :: u64) < 2 ^ j \<longleftrightarrow> 12 < j"
    using power_strict_increasing_iff [of "2::nat" j 4] power_strict_increasing_iff [of "2::nat" 12 j]
    by (simp_all add: word_less_nat_alt u)
  show ?thesis
  proof (cases "j < 4")
    case True
    then show ?thesis using lt j by (intro exI [of _ 4]) (simp add: shadow_align_def)
  next
    case ge: False
    show ?thesis
    proof (cases "12 < j")
      case True
      then show ?thesis using ge lt j by (intro exI [of _ 12]) (simp add: shadow_align_def Let_def)
    next
      case False
      then show ?thesis using ge lt j by (intro exI [of _ j]) (simp add: shadow_align_def Let_def)
    qed
  qed
qed

lemma shadow_phys_bounds:
  assumes "unat st + unat (shadow_align v) < 2 ^ 64"
  shows "unat st \<le> unat (shadow_phys v st)" "unat (shadow_phys v st) < unat st + unat (shadow_align v)"
    "unat (shadow_phys v st) mod unat (shadow_align v) = unat v mod unat (shadow_align v)"
proof -
  obtain k where k: "k \<le> 12" "shadow_align v = 2 ^ k" using shadow_align_pow2 by blast
  define a where "a = (2 :: nat) ^ k"
  define S where "S = unat st"
  have ua: "unat (2 ^ k :: u64) = a" using k(1) unfolding a_def by (intro unat_pow2) simp
  have a0: "0 < a" by (simp add: a_def)
  define p0 :: u64 where "p0 = (st AND - (2 ^ k)) OR (v AND (2 ^ k - 1))"
  have m: "v AND (2 ^ k - 1) = take_bit k v" by (simp add: take_bit_eq_mask mask_eq_exp_minus_1)
  have "p0 = (st AND - (2 ^ k)) + take_bit k v"
    unfolding p0_def m by (rule disjunctive_add_eq_or [symmetric])
      (auto intro!: bit_eqI simp: bit_simps minus_exp_eq_not_mask)
  moreover have "unat (st AND - (2 ^ k)) = S div a * a" unfolding S_def a_def by (rule unat_and_neg_pow2)
  moreover have "unat (take_bit k v) = unat v mod a" unfolding a_def by (rule unat_take_bit_mod)
  moreover have sm: "S div a * a + unat v mod a < S + a"
    using mod_less_divisor [OF a0, of "unat v"] div_times_less_eq_dividend [of S a] by linarith
  moreover have "S + a < 2 ^ 64" using assms k(2) ua by (simp add: S_def)
  ultimately have p0: "unat p0 = S div a * a + unat v mod a" by (simp add: unat_add_u64)
  have "S < S div a * a + a" using a0 by (metis add.commute dividend_less_div_times mult.commute)
  then have up: "p0 < st \<Longrightarrow> unat (p0 + 2 ^ k) = unat p0 + a"
    using \<open>S + a < 2 ^ 64\<close> p0 ua by (intro unat_add_u64 [THEN trans]) (simp_all add: word_less_nat_alt S_def)
  have ph: "shadow_phys v st = (if p0 < st then p0 + 2 ^ k else p0)"
    by (simp add: shadow_phys_def p0_def k(2) Let_def)
  show "unat st \<le> unat (shadow_phys v st)" "unat (shadow_phys v st) < unat st + unat (shadow_align v)"
    using ph up p0 sm \<open>S < S div a * a + a\<close> ua k(2) by (auto simp: word_less_nat_alt S_def split: if_splits)
  show "unat (shadow_phys v st) mod unat (shadow_align v) = unat v mod unat (shadow_align v)"
    using ph up p0 ua k(2) by (auto split: if_splits)
qed


text \<open>
  A shadow copy lies inside its allocation and keeps the offset of the user address in
  an alignment unit: the bytes \<open>xvp_copy_virt_to_phys\<close> hands to the device are all in the
  allocated region of the pool.
\<close>

theorem xvp_copy_virt_to_phys_inside:
  assumes "pool_wf (ss_pool s)" "unat sz + 4096 \<le> unat MAX_REQUEST"
    "xvp_copy_virt_to_phys en flags virt sz s = (s', Inr am)"
    "ss_allocs s' (am_allocation am) = Some a" "al_pool a = Private_Pool_Ops"
  shows "unat (al_start a) \<le> unat (am_paddr am) \<and>
    unat (am_paddr am) + unat sz \<le> unat (al_start a) + unat (al_size a) \<and>
    unat (am_paddr am) mod unat (shadow_align virt) = unat virt mod unat (shadow_align virt)"
proof -
  let ?sz = "ucast (sz + shadow_align virt) :: u32" and ?al = "ucast (shadow_align virt) :: u32"
  obtain p r where pr: "xrp_private_alloc (en_kz1 en (ss_next s)) (en_kz2 en (ss_next s)) (en_gfp en) (ss_pool s) ?sz ?al = (p, Ok r)"
    and r: "a = r" "am_paddr am = shadow_phys virt (al_start r)"
    using assms(3,4)
    by (auto simp: xvp_copy_virt_to_phys_def allocate_obj_def put_obj_def Let_def split: prod.splits sum.splits err.splits option.splits if_splits)
  have mx: "unat MAX_REQUEST = 0xFFFFF000" by (simp add: MAX_REQUEST_def)
  have n: "unat ?sz = unat sz + unat (shadow_align virt)"
  proof -
    have "unat (sz + shadow_align virt) = unat sz + unat (shadow_align virt)"
      using assms(2) mx shadow_align_bounds [of virt] by (intro unat_add_u64) simp
    then show ?thesis using assms(2) mx shadow_align_bounds [of virt] by (simp add: unat_u64_u32)
  qed
  have le: "?sz \<le> MAX_REQUEST"
    using assms(2) shadow_align_bounds [of virt] by (simp add: word_le_nat_alt n)
  from pr show ?thesis
  proof (cases rule: private_alloc_cases)
    case (ok c as l)
    have a: "al_start a = as" "al_size a = ALIGN ?sz PAGE_SIZE" using ok(1) r by auto
    have pg: "unat (al_size a) = page_up (unat ?sz)" "unat ?sz \<le> page_up (unat ?sz)"
      using page_round [OF ok(3) le] a by (simp_all add: page_up_def round_up_ge)
    have "{unat as..<unat as + page_up (unat ?sz)} \<subseteq> pool_free (ss_pool s)"
      using scan_ok [OF assms(1) ok(4,3) le ok(5)] by simp
    also have "\<dots> \<subseteq> pool_bytes (ss_pool s)"
      using ibytes_bounds assms(1) by (fastforce simp: pool_free_def pool_bytes_def pool_wf_def)
    finally have "unat as + page_up (unat ?sz) \<le> unat (pp_start (ss_pool s)) + unat (pp_size (ss_pool s))"
      using n shadow_align_bounds [of virt] pg(2) by (auto simp: pool_bytes_def dest!: atLeastLessThan_subset_iff)
    then have "unat as + unat (shadow_align virt) < 2 ^ 64"
      using assms(1) n pg(2) unfolding pool_wf_def by linarith
    from shadow_phys_bounds [OF this] show ?thesis using r a n pg by simp
  qed (use assms(5) r in auto)
qed

theorem xvp_copy_virt_to_phys_inside_witness:
  "\<exists>s' am. xvp_copy_virt_to_phys demo_env 1 0x2104 32 demo_state = (s', Inr am) \<and>
     unat (am_paddr am) + 32 \<le> 0x100000 + 0x1000"
proof -
  have "\<exists>s' am a. xvp_copy_virt_to_phys demo_env 1 0x2104 32 demo_state = (s', Inr am) \<and>
     ss_allocs s' (am_allocation am) = Some a \<and> al_pool a = Private_Pool_Ops \<and> al_start a = 0x100000 \<and> al_size a = 0x1000"
    by (simp add: xvp_copy_virt_to_phys_def allocate_obj_def xrp_private_alloc_def shadow_align_def ALIGN_def demo_env_def
        demo_state_def Let_def xrp_copy_user_to_phys_def xrp_allocation_get_def)
  then obtain s' am a where c: "xvp_copy_virt_to_phys demo_env 1 0x2104 32 demo_state = (s', Inr am)"
    "ss_allocs s' (am_allocation am) = Some a" "al_pool a = Private_Pool_Ops" "al_start a = 0x100000" "al_size a = 0x1000"
    by blast
  have "pool_wf (ss_pool demo_state)" "unat (32 :: u64) + 4096 \<le> unat MAX_REQUEST"
    by (simp_all add: pool_wf_def b_end_def demo_state_def MAX_REQUEST_def)
  from xvp_copy_virt_to_phys_inside [OF this c(1-3)] show ?thesis using c by simp
qed


lemma put_obj_limit: "ss_kernel_ds (fst (put_obj i s)) = ss_kernel_ds s"
  by (simp add: put_obj_def Let_def split: option.splits prod.splits)

lemma unshare_alien_limit: "ss_kernel_ds (fst (unshare_alien en am flags s)) = ss_kernel_ds s"
proof -
  have d: "ss_kernel_ds (fst (xrp_alien_mapping_destroy am t)) = ss_kernel_ds t" for t
    by (cases "am_type am") (simp_all add: xrp_alien_mapping_destroy_def put_obj_limit xrp_put_pages_def add_pages_def)
  have w: "ss_kernel_ds (fst (xrp_writeback_alien_mapping en am s)) = ss_kernel_ds s"
    by (cases "am_type am") (simp_all add: xrp_writeback_alien_mapping_def)
  show ?thesis
    by (simp add: unshare_alien_def case_prod_beta d w split: sum.split)
qed

text \<open>
  On kernels before 5.10 unsharing raises the task's address limit for good: after
  \<open>__xrp_unshare_block\<close> the limit is the kernel's for every mapping without the kernel mark
  (the missing braces around the two statements behind the test), and unchanged otherwise.
\<close>

theorem xrp_unshare_block_limit:
  "ss_kernel_ds (fst (xrp_unshare_block en mp flags s)) =
     (if en_old_kernel en \<and> (case mp of Kernel \<Rightarrow> False | Alien_Kernel _ \<Rightarrow> False | _ \<Rightarrow> True) then True
      else ss_kernel_ds s)"
  by (cases mp) (simp_all add: xrp_unshare_block_def raise_limit_def restore_limit_def Let_def case_prod_beta
    put_obj_limit unshare_alien_limit)

end
