(* ===== verification/Submit.thy ===== *)
theory Submit
  imports Interfaces
begin

unbundle bit_operations_syntax

text \<open>
  Submitting a command and restarting the firmware: \<open>xrp_ioctl_submit_sync\<close> of \<open>xvp_main.c\<close>.
  Any number of threads submit at the same time; each works on one queue under the queue's
  lock. A thread whose command times out starts the firmware again, unless another thread
  already does: the atomic counters \<open>reboot_cycle\<close> and \<open>reboot_cycle_complete\<close> select one.
  Each access of shared data is a step of its own, so a run is an interleaving of steps.
\<close>

section \<open>The choice of the queue\<close>

abbreviation (input) QUEUE_FLAG_PRIO :: u32 where "QUEUE_FLAG_PRIO \<equiv> 0xff00"
abbreviation (input) QUEUE_FLAG_PRIO_SHIFT :: nat where "QUEUE_FLAG_PRIO_SHIFT \<equiv> 8"
abbreviation (input) QUEUE_VALID_FLAGS :: u32 where "QUEUE_VALID_FLAGS \<equiv> 0xff04"

text \<open>
  \<open>submit_queue\<close>: the flags are checked and the priority is clipped to the queues there are;
  the result is an index of \<open>queue_ordered\<close>, the queues by rising priority.
\<close>

definition submit_queue :: "u32 \<Rightarrow> nat \<Rightarrow> nat list \<Rightarrow> nat res" where
  "submit_queue flags n_queues ordered =
     (if flags AND NOT QUEUE_VALID_FLAGS \<noteq> 0 then Error EINVAL
      else if 1 < n_queues then
        let n = unat (drop_bit QUEUE_FLAG_PRIO_SHIFT (flags AND QUEUE_FLAG_PRIO)) in
        Ok (ordered ! (if n_queues \<le> n then n_queues - 1 else n))
      else Ok 0)"

section \<open>The protocol\<close>

text \<open>
  Where a thread is: before it takes its queue's lock (\<open>Retry\<close>); with the lock; with the
  value of \<open>reboot_cycle\<close> it read (\<open>Got\<close>); with a command in flight (\<open>Cmd\<close>); after a time-out
  (\<open>Incr\<close>); taking all other locks (\<open>Boot i\<close>: up to queue \<open>i\<close>); after the restart; before it
  stores the completed cycle; giving the locks back; at the end with its result and whether
  the device went off.
\<close>

datatype spc =
    Retry
  | Locked
  | Got u32
  | Cmd u32
  | Incr u32
  | Boot nat
  | Booted "unit res"
  | Read_Cycle "unit res" u32
  | Unlock nat "unit res"
  | Finish "unit res" bool
  | Done "unit res" bool

record sub_state =
  sb_cycle :: u32
  sb_complete :: u32
  sb_locks :: "nat \<Rightarrow> nat option"
  sb_off :: bool
  sb_pc :: "nat \<Rightarrow> spc"

record sub_env =
  se_n_queues :: nat
  se_queue :: "nat \<Rightarrow> nat"
  se_firmware_reboot :: bool

text \<open>
  What is not decided by the state: the result of waiting for the command and whether the
  answer reports a delivery failure, and the result of the restart and of the device's
  power state behind it.
\<close>

datatype choice = Go | Result "unit res" bool | Boot_Result "unit res" bool

definition goto :: "nat \<Rightarrow> spc \<Rightarrow> sub_state \<Rightarrow> sub_state" where
  "goto t p s = s\<lparr>sb_pc := (sb_pc s)(t := p)\<rparr>"

definition set_lock :: "nat \<Rightarrow> nat option \<Rightarrow> sub_state \<Rightarrow> sub_state" where
  "set_lock q l s = s\<lparr>sb_locks := (sb_locks s)(q := l)\<rparr>"

definition submit_step :: "sub_env \<Rightarrow> nat \<Rightarrow> choice \<Rightarrow> sub_state \<Rightarrow> sub_state option" where
  "submit_step en t ch s =
     (let q = se_queue en t; n = se_n_queues en in
      case sb_pc s t of
        Retry \<Rightarrow> if sb_locks s q = None then Some (goto t Locked (set_lock q (Some t) s)) else None
      | Locked \<Rightarrow> Some (goto t (Got (sb_cycle s)) s)
      | Got c \<Rightarrow>
          if c \<noteq> sb_complete s then Some (goto t Retry (set_lock q None s))
          else if sb_off s then Some (goto t (Finish (Error ENODEV) False) s)
          else Some (goto t (Cmd c) s)
      | Cmd c \<Rightarrow>
          (case ch of
             Result r fail \<Rightarrow>
               if r = Ok () then Some (goto t (Finish (if fail then Error ENXIO else Ok ()) False) s)
               else if r = Error EBUSY \<and> se_firmware_reboot en then Some (goto t (Incr c) s)
               else Some (goto t (Finish r False) s)
           | _ \<Rightarrow> None)
      | Incr c \<Rightarrow>
          let s' = s\<lparr>sb_cycle := sb_cycle s + 1\<rparr> in
          Some (goto t (if sb_cycle s' = c + 1 then Boot 0 else Finish (Error EBUSY) False) s')
      | Boot i \<Rightarrow>
          if n \<le> i then
            (case ch of Boot_Result rc off \<Rightarrow> Some (goto t (Booted rc) (s\<lparr>sb_off := off\<rparr>)) | _ \<Rightarrow> None)
          else if i = q then Some (goto t (Boot (i + 1)) s)
          else if sb_locks s i = None then Some (goto t (Boot (i + 1)) (set_lock i (Some t) s))
          else None
      | Booted rc \<Rightarrow> Some (goto t (Read_Cycle rc (sb_cycle s)) s)
      | Read_Cycle rc c \<Rightarrow> Some (goto t (Unlock 0 rc) (s\<lparr>sb_complete := c\<rparr>))
      | Unlock i rc \<Rightarrow>
          if n \<le> i then
            Some (goto t (case rc of Inl e \<Rightarrow> Finish (Inl e) (sb_off s) | Inr _ \<Rightarrow> Finish (Error EBUSY) False) s)
          else if i = q then Some (goto t (Unlock (i + 1) rc) s)
          else Some (goto t (Unlock (i + 1) rc) (set_lock i None s))
      | Finish r w \<Rightarrow> Some (goto t (Done r w) (set_lock q None s))
      | Done r w \<Rightarrow> None)"

text \<open>What is done with the mappings of the request at the end; \<open>Leak\<close> is deliberate.\<close>

datatype cleanup = Unmap | Unmap_Nowb | Leak

definition submit_cleanup :: "unit res \<Rightarrow> bool \<Rightarrow> cleanup" where
  "submit_cleanup r went_off = (if r = Ok () then Unmap else if \<not> went_off then Unmap_Nowb else Leak)"

definition submit_initial :: "sub_state \<Rightarrow> bool" where
  "submit_initial s = (sb_cycle s = sb_complete s \<and> (\<forall>q. sb_locks s q = None) \<and> (\<forall>t. sb_pc s t = Retry))"

definition submit_rel :: "sub_env \<Rightarrow> sub_state \<Rightarrow> sub_state \<Rightarrow> bool" where
  "submit_rel en s s' = (\<exists>t ch. submit_step en t ch s = Some s')"

definition sub_env_ok :: "sub_env \<Rightarrow> bool" where
  "sub_env_ok en = (se_n_queues en < 2 ^ 32 - 1 \<and> (\<forall>t. se_queue en t < se_n_queues en))"

section \<open>The invariant\<close>

text \<open>Which locks a thread holds, and when it is restarting or a candidate for it.\<close>

fun holds_lock :: "nat \<Rightarrow> nat \<Rightarrow> spc \<Rightarrow> nat \<Rightarrow> bool" where
  "holds_lock n q Retry i = False"
| "holds_lock n q (Done r w) i = False"
| "holds_lock n q (Boot j) i = (i = q \<or> i < j)"
| "holds_lock n q (Booted rc) i = (i < n)"
| "holds_lock n q (Read_Cycle rc c) i = (i < n)"
| "holds_lock n q (Unlock j rc) i = (i = q \<or> (j \<le> i \<and> i < n))"
| "holds_lock n q _ i = (i = q)"

fun restarting :: "spc \<Rightarrow> bool" where
  "restarting (Boot j) = True"
| "restarting (Booted rc) = True"
| "restarting (Read_Cycle rc c) = True"
| "restarting _ = False"

fun in_flight :: "spc \<Rightarrow> u32 option" where
  "in_flight (Cmd c) = Some c"
| "in_flight (Incr c) = Some c"
| "in_flight _ = None"

fun candidate :: "u32 \<Rightarrow> spc \<Rightarrow> bool" where
  "candidate c (Got d) = (d = c)"
| "candidate c p = (in_flight p = Some c)"

definition pending :: "sub_state \<Rightarrow> nat" where
  "pending s = unat (sb_cycle s - sb_complete s)"

definition candidates :: "sub_env \<Rightarrow> sub_state \<Rightarrow> nat set" where
  "candidates en s = {q. q < se_n_queues en \<and> (\<exists>t. sb_locks s q = Some t \<and> candidate (sb_complete s) (sb_pc s t))}"

definition lock_inv :: "sub_env \<Rightarrow> sub_state \<Rightarrow> bool" where
  "lock_inv en s = ((\<forall>q t. sb_locks s q = Some t \<longleftrightarrow> holds_lock (se_n_queues en) (se_queue en t) (sb_pc s t) q) \<and>
     (\<forall>t j. sb_pc s t = Boot j \<longrightarrow> j \<le> se_n_queues en))"

definition epoch_inv :: "sub_env \<Rightarrow> sub_state \<Rightarrow> bool" where
  "epoch_inv en s =
     ((\<forall>t c. in_flight (sb_pc s t) = Some c \<longrightarrow> c = sb_complete s) \<and>
      (pending s \<noteq> 0 \<longrightarrow> pending s + card (candidates en s) \<le> se_n_queues en) \<and>
      ((\<exists>t. restarting (sb_pc s t)) = (pending s \<noteq> 0)) \<and>
      (\<forall>t u. restarting (sb_pc s t) \<longrightarrow> restarting (sb_pc s u) \<longrightarrow> t = u) \<and>
      (\<forall>t rc c. sb_pc s t = Read_Cycle rc c \<longrightarrow> c = sb_cycle s))"

definition submit_inv :: "sub_env \<Rightarrow> sub_state \<Rightarrow> bool" where
  "submit_inv en s = (lock_inv en s \<and> epoch_inv en s)"

lemma submit_initial_inv: "submit_initial s \<Longrightarrow> submit_inv en s"
  by (simp add: submit_initial_def submit_inv_def lock_inv_def epoch_inv_def pending_def)

lemma goto_simps [simp]:
  "sb_pc (goto t p s) u = (if u = t then p else sb_pc s u)" "sb_locks (goto t p s) = sb_locks s"
  "sb_cycle (goto t p s) = sb_cycle s" "sb_complete (goto t p s) = sb_complete s" "sb_off (goto t p s) = sb_off s"
  "sb_pc (set_lock q l s) = sb_pc s" "sb_locks (set_lock q l s) i = (if i = q then l else sb_locks s i)"
  "sb_cycle (set_lock q l s) = sb_cycle s" "sb_complete (set_lock q l s) = sb_complete s"
  "sb_off (set_lock q l s) = sb_off s"
  by (simp_all add: goto_def set_lock_def)

text \<open>The transitions, one by one.\<close>

lemma submit_step_elim:
  assumes "submit_step en t ch s = Some s'"
  obtains
    (lock) "sb_pc s t = Retry" "sb_locks s (se_queue en t) = None"
      "s' = goto t Locked (set_lock (se_queue en t) (Some t) s)"
  | (read) "sb_pc s t = Locked" "s' = goto t (Got (sb_cycle s)) s"
  | (retry) c where "sb_pc s t = Got c" "c \<noteq> sb_complete s" "s' = goto t Retry (set_lock (se_queue en t) None s)"
  | (off) c where "sb_pc s t = Got c" "s' = goto t (Finish (Error ENODEV) False) s"
  | (send) c where "sb_pc s t = Got c" "c = sb_complete s" "s' = goto t (Cmd c) s"
  | (answer) c r where "sb_pc s t = Cmd c" "s' = goto t (Finish r False) s"
  | (busy) c where "sb_pc s t = Cmd c" "s' = goto t (Incr c) s"
  | (incr) c where "sb_pc s t = Incr c"
      "s' = goto t (if sb_cycle s + 1 = c + 1 then Boot 0 else Finish (Error EBUSY) False) (s\<lparr>sb_cycle := sb_cycle s + 1\<rparr>)"
  | (own) i where "sb_pc s t = Boot i" "i < se_n_queues en" "i = se_queue en t" "s' = goto t (Boot (i + 1)) s"
  | (take_lock) i where "sb_pc s t = Boot i" "i < se_n_queues en" "i \<noteq> se_queue en t" "sb_locks s i = None"
      "s' = goto t (Boot (i + 1)) (set_lock i (Some t) s)"
  | (boot) i rc off where "sb_pc s t = Boot i" "se_n_queues en \<le> i" "s' = goto t (Booted rc) (s\<lparr>sb_off := off\<rparr>)"
  | (cycle) rc where "sb_pc s t = Booted rc" "s' = goto t (Read_Cycle rc (sb_cycle s)) s"
  | (store) rc c where "sb_pc s t = Read_Cycle rc c" "s' = goto t (Unlock 0 rc) (s\<lparr>sb_complete := c\<rparr>)"
  | (keep) i rc where "sb_pc s t = Unlock i rc" "i < se_n_queues en" "i = se_queue en t" "s' = goto t (Unlock (i + 1) rc) s"
  | (unlock) i rc where "sb_pc s t = Unlock i rc" "i < se_n_queues en" "i \<noteq> se_queue en t"
      "s' = goto t (Unlock (i + 1) rc) (set_lock i None s)"
  | (unlocked) i rc where "sb_pc s t = Unlock i rc" "se_n_queues en \<le> i"
      "s' = goto t (case rc of Inl e \<Rightarrow> Finish (Inl e) (sb_off s) | Inr _ \<Rightarrow> Finish (Error EBUSY) False) s"
  | (finish) r w where "sb_pc s t = Finish r w" "s' = goto t (Done r w) (set_lock (se_queue en t) None s)"
proof (cases "sb_pc s t")
  case Retry
  then show thesis using assms lock by (simp add: submit_step_def Let_def split: if_splits)
next
  case Locked
  then show thesis using assms read by (simp add: submit_step_def)
next
  case (Got c)
  then show thesis using assms retry [OF Got] off [OF Got] send [OF Got] by (simp add: submit_step_def Let_def split: if_splits)
next
  case (Cmd c)
  then show thesis
    using assms answer [OF Cmd] busy [OF Cmd] by (cases ch) (auto simp: submit_step_def Let_def split: if_splits)
next
  case (Incr c)
  then show thesis using assms incr [OF Incr] by (simp add: submit_step_def Let_def)
next
  case (Boot i)
  then show thesis
    using assms own [OF Boot] take_lock [OF Boot] boot [OF Boot]
    by (cases ch) (auto simp: submit_step_def Let_def split: if_splits)
next
  case (Booted rc)
  then show thesis using assms cycle [OF Booted] by (simp add: submit_step_def)
next
  case (Read_Cycle rc c)
  then show thesis using assms store [OF Read_Cycle] by (simp add: submit_step_def)
next
  case (Unlock i rc)
  then show thesis
    using assms keep [OF Unlock] unlock [OF Unlock] unlocked [OF Unlock]
    by (simp add: submit_step_def Let_def split: if_splits)
next
  case (Finish r w)
  then show thesis using assms finish [OF Finish] by (simp add: submit_step_def Let_def)
next
  case (Done r w)
  then show thesis using assms by (simp add: submit_step_def)
qed

text \<open>What one step does to the program counters: only the thread's own moves.\<close>

lemma submit_step_pc:
  assumes "submit_step en t ch s = Some s'"
  shows "sb_pc s' = (sb_pc s)(t := sb_pc s' t)"
  using assms by (rule submit_step_elim) (simp_all add: goto_def set_lock_def)

lemma lock_inv_upd:
  assumes "lock_inv en s" "sb_pc s' = (sb_pc s)(t := p)"
    "\<And>i. sb_locks s' i = Some t \<longleftrightarrow> holds_lock (se_n_queues en) (se_queue en t) p i"
    "\<And>i u. u \<noteq> t \<Longrightarrow> sb_locks s' i = Some u \<longleftrightarrow> sb_locks s i = Some u"
    "\<And>j. p = Boot j \<Longrightarrow> j \<le> se_n_queues en"
  shows "lock_inv en s'"
  using assms by (auto simp: lock_inv_def)

lemma submit_lock_inv:
  assumes "sub_env_ok en" "lock_inv en s" "submit_step en t ch s = Some s'"
  shows "lock_inv en s'"
proof -
  have q: "se_queue en t < se_n_queues en" using assms(1) by (simp add: sub_env_ok_def)
  have l: "sb_locks s i = Some t \<longleftrightarrow> holds_lock (se_n_queues en) (se_queue en t) (sb_pc s t) i" for i
    using assms(2) unfolding lock_inv_def by blast
  have b: "sb_pc s t = Boot j \<Longrightarrow> j \<le> se_n_queues en" for j using assms(2) unfolding lock_inv_def by blast
  show ?thesis
  proof (rule lock_inv_upd [OF assms(2) submit_step_pc [OF assms(3)]])
    fix i
    show "sb_locks s' i = Some t \<longleftrightarrow> holds_lock (se_n_queues en) (se_queue en t) (sb_pc s' t) i"
      using assms(3) by (rule submit_step_elim) (use l [of i] b q in \<open>auto split: sum.split\<close>)
  next
    fix i u assume "u \<noteq> t"
    then show "sb_locks s' i = Some u \<longleftrightarrow> sb_locks s i = Some u"
      using assms(3) by (elim submit_step_elim) (use l [of i] q in auto)
  next
    fix j
    show "sb_pc s' t = Boot j \<Longrightarrow> j \<le> se_n_queues en"
      using assms(3) by (rule submit_step_elim) (use b q in \<open>auto split: sum.splits if_splits\<close>)
  qed
qed

lemma pending_0: "pending s = 0 \<longleftrightarrow> sb_cycle s = sb_complete s"
  by (simp add: pending_def unat_eq_0)

lemma epoch_inv_keep:
  assumes "epoch_inv en s" "sb_pc s' = (sb_pc s)(t := p)" "sb_cycle s' = sb_cycle s" "sb_complete s' = sb_complete s"
    "\<And>i u. u \<noteq> t \<Longrightarrow> sb_locks s' i = Some u \<Longrightarrow> sb_locks s i = Some u"
    "\<And>c. in_flight p = Some c \<Longrightarrow> c = sb_complete s" "restarting p = restarting (sb_pc s t)"
    "\<And>rc c. p = Read_Cycle rc c \<Longrightarrow> c = sb_cycle s"
    "\<And>i. sb_cycle s \<noteq> sb_complete s \<Longrightarrow> sb_locks s' i = Some t \<Longrightarrow> candidate (sb_complete s) p \<Longrightarrow>
      sb_locks s i = Some t \<and> candidate (sb_complete s) (sb_pc s t)"
  shows "epoch_inv en s'"
proof -
  have pd: "pending s' = pending s" using assms(3,4) by (simp add: pending_def)
  have "card (candidates en s') \<le> card (candidates en s)" if "pending s \<noteq> 0"
  proof (rule card_mono)
    show "finite (candidates en s)" by (simp add: candidates_def)
    show "candidates en s' \<subseteq> candidates en s"
      using assms(2,4,5,9) that pending_0 [of s] by (auto simp: candidates_def split: if_splits)
  qed
  moreover have r: "restarting (sb_pc s' u) = restarting (sb_pc s u)" for u using assms(2,7) by simp
  moreover have "in_flight (sb_pc s' u) = Some c \<Longrightarrow> c = sb_complete s'" for u c
    using assms(1,2,4,6) unfolding epoch_inv_def by (cases "u = t") auto
  moreover have "sb_pc s' u = Read_Cycle rc c \<Longrightarrow> c = sb_cycle s'" for u rc c
    using assms(1,2,3,8) unfolding epoch_inv_def by (cases "u = t") auto
  ultimately show ?thesis
    using assms(1) unfolding epoch_inv_def pd r by (meson add_le_cancel_left le_trans)
qed

lemma submit_epoch_inv:
  assumes "sub_env_ok en" "lock_inv en s" "epoch_inv en s" "submit_step en t ch s = Some s'"
  shows "epoch_inv en s'"
proof -
  have q: "se_queue en u < se_n_queues en" for u using assms(1) by (simp add: sub_env_ok_def)
  have l: "sb_locks s i = Some u \<longleftrightarrow> holds_lock (se_n_queues en) (se_queue en u) (sb_pc s u) i" for i u
    using assms(2) unfolding lock_inv_def by blast
  have fl: "in_flight (sb_pc s u) = Some c \<Longrightarrow> c = sb_complete s" for u c
    using assms(3) unfolding epoch_inv_def by blast
  note upd = submit_step_pc [OF assms(4)]
  have rd: "sb_pc s u = Read_Cycle r x \<Longrightarrow> x = sb_cycle s" for u r x
    using assms(3) unfolding epoch_inv_def by blast
  have all: "u = v" if "sb_pc s u = Read_Cycle r x" "holds_lock (se_n_queues en) (se_queue en v) (sb_pc s v) i" "i < se_n_queues en"
    for u v r x i
    using l [of i u] l [of i v] that by simp
  consider (incr) c where "sb_pc s t = Incr c" | (store) rc c where "sb_pc s t = Read_Cycle rc c"
    | (other) "\<And>c. sb_pc s t \<noteq> Incr c" "\<And>rc c. sb_pc s t \<noteq> Read_Cycle rc c" by blast
  then show ?thesis
  proof cases
    case other
    show ?thesis
    proof (rule epoch_inv_keep [OF assms(3) upd])
      show "sb_cycle s' = sb_cycle s" "sb_complete s' = sb_complete s"
        using assms(4) other by (auto elim!: submit_step_elim)
      show "sb_locks s' i = Some u \<Longrightarrow> sb_locks s i = Some u" if "u \<noteq> t" for i u
        using assms(4) by (rule submit_step_elim) (use that in \<open>auto split: if_splits\<close>)
      show "in_flight (sb_pc s' t) = Some c \<Longrightarrow> c = sb_complete s" for c
        using assms(4) by (rule submit_step_elim) (use fl [of t] in \<open>auto split: if_splits sum.splits\<close>)
      show "restarting (sb_pc s' t) = restarting (sb_pc s t)"
        using assms(4) by (rule submit_step_elim) (use other in \<open>auto split: sum.splits\<close>)
      show "sb_pc s' t = Read_Cycle rc c \<Longrightarrow> c = sb_cycle s" for rc c
        using assms(4) by (rule submit_step_elim) (auto split: if_splits sum.splits)
      show "sb_locks s i = Some t \<and> candidate (sb_complete s) (sb_pc s t)"
        if "sb_cycle s \<noteq> sb_complete s" "sb_locks s' i = Some t" "candidate (sb_complete s) (sb_pc s' t)" for i
        using assms(4) by (rule submit_step_elim) (use that fl [of t] in \<open>auto split: if_splits sum.splits\<close>)
    qed
  next
    case (incr c)
    then have c: "c = sb_complete s" using fl [of t c] by simp
    have s': "s' = goto t (if sb_cycle s + 1 = c + 1 then Boot 0 else Finish (Error EBUSY) False) (s\<lparr>sb_cycle := sb_cycle s + 1\<rparr>)"
      using assms(4) incr by (simp add: submit_step_def Let_def)
    let ?n = "se_n_queues en" and ?A = "candidates en s"
    have tA: "se_queue en t \<in> ?A" using incr l [of "se_queue en t" t] q [of t] c by (auto simp: candidates_def)
    have fin: "finite ?A" "?A \<subseteq> {..<?n}" by (auto simp: candidates_def)
    have lt: "sb_locks s (se_queue en t) = Some t" using l [of "se_queue en t" t] incr by simp
    have sub: "candidates en s' \<subseteq> ?A - {se_queue en t}"
      using incr lt by (auto simp: candidates_def s' split: if_splits)
    have less: "card (candidates en s') < card ?A"
      using sub tA fin(1) by (intro psubset_card_mono) auto
    have An: "card ?A \<le> ?n" using card_mono [OF _ fin(2)] by simp
    have pn: "pending s + card ?A \<le> ?n \<or> pending s = 0" using assms(3) unfolding epoch_inv_def by blast
    have "pending s < 2 ^ 32 - 1" using pn assms(1) by (auto simp: sub_env_ok_def)
    moreover have "pending s' = unat (sb_cycle s - sb_complete s + 1)" by (simp add: pending_def s' algebra_simps)
    ultimately have pd: "pending s' = pending s + 1"
      unfolding pending_def by (simp add: unat_add_u32)
    have bound: "pending s' + card (candidates en s') \<le> ?n"
      using pd pn less An by auto
    have win: "sb_cycle s + 1 = c + 1 \<longleftrightarrow> pending s = 0" using c by (simp add: pending_0)
    have none: "\<not> restarting (sb_pc s u)" if "pending s = 0" for u
      using assms(3) that unfolding epoch_inv_def by blast
    have no_rd: "sb_pc s u \<noteq> Read_Cycle r x" for u r x
      using all [of u r x t "se_queue en t"] incr q [of t] by auto
    have one: "restarting (sb_pc s u) \<Longrightarrow> restarting (sb_pc s v) \<Longrightarrow> u = v" for u v
      using assms(3) unfolding epoch_inv_def by blast
    show ?thesis
      unfolding epoch_inv_def
    proof (intro conjI allI impI)
      fix u d assume "in_flight (sb_pc s' u) = Some d"
      then show "d = sb_complete s'" using fl [of u d] by (auto simp: s' split: if_splits)
    next
      show "pending s' + card (candidates en s') \<le> ?n" using bound .
    next
      have "\<exists>u. restarting (sb_pc s' u)"
      proof (cases "pending s = 0")
        case True
        then show ?thesis using win by (intro exI [of _ t]) (simp add: s')
      next
        case False
        then obtain u where "restarting (sb_pc s u)" using assms(3) unfolding epoch_inv_def by blast
        then show ?thesis using incr by (intro exI [of _ u]) (auto simp: s')
      qed
      then show "(\<exists>u. restarting (sb_pc s' u)) = (pending s' \<noteq> 0)" using pd by simp
    next
      fix u v assume "restarting (sb_pc s' u)" "restarting (sb_pc s' v)"
      then show "u = v" using one [of u v] win none by (auto simp: s' split: if_splits)
    next
      fix u r x assume "sb_pc s' u = Read_Cycle r x"
      then show "x = sb_cycle s'" using no_rd by (auto simp: s' split: if_splits)
    qed
  next
    case (store rc c)
    have s': "s' = goto t (Unlock 0 rc) (s\<lparr>sb_complete := c\<rparr>)"
      using assms(4) store by (simp add: submit_step_def Let_def)
    have c: "c = sb_cycle s" using rd store by simp
    have nf: "in_flight (sb_pc s u) = None" for u
      using all [OF store, of u "se_queue en u"] q [of u] store by (cases "sb_pc s u") auto
    have one: "restarting (sb_pc s u) \<Longrightarrow> u = t" for u
      using assms(3) store unfolding epoch_inv_def by (metis restarting.simps(3))
    have "pending s' = 0" by (simp add: pending_def s' c)
    then show ?thesis
      using nf one store by (auto simp: epoch_inv_def s' split: if_splits)
  qed
qed


section \<open>What the protocol guarantees\<close>

lemma submit_rel_inv: "sub_env_ok en \<Longrightarrow> submit_inv en s \<Longrightarrow> submit_rel en s s' \<Longrightarrow> submit_inv en s'"
  unfolding submit_rel_def submit_inv_def using submit_lock_inv submit_epoch_inv by blast

interpretation submit: invariant_system submit_initial "\<lambda>s s'. sub_env_ok en \<and> submit_rel en s s'" "submit_inv en"
  by unfold_locales (auto intro: submit_initial_inv submit_rel_inv)

definition submit_reach :: "sub_env \<Rightarrow> sub_state \<Rightarrow> bool" where
  "submit_reach en s = (\<exists>s0. submit_initial s0 \<and> (\<lambda>s s'. sub_env_ok en \<and> submit_rel en s s')\<^sup>*\<^sup>* s0 s)"

lemma submit_reach_inv: "submit_reach en s \<Longrightarrow> submit_inv en s"
  unfolding submit_reach_def using submit.reachable_inv by blast

lemma holds_lock_own: "submit_inv en s \<Longrightarrow> sb_pc s t \<noteq> Retry \<Longrightarrow> \<forall>r w. sb_pc s t \<noteq> Done r w \<Longrightarrow> sub_env_ok en \<Longrightarrow>
    sb_locks s (se_queue en t) = Some t"
  by (cases "sb_pc s t") (auto simp: submit_inv_def lock_inv_def sub_env_ok_def)

fun all_locked :: "nat \<Rightarrow> spc \<Rightarrow> bool" where
  "all_locked n (Boot i) = (i = n)"
| "all_locked n (Booted rc) = True"
| "all_locked n (Read_Cycle rc c) = True"
| "all_locked n _ = False"

text \<open>
  C3: At most one thread restarts the firmware, and from the moment it has all the locks
  until it has stored the completed cycle no other thread holds a lock or has a command in
  flight: the firmware is never restarted under a command, nor twice at a time.
\<close>

theorem firmware_restart_exclusive:
  assumes "submit_reach en s" "sub_env_ok en" "restarting (sb_pc s t)" "u \<noteq> t"
  shows "\<not> restarting (sb_pc s u) \<and>
    (all_locked (se_n_queues en) (sb_pc s t) \<longrightarrow> (\<forall>i. sb_locks s i \<noteq> Some u) \<and> in_flight (sb_pc s u) = None)"
proof -
  have inv: "submit_inv en s" using submit_reach_inv [OF assms(1)] .
  have nr: "\<not> restarting (sb_pc s u)"
    using inv assms(3,4) unfolding submit_inv_def epoch_inv_def by blast
  have own: "sb_locks s i = Some v \<longleftrightarrow> holds_lock (se_n_queues en) (se_queue en v) (sb_pc s v) i" for i v
    using inv unfolding submit_inv_def lock_inv_def by blast
  have "sb_pc s u = Retry \<or> (\<exists>r w. sb_pc s u = Done r w)" if "all_locked (se_n_queues en) (sb_pc s t)"
  proof (rule ccontr)
    assume "\<not> (sb_pc s u = Retry \<or> (\<exists>r w. sb_pc s u = Done r w))"
    then have "sb_locks s (se_queue en u) = Some u" using holds_lock_own [OF inv _ _ assms(2)] by blast
    moreover have "sb_locks s (se_queue en u) = Some t"
      using that own [of "se_queue en u" t] assms(2) by (cases "sb_pc s t") (auto simp: sub_env_ok_def)
    ultimately show False using assms(4) by simp
  qed
  then show ?thesis using nr own by auto
qed

lemma submit_enabled:
  assumes "sb_pc s t \<noteq> Retry" "\<forall>i. sb_pc s t \<noteq> Boot i" "\<forall>r w. sb_pc s t \<noteq> Done r w"
  shows "\<exists>ch s'. submit_step en t ch s = Some s'"
proof (cases "sb_pc s t")
  case (Cmd c)
  then have "\<exists>s'. submit_step en t (Result (Ok ()) False) s = Some s'" by (simp add: submit_step_def)
  then show ?thesis by blast
qed (use assms in \<open>simp_all add: submit_step_def Let_def\<close>)

text \<open>
  C23: The protocol does not deadlock: as long as some thread has not finished, some thread
  can take a step, in particular a thread that collects the locks for a restart never waits
  for one that waits for it.
\<close>

theorem submit_progress:
  assumes "submit_reach en s" "sub_env_ok en" "\<forall>r w. sb_pc s t \<noteq> Done r w"
  shows "\<exists>s'. submit_rel en s s'"
proof -
  have inv: "submit_inv en s" using submit_reach_inv [OF assms(1)] .
  have l: "sb_locks s i = Some u \<Longrightarrow> holds_lock (se_n_queues en) (se_queue en u) (sb_pc s u) i" for i u
    using inv unfolding submit_inv_def lock_inv_def by blast
  have boot: "\<exists>s'. submit_rel en s s'" if "sb_pc s u = Boot i" for u i
  proof (cases "i < se_n_queues en \<and> i \<noteq> se_queue en u \<and> sb_locks s i \<noteq> None")
    case True
    then obtain v where v: "sb_locks s i = Some v" by blast
    have "v \<noteq> u" using l [OF v] that True by auto
    then have "\<not> restarting (sb_pc s v)"
      using inv that unfolding submit_inv_def epoch_inv_def by (metis restarting.simps(1))
    then have "\<exists>ch s'. submit_step en v ch s = Some s'"
      using submit_enabled [of s v en] l [OF v] by (metis holds_lock.simps(1,2) restarting.simps(1))
    then show ?thesis by (auto simp: submit_rel_def)
  next
    case False
    have "\<exists>s'. submit_step en u (Boot_Result (Ok ()) False) s = Some s'"
      using False that by (auto simp: submit_step_def Let_def)
    then show ?thesis by (auto simp: submit_rel_def)
  qed
  have live: "\<exists>s'. submit_rel en s s'" if "sb_pc s u \<noteq> Retry" "\<forall>r w. sb_pc s u \<noteq> Done r w" for u
  proof (cases "\<exists>i. sb_pc s u = Boot i")
    case True
    then show ?thesis using boot by blast
  next
    case False
    then show ?thesis using submit_enabled [of s u en] that by (auto simp: submit_rel_def)
  qed
  show ?thesis
  proof (cases "sb_pc s t = Retry")
    case True
    show ?thesis
    proof (cases "sb_locks s (se_queue en t)")
      case None
      then have "\<exists>s'. submit_step en t Go s = Some s'" using True by (simp add: submit_step_def)
      then show ?thesis by (auto simp: submit_rel_def)
    next
      case (Some u)
      then show ?thesis using l [OF Some] live [of u] by (metis holds_lock.simps(1,2))
    qed
  next
    case False
    then show ?thesis using live assms(3) by blast
  qed
qed

text \<open>
  The counters differ exactly while some thread is restarting the firmware: a thread in
  the retry loop never waits for a restart that nobody performs. A command in flight always
  belongs to the completed cycle.
\<close>

theorem submit_epoch:
  assumes "submit_reach en s"
  shows "(sb_cycle s \<noteq> sb_complete s) = (\<exists>t. restarting (sb_pc s t)) \<and>
    (\<forall>t c. in_flight (sb_pc s t) = Some c \<longrightarrow> c = sb_complete s)"
  using submit_reach_inv [OF assms] unfolding submit_inv_def epoch_inv_def pending_0 [symmetric] by blast

text \<open>
  The priority of a command is respected: with the queues ordered by rising priority a
  command with the larger priority field goes to a queue of the same or a larger priority,
  and the queue exists.
\<close>

theorem submit_queue_priority:
  assumes "1 < n" "mset ordered = mset [0..<n]" "sorted (map prio ordered)"
    "submit_queue f1 n ordered = Ok q1" "submit_queue f2 n ordered = Ok q2"
    "f1 AND QUEUE_FLAG_PRIO \<le> f2 AND QUEUE_FLAG_PRIO"
  shows "q1 < n \<and> q2 < n \<and> (prio q1 :: u32) \<le> prio q2"
proof -
  define ix where "ix f = (let k = unat (drop_bit QUEUE_FLAG_PRIO_SHIFT (f AND QUEUE_FLAG_PRIO)) in if n \<le> k then n - 1 else k)"
    for f :: u32
  have len: "length ordered = n" using assms(2) by (metis length_upt mset_eq_length diff_zero)
  have set: "set ordered = {0..<n}" using assms(2) by (metis atLeast_upt atLeastLessThan_upt mset_eq_setD)
  have q: "q1 = ordered ! ix f1" "q2 = ordered ! ix f2"
    using assms(1,4,5) by (simp_all add: submit_queue_def ix_def Let_def split: if_splits)
  have lt: "ix f < n" for f using assms(1) by (auto simp: ix_def Let_def)
  have clip: "a \<le> b \<Longrightarrow> (if n \<le> a then n - 1 else a) \<le> (if n \<le> b then n - 1 else b)" for a b :: nat by auto
  have d: "unat (drop_bit 8 x) = unat x div 2 ^ 8" for x :: u32
    by (simp only: unat_drop_bit_eq) (simp only: drop_bit_eq_div)
  have "unat (f1 AND QUEUE_FLAG_PRIO) \<le> unat (f2 AND QUEUE_FLAG_PRIO)" using assms(6) by (simp add: word_le_nat_alt)
  then have "unat (drop_bit 8 (f1 AND QUEUE_FLAG_PRIO)) \<le> unat (drop_bit 8 (f2 AND QUEUE_FLAG_PRIO))"
    unfolding d by (rule div_le_mono)
  then have "ix f1 \<le> ix f2" unfolding ix_def Let_def by (rule clip)
  then have "map prio ordered ! ix f1 \<le> map prio ordered ! ix f2"
    using assms(3) lt [of f2] len by (intro sorted_nth_mono) simp_all
  then show ?thesis using q lt len set nth_mem [of "ix f1" ordered] nth_mem [of "ix f2" ordered] by auto
qed

theorem submit_queue_priority_witness:
  "submit_queue 0x0100 2 [1, 0] = Ok 0 \<and> submit_queue 0 2 [1, 0] = Ok 1 \<and> ((\<lambda>q. if q = 0 then 9 else 4) (1 :: nat) :: u32) \<le> 9"
proof -
  have e: "submit_queue 0 2 [1, 0] = Ok 1" "submit_queue 0x0100 2 [1, 0] = Ok 0"
    by (simp_all add: submit_queue_def)
  show ?thesis
    using submit_queue_priority [where n = 2 and ordered = "[1, 0]" and prio = "\<lambda>q. if q = 0 then 9 else 4", OF _ _ _ e] e
    by simp
qed

text \<open>Runs of the protocol, to reach concrete states.\<close>

fun submit_run :: "sub_env \<Rightarrow> (nat \<times> choice) list \<Rightarrow> sub_state \<Rightarrow> sub_state option" where
  "submit_run en [] s = Some s"
| "submit_run en ((t, ch) # xs) s =
    (case submit_step en t ch s of None \<Rightarrow> None | Some s' \<Rightarrow> submit_run en xs s')"

lemma submit_run_reach:
  "submit_run en xs s = Some s' \<Longrightarrow> sub_env_ok en \<Longrightarrow> submit_reach en s \<Longrightarrow> submit_reach en s'"
proof (induction xs arbitrary: s)
  case Nil
  then show ?case by simp
next
  case (Cons x xs)
  obtain t ch where x: "x = (t, ch)" by (cases x)
  then obtain s1 where s1: "submit_step en t ch s = Some s1" "submit_run en xs s1 = Some s'"
    using Cons.prems(1) by (auto split: option.splits)
  have "sub_env_ok en \<and> submit_rel en s s1" using Cons.prems(2) s1(1) by (auto simp: submit_rel_def)
  then have "submit_reach en s1"
    using Cons.prems(3) unfolding submit_reach_def by (blast intro: rtranclp.rtrancl_into_rtrancl)
  then show ?case using Cons.IH s1(2) Cons.prems(2) by blast
qed

definition two_queues :: sub_env where
  "two_queues = \<lparr>se_n_queues = 2, se_queue = (\<lambda>t. if t = 0 then 0 else 1), se_firmware_reboot = True\<rparr>"

definition at_rest :: sub_state where
  "at_rest = \<lparr>sb_cycle = 7, sb_complete = 7, sb_locks = (\<lambda>q. None), sb_off = False, sb_pc = (\<lambda>t. Retry)\<rparr>"

lemma at_rest_reach: "submit_reach two_queues at_rest"
  unfolding submit_reach_def submit_initial_def
  by (intro exI [of _ at_rest]) (simp add: at_rest_def)

lemma two_queues_ok: "sub_env_ok two_queues"
  by (simp add: sub_env_ok_def two_queues_def)

text \<open>Two commands time out; the first thread restarts, after the second gave up its lock.\<close>

definition double_timeout :: "(nat \<times> choice) list" where
  "double_timeout = [(0, Go), (1, Go), (0, Go), (1, Go), (0, Go), (1, Go), (0, Result (Error EBUSY) False),
     (1, Result (Error EBUSY) False), (0, Go), (1, Go), (0, Go), (1, Go), (0, Go)]"

lemma double_timeout_run:
  "\<exists>s. submit_run two_queues double_timeout at_rest = Some s \<and> sb_pc s 0 = Boot 2 \<and> sb_pc s 1 = Done (Error EBUSY) False \<and>
     sb_pc s 2 = Retry \<and> sb_cycle s = 9"
  by (simp add: double_timeout_def submit_step_def two_queues_def at_rest_def Let_def)

theorem firmware_restart_exclusive_witness:
  "\<exists>s. submit_run two_queues double_timeout at_rest = Some s \<and> restarting (sb_pc s 0) \<and> \<not> restarting (sb_pc s 2) \<and>
     in_flight (sb_pc s 2) = None"
proof -
  obtain s where s: "submit_run two_queues double_timeout at_rest = Some s" "sb_pc s 0 = Boot 2"
    using double_timeout_run by blast
  have r: "submit_reach two_queues s" using submit_run_reach [OF s(1) two_queues_ok at_rest_reach] .
  have "restarting (sb_pc s 0)" "all_locked (se_n_queues two_queues) (sb_pc s 0)" using s(2) by (simp_all add: two_queues_def)
  then show ?thesis using firmware_restart_exclusive [OF r two_queues_ok, of 0 2] s(1) by auto
qed

theorem submit_progress_witness:
  "\<exists>s s'. submit_run two_queues double_timeout at_rest = Some s \<and> submit_rel two_queues s s'"
proof -
  obtain s where s: "submit_run two_queues double_timeout at_rest = Some s" "sb_pc s 0 = Boot 2"
    using double_timeout_run by blast
  have r: "submit_reach two_queues s" using submit_run_reach [OF s(1) two_queues_ok at_rest_reach] .
  show ?thesis using submit_progress [OF r two_queues_ok, of 0] s by auto
qed

theorem submit_epoch_witness:
  "\<exists>s. submit_run two_queues double_timeout at_rest = Some s \<and> sb_cycle s \<noteq> sb_complete s"
proof -
  obtain s where s: "submit_run two_queues double_timeout at_rest = Some s" "sb_pc s 0 = Boot 2"
    using double_timeout_run by blast
  have r: "submit_reach two_queues s" using submit_run_reach [OF s(1) two_queues_ok at_rest_reach] .
  have "restarting (sb_pc s 0)" using s(2) by simp
  then show ?thesis using submit_epoch [OF r] s(1) by blast
qed

end
