(* ===== verification/Obj_Store.thy ===== *)
theory Obj_Store
  imports Share
begin

unbundle bit_operations_syntax

text \<open>
  The allocation objects of the driver as a reference-counted store: \<open>allocate_obj\<close>, \<open>get_obj\<close>
  and \<open>put_obj\<close> of the sharing component keep the counts and the separation of the regions.
  The files of the driver use the objects only through this contract.
\<close>

definition objs_counted :: "(nat \<Rightarrow> nat) \<Rightarrow> share_state \<Rightarrow> bool" where
  "objs_counted r s =
    (pool_wf (ss_pool s) \<and> (\<forall>i. (ss_allocs s i = None) = (r i = 0)) \<and>
     (\<forall>i a. ss_allocs s i = Some a \<longrightarrow> i < ss_next s \<and> unat (al_ref a) = r i \<and>
        (al_pool a = Private_Pool_Ops \<longrightarrow> al_size a \<noteq> 0) \<and>
        region a \<subseteq> pool_bytes (ss_pool s) \<and> region a \<inter> pool_free (ss_pool s) = {}) \<and>
     (\<forall>i j a b. ss_allocs s i = Some a \<longrightarrow> ss_allocs s j = Some b \<longrightarrow> i \<noteq> j \<longrightarrow> region a \<inter> region b = {}))"

lemma pool_free_bytes: "pool_wf p \<Longrightarrow> pool_free p \<subseteq> pool_bytes p"
  using ibytes_bounds by (fastforce simp: pool_free_def pool_bytes_def pool_wf_def)

lemma objs_live: "objs_counted r s \<Longrightarrow> 0 < r i \<Longrightarrow> \<exists>a. ss_allocs s i = Some a \<and> unat (al_ref a) = r i"
  unfolding objs_counted_def by (metis not_less_iff_gr_or_eq option.exhaust)

lemma objs_old:
  assumes "objs_counted r s" "ss_allocs s i = Some a"
  shows "i < ss_next s" "unat (al_ref a) = r i" "al_pool a = Private_Pool_Ops \<Longrightarrow> al_size a \<noteq> 0"
    "region a \<subseteq> pool_bytes (ss_pool s)" "region a \<inter> pool_free (ss_pool s) = {}"
    "\<And>j b. ss_allocs s j = Some b \<Longrightarrow> i \<noteq> j \<Longrightarrow> region a \<inter> region b = {}"
  using assms unfolding objs_counted_def by blast+

lemma objs_disj:
  assumes "objs_counted r s" "ss_allocs s i = Some a" "x \<in> region a"
  shows "x \<notin> pool_free (ss_pool s)" "ss_allocs s j = Some b \<Longrightarrow> j \<noteq> i \<Longrightarrow> x \<notin> region b"
  using objs_old(5) [OF assms(1,2)] objs_old(6) [OF assms(1,2), of j b] assms(3) by blast+

text \<open>One object changes, together with the free list.\<close>

lemma objs_update:
  assumes c: "objs_counted r s"
    and p: "pool_wf (ss_pool s')" "pool_bytes (ss_pool s') = pool_bytes (ss_pool s)"
    and s': "ss_allocs s' = (ss_allocs s)(i := x)" "ss_next s \<le> ss_next s'" "(x = None) = (n = 0)"
    and a: "\<And>a. x = Some a \<Longrightarrow> i < ss_next s' \<and> unat (al_ref a) = n \<and> (al_pool a = Private_Pool_Ops \<longrightarrow> al_size a \<noteq> 0) \<and>
      region a \<subseteq> pool_bytes (ss_pool s) \<and> region a \<inter> pool_free (ss_pool s') = {}"
    and d: "\<And>j b. j \<noteq> i \<Longrightarrow> ss_allocs s j = Some b \<Longrightarrow> region b \<inter> pool_free (ss_pool s') = {}"
      "\<And>a j b. x = Some a \<Longrightarrow> j \<noteq> i \<Longrightarrow> ss_allocs s j = Some b \<Longrightarrow> region a \<inter> region b = {}"
  shows "objs_counted (r(i := n)) s'"
  unfolding objs_counted_def
proof (intro conjI allI impI)
  show "pool_wf (ss_pool s')" by (rule p)
  show "(ss_allocs s' j = None) = ((r(i := n)) j = 0)" for j
    using c s'(1,3) unfolding objs_counted_def by simp
next
  fix j b assume b: "ss_allocs s' j = Some b"
  have "j < ss_next s' \<and> unat (al_ref b) = (r(i := n)) j \<and> (al_pool b = Private_Pool_Ops \<longrightarrow> al_size b \<noteq> 0) \<and>
      region b \<subseteq> pool_bytes (ss_pool s') \<and> region b \<inter> pool_free (ss_pool s') = {}"
  proof (cases "j = i")
    case True
    then show ?thesis using b s'(1) a [of b] p(2) by simp
  next
    case False
    then show ?thesis using b s'(1,2) objs_old [OF c, of j b] d(1) [of j b] p(2) by auto
  qed
  then show "j < ss_next s'" "unat (al_ref b) = (r(i := n)) j" "al_pool b = Private_Pool_Ops \<Longrightarrow> al_size b \<noteq> 0"
      "region b \<subseteq> pool_bytes (ss_pool s')" "region b \<inter> pool_free (ss_pool s') = {}" by blast+
next
  fix j k b e assume jk: "ss_allocs s' j = Some b" "ss_allocs s' k = Some e" "j \<noteq> k"
  then show "region b \<inter> region e = {}"
    using s'(1) objs_old(6) [OF c, of j b k e] d(2) [of b k e] d(2) [of e j b] by (auto split: if_splits)
qed

lemma objs_get:
  assumes "objs_counted r s" "0 < r i" "r i < 2 ^ 32 - 1"
  shows "\<exists>s'. get_obj i s = (s', Ok ()) \<and> objs_counted (r(i := r i + 1)) s'"
proof -
  obtain a where a: "ss_allocs s i = Some a" "unat (al_ref a) = r i" using objs_live [OF assms(1,2)] by blast
  have n: "unat (al_ref a + 1) = r i + 1" using a(2) assms(3) by (simp add: unat_add_u32)
  have wf: "pool_wf (ss_pool s)" using assms(1) by (simp add: objs_counted_def)
  have "objs_counted (r(i := r i + 1)) (s\<lparr>ss_allocs := (ss_allocs s)(i \<mapsto> xrp_allocation_get a)\<rparr>)"
    using objs_old(1-4) [OF assms(1) a(1)] a n wf
    by (intro objs_update [OF assms(1)]) (auto simp: xrp_allocation_get_def dest: objs_disj [OF assms(1)])
  then show ?thesis using a by (simp add: get_obj_def)
qed

lemma objs_put:
  assumes "objs_counted r s" "0 < r i"
  shows "\<exists>s'. put_obj i s = (s', Ok ()) \<and> objs_counted (r(i := r i - 1)) s'"
proof -
  obtain a where a: "ss_allocs s i = Some a" "unat (al_ref a) = r i" using objs_live [OF assms] by blast
  have n: "unat (al_ref a - 1) = r i - 1"
    using a(2) assms(2) by (subst unat_sub) (simp_all add: word_le_nat_alt)
  let ?a = "a\<lparr>al_ref := al_ref a - 1\<rparr>"
  have wf: "pool_wf (ss_pool s)" using assms(1) by (simp add: objs_counted_def)
  show ?thesis
  proof (cases "r i = 1")
    case False
    then have nz: "al_ref a \<noteq> 1" using a(2) by auto
    have "objs_counted (r(i := r i - 1)) (s\<lparr>ss_allocs := (ss_allocs s)(i \<mapsto> ?a)\<rparr>)"
      using objs_old(1-4) [OF assms(1) a(1)] a n assms(2) False wf
      by (intro objs_update [OF assms(1)]) (auto dest: objs_disj [OF assms(1)])
    then show ?thesis using a nz by (simp add: put_obj_def xrp_allocation_put_def)
  next
    case True
    then have one: "al_ref a = 1" using a(2) by (intro word_unat_eq_iff [THEN iffD2]) simp
    let ?s = "s\<lparr>ss_pool := xrp_free (ss_pool s) ?a, ss_allocs := (ss_allocs s)(i := None)\<rparr>"
    note o = objs_old [OF assms(1) a(1)]
    have fr: "pool_wf (xrp_free (ss_pool s) ?a) \<and> pool_free (xrp_free (ss_pool s) ?a) = region a \<union> pool_free (ss_pool s)
      \<and> pool_bytes (xrp_free (ss_pool s) ?a) = pool_bytes (ss_pool s)"
    proof (cases "al_pool a = Private_Pool_Ops")
      case True
      then show ?thesis using private_free_ok [of "ss_pool s" ?a] wf o
        by (simp add: xrp_free_def) (simp add: xrp_private_free_def pool_bytes_def)
    next
      case False
      then show ?thesis using wf by (cases "al_pool a") (simp_all add: xrp_free_def region_def)
    qed
    have "objs_counted (r(i := r i - 1)) ?s"
    proof (rule objs_update [OF assms(1)])
      show "region b \<inter> pool_free (ss_pool ?s) = {}" if "j \<noteq> i" "ss_allocs s j = Some b" for j b
        using fr a(1) that by (auto dest: objs_disj [OF assms(1)])
    qed (use fr True in auto)
    then show ?thesis using a one by (simp add: put_obj_def xrp_allocation_put_def)
  qed
qed

text \<open>A new object starts with one reference; a failure keeps all objects.\<close>

lemma objs_alloc:
  assumes "objs_counted r s" "sz \<le> MAX_REQUEST" "r (ss_next s) = 0"
  shows "case allocate_obj en sz al s of
      (s', Inr i) \<Rightarrow> i = ss_next s \<and> objs_counted (r(i := 1)) s'
    | (s', Inl e) \<Rightarrow> objs_counted r s'"
proof -
  have wf: "pool_wf (ss_pool s)" using assms(1) by (simp add: objs_counted_def)
  obtain p' x where pr: "xrp_private_alloc (en_kz1 en (ss_next s)) (en_kz2 en (ss_next s)) (en_gfp en) (ss_pool s) sz al = (p', x)" by fastforce
  note same = alloc_pool_same [OF pr]
  have n: "ss_allocs s (ss_next s) = None" using assms(1,3) by (simp add: objs_counted_def)
  have keep: "objs_counted r (s\<lparr>ss_pool := p'\<rparr>)" if "pool_wf p'" "pool_free p' \<subseteq> pool_free (ss_pool s)"
  proof -
    have "objs_counted (r(ss_next s := 0)) (s\<lparr>ss_pool := p'\<rparr>)"
      using that same n by (intro objs_update [OF assms(1), where x = None]) (auto dest: objs_disj [OF assms(1)])
    then show ?thesis using assms(3) by (simp add: fun_upd_idem)
  qed
  have new: "objs_counted (r(ss_next s := 1)) (s\<lparr>ss_pool := p', ss_allocs := (ss_allocs s)(ss_next s \<mapsto> a), ss_next := ss_next s + 1\<rparr>)"
    if "pool_wf p'" "pool_free p' = pool_free (ss_pool s) - region a" "region a \<subseteq> pool_free (ss_pool s)" "al_ref a = 1"
      "al_pool a = Private_Pool_Ops \<longrightarrow> al_size a \<noteq> 0" for a
    using that same pool_free_bytes [OF wf]
    by (intro objs_update [OF assms(1)]) (auto dest: objs_disj [OF assms(1)])
  from pr show ?thesis
  proof (cases rule: private_alloc_cases)
    case (err e)
    then show ?thesis using pr assms(1) by (simp add: allocate_obj_def)
  next
    case (gfp a)
    then show ?thesis using pr new [of a] wf by (simp add: allocate_obj_def region_def)
  next
    case (lost as l)
    note sc = scan_ok [OF wf lost(5,4) assms(2) lost(6)]
    then show ?thesis using pr lost keep by (auto simp: allocate_obj_def)
  next
    case (ok c as l)
    note sc = scan_ok [OF wf ok(4,3) assms(2) ok(5)] page_round [OF ok(3) assms(2)]
    then show ?thesis using pr ok new [of "\<lparr>al_pool = Private_Pool_Ops, al_start = as, al_size = ALIGN sz PAGE_SIZE, al_ref = 1\<rparr>"]
      by (simp add: allocate_obj_def region_def)
  qed
qed

interpretation objs: ref_store objs_counted get_obj put_obj "2 ^ 32 - 1"
  by unfold_locales (rule objs_get objs_put; assumption)+

end
