(* ===== verification/File_Alloc.thy ===== *)
theory File_Alloc
  imports Obj_Store
begin

unbundle bit_operations_syntax

text \<open>
  The memory of an open file: \<open>xrp_ioctl_alloc\<close>, \<open>xrp_ioctl_free\<close>, \<open>xvp_mmap\<close>, the operations of
  its areas and \<open>xvp_close\<close> of \<open>xvp_main.c\<close>. An allocation waits in the busy list of its file
  until an area maps it; areas and requests then hold its references. Which addresses the
  kernel chooses and whether its calls succeed are arguments.
\<close>

section \<open>State and operations\<close>

record file_vma =
  fv_start :: u64
  fv_end :: u64
  fv_alloc :: nat

text \<open>
  \<open>fl_busy\<close> is \<open>busy_list\<close>; \<open>fl_vmas\<close> are the areas with \<open>xvp_vm_ops\<close>; \<open>fl_held\<close> are references of
  requests (native mappings); \<open>fl_lost\<close> is a ghost: allocations the code forgets.
\<close>

record file_state =
  fl_objs :: share_state
  fl_busy :: "nat list"
  fl_vmas :: "file_vma list"
  fl_held :: "nat list"
  fl_lost :: "nat list"

definition xrp_allocation_queue :: "nat \<Rightarrow> file_state \<Rightarrow> file_state" where
  "xrp_allocation_queue i s = s\<lparr>fl_busy := i # fl_busy s\<rparr>"

definition fits_allocation :: "phys_addr \<Rightarrow> u32 \<Rightarrow> allocation \<Rightarrow> bool" where
  "fits_allocation paddr sz a = (al_start a \<le> paddr \<and> paddr + ucast sz - al_start a \<le> ucast (al_size a))"

fun dequeue_loop :: "(nat \<rightharpoonup> allocation) \<Rightarrow> phys_addr \<Rightarrow> u32 \<Rightarrow> nat list \<Rightarrow> (nat list \<times> nat option) res" where
  "dequeue_loop objs paddr sz [] = Ok ([], None)"
| "dequeue_loop objs paddr sz (i # is) =
    (case objs i of
       None \<Rightarrow> Oops
     | Some a \<Rightarrow>
         if fits_allocation paddr sz a then Ok (is, Some i)
         else (case dequeue_loop objs paddr sz is of
                 Inl e \<Rightarrow> Inl e
               | Inr (js, r) \<Rightarrow> Ok (i # js, r)))"

definition xrp_allocation_dequeue :: "phys_addr \<Rightarrow> u32 \<Rightarrow> file_state \<Rightarrow> file_state \<times> nat option res" where
  "xrp_allocation_dequeue paddr sz s =
     (case dequeue_loop (ss_allocs (fl_objs s)) paddr sz (fl_busy s) of
        Inl e \<Rightarrow> (s, Inl e)
      | Inr (is, r) \<Rightarrow> (s\<lparr>fl_busy := is\<rparr>, Ok r))"

text \<open>
  \<open>xvp_mmap\<close>: the area's length is passed as a \<open>u32\<close>. When \<open>remap_pfn_range\<close> fails the kernel
  drops the area without calling \<open>xvp_vm_close\<close>, and the allocation is forgotten.
\<close>

definition xvp_mmap :: "bool \<Rightarrow> u64 \<Rightarrow> u64 \<Rightarrow> u64 \<Rightarrow> file_state \<Rightarrow> file_state \<times> unit res" where
  "xvp_mmap remap_ok start stop pgoff s =
     (case xrp_allocation_dequeue (push_bit PAGE_SHIFT pgoff) (ucast (stop - start)) s of
        (s1, Inl e) \<Rightarrow> (s1, Inl e)
      | (s1, Inr None) \<Rightarrow> (s1, Error EINVAL)
      | (s1, Inr (Some i)) \<Rightarrow>
          if remap_ok then (s1\<lparr>fl_vmas := \<lparr>fv_start = start, fv_end = stop, fv_alloc = i\<rparr> # fl_vmas s1\<rparr>, Ok ())
          else (s1\<lparr>fl_lost := i # fl_lost s1\<rparr>, Error (EOTHER 11)))"

definition with_obj :: "(share_state \<Rightarrow> share_state \<times> unit res) \<Rightarrow> file_state \<Rightarrow> file_state \<times> unit res" where
  "with_obj f s = (case f (fl_objs s) of (o', r) \<Rightarrow> (s\<lparr>fl_objs := o'\<rparr>, r))"

definition xvp_vm_open :: "file_vma \<Rightarrow> file_state \<Rightarrow> file_state \<times> unit res" where
  "xvp_vm_open v s = with_obj (get_obj (fv_alloc v)) (s\<lparr>fl_vmas := v # fl_vmas s\<rparr>)"

definition xvp_vm_close :: "file_vma \<Rightarrow> file_state \<Rightarrow> file_state \<times> unit res" where
  "xvp_vm_close v s = with_obj (put_obj (fv_alloc v)) (s\<lparr>fl_vmas := remove1 v (fl_vmas s)\<rparr>)"

text \<open>
  What the kernel's \<open>vm_mmap\<close> does with the file: it fails before it calls \<open>xvp_mmap\<close>, or calls
  it with the area it chose and returns the area's start or the error.
\<close>

datatype mm_choice = Mm_Fails errno | Mm_Area u64 bool

definition vm_mmap :: "mm_choice \<Rightarrow> u64 \<Rightarrow> phys_addr \<Rightarrow> file_state \<Rightarrow> file_state \<times> u64 res" where
  "vm_mmap mm len offset s =
     (case mm of
        Mm_Fails e \<Rightarrow> (s, Error e)
      | Mm_Area start remap_ok \<Rightarrow>
          (case xvp_mmap remap_ok start (start + len) (drop_bit PAGE_SHIFT offset) s of
             (s1, Inl e) \<Rightarrow> (s1, Inl e)
           | (s1, Inr _) \<Rightarrow> (s1, Ok start)))"

text \<open>\<open>vm_munmap\<close> of a whole area: the kernel closes it.\<close>

definition vm_munmap :: "u64 \<Rightarrow> file_state \<Rightarrow> file_state \<times> unit res" where
  "vm_munmap start s =
     (case find (\<lambda>v. fv_start v = start) (fl_vmas s) of
        None \<Rightarrow> (s, Error EINVAL)
      | Some v \<Rightarrow> xvp_vm_close v s)"

text \<open>
  \<open>xrp_ioctl_alloc\<close>. The answer holds what \<open>vm_mmap\<close> returned, an address or a negative error
  number; it is not tested. The arguments say whether the two copies succeed.
\<close>

definition xrp_ioctl_alloc ::
  "share_env \<Rightarrow> mm_choice \<Rightarrow> bool \<Rightarrow> (u32 \<times> u32) option \<Rightarrow> file_state \<Rightarrow>
    file_state \<times> (u64 res \<times> phys_addr) res" where
  "xrp_ioctl_alloc en mm copy_ok req s =
     (case req of
        None \<Rightarrow> (s, Error EFAULT)
      | Some (sz, al) \<Rightarrow>
          (case allocate_obj en sz al (fl_objs s) of
             (o', Inl e) \<Rightarrow> (s\<lparr>fl_objs := o'\<rparr>, Inl e)
           | (o', Inr i) \<Rightarrow>
               (case ss_allocs o' i of
                  None \<Rightarrow> (s, Oops)
                | Some a \<Rightarrow>
                    (case vm_mmap mm (ucast (al_size a)) (al_start a) (xrp_allocation_queue i (s\<lparr>fl_objs := o'\<rparr>)) of
                       (s1, Inl Fault) \<Rightarrow> (s1, Oops)
                     | (s1, vaddr) \<Rightarrow>
                         if copy_ok then (s1, Ok (vaddr, al_start a))
                         else (case vaddr of
                                 Inl _ \<Rightarrow> (s1, Error EFAULT)
                               | Inr start \<Rightarrow> (fst (vm_munmap start s1), Error EFAULT))))))"

text \<open>
  \<open>xrp_ioctl_free\<close>: the area around the address is unmapped as a whole, if it is one of this
  file; the kernel closes it.
\<close>

definition xrp_ioctl_free :: "(u64 \<Rightarrow> file_vma option) \<Rightarrow> u64 option \<Rightarrow> file_state \<Rightarrow> file_state \<times> unit res" where
  "xrp_ioctl_free find_vma req s =
     (case req of
        None \<Rightarrow> (s, Error EFAULT)
      | Some addr \<Rightarrow>
          (case find_vma addr of
             Some v \<Rightarrow> if v \<in> set (fl_vmas s) \<and> fv_start v \<le> addr \<and> addr < fv_end v
                       then xvp_vm_close v s else (s, Error EINVAL)
           | None \<Rightarrow> (s, Error EINVAL)))"

definition xvp_close :: "file_state \<Rightarrow> file_state" where
  "xvp_close s = s\<lparr>fl_busy := [], fl_lost := fl_busy s @ fl_lost s\<rparr>"

section \<open>Runs\<close>

text \<open>
  The events of a file. \<open>Hold\<close> and \<open>Unhold\<close> are native mappings of requests, made through an
  area. The kernel opens and closes only areas there are and closes the file only when no
  area and no request is left; the user asks for at most \<open>MAX_REQUEST\<close> bytes (a larger size is
  rounded up to 0). A step is an operation that does not fault. Nothing bounds the counters:
  how many references there can be follows from the length of the run.
\<close>

datatype file_op =
    Alloc_Op share_env mm_choice bool "(u32 \<times> u32) option"
  | Free_Op "u64 \<Rightarrow> file_vma option" "u64 option"
  | Mmap_Op bool u64 u64 u64
  | Vm_Open file_vma
  | Vm_Close file_vma
  | Hold nat
  | Unhold nat
  | Close

definition file_refs :: "file_state \<Rightarrow> nat \<Rightarrow> nat" where
  "file_refs s i = count_list (fl_busy s) i + count_list (map fv_alloc (fl_vmas s)) i +
     count_list (fl_held s) i + count_list (fl_lost s) i"

fun op_ok :: "file_op \<Rightarrow> file_state \<Rightarrow> bool" where
  "op_ok (Alloc_Op en mm c req) s = (\<forall>sz al. req = Some (sz, al) \<longrightarrow> sz \<le> MAX_REQUEST)"
| "op_ok (Free_Op f a) s = True"
| "op_ok (Mmap_Op r b e p) s = True"
| "op_ok (Vm_Open v) s = (v \<in> set (fl_vmas s))"
| "op_ok (Vm_Close v) s = (v \<in> set (fl_vmas s))"
| "op_ok (Hold i) s = (i \<in> fv_alloc ` set (fl_vmas s))"
| "op_ok (Unhold i) s = (i \<in> set (fl_held s))"
| "op_ok Close s = (fl_vmas s = [] \<and> fl_held s = [])"

fun file_exec :: "file_op \<Rightarrow> file_state \<Rightarrow> file_state \<times> unit res" where
  "file_exec (Alloc_Op en mm c req) s =
    (case xrp_ioctl_alloc en mm c req s of (s', Inl e) \<Rightarrow> (s', Inl e) | (s', Inr _) \<Rightarrow> (s', Ok ()))"
| "file_exec (Free_Op f a) s = xrp_ioctl_free f a s"
| "file_exec (Mmap_Op r b e p) s = xvp_mmap r b e p s"
| "file_exec (Vm_Open v) s = xvp_vm_open v s"
| "file_exec (Vm_Close v) s = xvp_vm_close v s"
| "file_exec (Hold i) s = with_obj (get_obj i) (s\<lparr>fl_held := i # fl_held s\<rparr>)"
| "file_exec (Unhold i) s = with_obj (put_obj i) (s\<lparr>fl_held := remove1 i (fl_held s)\<rparr>)"
| "file_exec Close s = (xvp_close s, Ok ())"

definition file_step :: "file_state \<Rightarrow> file_state \<Rightarrow> bool" where
  "file_step s s' = (\<exists>oper r. op_ok oper s \<and> file_exec oper s = (s', r) \<and> r \<noteq> Oops)"

definition file_initial :: "file_state \<Rightarrow> bool" where
  "file_initial s = (pool_wf (ss_pool (fl_objs s)) \<and> ss_allocs (fl_objs s) = Map.empty \<and>
     fl_busy s = [] \<and> fl_vmas s = [] \<and> fl_held s = [] \<and> fl_lost s = [])"

section \<open>The invariant\<close>

definition file_inv :: "file_state \<Rightarrow> bool" where
  "file_inv s = objs_counted (file_refs s) (fl_objs s)"

lemma file_initial_inv: "file_initial s \<Longrightarrow> file_inv s"
  by (simp add: file_initial_def file_inv_def objs_counted_def file_refs_def)

lemma refs_pos:
  "i \<in> set (fl_busy s) \<Longrightarrow> 0 < file_refs s i" "v \<in> set (fl_vmas s) \<Longrightarrow> 0 < file_refs s (fv_alloc v)"
  "i \<in> set (fl_held s) \<Longrightarrow> 0 < file_refs s i" "i \<in> set (fl_lost s) \<Longrightarrow> 0 < file_refs s i"
  by (auto simp: file_refs_def count_list_0_iff intro!: Nat.gr0I)

lemma count_list_remove1: "x \<in> set xs \<Longrightarrow> count_list (remove1 x xs) y + of_bool (x = y) = count_list xs y"
  by (induction xs) auto

text \<open>The busy list is searched without a fault, and what is found leaves it.\<close>

lemma dequeue_loop_ok:
  assumes "\<And>i. i \<in> set is \<Longrightarrow> objs i \<noteq> None"
  shows "\<exists>js r. dequeue_loop objs paddr sz is = Ok (js, r) \<and>
    (case r of None \<Rightarrow> js = is
     | Some i \<Rightarrow> i \<in> set is \<and> js = remove1 i is \<and> (\<exists>a. objs i = Some a \<and> fits_allocation paddr sz a))"
  using assms
proof (induction "is")
  case Nil
  then show ?case by simp
next
  case (Cons i "is")
  obtain a where a: "objs i = Some a" using Cons.prems [of i] by auto
  obtain js r where "dequeue_loop objs paddr sz is = Ok (js, r)"
    "case r of None \<Rightarrow> js = is
     | Some i \<Rightarrow> i \<in> set is \<and> js = remove1 i is \<and> (\<exists>a. objs i = Some a \<and> fits_allocation paddr sz a)"
    using Cons by auto
  then show ?case using a by (auto split: option.splits)
qed


lemma file_live: "file_inv s \<Longrightarrow> 0 < file_refs s i \<Longrightarrow> \<exists>a. ss_allocs (fl_objs s) i = Some a"
  using objs_live unfolding file_inv_def by blast

lemma dequeue_ok:
  assumes "file_inv s"
  shows "(\<exists>s'. xrp_allocation_dequeue paddr sz s = (s', Ok None) \<and> s' = s) \<or>
    (\<exists>i a. xrp_allocation_dequeue paddr sz s = (s\<lparr>fl_busy := remove1 i (fl_busy s)\<rparr>, Ok (Some i)) \<and>
       i \<in> set (fl_busy s) \<and> ss_allocs (fl_objs s) i = Some a \<and> fits_allocation paddr sz a)"
proof -
  have "ss_allocs (fl_objs s) i \<noteq> None" if "i \<in> set (fl_busy s)" for i
    using file_live [OF assms refs_pos(1) [OF that]] by auto
  from dequeue_loop_ok [of "fl_busy s" "ss_allocs (fl_objs s)" paddr sz, OF this]
  obtain js r where r: "dequeue_loop (ss_allocs (fl_objs s)) paddr sz (fl_busy s) = Ok (js, r)"
    "case r of None \<Rightarrow> js = fl_busy s
     | Some i \<Rightarrow> i \<in> set (fl_busy s) \<and> js = remove1 i (fl_busy s) \<and>
         (\<exists>a. ss_allocs (fl_objs s) i = Some a \<and> fits_allocation paddr sz a)" by blast
  then show ?thesis by (cases r) (auto simp: xrp_allocation_dequeue_def)
qed

lemma mmap_ok:
  assumes "file_inv s"
  shows "file_inv (fst (xvp_mmap remap start stop pgoff s)) \<and> snd (xvp_mmap remap start stop pgoff s) \<noteq> Oops \<and>
    fl_held (fst (xvp_mmap remap start stop pgoff s)) = fl_held s"
proof -
  let ?p = "push_bit PAGE_SHIFT pgoff" and ?z = "ucast (stop - start) :: u32"
  consider "xrp_allocation_dequeue ?p ?z s = (s, Ok None)"
    | i where "xrp_allocation_dequeue ?p ?z s = (s\<lparr>fl_busy := remove1 i (fl_busy s)\<rparr>, Ok (Some i))" "i \<in> set (fl_busy s)"
    using dequeue_ok [OF assms, of ?p ?z] by blast
  then show ?thesis
  proof cases
    case 1
    then show ?thesis using assms by (simp add: xvp_mmap_def)
  next
    case 2
    have c: "count_list (remove1 i (fl_busy s)) j + of_bool (i = j) = count_list (fl_busy s) j" for j
      using count_list_remove1 [OF 2(2)] .
    have v: "file_refs (s\<lparr>fl_busy := remove1 i (fl_busy s), fl_vmas := v # fl_vmas s\<rparr>) = file_refs s"
      if "fv_alloc v = i" for v
    proof
      show "file_refs (s\<lparr>fl_busy := remove1 i (fl_busy s), fl_vmas := v # fl_vmas s\<rparr>) j = file_refs s j" for j
        using c [of j] that by (auto simp: file_refs_def)
    qed
    have l: "file_refs (s\<lparr>fl_busy := remove1 i (fl_busy s), fl_lost := i # fl_lost s\<rparr>) = file_refs s"
    proof
      show "file_refs (s\<lparr>fl_busy := remove1 i (fl_busy s), fl_lost := i # fl_lost s\<rparr>) j = file_refs s j" for j
        using c [of j] by (auto simp: file_refs_def)
    qed
    show ?thesis using 2 assms v l by (simp add: xvp_mmap_def file_inv_def)
  qed
qed

text \<open>Taking and dropping references through the file.\<close>

lemma with_get_ok:
  assumes "file_inv s" "0 < file_refs s i" "file_refs s i < 2 ^ 32 - 1" "fl_objs s1 = fl_objs s"
    "\<And>j. file_refs s1 j = file_refs s j + of_bool (j = i)"
  shows "file_inv (fst (with_obj (get_obj i) s1)) \<and> snd (with_obj (get_obj i) s1) = Ok ()"
proof -
  obtain o' where o: "get_obj i (fl_objs s) = (o', Ok ())" "objs_counted ((file_refs s)(i := file_refs s i + 1)) o'"
    using objs.take_counted assms(1-3) unfolding file_inv_def by blast
  have "file_refs (s1\<lparr>fl_objs := o'\<rparr>) = (file_refs s)(i := file_refs s i + 1)"
    using assms(5) by (auto simp: fun_eq_iff file_refs_def)
  then show ?thesis using o assms(4) by (simp add: with_obj_def file_inv_def)
qed

lemma with_put_ok:
  assumes "file_inv s" "0 < file_refs s i" "fl_objs s1 = fl_objs s"
    "\<And>j. file_refs s1 j = file_refs s j - of_bool (j = i)"
  shows "file_inv (fst (with_obj (put_obj i) s1)) \<and> snd (with_obj (put_obj i) s1) = Ok ()"
proof -
  obtain o' where o: "put_obj i (fl_objs s) = (o', Ok ())" "objs_counted ((file_refs s)(i := file_refs s i - 1)) o'"
    using objs.drop_counted assms(1,2) unfolding file_inv_def by blast
  have "file_refs (s1\<lparr>fl_objs := o'\<rparr>) = (file_refs s)(i := file_refs s i - 1)"
    using assms(4) by (auto simp: fun_eq_iff file_refs_def)
  then show ?thesis using o assms(3) by (simp add: with_obj_def file_inv_def)
qed

lemma count_map_remove1:
  "v \<in> set vs \<Longrightarrow> count_list (map f (remove1 v vs)) i + of_bool (f v = i) = count_list (map f vs) i"
  by (induction vs) auto

lemma vm_close_ok:
  assumes "file_inv s" "v \<in> set (fl_vmas s)"
  shows "file_inv (fst (xvp_vm_close v s)) \<and> snd (xvp_vm_close v s) = Ok ()"
  unfolding xvp_vm_close_def
proof (rule with_put_ok [OF assms(1) refs_pos(2) [OF assms(2)]])
  show "file_refs (s\<lparr>fl_vmas := remove1 v (fl_vmas s)\<rparr>) j = file_refs s j - of_bool (j = fv_alloc v)" for j
    using count_map_remove1 [OF assms(2), of fv_alloc j] by (auto simp: file_refs_def)
qed simp

lemma munmap_ok:
  assumes "file_inv s"
  shows "file_inv (fst (vm_munmap start s)) \<and> snd (vm_munmap start s) \<noteq> Oops"
  using assms vm_close_ok [OF assms] by (auto simp: vm_munmap_def find_Some_iff split: option.split dest: nth_mem)

lemma alloc_gfp_no_fault: 
  assumes "\<And>n. ge_alloc_pages ge n \<noteq> None"
  shows "xrp_alloc_gfp ge sz al \<noteq> Oops"
proof -
  obtain pa where "ge_alloc_pages ge (ge_get_order ge (ALIGN sz PAGE_SIZE)) = Some pa"
    using assms by (metis not_None_eq)
  then show ?thesis by (simp add: xrp_alloc_gfp_def Let_def)
qed

lemma gfp_retry_no_fault:
  "r \<noteq> Oops \<Longrightarrow> (case r of Inl (Errno _) \<Rightarrow> Error ENOMEM | Inl Fault \<Rightarrow> Oops | Inr x \<Rightarrow> Ok x) \<noteq> (Oops :: 'a res)"
  by (auto split: sum.splits err.splits)

lemma allocate_no_fault:
  assumes "\<And>n. ge_alloc_pages (en_gfp en) n \<noteq> None"
  shows "snd (allocate_obj en sz al s) \<noteq> Oops"
proof -
  have g: "xrp_alloc_gfp (en_gfp en) a b \<noteq> Oops" for a b using assms by (rule alloc_gfp_no_fault)
  have "snd (xrp_private_alloc (en_kz1 en (ss_next s)) (en_kz2 en (ss_next s)) (en_gfp en) (ss_pool s) sz al) \<noteq> Oops"
    unfolding xrp_private_alloc_def Let_def
    by (auto simp del: not_None_eq simp: gfp_retry_no_fault [OF g] split: option.split prod.split)
  then show ?thesis by (auto simp: allocate_obj_def split: prod.split sum.split)
qed

lemma file_refs_objs [simp]: "file_refs (s\<lparr>fl_objs := o'\<rparr>) = file_refs s"
  by (simp add: fun_eq_iff file_refs_def)

lemma ioctl_alloc_ok:
  assumes "file_inv s" "op_ok (Alloc_Op en mm c req) s"
  shows "file_inv (fst (xrp_ioctl_alloc en mm c req s)) \<and>
    (snd (xrp_ioctl_alloc en mm c req s) = Oops \<longrightarrow> (\<exists>n. ge_alloc_pages (en_gfp en) n = None))"
proof (cases req)
  case None
  then show ?thesis using assms(1) by (simp add: xrp_ioctl_alloc_def)
next
  case (Some za)
  obtain sz al where z: "req = Some (sz, al)" "sz \<le> MAX_REQUEST" using Some assms(2) by (cases za) auto
  have cn: "objs_counted (file_refs s) (fl_objs s)" using assms(1) by (simp add: file_inv_def)
  then have "ss_allocs (fl_objs s) (ss_next (fl_objs s)) = None"
    using objs_old(1) by (metis less_irrefl not_None_eq)
  then have r0: "file_refs s (ss_next (fl_objs s)) = 0" using cn by (simp add: objs_counted_def)
  note law = objs_alloc [OF cn z(2) r0, of en al]
  obtain o' r where a: "allocate_obj en sz al (fl_objs s) = (o', r)" by fastforce
  show ?thesis
  proof (cases r)
    case (Inl e)
    have "file_inv (s\<lparr>fl_objs := o'\<rparr>)" using law a Inl by (simp add: file_inv_def)
    moreover have "e = Fault \<longrightarrow> (\<exists>n. ge_alloc_pages (en_gfp en) n = None)"
      using allocate_no_fault [of en sz al "fl_objs s"] a Inl by (metis snd_conv)
    ultimately show ?thesis using a Inl z by (simp add: xrp_ioctl_alloc_def)
  next
    case (Inr i)
    then have i: "i = ss_next (fl_objs s)" "objs_counted ((file_refs s)(i := 1)) o'" using law a by auto
    then obtain ao where ao: "ss_allocs o' i = Some ao" using objs_live [OF i(2), of i] by auto
    define s1 where "s1 = xrp_allocation_queue i (s\<lparr>fl_objs := o'\<rparr>)"
    have "file_refs s1 = (file_refs s)(i := 1)"
      using r0 i(1) by (auto simp: s1_def xrp_allocation_queue_def file_refs_def fun_eq_iff)
    then have inv1: "file_inv s1" using i(2) by (simp add: file_inv_def s1_def xrp_allocation_queue_def)
    obtain s2 r2 where v: "vm_mmap mm (ucast (al_size ao)) (al_start ao) s1 = (s2, r2)" by fastforce
    have inv2: "file_inv s2" "r2 \<noteq> Oops"
      using v inv1 mmap_ok [OF inv1] by (auto simp: vm_mmap_def split: mm_choice.splits prod.splits sum.splits) (metis fst_conv snd_conv)+
    have u: "xrp_ioctl_alloc en mm c req s = (case (s2, r2) of
        (s1, Inl Fault) \<Rightarrow> (s1, Oops)
      | (s1, vaddr) \<Rightarrow>
          if c then (s1, Ok (vaddr, al_start ao))
          else (case vaddr of
                  Inl _ \<Rightarrow> (s1, Error EFAULT)
                | Inr start \<Rightarrow> (fst (vm_munmap start s1), Error EFAULT)))"
      unfolding xrp_ioctl_alloc_def z(1) option.case prod.case a Inr sum.case ao s1_def [symmetric] v by (rule refl)
    show ?thesis
      by (rule not_oops_cases [OF inv2(2)]) (use u inv2(1) munmap_ok [OF inv2(1)] in auto)
  qed
qed

definition null_page :: "file_op \<Rightarrow> bool" where
  "null_page oper = (\<exists>en mm c req n. oper = Alloc_Op en mm c req \<and> ge_alloc_pages (en_gfp en) n = None)"

lemma file_exec_ok:
  assumes "file_inv s" "op_ok oper s" "\<And>i. file_refs s i < 2 ^ 32 - 1"
  shows "file_inv (fst (file_exec oper s)) \<and> (snd (file_exec oper s) = Oops \<longrightarrow> null_page oper)"
proof (cases oper)
  case (Alloc_Op en mm c req)
  then have "op_ok (Alloc_Op en mm c req) s" using assms(2) by simp
  note ok = ioctl_alloc_ok [OF assms(1) this]
  obtain s' r where r: "xrp_ioctl_alloc en mm c req s = (s', r)" by fastforce
  have "file_inv s'" "r = Oops \<longrightarrow> null_page oper" using ok Alloc_Op unfolding r null_page_def by auto
  then show ?thesis using Alloc_Op r by (cases r) auto
next
  case (Free_Op f a)
  then show ?thesis
    using assms(1) vm_close_ok [OF assms(1)] by (auto simp: xrp_ioctl_free_def split: option.split)
next
  case (Mmap_Op r b e p)
  then show ?thesis using mmap_ok [OF assms(1)] by simp
next
  case (Vm_Open v)
  then show ?thesis
    using assms refs_pos(2) with_get_ok [OF assms(1), of "fv_alloc v" "s\<lparr>fl_vmas := v # fl_vmas s\<rparr>"]
    by (simp add: xvp_vm_open_def file_refs_def)
next
  case (Vm_Close v)
  then show ?thesis using vm_close_ok [OF assms(1)] assms(2) by simp
next
  case (Hold i)
  have "0 < file_refs s i" using assms(2) Hold refs_pos(2) by auto
  then show ?thesis
    using assms Hold with_get_ok [OF assms(1), of i "s\<lparr>fl_held := i # fl_held s\<rparr>"]
    by (simp add: file_refs_def)
next
  case (Unhold i)
  then have i: "i \<in> set (fl_held s)" using assms(2) by simp
  have "file_refs (s\<lparr>fl_held := remove1 i (fl_held s)\<rparr>) j = file_refs s j - of_bool (j = i)" for j
    using count_list_remove1 [OF i, of j] by (auto simp: file_refs_def)
  then show ?thesis
    using Unhold with_put_ok [OF assms(1) refs_pos(3) [OF i], of "s\<lparr>fl_held := remove1 i (fl_held s)\<rparr>"] by simp
next
  case Close
  have "file_refs (xvp_close s) = file_refs s" by (auto simp: fun_eq_iff xvp_close_def file_refs_def)
  then show ?thesis using Close assms(1) by (simp add: file_inv_def) (simp add: xvp_close_def)
qed

text \<open>An operation adds at most one reference of each object.\<close>

lemma vm_close_refs: "file_refs (fst (xvp_vm_close v s)) i \<le> file_refs s i"
proof -
  have "count_list (map fv_alloc (remove1 v (fl_vmas s))) i \<le> count_list (map fv_alloc (fl_vmas s)) i"
    by (cases "v \<in> set (fl_vmas s)") (use count_map_remove1 [of v "fl_vmas s" fv_alloc i] in \<open>auto simp: remove1_idem\<close>)
  then show ?thesis by (simp add: xvp_vm_close_def with_obj_def file_refs_def split: prod.split)
qed

lemma mmap_refs:
  assumes "file_inv s"
  shows "file_refs (fst (xvp_mmap r b e p s)) i \<le> file_refs s i"
proof -
  let ?d = "xrp_allocation_dequeue (push_bit PAGE_SHIFT p) (ucast (e - b)) s"
  consider "?d = (s, Ok None)" | j where "?d = (s\<lparr>fl_busy := remove1 j (fl_busy s)\<rparr>, Ok (Some j))" "j \<in> set (fl_busy s)"
    using dequeue_ok [OF assms, of "push_bit PAGE_SHIFT p" "ucast (e - b)"] by blast
  then show ?thesis
  proof cases
    case 1
    then show ?thesis by (simp add: xvp_mmap_def)
  next
    case 2
    then show ?thesis using count_list_remove1 [OF 2(2), of i] by (auto simp: xvp_mmap_def file_refs_def)
  qed
qed

lemma munmap_refs: "file_refs (fst (vm_munmap start s)) i \<le> file_refs s i"
  by (simp add: vm_munmap_def vm_close_refs split: option.split)

lemma ioctl_alloc_refs:
  assumes "file_inv s" "op_ok (Alloc_Op en mm c req) s"
  shows "file_refs (fst (xrp_ioctl_alloc en mm c req s)) i \<le> Suc (file_refs s i)"
proof (cases "\<exists>sz al o' j a. req = Some (sz, al) \<and> allocate_obj en sz al (fl_objs s) = (o', Ok j) \<and> ss_allocs o' j = Some a")
  case False
  then show ?thesis by (auto simp: xrp_ioctl_alloc_def split: option.split prod.split sum.split)
next
  case True
  then obtain sz al o' j a where a: "req = Some (sz, al)" "allocate_obj en sz al (fl_objs s) = (o', Ok j)" "ss_allocs o' j = Some a"
    by blast
  define s1 where "s1 = xrp_allocation_queue j (s\<lparr>fl_objs := o'\<rparr>)"
  have q: "file_refs s1 i \<le> Suc (file_refs s i)" by (simp add: s1_def xrp_allocation_queue_def file_refs_def)
  have cn: "objs_counted (file_refs s) (fl_objs s)" using assms(1) by (simp add: file_inv_def)
  then have "ss_allocs (fl_objs s) (ss_next (fl_objs s)) = None" using objs_old(1) by (metis less_irrefl not_None_eq)
  then have r0: "file_refs s (ss_next (fl_objs s)) = 0" using cn by (simp add: objs_counted_def)
  have j: "j = ss_next (fl_objs s) \<and> objs_counted ((file_refs s)(j := 1)) o'"
    using objs_alloc [OF cn _ r0, of sz en al] assms(2) a(1) unfolding a(2) by auto
  then have "objs_counted ((file_refs s)(j := 1)) o'" "j = ss_next (fl_objs s)" by blast+
  moreover from this have "file_refs s1 = (file_refs s)(j := 1)"
    using r0 by (auto simp: s1_def xrp_allocation_queue_def file_refs_def fun_eq_iff)
  ultimately have inv1: "file_inv s1" by (simp add: file_inv_def s1_def xrp_allocation_queue_def)
  obtain s2 r2 where v: "vm_mmap mm (ucast (al_size a)) (al_start a) s1 = (s2, r2)" by fastforce
  have m: "file_refs s2 i \<le> Suc (file_refs s i)"
  proof (cases mm)
    case (Mm_Fails e)
    then show ?thesis using v q by (simp add: vm_mmap_def)
  next
    case (Mm_Area st ok)
    then have "s2 = fst (xvp_mmap ok st (st + ucast (al_size a)) (drop_bit PAGE_SHIFT (al_start a)) s1)"
      using v by (auto simp: vm_mmap_def split: prod.splits sum.splits)
    then show ?thesis using mmap_refs [OF inv1] q le_trans by blast
  qed
  have "fst (xrp_ioctl_alloc en mm c req s) = s2 \<or> (\<exists>st. fst (xrp_ioctl_alloc en mm c req s) = fst (vm_munmap st s2))"
    unfolding xrp_ioctl_alloc_def a(1) option.case prod.case a(2) sum.case a(3) s1_def [symmetric] v
    by (auto split: sum.split err.split)
  then show ?thesis using m munmap_refs [of _ s2 i] le_trans by metis
qed

lemma with_obj_refs: "file_refs (fst (with_obj f s)) i = file_refs s i"
  by (simp add: with_obj_def split: prod.split)

lemma file_exec_refs:
  assumes "file_inv s" "op_ok oper s"
  shows "file_refs (fst (file_exec oper s)) i \<le> Suc (file_refs s i)"
proof (cases oper)
  case (Alloc_Op en mm c req)
  then have "op_ok (Alloc_Op en mm c req) s" using assms(2) by simp
  from ioctl_alloc_refs [OF assms(1) this, of i] show ?thesis
    using Alloc_Op by (cases "xrp_ioctl_alloc en mm c req s") (auto split: sum.split)
next
  case (Free_Op f a)
  then show ?thesis using vm_close_refs [of _ s i] by (auto simp: xrp_ioctl_free_def le_SucI split: option.split)
next
  case (Mmap_Op r b e p)
  then show ?thesis using mmap_refs [OF assms(1)] by (simp add: le_SucI)
next
  case (Vm_Open v)
  then show ?thesis by (simp add: xvp_vm_open_def with_obj_refs) (simp add: file_refs_def)
next
  case (Vm_Close v)
  then show ?thesis using vm_close_refs by (simp add: le_SucI)
next
  case (Hold j)
  then show ?thesis by (simp add: with_obj_refs) (simp add: file_refs_def)
next
  case (Unhold j)
  have "count_list (remove1 j (fl_held s)) i \<le> count_list (fl_held s) i"
    by (cases "j \<in> set (fl_held s)") (use count_list_remove1 [of j "fl_held s" i] in \<open>auto simp: remove1_idem\<close>)
  then show ?thesis using Unhold by (simp add: with_obj_refs) (simp add: file_refs_def)
next
  case Close
  then show ?thesis by (simp add: xvp_close_def file_refs_def)
qed

text \<open>
  A run with the number of its steps: after \<open>n\<close> operations no object has more than \<open>n\<close>
  references, so the 32-bit counters hold as long as the run has fewer than \<open>2 ^ 32\<close>.
\<close>

definition counted_initial :: "nat \<times> file_state \<Rightarrow> bool" where
  "counted_initial c = (fst c = 0 \<and> file_initial (snd c))"

definition counted_step :: "nat \<times> file_state \<Rightarrow> nat \<times> file_state \<Rightarrow> bool" where
  "counted_step c d = (fst d = Suc (fst c) \<and> fst d < 2 ^ 32 - 1 \<and> file_step (snd c) (snd d))"

definition counted_inv :: "nat \<times> file_state \<Rightarrow> bool" where
  "counted_inv c = (fst c < 2 ^ 32 - 1 \<and> file_inv (snd c) \<and> (\<forall>i. file_refs (snd c) i \<le> fst c))"

lemma counted_initial_inv: "counted_initial c \<Longrightarrow> counted_inv c"
  using file_initial_inv [of "snd c"]
  by (auto simp: counted_initial_def counted_inv_def) (simp add: file_initial_def file_refs_def)

lemma counted_step_inv:
  assumes "counted_inv c" "counted_step c d"
  shows "counted_inv d"
proof -
  obtain oper r where e: "op_ok oper (snd c)" "file_exec oper (snd c) = (snd d, r)"
    using assms(2) by (auto simp: counted_step_def file_step_def)
  have b: "file_inv (snd c)" "\<And>i. file_refs (snd c) i \<le> fst c" "fst c < 2 ^ 32 - 1" "fst d = Suc (fst c)" "fst d < 2 ^ 32 - 1"
    using assms by (simp_all add: counted_inv_def counted_step_def)
  have "file_refs (snd c) i < 2 ^ 32 - 1" for i using b(2) [of i] b(3) by linarith
  from file_exec_ok [OF b(1) e(1) this] have "file_inv (snd d)" using e(2) by simp
  moreover have "file_refs (snd d) i \<le> Suc (fst c)" for i
    using file_exec_refs [OF b(1) e(1), of i] b(2) [of i] e(2) by simp
  ultimately show ?thesis using b(4,5) by (simp add: counted_inv_def)
qed

interpretation file_mem: invariant_system counted_initial counted_step counted_inv
  by unfold_locales (auto intro: counted_initial_inv counted_step_inv)

lemma file_run_counted:
  "(file_step ^^ n) s0 s \<Longrightarrow> n < 2 ^ 32 - 1 \<Longrightarrow> counted_step\<^sup>*\<^sup>* (0, s0) (n, s)"
proof (induction n arbitrary: s)
  case 0
  then show ?case by simp
next
  case (Suc n)
  then obtain t where "(file_step ^^ n) s0 t" "file_step t s" by auto
  moreover have "counted_step (n, t) (Suc n, s)"
    using Suc.prems(2) \<open>file_step t s\<close> by (simp add: counted_step_def)
  moreover have "counted_step\<^sup>*\<^sup>* (0, s0) (n, t)" using Suc.IH \<open>(file_step ^^ n) s0 t\<close> Suc.prems(2) by simp
  ultimately show ?case by (meson rtranclp.rtrancl_into_rtrancl)
qed

lemma file_run_inv:
  assumes "file_initial s0" "(file_step ^^ n) s0 s" "n < 2 ^ 32 - 1"
  shows "file_inv s" "file_refs s i \<le> n"
  using file_mem.reachable_inv [OF _ file_run_counted [OF assms(2,3)]] assms(1)
  by (auto simp: counted_initial_def counted_inv_def)


section \<open>What holds of an open file\<close>

text \<open>
  C20: The reference counts of a file are exact after every run of fewer than \<open>2 ^ 32 - 1\<close>
  operations. The counter of a live allocation is the number of its places in the busy list,
  plus the number of areas that map it, plus the references that requests hold, plus 1 if the
  code has forgotten it: an allocation is forgotten when \<open>remap_pfn_range\<close> fails after the
  allocation left the busy list, or when the file is closed while it waits there. An
  allocation is alive exactly as long as that sum is not 0, and the memory of two live
  allocations, or of one and the free list, never overlaps.
\<close>

theorem file_references_exact:
  assumes "file_initial s0" "(file_step ^^ n) s0 s" "n < 2 ^ 32 - 1"
    "refs = count_list (fl_busy s) i + count_list (map fv_alloc (fl_vmas s)) i +
       count_list (fl_held s) i + count_list (fl_lost s) i"
  shows "(case ss_allocs (fl_objs s) i of
      None \<Rightarrow> refs = 0
    | Some a \<Rightarrow> refs \<noteq> 0 \<and> unat (al_ref a) = refs \<and>
        region a \<inter> pool_free (ss_pool (fl_objs s)) = {} \<and>
        (\<forall>j b. ss_allocs (fl_objs s) j = Some b \<longrightarrow> j \<noteq> i \<longrightarrow> region a \<inter> region b = {}))"
proof -
  have c: "objs_counted (file_refs s) (fl_objs s)"
    using file_run_inv(1) [OF assms(1-3)] by (simp add: file_inv_def)
  have r: "refs = file_refs s i" using assms(4) by (simp add: file_refs_def)
  show ?thesis
  proof (cases "ss_allocs (fl_objs s) i")
    case None
    then have "file_refs s i = 0" using c unfolding objs_counted_def by blast
    then show ?thesis using None r by simp
  next
    case (Some a)
    have "file_refs s i \<noteq> 0" using c Some unfolding objs_counted_def by (metis option.distinct(1))
    then show ?thesis using objs_old [OF c Some] Some r by simp
  qed
qed


text \<open>
  An area shorter than 4 GiB that \<open>xvp_mmap\<close> accepts maps only memory of an allocation that
  waited in the busy list of this file (for allocations of the private pool).
\<close>

theorem xvp_mmap_inside:
  assumes "file_initial s0" "(file_step ^^ n) s0 s" "n < 2 ^ 32 - 1" "xvp_mmap remap start stop pgoff s = (s', Ok ())"
    "unat (stop - start) < 2 ^ 32" "unat (push_bit PAGE_SHIFT pgoff) + unat (stop - start) < 2 ^ 64"
    "\<And>i a. ss_allocs (fl_objs s) i = Some a \<Longrightarrow> al_pool a = Private_Pool_Ops"
  shows "\<exists>i a. i \<in> set (fl_busy s) \<and> ss_allocs (fl_objs s) i = Some a \<and>
    {unat (push_bit PAGE_SHIFT pgoff)..<unat (push_bit PAGE_SHIFT pgoff) + unat (stop - start)} \<subseteq> region a"
proof -
  have inv: "file_inv s" using file_run_inv(1) [OF assms(1-3)] .
  let ?p = "push_bit PAGE_SHIFT pgoff" and ?z = "ucast (stop - start) :: u32"
  obtain i a where ia: "i \<in> set (fl_busy s)" "ss_allocs (fl_objs s) i = Some a" "fits_allocation ?p ?z a"
  proof (rule disjE [OF dequeue_ok [OF inv, of ?p ?z]])
    assume "\<exists>s'. xrp_allocation_dequeue ?p ?z s = (s', Ok None) \<and> s' = s"
    then show thesis using assms(4) by (simp add: xvp_mmap_def)
  qed (use that in blast)
  have cn: "objs_counted (file_refs s) (fl_objs s)" using inv by (simp add: file_inv_def)
  have z: "unat ?z = unat (stop - start)" using assms(5) by (simp add: unat_u64_u32)
  have pr: "al_pool a = Private_Pool_Ops" using assms(7) ia(2) .
  have wf: "pool_wf (ss_pool (fl_objs s))" using cn by (simp add: objs_counted_def)
  have "al_size a \<noteq> 0" using objs_old(3) [OF cn ia(2) pr] .
  then have ne: "unat (al_start a) < unat (al_start a) + unat (al_size a)" by (simp add: unat_gt_0)
  have "{unat (al_start a)..<unat (al_start a) + unat (al_size a)} \<subseteq>
      {unat (pp_start (ss_pool (fl_objs s)))..<unat (pp_start (ss_pool (fl_objs s))) + unat (pp_size (ss_pool (fl_objs s)))}"
    using objs_old(4) [OF cn ia(2)] pr by (simp add: region_def pool_bytes_def)
  then have top: "unat (al_start a) + unat (al_size a) < 2 ^ 64"
    using wf ne unfolding pool_wf_def by (auto dest!: atLeastLessThan_subset_iff)
  define d where "d = ?p - al_start a"
  have le: "al_start a \<le> ?p" using ia(3) by (simp add: fits_allocation_def)
  have d: "unat d = unat ?p - unat (al_start a)" unfolding d_def by (rule unat_sub [OF le])
  have "d + ucast ?z \<le> ucast (al_size a)" using ia(3) by (simp add: fits_allocation_def d_def algebra_simps)
  then have f: "unat (d + ucast ?z) \<le> unat (al_size a)" by (simp add: word_le_nat_alt)
  have "unat d + unat ?z < 2 ^ 64" using d z assms(6) by simp
  then have "unat d + unat ?z \<le> unat (al_size a)" using f by (simp add: unat_add_u64)
  then show ?thesis using ia d le z pr by (intro exI [of _ i] exI [of _ a]) (auto simp: region_def word_le_nat_alt)
qed


text \<open>
  The length of an area is passed to the search of the busy list in 32 bits: when
  \<open>xvp_mmap\<close> accepts an area it also accepts every area with the same start whose length is
  the same modulo 4 GiB, and maps it in full, far beyond the allocation.
\<close>

theorem xvp_mmap_length_truncated:
  assumes "xvp_mmap True start stop pgoff s = (s', Ok ())"
    "(ucast (stop2 - start) :: u32) = ucast (stop - start)"
  shows "\<exists>i s2. xvp_mmap True start stop2 pgoff s = (s2, Ok ()) \<and> i \<in> fv_alloc ` set (fl_vmas s') \<and>
    \<lparr>fv_start = start, fv_end = stop2, fv_alloc = i\<rparr> \<in> set (fl_vmas s2)"
  using assms unfolding xvp_mmap_def
  by (cases "xrp_allocation_dequeue (push_bit PAGE_SHIFT pgoff) (ucast (stop - start)) s")
     (auto split: sum.splits option.splits)

text \<open>
  \<open>xrp_ioctl_alloc\<close> does not test the result of \<open>vm_mmap\<close>: when the mapping fails before it
  reaches the driver the call still succeeds, returns the negative error number as the
  address, and leaves the allocation in the busy list without an area.
\<close>

theorem xrp_ioctl_alloc_mmap_failure:
  assumes "allocate_obj en sz al (fl_objs s) = (o', Ok i)" "ss_allocs o' i = Some a"
  shows "xrp_ioctl_alloc en (Mm_Fails e) True (Some (sz, al)) s =
    (s\<lparr>fl_objs := o', fl_busy := i # fl_busy s\<rparr>, Ok (Error e, al_start a))"
  using assms by (simp add: xrp_ioctl_alloc_def vm_mmap_def xrp_allocation_queue_def)

lemma vm_close_lost: "fl_lost (fst (xvp_vm_close v s)) = fl_lost s"
  by (simp add: xvp_vm_close_def with_obj_def split: prod.split)

lemma mmap_lost: "xvp_mmap r b e p s = (s', x) \<Longrightarrow> i \<in> set (fl_lost s) \<Longrightarrow> i \<in> set (fl_lost s')"
  by (auto simp: xvp_mmap_def xrp_allocation_dequeue_def split: sum.splits option.splits prod.splits if_splits)

lemma vm_mmap_lost: "vm_mmap mm len off s = (s', x) \<Longrightarrow> i \<in> set (fl_lost s) \<Longrightarrow> i \<in> set (fl_lost s')"
  by (auto simp: vm_mmap_def dest: mmap_lost split: mm_choice.splits prod.splits sum.splits)

lemma munmap_lost: "fl_lost (fst (vm_munmap start t)) = fl_lost t"
  by (simp add: vm_munmap_def vm_close_lost split: option.split)

lemma alloc_lost: "xrp_ioctl_alloc en mm c req s = (s', x) \<Longrightarrow> i \<in> set (fl_lost s) \<Longrightarrow> i \<in> set (fl_lost s')"
  unfolding xrp_ioctl_alloc_def
  by (auto simp: munmap_lost xrp_allocation_queue_def dest!: vm_mmap_lost [where i = i]
      split: option.splits prod.splits sum.splits err.splits if_splits)

lemma with_obj_lost: "fl_lost (fst (with_obj f t)) = fl_lost t"
  by (simp add: with_obj_def split: prod.split)

lemma file_exec_lost: "i \<in> set (fl_lost s) \<Longrightarrow> i \<in> set (fl_lost (fst (file_exec oper s)))"
proof (cases oper)
  case (Alloc_Op en mm c req)
  assume "i \<in> set (fl_lost s)"
  then show ?thesis
    using Alloc_Op alloc_lost [of en mm c req s] by (auto split: prod.split sum.split)
next
  case (Mmap_Op r b e p)
  assume "i \<in> set (fl_lost s)"
  then show ?thesis using Mmap_Op mmap_lost [of r b e p s] by (metis file_exec.simps(3) fst_conv surj_pair)
qed (simp_all add: xvp_vm_open_def with_obj_lost vm_close_lost xrp_ioctl_free_def xvp_close_def split: option.split)

lemma file_steps_lost: "(file_step ^^ m) s s' \<Longrightarrow> i \<in> set (fl_lost s) \<Longrightarrow> i \<in> set (fl_lost s')"
proof (induction m arbitrary: s')
  case 0
  then show ?case by simp
next
  case (Suc m)
  then obtain t oper r where "i \<in> set (fl_lost t)" "file_exec oper t = (s', r)" by (auto simp: file_step_def)
  then show ?case using file_exec_lost [of i t oper] by simp
qed

text \<open>
  What a file still has in its busy list when it is closed is never freed: in every later
  state the allocation is alive although nothing of the driver refers to it.
\<close>

theorem file_close_leaks:
  assumes "file_initial s0" "(file_step ^^ n) s0 s" "i \<in> set (fl_busy s)" "(file_step ^^ m) (xvp_close s) s'"
    "op_ok Close s" "n + Suc m < 2 ^ 32 - 1"
  shows "ss_allocs (fl_objs s') i \<noteq> None"
proof -
  have "file_step s (xvp_close s)"
    unfolding file_step_def using assms(5) by (intro exI [of _ Close] exI [of _ "Ok ()"]) simp
  then have "(file_step ^^ (n + Suc m)) s0 s'"
    using assms(2,4) by (metis relpowp_Suc_I2 relpowp_trans)
  then have r: "file_inv s'" using file_run_inv(1) assms(1,6) by blast
  have "i \<in> set (fl_lost (xvp_close s))" using assms(3) by (simp add: xvp_close_def)
  then have "i \<in> set (fl_lost s')" by (rule file_steps_lost [OF assms(4)])
  then show ?thesis using file_live [OF r refs_pos(4)] by auto
qed


text \<open>A file with one allocation of a page that waits in the busy list.\<close>

definition empty_file :: file_state where
  "empty_file = \<lparr>fl_objs = demo_state, fl_busy = [], fl_vmas = [], fl_held = [], fl_lost = []\<rparr>"

definition busy_file :: file_state where
  "busy_file = fst (file_exec (Alloc_Op demo_env (Mm_Fails ENOMEM) True (Some (0x1000, 0))) empty_file)"

lemma demo_allocate:
  "allocate_obj demo_env 0x1000 0 demo_state =
     (demo_state\<lparr>ss_pool := \<lparr>pp_start = 0x100000, pp_size = 0x10000, pp_free_list = [\<lparr>b_start = 0x101000, b_size = 0xF000\<rparr>]\<rparr>,
        ss_allocs := [0 \<mapsto> \<lparr>al_pool = Private_Pool_Ops, al_start = 0x100000, al_size = 0x1000, al_ref = 1\<rparr>], ss_next := 1\<rparr>, Ok 0)"
  by (simp add: allocate_obj_def xrp_private_alloc_def ALIGN_def demo_env_def demo_state_def Let_def xrp_allocation_get_def)

lemma busy_file_eq:
  "fl_busy busy_file = [0]" "fl_vmas busy_file = []" "fl_held busy_file = []" "fl_lost busy_file = []"
  "ss_allocs (fl_objs busy_file) = [0 \<mapsto> \<lparr>al_pool = Private_Pool_Ops, al_start = 0x100000, al_size = 0x1000, al_ref = 1\<rparr>]"
  by (simp_all add: busy_file_def empty_file_def xrp_ioctl_alloc_def demo_allocate vm_mmap_def xrp_allocation_queue_def)

lemma empty_file_initial: "file_initial empty_file"
  by (simp add: file_initial_def empty_file_def demo_state_def pool_wf_def b_end_def)

lemma busy_file_reach: "(file_step ^^ 1) empty_file busy_file"
proof -
  have "op_ok (Alloc_Op demo_env (Mm_Fails ENOMEM) True (Some (0x1000, 0))) empty_file"
    by (simp add: MAX_REQUEST_def)
  moreover have "snd (file_exec (Alloc_Op demo_env (Mm_Fails ENOMEM) True (Some (0x1000, 0))) empty_file) \<noteq> Oops"
    by (simp add: empty_file_def xrp_ioctl_alloc_def demo_allocate vm_mmap_def)
  ultimately have "file_step empty_file busy_file"
    unfolding file_step_def busy_file_def by (metis prod.collapse)
  then show ?thesis by (simp only: relpowp_1)
qed

lemma one_step: "(1 :: nat) < 2 ^ 32 - 1"
  by simp

lemma busy_file_mmap: "xvp_mmap True 0x7000000 0x7001000 0x100 busy_file =
    (busy_file\<lparr>fl_busy := [], fl_vmas := [\<lparr>fv_start = 0x7000000, fv_end = 0x7001000, fv_alloc = 0\<rparr>]\<rparr>, Ok ())"
  by (simp add: xvp_mmap_def xrp_allocation_dequeue_def busy_file_eq fits_allocation_def PAGE_SHIFT_def)

theorem file_references_exact_witness:
  "\<exists>a. ss_allocs (fl_objs busy_file) 0 = Some a \<and> unat (al_ref a) = file_refs busy_file 0 \<and> file_refs busy_file 0 = 1"
  using file_references_exact [OF empty_file_initial busy_file_reach one_step refl, of 0]
  by (simp add: busy_file_eq file_refs_def)


theorem xvp_mmap_inside_witness:
  "\<exists>a. ss_allocs (fl_objs busy_file) 0 = Some a \<and> {0x100000..<0x101000} \<subseteq> region a"
proof -
  have p: "al_pool a = Private_Pool_Ops" if "ss_allocs (fl_objs busy_file) i = Some a" for i a
    using that by (auto simp: busy_file_eq split: if_splits)
  have l: "unat (0x7001000 - 0x7000000 :: u64) < 2 ^ 32"
    "unat (push_bit PAGE_SHIFT (0x100 :: u64)) + unat (0x7001000 - 0x7000000 :: u64) < 2 ^ 64"
    by (simp_all add: PAGE_SHIFT_def)
  show ?thesis
    using xvp_mmap_inside [OF empty_file_initial busy_file_reach one_step busy_file_mmap l p]
    by (simp add: busy_file_eq PAGE_SHIFT_def)
qed

theorem xvp_mmap_length_truncated_witness:
  "\<exists>s2. xvp_mmap True 0x7000000 0x107001000 0x100 busy_file = (s2, Ok ()) \<and>
     \<lparr>fv_start = 0x7000000, fv_end = 0x107001000, fv_alloc = 0\<rparr> \<in> set (fl_vmas s2)"
  using xvp_mmap_length_truncated [OF busy_file_mmap, of "0x107001000"] by auto

theorem xrp_ioctl_alloc_mmap_failure_witness:
  "\<exists>s'. xrp_ioctl_alloc demo_env (Mm_Fails ENOMEM) True (Some (0x1000, 0)) empty_file = (s', Ok (Error ENOMEM, 0x100000)) \<and>
     fl_busy s' = [0]"
proof -
  obtain o' where o: "allocate_obj demo_env 0x1000 0 (fl_objs empty_file) = (o', Ok 0)"
    "ss_allocs o' 0 = Some \<lparr>al_pool = Private_Pool_Ops, al_start = 0x100000, al_size = 0x1000, al_ref = 1\<rparr>"
    using demo_allocate by (simp add: empty_file_def)
  show ?thesis using xrp_ioctl_alloc_mmap_failure [OF o, of ENOMEM] by (simp add: empty_file_def)
qed

theorem file_close_leaks_witness:
  "ss_allocs (fl_objs (xvp_close busy_file)) 0 \<noteq> None"
  by (rule file_close_leaks [OF empty_file_initial busy_file_reach, where m = 0]) (simp_all add: busy_file_eq)

end
