(* ===== verification/Report.thy ===== *)
theory Report
  imports File_Alloc
begin

unbundle bit_operations_syntax

text \<open>
  Reports of the DSP to user space: \<open>xrp_ioctl_alloc_report\<close>, \<open>xrp_ioctl_release_report\<close>, the
  tasklet and the signal registration of \<open>xvp_main.c\<close>. There is one reporter per device; it
  is reached through the pointer \<open>xvp->reporter\<close>, which may be null or dangling.
\<close>

section \<open>State and operations\<close>

text \<open>
  \<open>rp_fasync\<close> are the files that asked for a signal; \<open>rp_virt\<close> says that the first word of
  the buffer is mapped for the kernel, \<open>rp_task\<close> that the tasklet was initialised.
\<close>

record reporter =
  rp_fasync :: "nat list"
  rp_phys :: phys_addr
  rp_virt :: bool
  rp_size :: u32
  rp_task :: bool

text \<open>
  The device: the file that owns the buffer, the communication area with the word index of
  its first command slot, the reporter's pointer and the live reporters, the first word of
  the report buffer, and the signals that were sent.
\<close>

record report_state =
  rt_file :: file_state
  rt_mem :: mmio
  rt_comm :: nat
  rt_ptr :: "nat option"
  rt_heap :: "nat \<rightharpoonup> reporter"
  rt_next :: nat
  rt_word :: u32
  rt_signals :: "nat list"

definition cmd_report_buffer_size :: nat where
  "cmd_report_buffer_size = 22"

definition cmd_report_status :: nat where
  "cmd_report_status = 23"

definition cmd_report_addr :: nat where
  "cmd_report_addr = 24"

abbreviation (input) XRP_DSP_REPORT_INVALID :: u32 where "XRP_DSP_REPORT_INVALID \<equiv> 0"
abbreviation (input) XRP_DSP_REPORT_WORKING :: u32 where "XRP_DSP_REPORT_WORKING \<equiv> 1"

definition reporter_of :: "report_state \<Rightarrow> reporter option" where
  "reporter_of s = (case rt_ptr s of None \<Rightarrow> None | Some i \<Rightarrow> rt_heap s i)"

definition set_reporter :: "reporter \<Rightarrow> report_state \<Rightarrow> report_state" where
  "set_reporter r s = (case rt_ptr s of None \<Rightarrow> s | Some i \<Rightarrow> s\<lparr>rt_heap := (rt_heap s)(i \<mapsto> r)\<rparr>)"

definition free_reporter :: "report_state \<Rightarrow> report_state" where
  "free_reporter s = (case rt_ptr s of None \<Rightarrow> s | Some i \<Rightarrow> s\<lparr>rt_heap := (rt_heap s)(i := None)\<rparr>)"

definition comm_put :: "nat \<Rightarrow> u32 \<Rightarrow> report_state \<Rightarrow> report_state" where
  "comm_put off v s = s\<lparr>rt_mem := xrp_comm_write32 (rt_comm s + off) v (rt_mem s)\<rparr>"

definition xrp_report_tasklet :: "report_state \<Rightarrow> report_state \<times> unit res" where
  "xrp_report_tasklet s =
     (case reporter_of s of
        None \<Rightarrow> (s, Oops)
      | Some r \<Rightarrow>
          if rp_fasync r = [] then (s, Ok ())
          else if \<not> rp_virt r then (s, Oops)
          else
            let s1 = s\<lparr>rt_word := xrp_comm_read32 (rt_comm s + cmd_report_id) (rt_mem s) AND 0xffff,
                       rt_signals := rt_signals s @ rp_fasync r\<rparr>
            in (comm_put cmd_report_id 0 s1, Ok ()))"

text \<open>
  \<open>xrp_ioctl_alloc_report\<close>. A new reporter replaces the pointer at once; on the late error
  paths it is freed and the pointer kept. The result of \<open>vm_mmap\<close> is not tested.
\<close>

definition publish_report :: "share_env \<Rightarrow> phys_addr \<Rightarrow> u32 \<Rightarrow> report_state \<Rightarrow> report_state" where
  "publish_report en phys sz s =
     (let s1 = comm_put cmd_report_addr (xrp_translate_to_dsp (en_bsearch en) (en_map en) (phys + 4)) s;
          s2 = comm_put cmd_report_buffer_size sz s1;
          s3 = comm_put cmd_report_status XRP_DSP_REPORT_WORKING s2;
          s4 = comm_put cmd_report_id 0 s3
      in set_reporter \<lparr>rp_fasync = [], rp_phys = phys, rp_virt = True, rp_size = sz, rp_task = True\<rparr> s4)"

definition xrp_ioctl_alloc_report ::
  "share_env \<Rightarrow> mm_choice \<Rightarrow> bool \<Rightarrow> bool \<Rightarrow> bool \<Rightarrow> (u32 \<times> u32) option \<Rightarrow> report_state \<Rightarrow>
    report_state \<times> u64 res res" where
  "xrp_ioctl_alloc_report en mm kmalloc_ok ioremap_ok copy_ok req s =
     (case req of
        None \<Rightarrow> (s, Error EFAULT)
      | Some (sz, al) \<Rightarrow>
          if \<not> kmalloc_ok then (s\<lparr>rt_ptr := None\<rparr>, Error EFAULT)
          else
            let s1 = s\<lparr>rt_ptr := Some (rt_next s), rt_next := rt_next s + 1,
                       rt_heap := (rt_heap s)(rt_next s \<mapsto>
                         \<lparr>rp_fasync = [], rp_phys = 0, rp_virt = False, rp_size = 0, rp_task = False\<rparr>)\<rparr> in
            (case allocate_obj en sz al (fl_objs (rt_file s1)) of
               (o', Inl e) \<Rightarrow> (s1\<lparr>rt_file := (rt_file s1)\<lparr>fl_objs := o'\<rparr>\<rparr>, Inl e)
             | (o', Inr i) \<Rightarrow>
                 (case ss_allocs o' i of
                    None \<Rightarrow> (s1, Oops)
                  | Some a \<Rightarrow>
                      (case vm_mmap mm (ucast (al_size a)) (al_start a)
                              (xrp_allocation_queue i ((rt_file s1)\<lparr>fl_objs := o'\<rparr>)) of
                         (f, Inl Fault) \<Rightarrow> (s1, Oops)
                       | (f, vaddr) \<Rightarrow>
                           let s2 = s1\<lparr>rt_file := f\<rparr> in
                           if \<not> ioremap_ok then (free_reporter s2, Error EFAULT)
                           else
                             let s3 = publish_report en (al_start a) sz s2 in
                             if copy_ok then (s3, Ok vaddr)
                             else (free_reporter (case vaddr of
                                     Inl _ \<Rightarrow> s3
                                   | Inr start \<Rightarrow> s3\<lparr>rt_file := fst (vm_munmap start (rt_file s3))\<rparr>),
                                   Error EFAULT)))))"

definition xrp_report_fasync :: "bool \<Rightarrow> nat \<Rightarrow> bool \<Rightarrow> report_state \<Rightarrow> report_state \<times> unit res" where
  "xrp_report_fasync helper_ok filp on s =
     (if rt_ptr s = None then (s, Ok ())
      else case reporter_of s of
          None \<Rightarrow> (s, Oops)
        | Some r \<Rightarrow>
            if \<not> helper_ok then (s, Error EIO)
            else (set_reporter (r\<lparr>rp_fasync :=
                    (if on then List.insert filp (rp_fasync r) else remove1 filp (rp_fasync r))\<rparr>) s, Ok ()))"

definition xrp_report_fasync_release :: "nat \<Rightarrow> report_state \<Rightarrow> report_state \<times> unit res" where
  "xrp_report_fasync_release filp s =
     (if rt_ptr s \<noteq> None then xrp_report_fasync True filp False s else (s, Ok ()))"

definition xrp_ioctl_release_report ::
  "(u64 \<Rightarrow> file_vma option) \<Rightarrow> nat \<Rightarrow> u64 option \<Rightarrow> report_state \<Rightarrow> report_state \<times> unit res" where
  "xrp_ioctl_release_report find_vma filp req s =
     (case reporter_of s of
        None \<Rightarrow> (s, Oops)
      | Some r \<Rightarrow>
          if \<not> rp_task r then (s, Oops)
          else
            let s1 = comm_put cmd_report_status XRP_DSP_REPORT_INVALID s in
            (case req of
               None \<Rightarrow> (s1, Error EFAULT)
             | Some addr \<Rightarrow>
                 (case find_vma addr of
                    None \<Rightarrow> (s1, Error EINVAL)
                  | Some v \<Rightarrow>
                      if \<not> (v \<in> set (fl_vmas (rt_file s1)) \<and> fv_start v \<le> addr \<and> addr < fv_end v)
                      then (s1, Error EINVAL)
                      else
                        let s2 = s1\<lparr>rt_file := fst (xvp_vm_close v (rt_file s1))\<rparr> in
                        (case xrp_report_fasync_release filp s2 of
                           (s3, Inl Fault) \<Rightarrow> (s3, Oops)
                         | (s3, _) \<Rightarrow> ((free_reporter s3)\<lparr>rt_ptr := None\<rparr>, Ok ())))))"

section \<open>Properties of reports\<close>

lemma comm_put_simps [simp]:
  "rt_file (comm_put off v s) = rt_file s" "rt_ptr (comm_put off v s) = rt_ptr s"
  "rt_heap (comm_put off v s) = rt_heap s" "rt_comm (comm_put off v s) = rt_comm s"
  "rt_next (comm_put off v s) = rt_next s" "rt_word (comm_put off v s) = rt_word s"
  "rt_signals (comm_put off v s) = rt_signals s"
  "rt_mem (comm_put off v s) i = (if i = rt_comm s + off then v else rt_mem s i)"
  by (simp_all add: comm_put_def xrp_comm_write32_def)

lemma reporter_of_mem: "reporter_of (s\<lparr>rt_mem := m\<rparr>) = reporter_of s"
  by (simp add: reporter_of_def cong: option.case_cong)

text \<open>
  A report reaches user space: when the DSP has stored a report identifier with the
  notification flag, the interrupt handler and the tasklet it schedules put the identifier
  into the first word of the mapped buffer, signal every registered file once and clear the
  identifier in the slot for the next report.
\<close>

theorem report_delivered:
  assumes "rt_ptr s \<noteq> None" "reporter_of s = Some r" "rp_fasync r \<noteq> []" "rp_virt r"
    "rt_mem s (rt_comm s + cmd_report_id) = ident OR REPORT_TO_HOST_FLAG" "ident \<le> 0xffff"
    "is_reporter h" "is_mem h = rt_mem s" "xrp_report_complete (rt_comm s) h = (h', scheduled)"
  shows "\<exists>s'. scheduled \<and> is_report_scheduled h' = is_report_scheduled h + 1 \<and>
    xrp_report_tasklet (s\<lparr>rt_mem := is_mem h'\<rparr>) = (s', Ok ()) \<and> rt_word s' = ident \<and>
    rt_signals s' = rt_signals s @ rp_fasync r \<and> rt_mem s' (rt_comm s + cmd_report_id) = 0"
proof -
  have F: "(0x10000000 :: u32) = 2 ^ 28" by simp
  have bF: "bit (0x10000000 :: u32) n \<longleftrightarrow> n = 28" for n
    unfolding F bit_exp_iff by auto
  have t: "take_bit 16 ident = ident"
    using assms(6) by (simp add: word_unat_eq_iff unat_take_bit_mod word_le_nat_alt)
  have b28: "\<not> bit ident 28" using bit_take_bit_iff [of 16 ident 28] unfolding t by simp
  have f: "(ident OR 0x10000000) AND 0x10000000 \<noteq> 0"
  proof
    assume "(ident OR 0x10000000) AND 0x10000000 = 0"
    then have "bit ((ident OR 2 ^ 28) AND 2 ^ 28) 28 = bit (0 :: u32) 28" unfolding F by simp
    then show False by (simp add: bit_simps)
  qed
  have c: "(ident OR 0x10000000) AND NOT 0x10000000 = ident"
    using b28 by (intro bit_word_eqI) (auto simp only: bit_and_iff bit_or_iff bit_not_iff bF possible_bit_word)
  have m: "ident AND 0xffff = ident"
    using t by (simp add: take_bit_eq_mask mask_eq_exp_minus_1)
  have h: "scheduled" "is_report_scheduled h' = is_report_scheduled h + 1"
    "is_mem h' = xrp_comm_write32 (rt_comm s + cmd_report_id) ident (rt_mem s)"
    using assms(5,7-9) f c by (auto simp: xrp_report_complete_def Let_def xrp_comm_read32_def split: if_splits)
  show ?thesis
    using assms(2-4) h m
    by (simp add: xrp_report_tasklet_def reporter_of_mem Let_def xrp_comm_read32_def xrp_comm_write32_def)
qed


lemma set_reporter_simps [simp]:
  "rt_file (set_reporter r s) = rt_file s" "rt_ptr (set_reporter r s) = rt_ptr s" "rt_mem (set_reporter r s) = rt_mem s"
  "rt_comm (set_reporter r s) = rt_comm s"
  by (simp_all add: set_reporter_def split: option.split)

lemma alloc_report_ok:
  assumes "xrp_ioctl_alloc_report en mm km io cp (Some (sz, al)) s = (s', Ok vaddr)"
  obtains o' i a f where "allocate_obj en sz al (fl_objs (rt_file s)) = (o', Ok i)" "ss_allocs o' i = Some a"
    "vm_mmap mm (ucast (al_size a)) (al_start a) (xrp_allocation_queue i ((rt_file s)\<lparr>fl_objs := o'\<rparr>)) = (f, vaddr)"
    "vaddr \<noteq> Oops"
    "s' = publish_report en (al_start a) sz (s\<lparr>rt_ptr := Some (rt_next s), rt_next := rt_next s + 1,
       rt_heap := (rt_heap s)(rt_next s \<mapsto> \<lparr>rp_fasync = [], rp_phys = 0, rp_virt = False, rp_size = 0, rp_task = False\<rparr>),
       rt_file := f\<rparr>)"
  using assms unfolding xrp_ioctl_alloc_report_def Let_def
  by (auto split: if_splits prod.splits sum.splits option.splits err.splits)

text \<open>
  C30: Opening the report channel tells the DSP where to write: when \<open>xrp_ioctl_alloc_report\<close>
  succeeds the slot holds the device address of the payload (behind the identifier word),
  its size, the working status and no pending identifier, and the reporter is usable.
\<close>

theorem xrp_ioctl_alloc_report_publishes:
  assumes "xrp_ioctl_alloc_report en mm km io cp (Some (sz, al)) s = (s', Ok vaddr)"
  shows "\<exists>i a. ss_allocs (fl_objs (rt_file s')) i = Some a \<and>
    rt_mem s' (rt_comm s + cmd_report_addr) = xrp_translate_to_dsp (en_bsearch en) (en_map en) (al_start a + 4) \<and>
    rt_mem s' (rt_comm s + cmd_report_buffer_size) = sz \<and> rt_mem s' (rt_comm s + cmd_report_status) = 1 \<and>
    rt_mem s' (rt_comm s + cmd_report_id) = 0 \<and>
    (\<exists>r. reporter_of s' = Some r \<and> rp_virt r \<and> rp_task r \<and> rp_phys r = al_start a)"
  using assms
proof (rule alloc_report_ok)
  fix o' i a f
  assume a: "allocate_obj en sz al (fl_objs (rt_file s)) = (o', Ok i)" "ss_allocs o' i = Some a"
    and v: "vm_mmap mm (ucast (al_size a)) (al_start a) (xrp_allocation_queue i ((rt_file s)\<lparr>fl_objs := o'\<rparr>)) = (f, vaddr)"
    and s': "s' = publish_report en (al_start a) sz (s\<lparr>rt_ptr := Some (rt_next s), rt_next := rt_next s + 1,
       rt_heap := (rt_heap s)(rt_next s \<mapsto> \<lparr>rp_fasync = [], rp_phys = 0, rp_virt = False, rp_size = 0, rp_task = False\<rparr>),
       rt_file := f\<rparr>)"
  have "fl_objs f = o'"
    using v by (auto simp: vm_mmap_def xvp_mmap_def xrp_allocation_dequeue_def xrp_allocation_queue_def
        split: mm_choice.splits prod.splits sum.splits option.splits if_splits)
  then show ?thesis
    using a(2)
    by (intro exI [of _ i] exI [of _ a])
      (simp add: s' publish_report_def Let_def reporter_of_def set_reporter_def cmd_report_addr_def
        cmd_report_buffer_size_def cmd_report_status_def cmd_report_id_def)
qed

text \<open>
  Releasing the report channel undoes opening it: the reporter is freed, the pointer is
  null again, the DSP is told that the channel is invalid, and the area is closed.
\<close>

theorem alloc_release_report:
  assumes "xrp_ioctl_alloc_report en mm km io cp (Some (sz, al)) s = (s', Ok vaddr)"
    "rt_heap s (rt_next s) = None" "find_vma addr = Some v" "v \<in> set (fl_vmas (rt_file s'))" "fv_start v \<le> addr" "addr < fv_end v"
  shows "\<exists>t. xrp_ioctl_release_report find_vma filp (Some addr) s' = (t, Ok ()) \<and> rt_ptr t = None \<and>
    rt_heap t = rt_heap s \<and> rt_mem t (rt_comm s + cmd_report_status) = XRP_DSP_REPORT_INVALID \<and>
    rt_file t = fst (xvp_vm_close v (rt_file s'))"
  using assms(1)
proof (rule alloc_report_ok)
  fix o' i a f
  assume s': "s' = publish_report en (al_start a) sz (s\<lparr>rt_ptr := Some (rt_next s), rt_next := rt_next s + 1,
       rt_heap := (rt_heap s)(rt_next s \<mapsto> \<lparr>rp_fasync = [], rp_phys = 0, rp_virt = False, rp_size = 0, rp_task = False\<rparr>),
       rt_file := f\<rparr>)"
  have "reporter_of s' = Some \<lparr>rp_fasync = [], rp_phys = al_start a, rp_virt = True, rp_size = sz, rp_task = True\<rparr>"
    "rt_ptr s' = Some (rt_next s)" "(rt_heap s')(rt_next s := None) = rt_heap s" "rt_comm s' = rt_comm s"
    using assms(2) by (auto simp: s' publish_report_def Let_def reporter_of_def set_reporter_def fun_eq_iff)
  then show ?thesis
    using assms(3-6)
    by (simp add: xrp_ioctl_release_report_def Let_def xrp_report_fasync_release_def xrp_report_fasync_def
        reporter_of_def set_reporter_def free_reporter_def)
qed

text \<open>
  A report channel that could not be opened breaks the device: when the buffer cannot be
  mapped the reporter is freed and the pointer kept, and closing the file or the next report
  uses the freed reporter.
\<close>

lemma failed_report_dangles:
  assumes "allocate_obj en sz al (fl_objs (rt_file s)) = (o', Ok i)" "ss_allocs o' i = Some a"
    "vm_mmap mm (ucast (al_size a)) (al_start a) (xrp_allocation_queue i ((rt_file s)\<lparr>fl_objs := o'\<rparr>)) = (f, Ok vaddr)"
    "xrp_ioctl_alloc_report en mm True False cp (Some (sz, al)) s = (s', r)"
  shows "r = Error EFAULT" "snd (xrp_report_fasync_release filp s') = Oops" "snd (xrp_report_tasklet s') = Oops"
  using assms
  by (auto simp: xrp_ioctl_alloc_report_def Let_def free_reporter_def xrp_report_fasync_release_def
      xrp_report_fasync_def reporter_of_def xrp_report_tasklet_def)

section \<open>A concrete device\<close>

definition demo_device :: report_state where
  "demo_device = \<lparr>rt_file = empty_file, rt_mem = (\<lambda>i. 0), rt_comm = 0, rt_ptr = None, rt_heap = Map.empty, rt_next = 0,
     rt_word = 0, rt_signals = []\<rparr>"

lemma demo_alloc_report:
  "\<exists>s'. xrp_ioctl_alloc_report demo_env (Mm_Area 0x7000000 True) True True True (Some (0x1000, 0)) demo_device =
     (s', Ok (Ok 0x7000000)) \<and>
     fl_vmas (rt_file s') = [\<lparr>fv_start = 0x7000000, fv_end = 0x7001000, fv_alloc = 0\<rparr>]"
  by (simp add: xrp_ioctl_alloc_report_def demo_device_def empty_file_def demo_allocate Let_def vm_mmap_def xvp_mmap_def
      xrp_allocation_dequeue_def xrp_allocation_queue_def fits_allocation_def PAGE_SHIFT_def publish_report_def)

theorem report_delivered_witness:
  "\<exists>s'. xrp_report_tasklet (demo_device\<lparr>rt_ptr := Some 0, rt_heap := [0 \<mapsto> \<lparr>rp_fasync = [7], rp_phys = 0, rp_virt = True,
       rp_size = 16, rp_task = True\<rparr>], rt_mem := (\<lambda>i. 0)(cmd_report_id := 5)\<rparr>) = (s', Ok ()) \<and> rt_word s' = 5 \<and> rt_signals s' = [7]"
proof -
  let ?s = "demo_device\<lparr>rt_ptr := Some 0, rt_heap := [0 \<mapsto> \<lparr>rp_fasync = [7], rp_phys = 0, rp_virt = True,
       rp_size = 16, rp_task = True\<rparr>], rt_mem := (\<lambda>i. 0)(cmd_report_id := 0x10000005)\<rparr>"
  let ?h = "\<lparr>is_mem = (\<lambda>i. 0)(cmd_report_id := 0x10000005), is_comm = Some 0, is_queue_comm = [], is_reporter = True,
       is_report_scheduled = 0, is_completions = []\<rparr>"
  have c: "xrp_report_complete 0 ?h =
      (?h\<lparr>is_mem := (\<lambda>i. 0)(cmd_report_id := 5), is_report_scheduled := 1\<rparr>, True)"
    by (simp add: xrp_report_complete_def xrp_comm_read32_def xrp_comm_write32_def)
  show ?thesis
    using report_delivered [where s = ?s and r = "\<lparr>rp_fasync = [7], rp_phys = 0, rp_virt = True, rp_size = 16, rp_task = True\<rparr>"
        and ident = 5 and h = ?h and h' = "?h\<lparr>is_mem := (\<lambda>i. 0)(cmd_report_id := 5), is_report_scheduled := 1\<rparr>" and scheduled = True]
      c by (auto simp: demo_device_def reporter_of_def)
qed

theorem xrp_ioctl_alloc_report_publishes_witness:
  "\<exists>s'. xrp_ioctl_alloc_report demo_env (Mm_Area 0x7000000 True) True True True (Some (0x1000, 0)) demo_device =
     (s', Ok (Ok 0x7000000)) \<and> rt_mem s' cmd_report_status = 1 \<and> rt_mem s' cmd_report_buffer_size = 0x1000"
proof -
  obtain s' where s': "xrp_ioctl_alloc_report demo_env (Mm_Area 0x7000000 True) True True True (Some (0x1000, 0)) demo_device =
     (s', Ok (Ok 0x7000000))" using demo_alloc_report by blast
  show ?thesis using xrp_ioctl_alloc_report_publishes [OF s'] s' by (auto simp: demo_device_def)
qed

theorem alloc_release_report_witness:
  "\<exists>s' t. xrp_ioctl_alloc_report demo_env (Mm_Area 0x7000000 True) True True True (Some (0x1000, 0)) demo_device =
     (s', Ok (Ok 0x7000000)) \<and>
     xrp_ioctl_release_report (\<lambda>a. Some \<lparr>fv_start = 0x7000000, fv_end = 0x7001000, fv_alloc = 0\<rparr>) 7 (Some 0x7000000) s' = (t, Ok ()) \<and>
     rt_ptr t = None \<and> rt_heap t = Map.empty"
proof -
  obtain s' where s': "xrp_ioctl_alloc_report demo_env (Mm_Area 0x7000000 True) True True True (Some (0x1000, 0)) demo_device =
     (s', Ok (Ok 0x7000000))" "fl_vmas (rt_file s') = [\<lparr>fv_start = 0x7000000, fv_end = 0x7001000, fv_alloc = 0\<rparr>]"
    using demo_alloc_report by blast
  show ?thesis
    using alloc_release_report [OF s'(1), of "\<lambda>a. Some \<lparr>fv_start = 0x7000000, fv_end = 0x7001000, fv_alloc = 0\<rparr>" "0x7000000"
      "\<lparr>fv_start = 0x7000000, fv_end = 0x7001000, fv_alloc = 0\<rparr>" 7] s'
    by (auto simp: demo_device_def)
qed

end
