(* ===== verification/Dma_Buf.thy ===== *)
theory Dma_Buf
  imports Prelude
begin

unbundle bit_operations_syntax

text \<open>
  Buffers of other devices: \<open>xrp_ioctl_dma_buf_import\<close>, \<open>xrp_ioctl_dma_buf_release\<close>,
  \<open>xrp_ioctl_dma_buf_sync\<close> and their helpers in \<open>xvp_main.c\<close>. The kernel's dma-buf calls return error
  pointers, not null, so the code's tests for null never see a failure; using an error pointer
  is a \<open>Fault\<close>.
\<close>

section \<open>State and operations\<close>

text \<open>
  A buffer is named by a number; \<open>db_refs\<close> counts the references the driver holds, \<open>db_live\<close> are
  the attachments that are mapped. An item is an entry of \<open>xvp->dma_buf_list\<close>.
\<close>

record sg_table =
  sg_nents :: nat
  sg_lens :: "u32 list"
  sg_phys :: phys_addr

record dma_item =
  it_dmabuf :: nat
  it_attachment :: nat
  it_sgt :: sg_table
  it_ref :: int

record dma_state =
  db_items :: "dma_item list"
  db_refs :: "nat \<Rightarrow> int"
  db_live :: "nat list"
  db_next :: nat

text \<open>
  The kernel for one call: the buffer of a file descriptor, whether attaching works, the
  mapped table, whether \<open>kzalloc\<close>, \<open>vm_mmap\<close> and the copy to the user work.
\<close>

record dma_env =
  de_get :: "int \<Rightarrow> nat option"
  de_attach :: bool
  de_map :: "sg_table option"
  de_kzalloc :: bool
  de_mmap :: u64
  de_copy :: bool

definition add_ref :: "nat \<Rightarrow> int \<Rightarrow> dma_state \<Rightarrow> dma_state" where
  "add_ref b d s = s\<lparr>db_refs := (db_refs s)(b := db_refs s b + d)\<rparr>"

fun bump :: "nat \<Rightarrow> dma_item list \<Rightarrow> dma_item list" where
  "bump b [] = []"
| "bump b (x # xs) = (if it_dmabuf x = b then x\<lparr>it_ref := it_ref x + 1\<rparr> # xs else x # bump b xs)"

fun find_item :: "nat \<Rightarrow> dma_item list \<Rightarrow> dma_item option" where
  "find_item b [] = None"
| "find_item b (x # xs) = (if it_dmabuf x = b then Some x else find_item b xs)"

text \<open>\<open>xrp_release_dma_buf_item\<close>: the item leaves the list with its last reference.\<close>

fun drop_item :: "nat \<Rightarrow> dma_item list \<Rightarrow> dma_item list" where
  "drop_item b [] = []"
| "drop_item b (x # xs) =
    (if it_dmabuf x = b then (if it_ref x - 1 = 0 then xs else x\<lparr>it_ref := it_ref x - 1\<rparr> # xs)
     else x # drop_item b xs)"

definition xrp_release_dma_buf_item :: "nat \<Rightarrow> dma_state \<Rightarrow> dma_state" where
  "xrp_release_dma_buf_item b s = s\<lparr>db_items := drop_item b (db_items s)\<rparr>"

text \<open>
  The first half of the import: the item for a buffer whose reference was taken. An item that
  exists is counted twice, once in the search and once behind it.
\<close>

definition import_item :: "dma_env \<Rightarrow> nat \<Rightarrow> dma_state \<Rightarrow> dma_state \<times> sg_table res" where
  "import_item en b s =
     (case find_item b (db_items s) of
        Some x \<Rightarrow> (s\<lparr>db_items := bump b (bump b (db_items s))\<rparr>, Ok (it_sgt x))
      | None \<Rightarrow>
          if \<not> de_attach en then (s, Oops)
          else
            let s1 = s\<lparr>db_live := db_next s # db_live s, db_next := db_next s + 1\<rparr> in
            if \<not> de_kzalloc en then (add_ref b (-1) s1, Error EINVAL)
            else case de_map en of
                None \<Rightarrow> (s1, Oops)
              | Some sgt \<Rightarrow>
                  (s1\<lparr>db_items := db_items s1 @
                      [\<lparr>it_dmabuf = b, it_attachment = db_next s, it_sgt = sgt, it_ref = 1\<rparr>]\<rparr>, Ok sgt))"

definition sg_size :: "sg_table \<Rightarrow> u32" where
  "sg_size sgt = sum_list (sg_lens sgt)"

definition xrp_ioctl_dma_buf_import ::
  "dma_env \<Rightarrow> int option \<Rightarrow> dma_state \<Rightarrow> dma_state \<times> (u64 \<times> phys_addr \<times> u32) res" where
  "xrp_ioctl_dma_buf_import en req s =
     (case req of
        None \<Rightarrow> (s, Error EFAULT)
      | Some fd \<Rightarrow>
          (case de_get en fd of
             None \<Rightarrow> (s, Oops)
           | Some b \<Rightarrow>
               (case import_item en b (add_ref b 1 s) of
                  (s1, Inl e) \<Rightarrow> (s1, Inl e)
                | (s1, Inr sgt) \<Rightarrow>
                    if sg_nents sgt \<noteq> 1
                    then (add_ref b (-1) (xrp_release_dma_buf_item b s1), Error EINVAL)
                    else if de_copy en then (s1, Ok (de_mmap en, sg_phys sgt, sg_size sgt))
                    else (add_ref b (-1) (xrp_release_dma_buf_item b (add_ref b (-1) s1)), Error EINVAL))))"

definition xrp_search_dma_buf :: "dma_env \<Rightarrow> int \<Rightarrow> dma_state \<Rightarrow> dma_item option res" where
  "xrp_search_dma_buf en fd s =
     (case de_get en fd of None \<Rightarrow> Oops | Some b \<Rightarrow> Ok (find_item b (db_items s)))"

text \<open>
  \<open>xrp_ioctl_dma_buf_release\<close> unmaps, detaches and puts whatever the item's count is; unmapping
  an attachment that is gone is a \<open>Fault\<close>.
\<close>

definition xrp_ioctl_dma_buf_release :: "dma_env \<Rightarrow> int option \<Rightarrow> dma_state \<Rightarrow> dma_state \<times> unit res" where
  "xrp_ioctl_dma_buf_release en req s =
     (case req of
        None \<Rightarrow> (s, Error EFAULT)
      | Some fd \<Rightarrow>
          (case xrp_search_dma_buf en fd s of
             Inl e \<Rightarrow> (s, Inl e)
           | Inr None \<Rightarrow> (s, Error EFAULT)
           | Inr (Some x) \<Rightarrow>
               if it_attachment x \<notin> set (db_live s) then (s, Oops)
               else
                 let s1 = s\<lparr>db_live := remove1 (it_attachment x) (db_live s)\<rparr> in
                 (xrp_release_dma_buf_item (it_dmabuf x) (add_ref (it_dmabuf x) (-1) s1), Ok ())))"

datatype sync_op = Sync_For_Cpu phys_addr u32 | Sync_For_Device phys_addr u32

definition xrp_ioctl_dma_buf_sync ::
  "dma_env \<Rightarrow> (int \<times> u32 \<times> phys_addr \<times> u32) option \<Rightarrow> dma_state \<Rightarrow> sync_op list \<times> unit res" where
  "xrp_ioctl_dma_buf_sync en req s =
     (case req of
        None \<Rightarrow> ([], Error EFAULT)
      | Some (fd, flags, paddr, sz) \<Rightarrow>
          (case xrp_search_dma_buf en fd s of
             Inl e \<Rightarrow> ([], Inl e)
           | Inr None \<Rightarrow> ([], Error EFAULT)
           | Inr (Some x) \<Rightarrow>
               if flags = 1 then ([Sync_For_Cpu paddr sz], Ok ())
               else if flags = 2 then ([Sync_For_Device paddr sz], Ok ())
               else if flags = 3 then ([Sync_For_Cpu paddr sz, Sync_For_Device paddr sz], Ok ())
               else ([], Error EFAULT)))"

section \<open>Properties\<close>

lemma find_item_append: "find_item b (xs @ ys) = (case find_item b xs of None \<Rightarrow> find_item b ys | Some x \<Rightarrow> Some x)"
  by (induction xs) auto

lemma find_item_dmabuf: "find_item b xs = Some x \<Longrightarrow> it_dmabuf x = b"
  by (induction xs) (auto split: if_splits)

lemma drop_item_append: "find_item b xs = None \<Longrightarrow> drop_item b (xs @ ys) = xs @ drop_item b ys"
  by (induction xs) (auto split: if_splits)

lemma bump_find: "find_item b xs = Some x \<Longrightarrow> find_item b (bump b xs) = Some (x\<lparr>it_ref := it_ref x + 1\<rparr>)"
  by (induction xs) auto

lemma drop_find: "find_item b xs = Some x \<Longrightarrow> it_ref x \<noteq> 1 \<Longrightarrow> find_item b (drop_item b xs) = Some (x\<lparr>it_ref := it_ref x - 1\<rparr>)"
  by (induction xs) auto

text \<open>
  Importing a buffer that was not imported before and releasing it is a round trip: the
  list of items, the references of every buffer and the live attachments are as before, and
  the answer describes the mapped table.
\<close>

theorem dma_import_release:
  assumes "de_get en fd = Some b" "find_item b (db_items s) = None" "db_next s \<notin> set (db_live s)"
    "xrp_ioctl_dma_buf_import en (Some fd) s = (s1, Ok (addr, paddr, sz))"
  shows "(\<exists>sgt. de_map en = Some sgt \<and> paddr = sg_phys sgt \<and> sz = sg_size sgt) \<and>
    (\<exists>s2. xrp_ioctl_dma_buf_release en (Some fd) s1 = (s2, Ok ()) \<and>
       db_items s2 = db_items s \<and> db_refs s2 = db_refs s \<and> db_live s2 = db_live s)"
proof -
  obtain sgt where m: "de_map en = Some sgt" "paddr = sg_phys sgt" "sz = sg_size sgt"
    and s1: "s1 = (add_ref b 1 s)\<lparr>db_live := db_next s # db_live s, db_next := db_next s + 1,
      db_items := db_items s @ [\<lparr>it_dmabuf = b, it_attachment = db_next s, it_sgt = sgt, it_ref = 1\<rparr>]\<rparr>"
    using assms by (auto simp: xrp_ioctl_dma_buf_import_def import_item_def add_ref_def Let_def
        split: if_splits option.splits)
  have "find_item b (db_items s1) = Some \<lparr>it_dmabuf = b, it_attachment = db_next s, it_sgt = sgt, it_ref = 1\<rparr>"
    using assms(2) by (simp add: s1 find_item_append)
  then have "xrp_ioctl_dma_buf_release en (Some fd) s1 =
      (xrp_release_dma_buf_item b (add_ref b (-1) (s1\<lparr>db_live := db_live s\<rparr>)), Ok ())"
    using assms(1) by (simp add: xrp_ioctl_dma_buf_release_def xrp_search_dma_buf_def s1 Let_def)
  then show ?thesis
    using m assms(2) by (simp add: xrp_release_dma_buf_item_def add_ref_def s1 drop_item_append fun_eq_iff)
qed

text \<open>
  The counts of a buffer that is imported a second time are wrong: the second import
  counts twice, and the first release already unmaps the attachment but keeps the item, so
  the second release uses an attachment that is gone.
\<close>

theorem dma_second_import:
  assumes "de_get en fd = Some b" "find_item b (db_items s) = Some x" "it_ref x = 1" "it_attachment x \<in> set (db_live s)"
    "distinct (db_live s)" "sg_nents (it_sgt x) = 1" "de_copy en"
  shows "\<exists>s1 s2 r. xrp_ioctl_dma_buf_import en (Some fd) s = (s1, Ok r) \<and>
    find_item b (db_items s1) = Some (x\<lparr>it_ref := 3\<rparr>) \<and>
    xrp_ioctl_dma_buf_release en (Some fd) s1 = (s2, Ok ()) \<and>
    snd (xrp_ioctl_dma_buf_release en (Some fd) s2) = Oops"
proof -
  define s1 where "s1 = (add_ref b 1 s)\<lparr>db_items := bump b (bump b (db_items s))\<rparr>"
  have bx: "it_dmabuf x = b" using find_item_dmabuf [OF assms(2)] .
  have i: "xrp_ioctl_dma_buf_import en (Some fd) s = (s1, Ok (de_mmap en, sg_phys (it_sgt x), sg_size (it_sgt x)))"
    using assms by (simp add: xrp_ioctl_dma_buf_import_def import_item_def add_ref_def s1_def)
  have f1: "find_item b (db_items s1) = Some (x\<lparr>it_ref := 3\<rparr>)"
    using bump_find [OF bump_find [OF assms(2)]] assms(3) by (simp add: s1_def add_ref_def)
  define s2 where "s2 = xrp_release_dma_buf_item b (add_ref b (-1) (s1\<lparr>db_live := remove1 (it_attachment x) (db_live s)\<rparr>))"
  have r1: "xrp_ioctl_dma_buf_release en (Some fd) s1 = (s2, Ok ())"
    using assms(1,4) f1 bx
    by (simp add: xrp_ioctl_dma_buf_release_def xrp_search_dma_buf_def s2_def Let_def) (simp add: s1_def add_ref_def)
  have f2: "find_item b (db_items s2) = Some (x\<lparr>it_ref := 2\<rparr>)"
    using drop_find [OF f1] by (simp add: s2_def xrp_release_dma_buf_item_def add_ref_def)
  have "it_attachment x \<notin> set (db_live s2)"
    using assms(5) by (simp add: s2_def xrp_release_dma_buf_item_def add_ref_def)
  then have "snd (xrp_ioctl_dma_buf_release en (Some fd) s2) = Oops"
    using assms(1) f2 by (simp add: xrp_ioctl_dma_buf_release_def xrp_search_dma_buf_def)
  then show ?thesis using i f1 r1 by blast
qed

definition demo_dma :: dma_env where
  "demo_dma = \<lparr>de_get = (\<lambda>fd. Some (nat fd)), de_attach = True,
     de_map = Some \<lparr>sg_nents = 1, sg_lens = [0x1000, 0x800], sg_phys = 0x4000\<rparr>, de_kzalloc = True,
     de_mmap = 0x7000000, de_copy = True\<rparr>"

definition no_items :: dma_state where
  "no_items = \<lparr>db_items = [], db_refs = (\<lambda>b. 0), db_live = [], db_next = 0\<rparr>"

theorem dma_import_release_witness:
  "\<exists>s1 s2. xrp_ioctl_dma_buf_import demo_dma (Some 5) no_items = (s1, Ok (0x7000000, 0x4000, 0x1800)) \<and>
     xrp_ioctl_dma_buf_release demo_dma (Some 5) s1 = (s2, Ok ()) \<and> db_items s2 = [] \<and> db_live s2 = []"
proof -
  have e: "\<exists>s1. xrp_ioctl_dma_buf_import demo_dma (Some 5) no_items = (s1, Ok (0x7000000, 0x4000, 0x1800))"
    by (simp add: xrp_ioctl_dma_buf_import_def import_item_def demo_dma_def no_items_def add_ref_def sg_size_def)
  then obtain s1 where s1: "xrp_ioctl_dma_buf_import demo_dma (Some 5) no_items = (s1, Ok (0x7000000, 0x4000, 0x1800))" by blast
  show ?thesis
    using dma_import_release [where en = demo_dma and b = 5, OF _ _ _ s1] s1
    by (auto simp: demo_dma_def no_items_def)
qed

definition one_item :: dma_state where
  "one_item = \<lparr>db_items = [\<lparr>it_dmabuf = 5, it_attachment = 0,
      it_sgt = \<lparr>sg_nents = 1, sg_lens = [0x1000], sg_phys = 0x4000\<rparr>, it_ref = 1\<rparr>],
     db_refs = (\<lambda>b. 0)(5 := 1), db_live = [0], db_next = 1\<rparr>"

theorem dma_second_import_witness:
  "\<exists>s1 s2 r. xrp_ioctl_dma_buf_import demo_dma (Some 5) one_item = (s1, Ok r) \<and>
     xrp_ioctl_dma_buf_release demo_dma (Some 5) s1 = (s2, Ok ()) \<and>
     snd (xrp_ioctl_dma_buf_release demo_dma (Some 5) s2) = Oops"
  using dma_second_import [where en = demo_dma and b = 5 and fd = 5 and s = one_item and x = "hd (db_items one_item)"]
  by (simp add: demo_dma_def one_item_def) blast

end
