(* ===== verification/Io_Copy.thy ===== *)
theory Io_Copy
  imports Prelude
begin

unbundle bit_operations_syntax

text \<open>
  The copy loops for device memory: \<open>memcpy_toio_local\<close>, \<open>memset_hw_local\<close>, \<open>memcpy_tohw\<close> and
  \<open>memset_hw\<close> of \<open>xrp_hw_simple.c\<close>. The first two write bytes up to an 8-byte boundary, then
  whole 64-bit words, then the bytes that are left; the lemmas show that they store what a
  loop over the bytes stores. Words are stored with the low byte first.
\<close>

section \<open>Memory and its stores\<close>

type_synonym memory = "u64 \<Rightarrow> u8"

definition raw_writeb :: "u8 \<Rightarrow> u64 \<Rightarrow> memory \<Rightarrow> memory" where
  "raw_writeb v a m = m(a := v)"

fun blit :: "u64 \<Rightarrow> u8 list \<Rightarrow> memory \<Rightarrow> memory" where
  "blit a [] m = m"
| "blit a (b # bs) m = blit (a + 1) bs (m(a := b))"

definition bytes_of :: "nat \<Rightarrow> 'a::len word \<Rightarrow> u8 list" where
  "bytes_of n v = map (\<lambda>i. ucast (drop_bit (8 * i) v)) [0..<n]"

fun word_of :: "u8 list \<Rightarrow> 'a::len word" where
  "word_of [] = 0"
| "word_of (b # bs) = ucast b OR push_bit 8 (word_of bs)"

definition raw_writel :: "u32 \<Rightarrow> u64 \<Rightarrow> memory \<Rightarrow> memory" where
  "raw_writel v a m = blit a (bytes_of 4 v) m"

definition raw_writeq :: "u64 \<Rightarrow> u64 \<Rightarrow> memory \<Rightarrow> memory" where
  "raw_writeq v a m = blit a (bytes_of 8 v) m"

definition IS_ALIGNED :: "u64 \<Rightarrow> u64 \<Rightarrow> bool" where
  "IS_ALIGNED x a = (x AND (a - 1) = 0)"

section \<open>The loops\<close>

text \<open>
  The bytes at \<open>from\<close> are a list whose length is \<open>count\<close>; every loop returns the destination it
  reached, the bytes that are left and the memory.
\<close>

fun copy_head :: "u64 \<Rightarrow> u8 list \<Rightarrow> memory \<Rightarrow> u64 \<times> u8 list \<times> memory" where
  "copy_head to [] m = (to, [], m)"
| "copy_head to (b # bs) m =
    (if \<not> IS_ALIGNED to 8 then copy_head (to + 1) bs (raw_writeb b to m) else (to, b # bs, m))"

function copy_words :: "u64 \<Rightarrow> u8 list \<Rightarrow> memory \<Rightarrow> u64 \<times> u8 list \<times> memory" where
  "copy_words to bs m =
    (if 8 \<le> length bs then copy_words (to + 8) (drop 8 bs) (raw_writeq (word_of (take 8 bs)) to m)
     else (to, bs, m))"
  by pat_completeness auto
termination by (relation "measure (\<lambda>(to, bs, m). length bs)") auto

fun copy_tail :: "u64 \<Rightarrow> u8 list \<Rightarrow> memory \<Rightarrow> memory" where
  "copy_tail to [] m = m"
| "copy_tail to (b # bs) m = copy_tail (to + 1) bs (raw_writeb b to m)"

definition memcpy_toio_local :: "u64 \<Rightarrow> u8 list \<Rightarrow> memory \<Rightarrow> memory" where
  "memcpy_toio_local to bs m =
     (let (to1, bs1, m1) = copy_head to bs m; (to2, bs2, m2) = copy_words to1 bs1 m1
      in copy_tail to2 bs2 m2)"

fun set_head :: "u8 \<Rightarrow> u64 \<Rightarrow> nat \<Rightarrow> memory \<Rightarrow> u64 \<times> nat \<times> memory" where
  "set_head c dst 0 m = (dst, 0, m)"
| "set_head c dst (Suc n) m =
    (if \<not> IS_ALIGNED dst 8 then set_head c (dst + 1) n (raw_writeb c dst m) else (dst, Suc n, m))"

function set_words :: "u64 \<Rightarrow> u64 \<Rightarrow> nat \<Rightarrow> memory \<Rightarrow> u64 \<times> nat \<times> memory" where
  "set_words qc dst n m =
    (if 8 \<le> n then set_words qc (dst + 8) (n - 8) (raw_writeq qc dst m) else (dst, n, m))"
  by pat_completeness auto
termination by (relation "measure (\<lambda>(qc, dst, n, m). n)") auto

fun set_tail :: "u8 \<Rightarrow> u64 \<Rightarrow> nat \<Rightarrow> memory \<Rightarrow> memory" where
  "set_tail c dst 0 m = m"
| "set_tail c dst (Suc n) m = set_tail c (dst + 1) n (raw_writeb c dst m)"

definition fill_pattern :: "u8 \<Rightarrow> u64" where
  "fill_pattern c =
     (let qc = ucast c; qc = qc OR push_bit 8 qc; qc = qc OR push_bit 16 qc in qc OR push_bit 32 qc)"

definition memset_hw_local :: "u64 \<Rightarrow> u32 \<Rightarrow> nat \<Rightarrow> memory \<Rightarrow> memory" where
  "memset_hw_local dst c n m =
     (let (d1, n1, m1) = set_head (ucast c) dst n m; (d2, n2, m2) = set_words (fill_pattern (ucast c)) d1 n1 m1
      in set_tail (ucast c) d2 n2 m2)"

text \<open>\<open>memset_hw\<close> and \<open>memcpy_tohw\<close> write \<open>sz/4\<close> words and leave a rest of up to three bytes.\<close>

fun write_words :: "u64 \<Rightarrow> u32 list \<Rightarrow> memory \<Rightarrow> memory" where
  "write_words d [] m = m"
| "write_words d (w # ws) m = write_words (d + 4) ws (raw_writel w d m)"

definition memset_hw :: "u64 \<Rightarrow> u32 \<Rightarrow> nat \<Rightarrow> memory \<Rightarrow> memory" where
  "memset_hw dst c sz m = write_words dst (replicate (sz div 4) c) m"

definition memcpy_tohw :: "u64 \<Rightarrow> u32 list \<Rightarrow> nat \<Rightarrow> memory \<Rightarrow> memory" where
  "memcpy_tohw dst src sz m = write_words dst (take (sz div 4) src) m"

section \<open>What they store\<close>

lemma blit_append: "blit a (xs @ ys) m = blit (a + of_nat (length xs)) ys (blit a xs m)"
  by (induction xs arbitrary: a m) (simp_all add: ac_simps)

lemma blit_other:
  assumes "\<forall>i < length bs. x \<noteq> a + of_nat i"
  shows "blit a bs m x = m x"
  using assms
proof (induction bs arbitrary: a m)
  case (Cons b bs)
  have "\<forall>i < length bs. x \<noteq> a + 1 + of_nat i"
    using Cons.prems by (auto simp: ac_simps dest: spec [of _ "Suc _"])
  moreover have "x \<noteq> a" using Cons.prems by force
  ultimately show ?case using Cons.IH [of "a + 1"] by simp
qed simp

lemma blit_nth:
  assumes "i < length bs" "length bs \<le> 2 ^ 64"
  shows "blit a bs m (a + of_nat i) = bs ! i"
proof -
  have s: "bs = take i bs @ bs ! i # drop (Suc i) bs" using assms(1) by (rule id_take_nth_drop)
  have "blit (a + of_nat i + 1) (drop (Suc i) bs) m' (a + of_nat i) = m' (a + of_nat i)" for m'
  proof (rule blit_other, clarify)
    fix k assume k: "k < length (drop (Suc i) bs)" and e: "a + of_nat i = a + of_nat i + 1 + of_nat k"
    have "a + of_nat i + of_nat (Suc k) = a + of_nat i + 0" using e [symmetric] by (simp add: add.assoc)
    then have "of_nat (Suc k) = (0 :: u64)" by (simp only: add_left_cancel)
    then have "2 ^ LENGTH(64) dvd Suc k" by (simp only: word_of_nat_eq_0_iff)
    then have "2 ^ LENGTH(64) \<le> Suc k" by (rule dvd_imp_le) simp
    then show False using k assms(2) by simp
  qed
  then have "blit a (take i bs @ bs ! i # drop (Suc i) bs) m (a + of_nat i) = bs ! i"
    using assms(1) by (simp add: blit_append)
  then show ?thesis using s by simp
qed

lemma bit_word_of:
  "bit (word_of bs :: 'a::len word) n = (n < LENGTH('a) \<and> n div 8 < length bs \<and> bit (bs ! (n div 8)) (n mod 8))"
proof (induction bs arbitrary: n)
  case (Cons b bs)
  have nb: "\<not> bit b k" if "8 \<le> k" for k using that bit_imp_le_length [of b k] by auto
  show ?case
  proof (cases "n < 8")
    case False
    then obtain k where k: "n = k + 8" by (metis add.commute le_Suc_ex not_less)
    have "(k + 8) div 8 = Suc (k div 8)" by simp
    then show ?thesis unfolding k by (auto simp: bit_or_iff bit_push_bit_iff bit_ucast_iff nb Cons.IH)
  qed (auto simp: bit_or_iff bit_push_bit_iff bit_ucast_iff)
qed simp

lemma bytes_of_word_of:
  assumes "length bs = n" "8 * n \<le> LENGTH('a)"
  shows "bytes_of n (word_of bs :: 'a::len word) = bs"
proof (rule nth_equalityI)
  fix i assume "i < length (bytes_of n (word_of bs :: 'a word))"
  then have i: "i < n" by (simp add: bytes_of_def)
  have "ucast (drop_bit (8 * i) (word_of bs :: 'a word)) = bs ! i"
  proof (rule bit_word_eqI)
    fix k assume "k < LENGTH(8)"
    then have "k < 8" by simp
    then have "(8 * i + k) div 8 = i" "(8 * i + k) mod 8 = k" "8 * i + k < LENGTH('a)" using i assms by auto
    then show "bit (ucast (drop_bit (8 * i) (word_of bs :: 'a word)) :: u8) k = bit (bs ! i) k"
      using i assms \<open>k < 8\<close> by (simp add: bit_simps bit_word_of ac_simps)
  qed
  then show "bytes_of n (word_of bs :: 'a word) ! i = bs ! i" using i by (simp add: bytes_of_def)
qed (simp add: bytes_of_def assms)

lemma copy_head_blit:
  "copy_head to bs m = (to1, bs1, m1) \<Longrightarrow> blit to1 bs1 m1 = blit to bs m"
  by (induction to bs m rule: copy_head.induct) (auto simp: raw_writeb_def split: if_splits)

lemma raw_writeq_blit: "length bs = 8 \<Longrightarrow> raw_writeq (word_of bs) to m = blit to bs m"
  by (simp add: raw_writeq_def bytes_of_word_of)

declare copy_words.simps [simp del] set_words.simps [simp del]

lemma copy_words_blit:
  "copy_words to bs m = (to1, bs1, m1) \<Longrightarrow> blit to1 bs1 m1 = blit to bs m"
proof (induction to bs m rule: copy_words.induct)
  case (1 to bs m)
  show ?case
  proof (cases "8 \<le> length bs")
    case True
    then have "blit to1 bs1 m1 = blit (to + 8) (drop 8 bs) (raw_writeq (word_of (take 8 bs)) to m)"
      using 1 by (simp add: copy_words.simps [of to bs])
    also have "\<dots> = blit to (take 8 bs @ drop 8 bs) m"
      using True by (simp only: blit_append) (simp add: raw_writeq_blit)
    finally show ?thesis by simp
  qed (use "1.prems" in \<open>simp add: copy_words.simps [of to bs]\<close>)
qed

lemma copy_tail_blit: "copy_tail to bs m = blit to bs m"
  by (induction bs arbitrary: to m) (simp_all add: raw_writeb_def)

lemma set_head_blit:
  "set_head c dst n m = (d1, n1, m1) \<Longrightarrow> blit d1 (replicate n1 c) m1 = blit dst (replicate n c) m"
  by (induction c dst n m rule: set_head.induct) (auto simp: raw_writeb_def split: if_splits)

lemma set_words_blit:
  "bytes_of 8 qc = replicate 8 c \<Longrightarrow> set_words qc dst n m = (d1, n1, m1) \<Longrightarrow> blit d1 (replicate n1 c) m1 = blit dst (replicate n c) m"
proof (induction qc dst n m rule: set_words.induct)
  case (1 qc dst n m)
  show ?case
  proof (cases "8 \<le> n")
    case True
    then have "replicate n c = replicate 8 c @ replicate (n - 8) c" by (simp add: replicate_add [symmetric])
    moreover have "blit d1 (replicate n1 c) m1 = blit (dst + 8) (replicate (n - 8) c) (raw_writeq qc dst m)"
      using 1 True by (simp add: set_words.simps [of qc dst n])
    ultimately show ?thesis by (simp only: blit_append raw_writeq_def length_replicate "1.prems"(1)) simp
  qed (use "1.prems"(2) in \<open>simp add: set_words.simps [of qc dst n]\<close>)
qed

lemma set_tail_blit: "set_tail c dst n m = blit dst (replicate n c) m"
  by (induction n arbitrary: dst m) (simp_all add: raw_writeb_def)

lemma fill_pattern_bytes: "bytes_of 8 (fill_pattern c) = replicate 8 c"
proof -
  define q0 where "q0 = (ucast c :: u64)"
  define q1 where "q1 = q0 OR push_bit 8 q0"
  define q2 where "q2 = q1 OR push_bit 16 q1"
  have q0: "bit q0 j = (j < 8 \<and> bit c j)" for j
    using bit_imp_le_length [of c j] by (auto simp: q0_def bit_simps)
  have split: "j < k \<or> (\<exists>i. j = i + k)" for j k :: nat by (metis add.commute le_Suc_ex not_less)
  have q1: "bit q1 j = (j < 16 \<and> bit c (j mod 8))" for j
    using split [of j 8] by (auto simp: q1_def bit_or_iff bit_push_bit_iff q0)
  have m16: "(i + 16) mod 8 = i mod 8" and m32: "(i + 32) mod 8 = i mod 8" for i :: nat by presburger+
  have q2: "bit q2 j = (j < 32 \<and> bit c (j mod 8))" for j
    using split [of j 16] by (auto simp: q2_def bit_or_iff bit_push_bit_iff q1 m16)
  have f: "fill_pattern c = q2 OR push_bit 32 q2" by (simp only: fill_pattern_def Let_def q2_def q1_def q0_def)
  have q3: "bit (fill_pattern c) j = (j < 64 \<and> bit c (j mod 8))" for j
    using split [of j 32] unfolding f by (auto simp: bit_or_iff bit_push_bit_iff q2 m32)
  have "ucast (drop_bit (8 * i) (fill_pattern c)) = c" if "i < 8" for i
    by (rule bit_word_eqI) (use that in \<open>auto simp: bit_ucast_iff bit_drop_bit_eq q3\<close>)
  then have "bytes_of 8 (fill_pattern c) = map (\<lambda>i. c) [0..<8]"
    unfolding bytes_of_def by (intro map_cong) auto
  then show ?thesis by (simp add: map_replicate_const)
qed

lemma memcpy_toio_local_blit: "memcpy_toio_local to bs m = blit to bs m"
proof -
  obtain to1 bs1 m1 where h: "copy_head to bs m = (to1, bs1, m1)" by (metis prod_cases3)
  obtain to2 bs2 m2 where w: "copy_words to1 bs1 m1 = (to2, bs2, m2)" by (metis prod_cases3)
  show ?thesis
    using copy_head_blit [OF h] copy_words_blit [OF w]
    by (simp add: memcpy_toio_local_def h w copy_tail_blit)
qed

lemma memset_hw_local_blit: "memset_hw_local dst c n m = blit dst (replicate n (ucast c)) m"
proof -
  obtain d1 n1 m1 where h: "set_head (ucast c) dst n m = (d1, n1, m1)" by (metis prod_cases3)
  obtain d2 n2 m2 where w: "set_words (fill_pattern (ucast c)) d1 n1 m1 = (d2, n2, m2)" by (metis prod_cases3)
  show ?thesis
    using set_head_blit [OF h] set_words_blit [OF fill_pattern_bytes w]
    by (simp add: memset_hw_local_def h w set_tail_blit)
qed

text \<open>What a store of bytes changes, in terms of offsets from its start.\<close>

lemma blit_at:
  assumes "length bs \<le> 2 ^ 64"
  shows "blit a bs m x = (if unat (x - a) < length bs then bs ! unat (x - a) else m x)"
proof (cases "unat (x - a) < length bs")
  case True
  then show ?thesis using blit_nth [of "unat (x - a)" bs a m] assms by simp
next
  case False
  have "x \<noteq> a + of_nat i" if "i < length bs" for i
  proof
    assume "x = a + of_nat i"
    then have "unat (x - a) = i mod 2 ^ 64" by (simp add: unat_of_nat take_bit_eq_mod)
    then show False using False that by (metis le_less_trans mod_less_eq_dividend)
  qed
  then show ?thesis using False blit_other [of bs x a m] by simp
qed

text \<open>
  C14: The optimised loops do what a byte loop does, for every alignment of the destination and
  every length: after \<open>memcpy_toio_local\<close> each byte of the destination is the byte of the
  source with the same offset, after \<open>memset_hw_local\<close> it is the low byte of the argument, and
  no other byte has changed.
\<close>

theorem io_copy_bytes:
  assumes "length bs \<le> 2 ^ 64" "n \<le> 2 ^ 64"
  shows "memcpy_toio_local to bs m x = (if unat (x - to) < length bs then bs ! unat (x - to) else m x) \<and>
    memset_hw_local to c n m x = (if unat (x - to) < n then ucast c else m x)"
  using assms by (simp add: memcpy_toio_local_blit memset_hw_local_blit blit_at)

theorem io_copy_bytes_witness:
  "memcpy_toio_local 6 [1, 2, 3, 4, 5, 6, 7, 8, 9, 10, 11, 12] (\<lambda>_. 0) 9 = 4 \<and>
   memset_hw_local 6 0x1ff 12 (\<lambda>_. 0) 17 = 255 \<and> memset_hw_local 6 0x1ff 12 (\<lambda>_. 0) 18 = 0"
proof -
  have "unat (3 :: u64) = 3" "unat (11 :: u64) = 11" "unat (12 :: u64) = 12" by simp_all
  then show ?thesis
    using io_copy_bytes [of "[1, 2, 3, 4, 5, 6, 7, 8, 9, 10, 11, 12]" 12 6 "\<lambda>_. 0" 9 0]
      io_copy_bytes [of "[]" 12 0 "\<lambda>_. 0" 0 0] io_copy_bytes [of "[]" 12 6 "\<lambda>_. 0" 17 "0x1ff"]
      io_copy_bytes [of "[]" 12 6 "\<lambda>_. 0" 18 "0x1ff"]
    by simp
qed

end
