(* ===== verification/Hw_Simple.thy ===== *)
theory Hw_Simple
  imports Hw_Request
begin

unbundle bit_operations_syntax

text \<open>
  The hardware layer \<open>xrp_hw_simple.c\<close>: the interrupt and control registers of one DSP core, its
  clocks, the data the DSP gets about them, and their initialisation from the device tree.
  Accesses to registers are recorded in \<open>hw_log\<close>; what a register answers, and what the
  kernel's device services answer, are arguments.
\<close>

section \<open>State\<close>

datatype irq_mode = XRP_IRQ_NONE | XRP_IRQ_LEVEL | XRP_IRQ_EDGE | XRP_IRQ_EDGE_SW

definition irq_mode_of :: "u32 \<Rightarrow> irq_mode option" where
  "irq_mode_of v = (if v = 0 then Some XRP_IRQ_NONE else if v = 1 then Some XRP_IRQ_LEVEL
     else if v = 2 then Some XRP_IRQ_EDGE else if v = 3 then Some XRP_IRQ_EDGE_SW else None)"

text \<open>A pointer to registers: null, mapped, or an error pointer, of which \<open>-EBUSY\<close> is special.\<close>

datatype iomem = Io_Null | Io_Busy | Io_Err | Io_Map

datatype io_block = Dev_Regs | Host_Irq_Regs | Device_Irq_Regs | Vi_Sys

datatype io_event = Io_Write io_block u32 u32

record hw_simple =
  hw_dev_regs_phys :: phys_addr
  hw_dev_regs :: iomem
  hw_irq_regs_dev_phys :: phys_addr
  hw_device_irq_regs_phys :: phys_addr
  hw_device_irq_regs :: iomem
  hw_host_irq_regs_phys :: phys_addr
  hw_host_irq_regs :: iomem
  hw_device_irq_mode :: irq_mode
  hw_device_irq :: "u32 list"
  hw_device_irq_host_offset :: u32
  hw_host_irq_mode :: irq_mode
  hw_host_irq :: "u32 list"
  hw_host_irq_offset :: u32
  hw_device_id :: u32
  hw_cclk :: int
  hw_pclk :: int
  hw_log :: "io_event list"

section \<open>Registers\<close>

definition BIT :: "u32 \<Rightarrow> u64" where
  "BIT n = push_bit (unat n) 1"

definition VI_SYS_OFFSET_MASK :: u64 where
  "VI_SYS_OFFSET_MASK = 0xFFF"

definition vi_sys_offset :: "phys_addr \<Rightarrow> u32 \<Rightarrow> u32" where
  "vi_sys_offset phys addr = ucast (phys AND VI_SYS_OFFSET_MASK) + addr"

definition log_write :: "io_block \<Rightarrow> u32 \<Rightarrow> u32 \<Rightarrow> hw_simple \<Rightarrow> hw_simple" where
  "log_write b a v hw = hw\<lparr>hw_log := hw_log hw @ [Io_Write b a v]\<rparr>"

text \<open>
  Registers another driver owns (\<open>-EBUSY\<close>) are written through that driver when it is built in
  (\<open>visys\<close>). The guard of the plain write covers only the message before it: a null or an
  error pointer is used. Reads test for null.
\<close>

definition irq_reg_write32 ::
  "bool \<Rightarrow> iomem \<Rightarrow> phys_addr \<Rightarrow> io_block \<Rightarrow> u32 \<Rightarrow> u32 \<Rightarrow> hw_simple \<Rightarrow> hw_simple \<times> unit res" where
  "irq_reg_write32 visys regs phys b addr v hw =
     (case regs of
        Io_Busy \<Rightarrow> (if visys then log_write Vi_Sys (vi_sys_offset phys addr) v hw else hw, Ok ())
      | Io_Map \<Rightarrow> (log_write b addr v hw, Ok ())
      | _ \<Rightarrow> (hw, Oops))"

definition host_irq_reg_write32 :: "bool \<Rightarrow> u32 \<Rightarrow> u32 \<Rightarrow> hw_simple \<Rightarrow> hw_simple \<times> unit res" where
  "host_irq_reg_write32 visys addr v hw =
     irq_reg_write32 visys (hw_host_irq_regs hw) (hw_host_irq_regs_phys hw) Host_Irq_Regs addr v hw"

definition device_irq_reg_write32 :: "bool \<Rightarrow> u32 \<Rightarrow> u32 \<Rightarrow> hw_simple \<Rightarrow> hw_simple \<times> unit res" where
  "device_irq_reg_write32 visys addr v hw =
     irq_reg_write32 visys (hw_device_irq_regs hw) (hw_device_irq_regs_phys hw) Device_Irq_Regs addr v hw"

text \<open>\<open>rd b a\<close> is what register \<open>a\<close> of a block answers to this read.\<close>

definition irq_reg_read32 :: "bool \<Rightarrow> (io_block \<Rightarrow> u32 \<Rightarrow> u32) \<Rightarrow> iomem \<Rightarrow> phys_addr \<Rightarrow> io_block \<Rightarrow> u32 \<Rightarrow> u32 res" where
  "irq_reg_read32 visys rd regs phys b addr =
     (case regs of
        Io_Busy \<Rightarrow> Ok (if visys then rd Vi_Sys (vi_sys_offset phys addr) else 0)
      | Io_Map \<Rightarrow> Ok (rd b addr)
      | Io_Null \<Rightarrow> Ok 0
      | Io_Err \<Rightarrow> Oops)"

definition host_irq_reg_read32 :: "bool \<Rightarrow> (io_block \<Rightarrow> u32 \<Rightarrow> u32) \<Rightarrow> u32 \<Rightarrow> hw_simple \<Rightarrow> u32 res" where
  "host_irq_reg_read32 visys rd addr hw =
     irq_reg_read32 visys rd (hw_host_irq_regs hw) (hw_host_irq_regs_phys hw) Host_Irq_Regs addr"

definition device_irq_reg_read32 :: "bool \<Rightarrow> (io_block \<Rightarrow> u32 \<Rightarrow> u32) \<Rightarrow> u32 \<Rightarrow> hw_simple \<Rightarrow> u32 res" where
  "device_irq_reg_read32 visys rd addr hw =
     irq_reg_read32 visys rd (hw_device_irq_regs hw) (hw_device_irq_regs_phys hw) Device_Irq_Regs addr"

definition dev_reg_write32 :: "u32 \<Rightarrow> u32 \<Rightarrow> hw_simple \<Rightarrow> hw_simple \<times> unit res" where
  "dev_reg_write32 addr v hw =
     (case hw_dev_regs hw of
        Io_Null \<Rightarrow> (hw, Ok ())
      | Io_Map \<Rightarrow> (log_write Dev_Regs addr v hw, Ok ())
      | _ \<Rightarrow> (hw, Oops))"

definition dev_reg_read32 :: "(io_block \<Rightarrow> u32 \<Rightarrow> u32) \<Rightarrow> u32 \<Rightarrow> hw_simple \<Rightarrow> u32 res" where
  "dev_reg_read32 rd addr hw =
     (case hw_dev_regs hw of Io_Null \<Rightarrow> Ok 0 | Io_Map \<Rightarrow> Ok (rd Dev_Regs addr) | _ \<Rightarrow> Oops)"

section \<open>Control of the core\<close>

definition XRP_REG_RUNSTALL :: u32 where
  "XRP_REG_RUNSTALL = 0x4020"

definition ALT_RESET_VEC :: u32 where
  "ALT_RESET_VEC = 0x4018"

definition halt :: "hw_simple \<Rightarrow> hw_simple \<times> unit res" where
  "halt hw = dev_reg_write32 XRP_REG_RUNSTALL 1 hw"

definition release :: "hw_simple \<Rightarrow> hw_simple \<times> unit res" where
  "release hw = dev_reg_write32 XRP_REG_RUNSTALL 0 hw"

definition set_reset_vector :: "u32 \<Rightarrow> hw_simple \<Rightarrow> hw_simple \<times> unit res" where
  "set_reset_vector addr hw = dev_reg_write32 ALT_RESET_VEC (addr AND 0xffffff00) hw"

text \<open>
  \<open>xrp_set_reset_reg\<close> of \<open>xrp_hw_comm.c\<close>: the reset bit of one core in the system register is
  flipped and set back. \<open>None\<close> is the driver data that does not exist; the result is the
  register after each write.
\<close>

definition reset_bit_mask :: "u32 \<Rightarrow> u32" where
  "reset_bit_mask dsp_id = (if dsp_id = 0 then 0x100 else 0x1000)"

definition xrp_set_reset_reg :: "u32 \<Rightarrow> u32 option \<Rightarrow> u32 list \<times> bool" where
  "xrp_set_reset_reg dsp_id reg =
     (case reg of None \<Rightarrow> ([], False) | Some old \<Rightarrow> ([old XOR reset_bit_mask dsp_id, old], True))"

text \<open>
  The clocks are counted by the kernel; \<open>clk_prepare_enable\<close> can fail and then changes nothing.
\<close>

definition clk_prepare_enable :: "errno option \<Rightarrow> int \<Rightarrow> int \<times> unit res" where
  "clk_prepare_enable e c = (case e of None \<Rightarrow> (c + 1, Ok ()) | Some e \<Rightarrow> (c, Error e))"

definition enable :: "errno option \<Rightarrow> errno option \<Rightarrow> hw_simple \<Rightarrow> hw_simple \<times> unit res" where
  "enable c_err p_err hw =
     (let (c, r) = clk_prepare_enable c_err (hw_cclk hw); hw1 = hw\<lparr>hw_cclk := c\<rparr> in
      if r \<noteq> Ok () then (hw1, r)
      else let (p, r) = clk_prepare_enable p_err (hw_pclk hw1); hw2 = hw1\<lparr>hw_pclk := p\<rparr> in
        if r \<noteq> Ok () then (hw2\<lparr>hw_cclk := hw_cclk hw2 - 1\<rparr>, r) else (hw2, r))"

definition disable :: "hw_simple \<Rightarrow> hw_simple" where
  "disable hw = (let hw1 = hw\<lparr>hw_pclk := hw_pclk hw - 1\<rparr> in hw1\<lparr>hw_cclk := hw_cclk hw1 - 1\<rparr>)"

section \<open>Interrupts\<close>

text \<open>
  \<open>send_irq\<close>. With \<open>XRP_IRQ_EDGE_SW\<close> the driver waits until the device has cleared the bit; the
  reads are answered by \<open>rds\<close>, one after the other, and waiting for ever is \<open>None\<close>.
\<close>

partial_function (option) wait_cleared :: "bool \<Rightarrow> (nat \<Rightarrow> io_block \<Rightarrow> u32 \<Rightarrow> u32) \<Rightarrow> nat \<Rightarrow> u32 \<Rightarrow> u64 \<Rightarrow> hw_simple \<Rightarrow> unit res option" where
  "wait_cleared visys rds k off b hw =
     (case device_irq_reg_read32 visys (rds k) off hw of
        Inl e \<Rightarrow> Some (Inl e)
      | Inr v \<Rightarrow> if ucast v AND b \<noteq> 0 then wait_cleared visys rds (Suc k) off b hw else Some (Ok ()))"

definition send_irq :: "bool \<Rightarrow> (nat \<Rightarrow> io_block \<Rightarrow> u32 \<Rightarrow> u32) \<Rightarrow> hw_simple \<Rightarrow> (hw_simple \<times> unit res) option" where
  "send_irq visys rds hw =
     (let off = hw_device_irq_host_offset hw; b = BIT (hw_device_irq hw ! 1) in
      case hw_device_irq_mode hw of
        XRP_IRQ_EDGE_SW \<Rightarrow>
          (case device_irq_reg_write32 visys off (ucast b) hw of
             (hw1, Inl e) \<Rightarrow> Some (hw1, Inl e)
           | (hw1, Inr _) \<Rightarrow> map_option (\<lambda>r. (hw1, r)) (wait_cleared visys rds 0 off b hw1))
      | XRP_IRQ_EDGE \<Rightarrow>
          (case device_irq_reg_write32 visys off 0 hw of
             (hw1, Inl e) \<Rightarrow> Some (hw1, Inl e)
           | (hw1, Inr _) \<Rightarrow> Some (device_irq_reg_write32 visys off (ucast b) hw1))
      | XRP_IRQ_LEVEL \<Rightarrow> Some (device_irq_reg_write32 visys off (ucast b) hw)
      | XRP_IRQ_NONE \<Rightarrow> Some (hw, Ok ()))"

definition ack_irq :: "bool \<Rightarrow> hw_simple \<Rightarrow> hw_simple \<times> unit res" where
  "ack_irq visys hw =
     (if hw_host_irq_mode hw = XRP_IRQ_LEVEL
      then host_irq_reg_write32 visys (hw_host_irq hw ! 0) (ucast (BIT (hw_host_irq hw ! 1))) hw
      else (hw, Ok ()))"

definition is_expect_irq :: "bool \<Rightarrow> (io_block \<Rightarrow> u32 \<Rightarrow> u32) \<Rightarrow> hw_simple \<Rightarrow> bool res" where
  "is_expect_irq visys rd hw =
     (case host_irq_reg_read32 visys rd (hw_host_irq_offset hw) hw of
        Inl e \<Rightarrow> Inl e | Inr v \<Rightarrow> Ok (ucast v AND BIT (hw_host_irq hw ! 1) \<noteq> 0))"

text \<open>
  \<open>irq_handler\<close>; \<open>s\<close> is the part of the device that \<open>xrp_irq_handler\<close> works on, \<open>None\<close> before the
  probe function has stored the device in \<open>hw->xrp\<close>.
\<close>

definition irq_handler :: "bool \<Rightarrow> (io_block \<Rightarrow> u32 \<Rightarrow> u32) \<Rightarrow> hw_simple \<Rightarrow> irq_state option \<Rightarrow>
    hw_simple \<times> irq_state option \<times> irqreturn res" where
  "irq_handler visys rd hw xrp =
     (case is_expect_irq visys rd hw of
        Inl e \<Rightarrow> (hw, xrp, Inl e)
      | Inr False \<Rightarrow> (hw, xrp, Ok IRQ_NONE)
      | Inr True \<Rightarrow>
          (case xrp of
             None \<Rightarrow> (hw, xrp, Oops)
           | Some s \<Rightarrow>
               let (s1, ret) = xrp_irq_handler s in
               if ret = IRQ_HANDLED then
                 (case ack_irq visys hw of
                    (hw1, Inl e) \<Rightarrow> (hw1, Some s1, Inl e)
                  | (hw1, Inr _) \<Rightarrow> (hw1, Some s1, Ok ret))
               else (hw, Some s1, Ok ret)))"

section \<open>What the DSP is told\<close>

record sync_data =
  sd_device_mmio_base :: u32
  sd_host_irq_mode :: u32
  sd_host_irq_offset :: u32
  sd_host_irq_bit :: u32
  sd_device_irq_mode :: u32
  sd_device_irq_offset :: u32
  sd_device_irq_bit :: u32
  sd_device_irq :: u32

fun sync_irq_mode :: "irq_mode \<Rightarrow> u32" where
  "sync_irq_mode XRP_IRQ_NONE = 0"
| "sync_irq_mode XRP_IRQ_LEVEL = 1"
| "sync_irq_mode XRP_IRQ_EDGE = 2"
| "sync_irq_mode XRP_IRQ_EDGE_SW = 2"

fun enum_irq_mode :: "irq_mode \<Rightarrow> u32" where
  "enum_irq_mode XRP_IRQ_NONE = 0"
| "enum_irq_mode XRP_IRQ_LEVEL = 1"
| "enum_irq_mode XRP_IRQ_EDGE = 2"
| "enum_irq_mode XRP_IRQ_EDGE_SW = 3"

definition get_hw_sync_data :: "bool \<Rightarrow> hw_simple \<Rightarrow> sync_data option" where
  "get_hw_sync_data kmalloc_ok hw =
     (if \<not> kmalloc_ok then None
      else
        let d = hw_device_irq_regs_phys hw; h = hw_host_irq_regs_phys hw;
            device_host_offset = (if h < d then ucast (d - h) else 0);
            host_device_offset = (if h < d then 0 else ucast (h - d))
        in Some \<lparr>sd_device_mmio_base = ucast (hw_irq_regs_dev_phys hw),
             sd_host_irq_mode = enum_irq_mode (hw_host_irq_mode hw),
             sd_host_irq_offset = hw_host_irq_offset hw + host_device_offset,
             sd_host_irq_bit = hw_host_irq hw ! 1,
             sd_device_irq_mode = sync_irq_mode (hw_device_irq_mode hw),
             sd_device_irq_offset = hw_device_irq hw ! 0 + device_host_offset,
             sd_device_irq_bit = hw_device_irq hw ! 1,
             sd_device_irq = hw_device_irq hw ! 2\<rparr>)"

definition get_irq_base_mimo :: "hw_simple \<Rightarrow> phys_addr" where
  "get_irq_base_mimo hw =
     (if hw_device_irq_regs_phys hw < hw_host_irq_regs_phys hw then hw_device_irq_regs_phys hw
      else hw_host_irq_regs_phys hw)"

definition update_device_base :: "phys_addr \<Rightarrow> hw_simple \<Rightarrow> hw_simple" where
  "update_device_base addr hw = hw\<lparr>hw_irq_regs_dev_phys := addr\<rparr>"

section \<open>Initialisation\<close>

text \<open>
  The device services of one probe: memory resources, \<open>devm_ioremap_resource\<close>, the properties
  of the device tree, the interrupt line and its registration. A property that is missing
  leaves the variable it was to be stored in; \<open>pe_junk\<close> is what an uninitialised one holds.
\<close>

record probe_env =
  pe_resource :: "nat \<Rightarrow> phys_addr option"
  pe_ioremap :: "nat \<Rightarrow> iomem"
  pe_u32 :: "string \<Rightarrow> u32 option"
  pe_array :: "string \<Rightarrow> nat \<Rightarrow> u32 list option"
  pe_junk :: u32
  pe_irq :: int
  pe_request_irq :: "unit res"
  pe_clk :: "string \<Rightarrow> bool"

definition init_host_irq :: "probe_env \<Rightarrow> hw_simple \<Rightarrow> hw_simple" where
  "init_host_irq en hw =
     (case pe_array en ''host-irq'' 2 of
        None \<Rightarrow> hw
      | Some irq \<Rightarrow>
          let hw1 = hw\<lparr>hw_host_irq := irq\<rparr>;
              mode = (case pe_u32 en ''host-irq-mode'' of Some v \<Rightarrow> v | None \<Rightarrow> pe_junk en);
              hw2 = (case irq_mode_of mode of Some md \<Rightarrow> hw1\<lparr>hw_host_irq_mode := md\<rparr> | None \<Rightarrow> hw1)
          in (case pe_u32 en ''host-irq-offset'' of Some off \<Rightarrow> hw2\<lparr>hw_host_irq_offset := off\<rparr> | None \<Rightarrow> hw2))"

text \<open>The second result tells whether \<open>ret\<close> is 0 behind the device's properties.\<close>

definition init_device_irq :: "probe_env \<Rightarrow> hw_simple \<Rightarrow> hw_simple \<times> bool" where
  "init_device_irq en hw =
     (case pe_array en ''device-irq'' 3 of
        None \<Rightarrow> (hw, False)
      | Some irq \<Rightarrow>
          let hw1 = hw\<lparr>hw_device_irq := irq\<rparr>;
              hw2 = hw1\<lparr>hw_device_irq_host_offset :=
                (case pe_u32 en ''device-irq-host-offset'' of Some off \<Rightarrow> off | None \<Rightarrow> irq ! 0)\<rparr>;
              mode = (case pe_u32 en ''device-irq-mode'' of Some v \<Rightarrow> v | None \<Rightarrow> pe_junk en)
          in (case irq_mode_of mode of
                Some md \<Rightarrow> (hw2\<lparr>hw_device_irq_mode := md\<rparr>, pe_u32 en ''device-irq-mode'' \<noteq> None)
              | None \<Rightarrow> (hw2, False)))"

definition init_hw_irq :: "probe_env \<Rightarrow> nat \<Rightarrow> hw_simple \<Rightarrow> bool \<Rightarrow> hw_simple \<times> bool \<times> unit res" where
  "init_hw_irq en mem_idx hw flag =
     (case pe_resource en mem_idx of
        None \<Rightarrow> (hw, flag, Error ENODEV)
      | Some start \<Rightarrow>
          let hw1 = init_host_irq en (hw\<lparr>hw_host_irq_regs_phys := start, hw_host_irq_regs := pe_ioremap en mem_idx\<rparr>) in
          (case pe_resource en (mem_idx + 1) of
             None \<Rightarrow> (hw1, flag, Error ENODEV)
           | Some start2 \<Rightarrow>
               let (hw2, ok) = init_device_irq en
                     (hw1\<lparr>hw_device_irq_regs_phys := start2, hw_device_irq_regs := pe_ioremap en (mem_idx + 1)\<rparr>);
                   irq = (if ok \<and> hw_host_irq_mode hw2 \<noteq> XRP_IRQ_NONE then pe_irq en else -1)
               in if 0 \<le> irq then
                    (case pe_request_irq en of
                       Inl e \<Rightarrow> (hw2, flag, Inl e)
                     | Inr _ \<Rightarrow> (hw2, True, Ok ()))
                  else (hw2, flag, Ok ())))"

definition init_hw_device :: "probe_env \<Rightarrow> nat \<Rightarrow> hw_simple \<Rightarrow> hw_simple \<times> unit res" where
  "init_hw_device en mem_idx hw =
     (case pe_resource en mem_idx of
        None \<Rightarrow> (hw, Error ENODEV)
      | Some start \<Rightarrow>
          let hw1 = hw\<lparr>hw_dev_regs_phys := start, hw_dev_regs := pe_ioremap en mem_idx\<rparr> in
          if \<not> pe_clk en ''cclk'' then (hw1, Error ENOENT)
          else if \<not> pe_clk en ''pclk'' then (hw1, Error ENOENT)
          else (case pe_u32 en ''dsp'' of
                  Some i \<Rightarrow> (hw1\<lparr>hw_device_id := i\<rparr>, Ok ())
                | None \<Rightarrow> (hw1, Error ENODEV)))"

text \<open>\<open>init\<close>, \<open>init_v1\<close> and \<open>init_cma\<close> differ in the resource of the control registers.\<close>

definition init_hw :: "probe_env \<Rightarrow> nat \<Rightarrow> hw_simple \<Rightarrow> hw_simple \<times> bool \<times> unit res" where
  "init_hw en dev_idx hw =
     (case init_hw_irq en 0 hw False of
        (hw1, flag, Inl e) \<Rightarrow> (hw1, flag, Inl e)
      | (hw1, flag, Inr _) \<Rightarrow>
          (case init_hw_device en dev_idx hw1 of (hw2, r) \<Rightarrow> (hw2, flag, r)))"

section \<open>Properties\<close>

text \<open>A pointer that can be used: mapped, or owned by the other driver that is built in.\<close>

definition usable :: "bool \<Rightarrow> iomem \<Rightarrow> bool" where
  "usable visys r = (r = Io_Map \<or> r = Io_Busy)"

lemma irq_reg_write32_usable:
  "usable visys regs \<Longrightarrow> \<exists>hw'. irq_reg_write32 visys regs phys b addr v hw = (hw', Ok ()) \<and>
    hw_device_irq_regs hw' = hw_device_irq_regs hw \<and> hw_device_irq_regs_phys hw' = hw_device_irq_regs_phys hw"
  by (auto simp: usable_def irq_reg_write32_def log_write_def)

lemma wait_cleared_last:
  "wait_cleared visys rds k off b hw = Some r \<Longrightarrow>
    \<exists>j\<ge>k. case device_irq_reg_read32 visys (rds j) off hw of
      Inl e \<Rightarrow> r = Inl e | Inr v \<Rightarrow> r = Ok () \<and> ucast v AND b = 0"
proof (induct rule: wait_cleared.raw_induct [rotated 1, consumes 1, case_names step])
  case (step w visys rds k off b hw r)
  show ?case
  proof (cases "device_irq_reg_read32 visys (rds k) off hw")
    case (Inr v)
    show ?thesis
    proof (cases "ucast v AND b = 0")
      case False
      then have "w visys rds (Suc k) off b hw = Some r" using step(2) Inr by simp
      then show ?thesis using step(1) Suc_leD by blast
    next
      case True
      then show ?thesis using step(2) Inr by (intro exI [where x = k]) simp
    qed
  next
    case (Inl e)
    then show ?thesis using step(2) by (intro exI [where x = k]) simp
  qed
qed

lemma wait_cleared_until:
  assumes "\<And>i. device_irq_reg_read32 visys (rds i) off hw = Ok (v i)" "ucast (v j) AND b = 0" "k \<le> j"
  shows "wait_cleared visys rds k off b hw = Some (Ok ())"
  using assms(3)
proof (induction "j - k" arbitrary: k)
  case 0
  then have "k = j" by simp
  then show ?case using assms(2) by (subst wait_cleared.simps) (simp add: assms(1))
next
  case (Suc n)
  then show ?case by (subst wait_cleared.simps) (simp add: assms(1))
qed

lemma wait_cleared_returns:
  assumes "\<And>i. device_irq_reg_read32 visys (rds i) off hw = Ok (v i)"
  shows "wait_cleared visys rds 0 off b hw =
    (if \<exists>j. ucast (v j) AND b = 0 then Some (Ok ()) else None)"
  using wait_cleared_until [OF assms, where k = 0 and b = b] wait_cleared_last [of visys rds 0 off b hw]
  by (cases "wait_cleared visys rds 0 off b hw") (auto simp: assms)

text \<open>
  Notifying the DSP returns exactly when it should. In the mode where the device has to
  clear the bit, \<open>send_irq\<close> stores the bit once and returns if and only if some later read of
  the register finds the bit cleared; in every other mode it always returns, having stored 0
  before the bit in the edge mode.
\<close>

theorem send_irq_returns:
  assumes "hw_device_irq_regs hw = Io_Map"
  shows "send_irq visys rds hw =
    (let off = hw_device_irq_host_offset hw; b = BIT (hw_device_irq hw ! 1);
         w = Io_Write Device_Irq_Regs off; done = (\<lambda>ws. Some (hw\<lparr>hw_log := hw_log hw @ ws\<rparr>, Ok ())) in
     case hw_device_irq_mode hw of
       XRP_IRQ_NONE \<Rightarrow> done []
     | XRP_IRQ_LEVEL \<Rightarrow> done [w (ucast b)]
     | XRP_IRQ_EDGE \<Rightarrow> done [w 0, w (ucast b)]
     | XRP_IRQ_EDGE_SW \<Rightarrow> if \<exists>j. ucast (rds j Device_Irq_Regs off) AND b = 0 then done [w (ucast b)] else None)"
proof -
  let ?hw = "hw\<lparr>hw_log := hw_log hw @ [Io_Write Device_Irq_Regs (hw_device_irq_host_offset hw) (ucast (BIT (hw_device_irq hw ! 1)))]\<rparr>"
  have "device_irq_reg_read32 visys (rds i) off ?hw = Ok (rds i Device_Irq_Regs off)" for i off
    using assms by (simp add: device_irq_reg_read32_def irq_reg_read32_def)
  note w = wait_cleared_returns [where hw = ?hw, OF this]
  show ?thesis
    using assms
    by (cases "hw_device_irq_mode hw")
      (simp_all add: send_irq_def Let_def device_irq_reg_write32_def irq_reg_write32_def log_write_def w del: One_nat_def)
qed

text \<open>
  The addresses the DSP is given are right: relative to the lower of the two register
  blocks, whose device address the driver announces, the offsets lead to the host's and to
  the device's interrupt register (in the 32-bit space of the DSP), and the numbers of the
  bits and of the interrupt are those of the device tree.
\<close>

theorem sync_data_addresses:
  assumes "get_hw_sync_data True hw = Some d"
  shows "ucast (get_irq_base_mimo hw) + sd_host_irq_offset d = ucast (hw_host_irq_regs_phys hw) + hw_host_irq_offset hw \<and>
    ucast (get_irq_base_mimo hw) + sd_device_irq_offset d = ucast (hw_device_irq_regs_phys hw) + hw_device_irq hw ! 0 \<and>
    sd_device_mmio_base d = ucast (hw_irq_regs_dev_phys hw) \<and>
    sd_host_irq_bit d = hw_host_irq hw ! 1 \<and> sd_device_irq_bit d = hw_device_irq hw ! 1 \<and> sd_device_irq d = hw_device_irq hw ! 2"
proof -
  have sub: "ucast (a - b) = (ucast a - ucast b :: u32)" for a b :: u64
  proof transfer
    fix a b :: int
    have "take_bit 32 (take_bit 64 a - take_bit 64 b) = take_bit 32 (take_bit 32 (take_bit 64 a) - take_bit 32 (take_bit 64 b))"
      by (simp only: take_bit_diff)
    also have "\<dots> = take_bit 32 (take_bit 32 a - take_bit 32 b)" by (simp add: take_bit_take_bit)
    also have "\<dots> = take_bit 32 (take_bit 64 (a - b))" by (simp add: take_bit_diff take_bit_take_bit)
    finally show "take_bit LENGTH(32) (take_bit LENGTH(64) (a - b)) = take_bit LENGTH(32) (take_bit LENGTH(64) a - take_bit LENGTH(64) b)"
      by simp
  qed
  show ?thesis
    using assms by (auto simp: get_hw_sync_data_def Let_def get_irq_base_mimo_def sub not_less)
qed

lemma enable_disable:
  "enable c p hw = (hw1, Ok ()) \<Longrightarrow> disable hw1 = hw"
  "enable c p hw = (hw1, Inl e) \<Longrightarrow> hw1 = hw"
  by (auto simp: enable_def disable_def clk_prepare_enable_def Let_def split: option.splits if_splits)

text \<open>
  The handler is polite on a shared line: when the bit of this core is clear it reports that
  the interrupt is not its own and touches nothing; when it is set the core's answer is that
  of \<open>xrp_irq_handler\<close>, and the interrupt is acknowledged (by one store of the bit, in the
  level mode only) exactly when that answer is that it was handled.
\<close>

theorem irq_handler_shared:
  assumes "hw_host_irq_regs hw = Io_Map"
  shows "irq_handler visys rd hw (Some s) =
    (let b = BIT (hw_host_irq hw ! 1); (s1, ret) = xrp_irq_handler s in
     if ucast (rd Host_Irq_Regs (hw_host_irq_offset hw)) AND b = 0 then (hw, Some s, Ok IRQ_NONE)
     else (if ret = IRQ_HANDLED \<and> hw_host_irq_mode hw = XRP_IRQ_LEVEL
           then log_write Host_Irq_Regs (hw_host_irq hw ! 0) (ucast b) hw else hw, Some s1, Ok ret))"
  using assms
  by (simp add: irq_handler_def is_expect_irq_def host_irq_reg_read32_def irq_reg_read32_def ack_irq_def
      host_irq_reg_write32_def irq_reg_write32_def Let_def split: prod.split)

text \<open>
  Interrupts from the DSP are used only when the line is really served: the flag for the
  generic driver is set if and only if the kernel registered the handler, which needs both
  register blocks, the properties of the device's interrupt and a mode of the host other than
  \<open>XRP_IRQ_NONE\<close>; without them the probe goes on with polling, and a refused registration is
  its error.
\<close>

theorem init_hw_irq_flag:
  assumes "pe_resource en i \<noteq> None" "pe_resource en (i + 1) \<noteq> None" "init_hw_irq en i hw False = (hw', flag, r)"
  shows "(flag \<longleftrightarrow> r = Ok () \<and> pe_request_irq en = Ok () \<and> 0 \<le> pe_irq en \<and> hw_host_irq_mode hw' \<noteq> XRP_IRQ_NONE \<and>
      pe_array en ''device-irq'' 3 \<noteq> None \<and> (\<exists>m. pe_u32 en ''device-irq-mode'' = Some m \<and> irq_mode_of m = Some (hw_device_irq_mode hw'))) \<and>
    (r \<noteq> Ok () \<longrightarrow> pe_request_irq en = r \<and> 0 \<le> pe_irq en)"
proof -
  obtain a b where ab: "pe_resource en i = Some a" "pe_resource en (i + 1) = Some b" using assms(1,2) by blast
  define h1 where "h1 = (init_host_irq en (hw\<lparr>hw_host_irq_regs_phys := a, hw_host_irq_regs := pe_ioremap en i\<rparr>))
      \<lparr>hw_device_irq_regs_phys := b, hw_device_irq_regs := pe_ioremap en (i + 1)\<rparr>"
  obtain h2 ok where h2: "init_device_irq en h1 = (h2, ok)" by fastforce
  have ok: "ok \<longleftrightarrow> pe_array en ''device-irq'' 3 \<noteq> None \<and>
      (\<exists>m. pe_u32 en ''device-irq-mode'' = Some m \<and> irq_mode_of m = Some (hw_device_irq_mode h2))"
    using h2 by (auto simp: init_device_irq_def Let_def split: option.splits)
  have "(hw', flag, r) = (if ok \<and> hw_host_irq_mode h2 \<noteq> XRP_IRQ_NONE \<and> 0 \<le> pe_irq en
      then (case pe_request_irq en of Inl e \<Rightarrow> (h2, False, Inl e) | Inr _ \<Rightarrow> (h2, True, Ok ())) else (h2, False, Ok ()))"
    using assms(3) ab h2 by (auto simp: init_hw_irq_def Let_def h1_def split: if_splits sum.splits)
  then show ?thesis
    using ok by (cases "pe_request_irq en") (auto split: if_splits)
qed

definition demo_hw :: hw_simple where
  "demo_hw = \<lparr>hw_dev_regs_phys = 0xFFE4040000, hw_dev_regs = Io_Map, hw_irq_regs_dev_phys = 0xE4040180,
     hw_device_irq_regs_phys = 0xFFE4040180, hw_device_irq_regs = Io_Map,
     hw_host_irq_regs_phys = 0xFFE4040190, hw_host_irq_regs = Io_Map,
     hw_device_irq_mode = XRP_IRQ_EDGE_SW, hw_device_irq = [0x10, 1, 5], hw_device_irq_host_offset = 4,
     hw_host_irq_mode = XRP_IRQ_LEVEL, hw_host_irq = [8, 1], hw_host_irq_offset = 0x20, hw_device_id = 0,
     hw_cclk = 0, hw_pclk = 0, hw_log = []\<rparr>"

theorem send_irq_returns_witness:
  "send_irq False (\<lambda>j b a. if j < 3 then 2 else 0) demo_hw =
     Some (demo_hw\<lparr>hw_log := [Io_Write Device_Irq_Regs 4 2]\<rparr>, Ok ()) \<and>
   send_irq False (\<lambda>j b a. 2) demo_hw = None"
proof -
  have b: "BIT 1 = 2" by (simp add: BIT_def)
  have e: "\<exists>j. ucast (if j < (3 :: nat) then 2 else 0 :: u32) AND (2 :: u64) = 0" by (intro exI [of _ 3]) simp
  show ?thesis
    using send_irq_returns [of demo_hw False "\<lambda>j b a. if j < (3 :: nat) then 2 else 0"]
      send_irq_returns [of demo_hw False "\<lambda>j b a. 2"] e
    by (simp add: demo_hw_def b Let_def)
qed

theorem sync_data_addresses_witness:
  "\<exists>d. get_hw_sync_data True demo_hw = Some d \<and> 0xE4040180 + sd_host_irq_offset d = 0xE40401B0 \<and>
     0xE4040180 + sd_device_irq_offset d = 0xE4040190"
proof -
  obtain d where d: "get_hw_sync_data True demo_hw = Some d" by (simp add: get_hw_sync_data_def Let_def)
  have "get_irq_base_mimo demo_hw = 0xFFE4040180" by (simp add: get_irq_base_mimo_def demo_hw_def)
  then show ?thesis using sync_data_addresses [OF d] d by (simp add: demo_hw_def)
qed

definition demo_irq_state :: irq_state where
  "demo_irq_state = \<lparr>is_mem = (\<lambda>_. 0), is_comm = Some 0, is_queue_comm = [], is_reporter = False,
     is_report_scheduled = 0, is_completions = []\<rparr>"

theorem irq_handler_shared_witness:
  "irq_handler False (\<lambda>b a. 0) demo_hw (Some demo_irq_state) = (demo_hw, Some demo_irq_state, Ok IRQ_NONE) \<and>
   (\<exists>s. irq_handler False (\<lambda>b a. 2) demo_hw (Some demo_irq_state) =
     (demo_hw\<lparr>hw_log := [Io_Write Host_Irq_Regs 8 2]\<rparr>, Some s, Ok IRQ_HANDLED))"
proof -
  have b: "BIT 1 = 2" by (simp add: BIT_def)
  have h: "\<exists>s. xrp_irq_handler demo_irq_state = (s, IRQ_HANDLED)"
    by (simp add: xrp_irq_handler_def demo_irq_state_def xrp_report_complete_def xrp_device_cmd_complete_def
        Let_def xrp_comm_read32_def)
  then obtain s where s: "xrp_irq_handler demo_irq_state = (s, IRQ_HANDLED)" by blast
  show ?thesis
    using irq_handler_shared [of demo_hw False "\<lambda>b a. 0" demo_irq_state]
      irq_handler_shared [of demo_hw False "\<lambda>b a. 2" demo_irq_state] s
    by (simp add: demo_hw_def b log_write_def)
qed

definition demo_probe :: probe_env where
  "demo_probe = \<lparr>pe_resource = (\<lambda>i. Some (0x1000 * of_nat i)), pe_ioremap = (\<lambda>i. Io_Map),
     pe_u32 = (\<lambda>p. if p = ''host-irq-mode'' \<or> p = ''device-irq-mode'' then Some 1 else None),
     pe_array = (\<lambda>p n. Some (replicate n 3)), pe_junk = 99, pe_irq = 40, pe_request_irq = Ok (), pe_clk = (\<lambda>c. True)\<rparr>"

theorem init_hw_irq_flag_witness:
  "\<exists>hw. init_hw_irq demo_probe 0 demo_hw False = (hw, True, Ok ()) \<and> hw_host_irq_mode hw = XRP_IRQ_LEVEL"
proof -
  have e: "\<exists>hw. init_hw_irq demo_probe 0 demo_hw False = (hw, True, Ok ()) \<and> hw_host_irq_mode hw = XRP_IRQ_LEVEL"
    by (simp add: init_hw_irq_def init_host_irq_def init_device_irq_def Let_def demo_probe_def irq_mode_of_def)
  then obtain hw where hw: "init_hw_irq demo_probe 0 demo_hw False = (hw, True, Ok ())" "hw_host_irq_mode hw = XRP_IRQ_LEVEL"
    by blast
  show ?thesis
    using init_hw_irq_flag [OF _ _ hw(1)] hw by (simp add: demo_probe_def)
qed

end
