(* ===== verification/Panic_Log.thy ===== *)
theory Panic_Log
  imports Prelude
begin

unbundle bit_operations_syntax

text \<open>
  The log of the DSP and its panic mark, \<open>xrp_debug.c\<close>: the DSP writes text into a ring buffer in
  shared memory and stores \<open>0xdeadbabe\<close> in \<open>panic\<close> when it dies; \<open>panic_check\<close> takes the new text
  out, \<open>log_proc_show\<close> prints the buffer. The DSP can store anything in the area, so the
  positions are checked before they are used.
\<close>

section \<open>State\<close>

text \<open>
  \<open>pa_data\<close> are the bytes behind the header as far as they are mapped. \<open>pl_panic\<close> is \<open>None\<close> when
  the device tree has no such region.
\<close>

record panic_area =
  pa_panic :: u32
  pa_ccount :: u32
  pa_read :: u32
  pa_write :: u32
  pa_size :: u32
  pa_data :: "u8 list"

record panic_log =
  pl_panic :: "panic_area option"
  pl_last_read :: u32

abbreviation (input) PANIC_MAGIC :: u32 where "PANIC_MAGIC \<equiv> 0xdeadbabe"
abbreviation (input) SIZEOF_PANIC :: nat where "SIZEOF_PANIC \<equiv> 32"

section \<open>Operations\<close>

definition init_text :: "u8 list" where
  "init_text = [0x49, 0x6e, 0x69, 0x74, 0x69, 0x6f, 0x6e, 0x20, 0x64, 0x73, 0x70, 0x20, 0x6c, 0x6f, 0x67, 0x0a, 0]"

text \<open>
  \<open>xrp_panic_init\<close> on an area of \<open>size\<close> bytes; the text that marks the start does not fit every
  area that passes the test.
\<close>

definition xrp_panic_init :: "panic_area \<Rightarrow> u64 \<Rightarrow> panic_area \<times> bool res" where
  "xrp_panic_init a sz =
     (if unat sz < SIZEOF_PANIC then (a, Ok False)
      else if SIZEOF_PANIC + length (pa_data a) < 4 * (unat sz div 4) then (a, Oops)
      else
        let data = replicate (4 * (unat sz div 4) - SIZEOF_PANIC) 0 @ drop (4 * (unat sz div 4) - SIZEOF_PANIC) (pa_data a)
        in if length data < length init_text then (a, Oops)
           else (\<lparr>pa_panic = 0, pa_ccount = 0, pa_read = 0, pa_write = 0, pa_size = ucast sz - 32,
                  pa_data = init_text @ drop (length init_text) data\<rparr>, Ok True))"

text \<open>
  \<open>dump_log_page\<close>: the copy of \<open>rb.size\<close> bytes has to fit one page, and the buffer is freed
  through a pointer that was moved behind the header, which is not what \<open>kmalloc\<close> returned.
\<close>

definition dump_log_page :: "bool \<Rightarrow> panic_log \<Rightarrow> unit res" where
  "dump_log_page kmalloc_ok pl =
     (case pl_panic pl of
        None \<Rightarrow> Ok ()
      | Some a \<Rightarrow>
          if \<not> kmalloc_ok then Ok ()
          else if 4096 < unat (pa_size a) \<or> SIZEOF_PANIC + length (pa_data a) < unat (pa_size a) then Oops
          else let moved = SIZEOF_PANIC in if moved = 0 then Ok () else Oops)"

text \<open>
  The copy loop of \<open>panic_check\<close>: \<open>buf\<close> is what was copied so far, its length is \<open>off\<close>. A copy
  that leaves the area or the buffer is a \<open>Fault\<close>; a loop that never meets \<open>total\<close> is \<open>None\<close>.
\<close>

partial_function (option) copy_log :: "u8 list \<Rightarrow> u32 \<Rightarrow> u32 \<Rightarrow> u32 \<Rightarrow> u32 \<Rightarrow> u8 list \<Rightarrow> u8 list res option" where
  "copy_log data tot off read tail buf =
     (if off = tot then Some (Ok buf)
      else if length data < unat read + unat tail \<or> unat tot < unat off + unat tail then Some Oops
      else copy_log data tot (off + tail) 0 (tot - tail) (buf @ take (unat tail) (drop (unat read) data)))"

definition log_tail_total :: "u32 \<Rightarrow> u32 \<Rightarrow> u32 \<Rightarrow> u32 \<times> u32" where
  "log_tail_total read write sz =
     (if read < write then (write - read, write - read)
      else if read = write then (0, 0)
      else (sz - read, write + (sz - read)))"

text \<open>
  \<open>panic_check\<close> takes whether the three calls of \<open>kmalloc\<close> (dump on restart, copy, dump on
  panic) succeed and returns the state, the text it printed and whether the DSP died.
\<close>

definition take_log :: "bool \<Rightarrow> panic_area \<Rightarrow> u32 \<Rightarrow> (panic_area \<times> u32 \<times> u8 list) res option" where
  "take_log kmalloc_ok a last_read =
     (let read = pa_read a; write = pa_write a; sz = pa_size a in
      if write < sz \<and> read < sz \<and> sz < 4096 then
        let (tail, tot) = log_tail_total read write sz in
        if tot \<noteq> 0 \<and> kmalloc_ok then
          (case copy_log (pa_data a) tot 0 read tail [] of
             None \<Rightarrow> None
           | Some (Inl e) \<Rightarrow> Some (Inl e)
           | Some (Inr buf) \<Rightarrow> Some (Ok (a\<lparr>pa_read := write\<rparr>, write, buf)))
        else Some (Ok (a, read, []))
      else Some (Ok (a, if read \<noteq> last_read then read else last_read, [])))"

definition panic_check :: "bool \<Rightarrow> bool \<Rightarrow> bool \<Rightarrow> panic_log \<Rightarrow> (panic_log \<times> u8 list \<times> bool) res option" where
  "panic_check k1 k2 k3 pl =
     (case pl_panic pl of
        None \<Rightarrow> Some (Ok (pl, [], True))
      | Some a \<Rightarrow>
          (case if pa_read a = 0 \<and> pa_read a \<noteq> pl_last_read pl then dump_log_page k1 pl else Ok () of
             Inl e \<Rightarrow> Some (Inl e)
           | Inr _ \<Rightarrow>
               (case take_log k2 a (pl_last_read pl) of
                  None \<Rightarrow> None
                | Some (Inl e) \<Rightarrow> Some (Inl e)
                | Some (Inr (a1, last_read, buf)) \<Rightarrow>
                    let pl1 = \<lparr>pl_panic = Some a1, pl_last_read = last_read\<rparr> in
                    (case if pa_panic a = PANIC_MAGIC then dump_log_page k3 pl1 else Ok () of
                       Inl e \<Rightarrow> Some (Inl e)
                     | Inr _ \<Rightarrow> Some (Ok (pl1, buf, pa_panic a = PANIC_MAGIC))))))"

text \<open>
  \<open>log_proc_show\<close> prints the buffer in pieces of 64 bytes from a copy that is a whole number of
  pages; \<open>None\<close> is the failed \<open>kmalloc\<close> (the function returns -1), the pieces may reach behind
  the data but not behind the copy.
\<close>

definition get_page_num :: "u32 \<Rightarrow> nat" where
  "get_page_num sz = (unat sz + 4096 - 1) div 4096"

fun show_pieces :: "nat \<Rightarrow> nat \<Rightarrow> nat \<Rightarrow> nat \<Rightarrow> (nat \<times> nat) list res" where
  "show_pieces 0 sz len i = Ok []"
| "show_pieces (Suc n) sz len i =
    (if sz \<le> i then Ok []
     else if len < i + 64 then Oops
     else (case show_pieces n sz len (i + 64) of Inl e \<Rightarrow> Inl e | Inr ps \<Rightarrow> Ok ((i, 64) # ps)))"

definition log_proc_show :: "bool \<Rightarrow> panic_log \<Rightarrow> panic_log \<times> (nat \<times> nat) list option res" where
  "log_proc_show kmalloc_ok pl =
     (case pl_panic pl of
        None \<Rightarrow> (pl, Oops)
      | Some a \<Rightarrow>
          if \<not> kmalloc_ok then (pl, Ok None)
          else if length (pa_data a) < unat (pa_size a) then (pl, Oops)
          else (case show_pieces (unat (pa_size a)) (unat (pa_size a)) (4096 * get_page_num (pa_size a)) 0 of
                  Inl e \<Rightarrow> (pl, Inl e)
                | Inr ps \<Rightarrow> (pl\<lparr>pl_panic := Some (a\<lparr>pa_read := pa_write a\<rparr>)\<rparr>, Ok (Some ps))))"

text \<open>\<open>xrp_create_panic_log_proc\<close>: the two results are the log object and the area.\<close>

definition xrp_create_panic_log_proc :: "bool \<Rightarrow> bool \<Rightarrow> panic_area option \<Rightarrow> u64 \<Rightarrow> panic_log option res" where
  "xrp_create_panic_log_proc kmalloc_ok proc_ok area sz =
     (if \<not> kmalloc_ok then Ok None
      else
        (case area of
           None \<Rightarrow> if unat sz < SIZEOF_PANIC then Ok (if proc_ok then Some \<lparr>pl_panic = None, pl_last_read = 0\<rparr> else None) else Oops
         | Some a \<Rightarrow>
             (case xrp_panic_init a sz of
                (a1, Inl e) \<Rightarrow> Inl e
              | (a1, Inr _) \<Rightarrow> Ok (if proc_ok then Some \<lparr>pl_panic = Some a1, pl_last_read = 0\<rparr> else None))))"

section \<open>Properties\<close>

text \<open>What is in the ring: from the read position to the write position, around the end.\<close>

definition ring_content :: "panic_area \<Rightarrow> u8 list" where
  "ring_content a =
     (let r = unat (pa_read a); w = unat (pa_write a); d = take (unat (pa_size a)) (pa_data a) in
      if r \<le> w then take (w - r) (drop r d) else drop r d @ take w d)"

definition ring_ok :: "panic_area \<Rightarrow> bool" where
  "ring_ok a = (pa_write a < pa_size a \<and> pa_read a < pa_size a \<and> pa_size a < 4096 \<and> unat (pa_size a) \<le> length (pa_data a))"

lemma take_log_ring:
  assumes "ring_ok a"
  shows "take_log True a last_read = Some (Ok (a\<lparr>pa_read := pa_write a\<rparr>, pa_write a, ring_content a))"
proof -
  let ?r = "pa_read a" and ?w = "pa_write a" and ?s = "pa_size a"
  have lt: "unat ?r < unat ?s" "unat ?w < unat ?s" "unat ?s < 4096" "unat ?s \<le> length (pa_data a)"
    and cond: "?w < ?s \<and> ?r < ?s \<and> ?s < 4096"
    using assms by (auto simp: ring_ok_def word_less_nat_alt)
  consider (same) "?r = ?w" | (up) "?r < ?w" | (wrap) "?w < ?r" by force
  then show ?thesis
  proof cases
    case same
    then show ?thesis using cond by (simp add: take_log_def Let_def log_tail_total_def ring_content_def)
  next
    case up
    have d: "unat (?w - ?r) = unat ?w - unat ?r" and n0: "?w - ?r \<noteq> 0" and r: "unat ?r < unat ?w"
      using up by (auto simp: unat_sub word_less_nat_alt less_imp_le)
    have "copy_log (pa_data a) (?w - ?r) 0 ?r (?w - ?r) [] = Some (Ok (take (unat ?w - unat ?r) (drop (unat ?r) (pa_data a))))"
      using n0 d r lt by (subst copy_log.simps) (subst copy_log.simps, simp)
    moreover have "ring_content a = take (unat ?w - unat ?r) (drop (unat ?r) (pa_data a))"
      using r lt by (simp add: ring_content_def drop_take min_def Let_def)
    ultimately show ?thesis using cond up n0 by (simp add: take_log_def Let_def log_tail_total_def)
  next
    case wrap
    let ?t = "?s - ?r"
    have t: "unat ?t = unat ?s - unat ?r" using lt by (simp add: unat_sub word_le_nat_alt)
    have wr: "unat ?w < unat ?r" using wrap by (simp add: word_less_nat_alt)
    have T: "unat (?w + ?t) = unat ?w + unat ?t" by (rule unat_add_u32) (use lt t in simp)
    have n0: "?w + ?t \<noteq> 0" using T t lt by (metis add_is_0 diff_is_0_eq not_less unat_0)
    have c1: "copy_log (pa_data a) (?w + ?t) 0 ?r ?t [] =
        copy_log (pa_data a) (?w + ?t) ?t 0 ?w (drop (unat ?r) (take (unat ?s) (pa_data a)))"
    proof -
      have "\<not> length (pa_data a) < unat ?r + unat ?t" "\<not> unat (?w + ?t) < unat (0 :: u32) + unat ?t"
        "take (unat ?t) (drop (unat ?r) (pa_data a)) = drop (unat ?r) (take (unat ?s) (pa_data a))"
        using T t lt by (simp_all add: drop_take)
      then show ?thesis
        by (subst copy_log.simps) (simp only: n0 [symmetric] if_False, simp)
    qed
    have "copy_log (pa_data a) (?w + ?t) ?t 0 ?w b = Some (Ok (b @ take (unat ?w) (pa_data a)))" for b
    proof (cases "?w = 0")
      case False
      then have "?t \<noteq> ?w + ?t" by simp
      then show ?thesis
        using T t lt by (subst copy_log.simps) (subst copy_log.simps, simp add: add.commute)
    qed (subst copy_log.simps, simp)
    note c2 = this
    have "ring_content a = drop (unat ?r) (take (unat ?s) (pa_data a)) @ take (unat ?w) (pa_data a)"
      using wr lt by (simp add: ring_content_def min_def)
    moreover have "\<not> ?r < ?w" "?r \<noteq> ?w" using wrap by auto
    ultimately show ?thesis
      using cond n0 by (simp add: take_log_def Let_def log_tail_total_def c1 c2)
  qed
qed

lemma panic_check_log:
  assumes "pl_panic pl = Some a" "ring_ok a" "pa_panic a \<noteq> PANIC_MAGIC" "pa_read a \<noteq> 0 \<or> pl_last_read pl = 0"
  shows "panic_check k1 True k3 pl =
    Some (Ok (\<lparr>pl_panic = Some (a\<lparr>pa_read := pa_write a\<rparr>), pl_last_read = pa_write a\<rparr>, ring_content a, False))"
proof -
  have "\<not> (pa_read a = 0 \<and> pa_read a \<noteq> pl_last_read pl)" using assms(4) by auto
  then show ?thesis
    using assms(1,3) take_log_ring [OF assms(2)] by (auto simp: panic_check_def Let_def)
qed

text \<open>
  As long as the DSP is alive a check takes exactly the new text: for every position of
  reader and writer, also around the end of the ring, \<open>panic_check\<close> returns, without leaving
  the area or its buffer, what lies between them in the order it was written, moves the
  reader to the writer and reports no panic.
\<close>

theorem panic_check_takes_log:
  assumes "pl_panic pl = Some a" "ring_ok a" "pa_panic a \<noteq> PANIC_MAGIC" "pa_read a \<noteq> 0 \<or> pl_last_read pl = 0"
  shows "panic_check k1 True k3 pl =
    Some (Ok (\<lparr>pl_panic = Some (a\<lparr>pa_read := pa_write a\<rparr>), pl_last_read = pa_write a\<rparr>, ring_content a, False))"
  by (rule panic_check_log [OF assms])

text \<open>
  A DSP that stores nonsense cannot make the check read outside the ring: when a position
  is not inside the size, or the size is a page or more, nothing is copied and the shared
  area is left as it is.
\<close>

theorem panic_check_nonsense:
  assumes "pl_panic pl = Some a" "pa_size a \<le> pa_write a \<or> pa_size a \<le> pa_read a \<or> 4096 \<le> pa_size a"
    "pa_panic a \<noteq> PANIC_MAGIC" "pa_read a \<noteq> 0 \<or> pl_last_read pl = 0"
  shows "panic_check k1 k2 k3 pl = Some (Ok (pl\<lparr>pl_last_read := pa_read a\<rparr>, [], False))"
proof -
  have "\<not> (pa_read a = 0 \<and> pa_read a \<noteq> pl_last_read pl)" using assms(4) by auto
  moreover have "\<not> (pa_write a < pa_size a \<and> pa_read a < pa_size a \<and> pa_size a < 4096)" using assms(2) by auto
  ultimately show ?thesis
    using assms(1,3) by (auto simp: panic_check_def take_log_def Let_def)
qed

text \<open>
  Detecting a panic is what breaks the kernel: whenever the DSP died and the page for the
  dump can be allocated, \<open>panic_check\<close> ends in a \<open>Fault\<close>, because \<open>dump_log_page\<close> frees a pointer
  that was moved.
\<close>

theorem panic_dump_faults:
  assumes "pl_panic pl = Some a" "ring_ok a" "pa_panic a = PANIC_MAGIC"
  shows "panic_check k1 True True pl = Some Oops"
  using assms take_log_ring [OF assms(2)] by (simp add: panic_check_def Let_def dump_log_page_def)

lemma show_pieces_ok: "64 dvd len \<Longrightarrow> 64 dvd i \<Longrightarrow> sz \<le> len \<Longrightarrow> \<exists>ps. show_pieces n sz len i = Ok ps"
proof (induction n arbitrary: i)
  case (Suc n)
  obtain a b where ab: "len = 64 * a" "i = 64 * b" using Suc.prems(1,2) by (auto elim!: dvdE)
  have "\<not> len < i + 64" if "\<not> sz \<le> i"
  proof -
    have "b < a" using that Suc.prems(3) ab by simp
    then show ?thesis by (simp add: ab)
  qed
  moreover have "64 dvd i + 64" using Suc.prems(2) by simp
  ultimately show ?case using Suc.IH [of "i + 64"] Suc.prems by auto
qed auto

lemma page_covers: "unat sz \<le> 4096 * get_page_num sz"
proof -
  have "unat sz + 4095 < 4096 * ((unat sz + 4095) div 4096) + 4096"
    using div_mult_mod_eq [of "unat sz + 4095" 4096] mod_less_divisor [of 4096 "unat sz + 4095"] by linarith
  then show ?thesis by (simp add: get_page_num_def)
qed

text \<open>
  The proc file never reads behind its copy of the buffer, although it prints whole pieces
  of 64 bytes, and afterwards the ring counts as read.
\<close>

theorem log_proc_show_safe:
  assumes "pl_panic pl = Some a" "unat (pa_size a) \<le> length (pa_data a)"
  shows "\<exists>ps. log_proc_show True pl = (pl\<lparr>pl_panic := Some (a\<lparr>pa_read := pa_write a\<rparr>)\<rparr>, Ok (Some ps))"
proof -
  have "\<exists>ps. show_pieces (unat (pa_size a)) (unat (pa_size a)) (4096 * get_page_num (pa_size a)) 0 = Ok ps"
    by (rule show_pieces_ok) (simp_all add: page_covers dvd_mult2)
  then show ?thesis using assms by (auto simp: log_proc_show_def)
qed

text \<open>An area as \<open>xrp_panic_init\<close> leaves it is an empty ring, unless it has no room for the text.\<close>

lemma xrp_panic_init_ring:
  assumes "xrp_panic_init a sz = (a', Ok True)" "length (pa_data a) = unat sz - SIZEOF_PANIC"
    "unat sz < 4096" "SIZEOF_PANIC < unat sz"
  shows "ring_ok a' \<and> ring_content a' = [] \<and> pa_panic a' = 0"
proof -
  have u: "unat (ucast sz :: u32) = unat sz" using assms(3) by (simp add: unat_u64_u32)
  have "unat (ucast sz - 32 :: u32) = unat sz - 32"
    using assms(4) u by (subst unat_sub) (simp_all add: word_le_nat_alt)
  then have sz: "unat (ucast sz - 32 :: u32) = length (pa_data a)" using assms(2) by simp
  define m where "m = 4 * (unat sz div 4) - SIZEOF_PANIC"
  have m: "m \<le> length (pa_data a)" using assms(2) by (simp add: m_def)
  obtain d where d: "length d = length (pa_data a)" and
    a': "a' = \<lparr>pa_panic = 0, pa_ccount = 0, pa_read = 0, pa_write = 0, pa_size = ucast sz - 32, pa_data = d\<rparr>"
  proof (rule that [of "init_text @ drop (length init_text) (replicate m 0 @ drop m (pa_data a))"])
  qed (use assms(1) m in \<open>auto simp: xrp_panic_init_def m_def [symmetric] Let_def split: if_splits\<close>)
  have "0 < unat (ucast sz - 32 :: u32)" "unat (ucast sz - 32 :: u32) < 4096" using sz assms(2,3,4) by simp_all
  then show ?thesis using sz d by (simp add: a' ring_ok_def ring_content_def word_less_nat_alt)
qed

definition demo_area :: panic_area where
  "demo_area = \<lparr>pa_panic = 0, pa_ccount = 9, pa_read = 6, pa_write = 2, pa_size = 8,
     pa_data = [65, 66, 67, 68, 69, 70, 71, 72]\<rparr>"

theorem panic_check_takes_log_witness:
  "panic_check True True True \<lparr>pl_panic = Some demo_area, pl_last_read = 6\<rparr> =
    Some (Ok (\<lparr>pl_panic = Some (demo_area\<lparr>pa_read := 2\<rparr>), pl_last_read = 2\<rparr>, [71, 72, 65, 66], False))"
proof -
  have r: "ring_ok demo_area" "ring_content demo_area = [71, 72, 65, 66]"
    by (simp_all add: ring_ok_def ring_content_def demo_area_def)
  show ?thesis
    using panic_check_takes_log [of "\<lparr>pl_panic = Some demo_area, pl_last_read = 6\<rparr>" demo_area True True] r
    by (simp add: demo_area_def)
qed

theorem panic_check_nonsense_witness:
  "panic_check True True True \<lparr>pl_panic = Some (demo_area\<lparr>pa_size := 0xfffffff0\<rparr>), pl_last_read = 0\<rparr> =
    Some (Ok (\<lparr>pl_panic = Some (demo_area\<lparr>pa_size := 0xfffffff0\<rparr>), pl_last_read = 6\<rparr>, [], False))"
  using panic_check_nonsense [of "\<lparr>pl_panic = Some (demo_area\<lparr>pa_size := 0xfffffff0\<rparr>), pl_last_read = 0\<rparr>"
      "demo_area\<lparr>pa_size := 0xfffffff0\<rparr>" True True True]
  by (simp add: demo_area_def)

theorem panic_dump_faults_witness:
  "panic_check True True True \<lparr>pl_panic = Some (demo_area\<lparr>pa_panic := 0xdeadbabe\<rparr>), pl_last_read = 6\<rparr> = Some Oops"
proof -
  have "ring_ok (demo_area\<lparr>pa_panic := 0xdeadbabe\<rparr>)" by (simp add: ring_ok_def demo_area_def)
  then show ?thesis
    using panic_dump_faults [of "\<lparr>pl_panic = Some (demo_area\<lparr>pa_panic := 0xdeadbabe\<rparr>), pl_last_read = 6\<rparr>"
        "demo_area\<lparr>pa_panic := 0xdeadbabe\<rparr>" True] by simp
qed

theorem log_proc_show_safe_witness:
  "\<exists>ps. log_proc_show True \<lparr>pl_panic = Some demo_area, pl_last_read = 6\<rparr> =
    (\<lparr>pl_panic = Some (demo_area\<lparr>pa_read := 2\<rparr>), pl_last_read = 6\<rparr>, Ok (Some ps))"
  using log_proc_show_safe [of "\<lparr>pl_panic = Some demo_area, pl_last_read = 6\<rparr>" demo_area] by (simp add: demo_area_def)

end
