(* ===== verification/Firmware.thy ===== *)
theory Firmware
  imports Io_Copy Comm Address_Map
begin

unbundle bit_operations_syntax

text \<open>
  Loading the firmware of the DSP, \<open>xrp_firmware.c\<close>: the checks of the ELF header, the search of
  a symbol in the image and the store of the communication area's address there, and the
  copy of the loadable segments to the memory of the DSP. An image is the bytes the kernel
  has mapped for it (\<open>request_firmware\<close> maps whole pages) and \<open>firmware->size\<close>; reading outside
  the mapped bytes is a \<open>Fault\<close>. Offsets are integers: the C code computes some of them in
  \<open>int\<close>, so that they can be negative.
\<close>

section \<open>Reading the image\<close>

definition bind_res :: "'a res \<Rightarrow> ('a \<Rightarrow> 'b res) \<Rightarrow> 'b res" where
  "bind_res r f = (case r of Inl e \<Rightarrow> Inl e | Inr x \<Rightarrow> f x)"

definition rd :: "nat \<Rightarrow> u8 list \<Rightarrow> int \<Rightarrow> 'a::len word res" where
  "rd n d a = (if 0 \<le> a \<and> a + int n \<le> int (length d) then Ok (word_of (take n (drop (nat a) d))) else Oops)"

abbreviation rd8 :: "u8 list \<Rightarrow> int \<Rightarrow> u8 res" where "rd8 \<equiv> rd 1"
abbreviation rd16 :: "u8 list \<Rightarrow> int \<Rightarrow> u16 res" where "rd16 \<equiv> rd 2"
abbreviation rd32 :: "u8 list \<Rightarrow> int \<Rightarrow> u32 res" where "rd32 \<equiv> rd 4"

definition u :: "'a::len word \<Rightarrow> int" where
  "u x = uint x"

text \<open>
  The kernel for one call: the size of the image, the address map, where the communication
  area is, what can be mapped, and the copy routines of the hardware layer, if it has any.
\<close>

record fw_env =
  fe_size :: u64
  fe_map :: "map_entry list"
  fe_bsearch :: bsearch_fn
  fe_comm_phys :: phys_addr
  fe_ioremap :: "phys_addr \<Rightarrow> u32 \<Rightarrow> bool"
  fe_memcpy_tohw :: "(u64 \<Rightarrow> u8 list \<Rightarrow> memory \<Rightarrow> memory) option"
  fe_memset_hw :: "(u64 \<Rightarrow> u32 \<Rightarrow> nat \<Rightarrow> memory \<Rightarrow> memory) option"

section \<open>One segment\<close>

record phdr =
  ph_offset :: u32
  ph_paddr :: u32
  ph_filesz :: u32
  ph_memsz :: u32
  ph_flags :: u32

definition read_phdr :: "u8 list \<Rightarrow> int \<Rightarrow> phdr res" where
  "read_phdr d a =
     bind_res (rd32 d (a + 4)) (\<lambda>off. bind_res (rd32 d (a + 12)) (\<lambda>paddr. bind_res (rd32 d (a + 16)) (\<lambda>filesz.
     bind_res (rd32 d (a + 20)) (\<lambda>memsz. bind_res (rd32 d (a + 24)) (\<lambda>flags.
       Ok \<lparr>ph_offset = off, ph_paddr = paddr, ph_filesz = filesz, ph_memsz = memsz, ph_flags = flags\<rparr>)))))"

text \<open>
  \<open>ioremap\<close> maps whole pages, so what can be written from \<open>pa\<close> on ends with the page of the last
  byte. Addresses are physical ones: a mapping keeps the offset in the page, which is all
  that the copy routines look at.
\<close>

definition mapped_len :: "phys_addr \<Rightarrow> u32 \<Rightarrow> nat" where
  "mapped_len pa memsz =
     (let po = unat pa mod 4096 in (po + unat memsz + 4095) div 4096 * 4096 - po)"

text \<open>The copy of the bytes in the file, and the zeroes behind them.\<close>

definition copy_segment :: "fw_env \<Rightarrow> u8 list \<Rightarrow> phdr \<Rightarrow> phys_addr \<Rightarrow> memory \<Rightarrow> memory res" where
  "copy_segment en d ph pa m =
     (if ph_filesz ph = 0 then Ok m
      else let n = unat (ALIGN (ph_filesz ph) 4) in
        if length d < unat (ph_offset ph) + n \<or> mapped_len pa (ph_memsz ph) < n then Oops
        else let bs = take n (drop (unat (ph_offset ph)) d) in
          Ok (case fe_memcpy_tohw en of Some f \<Rightarrow> f pa bs m | None \<Rightarrow> blit pa bs m))"

definition clear_segment :: "fw_env \<Rightarrow> phdr \<Rightarrow> phys_addr \<Rightarrow> memory \<Rightarrow> memory res" where
  "clear_segment en ph pa m =
     (if ph_memsz ph - ph_filesz ph = 0 then Ok m
      else
        (case fe_memset_hw en of
           Some f \<Rightarrow>
             let n = unat (ph_memsz ph - ph_filesz ph) in
             if mapped_len pa (ph_memsz ph) < unat (ph_filesz ph) + n then Oops
             else Ok (f (pa + ucast (ph_filesz ph)) 0 n m)
         | None \<Rightarrow>
             let al = ALIGN (ph_filesz ph) 4; n = unat (ALIGN (ph_memsz ph - al) 4) in
             if mapped_len pa (ph_memsz ph) < unat al + n then Oops
             else Ok (blit (pa + ucast al) (replicate n 0) m)))"

definition xrp_load_segment_to_iomem :: "fw_env \<Rightarrow> u8 list \<Rightarrow> phdr \<Rightarrow> memory \<Rightarrow> memory \<times> unit res" where
  "xrp_load_segment_to_iomem en d ph m =
     (let pa = xrp_translate_dsp_to_host (fe_map en) (ph_paddr ph) in
      if pa = OF_BAD_ADDR then (m, Error EINVAL)
      else if \<not> fe_ioremap en pa (ph_memsz ph) then (m, Error EINVAL)
      else (case copy_segment en d ph pa m of
              Inl e \<Rightarrow> (m, Inl e)
            | Inr m1 \<Rightarrow>
                (case clear_segment en ph pa m1 of
                   Inl e \<Rightarrow> (m1, Inl e)
                 | Inr m2 \<Rightarrow> (m2, Ok ()))))"

section \<open>Symbols\<close>

text \<open>The section header at offset \<open>a\<close>.\<close>

abbreviation (input) SHT_SYMTAB :: u32 where "SHT_SYMTAB \<equiv> 2"
abbreviation (input) SHT_STRTAB :: u32 where "SHT_STRTAB \<equiv> 3"

definition xrp_section_bad :: "fw_env \<Rightarrow> u8 list \<Rightarrow> int \<Rightarrow> bool res" where
  "xrp_section_bad en d a =
     bind_res (rd32 d (a + 16)) (\<lambda>off.
       if fe_size en < ucast off then Ok True
       else bind_res (rd32 d (a + 20)) (\<lambda>sz. Ok (fe_size en - ucast off < ucast sz)))"

text \<open>The last symbol table and the last string table of the \<open>n\<close> sections from \<open>i\<close> on.\<close>

fun scan_sections :: "u8 list \<Rightarrow> int \<Rightarrow> u16 \<Rightarrow> nat \<Rightarrow> u32 \<Rightarrow> int option \<times> int option \<Rightarrow> (int option \<times> int option) res" where
  "scan_sections d shoff shentsize 0 i acc = Ok acc"
| "scan_sections d shoff shentsize (Suc n) i (symt, strt) =
    (let a = shoff + u (i * ucast shentsize) in
     bind_res (rd32 d (a + 4)) (\<lambda>ty.
       scan_sections d shoff shentsize n (i + 1)
         (if ty = SHT_SYMTAB then Some a else symt, if ty = SHT_STRTAB then Some a else strt)))"

text \<open>
  \<open>strncmp\<close> of the bytes at \<open>a\<close> with a name, \<open>n\<close> bytes at most; a name ends with a zero byte,
  which the list leaves out.
\<close>

fun strncmp_eq :: "nat \<Rightarrow> u8 list \<Rightarrow> int \<Rightarrow> u8 list \<Rightarrow> bool res" where
  "strncmp_eq 0 d a name = Ok True"
| "strncmp_eq (Suc n) d a name =
    bind_res (rd8 d a) (\<lambda>c.
      if c \<noteq> (case name of [] \<Rightarrow> 0 | x # xs \<Rightarrow> x) then Ok False
      else if c = 0 then Ok True
      else strncmp_eq n d (a + 1) (tl name))"

record sym_tab =
  st_symoff :: u32
  st_symsize :: u32
  st_entsize :: "u32 res"
  st_stroff :: u32
  st_strsize :: u32
  st_shoff :: int
  st_shentsize :: u16
  st_shnum :: u16

definition sym_matches :: "u8 list \<Rightarrow> sym_tab \<Rightarrow> u8 list \<Rightarrow> int \<Rightarrow> bool res" where
  "sym_matches d t name esym =
     bind_res (rd8 d (esym + 12)) (\<lambda>info.
       if info AND 0xf \<noteq> 1 then Ok False
       else bind_res (rd32 d esym) (\<lambda>nm.
         if \<not> nm < st_strsize t then Ok False
         else strncmp_eq (unat (st_strsize t - nm)) d (u (st_stroff t) + u nm) name))"

definition sym_address :: "fw_env \<Rightarrow> u8 list \<Rightarrow> sym_tab \<Rightarrow> int \<Rightarrow> (int \<times> u32) res" where
  "sym_address en d t esym =
     bind_res (rd16 d (esym + 14)) (\<lambda>shndx.
       if \<not> (0 < shndx \<and> shndx < st_shnum t) then Error EINVAL
       else
         let a = st_shoff t + sint (ucast shndx * ucast (st_shentsize t) :: u32) in
         bind_res (rd32 d (esym + 4)) (\<lambda>val. bind_res (rd32 d (a + 12)) (\<lambda>addr.
           let in_off = val - addr in
           bind_res (xrp_section_bad en d a) (\<lambda>bad.
             if bad then Error EINVAL
             else bind_res (rd32 d (a + 20)) (\<lambda>sz. bind_res (rd32 d (esym + 8)) (\<lambda>ssz.
               if val < addr \<or> sz < in_off \<or> sz - in_off < ssz then Error EINVAL
               else bind_res (rd32 d (a + 16)) (\<lambda>off. Ok (u off + u in_off, ssz))))))))"

text \<open>The loop over the symbols; \<open>None\<close> is a loop that does not end.\<close>

partial_function (option) find_sym :: "fw_env \<Rightarrow> u8 list \<Rightarrow> sym_tab \<Rightarrow> u8 list \<Rightarrow> u32 \<Rightarrow> (int \<times> u32) res option" where
  "find_sym en d t name i =
     (if \<not> i < st_symsize t then Some (Error ENOENT)
      else
        let esym = u (st_symoff t) + u i in
        case sym_matches d t name esym of
          Inl e \<Rightarrow> Some (Inl e)
        | Inr found \<Rightarrow>
            if found then Some (sym_address en d t esym)
            else (case st_entsize t of Inl e \<Rightarrow> Some (Inl e) | Inr n \<Rightarrow> find_sym en d t name (i + n)))"

definition sym_tab_of :: "fw_env \<Rightarrow> u8 list \<Rightarrow> u32 \<Rightarrow> u16 \<Rightarrow> u16 \<Rightarrow> int \<Rightarrow> int \<Rightarrow> sym_tab res" where
  "sym_tab_of en d shoff shentsize shnum a b =
     bind_res (xrp_section_bad en d a) (\<lambda>bad1. if bad1 then Error EINVAL
     else bind_res (xrp_section_bad en d b) (\<lambda>bad2. if bad2 then Error EINVAL
     else bind_res (rd32 d (a + 16)) (\<lambda>symoff. bind_res (rd32 d (a + 20)) (\<lambda>symsize.
          bind_res (rd32 d (b + 16)) (\<lambda>stroff. bind_res (rd32 d (b + 20)) (\<lambda>strsize.
            Ok \<lparr>st_symoff = symoff, st_symsize = symsize, st_entsize = rd32 d (a + 36),
                st_stroff = stroff, st_strsize = strsize,
                st_shoff = u shoff, st_shentsize = shentsize, st_shnum = shnum\<rparr>))))))"

definition read_sym_tab :: "fw_env \<Rightarrow> u8 list \<Rightarrow> sym_tab res" where
  "read_sym_tab en d =
     bind_res (rd32 d 32) (\<lambda>shoff.
       if shoff = 0 then Error ENOENT
       else bind_res (rd16 d 48) (\<lambda>shnum. bind_res (rd16 d 46) (\<lambda>shentsize.
         if fe_size en < ucast shoff \<or> fe_size en - ucast shoff < scast (ucast shnum * ucast shentsize :: u32) then Error EINVAL
         else bind_res (scan_sections d (u shoff) shentsize (unat shnum) 0 (None, None)) (\<lambda>found.
           case found of
             (Some a, Some b) \<Rightarrow> sym_tab_of en d shoff shentsize shnum a b
           | _ \<Rightarrow> Error ENOENT))))"

definition xrp_firmware_find_symbol :: "fw_env \<Rightarrow> u8 list \<Rightarrow> u8 list \<Rightarrow> (int \<times> u32) res option" where
  "xrp_firmware_find_symbol en d name =
     (case read_sym_tab en d of Inl e \<Rightarrow> Some (Inl e) | Inr t \<Rightarrow> find_sym en d t name 0)"

definition xrp_firmware_fixup_symbol :: "fw_env \<Rightarrow> u8 list \<Rightarrow> u32 \<Rightarrow> u8 list \<Rightarrow> (u8 list \<times> unit res) option" where
  "xrp_firmware_fixup_symbol en name v d =
     (if v = XRP_NO_TRANSLATION then Some (d, Error EINVAL)
      else
        (case xrp_firmware_find_symbol en d name of
           None \<Rightarrow> None
         | Some (Inl e) \<Rightarrow> Some (d, Inl e)
         | Some (Inr (addr, sz)) \<Rightarrow>
             if sz \<noteq> 4 then Some (d, Error EINVAL)
             else if addr < 0 \<or> int (length d) < addr + 4 then Some (d, Oops)
             else Some (take (nat addr) d @ bytes_of 4 v @ drop (nat addr + 4) d, Ok ())))"

section \<open>The whole image\<close>

definition elf_good :: "u8 list \<Rightarrow> bool res" where
  "elf_good d =
     bind_res (rd32 d 0) (\<lambda>mag. if mag \<noteq> 0x464c457f then Ok False
     else bind_res (rd16 d 16) (\<lambda>ty. if ty \<noteq> 2 then Ok False
     else bind_res (rd16 d 18) (\<lambda>mach. Ok (mach = 94))))"

definition segment_wanted :: "phdr \<Rightarrow> bool" where
  "segment_wanted ph = (ph_flags ph AND 7 \<noteq> 0 \<and> 0 < ph_memsz ph)"

text \<open>The loop over the program headers: \<open>n\<close> are left, \<open>i\<close> is the next.\<close>

fun load_segments :: "fw_env \<Rightarrow> u8 list \<Rightarrow> int \<Rightarrow> u16 \<Rightarrow> nat \<Rightarrow> u32 \<Rightarrow> memory \<Rightarrow> memory \<times> unit res" where
  "load_segments en d phoff phentsize 0 i m = (m, Ok ())"
| "load_segments en d phoff phentsize (Suc n) i m =
    (let a = phoff + sint (i * ucast phentsize) in
     case rd32 d a of
       Inl e \<Rightarrow> (m, Inl e)
     | Inr ty \<Rightarrow>
         if ty \<noteq> 1 then load_segments en d phoff phentsize n (i + 1) m
         else (case read_phdr d a of
             Inl e \<Rightarrow> (m, Inl e)
           | Inr ph \<Rightarrow>
               if \<not> segment_wanted ph then load_segments en d phoff phentsize n (i + 1) m
               else if fe_size en \<le> ucast (ph_offset ph) \<or> fe_size en < ucast (ph_offset ph + ph_filesz ph) then (m, Error EINVAL)
               else if (ucast (ph_paddr ph) :: phys_addr) = OF_BAD_ADDR then (m, Error EINVAL)
               else (case xrp_load_segment_to_iomem en d ph m of
                   (m1, Inl e) \<Rightarrow> (m1, Inl e)
                 | (m1, Inr _) \<Rightarrow> load_segments en d phoff phentsize n (i + 1) m1)))"

definition comm_base_name :: "u8 list" where
  "comm_base_name = [0x78, 0x72, 0x70, 0x5f, 0x64, 0x73, 0x70, 0x5f, 0x63, 0x6f, 0x6d, 0x6d, 0x5f, 0x62, 0x61, 0x73, 0x65]"

text \<open>
  The header is checked before the fixup and read again behind it, when the image may have
  changed. The result of the fixup is ignored, but not a fault or a loop that does not end.
\<close>

definition phdr_table :: "u8 list \<Rightarrow> (u32 \<times> u16 \<times> u16) res" where
  "phdr_table d =
     bind_res (rd32 d 28) (\<lambda>phoff. bind_res (rd16 d 42) (\<lambda>phentsize. bind_res (rd16 d 44) (\<lambda>phnum.
       Ok (phoff, phentsize, phnum))))"

definition check_firmware :: "fw_env \<Rightarrow> u8 list \<Rightarrow> unit res" where
  "check_firmware en d =
     bind_res (elf_good d) (\<lambda>good. if \<not> good then Error EINVAL
     else bind_res (phdr_table d) (\<lambda>(phoff, phentsize, phnum).
       if fe_size en \<le> ucast phoff \<or> fe_size en < ucast (phoff + ucast phentsize * ucast phnum) then Error EINVAL
       else Ok ()))"

definition xrp_load_firmware :: "fw_env \<Rightarrow> u8 list \<Rightarrow> memory \<Rightarrow> (u8 list \<times> memory \<times> unit res) option" where
  "xrp_load_firmware en d m =
     (case check_firmware en d of
        Inl e \<Rightarrow> Some (d, m, Inl e)
      | Inr _ \<Rightarrow>
          (case xrp_firmware_fixup_symbol en comm_base_name (xrp_translate_to_dsp (fe_bsearch en) (fe_map en) (fe_comm_phys en)) d of
             None \<Rightarrow> None
           | Some (d1, r) \<Rightarrow>
               if r = Oops then Some (d1, m, Oops)
               else
                 (case phdr_table d1 of
                    Inl e \<Rightarrow> Some (d1, m, Inl e)
                  | Inr (phoff, phentsize, phnum) \<Rightarrow>
                      (case load_segments en d1 (u phoff) phentsize (unat phnum) 0 m of
                         (m1, r1) \<Rightarrow> Some (d1, m1, r1)))))"

definition xrp_get_firmware_entry_addr :: "u8 list \<Rightarrow> u32 res" where
  "xrp_get_firmware_entry_addr d = bind_res (elf_good d) (\<lambda>good. if good then rd32 d 24 else Ok 0)"

text \<open>
  \<open>xrp_request_firmware\<close> with a place for the entry address; \<open>img\<close> is what \<open>request_firmware\<close>
  finds. The entry is read even when loading failed.
\<close>

definition xrp_request_firmware :: "fw_env \<Rightarrow> u8 list res \<Rightarrow> memory \<Rightarrow> (memory \<times> u32 \<times> unit res) option" where
  "xrp_request_firmware en img m =
     (case img of
        Inl e \<Rightarrow> Some (m, 0, Inl e)
      | Inr d \<Rightarrow>
          (case xrp_load_firmware en d m of
             None \<Rightarrow> None
           | Some (d1, m1, r) \<Rightarrow>
               if r = Oops then Some (m1, 0, Oops)
               else (case xrp_get_firmware_entry_addr d1 of
                       Inl e \<Rightarrow> Some (m1, 0, Inl e)
                     | Inr a \<Rightarrow> Some (m1, a, r))))"

section \<open>Symbols: what is found, and when the search ends\<close>

lemma bind_res_Ok: "bind_res r f = Ok y \<longleftrightarrow> (\<exists>x. r = Ok x \<and> f x = Ok y)"
  by (cases r) (simp_all add: bind_res_def)

lemma bind_res_simps [simp]: "bind_res (Inl e) f = Inl e" "bind_res (Inr x) f = f x"
  by (simp_all add: bind_res_def)

lemma section_bad_False:
  assumes "xrp_section_bad en d a = Ok False" "rd32 d (a + 16) = Ok off" "rd32 d (a + 20) = Ok sz"
  shows "unat off + unat sz \<le> unat (fe_size en)"
proof -
  have "ucast off \<le> fe_size en" "\<not> fe_size en - ucast off < ucast sz"
    using assms by (auto simp: xrp_section_bad_def not_less split: if_splits)
  then show ?thesis by (simp add: word_le_nat_alt word_less_nat_alt unat_sub)
qed

lemma sym_address_inside:
  assumes "sym_address en d t esym = Ok (addr, ssz)"
  shows "0 \<le> addr \<and> addr + u ssz \<le> int (unat (fe_size en))"
proof -
  obtain a val sa bad sz off where a: "xrp_section_bad en d a = Ok bad" "\<not> bad" "rd32 d (a + 20) = Ok sz" "rd32 d (a + 16) = Ok off"
    and c: "\<not> (val < sa \<or> sz < val - sa \<or> sz - (val - sa) < ssz)" and addr: "addr = u off + u (val - sa)"
    using assms by (auto simp: sym_address_def bind_res_Ok Let_def split: if_splits)
  have in_off: "unat (val - sa) \<le> unat sz" "unat ssz \<le> unat (sz - (val - sa))"
    using c by (simp_all add: not_less word_le_nat_alt)
  then have "unat (val - sa) + unat ssz \<le> unat sz" by (simp add: unat_sub word_le_nat_alt)
  moreover have "unat off + unat sz \<le> unat (fe_size en)" using section_bad_False [OF _ a(4,3)] a(1,2) by simp
  ultimately show ?thesis unfolding addr u_def uint_nat by linarith
qed

lemma find_sym_result:
  "find_sym en d t name i = Some r \<Longrightarrow> r = Ok x \<Longrightarrow> \<exists>j. sym_address en d t (u (st_symoff t) + u j) = Ok x \<and>
     j < st_symsize t \<and> sym_matches d t name (u (st_symoff t) + u j) = Ok True"
proof (induct rule: find_sym.raw_induct [rotated 1, consumes 1, case_names step])
  case (step f en d t name i r)
  show ?case
  proof (cases "i < st_symsize t")
    case True
    show ?thesis
    proof (cases "sym_matches d t name (u (st_symoff t) + u i)")
      case (Inr found)
      show ?thesis
      proof (cases found)
        case True
        then show ?thesis using step(2,3) Inr \<open>i < st_symsize t\<close> by (intro exI [where x = i]) (simp add: Let_def)
      next
        case False
        then obtain n where "st_entsize t = Ok n" "f en d t name (i + n) = Some r"
          using step(2,3) Inr \<open>i < st_symsize t\<close> by (auto simp: Let_def split: sum.splits)
        then show ?thesis using step(1,3) by blast
      qed
    qed (use step(2,3) True in \<open>simp add: Let_def\<close>)
  qed (use step(2,3) in simp)
qed

text \<open>
  A symbol that is found lies inside the image: whatever the section headers and the symbol
  table contain, the address \<open>xrp_firmware_find_symbol\<close> returns and the size that goes with it
  do not leave the first \<open>firmware->size\<close> bytes.
\<close>

theorem found_symbol_inside:
  assumes "xrp_firmware_find_symbol en d name = Some (Ok (addr, sz))"
  shows "0 \<le> addr \<and> addr + uint sz \<le> int (unat (fe_size en))"
proof -
  obtain t where "read_sym_tab en d = Ok t" "find_sym en d t name 0 = Some (Ok (addr, sz))"
    using assms by (auto simp: xrp_firmware_find_symbol_def split: sum.splits)
  then obtain e where "sym_address en d t e = Ok (addr, sz)" using find_sym_result by blast
  then show ?thesis using sym_address_inside by (simp add: u_def)
qed

lemma find_sym_returns:
  assumes "\<forall>n. st_entsize t = Ok n \<longrightarrow> n \<noteq> 0 \<and> (i = 0 \<or> n < st_symsize t)" "unat (st_symsize t) \<le> 2 ^ 31"
  shows "\<exists>r. find_sym en d t name i = Some r"
  using assms(1)
proof (induction "unat (st_symsize t) - unat i" arbitrary: i rule: less_induct)
  case less
  show ?case
  proof (cases "i < st_symsize t \<and> sym_matches d t name (u (st_symoff t) + u i) = Ok False \<and> (\<exists>n. st_entsize t = Ok n)")
    case True
    then obtain n where e: "st_entsize t = Ok n" by blast
    have n: "n \<noteq> 0" "i = 0 \<or> n < st_symsize t" and i: "unat i < unat (st_symsize t)"
      using less.prems e True by (auto simp: word_less_nat_alt)
    have step: "find_sym en d t name i = find_sym en d t name (i + n)"
      using True e by (subst find_sym.simps) (simp add: Let_def)
    show ?thesis
    proof (cases "i + n < st_symsize t")
      case False
      then show ?thesis unfolding step by (subst find_sym.simps) simp
    next
      case c: True
      then have ns: "n < st_symsize t" using n(2) by auto
      then have "unat (i + n) = unat i + unat n"
        using i assms(2) by (intro unat_add_u32) (simp add: word_less_nat_alt)
      moreover have "0 < unat n" using n(1) by (simp add: unat_gt_0)
      ultimately show ?thesis
        unfolding step using less.hyps [of "i + n"] less.prems e ns i by simp
    qed
  next
    case False
    then have "\<not> i < st_symsize t \<or> sym_matches d t name (u (st_symoff t) + u i) \<noteq> Ok False \<or> (\<forall>n. st_entsize t \<noteq> Ok n)" by blast
    then show ?thesis
      by (subst find_sym.simps) (auto simp: Let_def split: sum.splits)
  qed
qed

lemma read_sym_tab_size:
  assumes "read_sym_tab en d = Ok t"
  shows "unat (st_symsize t) \<le> unat (fe_size en)"
proof -
  obtain shoff es n found where f: "(case found of (Some a, Some b) \<Rightarrow> sym_tab_of en d shoff es n a b | _ \<Rightarrow> Error ENOENT) = Ok t"
    using assms by (auto simp: read_sym_tab_def bind_res_Ok split: if_split_asm simp del: split_paired_Ex)
  then obtain a b where "sym_tab_of en d shoff es n a b = Ok t"
    by (cases found; cases "fst found"; cases "snd found") simp_all
  then obtain off where "xrp_section_bad en d a = Ok False" "rd32 d (a + 16) = Ok off" "rd32 d (a + 20) = Ok (st_symsize t)"
    by (auto simp: sym_tab_of_def bind_res_Ok split: if_split_asm)
  then show ?thesis using section_bad_False [of en d a off "st_symsize t"] by simp
qed

lemma find_sym_hangs:
  "find_sym en d t name i = Some r \<Longrightarrow> st_entsize t = Ok 0 \<Longrightarrow> i < st_symsize t \<Longrightarrow>
     sym_matches d t name (u (st_symoff t) + u i) = Ok False \<Longrightarrow> False"
proof (induct rule: find_sym.raw_induct [rotated 1, consumes 1, case_names step])
  case (step f en d t name i r)
  then have "f en d t name i = Some r" by (simp add: Let_def)
  then show ?case using step by blast
qed

text \<open>
  The search of a symbol in an image of at most 2 GiB always returns, except when the symbol
  table of the image declares entries of size 0, is not empty and its first entry is not the
  symbol: then the loop never ends and the driver hangs.
\<close>

theorem symbol_search_returns:
  assumes "unat (fe_size en) \<le> 2 ^ 31"
  shows "xrp_firmware_find_symbol en d name = None \<longleftrightarrow>
    (\<exists>t. read_sym_tab en d = Ok t \<and> st_entsize t = Ok 0 \<and> 0 < st_symsize t \<and>
         sym_matches d t name (uint (st_symoff t)) = Ok False)"
proof (cases "read_sym_tab en d")
  case (Inr t)
  have sz: "unat (st_symsize t) \<le> 2 ^ 31" using read_sym_tab_size [OF Inr] assms by simp
  have u0: "u (st_symoff t) + u (0 :: u32) = uint (st_symoff t)" by (simp add: u_def)
  have "find_sym en d t name 0 = None \<longleftrightarrow>
      st_entsize t = Ok 0 \<and> 0 < st_symsize t \<and> sym_matches d t name (uint (st_symoff t)) = Ok False" (is "?L \<longleftrightarrow> ?R")
  proof
    assume ?R
    then show ?L using find_sym_hangs [of en d t name 0] u0 by (cases "find_sym en d t name 0") auto
  next
    assume l: ?L
    then have "\<exists>n. st_entsize t = Ok n \<and> n = 0"
      using find_sym_returns [of t 0 en d name] sz by auto
    then have e: "st_entsize t = Ok 0" by blast
    then show ?R
      using l by (subst (asm) find_sym.simps) (auto simp: Let_def u0 split: if_splits sum.splits)
  qed
  then show ?thesis using Inr by (simp add: xrp_firmware_find_symbol_def)
qed (simp add: xrp_firmware_find_symbol_def)

section \<open>Segments: what the memory of the DSP holds\<close>

text \<open>The offsets of a segment that are written, and the byte that ends up there.\<close>

definition seg_writes :: "phdr \<Rightarrow> nat set" where
  "seg_writes ph = {k. k < unat (ALIGN (ph_filesz ph) 4) \<or>
     unat (ph_filesz ph) \<le> k \<and> k < unat (ph_filesz ph) + unat (ph_memsz ph - ph_filesz ph)}"

definition seg_byte :: "u8 list \<Rightarrow> phdr \<Rightarrow> nat \<Rightarrow> u8" where
  "seg_byte d ph k =
     (if unat (ph_filesz ph) \<le> k \<and> k < unat (ph_filesz ph) + unat (ph_memsz ph - ph_filesz ph) then 0
      else d ! (unat (ph_offset ph) + k))"

definition seg_addr :: "fw_env \<Rightarrow> phdr \<Rightarrow> phys_addr" where
  "seg_addr en ph = xrp_translate_dsp_to_host (fe_map en) (ph_paddr ph)"

definition store_segment :: "fw_env \<Rightarrow> u8 list \<Rightarrow> phdr \<Rightarrow> memory \<Rightarrow> memory" where
  "store_segment en d ph m x =
     (let k = unat (x - seg_addr en ph) in if k \<in> seg_writes ph then seg_byte d ph k else m x)"

definition hw_simple_hooks :: "fw_env \<Rightarrow> bool" where
  "hw_simple_hooks en = (fe_memcpy_tohw en = Some memcpy_toio_local \<and> fe_memset_hw en = Some memset_hw_local)"

lemma offset_from:
  fixes x pa :: u64 and f :: u32
  assumes "n \<le> 2 ^ 32"
  shows "unat (x - (pa + ucast f)) < n \<longleftrightarrow> unat f \<le> unat (x - pa) \<and> unat (x - pa) < unat f + n"
proof -
  define y where "y = x - pa"
  have e: "x - (pa + ucast f) = y - ucast f" by (simp add: y_def)
  have "unat (y - ucast f) < n \<longleftrightarrow> unat f \<le> unat y \<and> unat y < unat f + n"
  proof (cases "unat f \<le> unat y")
    case True
    then show ?thesis by (subst unat_sub) (auto simp: word_le_nat_alt)
  next
    case False
    have f32: "unat f < 2 ^ 32" by (rule unat_lt_u32)
    have "unat (y - ucast f) = 2 ^ 64 + unat y - unat f"
      using False unat_sub_if_size [of y "ucast f :: u64"] by (simp add: word_size word_le_nat_alt)
    then show ?thesis using False f32 assms by simp
  qed
  then show ?thesis by (simp add: e y_def)
qed

lemma load_segment_ok:
  assumes "hw_simple_hooks en" "xrp_load_segment_to_iomem en d ph m = (m', Ok ())"
  shows "m' = store_segment en d ph m"
proof -
  let ?pa = "seg_addr en ph" and ?n = "unat (ALIGN (ph_filesz ph) 4)" and ?z = "unat (ph_memsz ph - ph_filesz ph)"
  obtain m1 where m1: "copy_segment en d ph ?pa m = Ok m1" and m2: "clear_segment en ph ?pa m1 = Ok m'"
    using assms(2) by (auto simp: xrp_load_segment_to_iomem_def Let_def seg_addr_def split: if_splits sum.splits)
  have n32: "?n < 2 ^ 32" "?z < 2 ^ 32" by (rule unat_lt_u32)+
  have c: "m1 x = (if unat (x - ?pa) < ?n then d ! (unat (ph_offset ph) + unat (x - ?pa)) else m x)" for x
  proof (cases "ph_filesz ph = 0")
    case True
    then have "?n = 0" by (simp add: ALIGN_def)
    then show ?thesis using m1 True by (simp add: copy_segment_def)
  next
    case False
    let ?bs = "take ?n (drop (unat (ph_offset ph)) d)"
    have len: "unat (ph_offset ph) + ?n \<le> length d" and e: "m1 = blit ?pa ?bs m"
      using m1 False assms(1)
      by (auto simp: copy_segment_def hw_simple_hooks_def memcpy_toio_local_blit Let_def split: if_splits)
    then have "length ?bs = ?n" by simp
    then show ?thesis using len n32(1) by (simp add: e blit_at)
  qed
  have "m' x = (if unat (x - (?pa + ucast (ph_filesz ph))) < ?z then 0 else m1 x)" for x
  proof (cases "ph_memsz ph - ph_filesz ph = 0")
    case True
    then show ?thesis using m2 by (simp add: clear_segment_def)
  next
    case False
    then have "m' = blit (?pa + ucast (ph_filesz ph)) (replicate ?z 0) m1"
      using m2 assms(1) by (auto simp: clear_segment_def hw_simple_hooks_def memset_hw_local_blit Let_def split: if_splits)
    then show ?thesis using n32(2) by (simp add: blit_at)
  qed
  then show ?thesis
    using n32(2) unfolding offset_from [OF less_imp_le [OF n32(2)]]
    by (auto simp: fun_eq_iff store_segment_def Let_def seg_writes_def seg_byte_def c)
qed

text \<open>The segments to load, in the order of their headers.\<close>

definition nth_segment :: "u8 list \<Rightarrow> int \<Rightarrow> u16 \<Rightarrow> nat \<Rightarrow> phdr option" where
  "nth_segment d phoff phentsize j =
     (let a = phoff + sint (of_nat j * ucast phentsize :: u32) in
      if rd32 d a = Ok 1 then
        (case read_phdr d a of Inl e \<Rightarrow> None | Inr ph \<Rightarrow> if segment_wanted ph then Some ph else None)
      else None)"

definition segments :: "u8 list \<Rightarrow> int \<Rightarrow> u16 \<Rightarrow> nat \<Rightarrow> nat \<Rightarrow> phdr list" where
  "segments d phoff phentsize i n = List.map_filter (nth_segment d phoff phentsize) [i..<i + n]"

lemma segments_Suc:
  "segments d phoff phentsize i (Suc n) =
    (case nth_segment d phoff phentsize i of None \<Rightarrow> [] | Some ph \<Rightarrow> [ph]) @ segments d phoff phentsize (Suc i) n"
proof -
  have "[i..<i + Suc n] = i # [Suc i..<Suc i + n]" by (simp add: upt_conv_Cons del: upt_Suc)
  then show ?thesis by (simp only: segments_def List.map_filter_simps) (simp split: option.split)
qed

lemma load_segments_ok:
  assumes "hw_simple_hooks en" "load_segments en d phoff phentsize n (of_nat i) m = (m', Ok ())"
  shows "m' = fold (store_segment en d) (segments d phoff phentsize i n) m"
  using assms(2)
proof (induction n arbitrary: i m)
  case 0
  then show ?case by (simp add: segments_def List.map_filter_simps)
next
  case (Suc n)
  let ?a = "phoff + sint (of_nat i * ucast phentsize :: u32)"
  have IH: "load_segments en d phoff phentsize n (of_nat i + 1) m1 = (m', Ok ()) \<Longrightarrow>
      m' = fold (store_segment en d) (segments d phoff phentsize (Suc i) n) m1" for m1
    using Suc.IH [of "Suc i" m1] by (simp add: add.commute)
  obtain ty where ty: "rd32 d ?a = Ok ty" using Suc.prems by (simp add: Let_def split: sum.splits)
  show ?case
  proof (cases "ty = 1")
    case False
    then show ?thesis using Suc.prems ty IH by (simp add: Let_def segments_Suc nth_segment_def)
  next
    case True
    then obtain ph where ph: "read_phdr d ?a = Ok ph" using Suc.prems ty by (simp add: Let_def split: sum.splits)
    show ?thesis
    proof (cases "segment_wanted ph")
      case False
      then show ?thesis using Suc.prems ty ph True IH by (simp add: Let_def segments_Suc nth_segment_def)
    next
      case w: True
      then obtain m1 where m1: "xrp_load_segment_to_iomem en d ph m = (m1, Ok ())"
        and rest: "load_segments en d phoff phentsize n (of_nat i + 1) m1 = (m', Ok ())"
        using Suc.prems ty ph True by (auto simp: Let_def split: if_splits prod.splits sum.splits)
      have "nth_segment d phoff phentsize i = Some ph" using ty True ph w by (simp add: nth_segment_def Let_def)
      then show ?thesis using IH [OF rest] load_segment_ok [OF assms(1) m1] by (simp add: segments_Suc)
    qed
  qed
qed

definition fw_segments :: "u8 list \<Rightarrow> phdr list" where
  "fw_segments d =
     (case phdr_table d of Inl e \<Rightarrow> [] | Inr (phoff, phentsize, phnum) \<Rightarrow> segments d (u phoff) phentsize 0 (unat phnum))"

lemma load_firmware_stores:
  assumes "hw_simple_hooks en" "xrp_load_firmware en d m = Some (d', m', Ok ())"
  shows "m' = fold (store_segment en d') (fw_segments d') m"
proof -
  obtain phoff es n where "phdr_table d' = Ok (phoff, es, n)" "load_segments en d' (u phoff) es (unat n) 0 m = (m', Ok ())"
    using assms(2) by (auto simp: xrp_load_firmware_def split: sum.splits option.splits if_splits prod.splits)
  then show ?thesis using load_segments_ok [OF assms(1), of d' "u phoff" es "unat n" 0] by (simp add: fw_segments_def)
qed

lemma fold_store_other:
  "\<forall>ph \<in> set phs. unat (x - seg_addr en ph) \<notin> seg_writes ph \<Longrightarrow> fold (store_segment en d) phs m x = m x"
  by (induction phs arbitrary: m) (simp_all add: store_segment_def)

text \<open>
  C13: After a successful load the memory of the DSP is what the program headers say. Every byte
  of a loadable segment that no later segment writes is the byte of the (fixed up) image when
  it lies in the part the file has, and 0 behind it; and a byte that no segment writes, not
  even in the rounding of its last word, is as it was. Where segments overlap the later one
  wins. (A size in the file within a word of 4 GiB is rounded up to 0, and nothing is copied.)
\<close>

theorem loaded_firmware:
  assumes "hw_simple_hooks en" "xrp_load_firmware en d m = Some (d', m', Ok ())"
  shows "(\<forall>pre ph post k. fw_segments d' = pre @ ph # post \<and> ph_filesz ph \<le> ph_memsz ph \<and> ph_filesz ph \<le> 0xfffffffc \<and> k < unat (ph_memsz ph) \<and>
      (\<forall>ph' \<in> set post. unat (seg_addr en ph + of_nat k - seg_addr en ph') \<notin> seg_writes ph') \<longrightarrow>
      m' (seg_addr en ph + of_nat k) = (if k < unat (ph_filesz ph) then d' ! (unat (ph_offset ph) + k) else 0)) \<and>
    (\<forall>x. (\<forall>ph \<in> set (fw_segments d'). unat (x - seg_addr en ph) \<notin> seg_writes ph) \<longrightarrow> m' x = m x)"
proof (intro conjI allI impI)
  fix pre ph post k
  assume a: "fw_segments d' = pre @ ph # post \<and> ph_filesz ph \<le> ph_memsz ph \<and> ph_filesz ph \<le> 0xfffffffc \<and> k < unat (ph_memsz ph) \<and>
      (\<forall>ph' \<in> set post. unat (seg_addr en ph + of_nat k - seg_addr en ph') \<notin> seg_writes ph')"
  have le: "unat (ph_filesz ph) \<le> unat (ph_memsz ph)" using a by (simp add: word_le_nat_alt)
  have z: "unat (ph_memsz ph - ph_filesz ph) = unat (ph_memsz ph) - unat (ph_filesz ph)" using le by (simp add: unat_sub word_le_nat_alt)
  have k: "unat (of_nat k :: u64) = k" using a unat_lt_u32 [of "ph_memsz ph"] by (intro of_nat_inverse) auto
  have al: "k < unat (ALIGN (ph_filesz ph) 4) \<or> unat (ph_filesz ph) \<le> k"
    using ALIGN_ge(1) [of 2 "ph_filesz ph"] a by (fastforce simp: word_le_nat_alt)
  have "m' (seg_addr en ph + of_nat k) = store_segment en d' ph (fold (store_segment en d') pre m) (seg_addr en ph + of_nat k)"
    using a load_firmware_stores [OF assms] by (simp add: fold_store_other)
  then show "m' (seg_addr en ph + of_nat k) = (if k < unat (ph_filesz ph) then d' ! (unat (ph_offset ph) + k) else 0)"
    using a z le al by (auto simp: store_segment_def k seg_writes_def seg_byte_def)
next
  fix x assume "\<forall>ph \<in> set (fw_segments d'). unat (x - seg_addr en ph) \<notin> seg_writes ph"
  then show "m' x = m x" using load_firmware_stores [OF assms] by (simp add: fold_store_other)
qed

text \<open>
  A file that is not an executable for this processor, or whose table of program headers is
  not inside it, is refused before anything is written: neither the image nor the memory of
  the DSP changes.
\<close>

theorem bad_firmware_refused:
  assumes "52 \<le> length d" "unat (fe_size en) \<le> length d"
    and "elf_good d = Ok False \<or> (\<exists>phoff es n. phdr_table d = Ok (phoff, es, n) \<and>
      (unat (fe_size en) \<le> unat phoff \<or> unat (fe_size en) < unat (phoff + ucast es * ucast n)))"
  shows "xrp_load_firmware en d m = Some (d, m, Error EINVAL)"
proof -
  have "elf_good d = Ok True \<or> elf_good d = Ok False" "\<exists>t. phdr_table d = Ok t"
    using assms(1) by (simp_all add: elf_good_def phdr_table_def rd_def)
  then obtain good phoff es n where r: "elf_good d = Ok good" "phdr_table d = Ok (phoff, es, n)" by (metis prod_cases3)
  have "check_firmware en d = Error EINVAL"
    using assms(3) r by (auto simp: check_firmware_def word_le_nat_alt word_less_nat_alt)
  then show ?thesis by (simp add: xrp_load_firmware_def)
qed

text \<open>
  Loading a sound segment never leaves the image or the mapping: when the part in the file
  lies in the image and does not exceed the part in memory, the kernel's mapping of the image
  reaches three bytes behind it (it is padded to a page), and the segment's address is a
  multiple of 4, the rounded copy and the clearing stay inside.
\<close>

theorem sound_segment_no_fault:
  assumes "hw_simple_hooks en" "unat (ph_offset ph) + unat (ph_filesz ph) \<le> unat (fe_size en)"
    "unat (fe_size en) + 3 \<le> length d" "ph_filesz ph \<le> ph_memsz ph" "ph_filesz ph \<le> 0xfffffffc"
    "4 dvd unat (xrp_translate_dsp_to_host (fe_map en) (ph_paddr ph))"
  shows "snd (xrp_load_segment_to_iomem en d ph m) \<noteq> Oops"
proof -
  let ?pa = "seg_addr en ph" and ?f = "unat (ph_filesz ph)" and ?n = "unat (ALIGN (ph_filesz ph) 4)" and ?M = "unat (ph_memsz ph)"
  have le: "?f \<le> ?M" using assms(4) by (simp add: word_le_nat_alt)
  have n: "?f \<le> ?n" "?n < ?f + 4" "4 dvd ?n"
    using ALIGN_ge [of 2 "ph_filesz ph"] assms(5) by (auto simp: word_le_nat_alt)
  define po where "po = unat ?pa mod 4096"
  define pages where "pages = (po + ?M + 4095) div 4096"
  have po4: "4 dvd po" using assms(6) unfolding po_def seg_addr_def [symmetric] by (simp add: dvd_mod_iff [of 4 4096])
  have "po + ?M + 4095 < 4096 * pages + 4096"
    using div_mult_mod_eq [of "po + ?M + 4095" 4096] mod_less_divisor [of 4096 "po + ?M + 4095"] unfolding pages_def by linarith
  then have pM: "po + ?M \<le> 4096 * pages" by simp
  obtain q t where qt: "po = 4 * q" "?n = 4 * t" using po4 n(3) by (auto elim!: dvdE)
  have "4 * q + 4 * t < 4 * (1024 * pages) + 4" using pM le n(2) qt by linarith
  then have "q + t \<le> 1024 * pages" by linarith
  then have pn: "po + ?n \<le> 4096 * pages" using qt by linarith
  have len: "mapped_len ?pa (ph_memsz ph) = pages * 4096 - po" by (simp add: mapped_len_def Let_def po_def pages_def)
  have c: "\<exists>m1. copy_segment en d ph ?pa m = Ok m1" for m
    using assms(2,3) n pn by (auto simp: copy_segment_def Let_def len)
  have z: "unat (ph_memsz ph - ph_filesz ph) = ?M - ?f" using le by (simp add: unat_sub word_le_nat_alt)
  have "\<exists>m2. clear_segment en ph ?pa m = Ok m2" for m
    using assms(1) pM le by (auto simp: clear_segment_def hw_simple_hooks_def Let_def len z)
  then show ?thesis
    using c by (auto simp: xrp_load_segment_to_iomem_def Let_def seg_addr_def [symmetric] split: sum.splits)
      (metis sum.distinct(1))+
qed

section \<open>An image\<close>

text \<open>
  A small executable: one segment of 6 bytes in the file and 12 in memory for address
  \<open>0x80001000\<close>, a symbol table with one entry for \<open>xrp_dsp_comm_base\<close>, which is at the third
  byte of the segment, and the names.
\<close>

definition demo_image :: "u8 \<Rightarrow> u8 list" where
  "demo_image entsize =
     [127, 69, 76, 70, 0, 0, 0, 0, 0, 0, 0, 0, 0, 0, 0, 0, 2, 0, 94, 0, 1, 0, 0, 0, 0, 16, 0, 128,
     52, 0, 0, 0, 92, 0, 0, 0, 0, 0, 0, 0, 52, 0, 32, 0, 1, 0, 40, 0, 3, 0, 0, 0, 1, 0, 0, 0, 84, 0,
     0, 0, 0, 0, 0, 0, 0, 16, 0, 128, 6, 0, 0, 0, 12, 0, 0, 0, 7, 0, 0, 0, 0, 0, 0, 0, 1, 2, 16, 32,
     48, 64, 9, 9, 0, 0, 0, 0, 2, 0, 0, 0, 0, 0, 0, 0, 0, 0, 0, 0, 212, 0, 0, 0, 16, 0, 0, 0, 0, 0,
     0, 0, 0, 0, 0, 0, 0, 0, 0, 0] @
     entsize # [0, 0, 0, 0, 0, 0, 0, 3, 0, 0, 0, 0, 0, 0, 0, 0, 0, 0, 0, 228, 0, 0, 0, 18, 0, 0, 0,
     0, 0, 0, 0, 0, 0, 0, 0, 0, 0, 0, 0, 0, 0, 0, 0, 0, 0, 0, 0, 1, 0, 0, 0, 0, 0, 0, 0, 0, 16, 0,
     128, 84, 0, 0, 0, 6, 0, 0, 0, 0, 0, 0, 0, 0, 0, 0, 0, 0, 0, 0, 0, 0, 0, 0, 0, 0, 0, 0, 0, 2, 16,
     0, 128, 4, 0, 0, 0, 1, 0, 2, 0, 120, 114, 112, 95, 100, 115, 112, 95, 99, 111, 109, 109, 95, 98,
     97, 115, 101, 0, 0, 0, 0, 0, 0, 0, 0, 0, 0, 0]"

definition demo_fw_env :: fw_env where
  "demo_fw_env = \<lparr>fe_size = 246, fe_map = [\<lparr>src_addr = 0x80000000, dst_addr = 0x80000000, me_size = 0x10000000\<rparr>],
     fe_bsearch = linear_search, fe_comm_phys = 0x80002000, fe_ioremap = (\<lambda>pa sz. True),
     fe_memcpy_tohw = Some memcpy_toio_local, fe_memset_hw = Some memset_hw_local\<rparr>"

lemma demo_len: "length (demo_image e) = 256"
  by (simp add: demo_image_def)

text \<open>What the code reads of the image.\<close>

lemma demo_rd:
  "rd32 (demo_image e) 0 = Ok 1179403647"
  "rd32 (demo_image e) 24 = Ok 2147487744"
  "rd32 (demo_image e) 28 = Ok 52"
  "rd32 (demo_image e) 32 = Ok 92"
  "rd32 (demo_image e) 52 = Ok 1"
  "rd32 (demo_image e) 56 = Ok 84"
  "rd32 (demo_image e) 64 = Ok 2147487744"
  "rd32 (demo_image e) 68 = Ok 6"
  "rd32 (demo_image e) 72 = Ok 12"
  "rd32 (demo_image e) 76 = Ok 7"
  "rd32 (demo_image e) 96 = Ok 2"
  "rd32 (demo_image e) 108 = Ok 212"
  "rd32 (demo_image e) 112 = Ok 16"
  "rd32 (demo_image e) 136 = Ok 3"
  "rd32 (demo_image e) 148 = Ok 228"
  "rd32 (demo_image e) 152 = Ok 18"
  "rd32 (demo_image e) 176 = Ok 1"
  "rd32 (demo_image e) 184 = Ok 2147487744"
  "rd32 (demo_image e) 188 = Ok 84"
  "rd32 (demo_image e) 192 = Ok 6"
  "rd32 (demo_image e) 212 = Ok 0"
  "rd32 (demo_image e) 216 = Ok 2147487746"
  "rd32 (demo_image e) 220 = Ok 4"
  "rd32 (demo_image e) 128 = Ok (ucast e)"
  "rd16 (demo_image e) 16 = Ok 2"
  "rd16 (demo_image e) 18 = Ok 94"
  "rd16 (demo_image e) 42 = Ok 32"
  "rd16 (demo_image e) 44 = Ok 1"
  "rd16 (demo_image e) 46 = Ok 40"
  "rd16 (demo_image e) 48 = Ok 3"
  "rd16 (demo_image e) 226 = Ok 2"
  "rd8 (demo_image e) 224 = Ok 1"
  by (simp_all add: rd_def demo_len) (simp_all add: demo_image_def)

lemma demo_scan: "scan_sections (demo_image e) 92 40 3 0 (None, None) = Ok (Some 92, Some 132)"
  by (simp add: numeral_3_eq_3 demo_rd u_def)

lemma demo_table:
  "read_sym_tab demo_fw_env (demo_image e) = Ok \<lparr>st_symoff = 212, st_symsize = 16, st_entsize = Ok (ucast e),
     st_stroff = 228, st_strsize = 18, st_shoff = 92, st_shentsize = 40, st_shnum = 3\<rparr>"
proof -
  have z: "fe_size demo_fw_env = 246" by (simp add: demo_fw_env_def)
  have "sym_tab_of demo_fw_env (demo_image e) 92 40 3 92 132 = Ok \<lparr>st_symoff = 212, st_symsize = 16, st_entsize = Ok (ucast e),
     st_stroff = 228, st_strsize = 18, st_shoff = 92, st_shentsize = 40, st_shnum = 3\<rparr>"
    by (simp add: sym_tab_of_def xrp_section_bad_def demo_rd z u_def)
  then show ?thesis by (simp add: read_sym_tab_def demo_rd z u_def demo_scan)
qed

lemma strncmp_eq_found:
  assumes "0 \<le> a" "nat a + length name < length d" "\<forall>i < length name. d ! (nat a + i) = name ! i"
    "d ! (nat a + length name) = 0" "0 \<notin> set name" "length name < n"
  shows "strncmp_eq n d a name = Ok True"
  using assms
proof (induction name arbitrary: n a)
  case Nil
  then obtain n' where "n = Suc n'" by (cases n) auto
  then show ?case using Nil by (simp add: rd_def take_Suc_conv_app_nth hd_drop_conv_nth)
next
  case (Cons x name)
  then obtain n' where n: "n = Suc n'" by (cases n) auto
  have na: "nat (a + 1) = Suc (nat a)" using Cons.prems(1) by simp
  have "strncmp_eq n' d (a + 1) name = Ok True"
    by (rule Cons.IH) (use Cons.prems n in \<open>auto simp: na\<close>)
  moreover have "d ! nat a = x" using Cons.prems(3) by force
  moreover have "rd8 d a = Ok (d ! nat a)" using Cons.prems(1,2) by (simp add: rd_def take_Suc_conv_app_nth)
  ultimately show ?case using Cons.prems(5) n by simp
qed

lemma demo_name: "strncmp_eq 18 (demo_image e) 228 comm_base_name = Ok True"
proof -
  have "drop 228 (demo_image e) = comm_base_name @ [0, 0, 0, 0, 0, 0, 0, 0, 0, 0, 0]"
    by (simp add: demo_image_def comm_base_name_def)
  moreover have "demo_image e ! (228 + i) = drop 228 (demo_image e) ! i" for i by (simp add: nth_drop demo_len)
  ultimately have n: "demo_image e ! (228 + i) = (comm_base_name @ [0, 0, 0, 0, 0, 0, 0, 0, 0, 0, 0]) ! i" for i by simp
  have nm: "length comm_base_name = 17" "0 \<notin> set comm_base_name" by (simp_all add: comm_base_name_def)
  have "demo_image e ! 245 = 0" using n [of 17] by (simp add: nth_append nm)
  then show ?thesis
    by (intro strncmp_eq_found) (simp_all add: demo_len n nth_append nm)
qed

lemma demo_symbol: "xrp_firmware_find_symbol demo_fw_env (demo_image e) comm_base_name = Some (Ok (86, 4))"
proof -
  have m: "sym_matches (demo_image e) \<lparr>st_symoff = 212, st_symsize = 16, st_entsize = Ok (ucast e),
     st_stroff = 228, st_strsize = 18, st_shoff = 92, st_shentsize = 40, st_shnum = 3\<rparr> comm_base_name 212 = Ok True"
    using demo_name [of e] by (simp add: sym_matches_def demo_rd u_def del: One_nat_def)
  have a: "sym_address demo_fw_env (demo_image e) \<lparr>st_symoff = 212, st_symsize = 16, st_entsize = Ok (ucast e),
     st_stroff = 228, st_strsize = 18, st_shoff = 92, st_shentsize = 40, st_shnum = 3\<rparr> 212 = Ok (86, 4)"
    by (simp add: sym_address_def demo_rd u_def xrp_section_bad_def demo_fw_env_def)
  show ?thesis using m a by (simp add: xrp_firmware_find_symbol_def demo_table) (subst find_sym.simps, simp add: u_def)
qed

theorem found_symbol_inside_witness: "0 \<le> (86 :: int) \<and> 86 + uint (4 :: u32) \<le> 246"
  using found_symbol_inside [OF demo_symbol] by (simp add: demo_fw_env_def)

theorem symbol_search_returns_witness: "xrp_firmware_find_symbol demo_fw_env (demo_image 0) [0x61] = None"
proof -
  have c: "rd8 (demo_image 0) 228 = Ok 120" by (simp add: rd_def demo_len) (simp add: demo_image_def)
  have "strncmp_eq (Suc 17) (demo_image 0) 228 [0x61] = Ok False"
    using c by (simp only: strncmp_eq.simps bind_res_simps) simp
  then have nm: "strncmp_eq 18 (demo_image 0) 228 [0x61] = Ok False" by simp
  have "sym_matches (demo_image 0) \<lparr>st_symoff = 212, st_symsize = 16, st_entsize = Ok 0,
     st_stroff = 228, st_strsize = 18, st_shoff = 92, st_shentsize = 40, st_shnum = 3\<rparr> [0x61] 212 = Ok False"
    using nm by (simp add: sym_matches_def demo_rd u_def del: One_nat_def)
  then show ?thesis
    using symbol_search_returns [of demo_fw_env "demo_image 0" "[0x61]"] demo_table [of 0]
    by (simp add: demo_fw_env_def)
qed

definition fixed_image :: "u8 list" where
  "fixed_image = take 86 (demo_image 16) @ [0, 0x20, 0, 0x80] @ drop 90 (demo_image 16)"

lemma rd_before: "a + int n \<le> int k \<Longrightarrow> k \<le> length d \<Longrightarrow> rd n (take k d @ xs) a = rd n d a"
  by (auto simp: rd_def min_def drop_take)

lemma fixed_rd: "a + int n \<le> 86 \<Longrightarrow> rd n fixed_image a = rd n (demo_image 16) a"
  unfolding fixed_image_def by (rule rd_before) (simp_all add: demo_len)

definition demo_segment :: phdr where
  "demo_segment = \<lparr>ph_offset = 84, ph_paddr = 0x80001000, ph_filesz = 6, ph_memsz = 12, ph_flags = 7\<rparr>"

lemma demo_load: "\<exists>m'. xrp_load_firmware demo_fw_env (demo_image 16) (\<lambda>_. 9) = Some (fixed_image, m', Ok ())"
proof -
  have c: "check_firmware demo_fw_env (demo_image 16) = Ok ()"
    by (simp add: check_firmware_def elf_good_def phdr_table_def demo_rd) (simp add: demo_fw_env_def)
  have "xrp_translate_to_dsp (fe_bsearch demo_fw_env) (fe_map demo_fw_env) (fe_comm_phys demo_fw_env) = 0x80002000"
    by (simp add: demo_fw_env_def xrp_translate_to_dsp_def xrp_get_address_mapping_def linear_search_def xrp_compare_address_def)
  then have f: "xrp_firmware_fixup_symbol demo_fw_env comm_base_name
      (xrp_translate_to_dsp (fe_bsearch demo_fw_env) (fe_map demo_fw_env) (fe_comm_phys demo_fw_env)) (demo_image 16) =
      Some (fixed_image, Ok ())"
    by (simp add: xrp_firmware_fixup_symbol_def demo_symbol demo_len XRP_NO_TRANSLATION_def fixed_image_def bytes_of_def upt_rec)
  have p: "phdr_table fixed_image = Ok (52, 32, 1)" by (simp add: phdr_table_def fixed_rd demo_rd)
  have ph: "read_phdr fixed_image 52 = Ok demo_segment" by (simp add: read_phdr_def fixed_rd demo_rd demo_segment_def)
  have "snd (xrp_load_segment_to_iomem demo_fw_env fixed_image demo_segment (\<lambda>_. 9)) = Ok ()"
    by (simp add: xrp_load_segment_to_iomem_def demo_fw_env_def demo_segment_def OF_BAD_ADDR_def copy_segment_def
        clear_segment_def mapped_len_def ALIGN_def fixed_image_def demo_len)
  then obtain m1 where "xrp_load_segment_to_iomem demo_fw_env fixed_image demo_segment (\<lambda>_. 9) = (m1, Ok ())"
    by (metis prod.collapse)
  moreover have "segment_wanted demo_segment" "\<not> fe_size demo_fw_env \<le> ucast (ph_offset demo_segment)"
    "\<not> fe_size demo_fw_env < ucast (ph_offset demo_segment + ph_filesz demo_segment)"
    "(ucast (ph_paddr demo_segment) :: phys_addr) \<noteq> OF_BAD_ADDR" "rd32 fixed_image 52 = Ok 1"
    by (simp_all add: segment_wanted_def demo_segment_def demo_fw_env_def OF_BAD_ADDR_def fixed_rd demo_rd)
  ultimately have "load_segments demo_fw_env fixed_image 52 32 (Suc 0) 0 (\<lambda>_. 9) = (m1, Ok ())"
    using ph by simp
  then show ?thesis using c f p by (simp add: xrp_load_firmware_def u_def)
qed

lemma demo_segments: "fw_segments fixed_image = [demo_segment]"
proof -
  have "nth_segment fixed_image 52 32 0 = Some demo_segment"
    by (simp add: nth_segment_def read_phdr_def fixed_rd demo_rd demo_segment_def segment_wanted_def)
  then have "segments fixed_image 52 32 0 (Suc 0) = [demo_segment]"
    by (simp add: segments_Suc) (simp add: segments_def List.map_filter_simps)
  then show ?thesis by (simp add: fw_segments_def phdr_table_def fixed_rd demo_rd u_def)
qed

theorem loaded_firmware_witness:
  "\<exists>m'. xrp_load_firmware demo_fw_env (demo_image 16) (\<lambda>_. 9) = Some (fixed_image, m', Ok ()) \<and>
     m' 0x80001001 = 2 \<and> m' 0x80001005 = 0x80 \<and> m' 0x80001006 = 0 \<and> m' 0x8000100c = 9"
proof -
  obtain m' where m': "xrp_load_firmware demo_fw_env (demo_image 16) (\<lambda>_. 9) = Some (fixed_image, m', Ok ())"
    using demo_load by blast
  have h: "hw_simple_hooks demo_fw_env" by (simp add: hw_simple_hooks_def demo_fw_env_def)
  note t = loaded_firmware [OF h m', unfolded demo_segments]
  have a: "seg_addr demo_fw_env demo_segment = 0x80001000" by (simp add: seg_addr_def demo_fw_env_def demo_segment_def)
  have b: "m' (0x80001000 + of_nat k) = (if k < 6 then fixed_image ! (84 + k) else 0)" if "k < 12" for k
    using conjunct1 [OF t, rule_format, of "[]" demo_segment "[]" k] that by (simp add: a) (simp add: demo_segment_def)
  have "fixed_image ! 85 = 2" "fixed_image ! 89 = 0x80"
    by (simp_all add: fixed_image_def nth_append demo_len) (simp add: demo_image_def)
  moreover have "m' 0x8000100c = 9"
    using conjunct2 [OF t, rule_format, of "0x8000100c"] by (simp add: a) (simp add: seg_writes_def demo_segment_def ALIGN_def)
  ultimately show ?thesis using m' b [of 1] b [of 5] b [of 6] by auto
qed

theorem bad_firmware_refused_witness:
  "xrp_load_firmware demo_fw_env ([7, 7, 7, 7] @ replicate 252 0) (\<lambda>_. 9) =
     Some ([7, 7, 7, 7] @ replicate 252 0, \<lambda>_. 9, Error EINVAL)"
proof -
  have "elf_good ([7, 7, 7, 7] @ replicate 252 0) = Ok False" by (simp add: elf_good_def rd_def)
  then show ?thesis
    using bad_firmware_refused [of "[7, 7, 7, 7] @ replicate 252 0" demo_fw_env "\<lambda>_. 9"] by (simp add: demo_fw_env_def)
qed

theorem sound_segment_no_fault_witness:
  "snd (xrp_load_segment_to_iomem demo_fw_env fixed_image demo_segment (\<lambda>_. 9)) \<noteq> Oops"
proof (rule sound_segment_no_fault)
  show "hw_simple_hooks demo_fw_env" by (simp add: hw_simple_hooks_def demo_fw_env_def)
qed (simp_all add: demo_fw_env_def demo_segment_def fixed_image_def demo_len)

end
