(* ===== verification/Dsp_Power.thy ===== *)
theory Dsp_Power
  imports Interfaces Firmware
begin

unbundle bit_operations_syntax

text \<open>
  Starting and stopping the DSP, from \<open>xvp_main.c\<close>: \<open>xrp_boot_firmware\<close>, \<open>xrp_runtime_resume\<close> and
  \<open>xrp_runtime_suspend\<close>, which the kernel's runtime power management calls, with the loader
  and the handshake they use. The calls through the table of hardware operations are
  recorded as events; an operation the table does not have is not called.
\<close>

section \<open>State\<close>

datatype dsp_event = Halt | Reset | Release | Set_Reset_Vector u32 | Enable bool | Disable

text \<open>The operations of the table that are there, and the parameters of the module.\<close>

record boot_env =
  be_halt :: bool
  be_reset :: bool
  be_release :: bool
  be_set_reset_vector :: bool
  be_enable :: bool
  be_disable :: bool
  be_load_auto :: bool
  be_loopback :: nat
  be_firmware_name :: bool
  be_fw :: fw_env

text \<open>
  What one start meets: the file \<open>request_firmware\<close> finds, the data of the hardware layer for
  the handshake, what the DSP does in it, and whether the clocks start.
\<close>

record boot_input =
  bi_image :: "u8 list res"
  bi_sync_data :: "u8 list option"
  bi_sync :: sync_env
  bi_clock :: "unit res"

record dsp =
  dsp_off :: bool
  dsp_events :: "dsp_event list"
  dsp_mem :: memory
  dsp_comm :: mmio
  dsp_sync :: xvp_sync

abbreviation (input) LOOPBACK_NOIO :: nat where "LOOPBACK_NOIO \<equiv> 1"
abbreviation (input) LOOPBACK_NOMMIO :: nat where "LOOPBACK_NOMMIO \<equiv> 2"
abbreviation (input) LOOPBACK_NOFIRMWARE :: nat where "LOOPBACK_NOFIRMWARE \<equiv> 3"

section \<open>Operations\<close>

definition hw_call :: "boot_env \<Rightarrow> bool \<Rightarrow> dsp_event \<Rightarrow> dsp \<Rightarrow> dsp" where
  "hw_call en present ev s =
     (if be_loopback en < LOOPBACK_NOMMIO \<and> present then s\<lparr>dsp_events := dsp_events s @ [ev]\<rparr> else s)"

definition xrp_halt_dsp :: "boot_env \<Rightarrow> dsp \<Rightarrow> dsp" where
  "xrp_halt_dsp en s = hw_call en (be_halt en) Halt s"

definition xrp_reset_dsp :: "boot_env \<Rightarrow> dsp \<Rightarrow> dsp" where
  "xrp_reset_dsp en s = hw_call en (be_reset en) Reset s"

definition xrp_release_dsp :: "boot_env \<Rightarrow> dsp \<Rightarrow> dsp" where
  "xrp_release_dsp en s = hw_call en (be_release en) Release s"

definition xrp_set_resetVec :: "boot_env \<Rightarrow> u32 \<Rightarrow> dsp \<Rightarrow> dsp" where
  "xrp_set_resetVec en addr s = hw_call en (be_set_reset_vector en) (Set_Reset_Vector addr) s"

definition xvp_enable_dsp :: "boot_env \<Rightarrow> unit res \<Rightarrow> dsp \<Rightarrow> dsp \<times> unit res" where
  "xvp_enable_dsp en r s =
     (if be_loopback en < LOOPBACK_NOMMIO \<and> be_enable en
      then (s\<lparr>dsp_events := dsp_events s @ [Enable (r = Ok ())]\<rparr>, r) else (s, Ok ()))"

definition xvp_disable_dsp :: "boot_env \<Rightarrow> dsp \<Rightarrow> dsp" where
  "xvp_disable_dsp en s = hw_call en (be_disable en) Disable s"

text \<open>
  The first half of \<open>xrp_boot_firmware\<close>: the core is stalled, the firmware loaded and the core
  reset. \<open>None\<close> is a loader that does not end.
\<close>

definition load_and_reset :: "boot_env \<Rightarrow> boot_input \<Rightarrow> dsp \<Rightarrow> (dsp \<times> unit res) option" where
  "load_and_reset en bi s =
     (if \<not> be_load_auto en then Some (s, Ok ())
      else
        let s1 = xrp_halt_dsp en s in
        if \<not> be_firmware_name en then Some (xrp_reset_dsp en s1, Ok ())
        else
          (case (if be_loopback en < LOOPBACK_NOFIRMWARE then xrp_request_firmware (be_fw en) (bi_image bi) (dsp_mem s1)
                 else Some (dsp_mem s1, 0, Ok ())) of
             None \<Rightarrow> None
           | Some (m, entry, Inl e) \<Rightarrow> Some (s1\<lparr>dsp_mem := m\<rparr>, Inl e)
           | Some (m, entry, Inr _) \<Rightarrow>
               let s2 = s1\<lparr>dsp_mem := m\<rparr>;
                   s3 = (if be_loopback en < LOOPBACK_NOIO
                         then s2\<lparr>dsp_comm := xrp_comm_write32 (xs_comm (dsp_sync s2)) XRP_DSP_SYNC_IDLE (dsp_comm s2)\<rparr> else s2);
                   s4 = (if entry \<noteq> 0 then xrp_set_resetVec en entry s3 else s3)
               in Some (xrp_reset_dsp en s4, Ok ())))"

definition xrp_boot_firmware :: "boot_env \<Rightarrow> boot_input \<Rightarrow> dsp \<Rightarrow> (dsp \<times> unit res) option" where
  "xrp_boot_firmware en bi s =
     (case load_and_reset en bi s of
        None \<Rightarrow> None
      | Some (s1, Inl e) \<Rightarrow> Some (s1, Inl e)
      | Some (s1, Inr _) \<Rightarrow>
          let s2 = xrp_release_dsp en s1 in
          if be_loopback en < LOOPBACK_NOIO then
            (case xrp_synchronize (bi_sync bi) (bi_sync_data bi) (dsp_sync s2) (dsp_comm s2) of
               (x, c, r) \<Rightarrow>
                 let s3 = s2\<lparr>dsp_sync := x, dsp_comm := c\<rparr> in
                 if r = Ok () then Some (s3, Ok ())
                 else Some ((xrp_halt_dsp en s3)\<lparr>dsp_off := True\<rparr>, r))
          else Some (s2, Ok ()))"

text \<open>
  Both power-management calls run with the locks of all queues held (resume) or when nothing
  uses the device (suspend), so each is one step.
\<close>

definition xrp_runtime_suspend :: "boot_env \<Rightarrow> dsp \<Rightarrow> dsp" where
  "xrp_runtime_suspend en s = xvp_disable_dsp en (xrp_reset_dsp en (xrp_halt_dsp en s))"

definition xrp_runtime_resume :: "boot_env \<Rightarrow> boot_input \<Rightarrow> dsp \<Rightarrow> (dsp \<times> unit res) option" where
  "xrp_runtime_resume en bi s =
     (if dsp_off s then Some (s, Ok ())
      else
        (case xvp_enable_dsp en (bi_clock bi) s of
           (s1, Inl e) \<Rightarrow> Some (s1, Inl e)
         | (s1, Inr _) \<Rightarrow>
             (case xrp_boot_firmware en bi s1 of
                None \<Rightarrow> None
              | Some (s2, r) \<Rightarrow> Some (if r = Ok () then s2 else xvp_disable_dsp en s2, r))))"

section \<open>What the events do\<close>

text \<open>The count of the clocks and whether the core runs, as the hardware layer keeps them.\<close>

fun clock_step :: "dsp_event \<Rightarrow> int \<Rightarrow> int" where
  "clock_step (Enable ok) c = (if ok then c + 1 else c)"
| "clock_step Disable c = c - 1"
| "clock_step _ c = c"

fun run_step :: "dsp_event \<Rightarrow> bool \<Rightarrow> bool" where
  "run_step Release r = True"
| "run_step Halt r = False"
| "run_step _ r = r"

definition clocks :: "dsp \<Rightarrow> int" where
  "clocks s = fold clock_step (dsp_events s) 0"

definition running :: "dsp \<Rightarrow> bool" where
  "running s = fold run_step (dsp_events s) False"

definition full_table :: "boot_env \<Rightarrow> bool" where
  "full_table en = (be_halt en \<and> be_reset en \<and> be_release en \<and> be_set_reset_vector en \<and> be_enable en \<and> be_disable en \<and>
     be_load_auto en \<and> be_loopback en = 0 \<and> be_firmware_name en)"

lemmas hw_defs = hw_call_def xrp_halt_dsp_def xrp_reset_dsp_def xrp_release_dsp_def xrp_set_resetVec_def
  xvp_enable_dsp_def xvp_disable_dsp_def clocks_def running_def

lemma load_and_reset_power:
  assumes "full_table en" "load_and_reset en bi s = Some (s', r)"
  shows "clocks s' = clocks s" "\<not> running s'" "dsp_off s' = dsp_off s"
  using assms
  by (auto simp: load_and_reset_def full_table_def hw_defs Let_def split: option.splits sum.splits if_splits)

text \<open>
  A start leaves the clocks alone and the core running exactly when it succeeds; a failed
  handshake, and nothing else, marks the device off.
\<close>

lemma boot_power:
  assumes "full_table en" "xrp_boot_firmware en bi s = Some (s', r)"
  shows "clocks s' = clocks s" "running s' \<longleftrightarrow> r = Ok ()" "r = Ok () \<Longrightarrow> dsp_off s' = dsp_off s" "dsp_off s \<Longrightarrow> dsp_off s'"
proof -
  obtain s1 r1 where l: "load_and_reset en bi s = Some (s1, r1)"
    using assms(2) by (auto simp: xrp_boot_firmware_def split: option.splits)
  note p = load_and_reset_power [OF assms(1) l]
  have "clocks s' = clocks s \<and> (running s' \<longleftrightarrow> r = Ok ()) \<and> (r = Ok () \<longrightarrow> dsp_off s' = dsp_off s) \<and> (dsp_off s \<longrightarrow> dsp_off s')"
  proof (cases r1)
    case (Inl e)
    then show ?thesis using assms(2) l p by (auto simp: xrp_boot_firmware_def)
  next
    case (Inr x)
    obtain y c q where sy: "xrp_synchronize (bi_sync bi) (bi_sync_data bi) (dsp_sync (xrp_release_dsp en s1))
        (dsp_comm (xrp_release_dsp en s1)) = (y, c, q)" by (metis prod_cases3)
    show ?thesis
      using assms l p Inr sy
      by (auto simp: xrp_boot_firmware_def Let_def full_table_def hw_defs split: if_splits)
  qed
  then show "clocks s' = clocks s" "running s' \<longleftrightarrow> r = Ok ()" "r = Ok () \<Longrightarrow> dsp_off s' = dsp_off s" "dsp_off s \<Longrightarrow> dsp_off s'"
    by blast+
qed

text \<open>
  A resume either starts the DSP or leaves it without power. When the device is not off and
  \<open>xrp_runtime_resume\<close> succeeds, the clocks were enabled once more and the core runs; when it
  returns an error, whatever failed (clock, firmware, handshake), the clocks count what they
  counted before and a core that was stalled is stalled.
\<close>

lemma resume_power:
  assumes "full_table en" "\<not> dsp_off s" "\<not> running s" "xrp_runtime_resume en bi s = Some (s', r)"
  shows "clocks s' = clocks s + of_bool (r = Ok ())" "running s' \<longleftrightarrow> r = Ok ()" "r = Ok () \<Longrightarrow> \<not> dsp_off s'"
proof -
  have en: "be_enable en" "be_disable en" "be_loopback en = 0" using assms(1) by (simp_all add: full_table_def)
  have "clocks s' = clocks s + of_bool (r = Ok ()) \<and> (running s' \<longleftrightarrow> r = Ok ()) \<and> (r = Ok () \<longrightarrow> \<not> dsp_off s')"
  proof (cases "bi_clock bi")
    case (Inl e)
    then show ?thesis using assms(2-4) en by (auto simp: xrp_runtime_resume_def hw_defs)
  next
    case (Inr x)
    define s1 where "s1 = s\<lparr>dsp_events := dsp_events s @ [Enable True]\<rparr>"
    have s1: "clocks s1 = clocks s + 1" "\<not> dsp_off s1" using assms(2) by (simp_all add: s1_def clocks_def)
    obtain s2 where b: "xrp_boot_firmware en bi s1 = Some (s2, r)" and s': "s' = (if r = Ok () then s2 else xvp_disable_dsp en s2)"
      using assms(2,4) en Inr by (auto simp: xrp_runtime_resume_def xvp_enable_dsp_def s1_def split: option.splits prod.splits)
    note p = boot_power [OF assms(1) b]
    show ?thesis using p s1 en by (auto simp: s' hw_defs)
  qed
  then show "clocks s' = clocks s + of_bool (r = Ok ())" "running s' \<longleftrightarrow> r = Ok ()" "r = Ok () \<Longrightarrow> \<not> dsp_off s'" by blast+
qed

lemma suspend_power:
  assumes "full_table en"
  shows "clocks (xrp_runtime_suspend en s) = clocks s - 1" "\<not> running (xrp_runtime_suspend en s)"
    "dsp_off (xrp_runtime_suspend en s) = dsp_off s"
  using assms by (auto simp: xrp_runtime_suspend_def full_table_def hw_defs)

section \<open>Runtime power management\<close>

text \<open>
  The kernel resumes a suspended device, suspends an active one, and while it is active a
  command that timed out can start the firmware again (not on a device that is off). A resume
  that fails keeps the device suspended.
\<close>

datatype pm_op = Pm_Resume boot_input | Pm_Suspend | Pm_Reboot boot_input

definition pm_step :: "boot_env \<Rightarrow> pm_op \<Rightarrow> dsp \<times> bool \<Rightarrow> (dsp \<times> bool) option" where
  "pm_step en op st =
     (case st of (s, active) \<Rightarrow>
        (case op of
           Pm_Resume bi \<Rightarrow>
             if active then None
             else map_option (\<lambda>(s', r). (s', r = Ok ())) (xrp_runtime_resume en bi s)
         | Pm_Suspend \<Rightarrow> if active then Some (xrp_runtime_suspend en s, False) else None
         | Pm_Reboot bi \<Rightarrow>
             if active \<and> \<not> dsp_off s then map_option (\<lambda>(s', r). (s', active)) (xrp_boot_firmware en bi s) else None))"

definition pm_rel :: "boot_env \<Rightarrow> dsp \<times> bool \<Rightarrow> dsp \<times> bool \<Rightarrow> bool" where
  "pm_rel en st st' = (\<exists>op. pm_step en op st = Some st')"

definition pm_initial :: "dsp \<times> bool \<Rightarrow> bool" where
  "pm_initial st = (dsp_events (fst st) = [] \<and> \<not> dsp_off (fst st) \<and> \<not> snd st)"

text \<open>
  While the device is not off, the clocks are enabled exactly when it is active, and the core
  does not run without them.
\<close>

definition pm_inv :: "dsp \<times> bool \<Rightarrow> bool" where
  "pm_inv st = (case st of (s, active) \<Rightarrow>
     \<not> dsp_off s \<longrightarrow> clocks s = of_bool active \<and> (running s \<longrightarrow> active))"

lemma boot_off:
  assumes "full_table en" "xrp_boot_firmware en bi s = Some (s', r)" "\<not> dsp_off s'"
  shows "clocks s' = clocks s"
  using boot_power(1) [OF assms(1,2)] .

lemma pm_rel_inv:
  assumes "full_table en" "pm_inv st" "pm_rel en st st'"
  shows "pm_inv st'"
proof -
  obtain s a s' a' op where st: "st = (s, a)" "st' = (s', a')" and step: "pm_step en op (s, a) = Some (s', a')"
    using assms(3) by (metis pm_rel_def surj_pair)
  show ?thesis
  proof (cases op)
    case (Pm_Resume bi)
    then obtain r where r: "\<not> a" "xrp_runtime_resume en bi s = Some (s', r)" "a' = (r = Ok ())"
      using step by (auto simp: pm_step_def split: if_splits)
    show ?thesis
    proof (cases "dsp_off s")
      case True
      then show ?thesis using r by (simp add: xrp_runtime_resume_def pm_inv_def st)
    next
      case False
      then have "clocks s = 0" "\<not> running s" using assms(2) r(1) by (auto simp: pm_inv_def st)
      then show ?thesis using resume_power [OF assms(1) False _ r(2)] r(3) by (simp add: pm_inv_def st)
    qed
  next
    case Pm_Suspend
    then show ?thesis
      using step assms(2) suspend_power [OF assms(1), of s] by (auto simp: pm_step_def pm_inv_def st split: if_splits)
  next
    case (Pm_Reboot bi)
    then obtain r where r: "a" "\<not> dsp_off s" "xrp_boot_firmware en bi s = Some (s', r)" "a'"
      using step by (auto simp: pm_step_def split: if_splits)
    then show ?thesis using boot_power(1) [OF assms(1) r(3)] assms(2) by (auto simp: pm_inv_def st)
  qed
qed

lemma pm_initial_inv: "pm_initial st \<Longrightarrow> pm_inv st"
  by (auto simp: pm_initial_def pm_inv_def clocks_def running_def)

interpretation pm: invariant_system pm_initial "\<lambda>st st'. full_table en \<and> pm_rel en st st'" pm_inv
  by unfold_locales (blast intro: pm_initial_inv pm_rel_inv)+

definition pm_reach :: "boot_env \<Rightarrow> dsp \<times> bool \<Rightarrow> bool" where
  "pm_reach en st = (\<exists>s0. pm_initial s0 \<and> (\<lambda>st st'. full_table en \<and> pm_rel en st st')\<^sup>*\<^sup>* s0 st)"

text \<open>
  C17: In every state that resumes, suspends and restarts of the firmware can reach, whatever
  fails in them, the clocks of a device that is not off are enabled exactly once while it is
  active and not at all while it is suspended, and the core runs only while it is active.
\<close>

theorem power_balanced:
  assumes "pm_reach en (s, active)" "\<not> dsp_off s"
  shows "clocks s = of_bool active \<and> (running s \<longrightarrow> active)"
proof -
  obtain s0 where "pm_initial s0" "(\<lambda>st st'. full_table en \<and> pm_rel en st st')\<^sup>*\<^sup>* s0 (s, active)"
    using assms(1) by (auto simp: pm_reach_def)
  then have "pm_inv (s, active)" by (rule pm.reachable_inv)
  then show ?thesis using assms(2) by (simp add: pm_inv_def)
qed

text \<open>
  A device that is off is not balanced: after a restart of the firmware fails in the
  handshake, suspending it, resuming it (which reports success without enabling anything)
  and suspending it again disables clocks that are not enabled.
\<close>

theorem power_off_unbalanced:
  assumes "full_table en" "clocks s = 1" "\<not> dsp_off s"
    "xrp_boot_firmware en bi s = Some (s1, Error e)" "dsp_off s1"
  shows "\<exists>s2 s3. pm_step en (Pm_Reboot bi) (s, True) = Some (s1, True) \<and>
    pm_step en Pm_Suspend (s1, True) = Some (s2, False) \<and>
    pm_step en (Pm_Resume bi') (s2, False) = Some (s2, True) \<and>
    pm_step en Pm_Suspend (s2, True) = Some (s3, False) \<and> clocks s3 = -1"
proof -
  have "clocks s1 = 1" using boot_power(1) [OF assms(1,4)] assms(2) by simp
  then have "clocks (xrp_runtime_suspend en (xrp_runtime_suspend en s1)) = -1"
    by (simp add: suspend_power(1) [OF assms(1)])
  moreover have "dsp_off (xrp_runtime_suspend en s1)" using suspend_power(3) [OF assms(1)] assms(5) by simp
  ultimately show ?thesis using assms(3,4) by (simp add: pm_step_def xrp_runtime_resume_def)
qed

text \<open>
  A start that succeeds has stalled the core before anything was loaded and releases it after
  the firmware is in its memory, the reset vector is set and the core was reset; the memory
  then holds the segments of the image, with the address of the communication area in it.
\<close>

theorem boot_sequence:
  assumes "full_table en" "hw_simple_hooks (be_fw en)" "bi_image bi = Ok d" "xrp_boot_firmware en bi s = Some (s', Ok ())"
  shows "\<exists>d' entry. xrp_get_firmware_entry_addr d' = Ok entry \<and>
    dsp_mem s' = fold (store_segment (be_fw en) d') (fw_segments d') (dsp_mem s) \<and>
    dsp_events s' = dsp_events s @ [Halt] @ (if entry = 0 then [] else [Set_Reset_Vector entry]) @ [Reset, Release]"
proof -
  obtain s1 where l: "load_and_reset en bi s = Some (s1, Ok ())" and b: "dsp_mem s' = dsp_mem s1" "dsp_events s' = dsp_events s1 @ [Release]"
  proof -
    obtain s1 r1 where l: "load_and_reset en bi s = Some (s1, r1)" using assms(4) by (auto simp: xrp_boot_firmware_def split: option.splits)
    obtain y c q where sy: "xrp_synchronize (bi_sync bi) (bi_sync_data bi) (dsp_sync (xrp_release_dsp en s1))
        (dsp_comm (xrp_release_dsp en s1)) = (y, c, q)" by (metis prod_cases3)
    show thesis
      using that [of s1] assms(1,4) l sy
      by (auto simp: xrp_boot_firmware_def Let_def full_table_def hw_defs split: if_splits sum.splits)
  qed
  obtain m entry where q: "xrp_request_firmware (be_fw en) (Ok d) (dsp_mem s) = Some (m, entry, Ok ())"
    and e: "dsp_mem s1 = m" "dsp_events s1 = dsp_events s @ [Halt] @ (if entry = 0 then [] else [Set_Reset_Vector entry]) @ [Reset]"
    using l assms(1,3) by (auto simp: load_and_reset_def full_table_def hw_defs Let_def split: option.splits sum.splits if_splits)
  obtain d' where d': "xrp_load_firmware (be_fw en) d (dsp_mem s) = Some (d', m, Ok ())" "xrp_get_firmware_entry_addr d' = Ok entry"
    using q by (auto simp: xrp_request_firmware_def split: option.splits sum.splits if_splits)
  show ?thesis using load_firmware_stores [OF assms(2) d'(1)] d'(2) b e by auto
qed

definition demo_boot_env :: boot_env where
  "demo_boot_env = \<lparr>be_halt = True, be_reset = True, be_release = True, be_set_reset_vector = True, be_enable = True,
     be_disable = True, be_load_auto = True, be_loopback = 0, be_firmware_name = True, be_fw = demo_fw_env\<rparr>"

text \<open>A DSP that speaks version 1 of the handshake, and one that is silent.\<close>

definition demo_input :: "bool \<Rightarrow> boot_input" where
  "demo_input answers = \<lparr>bi_image = Ok (demo_image 16), bi_sync_data = Some [1, 2, 3, 4],
     bi_sync = \<lparr>se_first = (if answers then XRP_DSP_SYNC_DSP_READY_V1 else XRP_DSP_SYNC_START, False), se_rest = [],
       se_dsp = (\<lambda>m. m), se_first2 = (XRP_DSP_SYNC_DSP_TO_HOST, False), se_rest2 = []\<rparr>, bi_clock = Ok ()\<rparr>"

definition demo_dsp :: dsp where
  "demo_dsp = \<lparr>dsp_off = False, dsp_events = [], dsp_mem = (\<lambda>_. 9), dsp_comm = (\<lambda>_. 0),
     dsp_sync = \<lparr>xs_n_queues = 1, xs_queue_priority = [], xs_comm = 0, xs_queue_comm = [0], xs_panic_phy = 0, xs_log_mode = 1\<rparr>\<rparr>"

lemma demo_full: "full_table demo_boot_env"
  by (simp add: full_table_def demo_boot_env_def)

lemma demo_entry: "xrp_get_firmware_entry_addr fixed_image = Ok 0x80001000"
  by (simp add: xrp_get_firmware_entry_addr_def elf_good_def fixed_rd demo_rd)

lemma demo_boot:
  assumes "dsp_mem s = (\<lambda>_. 9)" "dsp_sync s = dsp_sync demo_dsp"
  shows "\<exists>s'. xrp_boot_firmware demo_boot_env (demo_input answers) s = Some (s', if answers then Ok () else Error ENODEV) \<and>
    dsp_off s' = (\<not> answers \<or> dsp_off s) \<and> dsp_events s' = dsp_events s @ [Halt, Set_Reset_Vector 0x80001000, Reset, Release] @
      (if answers then [] else [Halt])"
proof -
  obtain m' where "xrp_load_firmware demo_fw_env (demo_image 16) (\<lambda>_. 9) = Some (fixed_image, m', Ok ())"
    using demo_load by blast
  then have q: "xrp_request_firmware demo_fw_env (Ok (demo_image 16)) (\<lambda>_. 9) = Some (m', 0x80001000, Ok ())"
    by (simp add: xrp_request_firmware_def demo_entry)
  show ?thesis
    using assms q
    by (auto simp: xrp_boot_firmware_def load_and_reset_def Let_def hw_defs demo_boot_env_def demo_input_def demo_dsp_def
        xrp_synchronize_def sync_err_def xrp_comm_write32_def)
qed

lemma demo_resume:
  "\<exists>s. xrp_runtime_resume demo_boot_env (demo_input True) demo_dsp = Some (s, Ok ()) \<and> \<not> dsp_off s"
proof -
  let ?s = "demo_dsp\<lparr>dsp_events := [Enable True]\<rparr>"
  obtain s' where "xrp_boot_firmware demo_boot_env (demo_input True) ?s = Some (s', Ok ())" "\<not> dsp_off s'"
    using demo_boot [of ?s True] by (auto simp: demo_dsp_def)
  then have "xrp_runtime_resume demo_boot_env (demo_input True) demo_dsp = Some (s', Ok ())"
    by (simp add: xrp_runtime_resume_def xvp_enable_dsp_def demo_boot_env_def demo_input_def demo_dsp_def)
  then show ?thesis using \<open>\<not> dsp_off s'\<close> by blast
qed

theorem power_balanced_witness:
  "\<exists>s. pm_reach demo_boot_env (s, True) \<and> clocks s = 1"
proof -
  obtain s where s: "xrp_runtime_resume demo_boot_env (demo_input True) demo_dsp = Some (s, Ok ())" "\<not> dsp_off s"
    using demo_resume by blast
  have "pm_step demo_boot_env (Pm_Resume (demo_input True)) (demo_dsp, False) = Some (s, True)"
    using s(1) by (simp add: pm_step_def)
  then have "pm_rel demo_boot_env (demo_dsp, False) (s, True)" unfolding pm_rel_def by blast
  moreover have "pm_initial (demo_dsp, False)" by (simp add: pm_initial_def demo_dsp_def)
  ultimately have "pm_reach demo_boot_env (s, True)"
    unfolding pm_reach_def using demo_full by (intro exI [of _ "(demo_dsp, False)"]) auto
  then show ?thesis using power_balanced [OF _ s(2)] by fastforce
qed

theorem power_off_unbalanced_witness:
  "\<exists>s1 s2 s3. pm_step demo_boot_env (Pm_Reboot (demo_input False)) (demo_dsp\<lparr>dsp_events := [Enable True, Release]\<rparr>, True) = Some (s1, True) \<and>
    pm_step demo_boot_env Pm_Suspend (s2, True) = Some (s3, False) \<and> clocks s3 = -1"
proof -
  let ?s = "demo_dsp\<lparr>dsp_events := [Enable True, Release]\<rparr>"
  obtain s1 where s1: "xrp_boot_firmware demo_boot_env (demo_input False) ?s = Some (s1, Error ENODEV)" "dsp_off s1"
    using demo_boot [of ?s False] by (auto simp: demo_dsp_def)
  have "clocks ?s = 1" "\<not> dsp_off ?s" by (simp_all add: clocks_def demo_dsp_def)
  then show ?thesis
    using power_off_unbalanced [OF demo_full _ _ s1, of "demo_input True"] by blast
qed

theorem boot_sequence_witness:
  "\<exists>s'. xrp_boot_firmware demo_boot_env (demo_input True) demo_dsp = Some (s', Ok ()) \<and> length (dsp_events s') \<ge> 3"
proof -
  obtain s' where s': "xrp_boot_firmware demo_boot_env (demo_input True) demo_dsp = Some (s', Ok ())"
    using demo_boot [of demo_dsp True] by (auto simp: demo_dsp_def)
  have "hw_simple_hooks (be_fw demo_boot_env)" by (simp add: demo_boot_env_def demo_fw_env_def hw_simple_hooks_def)
  moreover have "bi_image (demo_input True) = Ok (demo_image 16)" by (simp add: demo_input_def)
  ultimately show ?thesis
    using boot_sequence [OF demo_full _ _ s'] s' by auto
qed

end
