(* ===== verification/Device_Init.thy ===== *)
theory Device_Init
  imports Alloc Address_Map Submit
begin

unbundle bit_operations_syntax

text \<open>
  Bringing a device up and down, from \<open>xvp_main.c\<close>: where the communication area and the pool of
  shared memory are, the queues and their order, \<open>xrp_init_common\<close> with its chain of cleanup
  labels, \<open>xrp_deinit\<close>, and the list of the files that are open. What the kernel's services
  answer is an argument.
\<close>

section \<open>Memory regions\<close>

record device_regs =
  dr_comm_phys :: phys_addr
  dr_pmem :: phys_addr
  dr_shared_size :: u64
  dr_panic :: "(phys_addr \<times> u64) option"

definition no_regs :: device_regs where
  "no_regs = \<lparr>dr_comm_phys = 0, dr_pmem = 0, dr_shared_size = 0, dr_panic = None\<rparr>"

text \<open>
  \<open>xrp_init_regs_v0\<close>: the regions are children of the \<open>memory-region\<close> node, each with a start and
  a size. The pool's size is cut to 32 bits by \<open>xrp_init_private_pool\<close>.
\<close>

definition xrp_init_regs_v0 ::
  "bool \<Rightarrow> (nat \<Rightarrow> (phys_addr \<times> u64) option) \<Rightarrow> bool \<Rightarrow> bool \<Rightarrow> device_regs \<times> private_pool res" where
  "xrp_init_regs_v0 node regn kpool kalloc =
     (if \<not> node then (no_regs, Error EINVAL)
      else
        (case regn 1 of
           None \<Rightarrow> (no_regs, Error ENODEV)
         | Some (comm, csz) \<Rightarrow>
             let d1 = no_regs\<lparr>dr_comm_phys := comm, dr_panic := regn 2\<rparr> in
             (case regn 3 of
                None \<Rightarrow> (d1, Error ENODEV)
              | Some (pmem, psz) \<Rightarrow>
                  (d1\<lparr>dr_pmem := pmem, dr_shared_size := psz\<rparr>, xrp_init_private_pool kpool kalloc pmem (ucast psz)))))"

text \<open>\<open>xrp_init_regs_v1\<close>: one resource, a page of it for the communication area.\<close>

definition xrp_init_regs_v1 :: "(phys_addr \<times> u64) option \<Rightarrow> bool \<Rightarrow> bool \<Rightarrow> device_regs \<times> private_pool res" where
  "xrp_init_regs_v1 mem kpool kalloc =
     (case mem of
        None \<Rightarrow> (no_regs, Error ENODEV)
      | Some (st, sz) \<Rightarrow>
          if sz < 2 * PAGE_SIZE then (no_regs, Error ENOMEM)
          else
            (no_regs\<lparr>dr_comm_phys := st, dr_pmem := st + PAGE_SIZE, dr_shared_size := sz - PAGE_SIZE\<rparr>,
             xrp_init_private_pool kpool kalloc (st + PAGE_SIZE) (ucast (sz - PAGE_SIZE))))"

text \<open>
  \<open>xrp_init_regs_cma\<close>: a page from the DMA allocator; the pool is the allocator itself. The
  first result tells whether the page is held.
\<close>

definition xrp_init_regs_cma :: "bool \<Rightarrow> phys_addr option \<Rightarrow> bool \<Rightarrow> device_regs \<times> unit res" where
  "xrp_init_regs_cma reserved page kpool =
     (if \<not> reserved then (no_regs, Error ENODEV)
      else
        (case page of
           None \<Rightarrow> (no_regs, Error ENOMEM)
         | Some comm \<Rightarrow> (no_regs\<lparr>dr_comm_phys := comm\<rparr>, if kpool then Ok () else Error ENOMEM)))"

text \<open>
  \<open>xrp_translate_base_mimo_to_dsp\<close>: the device address of the interrupt registers goes back to
  the hardware layer; \<open>mimo\<close> is \<open>None\<close> when the layer has no such registers.
\<close>

definition xrp_translate_base_mimo_to_dsp :: "bsearch_fn \<Rightarrow> map_entry list \<Rightarrow> phys_addr option \<Rightarrow> phys_addr option \<times> bool" where
  "xrp_translate_base_mimo_to_dsp bs mp mimo =
     (case mimo of
        None \<Rightarrow> (None, True)
      | Some a \<Rightarrow>
          let v = xrp_translate_to_dsp bs mp a in
          if v = XRP_NO_TRANSLATION then (None, False) else (Some (ucast v), True))"

section \<open>Queues\<close>

text \<open>The stride of the command slots, 128 bytes, in words of the communication area.\<close>

abbreviation (input) XRP_DSP_CMD_STRIDE :: nat where "XRP_DSP_CMD_STRIDE \<equiv> 32"

record device_queue =
  dq_comm :: nat
  dq_priority :: u32

definition compare_queue_priority :: "device_queue \<Rightarrow> device_queue \<Rightarrow> int" where
  "compare_queue_priority a b =
     (if dq_priority a = dq_priority b then 0 else if dq_priority a < dq_priority b then -1 else 1)"

text \<open>
  The queues and the order of their indices. Without priorities there is one queue, whose
  priority is whatever the memory held (\<open>junk\<close>). \<open>srt\<close> is the kernel's \<open>sort\<close>.
\<close>

definition init_queues :: "((nat \<Rightarrow> nat \<Rightarrow> int) \<Rightarrow> nat list \<Rightarrow> nat list) \<Rightarrow> nat \<Rightarrow> u32 list option \<Rightarrow> u32 \<Rightarrow> device_queue list \<times> nat list" where
  "init_queues srt comm prio junk =
     (let n = (case prio of None \<Rightarrow> 1 | Some ps \<Rightarrow> length ps);
          qs = map (\<lambda>i. \<lparr>dq_comm = comm + XRP_DSP_CMD_STRIDE * i,
                 dq_priority = (case prio of None \<Rightarrow> junk | Some ps \<Rightarrow> ps ! i)\<rparr>) [0..<n]
      in (qs, srt (\<lambda>i j. compare_queue_priority (qs ! i) (qs ! j)) [0..<n]))"

section \<open>Initialisation with cleanup\<close>

text \<open>What the driver holds while it initialises, and what is left when it returns.\<close>

record ledger =
  lg_comm :: bool
  lg_pool :: bool
  lg_map :: bool
  lg_id :: bool
  lg_proc :: bool
  lg_pm :: bool
  lg_powered :: bool
  lg_misc :: bool

definition empty_ledger :: ledger where
  "empty_ledger = \<lparr>lg_comm = False, lg_pool = False, lg_map = False, lg_id = False, lg_proc = False, lg_pm = False,
     lg_powered = False, lg_misc = False\<rparr>"

text \<open>
  The answers: whether the device object can be allocated, the result of the regions and whether
  they hold a DMA page, the map, the base address, the number of priorities (an error when
  the property is missing) and the two steps that read them, the queues, the firmware's name,
  the number of the node, the proc directory, whether power management is enabled, the start
  of the DSP and the registration.
\<close>

record init_env =
  ie_alloc :: bool
  ie_dma_page :: bool
  ie_regs :: "unit res"
  ie_map :: "unit res"
  ie_base :: bool
  ie_n_priorities :: "nat res"
  ie_priority_alloc :: bool
  ie_priority_read :: "unit res"
  ie_queue_alloc :: bool
  ie_name :: "unit res"
  ie_id :: "unit res"
  ie_proc :: bool
  ie_pm_enabled :: bool
  ie_resume :: "unit res"
  ie_misc :: "unit res"

text \<open>
  The labels at the end of \<open>xrp_init_common\<close>, each with what follows it. \<open>xrp_free_address_map\<close>
  frees the table only when its pointer is null, so a table that exists stays. \<open>Failed r\<close>
  is the return at the end with the value of \<open>ret\<close>; \<open>Failed (Ok ())\<close> stands for a value that is
  not negative.
\<close>

datatype init_result = Probed | Failed "unit res"

definition err_free_pool :: "ledger \<Rightarrow> ledger" where
  "err_free_pool lg = lg\<lparr>lg_pool := False, lg_comm := False\<rparr>"

definition err_free_map :: "ledger \<Rightarrow> ledger" where
  "err_free_map lg = err_free_pool (lg\<lparr>lg_map := \<not> xrp_free_address_map (if lg_map lg then Some [] else None)\<rparr>)"

definition err_free_id :: "ledger \<Rightarrow> ledger" where
  "err_free_id lg = err_free_map (lg\<lparr>lg_id := False\<rparr>)"

definition err_proc_remove :: "ledger \<Rightarrow> ledger" where
  "err_proc_remove lg = err_free_id (lg\<lparr>lg_proc := False\<rparr>)"

definition err_pm_disable :: "ledger \<Rightarrow> ledger" where
  "err_pm_disable lg = err_proc_remove (lg\<lparr>lg_pm := False\<rparr>)"

definition init_finish :: "init_env \<Rightarrow> ledger \<Rightarrow> ledger \<times> init_result" where
  "init_finish en lg =
     (let lg1 = lg\<lparr>lg_pm := True\<rparr> in
      if \<not> ie_pm_enabled en then
        (if ie_resume en \<noteq> Ok () then (err_pm_disable lg1, Failed (ie_resume en))
         else let lg2 = lg1\<lparr>lg_powered := True\<rparr> in
           if ie_misc en \<noteq> Ok () then (err_pm_disable lg2, Failed (ie_misc en))
           else (lg2\<lparr>lg_misc := True\<rparr>, Probed))
      else
        (if ie_resume en \<noteq> Ok () then (err_proc_remove lg1, Failed (ie_resume en))
         else if ie_misc en \<noteq> Ok () then (err_pm_disable lg1, Failed (ie_misc en))
         else (lg1\<lparr>lg_misc := True\<rparr>, Probed)))"

definition init_named :: "init_env \<Rightarrow> ledger \<Rightarrow> ledger \<times> init_result" where
  "init_named en lg =
     (if ie_name en \<noteq> Ok () \<and> ie_name en \<noteq> Error EINVAL \<and> ie_name en \<noteq> Error ENODATA then (err_free_map lg, Failed (ie_name en))
      else if ie_id en \<noteq> Ok () then (err_free_map lg, Failed (ie_id en))
      else let lg1 = lg\<lparr>lg_id := True\<rparr> in
        if \<not> ie_proc en then (err_free_id lg1, Failed (ie_name en))
        else init_finish en (lg1\<lparr>lg_proc := True\<rparr>))"

text \<open>
  \<open>ret\<close> when the queues cannot be allocated is what the last call on the priorities left: the
  number, the result of the second call, or the error of a missing property.
\<close>

definition init_queue_memory :: "init_env \<Rightarrow> ledger \<Rightarrow> ledger \<times> init_result" where
  "init_queue_memory en lg =
     (case ie_n_priorities en of
        Ok (Suc n) \<Rightarrow>
          if \<not> ie_priority_alloc en then (err_free_pool lg, Failed (Ok ()))
          else if ie_priority_read en \<noteq> Ok () then (err_free_pool lg, Failed (ie_priority_read en))
          else if \<not> ie_queue_alloc en then (err_free_pool lg, Failed (Ok ()))
          else init_named en lg
      | Ok 0 \<Rightarrow> if \<not> ie_queue_alloc en then (err_free_pool lg, Failed (Ok ())) else init_named en lg
      | Inl e \<Rightarrow> if \<not> ie_queue_alloc en then (err_free_pool lg, Failed (Inl e)) else init_named en lg)"

definition xrp_init_common :: "init_env \<Rightarrow> ledger \<times> init_result" where
  "xrp_init_common en =
     (if \<not> ie_alloc en then (empty_ledger, Failed (Error ENOMEM))
      else
        let lg0 = empty_ledger\<lparr>lg_comm := ie_dma_page en\<rparr> in
        if ie_regs en \<noteq> Ok () then (lg0, Failed (ie_regs en))
        else let lg1 = lg0\<lparr>lg_pool := True\<rparr> in
          if ie_map en \<noteq> Ok () then (err_free_pool lg1, Failed (ie_map en))
          else let lg2 = lg1\<lparr>lg_map := True\<rparr> in
            if \<not> ie_base en then (err_free_map lg2, Failed (ie_map en))
            else init_queue_memory en lg2)"

text \<open>
  \<open>xrp_deinit\<close>: the DSP is suspended unless the status of the power management, \<open>suspended\<close>, says that it
  already is. The tests of the proc directory and of the numbers in use only leave out what is not held.
\<close>

definition xrp_deinit :: "bool \<Rightarrow> ledger \<Rightarrow> ledger" where
  "xrp_deinit suspended lg =
     (let lg1 = lg\<lparr>lg_pm := False, lg_powered := lg_powered lg \<and> suspended, lg_proc := False, lg_misc := False, lg_pool := False, lg_comm := False\<rparr>
      in lg1\<lparr>lg_map := \<not> xrp_free_address_map (if lg_map lg1 then Some [] else None), lg_id := False\<rparr>)"

text \<open>What the probe functions make of the result: only a negative value is a failure.\<close>

definition probe_result :: "init_result \<Rightarrow> unit res" where
  "probe_result r = (case r of Probed \<Rightarrow> Ok () | Failed r \<Rightarrow> r)"

section \<open>Open files\<close>

text \<open>
  The files that are open, in the order in which the hash table finds them, and the use count of
  the runtime power management, which \<open>pm_runtime_get_sync\<close> raises even when it fails.
\<close>

record open_state =
  op_known :: "nat list"
  op_usage :: int

definition xrp_add_known_file :: "bool \<Rightarrow> nat \<Rightarrow> open_state \<Rightarrow> open_state" where
  "xrp_add_known_file kmalloc_ok filp s = (if kmalloc_ok then s\<lparr>op_known := filp # op_known s\<rparr> else s)"

definition xrp_remove_known_file :: "nat \<Rightarrow> open_state \<Rightarrow> open_state" where
  "xrp_remove_known_file filp s = s\<lparr>op_known := remove1 filp (op_known s)\<rparr>"

definition xrp_is_known_file :: "nat \<Rightarrow> open_state \<Rightarrow> bool" where
  "xrp_is_known_file filp s = (filp \<in> set (op_known s))"

definition xvp_open :: "unit res \<Rightarrow> bool \<Rightarrow> bool \<Rightarrow> nat \<Rightarrow> open_state \<Rightarrow> open_state \<times> unit res" where
  "xvp_open get zalloc_ok kmalloc_ok filp s =
     (let s1 = s\<lparr>op_usage := op_usage s + 1\<rparr> in
      if get \<noteq> Ok () then (s1, get)
      else if \<not> zalloc_ok then (s1\<lparr>op_usage := op_usage s1 - 1\<rparr>, Error ENOMEM)
      else (xrp_add_known_file kmalloc_ok filp s1, Ok ()))"

definition xvp_release :: "nat \<Rightarrow> open_state \<Rightarrow> open_state" where
  "xvp_release filp s = (let s1 = xrp_remove_known_file filp s in s1\<lparr>op_usage := op_usage s1 - 1\<rparr>)"

lemma open_release:
  assumes "xvp_open get zalloc_ok kmalloc_ok filp s = (s1, Ok ())" "\<not> xrp_is_known_file filp s"
  shows "xvp_release filp s1 = s" "xrp_is_known_file filp s1 = kmalloc_ok"
  using assms
  by (auto simp: xvp_open_def xvp_release_def xrp_remove_known_file_def xrp_add_known_file_def xrp_is_known_file_def
      remove1_idem Let_def split: if_splits)

lemma open_failure_usage:
  "xvp_open (Error e) zalloc_ok kmalloc_ok filp s = (s1, r) \<Longrightarrow> op_usage s1 = op_usage s + 1"
  "xvp_open (Ok ()) False kmalloc_ok filp s = (s1, r) \<Longrightarrow> s1 = s"
  by (auto simp: xvp_open_def Let_def)

section \<open>Properties\<close>

text \<open>
  With one shared resource the communication page and the pool do not overlap, and both lie
  in the resource: what the allocator hands out can never be the area through which driver
  and DSP talk.
\<close>

theorem init_regs_v1_layout:
  assumes "xrp_init_regs_v1 (Some (st, sz)) kpool kalloc = (d, Ok p)" "unat st + unat sz < 2 ^ 64"
  shows "pool_bytes p \<inter> {unat (dr_comm_phys d)..<unat (dr_comm_phys d) + 4096} = {} \<and>
    pool_bytes p \<subseteq> {unat st..<unat st + unat sz} \<and> dr_comm_phys d = st \<and> pp_start p = dr_pmem d"
proof -
  have sz: "8192 \<le> unat sz" and p: "pp_start p = st + 4096" "pp_size p = ucast (sz - 4096)"
    and d: "dr_comm_phys d = st" "dr_pmem d = st + 4096"
    using assms(1)
    by (auto simp: xrp_init_regs_v1_def xrp_init_private_pool_def no_regs_def word_less_nat_alt not_less split: if_splits)
  have a: "unat (st + 4096) = unat st + 4096" using assms(2) sz by (subst unat_add_u64) simp_all
  have "unat (sz - 4096) = unat sz - 4096" using sz by (subst unat_sub) (simp_all add: word_le_nat_alt)
  then have "unat (pp_size p) \<le> unat sz - 4096" by (simp only: p unat_u64_u32) simp
  then show ?thesis using a sz by (auto simp: pool_bytes_def p d)
qed

lemmas init_defs = xrp_init_common_def init_queue_memory_def init_named_def init_finish_def empty_ledger_def
  err_free_pool_def err_free_map_def err_free_id_def err_proc_remove_def err_pm_disable_def xrp_free_address_map_def Let_def

text \<open>
  C29: After a failed initialisation nothing is held that a later probe would miss, whichever step
  failed: not the pool, the number, the proc directory or the registration. The address table is
  left exactly when it was made, the DMA page exactly when the regions failed after it was
  allocated. What can be left besides is the enabled power management when the DSP did not start, and a powered DSP when the
  registration failed without power management. After a success everything is held.
\<close>

theorem init_common_cleanup:
  assumes "xrp_init_common en = (lg, r)"
  shows "(r = Probed \<longrightarrow> lg_pool lg \<and> lg_map lg \<and> lg_id lg \<and> lg_proc lg \<and> lg_pm lg \<and> lg_misc lg \<and> lg_comm lg = ie_dma_page en) \<and>
    (r \<noteq> Probed \<longrightarrow> \<not> lg_pool lg \<and> \<not> lg_id lg \<and> \<not> lg_proc lg \<and> \<not> lg_misc lg \<and>
       (lg_comm lg \<longleftrightarrow> ie_alloc en \<and> ie_dma_page en \<and> ie_regs en \<noteq> Ok ()) \<and>
       (lg_map lg \<longleftrightarrow> ie_alloc en \<and> ie_regs en = Ok () \<and> ie_map en = Ok ()) \<and>
       (lg_pm lg \<longrightarrow> ie_resume en \<noteq> Ok () \<and> ie_pm_enabled en) \<and>
       (lg_powered lg \<longrightarrow> ie_misc en \<noteq> Ok () \<and> \<not> ie_pm_enabled en))"
proof -
  have "init_finish en l = (lg, r) \<Longrightarrow> lg_pool l \<Longrightarrow> lg_map l \<Longrightarrow> lg_id l \<Longrightarrow> lg_proc l \<Longrightarrow> \<not> lg_misc l \<Longrightarrow> \<not> lg_powered l \<Longrightarrow>
      ie_alloc en \<Longrightarrow> ie_regs en = Ok () \<Longrightarrow> ie_map en = Ok () \<Longrightarrow> lg_comm l = ie_dma_page en \<Longrightarrow> ?thesis" for l
    by (auto simp: init_finish_def err_free_pool_def err_free_map_def err_free_id_def err_proc_remove_def err_pm_disable_def
        xrp_free_address_map_def Let_def split: if_splits)
  note fin = this
  have "init_named en l = (lg, r) \<Longrightarrow> l = \<lparr>lg_comm = ie_dma_page en, lg_pool = True, lg_map = True, lg_id = False, lg_proc = False,
      lg_pm = False, lg_powered = False, lg_misc = False\<rparr> \<Longrightarrow> ie_alloc en \<Longrightarrow> ie_regs en = Ok () \<Longrightarrow> ie_map en = Ok () \<Longrightarrow> ?thesis" for l
    using fin [of "l\<lparr>lg_id := True, lg_proc := True\<rparr>"]
    by (auto simp: init_named_def err_free_pool_def err_free_map_def err_free_id_def xrp_free_address_map_def Let_def split: if_splits)
  note named = this
  have "init_queue_memory en l = (lg, r) \<Longrightarrow> l = \<lparr>lg_comm = ie_dma_page en, lg_pool = True, lg_map = True, lg_id = False, lg_proc = False,
      lg_pm = False, lg_powered = False, lg_misc = False\<rparr> \<Longrightarrow> ie_alloc en \<Longrightarrow> ie_regs en = Ok () \<Longrightarrow> ie_map en = Ok () \<Longrightarrow> ?thesis" for l
    using named [of l]
    by (auto simp: init_queue_memory_def err_free_pool_def split: if_splits sum.splits nat.splits)
  note queue = this
  show ?thesis
    using assms queue
    by (auto simp: xrp_init_common_def empty_ledger_def err_free_pool_def err_free_map_def xrp_free_address_map_def Let_def
        split: if_splits)
qed

text \<open>
  Four failures are reported as success: when the base of the interrupt registers has no
  device address, the memory for the priorities or for the queues cannot be had, or the proc
  directory cannot be made, \<open>xrp_init_common\<close> releases everything and returns a value that is
  not negative, which the probe functions take for a device. No other failure does that.
\<close>

theorem init_silent_failure:
  assumes "ie_alloc en" "ie_regs en = Ok ()" "ie_map en = Ok ()"
    "\<forall>n. ie_n_priorities en = Ok (Suc n) \<longrightarrow> ie_priority_alloc en \<longrightarrow> ie_priority_read en = Ok ()"
  shows "snd (xrp_init_common en) = Failed (Ok ()) \<longleftrightarrow>
    \<not> ie_base en \<or> (\<exists>n. ie_n_priorities en = Ok (Suc n)) \<and> \<not> ie_priority_alloc en \<or>
    (\<exists>n. ie_n_priorities en = Ok n) \<and> \<not> ie_queue_alloc en \<or>
    (ie_queue_alloc en \<and> ie_name en = Ok () \<and> ie_id en = Ok () \<and> \<not> ie_proc en)"
proof -
  have fin: "snd (init_finish en l) \<noteq> Failed (Ok ())" for l by (auto simp: init_finish_def Let_def)
  have named: "snd (init_named en l) = Failed (Ok ()) \<longleftrightarrow> ie_name en = Ok () \<and> ie_id en = Ok () \<and> \<not> ie_proc en" for l
    using fin by (auto simp: init_named_def Let_def)
  have queue: "snd (init_queue_memory en l) = Failed (Ok ()) \<longleftrightarrow>
      (\<exists>n. ie_n_priorities en = Ok (Suc n)) \<and> \<not> ie_priority_alloc en \<or> (\<exists>n. ie_n_priorities en = Ok n) \<and> \<not> ie_queue_alloc en \<or>
      (ie_queue_alloc en \<and> ie_name en = Ok () \<and> ie_id en = Ok () \<and> \<not> ie_proc en)" for l
    using assms(4) named by (auto simp: init_queue_memory_def split: sum.splits nat.splits)
  show ?thesis using assms(1-3) queue by (auto simp: xrp_init_common_def Let_def)
qed

text \<open>
  The contract of the kernel's \<open>sort\<close> for an array of numbers: a permutation without a
  descent, for a comparison that is antisymmetric and transitive on the elements.
\<close>

definition index_sort_law :: "((nat \<Rightarrow> nat \<Rightarrow> int) \<Rightarrow> nat list \<Rightarrow> nat list) \<Rightarrow> bool" where
  "index_sort_law srt = (\<forall>cmp xs.
     (\<forall>x \<in> set xs. \<forall>y \<in> set xs. cmp y x = - cmp x y) \<longrightarrow>
     (\<forall>x \<in> set xs. \<forall>y \<in> set xs. \<forall>z \<in> set xs. cmp x y \<le> 0 \<longrightarrow> cmp y z \<le> 0 \<longrightarrow> cmp x z \<le> 0) \<longrightarrow>
     mset (srt cmp xs) = mset xs \<and> sorted_wrt (\<lambda>x y. cmp x y \<le> 0) (srt cmp xs))"

lemma compare_queue_le: "compare_queue_priority a b \<le> 0 \<longleftrightarrow> dq_priority a \<le> dq_priority b"
  by (auto simp: compare_queue_priority_def)

lemma init_queues_order:
  assumes "index_sort_law srt" "init_queues srt comm (Some ps) junk = (qs, ordered)"
  shows "length qs = length ps" "mset ordered = mset [0..<length ps]" "sorted (map (\<lambda>i. dq_priority (qs ! i)) ordered)"
    "i < length ps \<Longrightarrow> dq_priority (qs ! i) = ps ! i"
proof -
  show l: "length qs = length ps" and "i < length ps \<Longrightarrow> dq_priority (qs ! i) = ps ! i"
    using assms(2) by (auto simp: init_queues_def Let_def)
  let ?cmp = "\<lambda>i j. compare_queue_priority (qs ! i) (qs ! j)"
  have o: "ordered = srt ?cmp [0..<length ps]" using assms(2) by (auto simp: init_queues_def Let_def)
  have r: "mset (srt ?cmp xs) = mset xs \<and> sorted_wrt (\<lambda>x y. ?cmp x y \<le> 0) (srt ?cmp xs)" for xs
  proof -
    have a: "\<forall>x \<in> set xs. \<forall>y \<in> set xs. ?cmp y x = - ?cmp x y"
      by (auto simp: compare_queue_priority_def)
    have b: "\<forall>x \<in> set xs. \<forall>y \<in> set xs. \<forall>z \<in> set xs. ?cmp x y \<le> 0 \<longrightarrow> ?cmp y z \<le> 0 \<longrightarrow> ?cmp x z \<le> 0"
      unfolding compare_queue_le by (meson order_trans)
    show ?thesis
      by (rule assms(1) [unfolded index_sort_law_def, THEN spec [of _ ?cmp], THEN spec [of _ xs], THEN mp, THEN mp, OF a b])
  qed
  show "mset ordered = mset [0..<length ps]" "sorted (map (\<lambda>i. dq_priority (qs ! i)) ordered)"
    using r [of "[0..<length ps]"] unfolding o compare_queue_le by (simp_all add: sorted_map)
qed

text \<open>
  From the device tree to the queue: with the queues as the initialisation orders them,
  whatever their priorities in the device tree are, a command with the larger priority in its
  flags goes to a queue of at least the priority of the other's, and the queue exists.
\<close>

theorem priority_respected:
  assumes "index_sort_law srt" "init_queues srt comm (Some ps) junk = (qs, ordered)" "1 < length ps"
    "submit_queue f1 (length ps) ordered = Ok q1" "submit_queue f2 (length ps) ordered = Ok q2"
    "f1 AND 0xff00 \<le> f2 AND 0xff00"
  shows "q1 < length ps \<and> q2 < length ps \<and> ps ! q1 \<le> ps ! q2"
proof -
  note o = init_queues_order [OF assms(1,2)]
  have "q1 < length ps \<and> q2 < length ps \<and> dq_priority (qs ! q1) \<le> dq_priority (qs ! q2)"
    by (rule submit_queue_priority [OF assms(3) o(2) o(3) assms(4,5,6)])
  then show ?thesis by (auto simp: o(4))
qed

text \<open>The kernel's \<open>sort\<close> in the examples: sorting by insertion meets the contract.\<close>

lemma insertion_index_sort: "index_sort_law insertion_sort"
proof -
  have m: "mset (insertion_sort cmp xs) = mset xs" for cmp and xs :: "nat list"
    unfolding insertion_sort_def by (induction xs) auto
  have "sorted_wrt (\<lambda>x y. cmp x y \<le> 0) (insertion_sort cmp xs)"
    if "\<forall>x \<in> S. \<forall>y \<in> S. cmp y x = - cmp x y" "set xs \<subseteq> S"
      "\<forall>x \<in> S. \<forall>y \<in> S. \<forall>z \<in> S. cmp x y \<le> 0 \<longrightarrow> cmp y z \<le> 0 \<longrightarrow> cmp x z \<le> 0"
    for cmp and xs :: "nat list" and S
    using that(2)
  proof (induction xs)
    case (Cons x xs)
    have "set (insertion_sort cmp xs) = set xs" by (metis m set_mset_mset)
    then show ?case using insert_cmp_sorted [OF that(1,3), of x "insertion_sort cmp xs"] Cons
      by (simp add: insertion_sort_def)
  qed (simp add: insertion_sort_def)
  then show ?thesis unfolding index_sort_law_def using m by blast
qed

theorem init_regs_v1_layout_witness:
  "\<exists>d p. xrp_init_regs_v1 (Some (0x90000000, 0x100000)) True True = (d, Ok p) \<and> pool_bytes p \<inter> {0x90000000..<0x90001000} = {}"
proof -
  obtain d p where dp: "xrp_init_regs_v1 (Some (0x90000000, 0x100000)) True True = (d, Ok p)"
    by (simp add: xrp_init_regs_v1_def xrp_init_private_pool_def)
  show ?thesis using init_regs_v1_layout [OF dp] dp by auto
qed

definition good_init :: init_env where
  "good_init = \<lparr>ie_alloc = True, ie_dma_page = False, ie_regs = Ok (), ie_map = Ok (), ie_base = True, ie_n_priorities = Ok 2,
     ie_priority_alloc = True, ie_priority_read = Ok (), ie_queue_alloc = True, ie_name = Ok (), ie_id = Ok (), ie_proc = True,
     ie_pm_enabled = True, ie_resume = Ok (), ie_misc = Ok ()\<rparr>"

theorem init_common_cleanup_witness:
  "snd (xrp_init_common good_init) = Probed \<and> lg_pool (fst (xrp_init_common good_init)) \<and>
   \<not> lg_id (fst (xrp_init_common (good_init\<lparr>ie_misc := Error ENOMEM\<rparr>)))"
proof -
  have "\<exists>lg. xrp_init_common good_init = (lg, Probed)"
    by (simp add: xrp_init_common_def init_queue_memory_def init_named_def init_finish_def good_init_def numeral_2_eq_2 Let_def)
  then obtain lg where lg: "xrp_init_common good_init = (lg, Probed)" by blast
  have "\<exists>lg. xrp_init_common (good_init\<lparr>ie_misc := Error ENOMEM\<rparr>) = (lg, Failed (Error ENOMEM))"
    by (simp add: xrp_init_common_def init_queue_memory_def init_named_def init_finish_def good_init_def numeral_2_eq_2 Let_def)
  then obtain lg2 where lg2: "xrp_init_common (good_init\<lparr>ie_misc := Error ENOMEM\<rparr>) = (lg2, Failed (Error ENOMEM))" by blast
  show ?thesis using init_common_cleanup [OF lg] init_common_cleanup [OF lg2] lg lg2 by simp
qed

theorem init_silent_failure_witness:
  "snd (xrp_init_common (good_init\<lparr>ie_queue_alloc := False\<rparr>)) = Failed (Ok ())"
  using init_silent_failure [of "good_init\<lparr>ie_queue_alloc := False\<rparr>"] by (simp add: good_init_def)

theorem priority_respected_witness:
  "\<exists>qs ordered q1 q2. init_queues insertion_sort 0 (Some [7, 3]) 0 = (qs, ordered) \<and> submit_queue 0 2 ordered = Ok q1 \<and>
     submit_queue 0x100 2 ordered = Ok q2 \<and> [7, 3 :: u32] ! q1 \<le> [7, 3] ! q2"
proof -
  obtain qs ordered where i: "init_queues insertion_sort 0 (Some [7, 3]) 0 = (qs, ordered)" by fastforce
  obtain q1 q2 where q: "submit_queue 0 2 ordered = Ok q1" "submit_queue 0x100 2 ordered = Ok q2"
    by (simp add: submit_queue_def Let_def)
  have l: "length [7, 3 :: u32] = 2" by simp
  show ?thesis using priority_respected [OF insertion_index_sort i, of 0 q1 "0x100" q2, unfolded l] q i by auto
qed

end
