(* ===== verification/Ring_Buffer.thy ===== *)
theory Ring_Buffer
  imports Panic_Log
begin

text \<open>
  The other end of the log: \<open>xrp_rb_write\<close> of \<open>xrp-common/xrp_rb_file.c\<close>, with which the DSP
  appends text to the ring that \<open>panic_check\<close> of the driver empties. One byte of the ring stays
  free, so that equal positions mean an empty ring.
\<close>

section \<open>Operations\<close>

text \<open>The bytes \<open>xrp_rb_write_some\<close> can store without going around the end, in 32 bits.\<close>

definition rb_space :: "panic_area \<Rightarrow> u32" where
  "rb_space a =
     (if pa_write a < pa_read a then pa_read a - 1 - pa_write a
      else if pa_read a \<noteq> 0 then pa_size a - pa_write a
      else pa_size a - 1 - pa_write a)"

definition xrp_rb_write_some :: "u8 list \<Rightarrow> panic_area \<Rightarrow> (panic_area \<times> nat) res" where
  "xrp_rb_write_some bs a =
     (let tail = (if length bs < unat (rb_space a) then length bs else unat (rb_space a));
          w = unat (pa_write a);
          write = pa_write a + of_nat tail in
      if length (pa_data a) < w + tail then Oops
      else Ok (a\<lparr>pa_data := take w (pa_data a) @ take tail bs @ drop (w + tail) (pa_data a),
                 pa_write := if write = pa_size a then 0 else write\<rparr>, tail))"

text \<open>\<open>xrp_rb_write\<close> repeats this until everything is stored or nothing more fits.\<close>

function xrp_rb_write :: "u8 list \<Rightarrow> panic_area \<Rightarrow> (panic_area \<times> nat) res" where
  "xrp_rb_write bs a =
     (if bs = [] then Ok (a, 0)
      else
        (case xrp_rb_write_some bs a of
           Inl e \<Rightarrow> Inl e
         | Inr (a1, n) \<Rightarrow>
             if n = 0 then Ok (a1, 0)
             else (case xrp_rb_write (drop n bs) a1 of Inl e \<Rightarrow> Inl e | Inr (a2, k) \<Rightarrow> Ok (a2, n + k))))"
  by pat_completeness auto
termination by (relation "measure (\<lambda>(bs, a). length bs)") auto

declare xrp_rb_write.simps [simp del]

section \<open>The ring as a queue\<close>

definition ring :: "nat \<Rightarrow> nat \<Rightarrow> u8 list \<Rightarrow> u8 list" where
  "ring r w d = (if r \<le> w then take (w - r) (drop r d) else drop r d @ take w d)"

lemma ring_content_ring:
  "ring_content a = ring (unat (pa_read a)) (unat (pa_write a)) (take (unat (pa_size a)) (pa_data a))"
  by (simp add: ring_content_def ring_def Let_def)

lemma length_ring:
  assumes "r < length d" "w < length d"
  shows "length (ring r w d) = (if r \<le> w then w - r else length d - r + w)"
  using assms by (simp add: ring_def)

definition nat_space :: "nat \<Rightarrow> nat \<Rightarrow> nat \<Rightarrow> nat" where
  "nat_space r w s = (if w < r then r - 1 - w else if r \<noteq> 0 then s - w else s - 1 - w)"

lemma ring_put:
  assumes "r < length d" "w < length d" "n \<le> nat_space r w (length d)" "n \<le> length bs"
  shows "ring r (if w + n = length d then 0 else w + n) (take w d @ take n bs @ drop (w + n) d) =
    ring r w d @ take n bs"
proof -
  consider (below) "w < r" "w + n < r" | (above) "r \<le> w" "w + n < length d" | (round) "r \<le> w" "0 < r" "w + n = length d"
    using assms by (fastforce simp: nat_space_def split: if_splits)
  then show ?thesis
    by cases (use assms in \<open>auto simp: ring_def drop_take\<close>)
qed

text \<open>What one piece does to a sound ring, and when it stores nothing.\<close>

definition ring_full :: "panic_area \<Rightarrow> bool" where
  "ring_full a = (length (ring_content a) = unat (pa_size a) - 1)"

lemma ring_content_bound: "ring_ok a \<Longrightarrow> length (ring_content a) \<le> unat (pa_size a) - 1"
  by (auto simp: ring_ok_def ring_content_ring length_ring word_less_nat_alt)

lemma unat_rb_space:
  assumes "ring_ok a"
  shows "unat (rb_space a) = nat_space (unat (pa_read a)) (unat (pa_write a)) (unat (pa_size a))"
proof -
  let ?r = "pa_read a" and ?w = "pa_write a" and ?s = "pa_size a"
  have lt: "?w < ?s" "?r < ?s" using assms by (auto simp: ring_ok_def)
  then have one: "unat (?s - 1) = unat ?s - 1" by (intro unat_minus_one) auto
  consider (below) "?w < ?r" | (wrap) "\<not> ?w < ?r" "?r \<noteq> 0" | (zero) "\<not> ?w < ?r" "?r = 0" by blast
  then show ?thesis
  proof cases
    case below
    then have r1: "unat (?r - 1) = unat ?r - 1" by (intro unat_minus_one) auto
    have "?w \<le> ?r - 1" using below r1 by (simp add: word_le_nat_alt word_less_nat_alt)
    then show ?thesis using below r1 by (simp add: rb_space_def nat_space_def unat_sub word_less_nat_alt)
  next
    case wrap
    then show ?thesis using lt by (simp add: rb_space_def nat_space_def unat_sub less_imp_le word_less_nat_alt unat_eq_0)
  next
    case zero
    have "?w \<le> ?s - 1" using lt one by (simp add: word_le_nat_alt word_less_nat_alt)
    then show ?thesis using zero one by (simp add: rb_space_def nat_space_def unat_sub)
  qed
qed

lemma write_some_ok:
  assumes "ring_ok a"
  obtains a1 n where "xrp_rb_write_some bs a = Ok (a1, n)" "ring_ok a1" "n \<le> length bs"
    "ring_content a1 = ring_content a @ take n bs" "a1 = a\<lparr>pa_data := pa_data a1, pa_write := pa_write a1\<rparr>"
    "n = 0 \<Longrightarrow> bs = [] \<or> ring_full a"
proof -
  let ?r = "unat (pa_read a)" and ?w = "unat (pa_write a)" and ?s = "unat (pa_size a)"
  define n where "n = (if length bs < unat (rb_space a) then length bs else unat (rb_space a))"
  define d where "d = take ?s (pa_data a)"
  have lt: "?r < ?s" "?w < ?s" "?s < 4096" "?s \<le> length (pa_data a)"
    using assms by (auto simp: ring_ok_def word_less_nat_alt)
  have dl: "length d = ?s" using lt by (simp add: d_def)
  have nsp: "n \<le> nat_space ?r ?w ?s" and nb: "n \<le> length bs"
    by (simp_all add: n_def unat_rb_space [OF assms] split: if_splits)
  have wn: "?w + n \<le> ?s" using nsp lt by (auto simp: nat_space_def split: if_splits)
  then have un: "unat (pa_write a + of_nat n) = ?w + n"
    using lt by (simp add: unat_word_ariths unat_of_nat)
  have wr: "unat (if pa_write a + of_nat n = pa_size a then 0 else pa_write a + of_nat n) = (if ?w + n = ?s then 0 else ?w + n)"
    using un by (auto simp: word_unat_eq_iff)
  let ?a1 = "a\<lparr>pa_data := take ?w (pa_data a) @ take n bs @ drop (?w + n) (pa_data a),
                 pa_write := if pa_write a + of_nat n = pa_size a then 0 else pa_write a + of_nat n\<rparr>"
  have "xrp_rb_write_some bs a = Ok (?a1, n)"
    using wn lt by (simp add: xrp_rb_write_some_def Let_def n_def [symmetric])
  moreover have "ring_ok ?a1"
    using lt wr wn nb by (auto simp: ring_ok_def word_less_nat_alt)
  moreover have "ring_content ?a1 = ring_content a @ take n bs"
  proof -
    have "take ?s (take ?w (pa_data a) @ take n bs @ drop (?w + n) (pa_data a)) = take ?w d @ take n bs @ drop (?w + n) d"
    proof -
      have m: "min ?s ?w = ?w" "min (?s - ?w) n = n" "min (length (pa_data a)) ?w = ?w" "min (length bs) n = n"
        using lt nb wn by simp_all
      show ?thesis using m wn by (simp add: d_def drop_take diff_diff_eq)
    qed
    then show ?thesis
      using ring_put [of ?r d ?w n bs] nsp nb lt wr by (simp add: ring_content_ring dl d_def [symmetric])
  qed
  moreover have "bs = [] \<or> ring_full a" if "n = 0"
  proof -
    have "bs = [] \<or> nat_space ?r ?w ?s = 0"
      using that by (auto simp: n_def unat_rb_space [OF assms] split: if_splits)
    then show ?thesis
      using lt by (auto simp: ring_full_def ring_content_ring length_ring nat_space_def split: if_splits)
  qed
  ultimately show thesis using nb by (intro that [of ?a1 n]) simp_all
qed

lemma rb_write_ok:
  assumes "ring_ok a"
  shows "\<exists>a1. xrp_rb_write bs a = Ok (a1, min (length bs) (unat (pa_size a) - 1 - length (ring_content a))) \<and>
    ring_ok a1 \<and> a1 = a\<lparr>pa_data := pa_data a1, pa_write := pa_write a1\<rparr> \<and>
    ring_content a1 = ring_content a @ take (unat (pa_size a) - 1 - length (ring_content a)) bs"
  using assms
proof (induction bs a rule: xrp_rb_write.induct)
  case (1 bs a)
  obtain a1 n where w: "xrp_rb_write_some bs a = Ok (a1, n)" "ring_ok a1" "n \<le> length bs"
      "ring_content a1 = ring_content a @ take n bs" "a1 = a\<lparr>pa_data := pa_data a1, pa_write := pa_write a1\<rparr>"
    and full: "n = 0 \<Longrightarrow> bs = [] \<or> ring_full a"
    using write_some_ok [OF "1.prems", of bs] by blast
  have sz: "pa_size a1 = pa_size a" by (subst w(5)) simp
  have len: "length (ring_content a) + n \<le> unat (pa_size a) - 1"
    using ring_content_bound [OF w(2)] w(3,4) sz by simp
  show ?case
  proof (cases "bs = [] \<or> n = 0")
    case True
    show ?thesis
    proof (cases "bs = []")
      case True
      then show ?thesis using "1.prems" by (subst xrp_rb_write.simps) simp
    next
      case False
      with True full have "n = 0" "ring_full a" by auto
      then show ?thesis
        using w False by (intro exI [of _ a1]) (subst xrp_rb_write.simps, simp add: ring_full_def)
    qed
  next
    case False
    from "1.IH" [OF _ w(1) refl _ w(2)] False obtain a2 where
      a2: "xrp_rb_write (drop n bs) a1 = Ok (a2, min (length (drop n bs)) (unat (pa_size a1) - 1 - length (ring_content a1)))"
        "ring_ok a2" "a2 = a1\<lparr>pa_data := pa_data a2, pa_write := pa_write a2\<rparr>"
        "ring_content a2 = ring_content a1 @ take (unat (pa_size a1) - 1 - length (ring_content a1)) (drop n bs)"
      by auto
    have same: "a2 = a\<lparr>pa_data := pa_data a2, pa_write := pa_write a2\<rparr>"
      by (subst a2(3), subst w(5)) simp
    let ?k = "unat (pa_size a) - 1 - length (ring_content a)"
    have lr: "length (ring_content a1) = length (ring_content a) + n" using w(3,4) by simp
    have "take n bs @ take (?k - n) (drop n bs) = take ?k bs"
    proof -
      have "n + (?k - n) = ?k" using len by linarith
      then show ?thesis using take_add [of n "?k - n" bs] by (simp only:)
    qed
    moreover have "n + min (length bs - n) (?k - n) = min (length bs) ?k" using len w(3) by simp
    moreover have "xrp_rb_write bs a = Ok (a2, n + min (length bs - n) (?k - n))"
      using False w(1) a2(1) sz lr by (subst xrp_rb_write.simps) (simp add: diff_diff_eq)
    moreover have "ring_content a2 = ring_content a @ take n bs @ take (?k - n) (drop n bs)"
      using a2(4) w(4) sz lr by (simp only: diff_diff_eq append_assoc add.assoc)
    ultimately show ?thesis using same a2(2) by (intro exI [of _ a2] conjI) (simp_all only:)
  qed
qed

section \<open>Properties\<close>

text \<open>
  \<open>xrp_rb_write\<close> appends to the content of a sound ring as much of the text as fits, returns
  that length, leaves the read position to the other side, and never stores outside the ring: the
  content can reach the size of the ring less one byte.
\<close>

theorem rb_write_appends:
  assumes "ring_ok a"
  shows "\<exists>a1. xrp_rb_write bs a = Ok (a1, min (length bs) (unat (pa_size a) - 1 - length (ring_content a))) \<and>
    ring_ok a1 \<and> a1 = a\<lparr>pa_data := pa_data a1, pa_write := pa_write a1\<rparr> \<and>
    ring_content a1 = ring_content a @ take (unat (pa_size a) - 1 - length (ring_content a)) bs"
  by (rule rb_write_ok [OF assms])

text \<open>
  The two sides together: the DSP writes pieces of text, at any time the driver takes out what is
  there. \<open>log_run\<close> collects what was accepted and what was printed.
\<close>

datatype log_event = Dsp_Writes "u8 list" | Driver_Checks

fun log_run :: "log_event list \<Rightarrow> panic_log \<Rightarrow> (panic_log \<times> u8 list \<times> u8 list) option" where
  "log_run [] pl = Some (pl, [], [])"
| "log_run (Dsp_Writes bs # es) pl =
    (case pl_panic pl of
       None \<Rightarrow> None
     | Some a \<Rightarrow>
         (case xrp_rb_write bs a of
            Inl e \<Rightarrow> None
          | Inr (a1, n) \<Rightarrow>
              (case log_run es (pl\<lparr>pl_panic := Some a1\<rparr>) of
                 None \<Rightarrow> None
               | Some (pl1, acc, out) \<Rightarrow> Some (pl1, take n bs @ acc, out))))"
| "log_run (Driver_Checks # es) pl =
    (case panic_check True True True pl of
       Some (Inr (pl1, buf, dead)) \<Rightarrow>
         (case log_run es pl1 of None \<Rightarrow> None | Some (pl2, acc, out) \<Rightarrow> Some (pl2, acc, buf @ out))
     | _ \<Rightarrow> None)"

lemma log_run_ok:
  assumes "pl_panic pl = Some a" "ring_ok a" "pa_panic a \<noteq> PANIC_MAGIC" "pl_last_read pl = pa_read a"
  shows "\<exists>pl1 a1 acc out. log_run es pl = Some (pl1, acc, out) \<and> pl_panic pl1 = Some a1 \<and> ring_ok a1 \<and>
    ring_content a @ acc = out @ ring_content a1"
  using assms
proof (induction es arbitrary: pl a)
  case Nil
  then show ?case by simp
next
  case (Cons e es)
  show ?case
  proof (cases e)
    case (Dsp_Writes bs)
    obtain a1 n where w: "xrp_rb_write bs a = Ok (a1, n)" "ring_ok a1"
      "n = min (length bs) (unat (pa_size a) - 1 - length (ring_content a))"
      "a1 = a\<lparr>pa_data := pa_data a1, pa_write := pa_write a1\<rparr>"
      "ring_content a1 = ring_content a @ take (unat (pa_size a) - 1 - length (ring_content a)) bs"
      using rb_write_ok [OF Cons.prems(2), of bs] by blast
    have keep: "pa_panic a1 = pa_panic a" "pa_read a1 = pa_read a" by (subst w(4), simp)+
    have tk: "take n bs = take (unat (pa_size a) - 1 - length (ring_content a)) bs" by (simp add: w(3) min_def)
    obtain pl2 a2 acc out where r: "log_run es (pl\<lparr>pl_panic := Some a1\<rparr>) = Some (pl2, acc, out)"
      "pl_panic pl2 = Some a2" "ring_ok a2" "ring_content a1 @ acc = out @ ring_content a2"
      using Cons.IH [of "pl\<lparr>pl_panic := Some a1\<rparr>" a1] w(2) keep Cons.prems by auto
    then show ?thesis
      using Cons.prems(1) w(1) w(5) tk by (simp add: Dsp_Writes)
  next
    case Driver_Checks
    let ?a = "a\<lparr>pa_read := pa_write a\<rparr>" and ?pl = "\<lparr>pl_panic = Some (a\<lparr>pa_read := pa_write a\<rparr>), pl_last_read = pa_write a\<rparr>"
    have c: "panic_check True True True pl = Some (Ok (?pl, ring_content a, False))"
      using Cons.prems by (intro panic_check_log) auto
    have ok: "ring_ok ?a" using Cons.prems(2) by (simp add: ring_ok_def)
    have e: "ring_content ?a = []" by (simp add: ring_content_def)
    obtain pl2 a2 acc out where "log_run es ?pl = Some (pl2, acc, out)"
      "pl_panic pl2 = Some a2" "ring_ok a2" "ring_content ?a @ acc = out @ ring_content a2"
      using Cons.IH [of ?pl ?a] ok Cons.prems(3) by auto
    then show ?thesis using c e by (simp add: Driver_Checks)
  qed
qed

text \<open>
  C27: From the start of the log, however the writes of the DSP and the checks of the driver follow
  each other, what was printed followed by what is still in the ring is exactly the accepted text:
  no byte is lost, doubled or reordered, and neither side leaves the ring.
\<close>

theorem log_stream:
  assumes "xrp_panic_init a sz = (a1, Ok True)" "length (pa_data a) = unat sz - SIZEOF_PANIC"
    "unat sz < 4096" "SIZEOF_PANIC < unat sz"
  shows "\<exists>pl1 a2 acc out. log_run es \<lparr>pl_panic = Some a1, pl_last_read = 0\<rparr> = Some (pl1, acc, out) \<and>
    pl_panic pl1 = Some a2 \<and> ring_ok a2 \<and> acc = out @ ring_content a2"
proof -
  have r: "ring_ok a1" "ring_content a1 = []" "pa_panic a1 = 0" "pa_read a1 = 0"
    using xrp_panic_init_ring [OF assms] assms(1) by (auto simp: xrp_panic_init_def Let_def split: if_splits)
  show ?thesis
    using log_run_ok [of "\<lparr>pl_panic = Some a1, pl_last_read = 0\<rparr>" a1 es] r by simp
qed

section \<open>Examples\<close>

theorem rb_write_appends_witness:
  "xrp_rb_write [1, 2, 3, 4, 5] demo_area =
     Ok (demo_area\<lparr>pa_data := [65, 66, 1, 2, 3, 70, 71, 72], pa_write := 5\<rparr>, 3) \<and> ring_ok demo_area \<and>
   (\<exists>a1. xrp_rb_write [1, 2, 3, 4, 5] demo_area = Ok (a1, 3) \<and> ring_content a1 = [71, 72, 65, 66, 1, 2, 3])"
proof -
  have r: "ring_ok demo_area" "ring_content demo_area = [71, 72, 65, 66]" "unat (pa_size demo_area) = 8"
    by (simp_all add: ring_ok_def ring_content_def demo_area_def)
  have "xrp_rb_write [1, 2, 3, 4, 5] demo_area =
     Ok (demo_area\<lparr>pa_data := [65, 66, 1, 2, 3, 70, 71, 72], pa_write := 5\<rparr>, 3)"
    by (simp add: xrp_rb_write.simps xrp_rb_write_some_def rb_space_def demo_area_def)
  then show ?thesis using r rb_write_appends [OF r(1), of "[1, 2, 3, 4, 5]"] by auto
qed

definition fresh_area :: panic_area where
  "fresh_area = \<lparr>pa_panic = 7, pa_ccount = 7, pa_read = 7, pa_write = 7, pa_size = 7, pa_data = replicate 20 7\<rparr>"

theorem log_stream_witness:
  "\<exists>a1 pl1 a2 acc out. xrp_panic_init fresh_area 52 = (a1, Ok True) \<and>
     log_run [Dsp_Writes [1, 2, 3], Driver_Checks, Dsp_Writes [4, 5]] \<lparr>pl_panic = Some a1, pl_last_read = 0\<rparr> = Some (pl1, acc, out) \<and>
     pl_panic pl1 = Some a2 \<and> acc = out @ ring_content a2"
proof -
  obtain a1 where a1: "xrp_panic_init fresh_area 52 = (a1, Ok True)"
    by (simp add: xrp_panic_init_def fresh_area_def init_text_def)
  have "length (pa_data fresh_area) = unat (52 :: u64) - SIZEOF_PANIC" by (simp add: fresh_area_def)
  from log_stream [OF a1 this, of "[Dsp_Writes [1, 2, 3], Driver_Checks, Dsp_Writes [4, 5]]"] a1
  show ?thesis by auto
qed

end
