(* ===== verification/Host_Report.thy ===== *)
theory Host_Report
  imports Report
begin

unbundle bit_operations_syntax

text \<open>
  Reports on the user side: the list of callbacks of \<open>xrp-host/xrp_report.c\<close> and the operations
  on a reporter of \<open>xrp-host/hosted/xrp_linux.c\<close>. When the driver signals a report, the handler
  looks up the id the driver stored, copies the data into the buffer of the item and calls it.
\<close>

section \<open>The list of callbacks\<close>

text \<open>
  \<open>ri_id\<close> and \<open>ri_size\<close> are C \<open>int\<close>s, read as signed where the code compares them; \<open>ri_fn\<close> names
  the function. \<open>rl_nodes\<close> counts the list nodes that were allocated and not freed.
\<close>

record report_item =
  ri_id :: u32
  ri_buf :: "u8 list option"
  ri_size :: u32
  ri_fn :: "nat option"
  ri_context :: u64

record report_list =
  rl_items :: "report_item list"
  rl_nodes :: nat

type_synonym report_call = "nat \<times> u64 \<times> u8 list"

fun xrp_get_report_entry :: "report_item list \<Rightarrow> u32 \<Rightarrow> report_item option" where
  "xrp_get_report_entry [] i = None"
| "xrp_get_report_entry (it # its) i = (if ri_id it = i then Some it else xrp_get_report_entry its i)"

text \<open>The store through the pointer that the search returned.\<close>

fun set_report_buf :: "u32 \<Rightarrow> u8 list \<Rightarrow> report_item list \<Rightarrow> report_item list" where
  "set_report_buf i b [] = []"
| "set_report_buf i b (it # its) =
    (if ri_id it = i then it\<lparr>ri_buf := Some b\<rparr> # its else it # set_report_buf i b its)"

text \<open>
  \<open>data\<close> are the bytes that are mapped behind the id in the report buffer. The negative sizes
  become huge when \<open>memcpy\<close> takes them.
\<close>

definition xrp_process_report :: "u8 list \<Rightarrow> u32 \<Rightarrow> report_list \<Rightarrow> (report_list \<times> report_call option) res" where
  "xrp_process_report data i l =
     (case xrp_get_report_entry (rl_items l) i of
        None \<Rightarrow> Ok (l, None)
      | Some it \<Rightarrow>
          (case (ri_fn it, ri_buf it) of
             (None, _) \<Rightarrow> Ok (l, None)
           | (Some f, None) \<Rightarrow> if ri_size it \<noteq> 0 then Ok (l, None) else Ok (l, Some (f, ri_context it, []))
           | (Some f, Some b) \<Rightarrow>
               let n = unat (scast (ri_size it) :: u64) in
               if length data < n \<or> length b < n then Oops
               else let b1 = take n data @ drop n b in
                 Ok (l\<lparr>rl_items := set_report_buf i b1 (rl_items l)\<rparr>, Some (f, ri_context it, b1))))"

fun add_report_loop :: "report_item \<Rightarrow> report_item list \<Rightarrow> report_item list option" where
  "add_report_loop new [] = Some [new]"
| "add_report_loop new (it # its) =
    (if ri_id it = ri_id new then None else map_option ((#) it) (add_report_loop new its))"

definition xrp_add_report :: "bool \<Rightarrow> report_item \<Rightarrow> report_list \<Rightarrow> report_list \<times> u32" where
  "xrp_add_report malloc_ok item l =
     (if \<not> malloc_ok then (l, -1)
      else
        let l1 = l\<lparr>rl_nodes := rl_nodes l + 1\<rparr> in
        if rl_items l = [] then (l1\<lparr>rl_items := [item]\<rparr>, 0)
        else (case add_report_loop item (rl_items l) of
                None \<Rightarrow> (l1, -1)
              | Some its \<Rightarrow> (l1\<lparr>rl_items := its\<rparr>, 0)))"

fun remove_report_loop :: "u32 \<Rightarrow> report_item list \<Rightarrow> report_item list option" where
  "remove_report_loop i [] = None"
| "remove_report_loop i (it # its) =
    (if ri_id it = i then Some its else map_option ((#) it) (remove_report_loop i its))"

definition xrp_remove_report :: "u32 \<Rightarrow> report_list \<Rightarrow> report_list \<times> u32" where
  "xrp_remove_report i l =
     (case remove_report_loop i (rl_items l) of
        None \<Rightarrow> (l, -1)
      | Some its \<Rightarrow> (\<lparr>rl_items = its, rl_nodes = rl_nodes l - 1\<rparr>, 0))"

text \<open>
  \<open>xrp_alloc_report_id\<close> with the value of \<open>rand()\<close>: the scan leaves its loop at the first item
  that has the id, and the id is returned then as well; the count of retries never passes 1.
\<close>

definition xrp_alloc_report_id :: "u32 \<Rightarrow> report_list \<Rightarrow> u32" where
  "xrp_alloc_report_id rand_value l =
     (let new_id = rand_value AND 0x7fffffff;
          retry = (case xrp_get_report_entry (rl_items l) new_id of None \<Rightarrow> (0 :: nat) | Some _ \<Rightarrow> 1) in
      if 10 < retry then -1 else new_id)"

section \<open>A reporter\<close>

text \<open>
  \<open>struct xrp_report\<close>: \<open>hr_buf\<close> is the mapped report buffer, id first, and \<open>hr_data_bufs\<close> counts
  the live buffers of items. \<open>malloc\<close> gives a buffer of indeterminate bytes or fails.
\<close>

record host_report =
  hr_list :: report_list
  hr_buf :: "(u32 \<times> u8 list) option"
  hr_buf_size :: u32
  hr_data_bufs :: nat

type_synonym malloc_fn = "nat \<Rightarrow> u8 list option"

definition xrp_add_report_item_with_id ::
  "malloc_fn \<Rightarrow> bool \<Rightarrow> nat option \<Rightarrow> u32 \<Rightarrow> u64 \<Rightarrow> u64 \<Rightarrow> host_report \<Rightarrow> host_report \<times> u32" where
  "xrp_add_report_item_with_id malloc node_ok cb report_id ctx data_size r =
     (if report_id <s 0 then (r, -1)
      else if scast (hr_buf_size r) < data_size then (r, -1)
      else
        (case malloc (unat data_size) of
           None \<Rightarrow> (r, -1)
         | Some b \<Rightarrow>
             (case xrp_add_report node_ok
                 \<lparr>ri_id = report_id, ri_buf = Some b, ri_size = ucast data_size, ri_fn = cb, ri_context = ctx\<rparr> (hr_list r) of
                (l, ret) \<Rightarrow>
                  if ret \<noteq> 0 then (r\<lparr>hr_list := l\<rparr>, -1)
                  else (r\<lparr>hr_list := l, hr_data_bufs := hr_data_bufs r + 1\<rparr>, report_id))))"

definition xrp_add_report_item ::
  "malloc_fn \<Rightarrow> bool \<Rightarrow> u32 \<Rightarrow> nat option \<Rightarrow> u64 \<Rightarrow> u64 \<Rightarrow> host_report \<Rightarrow> host_report \<times> u32" where
  "xrp_add_report_item malloc node_ok rand_value cb ctx data_size r =
     (let i = xrp_alloc_report_id rand_value (hr_list r) in
      if i <s 0 then (r, -1) else xrp_add_report_item_with_id malloc node_ok cb i ctx data_size r)"

text \<open>The result of the search is not tested before the buffer is freed through it.\<close>

definition xrp_remove_report_item :: "u32 \<Rightarrow> host_report \<Rightarrow> host_report res" where
  "xrp_remove_report_item i r =
     (case xrp_get_report_entry (rl_items (hr_list r)) i of
        None \<Rightarrow> Oops
      | Some it \<Rightarrow>
          Ok (r\<lparr>hr_data_bufs := (if ri_buf it = None then hr_data_bufs r else hr_data_bufs r - 1),
                hr_list := fst (xrp_remove_report i (hr_list r))\<rparr>))"

text \<open>The handler of \<open>SIGIO\<close>; there is one reporter for the process.\<close>

definition xrp_reporter_sig_handler :: "host_report option \<Rightarrow> (host_report option \<times> report_call option) res" where
  "xrp_reporter_sig_handler rep =
     (case rep of
        None \<Rightarrow> Ok (rep, None)
      | Some r \<Rightarrow>
          (case hr_buf r of
             None \<Rightarrow> Ok (rep, None)
           | Some (i, data) \<Rightarrow>
               (case xrp_process_report data i (hr_list r) of
                  Inl e \<Rightarrow> Inl e
                | Inr (l, c) \<Rightarrow> Ok (Some (r\<lparr>hr_list := l\<rparr>), c))))"

section \<open>The list as a registry\<close>

text \<open>
  What the user registered: for every id the function, its context and the size of its data. The
  list keeps each id once, and every item has a buffer of its size, which the reporter's buffer
  can fill.
\<close>

type_synonym callbacks = "u32 \<rightharpoonup> nat option \<times> u64 \<times> u32"

definition registry :: "host_report \<Rightarrow> callbacks" where
  "registry r = (\<lambda>i. map_option (\<lambda>it. (ri_fn it, ri_context it, ri_size it)) (xrp_get_report_entry (rl_items (hr_list r)) i))"

definition report_wf :: "host_report \<Rightarrow> bool" where
  "report_wf r =
     (distinct (map ri_id (rl_items (hr_list r))) \<and> unat (hr_buf_size r) < 2 ^ 31 \<and>
      hr_data_bufs r = length (rl_items (hr_list r)) \<and> length (rl_items (hr_list r)) \<le> rl_nodes (hr_list r) \<and>
      (\<forall>it \<in> set (rl_items (hr_list r)). unat (ri_size it) \<le> unat (hr_buf_size r) \<and>
         (\<exists>b. ri_buf it = Some b \<and> length b = unat (ri_size it))))"

datatype report_event =
  Register bool "nat option" u32 u64 u64
| Unregister u32
| Signal u32 "u8 list"

fun report_step :: "malloc_fn \<Rightarrow> report_event \<Rightarrow> host_report \<Rightarrow> (host_report \<times> report_call option) res" where
  "report_step ma (Register node_ok cb i ctx sz) r =
    Ok (fst (xrp_add_report_item_with_id ma node_ok cb i ctx sz r), None)"
| "report_step ma (Unregister i) r =
    (case xrp_remove_report_item i r of Inl e \<Rightarrow> Inl e | Inr r1 \<Rightarrow> Ok (r1, None))"
| "report_step ma (Signal i data) r =
    (case xrp_reporter_sig_handler (Some (r\<lparr>hr_buf := Some (i, data)\<rparr>)) of
       Inr (Some r1, c) \<Rightarrow> Ok (r1, c)
     | Inr (None, c) \<Rightarrow> Oops
     | Inl e \<Rightarrow> Inl e)"

fun registry_step :: "malloc_fn \<Rightarrow> nat \<Rightarrow> report_event \<Rightarrow> callbacks \<Rightarrow> callbacks" where
  "registry_step ma n (Register node_ok cb i ctx sz) g =
    (if i <s 0 \<or> n < unat sz \<or> ma (unat sz) = None \<or> \<not> node_ok \<or> g i \<noteq> None then g
     else g(i \<mapsto> (cb, ctx, ucast sz)))"
| "registry_step ma n (Unregister i) g = g(i := None)"
| "registry_step ma n (Signal i data) g = g"

fun registry_call :: "report_event \<Rightarrow> callbacks \<Rightarrow> report_call option" where
  "registry_call (Signal i data) g =
    (case g i of Some (Some f, ctx, sz) \<Rightarrow> Some (f, ctx, take (unat sz) data) | _ \<Rightarrow> None)"
| "registry_call _ g = None"

text \<open>
  The two ways to a fault: an id is removed that is not registered (the null result of the search
  is dereferenced), and a report is signalled for an item that is larger than what is mapped
  behind the id.
\<close>

fun event_faults :: "report_event \<Rightarrow> callbacks \<Rightarrow> bool" where
  "event_faults (Register _ _ _ _ _) g = False"
| "event_faults (Unregister i) g = (g i = None)"
| "event_faults (Signal i data) g =
    (case g i of Some (Some f, ctx, sz) \<Rightarrow> length data < unat sz | _ \<Rightarrow> False)"

lemma get_report_entry_in:
  "xrp_get_report_entry its i = Some it \<Longrightarrow> it \<in> set its \<and> ri_id it = i"
  by (induction its) (auto split: if_splits)

lemma get_report_entry_None: "xrp_get_report_entry its i = None \<longleftrightarrow> i \<notin> ri_id ` set its"
  by (induction its) auto

lemma add_report_loop_eq:
  "add_report_loop new its = (if xrp_get_report_entry its (ri_id new) = None then Some (its @ [new]) else None)"
  by (induction its) auto

lemma get_report_entry_append:
  "xrp_get_report_entry (its @ [new]) i =
    (case xrp_get_report_entry its i of Some it \<Rightarrow> Some it | None \<Rightarrow> if ri_id new = i then Some new else None)"
  by (induction its) auto

lemma remove_report_loop_some:
  assumes "xrp_get_report_entry its i = Some it" "distinct (map ri_id its)"
  shows "\<exists>its1. remove_report_loop i its = Some its1 \<and> length its = Suc (length its1) \<and> set its1 \<subseteq> set its \<and>
    distinct (map ri_id its1) \<and>
    (\<forall>j. xrp_get_report_entry its1 j = (if j = i then None else xrp_get_report_entry its j))"
  using assms
proof (induction its)
  case (Cons a its)
  show ?case
  proof (cases "ri_id a = i")
    case True
    then show ?thesis using Cons.prems by (auto simp: get_report_entry_None)
  next
    case False
    then obtain its1 where "remove_report_loop i its = Some its1" "length its = Suc (length its1)" "set its1 \<subseteq> set its"
      "distinct (map ri_id its1)" "\<forall>j. xrp_get_report_entry its1 j = (if j = i then None else xrp_get_report_entry its j)"
      using Cons by auto
    then show ?thesis using False Cons.prems(2) by (auto intro!: exI [of _ "a # its1"])
  qed
qed simp

lemma set_report_buf_simps:
  "map ri_id (set_report_buf i b its) = map ri_id its"
  "length (set_report_buf i b its) = length its"
  "distinct (map ri_id its) \<Longrightarrow> xrp_get_report_entry (set_report_buf i b its) j =
     (if j = i then map_option (\<lambda>it. it\<lparr>ri_buf := Some b\<rparr>) (xrp_get_report_entry its i) else xrp_get_report_entry its j)"
  "it \<in> set (set_report_buf i b its) \<Longrightarrow> it \<in> set its \<or> (\<exists>it0. xrp_get_report_entry its i = Some it0 \<and> it = it0\<lparr>ri_buf := Some b\<rparr>)"
  by (induction its) (auto split: if_splits simp: get_report_entry_None)

lemma registry_iff: "registry r i = None \<longleftrightarrow> xrp_get_report_entry (rl_items (hr_list r)) i = None"
  by (simp add: registry_def)

lemma scast_small:
  assumes "unat (w :: u32) < 2 ^ 31"
  shows "unat (scast w :: u64) = unat w"
proof -
  have "nat (uint w) < 2 ^ 31" using assms by (simp only: unat_eq_nat_uint)
  then have "uint w < 2 ^ 31" by (simp only: nat_less_iff [OF uint_ge_0] of_nat_power of_nat_numeral)
  then have "take_bit 31 (uint w) = uint w" by (simp add: take_bit_int_eq_self_iff)
  moreover have "\<not> bit (uint w) 31"
    using \<open>take_bit 31 (uint w) = uint w\<close> bit_take_bit_iff [of 31 "uint w" 31] by simp
  ultimately have "sint w = uint w"
    by (simp add: sint_uint signed_take_bit_def)
  then have "(scast w :: u64) = ucast w" by (simp only: scast_eq ucast_eq)
  then show ?thesis by (simp add: unat_u32_u64)
qed

lemma register_ok:
  assumes "report_wf r" and law: "\<And>n b. ma n = Some b \<Longrightarrow> length b = n"
  shows "report_wf (fst (xrp_add_report_item_with_id ma node_ok cb i ctx sz r)) \<and>
    registry (fst (xrp_add_report_item_with_id ma node_ok cb i ctx sz r)) =
      registry_step ma (unat (hr_buf_size r)) (Register node_ok cb i ctx sz) (registry r) \<and>
    hr_buf_size (fst (xrp_add_report_item_with_id ma node_ok cb i ctx sz r)) = hr_buf_size r"
proof (cases "i <s 0 \<or> unat (hr_buf_size r) < unat sz \<or> ma (unat sz) = None \<or> \<not> node_ok \<or> registry r i \<noteq> None")
  case True
  have big: "scast (hr_buf_size r) < sz \<longleftrightarrow> unat (hr_buf_size r) < unat sz"
    using assms(1) scast_small [of "hr_buf_size r"] by (simp add: report_wf_def word_less_nat_alt)
  have dup: "rl_items (hr_list r) \<noteq> [] \<and> add_report_loop it (rl_items (hr_list r)) = None"
    if "registry r i \<noteq> None" "ri_id it = i" for it
    using that by (auto simp: registry_iff add_report_loop_eq)
  have step: "registry_step ma (unat (hr_buf_size r)) (Register node_ok cb i ctx sz) (registry r) = registry r"
    using True by auto
  show ?thesis
    unfolding step using True assms(1) dup
    by (auto simp: xrp_add_report_item_with_id_def xrp_add_report_def big Let_def report_wf_def registry_def split: option.splits)
next
  case False
  then obtain b where b: "ma (unat sz) = Some b" by auto
  have le: "unat sz \<le> unat (hr_buf_size r)" "unat (hr_buf_size r) < 2 ^ 31"
    using False assms(1) by (auto simp: report_wf_def)
  have us: "unat (ucast sz :: u32) = unat sz" using le by (simp add: unat_u64_u32)
  have big: "\<not> scast (hr_buf_size r) < sz"
    using le scast_small [of "hr_buf_size r"] by (simp add: word_less_nat_alt)
  have new: "xrp_get_report_entry (rl_items (hr_list r)) i = None" using False by (simp add: registry_iff)
  let ?it = "\<lparr>ri_id = i, ri_buf = Some b, ri_size = ucast sz, ri_fn = cb, ri_context = ctx\<rparr>"
  let ?r = "r\<lparr>hr_list := \<lparr>rl_items = rl_items (hr_list r) @ [?it], rl_nodes = rl_nodes (hr_list r) + 1\<rparr>,
    hr_data_bufs := hr_data_bufs r + 1\<rparr>"
  have eq: "xrp_add_report_item_with_id ma node_ok cb i ctx sz r = (?r, i)"
    using False big b new
    by (cases "rl_items (hr_list r) = []")
       (simp_all add: xrp_add_report_item_with_id_def xrp_add_report_def Let_def add_report_loop_eq)
  have "report_wf ?r"
    using assms(1) law [OF b] us le new by (auto simp: report_wf_def get_report_entry_None)
  moreover have "registry ?r = (registry r)(i \<mapsto> (cb, ctx, ucast sz))"
    using new by (auto simp: registry_def fun_eq_iff get_report_entry_append split: option.splits)
  ultimately show ?thesis unfolding eq using False b by simp
qed

lemma unregister_ok:
  assumes "report_wf r" "registry r i \<noteq> None"
  shows "\<exists>r1. xrp_remove_report_item i r = Ok r1 \<and> report_wf r1 \<and> registry r1 = (registry r)(i := None) \<and>
    hr_buf_size r1 = hr_buf_size r"
proof -
  obtain it where it: "xrp_get_report_entry (rl_items (hr_list r)) i = Some it"
    using assms(2) by (auto simp: registry_def)
  then obtain its1 where r: "remove_report_loop i (rl_items (hr_list r)) = Some its1"
    "length (rl_items (hr_list r)) = Suc (length its1)" "set its1 \<subseteq> set (rl_items (hr_list r))" "distinct (map ri_id its1)"
    "\<forall>j. xrp_get_report_entry its1 j = (if j = i then None else xrp_get_report_entry (rl_items (hr_list r)) j)"
    using remove_report_loop_some [of "rl_items (hr_list r)" i it] assms(1) by (auto simp: report_wf_def)
  have "ri_buf it \<noteq> None" using assms(1) get_report_entry_in [OF it] by (auto simp: report_wf_def)
  then show ?thesis
    using assms(1) it r by (auto simp: xrp_remove_report_item_def xrp_remove_report_def report_wf_def registry_def fun_eq_iff)
qed

lemma process_report_cases:
  assumes "report_wf r"
  shows "if event_faults (Signal i data) (registry r) then xrp_process_report data i (hr_list r) = Oops
    else \<exists>l. xrp_process_report data i (hr_list r) = Ok (l, registry_call (Signal i data) (registry r)) \<and>
      report_wf (r\<lparr>hr_list := l\<rparr>) \<and> registry (r\<lparr>hr_list := l\<rparr>) = registry r"
proof (cases "xrp_get_report_entry (rl_items (hr_list r)) i")
  case None
  then show ?thesis using assms by (simp add: xrp_process_report_def registry_def)
next
  case (Some it)
  then have "it \<in> set (rl_items (hr_list r))" by (simp add: get_report_entry_in)
  with assms(1) obtain b where b: "ri_buf it = Some b" "length b = unat (ri_size it)" "unat (ri_size it) \<le> unat (hr_buf_size r)"
    by (auto simp: report_wf_def)
  show ?thesis
  proof (cases "ri_fn it")
    case None
    then show ?thesis using assms Some by (simp add: xrp_process_report_def registry_def)
  next
    case (Some f)
    let ?n = "unat (ri_size it)" and ?its = "rl_items (hr_list r)"
    let ?its1 = "set_report_buf i (take ?n data) ?its"
    have n: "unat (scast (ri_size it) :: u64) = ?n"
      using assms(1) b by (intro scast_small) (simp add: report_wf_def)
    have d: "distinct (map ri_id ?its)" using assms(1) by (simp add: report_wf_def)
    have reg: "registry r i = Some (Some f, ri_context it, ri_size it)"
      using Some \<open>xrp_get_report_entry _ i = Some it\<close> by (simp add: registry_def)
    show ?thesis
    proof (cases "length data < ?n")
      case True
      then show ?thesis
        using reg Some \<open>xrp_get_report_entry _ i = Some it\<close> b n by (simp add: xrp_process_report_def Let_def)
    next
      case False
      then have "xrp_process_report data i (hr_list r) =
          Ok ((hr_list r)\<lparr>rl_items := ?its1\<rparr>, registry_call (Signal i data) (registry r))"
        using Some \<open>xrp_get_report_entry _ i = Some it\<close> b n reg
        by (simp add: xrp_process_report_def Let_def)
      moreover have "report_wf (r\<lparr>hr_list := (hr_list r)\<lparr>rl_items := ?its1\<rparr>\<rparr>)"
        using assms b False \<open>xrp_get_report_entry _ i = Some it\<close>
        by (auto simp: report_wf_def set_report_buf_simps dest!: set_report_buf_simps(4))
      moreover have "registry (r\<lparr>hr_list := (hr_list r)\<lparr>rl_items := ?its1\<rparr>\<rparr>) = registry r"
        using \<open>xrp_get_report_entry _ i = Some it\<close> by (auto simp: registry_def fun_eq_iff set_report_buf_simps(3) [OF d])
      ultimately show ?thesis using False reg by auto
    qed
  qed
qed

lemma process_report_ok:
  assumes "report_wf r" "unat (hr_buf_size r) \<le> length data"
  shows "\<exists>l. xrp_process_report data i (hr_list r) = Ok (l, registry_call (Signal i data) (registry r)) \<and>
    report_wf (r\<lparr>hr_list := l\<rparr>) \<and> registry (r\<lparr>hr_list := l\<rparr>) = registry r"
proof -
  have "unat sz \<le> unat (hr_buf_size r)" if "registry r i = Some (fn, ctx, sz)" for fn ctx sz
    using assms(1) that get_report_entry_in by (fastforce simp: report_wf_def registry_def)
  then have "\<not> event_faults (Signal i data) (registry r)"
    using assms(2) by (auto split: option.splits)
  then show ?thesis using process_report_cases [OF assms(1), of i data] by simp
qed

lemma report_step_cases:
  assumes "report_wf r" and law: "\<And>n b. ma n = Some b \<Longrightarrow> length b = n"
  shows "if event_faults e (registry r) then report_step ma e r = Oops
    else \<exists>r1. report_step ma e r = Ok (r1, registry_call e (registry r)) \<and> report_wf r1 \<and>
      registry r1 = registry_step ma (unat (hr_buf_size r)) e (registry r) \<and> hr_buf_size r1 = hr_buf_size r"
proof (cases e)
  case (Register node_ok cb i ctx sz)
  then show ?thesis using register_ok [OF assms(1) law, where ma = ma] by simp
next
  case (Unregister i)
  then show ?thesis
    using unregister_ok [OF assms(1), of i] by (auto simp: xrp_remove_report_item_def registry_iff)
next
  case (Signal i data)
  let ?r = "r\<lparr>hr_buf := Some (i, data)\<rparr>"
  have wf: "report_wf ?r" "registry ?r = registry r"
    using assms(1) by (simp_all add: report_wf_def registry_def)
  note pc = process_report_cases [OF wf(1), of i data, unfolded wf(2)]
  show ?thesis
  proof (cases "event_faults (Signal i data) (registry r)")
    case True
    then show ?thesis using pc by (simp add: Signal xrp_reporter_sig_handler_def del: event_faults.simps)
  next
    case False
    then obtain l where "xrp_process_report data i (hr_list r) = Ok (l, registry_call (Signal i data) (registry r))"
      "report_wf (?r\<lparr>hr_list := l\<rparr>)" "registry (?r\<lparr>hr_list := l\<rparr>) = registry r"
      using pc by (auto simp del: event_faults.simps)
    then show ?thesis
      using False by (auto simp: Signal xrp_reporter_sig_handler_def simp del: registry_call.simps event_faults.simps)
  qed
qed

fun report_run :: "malloc_fn \<Rightarrow> report_event list \<Rightarrow> host_report \<Rightarrow> (host_report \<times> report_call list) res" where
  "report_run ma [] r = Ok (r, [])"
| "report_run ma (e # es) r =
    (case report_step ma e r of
       Inl x \<Rightarrow> Inl x
     | Inr (r1, c) \<Rightarrow>
         (case report_run ma es r1 of
            Inl x \<Rightarrow> Inl x
          | Inr (r2, cs) \<Rightarrow> Ok (r2, (case c of None \<Rightarrow> cs | Some x \<Rightarrow> x # cs))))"

fun registry_run :: "malloc_fn \<Rightarrow> nat \<Rightarrow> report_event list \<Rightarrow> callbacks \<Rightarrow> (callbacks \<times> report_call list) option" where
  "registry_run ma n [] g = Some (g, [])"
| "registry_run ma n (e # es) g =
    (if event_faults e g then None
     else (case registry_run ma n es (registry_step ma n e g) of
             None \<Rightarrow> None
           | Some (g1, cs) \<Rightarrow> Some (g1, (case registry_call e g of None \<Rightarrow> cs | Some x \<Rightarrow> x # cs))))"

section \<open>Properties\<close>

text \<open>
  C25: The list of callbacks behaves as a map from ids, for any sequence of registrations, removals
  and signals, failing allocations included. The sequence runs without a fault exactly when the
  map says that none of its events has one: every removed id is registered at that time, and no
  report is signalled for an item larger than what is mapped behind the id. Then the calls that
  are made are those the map says: the function and context registered last under the id, with
  as many bytes of the report as were asked for. Otherwise the run ends in a fault.
\<close>

theorem report_registry_refines:
  assumes "report_wf r" and "\<And>n b. ma n = Some b \<Longrightarrow> length b = n"
  shows "case registry_run ma (unat (hr_buf_size r)) es (registry r) of
      None \<Rightarrow> report_run ma es r = Oops
    | Some (g, cs) \<Rightarrow> \<exists>r1. report_run ma es r = Ok (r1, cs) \<and> report_wf r1 \<and> registry r1 = g"
  using assms(1)
proof (induction es arbitrary: r)
  case Nil
  then show ?case by simp
next
  case (Cons e es)
  let ?n = "unat (hr_buf_size r)"
  note sc = report_step_cases [OF Cons.prems assms(2), where e = e and ma = ma]
  show ?case
  proof (cases "event_faults e (registry r)")
    case True
    then show ?thesis using sc by simp
  next
    case False
    then obtain r1 where r1: "report_step ma e r = Ok (r1, registry_call e (registry r))" "report_wf r1"
      "registry r1 = registry_step ma ?n e (registry r)" "hr_buf_size r1 = hr_buf_size r"
      using sc by auto
    show ?thesis
      using Cons.IH [OF r1(2)] r1 False by (auto split: option.splits)
  qed
qed

text \<open>
  C26: From the DSP to the callback: a report posted under a registered id of at most 16 bits goes
  through the driver's interrupt and tasklet into the report buffer, and the signal it sends makes
  the handler call the registered function with the data.
\<close>

theorem report_reaches_callback:
  assumes "rt_ptr s \<noteq> None" "reporter_of s = Some rp" "rp_fasync rp \<noteq> []" "rp_virt rp"
    "rt_mem s (rt_comm s + cmd_report_id) = ident OR REPORT_TO_HOST_FLAG" "ident \<le> 0xffff"
    "is_reporter h" "is_mem h = rt_mem s" "xrp_report_complete (rt_comm s) h = (h', scheduled)"
    and "report_wf r" "registry r ident = Some (Some f, ctx, sz)" "unat (hr_buf_size r) \<le> length data"
  shows "\<exists>s' r'. scheduled \<and> xrp_report_tasklet (s\<lparr>rt_mem := is_mem h'\<rparr>) = (s', Ok ()) \<and>
    rt_signals s' = rt_signals s @ rp_fasync rp \<and>
    xrp_reporter_sig_handler (Some (r\<lparr>hr_buf := Some (rt_word s', data)\<rparr>)) =
      Ok (r', Some (f, ctx, take (unat sz) data))"
proof -
  obtain s' where s': "scheduled" "xrp_report_tasklet (s\<lparr>rt_mem := is_mem h'\<rparr>) = (s', Ok ())"
    "rt_word s' = ident" "rt_signals s' = rt_signals s @ rp_fasync rp"
    using report_delivered [OF assms(1-9)] by blast
  have wf: "report_wf (r\<lparr>hr_buf := Some (ident, data)\<rparr>)" "registry (r\<lparr>hr_buf := Some (ident, data)\<rparr>) = registry r"
    using assms(10) by (simp_all add: report_wf_def registry_def)
  obtain l where "xrp_process_report data ident (hr_list r) = Ok (l, registry_call (Signal ident data) (registry r))"
    using process_report_ok [OF wf(1), of data ident] assms(12) wf(2) by auto
  then show ?thesis using s' assms(11) by (simp add: xrp_reporter_sig_handler_def)
qed

text \<open>
  No report ever reaches a callback registered under an id above \<open>0xffff\<close>: whatever the DSP
  posts, the driver stores 16 bits of it, and the handler calls what is registered under those.
\<close>

theorem wide_report_id_unreachable:
  assumes "reporter_of s = Some rp" "rp_fasync rp \<noteq> []" "xrp_report_tasklet s = (s', Ok ())"
    and "report_wf r" "unat (hr_buf_size r) \<le> length data"
  shows "\<exists>r'. xrp_reporter_sig_handler (Some (r\<lparr>hr_buf := Some (rt_word s', data)\<rparr>)) =
    Ok (r', registry_call (Signal (rt_word s') data) (registry r |` {i. i \<le> 0xffff}))"
proof -
  let ?w = "xrp_comm_read32 (rt_comm s + cmd_report_id) (rt_mem s) AND 0xffff"
  have w: "rt_word s' = ?w"
    using assms(1-3) by (auto simp: xrp_report_tasklet_def comm_put_def Let_def split: if_splits)
  have "?w \<le> 0xffff" by (rule word_and_le1)
  moreover have wf: "report_wf (r\<lparr>hr_buf := Some (?w, data)\<rparr>)" "registry (r\<lparr>hr_buf := Some (?w, data)\<rparr>) = registry r"
    using assms(4) by (simp_all add: report_wf_def registry_def)
  obtain l where "xrp_process_report data ?w (hr_list r) = Ok (l, registry_call (Signal ?w data) (registry r))"
    using process_report_ok [OF wf(1), of data ?w] assms(5) wf(2) by auto
  ultimately show ?thesis unfolding w by (simp add: xrp_reporter_sig_handler_def restrict_map_def)
qed

text \<open>
  The generated id is not checked against the list: if it is taken, the registration fails
  although other ids are free, and the list node that was allocated for it is lost.
\<close>

theorem taken_report_id_fails:
  assumes "report_wf r" "registry r (rv AND 0x7fffffff) \<noteq> None"
    and "unat sz \<le> unat (hr_buf_size r)" "ma (unat sz) = Some b"
  shows "xrp_add_report_item ma True rv cb ctx sz r =
    (r\<lparr>hr_list := (hr_list r)\<lparr>rl_nodes := rl_nodes (hr_list r) + 1\<rparr>\<rparr>, -1)"
proof -
  let ?i = "rv AND 0x7fffffff" and ?its = "rl_items (hr_list r)"
  have ne: "xrp_get_report_entry ?its ?i \<noteq> None" using assms(2) by (simp add: registry_iff)
  then have "?its \<noteq> []" by auto
  have "\<not> bit ?i 31"
  proof -
    have "(0x7fffffff :: u32) = mask 31" by (simp add: mask_eq_exp_minus_1)
    then have "bit (0x7fffffff :: u32) 31 = False" by (simp only: bit_mask_iff) simp
    then show ?thesis by (simp only: bit_and_iff) simp
  qed
  then have pos: "\<not> ?i <s 0"
    by (simp add: word_sless_alt sint_uint signed_take_bit_def bit_uint_iff)
  have big: "\<not> scast (hr_buf_size r) < sz"
    using assms(1,3) scast_small [of "hr_buf_size r"] by (simp add: report_wf_def word_less_nat_alt)
  obtain it where "xrp_get_report_entry ?its ?i = Some it" using ne by auto
  then show ?thesis
    using \<open>?its \<noteq> []\<close> pos big assms(4)
    by (simp add: xrp_add_report_item_def xrp_alloc_report_id_def xrp_add_report_item_with_id_def xrp_add_report_def
      Let_def add_report_loop_eq)
qed

text \<open>
  The driver allocates as many bytes as the user asks for and uses four of them for the id, but
  registrations are tested against the whole size: an item as large as a buffer that fills its
  pages is copied beyond them.
\<close>

lemma report_data_overrun:
  assumes "hr_buf r = Some (i, data)" "xrp_get_report_entry (rl_items (hr_list r)) i = Some it"
    "ri_fn it = Some f" "ri_buf it = Some b" "unat (ri_size it) < 2 ^ 31" "length data < unat (ri_size it)"
  shows "xrp_reporter_sig_handler (Some r) = Oops"
  using assms scast_small [OF assms(5)] by (simp add: xrp_reporter_sig_handler_def xrp_process_report_def Let_def)

section \<open>A concrete reporter\<close>

definition demo_report :: host_report where
  "demo_report = \<lparr>hr_list = \<lparr>rl_items = [\<lparr>ri_id = 5, ri_buf = Some [0, 0], ri_size = 2, ri_fn = Some 1, ri_context = 42\<rparr>],
     rl_nodes = 1\<rparr>, hr_buf = None, hr_buf_size = 16, hr_data_bufs = 1\<rparr>"

lemma demo_report_wf:
  "report_wf demo_report" "registry demo_report = [5 \<mapsto> (Some 1, 42, 2)]" "hr_buf_size demo_report = 16"
  by (simp_all add: report_wf_def demo_report_def registry_def fun_eq_iff)

definition zero_malloc :: malloc_fn where
  "zero_malloc n = Some (replicate n 0)"

theorem report_registry_refines_witness:
  "\<exists>r1. report_run zero_malloc
      [Register True (Some 2) 9 43 3, Signal 9 [1, 2, 3, 4, 5, 6, 7, 8, 1, 2, 3, 4, 5, 6, 7, 8], Unregister 5,
       Signal 5 (replicate 16 0)] demo_report = Ok (r1, [(2, 43, [1, 2, 3])]) \<and>
     report_wf r1 \<and> registry r1 = [9 \<mapsto> (Some 2, 43, 3)]"
proof -
  let ?es = "[Register True (Some 2) 9 43 3, Signal 9 [1, 2, 3, 4, 5, 6, 7, 8, 1, 2, 3, 4, 5, 6, 7, 8], Unregister 5,
       Signal 5 (replicate 16 0)]"
  have s: "\<not> (9 :: u32) <s 0" by (simp add: word_sless_alt)
  have law: "\<And>n b. zero_malloc n = Some b \<Longrightarrow> length b = n" by (auto simp: zero_malloc_def)
  have run: "registry_run zero_malloc (unat (hr_buf_size demo_report)) ?es (registry demo_report) =
      Some ([9 \<mapsto> (Some 2, 43, 3)], [(2, 43, [1, 2, 3])])"
    by (auto simp: demo_report_wf zero_malloc_def s)
  show ?thesis using report_registry_refines [where r = demo_report and ma = zero_malloc and es = ?es, OF demo_report_wf(1) law, unfolded run] by (simp only: option.case prod.case)
qed

theorem report_reaches_callback_witness:
  "\<exists>s s' r'. xrp_report_tasklet s = (s', Ok ()) \<and> rt_signals s' = [7] \<and>
     xrp_reporter_sig_handler (Some (demo_report\<lparr>hr_buf := Some (rt_word s', [8, 9] @ replicate 14 0)\<rparr>)) =
       Ok (r', Some (1, 42, [8, 9]))"
proof -
  let ?rp = "\<lparr>rp_fasync = [7], rp_phys = 0, rp_virt = True, rp_size = 16, rp_task = True\<rparr>"
  let ?s = "demo_device\<lparr>rt_ptr := Some 0, rt_heap := [0 \<mapsto> ?rp], rt_mem := (\<lambda>i. 0)(cmd_report_id := 0x10000005)\<rparr>"
  let ?h = "\<lparr>is_mem = (\<lambda>i. 0)(cmd_report_id := 0x10000005), is_comm = Some 0, is_queue_comm = [], is_reporter = True,
       is_report_scheduled = 0, is_completions = []\<rparr>"
  have c: "xrp_report_complete 0 ?h =
      (?h\<lparr>is_mem := (\<lambda>i. 0)(cmd_report_id := 5), is_report_scheduled := 1\<rparr>, True)"
    by (simp add: xrp_report_complete_def xrp_comm_read32_def xrp_comm_write32_def)
  have u: "unat (hr_buf_size demo_report) \<le> length ([8, 9] @ replicate 14 (0 :: u8))" by (simp add: demo_report_wf)
  show ?thesis
    using report_reaches_callback [where s = ?s and rp = ?rp and ident = 5 and h = ?h and r = demo_report and f = 1
        and ctx = 42 and sz = 2 and data = "[8, 9] @ replicate 14 0"
        and h' = "?h\<lparr>is_mem := (\<lambda>i. 0)(cmd_report_id := 5), is_report_scheduled := 1\<rparr>" and scheduled = True] c u
    by (auto simp: demo_device_def reporter_of_def demo_report_wf)
qed

theorem wide_report_id_unreachable_witness:
  "\<exists>s s' r'. xrp_report_tasklet s = (s', Ok ()) \<and> rt_mem s cmd_report_id = 0x20005 \<and>
     xrp_reporter_sig_handler (Some (demo_report\<lparr>hr_buf := Some (rt_word s', replicate 16 0)\<rparr>)) =
       Ok (r', registry_call (Signal (rt_word s') (replicate 16 0)) (registry demo_report |` {i. i \<le> 0xffff}))"
proof -
  let ?rp = "\<lparr>rp_fasync = [7], rp_phys = 0, rp_virt = True, rp_size = 16, rp_task = True\<rparr>"
  let ?s = "demo_device\<lparr>rt_ptr := Some 0, rt_heap := [0 \<mapsto> ?rp], rt_mem := (\<lambda>i. 0)(cmd_report_id := 0x20005)\<rparr>"
  have rp: "reporter_of ?s = Some ?rp" by (simp add: reporter_of_def)
  obtain s' where s': "xrp_report_tasklet ?s = (s', Ok ())" by (simp add: xrp_report_tasklet_def rp Let_def)
  have "\<exists>r'. xrp_reporter_sig_handler (Some (demo_report\<lparr>hr_buf := Some (rt_word s', replicate 16 0)\<rparr>)) =
       Ok (r', registry_call (Signal (rt_word s') (replicate 16 0)) (registry demo_report |` {i. i \<le> 0xffff}))"
    by (rule wide_report_id_unreachable [OF rp _ s' demo_report_wf(1)]) (simp_all add: demo_report_wf)
  moreover have "rt_mem ?s cmd_report_id = 0x20005" by simp
  ultimately show ?thesis using s' by blast
qed

theorem taken_report_id_fails_witness:
  "xrp_add_report_item zero_malloc True 0x80000005 (Some 2) 43 3 demo_report =
    (demo_report\<lparr>hr_list := (hr_list demo_report)\<lparr>rl_nodes := 2\<rparr>\<rparr>, -1) \<and> registry demo_report 5 \<noteq> None"
proof -
  have m: "zero_malloc (unat (3 :: u64)) = Some (replicate 3 0)" by (simp add: zero_malloc_def)
  have n: "rl_nodes (hr_list demo_report) + 1 = 2" by (simp add: demo_report_def)
  have k: "(0x80000005 :: u32) AND 0x7fffffff = 5" by simp
  have "xrp_add_report_item zero_malloc True 0x80000005 (Some 2) 43 3 demo_report =
      (demo_report\<lparr>hr_list := (hr_list demo_report)\<lparr>rl_nodes := rl_nodes (hr_list demo_report) + 1\<rparr>\<rparr>, -1)"
    by (rule taken_report_id_fails [where b = "replicate 3 0"]) (simp_all only: m k demo_report_wf, simp_all)
  then show ?thesis unfolding n by (simp add: demo_report_wf)
qed

end
