(* ===== verification/Host_Queue.thy ===== *)
theory Host_Queue
  imports Interfaces
begin

text \<open>
  The request queue of the user library, \<open>xrp-host/xrp_threaded_queue.c\<close>: clients push requests
  on a linked list, one worker thread takes them off in order and runs them, and the thread that
  drops the last reference destroys the queue, which may be the worker itself.
\<close>

section \<open>The list\<close>

text \<open>
  Items are addresses; \<open>rq_next\<close> is the field \<open>next\<close> of every item, \<open>None\<close> the null pointer.
\<close>

record request_queue =
  rq_head :: "nat option"
  rq_tail :: "nat option"
  rq_next :: "nat \<Rightarrow> nat option"
  rq_exit :: bool

definition xrp_dequeue_request :: "request_queue \<Rightarrow> request_queue \<times> nat option" where
  "xrp_dequeue_request q =
     (case rq_head q of
        None \<Rightarrow> (q, None)
      | Some rq \<Rightarrow>
          (let q1 = (if rq_tail q = Some rq then q\<lparr>rq_tail := None\<rparr> else q) in
           (q1\<lparr>rq_head := rq_next q1 rq\<rparr>, Some rq)))"

text \<open>\<open>xrp_queue_push\<close> says with the state whether it broadcast the condition.\<close>

definition xrp_queue_push :: "nat \<Rightarrow> request_queue \<Rightarrow> request_queue \<times> bool" where
  "xrp_queue_push rq q =
     (let q1 = q\<lparr>rq_next := (rq_next q)(rq := None)\<rparr> in
      case rq_tail q1 of
        Some t \<Rightarrow> (q1\<lparr>rq_next := (rq_next q1)(t \<mapsto> rq), rq_tail := Some rq\<rparr>, False)
      | None \<Rightarrow> (q1\<lparr>rq_head := Some rq, rq_tail := Some rq\<rparr>, True))"

text \<open>The addresses in the order of the list.\<close>

fun path :: "(nat \<Rightarrow> nat option) \<Rightarrow> nat option \<Rightarrow> nat list \<Rightarrow> bool" where
  "path nx p [] \<longleftrightarrow> p = None"
| "path nx p (x # xs) \<longleftrightarrow> p = Some x \<and> path nx (nx x) xs"

definition holds_items :: "request_queue \<Rightarrow> nat list \<Rightarrow> bool" where
  "holds_items q xs \<longleftrightarrow>
     path (rq_next q) (rq_head q) xs \<and> distinct xs \<and> rq_tail q = (if xs = [] then None else Some (last xs))"

lemma path_other: "i \<notin> set xs \<Longrightarrow> path (nx(i := v)) p xs = path nx p xs"
  by (induction xs arbitrary: p) auto

lemma path_append:
  "xs \<noteq> [] \<Longrightarrow> path nx p xs \<Longrightarrow> distinct xs \<Longrightarrow> i \<notin> set xs \<Longrightarrow>
    path ((nx(i := None))(last xs \<mapsto> i)) p (xs @ [i])"
proof (induction xs arbitrary: p)
  case (Cons x xs)
  show ?case
  proof (cases "xs = []")
    case True
    then show ?thesis using Cons.prems by auto
  next
    case False
    then have "last xs \<noteq> x" using Cons.prems(3) by (metis distinct.simps(2) last_in_set)
    then show ?thesis using Cons False by auto
  qed
qed simp

lemma push_holds:
  assumes "holds_items q xs" "i \<notin> set xs"
  shows "holds_items (fst (xrp_queue_push i q)) (xs @ [i]) \<and> (snd (xrp_queue_push i q) \<longleftrightarrow> xs = [])
    \<and> rq_exit (fst (xrp_queue_push i q)) = rq_exit q"
  using assms path_append [of xs "rq_next q" "rq_head q" i]
  by (auto simp: holds_items_def xrp_queue_push_def Let_def path_other)

lemma dequeue_holds:
  assumes "holds_items q xs"
  shows "(case xs of [] \<Rightarrow> xrp_dequeue_request q = (q, None)
    | x # ys \<Rightarrow> snd (xrp_dequeue_request q) = Some x \<and> holds_items (fst (xrp_dequeue_request q)) ys \<and>
        rq_exit (fst (xrp_dequeue_request q)) = rq_exit q)"
  using assms by (cases xs) (auto simp: holds_items_def xrp_dequeue_request_def Let_def split: if_splits)

section \<open>The threads\<close>

text \<open>
  The worker calls \<open>xrp_queue_process\<close> again and again: \<open>Entered\<close> is before the lock is taken
  (first or again after the condition), \<open>Asleep\<close> in \<open>xrp_cond_wait\<close>, \<open>Running\<close> in the call of
  \<open>queue->fn\<close>. The list operations are made under the lock, so each is one step. \<open>wq_stop\<close> is the
  variable \<open>exit\<close> on the worker's stack, to which \<open>sync_exit\<close> points once \<open>wq_sync\<close> holds. The last
  two fields record what was pushed and what was run; \<open>wq_bad\<close> that the queue was used after it
  was destroyed, or \<open>sync_exit\<close> before it was set.
\<close>

datatype worker = Start | Entered | Asleep | Running nat | Returned

datatype phase = Alive | Joining | Destroyed

record wq_state =
  wq_queue :: request_queue
  wq_worker :: worker
  wq_stop :: bool
  wq_sync :: bool
  wq_phase :: phase
  wq_bad :: bool
  wq_pushed :: "nat list"
  wq_done :: "nat list"

definition xrp_queue_init :: wq_state where
  "xrp_queue_init = \<lparr>wq_queue = \<lparr>rq_head = None, rq_tail = None, rq_next = (\<lambda>i. None), rq_exit = False\<rparr>,
     wq_worker = Start, wq_stop = False, wq_sync = False, wq_phase = Alive, wq_bad = False, wq_pushed = [], wq_done = []\<rparr>"

text \<open>One step of \<open>xrp_queue_process\<close>; the steps that use the queue note when it is gone.\<close>

definition worker_step :: "wq_state \<Rightarrow> wq_state option" where
  "worker_step s =
     (let bad = (wq_bad s \<or> wq_phase s = Destroyed) in
      case wq_worker s of
        Start \<Rightarrow> Some (s\<lparr>wq_worker := Entered, wq_stop := False, wq_sync := True, wq_bad := bad\<rparr>)
      | Entered \<Rightarrow>
          (case xrp_dequeue_request (wq_queue s) of
             (q, Some rq) \<Rightarrow> Some (s\<lparr>wq_queue := q, wq_worker := Running rq, wq_bad := bad\<rparr>)
           | (q, None) \<Rightarrow>
               Some (s\<lparr>wq_queue := q, wq_worker := (if rq_exit q then Returned else Asleep), wq_bad := bad\<rparr>))
      | Asleep \<Rightarrow> None
      | Running rq \<Rightarrow>
          Some (s\<lparr>wq_worker := (if wq_stop s then Returned else Start), wq_done := wq_done s @ [rq]\<rparr>)
      | Returned \<Rightarrow> None)"

text \<open>
  \<open>xrp_queue_destroy\<close> before the join; the broadcast wakes the worker.
\<close>

definition wake :: "wq_state \<Rightarrow> wq_state" where
  "wake s = (if wq_worker s = Asleep then s\<lparr>wq_worker := Entered\<rparr> else s)"

definition request_exit :: "wq_state \<Rightarrow> wq_state" where
  "request_exit s = wake (s\<lparr>wq_queue := (wq_queue s)\<lparr>rq_exit := True\<rparr>\<rparr>)"

text \<open>
  The steps of the others. An address is pushed only when no request at it is unfinished.
  \<open>Destroy\<close> and \<open>Join\<close> are \<open>xrp_queue_destroy\<close> in another thread; in the worker itself, called
  from \<open>fn\<close>, the join fails, and the worker is told through \<open>sync_exit\<close>.
\<close>

datatype action = Worker | Push nat | Destroy | Join | Destroy_Self | Spurious

fun wq_exec :: "action \<Rightarrow> wq_state \<Rightarrow> wq_state option" where
  "wq_exec Worker s = worker_step s"
| "wq_exec (Push i) s =
    (if wq_phase s \<noteq> Alive \<or> i \<in> set (drop (length (wq_done s)) (wq_pushed s)) then None
     else (case xrp_queue_push i (wq_queue s) of
             (q, broadcast) \<Rightarrow>
               let s1 = s\<lparr>wq_queue := q, wq_pushed := wq_pushed s @ [i]\<rparr> in
               Some (if broadcast then wake s1 else s1)))"
| "wq_exec Destroy s =
    (if wq_phase s \<noteq> Alive then None else Some ((request_exit s)\<lparr>wq_phase := Joining\<rparr>))"
| "wq_exec Join s =
    (if wq_phase s = Joining \<and> wq_worker s = Returned then Some (s\<lparr>wq_phase := Destroyed\<rparr>) else None)"
| "wq_exec Destroy_Self s =
    (case wq_worker s of
       Running rq \<Rightarrow>
         if wq_phase s \<noteq> Alive then None
         else Some ((request_exit s)\<lparr>wq_stop := True, wq_bad := wq_bad s \<or> \<not> wq_sync s, wq_phase := Destroyed\<rparr>)
     | _ \<Rightarrow> None)"
| "wq_exec Spurious s = (if wq_worker s = Asleep then Some (wake s) else None)"

definition wq_rel :: "wq_state \<Rightarrow> wq_state \<Rightarrow> bool" where
  "wq_rel s t \<longleftrightarrow> (\<exists>a. wq_exec a s = Some t)"

fun in_hand :: "worker \<Rightarrow> nat list" where
  "in_hand (Running i) = [i]"
| "in_hand _ = []"

definition wq_inv :: "wq_state \<Rightarrow> bool" where
  "wq_inv s \<longleftrightarrow>
     (\<exists>xs. holds_items (wq_queue s) xs \<and> wq_pushed s = wq_done s @ in_hand (wq_worker s) @ xs \<and>
        (wq_worker s = Asleep \<longrightarrow> xs = []) \<and> (wq_worker s = Returned \<and> \<not> wq_stop s \<longrightarrow> xs = [])) \<and>
     \<not> wq_bad s \<and>
     (wq_worker s = Asleep \<longrightarrow> wq_phase s = Alive) \<and>
     (wq_worker s \<noteq> Start \<longrightarrow> wq_sync s) \<and>
     (rq_exit (wq_queue s) \<longleftrightarrow> wq_phase s \<noteq> Alive) \<and>
     (wq_stop s \<longrightarrow> wq_phase s = Destroyed) \<and>
     (wq_worker s = Returned \<longrightarrow> wq_phase s \<noteq> Alive) \<and>
     (wq_phase s = Destroyed \<longrightarrow> wq_worker s = Returned \<or> wq_stop s \<and> (\<exists>i. wq_worker s = Running i))"

lemma wq_init_inv: "wq_inv xrp_queue_init"
  by (simp add: wq_inv_def xrp_queue_init_def holds_items_def)

lemma holds_exit [simp]: "holds_items (q\<lparr>rq_exit := b\<rparr>) xs = holds_items q xs"
  by (simp add: holds_items_def)

lemma worker_step_inv:
  assumes "wq_inv s" "worker_step s = Some t"
  shows "wq_inv t"
proof -
  from assms(1) obtain xs where xs: "holds_items (wq_queue s) xs" "wq_pushed s = wq_done s @ in_hand (wq_worker s) @ xs"
    by (auto simp: wq_inv_def)
  show ?thesis
  proof (cases "wq_worker s")
    case Entered
    show ?thesis
    proof (cases xs)
      case Nil
      then have "xrp_dequeue_request (wq_queue s) = (wq_queue s, None)" using dequeue_holds [OF xs(1)] by simp
      then show ?thesis using assms xs Nil Entered by (auto simp: worker_step_def Let_def wq_inv_def)
    next
      case (Cons x ys)
      obtain q where "xrp_dequeue_request (wq_queue s) = (q, Some x)" "holds_items q ys" "rq_exit q = rq_exit (wq_queue s)"
        using dequeue_holds [OF xs(1)] Cons by (cases "xrp_dequeue_request (wq_queue s)") auto
      then show ?thesis using assms xs Cons Entered by (auto simp: worker_step_def Let_def wq_inv_def)
    qed
  qed (use assms xs in \<open>auto simp: worker_step_def Let_def wq_inv_def\<close>)
qed

lemma wake_simps [simp]:
  "wq_queue (wake s) = wq_queue s" "wq_phase (wake s) = wq_phase s" "wq_stop (wake s) = wq_stop s"
  "wq_sync (wake s) = wq_sync s" "wq_bad (wake s) = wq_bad s" "wq_pushed (wake s) = wq_pushed s" "wq_done (wake s) = wq_done s"
  "wq_worker (wake s) = (if wq_worker s = Asleep then Entered else wq_worker s)"
  by (simp_all add: wake_def)

lemma wq_exec_inv:
  assumes "wq_inv s" "wq_exec a s = Some t"
  shows "wq_inv t"
proof -
  from assms(1) obtain xs where xs: "holds_items (wq_queue s) xs" "wq_pushed s = wq_done s @ in_hand (wq_worker s) @ xs"
    "wq_worker s = Asleep \<longrightarrow> xs = []"
    by (auto simp: wq_inv_def)
  show ?thesis
  proof (cases a)
    case Worker
    then show ?thesis using worker_step_inv assms by simp
  next
    case (Push i)
    then have "i \<notin> set xs" "wq_phase s = Alive" using assms(2) xs(2) by (auto split: if_splits)
    moreover obtain q b where p: "xrp_queue_push i (wq_queue s) = (q, b)" by fastforce
    ultimately have "holds_items q (xs @ [i])" "b \<longleftrightarrow> xs = []" "rq_exit q = rq_exit (wq_queue s)"
      using push_holds [OF xs(1)] by force+
    then show ?thesis
      using assms xs Push p \<open>wq_phase s = Alive\<close> by (auto simp: wq_inv_def Let_def split: if_splits)
  next
    case Destroy
    then show ?thesis using assms xs by (auto simp: wq_inv_def request_exit_def split: if_splits)
  next
    case Join
    then show ?thesis using assms xs by (auto simp: wq_inv_def split: if_splits)
  next
    case Destroy_Self
    then show ?thesis using assms xs by (auto simp: wq_inv_def request_exit_def split: worker.splits if_splits)
  next
    case Spurious
    then show ?thesis using assms xs by (auto simp: wq_inv_def split: if_splits)
  qed
qed

interpretation wq: invariant_system "\<lambda>s. s = xrp_queue_init" wq_rel wq_inv
  by unfold_locales (auto simp: wq_init_inv wq_rel_def intro: wq_exec_inv)

section \<open>What the worker does alone\<close>

fun worker_run :: "nat \<Rightarrow> wq_state \<Rightarrow> wq_state option" where
  "worker_run 0 s = Some s"
| "worker_run (Suc n) s = (case worker_step s of None \<Rightarrow> None | Some t \<Rightarrow> worker_run n t)"

lemma worker_run_add: "worker_run (m + n) s = (case worker_run m s of None \<Rightarrow> None | Some t \<Rightarrow> worker_run n t)"
  by (induction m arbitrary: s) (auto split: option.splits)

definition unfinished :: "wq_state \<Rightarrow> nat list" where
  "unfinished s = drop (length (wq_done s)) (wq_pushed s)"

lemma worker_step_keeps:
  "worker_step s = Some t \<Longrightarrow> wq_pushed t = wq_pushed s \<and> wq_phase t = wq_phase s \<and> (wq_stop t \<longrightarrow> wq_stop s)"
  by (auto simp: worker_step_def Let_def split: worker.splits option.splits prod.splits)

lemma start_step:
  "wq_worker s = Start \<Longrightarrow> \<exists>t. worker_step s = Some t \<and> wq_worker t = Entered \<and> wq_done t = wq_done s"
  by (simp add: worker_step_def Let_def)

lemma entered_step:
  assumes "wq_inv s" "wq_worker s = Entered" "unfinished s \<noteq> []"
  shows "\<exists>t i. worker_step s = Some t \<and> wq_worker t = Running i \<and> wq_done t = wq_done s"
proof -
  obtain xs where xs: "holds_items (wq_queue s) xs" "wq_pushed s = wq_done s @ xs"
    using assms(1,2) by (auto simp: wq_inv_def)
  then obtain x ys where "xs = x # ys" using assms(3) by (cases xs) (auto simp: unfinished_def)
  then obtain q where "xrp_dequeue_request (wq_queue s) = (q, Some x)"
    using dequeue_holds [OF xs(1)] by (cases "xrp_dequeue_request (wq_queue s)") auto
  then show ?thesis using assms(2) by (simp add: worker_step_def Let_def)
qed

lemma running_step:
  "wq_worker s = Running i \<Longrightarrow>
    \<exists>t. worker_step s = Some t \<and> length (wq_done t) = Suc (length (wq_done s))"
  by (simp add: worker_step_def Let_def)

lemma not_stopped: "wq_inv s \<Longrightarrow> wq_phase s \<noteq> Destroyed \<Longrightarrow> \<not> wq_stop s"
  by (auto simp: wq_inv_def)

text \<open>The next request is run within three steps.\<close>

lemma worker_round:
  assumes "wq_inv s" "wq_phase s \<noteq> Destroyed" "unfinished s \<noteq> []"
  shows "\<exists>n t. 0 < n \<and> n \<le> 3 \<and> worker_run n s = Some t \<and> wq_inv t \<and> wq_pushed t = wq_pushed s \<and> wq_phase t = wq_phase s \<and>
    length (wq_done t) = Suc (length (wq_done s))"
proof -
  have run: "\<exists>t. worker_run 1 s = Some t \<and> wq_inv t \<and> wq_pushed t = wq_pushed s \<and> wq_phase t = wq_phase s \<and>
      length (wq_done t) = Suc (length (wq_done s))" if "wq_inv s" "wq_worker s = Running i" for s i
    using running_step [OF that(2)] worker_step_inv [OF that(1)] worker_step_keeps [of s] by fastforce
  have enter: "\<exists>t. worker_run 2 s = Some t \<and> wq_inv t \<and> wq_pushed t = wq_pushed s \<and> wq_phase t = wq_phase s \<and>
      length (wq_done t) = Suc (length (wq_done s))" if s: "wq_inv s" "wq_worker s = Entered" "unfinished s \<noteq> []" for s
  proof -
    obtain t i where t: "worker_step s = Some t" "wq_worker t = Running i" "wq_done t = wq_done s"
      using entered_step [OF s] by blast
    show ?thesis
      using run [OF worker_step_inv [OF s(1) t(1)] t(2)] t worker_step_keeps [OF t(1)] by (simp add: numeral_2_eq_2)
  qed
  show ?thesis
  proof (cases "wq_worker s")
    case Start
    obtain t where t: "worker_step s = Some t" "wq_worker t = Entered" "wq_done t = wq_done s"
      using start_step [OF Start] by blast
    note k = worker_step_keeps [OF t(1)]
    have "unfinished t \<noteq> []" using assms(3) t(3) k by (simp add: unfinished_def)
    then obtain u where "worker_run 2 t = Some u" "wq_inv u" "wq_pushed u = wq_pushed s" "wq_phase u = wq_phase s"
      "length (wq_done u) = Suc (length (wq_done s))"
      using enter [OF worker_step_inv [OF assms(1) t(1)] t(2)] k t(3) by auto
    then show ?thesis using t(1) by (intro exI [of _ "3"] exI [of _ u]) (simp add: numeral_3_eq_3 numeral_2_eq_2)
  next
    case Entered
    then show ?thesis using enter [OF assms(1) _ assms(3)] by (intro exI [of _ 2]) simp
  next
    case Asleep
    then have "unfinished s = []" using assms(1) by (auto simp: wq_inv_def unfinished_def)
    then show ?thesis using assms(3) by simp
  next
    case (Running i)
    then show ?thesis using run [OF assms(1)] by (intro exI [of _ 1]) simp
  next
    case Returned
    then have "unfinished s = []"
      using assms(1) not_stopped [OF assms(1,2)] by (auto simp: wq_inv_def unfinished_def)
    then show ?thesis using assms(3) by simp
  qed
qed

lemma worker_drains:
  assumes "wq_inv s" "wq_phase s \<noteq> Destroyed"
  shows "\<exists>n t. n \<le> 3 * length (unfinished s) \<and> worker_run n s = Some t \<and> wq_inv t \<and> wq_phase t = wq_phase s \<and>
    wq_pushed t = wq_pushed s \<and> wq_done t = wq_pushed s"
  using assms
proof (induction "length (unfinished s)" arbitrary: s)
  case 0
  from "0.prems"(1) obtain ys where "wq_pushed s = wq_done s @ ys" by (auto simp: wq_inv_def)
  with 0 have "wq_done s = wq_pushed s" by (simp add: unfinished_def)
  then show ?case using 0 by (intro exI [of _ 0] exI [of _ s]) simp
next
  case (Suc k)
  obtain n t where n: "n \<le> 3" "worker_run n s = Some t" "wq_inv t" "wq_pushed t = wq_pushed s" "wq_phase t = wq_phase s"
    "length (wq_done t) = Suc (length (wq_done s))"
    using worker_round [OF Suc.prems] Suc.hyps(2) by fastforce
  have k: "k = length (unfinished t)" using n Suc.hyps(2) by (simp add: unfinished_def)
  obtain m u where m: "m \<le> 3 * length (unfinished t)" "worker_run m t = Some u" "wq_inv u" "wq_phase u = wq_phase t"
    "wq_pushed u = wq_pushed t" "wq_done u = wq_pushed t"
    using Suc.hyps(1) [OF k n(3)] Suc.prems(2) n(5) by auto
  have "worker_run (n + m) s = Some u" using n(2) m(2) by (simp add: worker_run_add)
  moreover have "n + m \<le> 3 * length (unfinished s)" using n(1) m(1) k Suc.hyps(2) by linarith
  ultimately show ?case using m n by (intro exI [of _ "n + m"] exI [of _ u]) simp
qed

lemma worker_leaves:
  assumes "wq_inv s" "wq_phase s = Joining" "wq_done s = wq_pushed s"
  shows "\<exists>n t. n \<le> 2 \<and> worker_run n s = Some t \<and> wq_worker t = Returned \<and> wq_phase t = Joining \<and>
    wq_done t = wq_pushed s"
proof -
  have leave: "\<exists>t. worker_step s = Some t \<and> wq_worker t = Returned \<and> wq_phase t = Joining \<and> wq_done t = wq_pushed s"
    if s: "wq_inv s" "wq_phase s = Joining" "wq_done s = wq_pushed s" "wq_worker s = Entered" for s
  proof -
    have "holds_items (wq_queue s) []" "rq_exit (wq_queue s)" using s by (auto simp: wq_inv_def)
    then show ?thesis using s dequeue_holds [of "wq_queue s" "[]"] by (simp add: worker_step_def Let_def)
  qed
  show ?thesis
  proof (cases "wq_worker s")
    case Start
    obtain t where t: "worker_step s = Some t" "wq_worker t = Entered" "wq_done t = wq_done s"
      using start_step [OF Start] by blast
    show ?thesis
      using leave [OF worker_step_inv [OF assms(1) t(1)] _ _ t(2)] worker_step_keeps [OF t(1)] t assms(2,3)
      by (intro exI [of _ 2]) (auto simp: numeral_2_eq_2)
  next
    case Entered
    then show ?thesis using leave [OF assms(1-3)] by (intro exI [of _ 1]) auto
  next
    case Returned
    then show ?thesis using assms by (intro exI [of _ 0]) simp
  qed (use assms in \<open>auto simp: wq_inv_def\<close>)
qed

fun wq_execs :: "action list \<Rightarrow> wq_state \<Rightarrow> wq_state option" where
  "wq_execs [] s = Some s"
| "wq_execs (a # as) s = (case wq_exec a s of None \<Rightarrow> None | Some t \<Rightarrow> wq_execs as t)"

lemma wq_execs_rel: "wq_execs as s = Some t \<Longrightarrow> wq_rel\<^sup>*\<^sup>* s t"
proof (induction as arbitrary: s)
  case (Cons a as)
  then obtain u where "wq_exec a s = Some u" "wq_execs as u = Some t" by (auto split: option.splits)
  then show ?case using Cons.IH by (auto simp: wq_rel_def intro: converse_rtranclp_into_rtranclp)
qed simp

section \<open>Properties\<close>

text \<open>
  C18: Whatever the threads do, the list holds exactly the requests that were pushed and not yet
  taken, in order; every request is run at most once, in the order of the pushes; and neither
  side uses the queue after it is destroyed, not even when the worker destroys it itself.
\<close>

theorem queue_in_order:
  assumes "wq_rel\<^sup>*\<^sup>* xrp_queue_init s"
  shows "\<exists>xs. holds_items (wq_queue s) xs \<and> wq_pushed s = wq_done s @ in_hand (wq_worker s) @ xs \<and> \<not> wq_bad s"
  using wq.reachable_inv [OF refl assms] by (auto simp: wq_inv_def)

text \<open>
  C38: As long as the queue is not destroyed, the worker alone runs everything that was pushed, in
  at most three steps for each request: it never sleeps while there is work.
\<close>

theorem queue_served:
  assumes "wq_rel\<^sup>*\<^sup>* xrp_queue_init s" "wq_phase s \<noteq> Destroyed"
  shows "\<exists>n t. n \<le> 3 * (length (wq_pushed s) - length (wq_done s)) \<and> worker_run n s = Some t \<and> wq_done t = wq_pushed s"
proof -
  have "wq_inv s" by (rule wq.reachable_inv [OF refl assms(1)])
  from worker_drains [OF this assms(2)] show ?thesis by (auto simp: unfinished_def)
qed

text \<open>
  C39: When another thread destroys the queue, its join returns after a bounded number of steps of
  the worker, and then every request has been run.
\<close>

theorem destroy_drains:
  assumes "wq_rel\<^sup>*\<^sup>* xrp_queue_init s" "wq_phase s = Joining"
  shows "\<exists>n t u. n \<le> 3 * (length (wq_pushed s) - length (wq_done s)) + 2 \<and> worker_run n s = Some t \<and>
    wq_exec Join t = Some u \<and> wq_done u = wq_pushed s"
proof -
  have "wq_inv s" by (rule wq.reachable_inv [OF refl assms(1)])
  then obtain n t where n: "n \<le> 3 * length (unfinished s)" "worker_run n s = Some t" "wq_inv t" "wq_phase t = Joining"
    "wq_pushed t = wq_pushed s" "wq_done t = wq_pushed s"
    using worker_drains [of s] assms(2) by auto
  obtain m u where m: "m \<le> 2" "worker_run m t = Some u" "wq_worker u = Returned" "wq_phase u = Joining" "wq_done u = wq_pushed t"
    using worker_leaves [OF n(3,4)] n(5,6) by auto
  have "worker_run (n + m) s = Some u" using n m by (simp add: worker_run_add)
  moreover have "n + m \<le> 3 * (length (wq_pushed s) - length (wq_done s)) + 2"
    using n(1) m(1) by (simp add: unfinished_def)
  moreover have "wq_exec Join u = Some (u\<lparr>wq_phase := Destroyed\<rparr>)" using m by simp
  ultimately show ?thesis
    using m(5) n(5) by (intro exI [of _ "n + m"] exI [of _ u] exI [of _ "u\<lparr>wq_phase := Destroyed\<rparr>"]) (simp del: wq_exec.simps)
qed

text \<open>
  When the worker drops the last reference itself, the requests behind the current one are never
  run: such requests have no event, because an event keeps a reference of the queue.
\<close>

lemma destroy_self_loses:
  "\<exists>s. wq_rel\<^sup>*\<^sup>* xrp_queue_init s \<and> wq_phase s = Destroyed \<and> wq_worker s = Returned \<and>
    wq_pushed s = [1, 2] \<and> wq_done s = [1]"
proof -
  have ex: "wq_rel\<^sup>*\<^sup>* xrp_queue_init s" if "wq_execs as xrp_queue_init = Some s" for as s
    using that by (rule wq_execs_rel)
  let ?as = "[Push 1, Push 2, Worker, Worker, Destroy_Self, Worker]"
  have "\<exists>s. wq_execs ?as xrp_queue_init = Some s \<and> wq_phase s = Destroyed \<and> wq_worker s = Returned \<and>
      wq_pushed s = [1, 2] \<and> wq_done s = [1]"
    by (simp add: xrp_queue_init_def xrp_queue_push_def worker_step_def xrp_dequeue_request_def Let_def request_exit_def wake_def)
  then show ?thesis using ex by blast
qed

section \<open>A run\<close>

lemma demo_queue_run:
  "\<exists>s. wq_rel\<^sup>*\<^sup>* xrp_queue_init s \<and> wq_pushed s = [4, 7] \<and> wq_done s = [] \<and> wq_worker s = Running 4 \<and>
    wq_phase s = Alive"
proof -
  have "\<exists>s. wq_execs [Worker, Worker, Push 4, Push 7, Worker] xrp_queue_init = Some s \<and> wq_pushed s = [4, 7] \<and>
      wq_done s = [] \<and> wq_worker s = Running 4 \<and> wq_phase s = Alive"
    by (simp add: xrp_queue_init_def xrp_queue_push_def worker_step_def xrp_dequeue_request_def Let_def wake_def)
  then show ?thesis using wq_execs_rel by blast
qed

theorem queue_in_order_witness:
  "\<exists>s. wq_rel\<^sup>*\<^sup>* xrp_queue_init s \<and> wq_pushed s = [4, 7] \<and> holds_items (wq_queue s) [7] \<and> \<not> wq_bad s"
proof -
  obtain s where s: "wq_rel\<^sup>*\<^sup>* xrp_queue_init s" "wq_pushed s = [4, 7]" "wq_done s = []" "wq_worker s = Running 4"
    using demo_queue_run by blast
  show ?thesis using queue_in_order [OF s(1)] s by auto
qed

theorem queue_served_witness:
  "\<exists>s n t. wq_rel\<^sup>*\<^sup>* xrp_queue_init s \<and> wq_done s = [] \<and> n \<le> 6 \<and> worker_run n s = Some t \<and> wq_done t = [4, 7]"
proof -
  obtain s where s: "wq_rel\<^sup>*\<^sup>* xrp_queue_init s" "wq_pushed s = [4, 7]" "wq_done s = []" "wq_phase s = Alive"
    using demo_queue_run by blast
  have "wq_phase s \<noteq> Destroyed" using s by simp
  from queue_served [OF s(1) this] obtain n t where "n \<le> 6" "worker_run n s = Some t" "wq_done t = [4, 7]"
    using s(2,3) by auto
  then show ?thesis using s by blast
qed

theorem destroy_drains_witness:
  "\<exists>s n t u. wq_rel\<^sup>*\<^sup>* xrp_queue_init s \<and> wq_done s = [] \<and> n \<le> 8 \<and> worker_run n s = Some t \<and>
    wq_exec Join t = Some u \<and> wq_done u = [4, 7]"
proof -
  obtain s where s: "wq_rel\<^sup>*\<^sup>* xrp_queue_init s" "wq_pushed s = [4, 7]" "wq_done s = []" "wq_phase s = Alive"
    using demo_queue_run by blast
  define t where "t = (request_exit s)\<lparr>wq_phase := Joining\<rparr>"
  have "wq_exec Destroy s = Some t" using s(4) by (simp add: t_def)
  then have "wq_rel s t" unfolding wq_rel_def by blast
  with s(1) have r: "wq_rel\<^sup>*\<^sup>* xrp_queue_init t" by (rule rtranclp.rtrancl_into_rtrancl)
  have t: "wq_phase t = Joining" "wq_pushed t = [4, 7]" "wq_done t = []" using s by (simp_all add: t_def request_exit_def)
  from destroy_drains [OF r t(1)] obtain n u v where "n \<le> 8" "worker_run n t = Some u" "wq_exec Join u = Some v" "wq_done v = [4, 7]"
    using t(2,3) by auto
  then show ?thesis using r t by blast
qed

end
