(* ===== verification/Host_Objects.thy ===== *)
theory Host_Objects
  imports Interfaces "HOL-Library.Monad_Syntax"
begin

unbundle bit_operations_syntax

text \<open>
  The objects of the user library, \<open>xrp-host/xrp_host_common.c\<close> with their implementation in
  \<open>xrp-host/hosted/xrp_linux.c\<close>: devices, buffers, buffer groups, queues and events, which count
  their references and hold references of each other, and the commands that are queued with them.
  \<open>None\<close> is the use of an object that does not exist any more or of a null pointer.
\<close>

section \<open>State\<close>

datatype xrp_status = XRP_STATUS_SUCCESS | XRP_STATUS_FAILURE | XRP_STATUS_PENDING

text \<open>
  \<open>hb_device\<close> is set for storage of the device only; \<open>hg_records\<close> are the used entries of the
  group's array, which has room for \<open>hg_capacity\<close>.
\<close>

record host_buffer =
  hb_on_device :: bool
  hb_device :: "nat option"
  hb_ptr :: u64
  hb_phy_addr :: u64
  hb_size :: u64
  hb_map_count :: u64
  hb_map_flags :: u32

record host_group =
  hg_capacity :: nat
  hg_records :: "(nat \<times> u32) list"

record host_queue =
  hq_device :: nat
  hq_nsid :: "u8 list option"
  hq_priority :: u32

record host_event =
  he_queue :: "nat option"
  he_status :: xrp_status

datatype body = Device nat | Buffer host_buffer | Group host_group | Queue host_queue | Event host_event

text \<open>
  A request is \<open>struct xrp_request\<close>, with the copy of the input. \<open>hs_requests\<close> are the queued requests of all
  queues in the order of the pushes, \<open>hs_lost\<close> those whose queue was destroyed by its own worker;
  \<open>hs_fds\<close> and \<open>hs_areas\<close> the open descriptors and the buffers that the driver gave out.
\<close>

record request_item =
  hr_queue :: nat
  hr_event :: "nat option"
  hr_group :: "nat option"
  hr_in_data :: "u8 list"
  hr_out_data :: u64
  hr_out_data_size :: u64

record host_state =
  hs_heap :: "nat \<rightharpoonup> nat \<times> body"
  hs_next :: nat
  hs_fds :: "nat list"
  hs_areas :: "u64 list"
  hs_requests :: "request_item list"
  hs_lost :: "request_item list"

section \<open>Counting references\<close>

definition alloc_refcounted :: "body \<Rightarrow> host_state \<Rightarrow> nat \<times> host_state" where
  "alloc_refcounted b s =
     (hs_next s, s\<lparr>hs_heap := (hs_heap s)(hs_next s \<mapsto> (1, b)), hs_next := hs_next s + 1\<rparr>)"

definition set_body :: "nat \<Rightarrow> body \<Rightarrow> host_state \<Rightarrow> host_state option" where
  "set_body i b s = do { (c, _) \<leftarrow> hs_heap s i; Some (s\<lparr>hs_heap := (hs_heap s)(i \<mapsto> (c, b))\<rparr>) }"

definition free_object :: "nat \<Rightarrow> host_state \<Rightarrow> host_state" where
  "free_object i s = s\<lparr>hs_heap := (hs_heap s)(i := None)\<rparr>"

text \<open>
  The counter is a natural number. The one of the source is an \<open>unsigned long\<close>: it would wrap after \<open>2 ^ 64\<close>
  references, each of which is a pointer some object or the program keeps.
\<close>

definition retain_refcounted :: "nat \<Rightarrow> host_state \<Rightarrow> host_state option" where
  "retain_refcounted i s = do { (c, b) \<leftarrow> hs_heap s i; Some (s\<lparr>hs_heap := (hs_heap s)(i \<mapsto> (c + 1, b))\<rparr>) }"

definition last_release_refcounted :: "nat \<Rightarrow> host_state \<Rightarrow> (bool \<times> body \<times> host_state) option" where
  "last_release_refcounted i s =
     do { (c, b) \<leftarrow> hs_heap s i;
          let c1 = (if c = 0 then 2 ^ 64 - 1 else c - 1);
          Some (c1 = 0, b, s\<lparr>hs_heap := (hs_heap s)(i \<mapsto> (c1, b))\<rparr>) }"

section \<open>Devices and buffers\<close>

text \<open>The descriptor is not closed when the allocation of the device fails.\<close>

definition xrp_open_device :: "nat option \<Rightarrow> bool \<Rightarrow> host_state \<Rightarrow> (nat option \<times> xrp_status) \<times> host_state" where
  "xrp_open_device open_fd calloc_ok s =
     (case open_fd of
        None \<Rightarrow> ((None, XRP_STATUS_FAILURE), s)
      | Some fd \<Rightarrow>
          let s1 = s\<lparr>hs_fds := fd # hs_fds s\<rparr> in
          if \<not> calloc_ok then ((None, XRP_STATUS_FAILURE), s1)
          else let (i, s2) = alloc_refcounted (Device fd) s1 in ((Some i, XRP_STATUS_SUCCESS), s2))"

definition xrp_release_device :: "nat \<Rightarrow> host_state \<Rightarrow> host_state option" where
  "xrp_release_device i s =
     do { (gone, b, s1) \<leftarrow> last_release_refcounted i s;
          (case b of
             Device fd \<Rightarrow> Some (if gone then free_object i (s1\<lparr>hs_fds := remove1 fd (hs_fds s1)\<rparr>) else s1)
           | _ \<Rightarrow> None) }"

text \<open>
  \<open>xrp_create_buffer\<close> with \<open>xrp_impl_create_device_buffer\<close>: \<open>host_ptr\<close> 0 asks for storage of the
  device, which the driver gives as address and physical address or refuses.
\<close>

definition xrp_create_buffer ::
  "nat option \<Rightarrow> u64 \<Rightarrow> u64 \<Rightarrow> bool \<Rightarrow> (u64 \<times> u64) option \<Rightarrow> host_state \<Rightarrow> ((nat option \<times> xrp_status) \<times> host_state) option" where
  "xrp_create_buffer device sz host_ptr calloc_ok ioctl_alloc s =
     (if host_ptr = 0 \<and> device = None then Some ((None, XRP_STATUS_FAILURE), s)
      else if \<not> calloc_ok then Some ((None, XRP_STATUS_FAILURE), s)
      else if host_ptr \<noteq> 0 then
        let (i, s1) = alloc_refcounted (Buffer \<lparr>hb_on_device = False, hb_device = None, hb_ptr = host_ptr, hb_phy_addr = 0,
              hb_size = sz, hb_map_count = 0, hb_map_flags = 0\<rparr>) s in
        Some ((Some i, XRP_STATUS_SUCCESS), s1)
      else
        do { d \<leftarrow> device;
             s1 \<leftarrow> retain_refcounted d s;
             (case ioctl_alloc of
                None \<Rightarrow> do { s2 \<leftarrow> xrp_release_device d s1; Some ((None, XRP_STATUS_FAILURE), s2) }
              | Some (addr, paddr) \<Rightarrow>
                  let (i, s2) = alloc_refcounted (Buffer \<lparr>hb_on_device = True, hb_device = Some d, hb_ptr = addr,
                        hb_phy_addr = paddr, hb_size = sz, hb_map_count = 0, hb_map_flags = 0\<rparr>) s1 in
                  Some ((Some i, XRP_STATUS_SUCCESS), s2\<lparr>hs_areas := addr # hs_areas s2\<rparr>)) })"

definition xrp_impl_release_device_buffer :: "host_buffer \<Rightarrow> host_state \<Rightarrow> host_state option" where
  "xrp_impl_release_device_buffer b s =
     do { d \<leftarrow> hb_device b; xrp_release_device d (s\<lparr>hs_areas := remove1 (hb_ptr b) (hs_areas s)\<rparr>) }"

definition xrp_release_buffer :: "nat \<Rightarrow> host_state \<Rightarrow> host_state option" where
  "xrp_release_buffer i s =
     do { (gone, b, s1) \<leftarrow> last_release_refcounted i s;
          (case b of
             Buffer bf \<Rightarrow>
               if \<not> gone then Some s1
               else do { s2 \<leftarrow> (if hb_on_device bf then xrp_impl_release_device_buffer bf s1 else Some s1);
                         Some (free_object i s2) }
           | _ \<Rightarrow> None) }"

definition xrp_map_buffer ::
  "nat \<Rightarrow> u64 \<Rightarrow> u64 \<Rightarrow> u32 \<Rightarrow> host_state \<Rightarrow> ((u64 option \<times> xrp_status) \<times> host_state) option" where
  "xrp_map_buffer i offset sz flags s =
     do { (c, b) \<leftarrow> hs_heap s i;
          (case b of
             Buffer bf \<Rightarrow>
               if offset \<le> hb_size bf \<and> sz \<le> hb_size bf - offset then
                 do { s1 \<leftarrow> retain_refcounted i s;
                      s2 \<leftarrow> set_body i (Buffer (bf\<lparr>hb_map_count := hb_map_count bf + 1,
                              hb_map_flags := hb_map_flags bf OR flags\<rparr>)) s1;
                      Some ((Some (hb_ptr bf + offset), XRP_STATUS_SUCCESS), s2) }
               else Some ((None, XRP_STATUS_FAILURE), s)
           | _ \<Rightarrow> None) }"

definition xrp_unmap_buffer :: "nat \<Rightarrow> u64 \<Rightarrow> host_state \<Rightarrow> (xrp_status \<times> host_state) option" where
  "xrp_unmap_buffer i p s =
     do { (c, b) \<leftarrow> hs_heap s i;
          (case b of
             Buffer bf \<Rightarrow>
               if hb_ptr bf \<le> p \<and> p - hb_ptr bf \<le> hb_size bf then
                 do { s1 \<leftarrow> set_body i (Buffer (bf\<lparr>hb_map_count := hb_map_count bf - 1\<rparr>)) s;
                      s2 \<leftarrow> xrp_release_buffer i s1;
                      Some (XRP_STATUS_SUCCESS, s2) }
               else Some (XRP_STATUS_FAILURE, s)
           | _ \<Rightarrow> None) }"

section \<open>Buffer groups\<close>

definition xrp_create_buffer_group :: "bool \<Rightarrow> host_state \<Rightarrow> (nat option \<times> xrp_status) \<times> host_state" where
  "xrp_create_buffer_group calloc_ok s =
     (if calloc_ok then
        let (i, s1) = alloc_refcounted (Group \<lparr>hg_capacity = 0, hg_records = []\<rparr>) s in
        ((Some i, XRP_STATUS_SUCCESS), s1)
      else ((None, XRP_STATUS_FAILURE), s))"

fun release_buffers :: "nat list \<Rightarrow> host_state \<Rightarrow> host_state option" where
  "release_buffers [] s = Some s"
| "release_buffers (b # bs) s = do { s1 \<leftarrow> xrp_release_buffer b s; release_buffers bs s1 }"

definition xrp_release_buffer_group :: "nat \<Rightarrow> host_state \<Rightarrow> host_state option" where
  "xrp_release_buffer_group i s =
     do { (gone, b, s1) \<leftarrow> last_release_refcounted i s;
          (case b of
             Group g \<Rightarrow>
               if \<not> gone then Some s1
               else do { s2 \<leftarrow> release_buffers (map fst (hg_records g)) s1; Some (free_object i s2) }
           | _ \<Rightarrow> None) }"

text \<open>The store at \<open>n_buffers\<close> is behind the array when there is no room.\<close>

definition xrp_add_buffer_to_group ::
  "nat \<Rightarrow> nat \<Rightarrow> u32 \<Rightarrow> bool \<Rightarrow> host_state \<Rightarrow> ((nat option \<times> xrp_status) \<times> host_state) option" where
  "xrp_add_buffer_to_group gi bi flags realloc_ok s =
     do { (c, b) \<leftarrow> hs_heap s gi;
          (case b of
             Group g \<Rightarrow>
               if length (hg_records g) = hg_capacity g \<and> \<not> realloc_ok then Some ((None, XRP_STATUS_FAILURE), s)
               else
                 let cap = (if length (hg_records g) = hg_capacity g then (hg_capacity g + 2) * 2 else hg_capacity g) in
                 do { s1 \<leftarrow> retain_refcounted bi s;
                      if cap \<le> length (hg_records g) then None
                      else do { s2 \<leftarrow> set_body gi (Group \<lparr>hg_capacity = cap, hg_records = hg_records g @ [(bi, flags)]\<rparr>) s1;
                                Some ((Some (length (hg_records g)), XRP_STATUS_SUCCESS), s2) } }
           | _ \<Rightarrow> None) }"

definition xrp_set_buffer_in_group ::
  "nat \<Rightarrow> nat \<Rightarrow> nat \<Rightarrow> u32 \<Rightarrow> host_state \<Rightarrow> (xrp_status \<times> host_state) option" where
  "xrp_set_buffer_in_group gi index bi flags s =
     do { s1 \<leftarrow> retain_refcounted bi s;
          (c, b) \<leftarrow> hs_heap s1 gi;
          (case b of
             Group g \<Rightarrow>
               if index < length (hg_records g) then
                 do { s2 \<leftarrow> set_body gi (Group (g\<lparr>hg_records := (hg_records g)[index := (bi, flags)]\<rparr>)) s1;
                      s3 \<leftarrow> xrp_release_buffer (fst (hg_records g ! index)) s2;
                      Some (XRP_STATUS_SUCCESS, s3) }
               else do { s2 \<leftarrow> xrp_release_buffer bi s1; Some (XRP_STATUS_FAILURE, s2) }
           | _ \<Rightarrow> None) }"

text \<open>No reference is taken for the caller.\<close>

definition xrp_get_buffer_from_group :: "nat \<Rightarrow> nat \<Rightarrow> host_state \<Rightarrow> (nat option \<times> xrp_status) option" where
  "xrp_get_buffer_from_group gi idx s =
     do { (c, b) \<leftarrow> hs_heap s gi;
          (case b of
             Group g \<Rightarrow>
               Some (if idx < length (hg_records g) then (Some (fst (hg_records g ! idx)), XRP_STATUS_SUCCESS)
                     else (None, XRP_STATUS_FAILURE))
           | _ \<Rightarrow> None) }"

section \<open>Queues, events and commands\<close>

abbreviation (input) XRP_QUEUE_FLAG_NSID :: u32 where "XRP_QUEUE_FLAG_NSID \<equiv> 0x4"
abbreviation (input) XRP_QUEUE_FLAG_PRIO :: u32 where "XRP_QUEUE_FLAG_PRIO \<equiv> 0xff00"

definition xrp_create_nsp_queue ::
  "nat \<Rightarrow> u8 list option \<Rightarrow> u32 \<Rightarrow> bool \<Rightarrow> host_state \<Rightarrow> ((nat option \<times> xrp_status) \<times> host_state) option" where
  "xrp_create_nsp_queue d nsid priority calloc_ok s =
     do { s1 \<leftarrow> retain_refcounted d s;
          if \<not> calloc_ok then do { s2 \<leftarrow> xrp_release_device d s1; Some ((None, XRP_STATUS_FAILURE), s2) }
          else
            let (i, s2) = alloc_refcounted (Queue \<lparr>hq_device = d, hq_nsid = map_option (take 16) nsid, hq_priority = priority\<rparr>) s1 in
            Some ((Some i, XRP_STATUS_SUCCESS), s2) }"

definition xrp_create_queue :: "nat \<Rightarrow> bool \<Rightarrow> host_state \<Rightarrow> ((nat option \<times> xrp_status) \<times> host_state) option" where
  "xrp_create_queue d = xrp_create_nsp_queue d None 0"

text \<open>What \<open>_xrp_run_command\<close> hands to \<open>XRP_IOCTL_QUEUE\<close>: every buffer with its flags, size and address.\<close>

record queue_ioctl =
  iq_fd :: nat
  iq_flags :: u32
  iq_nsid :: "u8 list option"
  iq_in_data :: "u8 list"
  iq_out_data :: u64
  iq_out_data_size :: u64
  iq_buffers :: "(u32 \<times> u64 \<times> u64) list"

fun ioctl_buffers :: "(nat \<times> u32) list \<Rightarrow> host_state \<Rightarrow> (u32 \<times> u64 \<times> u64) list option" where
  "ioctl_buffers [] s = Some []"
| "ioctl_buffers ((i, flags) # rs) s =
    (case hs_heap s i of
       Some (c, Buffer bf) \<Rightarrow> do { bs \<leftarrow> ioctl_buffers rs s; Some ((flags, hb_size bf, hb_ptr bf) # bs) }
     | _ \<Rightarrow> None)"

definition xrp_run_command :: "request_item \<Rightarrow> host_state \<Rightarrow> queue_ioctl option" where
  "xrp_run_command rq s =
     do { bufs \<leftarrow> (case hr_group rq of
            None \<Rightarrow> Some []
          | Some gi \<Rightarrow> (case hs_heap s gi of Some (c, Group g) \<Rightarrow> ioctl_buffers (hg_records g) s | _ \<Rightarrow> None));
          (case hs_heap s (hr_queue rq) of
             Some (c, Queue q) \<Rightarrow>
               (case hs_heap s (hq_device q) of
                  Some (_, Device fd) \<Rightarrow>
                    Some \<lparr>iq_fd = fd,
                      iq_flags = (if hq_nsid q \<noteq> None then XRP_QUEUE_FLAG_NSID else 0) OR
                        (push_bit 8 (hq_priority q) AND XRP_QUEUE_FLAG_PRIO),
                      iq_nsid = hq_nsid q, iq_in_data = hr_in_data rq, iq_out_data = hr_out_data rq,
                      iq_out_data_size = hr_out_data_size rq, iq_buffers = bufs\<rparr>
                | _ \<Rightarrow> None)
           | _ \<Rightarrow> None) }"

definition release_group_option :: "nat option \<Rightarrow> host_state \<Rightarrow> host_state option" where
  "release_group_option g s = (case g of None \<Rightarrow> Some s | Some i \<Rightarrow> xrp_release_buffer_group i s)"

text \<open>
  \<open>xrp_queue_destroy\<close>, as \<open>Host_Queue\<close> has it in steps: called by another thread it returns when
  the worker has run every request that is left, called by the worker (\<open>self\<close>) it leaves them.
  A request that is left has no event, since an event holds a reference of the queue; running it
  only releases its group.
\<close>

fun drain :: "request_item list \<Rightarrow> host_state \<Rightarrow> host_state option" where
  "drain [] s = Some s"
| "drain (rq # rqs) s =
    (if hr_event rq \<noteq> None then None
     else do { args \<leftarrow> xrp_run_command rq s; s1 \<leftarrow> release_group_option (hr_group rq) s; drain rqs s1 })"

definition queued :: "nat \<Rightarrow> host_state \<Rightarrow> request_item list" where
  "queued i s = filter (\<lambda>rq. hr_queue rq = i) (hs_requests s)"

definition xrp_queue_destroy :: "bool \<Rightarrow> nat \<Rightarrow> host_state \<Rightarrow> host_state option" where
  "xrp_queue_destroy self i s =
     (let rest = filter (\<lambda>rq. hr_queue rq \<noteq> i) (hs_requests s) in
      if self then Some (s\<lparr>hs_requests := rest, hs_lost := hs_lost s @ queued i s\<rparr>)
      else drain (queued i s) (s\<lparr>hs_requests := rest\<rparr>))"

definition xrp_release_queue :: "bool \<Rightarrow> nat \<Rightarrow> host_state \<Rightarrow> host_state option" where
  "xrp_release_queue self i s =
     do { (gone, b, s1) \<leftarrow> last_release_refcounted i s;
          (case b of
             Queue q \<Rightarrow>
               if \<not> gone then Some s1
               else do { s2 \<leftarrow> xrp_queue_destroy self i s1;
                         s3 \<leftarrow> xrp_release_device (hq_device q) s2;
                         Some (free_object i s3) }
           | _ \<Rightarrow> None) }"

definition xrp_release_event :: "bool \<Rightarrow> nat \<Rightarrow> host_state \<Rightarrow> host_state option" where
  "xrp_release_event self i s =
     do { (gone, b, s1) \<leftarrow> last_release_refcounted i s;
          (case b of
             Event ev \<Rightarrow>
               if \<not> gone then Some s1
               else do { q \<leftarrow> he_queue ev; s2 \<leftarrow> xrp_release_queue self q s1; Some (free_object i s2) }
           | _ \<Rightarrow> None) }"

definition xrp_impl_broadcast_event :: "nat \<Rightarrow> xrp_status \<Rightarrow> host_state \<Rightarrow> host_state option" where
  "xrp_impl_broadcast_event i st s =
     (case hs_heap s i of Some (c, Event ev) \<Rightarrow> set_body i (Event (ev\<lparr>he_status := st\<rparr>)) s | _ \<Rightarrow> None)"

text \<open>The worker runs a request; \<open>ret\<close> says whether the ioctl succeeds.\<close>

definition xrp_request_process :: "request_item \<Rightarrow> bool \<Rightarrow> host_state \<Rightarrow> host_state option" where
  "xrp_request_process rq ret s =
     do { args \<leftarrow> xrp_run_command rq s;
          s1 \<leftarrow> release_group_option (hr_group rq) s;
          (case hr_event rq of
             None \<Rightarrow> Some s1
           | Some e \<Rightarrow>
               do { s2 \<leftarrow> xrp_impl_broadcast_event e (if ret then XRP_STATUS_SUCCESS else XRP_STATUS_FAILURE) s1;
                    xrp_release_event True e s2 }) }"

definition serve :: "nat \<Rightarrow> bool \<Rightarrow> host_state \<Rightarrow> host_state option" where
  "serve i ret s =
     (case queued i s of
        [] \<Rightarrow> Some s
      | rq # _ \<Rightarrow> xrp_request_process rq ret (s\<lparr>hs_requests := remove1 rq (hs_requests s)\<rparr>))"

definition retain_group_option :: "nat option \<Rightarrow> host_state \<Rightarrow> host_state option" where
  "retain_group_option g s = (case g of None \<Rightarrow> Some s | Some i \<Rightarrow> retain_refcounted i s)"

definition xrp_enqueue_command ::
  "nat \<Rightarrow> u8 list \<Rightarrow> u64 \<Rightarrow> u64 \<Rightarrow> nat option \<Rightarrow> bool \<Rightarrow> bool \<Rightarrow> bool \<Rightarrow> host_state \<Rightarrow>
    ((nat option \<times> xrp_status) \<times> host_state) option" where
  "xrp_enqueue_command qi in_data out_data out_size gr evt malloc_ok calloc_ok s =
     (if \<not> malloc_ok \<or> evt \<and> \<not> calloc_ok then Some ((None, XRP_STATUS_FAILURE), s)
      else
        do { (e, s1) \<leftarrow>
               (if \<not> evt then Some (None, s)
                else
                  let (e, t1) = alloc_refcounted (Event \<lparr>he_queue = None, he_status = XRP_STATUS_PENDING\<rparr>) s in
                  do { t2 \<leftarrow> retain_refcounted qi t1;
                       t3 \<leftarrow> set_body e (Event \<lparr>he_queue = Some qi, he_status = XRP_STATUS_PENDING\<rparr>) t2;
                       t4 \<leftarrow> retain_refcounted e t3;
                       Some (Some e, t4) });
             s2 \<leftarrow> retain_group_option gr s1;
             (_, _) \<leftarrow> hs_heap s2 qi;
             Some ((e, XRP_STATUS_SUCCESS),
               s2\<lparr>hs_requests := hs_requests s2 @ [\<lparr>hr_queue = qi, hr_event = e, hr_group = gr, hr_in_data = in_data,
                 hr_out_data = out_data, hr_out_data_size = out_size\<rparr>]\<rparr>) })"

definition xrp_event_status :: "nat \<Rightarrow> host_state \<Rightarrow> xrp_status option" where
  "xrp_event_status i s = (case hs_heap s i of Some (c, Event ev) \<Rightarrow> Some (he_status ev) | _ \<Rightarrow> None)"

section \<open>Exact counts\<close>

text \<open>
  The references an object holds. \<open>exact Z r s\<close>: the counter of every object is the number of
  references to it from other objects plus \<open>r\<close>, the references from outside (the client's and those
  of queued requests), and is not 0; the objects in \<open>Z\<close> are being released: their counter is 0,
  nothing refers to them, and what they referred to is counted in \<open>r\<close> until they drop it.
\<close>

fun kids :: "body \<Rightarrow> nat list" where
  "kids (Device fd) = []"
| "kids (Buffer b) = (if hb_on_device b then (case hb_device b of None \<Rightarrow> [] | Some d \<Rightarrow> [d]) else [])"
| "kids (Group g) = map fst (hg_records g)"
| "kids (Queue q) = [hq_device q]"
| "kids (Event e) = (case he_queue e of None \<Rightarrow> [] | Some q \<Rightarrow> [q])"

datatype kind = Device_Kind | Buffer_Kind | Group_Kind | Queue_Kind | Event_Kind

fun kind_of :: "body \<Rightarrow> kind" where
  "kind_of (Device _) = Device_Kind"
| "kind_of (Buffer _) = Buffer_Kind"
| "kind_of (Group _) = Group_Kind"
| "kind_of (Queue _) = Queue_Kind"
| "kind_of (Event _) = Event_Kind"

fun kid_kind :: "kind \<Rightarrow> kind" where
  "kid_kind Buffer_Kind = Device_Kind"
| "kid_kind Group_Kind = Buffer_Kind"
| "kid_kind Event_Kind = Queue_Kind"
| "kid_kind _ = Device_Kind"

fun level :: "kind \<Rightarrow> nat" where
  "level Device_Kind = 0"
| "level Buffer_Kind = 1"
| "level Queue_Kind = 1"
| "level _ = 2"

fun body_ok :: "body \<Rightarrow> bool" where
  "body_ok (Buffer b) \<longleftrightarrow> (hb_on_device b \<longrightarrow> hb_device b \<noteq> None)"
| "body_ok (Group g) \<longleftrightarrow> length (hg_records g) \<le> hg_capacity g"
| "body_ok (Event e) \<longleftrightarrow> he_queue e \<noteq> None"
| "body_ok _ \<longleftrightarrow> True"

type_synonym heap = "nat \<rightharpoonup> nat \<times> body"

definition weigh :: "nat set \<Rightarrow> heap \<Rightarrow> (body \<Rightarrow> nat) \<Rightarrow> nat" where
  "weigh Z hp w = (\<Sum>i \<in> dom hp - Z. w (snd (the (hp i))))"

definition held :: "nat set \<Rightarrow> heap \<Rightarrow> nat \<Rightarrow> nat" where
  "held Z hp k = weigh Z hp (\<lambda>b. count_list (kids b) k)"

definition exact_at :: "nat set \<Rightarrow> (nat \<Rightarrow> nat) \<Rightarrow> heap \<Rightarrow> nat \<Rightarrow> bool" where
  "exact_at Z r hp i \<longleftrightarrow>
     (case hp i of
        None \<Rightarrow> i \<notin> Z \<and> r i + held Z hp i = 0
      | Some (c, b) \<Rightarrow> c = r i + held Z hp i \<and> (i \<in> Z \<longleftrightarrow> c = 0))"

definition exact :: "nat set \<Rightarrow> (nat \<Rightarrow> nat) \<Rightarrow> host_state \<Rightarrow> bool" where
  "exact Z r s \<longleftrightarrow>
     finite (dom (hs_heap s)) \<and> (\<forall>i \<ge> hs_next s. hs_heap s i = None) \<and>
     (\<forall>i. exact_at Z r (hs_heap s) i) \<and>
     (\<forall>i c b. hs_heap s i = Some (c, b) \<longrightarrow> body_ok b \<and>
        (\<forall>k \<in> set (kids b). k < hs_next s \<and>
           (\<forall>c' b'. hs_heap s k = Some (c', b') \<longrightarrow> kind_of b' = kid_kind (kind_of b))))"

lemma weigh_split:
  assumes "finite (dom hp)" "i \<notin> Z"
  shows "weigh Z hp w = weigh (insert i Z) hp w + (case hp i of None \<Rightarrow> 0 | Some (c, b) \<Rightarrow> w b)"
proof (cases "hp i")
  case None
  then have "dom hp - insert i Z = dom hp - Z" by auto
  then show ?thesis using None by (simp add: weigh_def)
next
  case (Some cb)
  then have e: "dom hp - Z = insert i (dom hp - insert i Z)" using assms(2) by auto
  have f: "finite (dom hp - insert i Z)" "i \<notin> dom hp - insert i Z" using assms(1) by auto
  have "weigh Z hp w = w (snd (the (hp i))) + weigh (insert i Z) hp w"
    unfolding weigh_def e by (rule sum.insert [OF f])
  then show ?thesis using Some by (cases cb) simp
qed

lemma weigh_upd: "i \<in> Z \<Longrightarrow> weigh Z (hp(i := v)) w = weigh Z hp w"
  unfolding weigh_def by (rule sum.cong) auto

lemma held_split:
  "finite (dom hp) \<Longrightarrow> i \<notin> Z \<Longrightarrow>
    held Z hp k = held (insert i Z) hp k + (case hp i of None \<Rightarrow> 0 | Some (c, b) \<Rightarrow> count_list (kids b) k)"
  by (simp add: held_def weigh_split)

lemma held_upd:
  assumes "finite (dom hp)" "i \<notin> Z"
  shows "held Z (hp(i := v)) k = held (insert i Z) hp k + (case v of None \<Rightarrow> 0 | Some (c, b) \<Rightarrow> count_list (kids b) k)"
  using weigh_split [of "hp(i := v)" i Z "\<lambda>b. count_list (kids b) k"] assms
  by (simp add: held_def weigh_upd)

lemma held_upd_in: "i \<in> Z \<Longrightarrow> held Z (hp(i := v)) k = held Z hp k"
  by (simp add: held_def weigh_upd)

lemma exact_live:
  assumes "exact Z r s" "0 < r i"
  obtains c b where "hs_heap s i = Some (c, b)" "c = r i + held Z (hs_heap s) i" "i \<notin> Z"
proof -
  have "exact_at Z r (hs_heap s) i" using assms(1) by (simp add: exact_def)
  then show thesis using assms(2) that by (auto simp: exact_at_def split: option.splits)
qed

text \<open>
  What a release keeps: nothing is added, no body changes, and objects of kinds other than \<open>K\<close> are
  untouched.
\<close>

definition shrinks :: "kind set \<Rightarrow> host_state \<Rightarrow> host_state \<Rightarrow> bool" where
  "shrinks K s t \<longleftrightarrow> hs_next t = hs_next s \<and> hs_requests t = hs_requests s \<and> hs_lost t = hs_lost s \<and>
     (\<forall>i c b. hs_heap t i = Some (c, b) \<longrightarrow> (\<exists>c'. hs_heap s i = Some (c', b))) \<and>
     (\<forall>i c b. hs_heap s i = Some (c, b) \<longrightarrow> kind_of b \<notin> K \<longrightarrow> hs_heap t i = Some (c, b))"

lemma shrinks_refl [simp]: "shrinks K s s"
  by (simp add: shrinks_def)

lemma shrinks_trans: "shrinks K s t \<Longrightarrow> shrinks K' t u \<Longrightarrow> K \<subseteq> L \<Longrightarrow> K' \<subseteq> L \<Longrightarrow> shrinks L s u"
  unfolding shrinks_def by (metis subsetD)

lemma shrinks_mono: "shrinks K s t \<Longrightarrow> K \<subseteq> L \<Longrightarrow> shrinks L s t"
  unfolding shrinks_def by (metis subsetD)

lemma shrinks_back: "shrinks K s t \<Longrightarrow> hs_heap t i = Some (c, b) \<Longrightarrow> \<exists>c'. hs_heap s i = Some (c', b)"
  unfolding shrinks_def by metis

lemma exact_heap_cong:
  "exact Z r s \<Longrightarrow> hs_heap t = hs_heap s \<Longrightarrow> hs_next t = hs_next s \<Longrightarrow> exact Z r t"
  by (simp add: exact_def)

lemma exactI:
  assumes "finite (dom (hs_heap s))" "\<And>i. hs_next s \<le> i \<Longrightarrow> hs_heap s i = None" "\<And>i. exact_at Z r (hs_heap s) i"
    and "\<And>i c b. hs_heap s i = Some (c, b) \<Longrightarrow> body_ok b"
    and "\<And>i c b k. hs_heap s i = Some (c, b) \<Longrightarrow> k \<in> set (kids b) \<Longrightarrow> k < hs_next s"
    and "\<And>i c b k c' b'. hs_heap s i = Some (c, b) \<Longrightarrow> k \<in> set (kids b) \<Longrightarrow> hs_heap s k = Some (c', b') \<Longrightarrow>
      kind_of b' = kid_kind (kind_of b)"
  shows "exact Z r s"
  using assms unfolding exact_def by blast

lemma exactD:
  assumes "exact Z r s"
  shows "finite (dom (hs_heap s))" "hs_next s \<le> i \<Longrightarrow> hs_heap s i = None" "exact_at Z r (hs_heap s) i"
    and "hs_heap s i = Some (c, b) \<Longrightarrow> body_ok b"
    and "hs_heap s i = Some (c, b) \<Longrightarrow> k \<in> set (kids b) \<Longrightarrow> k < hs_next s"
    and "hs_heap s i = Some (c, b) \<Longrightarrow> k \<in> set (kids b) \<Longrightarrow> hs_heap s k = Some (c', b') \<Longrightarrow>
      kind_of b' = kid_kind (kind_of b)"
  using assms unfolding exact_def by blast+

lemma no_self_kid:
  assumes "exact Z r s" "hs_heap s i = Some (c, b)"
  shows "i \<notin> set (kids b)"
proof
  assume "i \<in> set (kids b)"
  then have "kind_of b = kid_kind (kind_of b)" by (rule exactD(6) [OF assms(1) assms(2) _ assms(2)])
  moreover have "kind_of b \<noteq> kid_kind (kind_of b) \<or> kids b = []" by (rule body.exhaust [of b]) simp_all
  ultimately show False using \<open>i \<in> set (kids b)\<close> by simp
qed

lemma exact_at_same:
  "exact_at Z r hp k \<Longrightarrow> hp' k = hp k \<Longrightarrow> r' k + held Z' hp' k = r k + held Z hp k \<Longrightarrow> k \<in> Z' \<longleftrightarrow> k \<in> Z \<Longrightarrow>
    exact_at Z' r' hp' k"
  by (simp add: exact_at_def split: option.splits prod.splits)

text \<open>A change of the entry of one object.\<close>

lemma exact_update:
  assumes "exact Z r s" "hs_heap s i = Some (c, b)" "i \<notin> Z"
    and new: "kind_of b' = kind_of b" "body_ok b'"
      "\<And>k. k \<in> set (kids b') \<Longrightarrow> k < hs_next s \<and> (\<forall>c' b''. hs_heap s k = Some (c', b'') \<longrightarrow> kind_of b'' = kid_kind (kind_of b))"
    and self: "i \<notin> set (kids b)" "i \<notin> set (kids b')"
    and counts: "\<And>k. k \<noteq> i \<Longrightarrow> r' k + count_list (kids b') k = r k + count_list (kids b) k"
    and c': "c' = r' i + held Z (hs_heap s) i" "0 < c'"
  shows "exact Z r' (s\<lparr>hs_heap := (hs_heap s)(i \<mapsto> (c', b'))\<rparr>)"
proof (rule exactI)
  let ?hp = "hs_heap s" and ?hp' = "(hs_heap s)(i \<mapsto> (c', b'))"
  note fin = exactD(1) [OF assms(1)]
  have "i < hs_next s" using exactD(2) [OF assms(1), of i] assms(2) by (cases "hs_next s \<le> i") auto
  show "exact_at Z r' (hs_heap (s\<lparr>hs_heap := ?hp'\<rparr>)) k" for k
  proof (cases "k = i")
    case True
    have "held Z ?hp' i = held Z ?hp i"
      using self assms(2) by (simp add: held_upd [OF fin assms(3)] held_split [OF fin assms(3)])
    then show ?thesis using True assms(3) c' by (simp add: exact_at_def)
  next
    case False
    have "r' k + held Z ?hp' k = r k + held Z ?hp k"
      using counts [OF False] assms(2) by (simp add: held_upd [OF fin assms(3)] held_split [OF fin assms(3)])
    then show ?thesis using exact_at_same [OF exactD(3) [OF assms(1), of k], of ?hp' r' Z] False by simp
  qed
  fix j d e k assume j: "hs_heap (s\<lparr>hs_heap := ?hp'\<rparr>) j = Some (d, e)"
  show "body_ok e" using j new exactD(4) [OF assms(1)] by (auto split: if_splits)
  assume k: "k \<in> set (kids e)"
  show "k < hs_next (s\<lparr>hs_heap := ?hp'\<rparr>)" using j k new exactD(5) [OF assms(1)] by (auto split: if_splits)
  fix d' e' assume k': "hs_heap (s\<lparr>hs_heap := ?hp'\<rparr>) k = Some (d', e')"
  obtain d2 e2 where "hs_heap s k = Some (d2, e2)" "kind_of e' = kind_of e2"
    using k' new(1) assms(2) by (auto split: if_splits)
  then show "kind_of e' = kid_kind (kind_of e)"
    using j k new(1,3) exactD(6) [OF assms(1)] by (auto split: if_splits)
qed (use exactD(1,2) [OF assms(1)] assms(2) in \<open>fastforce split: if_splits\<close>)+

lemma retain_exact:
  assumes "exact Z r s" "0 < r i"
  shows "\<exists>s1 c b. hs_heap s i = Some (c, b) \<and> retain_refcounted i s = Some s1 \<and>
    s1 = s\<lparr>hs_heap := (hs_heap s)(i \<mapsto> (c + 1, b))\<rparr> \<and> exact Z (r(i := r i + 1)) s1"
proof -
  obtain c b where hi: "hs_heap s i = Some (c, b)" "c = r i + held Z (hs_heap s) i" "i \<notin> Z"
    using exact_live [OF assms] by blast
  have "exact Z (r(i := r i + 1)) (s\<lparr>hs_heap := (hs_heap s)(i \<mapsto> (c + 1, b))\<rparr>)"
    using no_self_kid [OF assms(1) hi(1)] hi exactD(4,5,6) [OF assms(1) hi(1)]
    by (intro exact_update [OF assms(1) hi(1,3)]) auto
  then show ?thesis using hi(1) by (simp add: retain_refcounted_def)
qed

lemma release_exact:
  assumes "exact Z r s" "0 < r i"
  shows "\<exists>gone s1 c b. hs_heap s i = Some (c, b) \<and> last_release_refcounted i s = Some (gone, b, s1) \<and> shrinks {kind_of b} s s1 \<and>
    s1 = s\<lparr>hs_heap := (hs_heap s)(i \<mapsto> (c - 1, b))\<rparr> \<and> (gone \<longleftrightarrow> c - 1 = 0) \<and>
    body_ok b \<and>
    (\<not> gone \<longrightarrow> exact Z (r(i := r i - 1)) s1) \<and>
    (gone \<longrightarrow> i \<notin> Z \<and> exact (insert i Z) (\<lambda>k. (r(i := r i - 1)) k + count_list (kids b) k) s1)"
proof -
  obtain c b where hi: "hs_heap s i = Some (c, b)" "c = r i + held Z (hs_heap s) i" "i \<notin> Z"
    using exact_live [OF assms] by blast
  let ?hp = "hs_heap s" and ?hp' = "(hs_heap s)(i \<mapsto> (c - 1, b))"
  let ?s1 = "s\<lparr>hs_heap := ?hp'\<rparr>"
  note fin = exactD(1) [OF assms(1)] and self = no_self_kid [OF assms(1) hi(1)]
  have l: "last_release_refcounted i s = Some (c - 1 = 0, b, ?s1)"
    using hi assms(2) by (simp add: last_release_refcounted_def)
  have keep: "exact Z (r(i := r i - 1)) ?s1" if "c - 1 \<noteq> 0"
    using self hi exactD(4,5,6) [OF assms(1) hi(1)] that assms(2)
    by (intro exact_update [OF assms(1) hi(1,3)]) auto
  have gone: "exact (insert i Z) (\<lambda>k. (r(i := r i - 1)) k + count_list (kids b) k) ?s1" if "c - 1 = 0"
  proof (rule exactI)
    have z: "r i = 1" "held Z ?hp i = 0" "held (insert i Z) ?hp i = 0" "c - 1 = 0"
    proof -
      have "held (insert i Z) ?hp i \<le> held Z ?hp i" using held_split [OF fin hi(3), of i] by linarith
      then show "r i = 1" "held Z ?hp i = 0" "held (insert i Z) ?hp i = 0" "c - 1 = 0"
        using that hi(2) assms(2) by linarith+
    qed
    show "exact_at (insert i Z) (\<lambda>k. (r(i := r i - 1)) k + count_list (kids b) k) (hs_heap ?s1) k" for k
    proof (cases "k = i")
      case True
      then show ?thesis using z self by (simp add: exact_at_def held_upd_in)
    next
      case False
      have "r k + count_list (kids b) k + held (insert i Z) ?hp' k = r k + held Z ?hp k"
        using hi(1) by (simp add: held_upd_in held_split [OF fin hi(3)])
      then show ?thesis using exact_at_same [OF exactD(3) [OF assms(1), of k]] False by simp
    qed
    have prev: "\<exists>d0. hs_heap s j = Some (d0, e)" if "hs_heap ?s1 j = Some (d, e)" for j d e
      using that hi(1) by (auto split: if_splits)
    fix j d e assume "hs_heap ?s1 j = Some (d, e)"
    then obtain d0 where j: "hs_heap s j = Some (d0, e)" using prev by blast
    show "body_ok e" by (rule exactD(4) [OF assms(1) j])
    fix k assume k: "k \<in> set (kids e)"
    show "k < hs_next ?s1" using exactD(5) [OF assms(1) j k] by simp
    fix d' e' assume "hs_heap ?s1 k = Some (d', e')"
    then obtain d1 where "hs_heap s k = Some (d1, e')" using prev by blast
    then show "kind_of e' = kid_kind (kind_of e)" by (rule exactD(6) [OF assms(1) j k])
  qed (use exactD(1,2) [OF assms(1)] hi(1) in \<open>fastforce split: if_splits\<close>)+
  have "shrinks {kind_of b} s ?s1" using hi(1) by (auto simp: shrinks_def)
  then show ?thesis
    using l keep gone hi exactD(4) [OF assms(1) hi(1)] by (intro exI [of _ "c - 1 = 0"] exI [of _ ?s1] exI [of _ c] exI [of _ b]) (intro conjI, simp_all)
qed

lemma free_exact:
  assumes "exact (insert i Z) r s" "i \<notin> Z"
  shows "exact Z r (free_object i s)"
proof -
  let ?hp = "hs_heap s" and ?hp' = "(hs_heap s)(i := None)"
  note fin = exactD(1) [OF assms(1)]
  have "exact_at (insert i Z) r ?hp i" by (rule exactD(3) [OF assms(1)])
  then have i: "r i = 0" "held (insert i Z) ?hp i = 0" by (auto simp: exact_at_def split: option.splits)
  have h: "held Z ?hp' k = held (insert i Z) ?hp k" for k by (simp add: held_upd [OF fin assms(2)])
  show "exact Z r (free_object i s)"
  proof (rule exactI)
    show "exact_at Z r (hs_heap (free_object i s)) k" for k
    proof (cases "k = i")
      case True
      then show ?thesis using i h assms(2) by (simp add: exact_at_def free_object_def)
    next
      case False
      then show ?thesis
        using exact_at_same [OF exactD(3) [OF assms(1), of k], of ?hp' r Z] h by (simp add: free_object_def)
    qed
    fix j d e k assume j: "hs_heap (free_object i s) j = Some (d, e)"
    show "body_ok e" using j exactD(4) [OF assms(1)] by (auto simp: free_object_def split: if_splits)
    assume k: "k \<in> set (kids e)"
    show "k < hs_next (free_object i s)" using j k exactD(5) [OF assms(1)] by (auto simp: free_object_def split: if_splits)
    fix d' e' assume k': "hs_heap (free_object i s) k = Some (d', e')"
    show "kind_of e' = kid_kind (kind_of e)"
      using j k k' exactD(6) [OF assms(1)] by (auto simp: free_object_def split: if_splits)
  qed (use exactD(1,2) [OF assms(1)] in \<open>auto simp: free_object_def\<close>)
qed

lemma free_shrinks: "hs_heap s i = Some (c, b) \<Longrightarrow> kind_of b \<in> K \<Longrightarrow> shrinks K s (free_object i s)"
  by (auto simp: shrinks_def free_object_def)

lemma alloc_exact:
  assumes "exact Z r s" "body_ok b"
    and "\<And>k. k \<in> set (kids b) \<Longrightarrow> k < hs_next s \<and> (\<forall>c' b'. hs_heap s k = Some (c', b') \<longrightarrow> kind_of b' = kid_kind (kind_of b))"
    and "\<And>k. k \<noteq> hs_next s \<Longrightarrow> r' k + count_list (kids b) k = r k" "r' (hs_next s) = 1"
  shows "exact Z r' (snd (alloc_refcounted b s))"
proof (rule exactI)
  let ?n = "hs_next s" and ?hp = "hs_heap s" and ?t = "snd (alloc_refcounted b s)"
  let ?hp' = "(hs_heap s)(hs_next s \<mapsto> (1, b))"
  note fin = exactD(1) [OF assms(1)]
  have none: "?hp ?n = None" by (rule exactD(2) [OF assms(1)]) simp
  then have z: "r ?n = 0" "held Z ?hp ?n = 0" "?n \<notin> Z"
    using exactD(3) [OF assms(1), of ?n] by (auto simp: exact_at_def)
  have notin: "?n \<notin> set (kids b)" using assms(3) [of ?n] by auto
  have h: "held Z ?hp' k = held Z ?hp k + count_list (kids b) k" for k
    using none by (simp add: held_upd [OF fin z(3)] held_split [OF fin z(3)])
  have t: "hs_heap ?t = ?hp'" "hs_next ?t = ?n + 1" by (simp_all add: alloc_refcounted_def)
  show "exact_at Z r' (hs_heap ?t) k" for k
  proof (cases "k = ?n")
    case True
    then show ?thesis using z notin assms(5) h unfolding t by (simp add: exact_at_def)
  next
    case False
    then show ?thesis
      unfolding t using exact_at_same [OF exactD(3) [OF assms(1), of k], of ?hp' r' Z] h assms(4) [OF False] by simp
  qed
  fix j d e k assume j: "hs_heap ?t j = Some (d, e)"
  show "body_ok e" using j assms(2) exactD(4) [OF assms(1)] unfolding t by (auto split: if_splits)
  assume k: "k \<in> set (kids e)"
  have below: "k < ?n" using j k assms(3) exactD(5) [OF assms(1)] unfolding t by (auto split: if_splits)
  then show "k < hs_next ?t" unfolding t by simp
  fix d' e' assume k': "hs_heap ?t k = Some (d', e')"
  then show "kind_of e' = kid_kind (kind_of e)"
    using j k below assms(3) exactD(6) [OF assms(1)] unfolding t by (auto split: if_splits)
qed (use exactD(1,2) [OF assms(1)] in \<open>auto simp: alloc_refcounted_def\<close>)

lemma live_body:
  assumes "exact Z r t" "0 < r k" "shrinks K s t" "hs_heap s k = Some (c, b)"
  shows "\<exists>c'. hs_heap t k = Some (c', b)"
  using exact_live [OF assms(1,2)] shrinks_back [OF assms(3)] assms(4) by (metis Pair_inject option.inject)

lemma release_cases:
  assumes "exact Z r s" "0 < r i" "hs_heap s i = Some (c, b)"
  obtains (kept) s1 where "last_release_refcounted i s = Some (False, b, s1)" "shrinks {kind_of b} s s1"
      "exact Z (r(i := r i - 1)) s1" "s1 = s\<lparr>hs_heap := (hs_heap s)(i \<mapsto> (c - 1, b))\<rparr>" "0 < c - 1"
  | (gone) s1 where "last_release_refcounted i s = Some (True, b, s1)" "shrinks {kind_of b} s s1"
      "hs_heap s1 i = Some (c - 1, b)" "i \<notin> Z" "exact (insert i Z) (\<lambda>k. (r(i := r i - 1)) k + count_list (kids b) k) s1"
      "s1 = s\<lparr>hs_heap := (hs_heap s)(i \<mapsto> (c - 1, b))\<rparr>" "c - 1 = 0"
proof -
  from release_exact [OF assms(1,2)] obtain g s1 c' b' where e: "hs_heap s i = Some (c', b')"
    "last_release_refcounted i s = Some (g, b', s1)" "shrinks {kind_of b'} s s1" "s1 = s\<lparr>hs_heap := (hs_heap s)(i \<mapsto> (c' - 1, b'))\<rparr>" "g \<longleftrightarrow> c' - 1 = 0"
    "\<not> g \<longrightarrow> exact Z (r(i := r i - 1)) s1"
    "g \<longrightarrow> i \<notin> Z \<and> exact (insert i Z) (\<lambda>k. (r(i := r i - 1)) k + count_list (kids b') k) s1"
    by (elim exE conjE) (rule that)
  have cb: "c' = c" "b' = b" using e(1) assms(3) by auto
  note e = e [unfolded cb]
  show thesis
  proof (cases g)
    case True
    have "last_release_refcounted i s = Some (True, b, s1)" "hs_heap s1 i = Some (c - 1, b)" "c - 1 = 0"
      using e(2,4,5) True by simp_all
    then show thesis using e(3,4,7) True gone by blast
  next
    case False
    have "last_release_refcounted i s = Some (False, b, s1)" "0 < c - 1"
      using e(2,5) False by simp_all
    then show thesis using e(3,4,6) False kept by blast
  qed
qed

lemma release_device_ok:
  assumes "exact Z r s" "0 < r d" "hs_heap s d = Some (c, Device fd)"
  shows "\<exists>t. xrp_release_device d s = Some t \<and> exact Z (r(d := r d - 1)) t \<and> shrinks {Device_Kind} s t"
proof (cases rule: release_cases [OF assms])
  case (1 s1)
  then show ?thesis by (simp add: xrp_release_device_def)
next
  case (2 s1)
  let ?s2 = "s1\<lparr>hs_fds := remove1 fd (hs_fds s1)\<rparr>"
  have "(\<lambda>k. (r(d := r d - 1)) k + count_list (kids (Device fd)) k) = r(d := r d - 1)" by auto
  then have "exact (insert d Z) (r(d := r d - 1)) s1" using 2(5) by (simp only:)
  then have "exact (insert d Z) (r(d := r d - 1)) ?s2" by (rule exact_heap_cong) auto
  then have "exact Z (r(d := r d - 1)) (free_object d ?s2)" using 2(4) by (intro free_exact) auto
  moreover have "shrinks {Device_Kind} s1 (free_object d ?s2)"
    using 2(3) by (auto simp: shrinks_def free_object_def)
  ultimately show ?thesis
    using 2(1,2) shrinks_trans [of "{Device_Kind}" s s1 "{Device_Kind}"] by (simp add: xrp_release_device_def)
qed

lemma release_buffer_ok:
  assumes "exact Z r s" "0 < r i" "hs_heap s i = Some (c, Buffer bf)"
  shows "\<exists>t. xrp_release_buffer i s = Some t \<and> exact Z (r(i := r i - 1)) t \<and> shrinks {Device_Kind, Buffer_Kind} s t"
proof (cases rule: release_cases [OF assms])
  case (1 s1)
  then show ?thesis using shrinks_mono [of "{Buffer_Kind}" s s1] by (simp add: xrp_release_buffer_def)
next
  case (2 s1)
  let ?r = "\<lambda>k. (r(i := r i - 1)) k + count_list (kids (Buffer bf)) k"
  have sh: "shrinks {Device_Kind, Buffer_Kind} s s1" using 2(2) shrinks_mono by simp
  show ?thesis
  proof (cases "hb_on_device bf")
    case False
    then have "?r = r(i := r i - 1)" by auto
    then have "exact Z (r(i := r i - 1)) (free_object i s1)" using 2(4,5) free_exact by metis
    moreover have "shrinks {Device_Kind, Buffer_Kind} s1 (free_object i s1)" using 2(3) by (rule free_shrinks) simp
    ultimately show ?thesis
      using 2(1) False shrinks_trans [OF sh] by (simp add: xrp_release_buffer_def)
  next
    case True
    obtain d where d: "hb_device bf = Some d" using exactD(4) [OF 2(5) 2(3)] True by auto
    let ?s2 = "s1\<lparr>hs_areas := remove1 (hb_ptr bf) (hs_areas s1)\<rparr>"
    have ex: "exact (insert i Z) ?r ?s2" by (rule exact_heap_cong [OF 2(5)]) auto
    have kd: "d \<in> set (kids (Buffer bf))" using d True by simp
    have pos: "0 < ?r d" using d True by simp
    obtain c' b' where "hs_heap ?s2 d = Some (c', b')" using exact_live [OF ex pos] by blast
    moreover have "kind_of b' = Device_Kind" using exactD(6) [OF 2(5) 2(3) kd, of c' b'] calculation by simp
    ultimately obtain fd where dev: "hs_heap ?s2 d = Some (c', Device fd)" by (cases b') auto
    obtain t where t: "xrp_release_device d ?s2 = Some t" "exact (insert i Z) (?r(d := ?r d - 1)) t" "shrinks {Device_Kind} ?s2 t"
      using release_device_ok [OF ex pos dev] by blast
    have "?r(d := ?r d - 1) = r(i := r i - 1)" using d True by (auto simp: fun_eq_iff)
    then have fin: "exact Z (r(i := r i - 1)) (free_object i t)" using t(2) 2(4) free_exact by metis
    have "hs_heap ?s2 i = Some (c - 1, Buffer bf)" using 2(3) by simp
    then have ti: "hs_heap t i = Some (c - 1, Buffer bf)" using t(3) unfolding shrinks_def by fastforce
    have "shrinks {Device_Kind} s1 t" using t(3) by (simp add: shrinks_def)
    then have "shrinks {Device_Kind, Buffer_Kind} s t" using shrinks_trans [OF sh] by blast
    moreover have "shrinks {Device_Kind, Buffer_Kind} t (free_object i t)" using ti by (rule free_shrinks) simp
    ultimately have "shrinks {Device_Kind, Buffer_Kind} s (free_object i t)" using shrinks_trans by blast
    then show ?thesis
      using 2(1) True d t(1) fin by (simp add: xrp_release_buffer_def xrp_impl_release_device_buffer_def)
  qed
qed

lemma release_buffers_ok:
  assumes "exact Z r s" "\<And>k. count_list bs k \<le> r k" "\<And>b. b \<in> set bs \<Longrightarrow> \<exists>c bf. hs_heap s b = Some (c, Buffer bf)"
  shows "\<exists>t. release_buffers bs s = Some t \<and> exact Z (\<lambda>k. r k - count_list bs k) t \<and> shrinks {Device_Kind, Buffer_Kind} s t"
  using assms
proof (induction bs arbitrary: r s)
  case Nil
  then show ?case by simp
next
  case (Cons b bs)
  have pos: "0 < r b" using Cons.prems(2) [of b] by simp
  obtain c bf where b: "hs_heap s b = Some (c, Buffer bf)" using Cons.prems(3) [of b] by auto
  obtain t where t: "xrp_release_buffer b s = Some t" "exact Z (r(b := r b - 1)) t" "shrinks {Device_Kind, Buffer_Kind} s t"
    using release_buffer_ok [OF Cons.prems(1) pos b] by blast
  have cnt: "count_list bs k \<le> (r(b := r b - 1)) k" for k using Cons.prems(2) [of k] by (auto split: if_splits)
  have bufs: "\<exists>c bf. hs_heap t a = Some (c, Buffer bf)" if mem: "a \<in> set bs" for a
  proof -
    have "0 < (r(b := r b - 1)) a" using cnt [of a] mem by (metis count_list_0_iff gr0I le_zero_eq)
    moreover obtain c bf where "hs_heap s a = Some (c, Buffer bf)" using Cons.prems(3) [of a] mem by auto
    ultimately show ?thesis using live_body [OF t(2) _ t(3)] by blast
  qed
  obtain u where u: "release_buffers bs t = Some u" "exact Z (\<lambda>k. (r(b := r b - 1)) k - count_list bs k) u"
    "shrinks {Device_Kind, Buffer_Kind} t u"
    using Cons.IH [OF t(2) cnt bufs] by blast
  have "(\<lambda>k. (r(b := r b - 1)) k - count_list bs k) = (\<lambda>k. r k - count_list (b # bs) k)" by (auto simp: fun_eq_iff)
  then show ?case using u t shrinks_trans [OF t(3) u(3)] by simp
qed

lemma release_group_ok:
  assumes "exact Z r s" "0 < r i" "hs_heap s i = Some (c, Group g)"
  shows "\<exists>t. xrp_release_buffer_group i s = Some t \<and> exact Z (r(i := r i - 1)) t \<and>
    shrinks {Device_Kind, Buffer_Kind, Group_Kind} s t"
proof (cases rule: release_cases [OF assms])
  case (1 s1)
  then show ?thesis using shrinks_mono [of "{Group_Kind}" s s1] by (simp add: xrp_release_buffer_group_def)
next
  case (2 s1)
  let ?K = "{Device_Kind, Buffer_Kind, Group_Kind}" and ?bs = "map fst (hg_records g)"
  let ?r = "\<lambda>k. (r(i := r i - 1)) k + count_list (kids (Group g)) k"
  have bufs: "\<exists>c bf. hs_heap s1 b = Some (c, Buffer bf)" if "b \<in> set ?bs" for b
  proof -
    have "0 < ?r b" using that by (simp add: count_list_0_iff flip: neq0_conv)
    then obtain c' b' where "hs_heap s1 b = Some (c', b')" by (rule exact_live [OF 2(5)])
    moreover have "kind_of b' = Buffer_Kind" using exactD(6) [OF 2(5) 2(3), of b c' b'] calculation that by simp
    ultimately show ?thesis by (cases b') auto
  qed
  obtain t where t: "release_buffers ?bs s1 = Some t" "exact (insert i Z) (\<lambda>k. ?r k - count_list ?bs k) t"
    "shrinks {Device_Kind, Buffer_Kind} s1 t"
    using release_buffers_ok [OF 2(5), of ?bs] bufs by auto
  have "(\<lambda>k. ?r k - count_list ?bs k) = r(i := r i - 1)" by auto
  then have fin: "exact Z (r(i := r i - 1)) (free_object i t)" using t(2) 2(4) free_exact by metis
  have ti: "hs_heap t i = Some (c - 1, Group g)" using 2(3) t(3) unfolding shrinks_def by fastforce
  have "shrinks ?K s t" using shrinks_trans [OF 2(2) t(3)] by simp
  moreover have "shrinks ?K t (free_object i t)" using ti by (rule free_shrinks) simp
  ultimately have "shrinks ?K s (free_object i t)" using shrinks_trans by blast
  then show ?thesis using 2(1) t(1) fin by (simp add: xrp_release_buffer_group_def)
qed

section \<open>Requests\<close>

text \<open>The references that requests hold, and what they rely on.\<close>

definition request_refs :: "request_item \<Rightarrow> nat list" where
  "request_refs rq =
     (case hr_event rq of None \<Rightarrow> [] | Some e \<Rightarrow> [e]) @ (case hr_group rq of None \<Rightarrow> [] | Some g \<Rightarrow> [g])"

definition refs_of :: "request_item list \<Rightarrow> nat \<Rightarrow> nat" where
  "refs_of rqs k = count_list (concat (map request_refs rqs)) k"

definition outside :: "(nat \<Rightarrow> nat) \<Rightarrow> host_state \<Rightarrow> nat \<Rightarrow> nat" where
  "outside h s k = h k + refs_of (hs_requests s) k + refs_of (hs_lost s) k"

definition request_ok :: "host_state \<Rightarrow> request_item \<Rightarrow> bool" where
  "request_ok s rq \<longleftrightarrow>
     (\<forall>g. hr_group rq = Some g \<longrightarrow> (\<exists>c gr. hs_heap s g = Some (c, Group gr))) \<and>
     (\<forall>e. hr_event rq = Some e \<longrightarrow> (\<exists>c ev. hs_heap s e = Some (c, Event ev) \<and> he_queue ev = Some (hr_queue rq)))"

definition requests_ok :: "host_state \<Rightarrow> bool" where
  "requests_ok s \<longleftrightarrow>
     (\<forall>rq \<in> set (hs_requests s) \<union> set (hs_lost s). request_ok s rq) \<and>
     (\<forall>rq \<in> set (hs_requests s). \<exists>c q. hs_heap s (hr_queue rq) = Some (c, Queue q) \<and> 0 < c)"

lemma request_ok_cong: "hs_heap t = hs_heap s \<Longrightarrow> request_ok t = request_ok s"
  by (auto simp: request_ok_def fun_eq_iff)

lemma requests_okI:
  assumes "\<And>rq. rq \<in> set (hs_requests s) \<union> set (hs_lost s) \<Longrightarrow> request_ok s rq"
    and "\<And>rq. rq \<in> set (hs_requests s) \<Longrightarrow> \<exists>c q. hs_heap s (hr_queue rq) = Some (c, Queue q) \<and> 0 < c"
  shows "requests_ok s"
  using assms by (simp add: requests_ok_def)

lemma requests_okD:
  assumes "requests_ok s"
  shows "rq \<in> set (hs_requests s) \<union> set (hs_lost s) \<Longrightarrow> request_ok s rq"
    and "rq \<in> set (hs_requests s) \<Longrightarrow> \<exists>c q. hs_heap s (hr_queue rq) = Some (c, Queue q) \<and> 0 < c"
  using assms by (simp_all add: requests_ok_def)

lemma refs_of_simps [simp]:
  "refs_of [] k = 0"
  "refs_of (rq # rqs) k = count_list (request_refs rq) k + refs_of rqs k"
  "refs_of (xs @ ys) k = refs_of xs k + refs_of ys k"
  by (simp_all add: refs_of_def)

lemma refs_of_filter: "refs_of rqs k = refs_of (filter P rqs) k + refs_of (filter (\<lambda>x. \<not> P x) rqs) k"
  by (induction rqs) auto

lemma refs_of_mem: "rq \<in> set rqs \<Longrightarrow> count_list (request_refs rq) k \<le> refs_of rqs k"
  by (induction rqs) auto

lemma refs_of_remove1: "rq \<in> set rqs \<Longrightarrow> refs_of rqs k = count_list (request_refs rq) k + refs_of (remove1 rq rqs) k"
  by (induction rqs) auto

text \<open>What a live object refers to is alive.\<close>

lemma kid_live:
  assumes "exact Z r s" "hs_heap s i = Some (c, b)" "i \<notin> Z" "k \<in> set (kids b)"
  shows "0 < held Z (hs_heap s) k \<and> (\<exists>c' b'. hs_heap s k = Some (c', b') \<and> kind_of b' = kid_kind (kind_of b) \<and> 0 < c')"
proof -
  have "count_list (kids b) k \<le> held Z (hs_heap s) k"
    using assms(2) by (simp add: held_split [OF exactD(1) [OF assms(1)] assms(3)])
  moreover have "0 < count_list (kids b) k" using assms(4) by (simp add: count_list_0_iff flip: neq0_conv)
  ultimately have pos: "0 < held Z (hs_heap s) k" by simp
  have "exact_at Z r (hs_heap s) k" by (rule exactD(3) [OF assms(1)])
  then obtain c' b' where k: "hs_heap s k = Some (c', b')" "0 < c'"
    using pos by (auto simp: exact_at_def split: option.splits)
  then show ?thesis using pos exactD(6) [OF assms(1,2,4) k(1)] by blast
qed

lemma run_command_ok:
  assumes "exact Z r s" "hs_heap s (hr_queue rq) = Some (c, Queue q)" "hs_heap s (hq_device q) = Some (c', Device fd)"
    and "\<And>g. hr_group rq = Some g \<Longrightarrow> g \<notin> Z \<and> (\<exists>c gr. hs_heap s g = Some (c, Group gr))"
  shows "\<exists>args. xrp_run_command rq s = Some args"
proof -
  have bufs: "\<exists>bs. ioctl_buffers rs s = Some bs" if "\<And>k. k \<in> fst ` set rs \<Longrightarrow> \<exists>c bf. hs_heap s k = Some (c, Buffer bf)" for rs
    using that
  proof (induction rs)
    case (Cons rec rs)
    obtain i fl where rec: "rec = (i, fl)" by fastforce
    obtain c bf where "hs_heap s i = Some (c, Buffer bf)" using Cons.prems [of i] rec by auto
    then show ?case using Cons rec by force
  qed simp
  have "\<exists>bs. (case hr_group rq of None \<Rightarrow> Some []
          | Some gi \<Rightarrow> (case hs_heap s gi of Some (c, Group g) \<Rightarrow> ioctl_buffers (hg_records g) s | _ \<Rightarrow> None)) = Some bs"
  proof (cases "hr_group rq")
    case (Some g)
    then obtain cg gr where g: "g \<notin> Z" "hs_heap s g = Some (cg, Group gr)" using assms(4) by blast
    have "\<exists>c bf. hs_heap s k = Some (c, Buffer bf)" if "k \<in> fst ` set (hg_records gr)" for k
    proof -
      have "k \<in> set (kids (Group gr))" using that by simp
      then obtain c' b' where "hs_heap s k = Some (c', b')" "kind_of b' = Buffer_Kind"
        using kid_live [OF assms(1) g(2,1)] by force
      then show ?thesis by (cases b') auto
    qed
    then show ?thesis using Some g(2) bufs [of "hg_records gr"] by simp
  qed simp
  then show ?thesis using assms(2,3) by (auto simp: xrp_run_command_def)
qed

lemma release_group_option_ok:
  assumes "exact Z r s" "\<And>g. gr = Some g \<Longrightarrow> 0 < r g \<and> (\<exists>c b. hs_heap s g = Some (c, Group b))"
  shows "\<exists>t. release_group_option gr s = Some t \<and>
    exact Z (\<lambda>k. r k - count_list (case gr of None \<Rightarrow> [] | Some g \<Rightarrow> [g]) k) t \<and>
    shrinks {Device_Kind, Buffer_Kind, Group_Kind} s t"
proof (cases gr)
  case None
  then show ?thesis using assms(1) by (simp add: release_group_option_def)
next
  case (Some g)
  then obtain c b where g: "0 < r g" "hs_heap s g = Some (c, Group b)" using assms(2) by blast
  have "(\<lambda>k. r k - count_list [g] k) = r(g := r g - 1)" by auto
  then show ?thesis using release_group_ok [OF assms(1) g] Some by (simp add: release_group_option_def)
qed

lemma drain_ok:
  assumes "exact Z r s" "hs_heap s i = Some (c, Queue q)" "0 < r (hq_device q) - refs_of rqs (hq_device q)"
    and "\<And>k. refs_of rqs k \<le> r k"
    and "\<And>rq. rq \<in> set rqs \<Longrightarrow> hr_queue rq = i \<and> hr_event rq = None \<and> request_ok s rq"
    and dev: "hs_heap s (hq_device q) = Some (cd, Device fd)"
  shows "\<exists>t. drain rqs s = Some t \<and> exact Z (\<lambda>k. r k - refs_of rqs k) t \<and>
    shrinks {Device_Kind, Buffer_Kind, Group_Kind} s t"
  using assms
proof (induction rqs arbitrary: r s c cd)
  case Nil
  then show ?case by simp
next
  case (Cons rq rqs)
  let ?K = "{Device_Kind, Buffer_Kind, Group_Kind}" and ?gs = "case hr_group rq of None \<Rightarrow> [] | Some g \<Rightarrow> [g]"
  have rq: "hr_queue rq = i" "hr_event rq = None" "request_ok s rq" using Cons.prems(5) [of rq] by auto
  have refs: "request_refs rq = ?gs" using rq(2) by (simp add: request_refs_def)
  have grp: "0 < r g \<and> (\<exists>c b. hs_heap s g = Some (c, Group b))" if "hr_group rq = Some g" for g
    using that rq(3) Cons.prems(4) [of g] refs by (auto simp: request_ok_def)
  have "g \<notin> Z \<and> (\<exists>c gr. hs_heap s g = Some (c, Group gr))" if "hr_group rq = Some g" for g
    using grp [OF that] exact_live [OF Cons.prems(1), of g] by metis
  then obtain args where args: "xrp_run_command rq s = Some args"
    using run_command_ok [OF Cons.prems(1), of rq] Cons.prems(2,6) rq(1) by blast
  obtain t where t: "release_group_option (hr_group rq) s = Some t" "exact Z (\<lambda>k. r k - count_list ?gs k) t" "shrinks ?K s t"
    using release_group_option_ok [OF Cons.prems(1) grp] by blast
  let ?r = "\<lambda>k. r k - count_list ?gs k" and ?d = "hq_device q"
  have ti: "hs_heap t i = Some (c, Queue q)" using t(3) Cons.prems(2) by (simp add: shrinks_def)
  have pd: "0 < ?r ?d - refs_of rqs ?d" using Cons.prems(3) refs by simp
  then obtain cd' where td: "hs_heap t ?d = Some (cd', Device fd)"
    using live_body [OF t(2) _ t(3) Cons.prems(6)] by auto
  have le: "refs_of rqs k \<le> ?r k" for k using Cons.prems(4) [of k] refs by simp
  have ok: "hr_queue r' = i \<and> hr_event r' = None \<and> request_ok t r'" if "r' \<in> set rqs" for r'
  proof -
    have r': "hr_queue r' = i" "hr_event r' = None" "request_ok s r'" using Cons.prems(5) [of r'] that by auto
    have "\<exists>c gr. hs_heap t g = Some (c, Group gr)" if g: "hr_group r' = Some g" for g
    proof -
      have "0 < count_list (request_refs r') g" using g by (simp add: request_refs_def)
      then have "0 < ?r g" using refs_of_mem [OF \<open>r' \<in> set rqs\<close>, of g] le [of g] by linarith
      then show ?thesis using live_body [OF t(2) _ t(3)] r'(3) g unfolding request_ok_def by blast
    qed
    then show ?thesis using r' by (simp add: request_ok_def)
  qed
  obtain u where u: "drain rqs t = Some u" "exact Z (\<lambda>k. ?r k - refs_of rqs k) u" "shrinks ?K t u"
    using Cons.IH [OF t(2) ti pd le ok td] by blast
  have "(\<lambda>k. ?r k - refs_of rqs k) = (\<lambda>k. r k - refs_of (rq # rqs) k)" using refs by (simp add: fun_eq_iff)
  then show ?case using rq(2) args t(1) u shrinks_trans [OF t(3) u(3)] by simp
qed

definition bodies_from :: "host_state \<Rightarrow> host_state \<Rightarrow> bool" where
  "bodies_from s t \<longleftrightarrow> hs_next t = hs_next s \<and> (\<forall>i c b. hs_heap t i = Some (c, b) \<longrightarrow> (\<exists>c'. hs_heap s i = Some (c', b)))"

lemma shrinks_bodies: "shrinks K s t \<Longrightarrow> bodies_from s t"
  by (simp add: shrinks_def bodies_from_def)

lemma bodies_trans: "bodies_from s t \<Longrightarrow> bodies_from t u \<Longrightarrow> bodies_from s u"
  unfolding bodies_from_def by metis

lemma requests_ok_shrinks:
  assumes "requests_ok s" "shrinks {Device_Kind, Buffer_Kind, Group_Kind} s t" "exact Z r t"
    and "\<And>k. refs_of (hs_requests t) k + refs_of (hs_lost t) k \<le> r k"
  shows "requests_ok t"
proof -
  have same: "hs_requests t = hs_requests s" "hs_lost t = hs_lost s" using assms(2) by (auto simp: shrinks_def)
  have keep: "hs_heap t i = Some (c, b)" if "hs_heap s i = Some (c, b)" "kind_of b \<in> {Queue_Kind, Event_Kind}" for i c b
    using assms(2) that unfolding shrinks_def by auto
  have "request_ok t rq" if rq: "rq \<in> set (hs_requests s) \<union> set (hs_lost s)" for rq
  proof -
    have ok: "request_ok s rq" using assms(1) rq by (simp add: requests_ok_def)
    have "\<exists>c gr. hs_heap t g = Some (c, Group gr)" if g: "hr_group rq = Some g" for g
    proof -
      have "0 < count_list (request_refs rq) g" using g by (simp add: request_refs_def)
      then have "0 < r g"
        using refs_of_mem [of rq _ g] rq assms(4) [of g] same by (metis Un_iff le_trans less_le_trans le_add1 le_add2)
      then show ?thesis using live_body [OF assms(3) _ assms(2)] ok g unfolding request_ok_def by blast
    qed
    moreover have "\<exists>c ev. hs_heap t e = Some (c, Event ev) \<and> he_queue ev = Some (hr_queue rq)" if "hr_event rq = Some e" for e
      using ok that keep unfolding request_ok_def by fastforce
    ultimately show ?thesis by (simp add: request_ok_def)
  qed
  moreover have "\<exists>c q. hs_heap t (hr_queue rq) = Some (c, Queue q) \<and> 0 < c" if "rq \<in> set (hs_requests s)" for rq
    using assms(1) that keep unfolding requests_ok_def by fastforce
  ultimately show ?thesis using same by (simp add: requests_ok_def)
qed

text \<open>A queue whose counter drops to 0 has no queued request with an event.\<close>

lemma last_no_events:
  assumes "exact (insert i Z) r s1" "i \<in> insert i Z" "hs_heap s1 i = Some (0, b)"
    and "hs_heap s1 e = Some (c, Event ev)" "he_queue ev = Some i" "0 < r e"
  shows False
proof -
  have "e \<notin> insert i Z" using exact_live [OF assms(1,6)] by metis
  then have "0 < held (insert i Z) (hs_heap s1) i" using kid_live [OF assms(1,4), of i] assms(5) by simp
  moreover have "exact_at (insert i Z) r (hs_heap s1) i" by (rule exactD(3) [OF assms(1)])
  ultimately show False using assms(3) by (simp add: exact_at_def)
qed

lemma release_queue_ok:
  assumes "exact Z (outside h s) s" "0 < h i" "hs_heap s i = Some (c, Queue q)" "requests_ok s"
  shows "\<exists>t. xrp_release_queue self i s = Some t \<and> exact Z (outside (h(i := h i - 1)) t) t \<and> requests_ok t \<and>
    bodies_from s t"
proof -
  let ?h = "h(i := h i - 1)" and ?d = "hq_device q"
  have pos: "0 < outside h s i" using assms(2) by (simp add: outside_def)
  have out: "(outside h s)(i := outside h s i - 1) = outside ?h s" using assms(2) by (auto simp: outside_def fun_eq_iff)
  have rok: "request_ok s rq" if "rq \<in> set (hs_requests s) \<union> set (hs_lost s)" for rq
    using assms(4) that by (simp add: requests_ok_def)
  show ?thesis
  proof (cases rule: release_cases [OF assms(1) pos assms(3)])
    case (1 s1)
    have "requests_ok s1"
      using assms(3,4) 1(5) unfolding 1(4) by (fastforce simp: requests_ok_def request_ok_def)
    moreover have "outside ?h s1 = outside ?h s" unfolding 1(4) by (simp add: outside_def fun_eq_iff)
    then have "exact Z (outside ?h s1) s1" using 1(3) by (simp only: out)
    ultimately show ?thesis using 1(1) shrinks_bodies [OF 1(2)] by (simp add: xrp_release_queue_def)
  next
    case (2 s1)
    let ?Z = "insert i Z" and ?D = "\<lambda>k. count_list [?d] k"
    have s1h: "hs_heap s1 = (hs_heap s)(i \<mapsto> (0, Queue q))" "hs_requests s1 = hs_requests s" "hs_lost s1 = hs_lost s"
      "hs_next s1 = hs_next s" using 2(6,7) by simp_all
    have ex1: "exact ?Z (\<lambda>k. outside ?h s k + ?D k) s1" using 2(5) out by (simp add: fun_eq_iff)
    have rok1: "request_ok s1 rq" if "rq \<in> set (hs_requests s) \<union> set (hs_lost s)" for rq
      using rok [OF that] assms(3) unfolding request_ok_def s1h by fastforce
    have live1: "\<exists>c q. hs_heap s1 (hr_queue rq) = Some (c, Queue q) \<and> 0 < c"
      if "rq \<in> set (hs_requests s)" "hr_queue rq \<noteq> i" for rq
      using requests_okD(2) [OF assms(4) that(1)] that(2) s1h(1) by simp
    have noev: "hr_event rq = None" if "rq \<in> set (queued i s)" for rq
    proof (rule ccontr)
      assume "hr_event rq \<noteq> None"
      then obtain e where e: "hr_event rq = Some e" by blast
      have rq: "rq \<in> set (hs_requests s)" "hr_queue rq = i" using that by (auto simp: queued_def)
      obtain ce ev where ev: "hs_heap s1 e = Some (ce, Event ev)" "he_queue ev = Some i"
        using rok1 [of rq] rq e unfolding request_ok_def by auto
      have "0 < count_list (request_refs rq) e" using e by (simp add: request_refs_def)
      then have "0 < outside ?h s e + ?D e" using refs_of_mem [OF rq(1), of e] by (simp add: outside_def)
      from last_no_events [OF ex1 _ _ ev this] s1h(1) show False by simp
    qed
    let ?rest = "filter (\<lambda>rq. hr_queue rq \<noteq> i) (hs_requests s)"
    have split: "refs_of (hs_requests s) k = refs_of (queued i s) k + refs_of ?rest k" for k
      using refs_of_filter [of "hs_requests s" k "\<lambda>rq. hr_queue rq = i"] by (simp add: queued_def)
    have q1: "queued i s1 = queued i s" using s1h(2) by (simp add: queued_def)
    have kd: "?d \<in> set (kids (Queue q))" by simp
    have "0 < outside ?h s ?d + ?D ?d" by simp
    then obtain cd bd where "hs_heap s1 ?d = Some (cd, bd)" by (rule exact_live [OF ex1])
    moreover have "kind_of bd = Device_Kind" using exactD(6) [OF ex1 _ kd calculation, of i 0] s1h(1) by simp
    ultimately obtain fd where dev: "hs_heap s1 ?d = Some (cd, Device fd)" by (cases bd) auto
    have "\<exists>s2. xrp_queue_destroy self i s1 = Some s2 \<and> exact ?Z (\<lambda>k. outside ?h s2 k + ?D k) s2 \<and> requests_ok s2 \<and>
      bodies_from s1 s2 \<and> hs_heap s2 i = Some (0, Queue q) \<and> (\<forall>rq \<in> set (hs_requests s2). hr_queue rq \<noteq> i)"
    proof (cases self)
      case True
      let ?s2 = "s1\<lparr>hs_requests := ?rest, hs_lost := hs_lost s1 @ queued i s\<rparr>"
      have "xrp_queue_destroy self i s1 = Some ?s2" using True s1h(2) q1 by (simp add: xrp_queue_destroy_def)
      moreover have "outside ?h ?s2 = outside ?h s" using split s1h by (simp add: fun_eq_iff outside_def)
      then have "exact ?Z (\<lambda>k. outside ?h ?s2 k + ?D k) ?s2" using exact_heap_cong [OF ex1, of ?s2] by simp
      moreover have "requests_ok ?s2"
      proof (rule requests_okI)
        show "request_ok ?s2 rq" if "rq \<in> set (hs_requests ?s2) \<union> set (hs_lost ?s2)" for rq
          using rok1 [of rq] that s1h(3) request_ok_cong [of ?s2 s1] by (auto simp: queued_def)
        show "\<exists>c q. hs_heap ?s2 (hr_queue rq) = Some (c, Queue q) \<and> 0 < c" if "rq \<in> set (hs_requests ?s2)" for rq
          using live1 [of rq] that by simp
      qed
      ultimately show ?thesis using s1h by (intro exI [of _ ?s2]) (auto simp: bodies_from_def)
    next
      case False
      let ?t = "s1\<lparr>hs_requests := ?rest\<rparr>" and ?K = "{Device_Kind, Buffer_Kind, Group_Kind}"
      let ?r = "\<lambda>k. outside ?h s k + ?D k"
      have ext: "exact ?Z ?r ?t" using exact_heap_cong [OF ex1, of ?t] by simp
      have le: "refs_of (queued i s) k \<le> outside ?h s k" for k using split [of k] by (simp add: outside_def)
      have ok: "hr_queue rq = i \<and> hr_event rq = None \<and> request_ok ?t rq" if "rq \<in> set (queued i s)" for rq
      proof -
        have "rq \<in> set (hs_requests s)" "hr_queue rq = i" using that by (auto simp: queued_def)
        then show ?thesis using rok1 [of rq] noev [OF that] by (simp add: request_ok_def)
      qed
      have dpos: "0 < ?r ?d - refs_of (queued i s) ?d" using le [of ?d] by simp
      have le2: "refs_of (queued i s) k \<le> ?r k" for k using le [of k] by simp
      have ti: "hs_heap ?t i = Some (0, Queue q)" and td: "hs_heap ?t ?d = Some (cd, Device fd)" using s1h(1) dev by simp_all
      obtain u where u: "drain (queued i s) ?t = Some u" "exact ?Z (\<lambda>k. ?r k - refs_of (queued i s) k) u" "shrinks ?K ?t u"
        using drain_ok [OF ext ti dpos le2 ok td] by blast
      have ureq: "hs_requests u = ?rest" "hs_lost u = hs_lost s" using u(3) s1h(3) by (simp_all add: shrinks_def)
      have uo: "(\<lambda>k. ?r k - refs_of (queued i s) k) = (\<lambda>k. outside ?h u k + ?D k)"
        using split le by (auto simp: fun_eq_iff outside_def ureq)
      have exu: "exact ?Z (\<lambda>k. outside ?h u k + ?D k) u" using u(2) uo by simp
      have "requests_ok ?t"
      proof (rule requests_okI)
        show "request_ok ?t rq" if "rq \<in> set (hs_requests ?t) \<union> set (hs_lost ?t)" for rq
          using rok1 [of rq] that s1h(3) request_ok_cong [of ?t s1] by auto
        show "\<exists>c q. hs_heap ?t (hr_queue rq) = Some (c, Queue q) \<and> 0 < c" if "rq \<in> set (hs_requests ?t)" for rq
          using live1 [of rq] that by simp
      qed
      then have "requests_ok u" by (rule requests_ok_shrinks [OF _ u(3) exu]) (simp add: outside_def)
      moreover have "hs_heap u i = Some (0, Queue q)" using u(3) ti by (simp add: shrinks_def)
      moreover have "bodies_from s1 u" using shrinks_bodies [OF u(3)] by (simp add: bodies_from_def)
      ultimately show ?thesis using False s1h(2) q1 u(1) exu ureq by (intro exI [of _ u]) (simp add: xrp_queue_destroy_def)
    qed
    then obtain s2 where s2: "xrp_queue_destroy self i s1 = Some s2" "exact ?Z (\<lambda>k. outside ?h s2 k + ?D k) s2" "requests_ok s2"
      "bodies_from s1 s2" "hs_heap s2 i = Some (0, Queue q)" "\<forall>rq \<in> set (hs_requests s2). hr_queue rq \<noteq> i" by blast
    have pd: "0 < outside ?h s2 ?d + ?D ?d" by simp
    then obtain cd2 bd2 where d2: "hs_heap s2 ?d = Some (cd2, bd2)" by (rule exact_live [OF s2(2)])
    then have dev2: "hs_heap s2 ?d = Some (cd2, Device fd)" using s2(4) dev unfolding bodies_from_def by fastforce
    obtain s3 where s3: "xrp_release_device ?d s2 = Some s3"
      "exact ?Z ((\<lambda>k. outside ?h s2 k + ?D k)(?d := outside ?h s2 ?d + ?D ?d - 1)) s3" "shrinks {Device_Kind} s2 s3"
      using release_device_ok [OF s2(2) pd dev2] by blast
    have "(\<lambda>k. outside ?h s2 k + ?D k)(?d := outside ?h s2 ?d + ?D ?d - 1) = outside ?h s3"
      using s3(3) by (auto simp: fun_eq_iff outside_def shrinks_def)
    then have ex3: "exact ?Z (outside ?h s3) s3" using s3(2) by simp
    have r3: "requests_ok s3"
      by (rule requests_ok_shrinks [OF s2(3) shrinks_mono [OF s3(3)] ex3]) (auto simp: outside_def)
    have i3: "hs_heap s3 i = Some (0, Queue q)" using s3(3) s2(5) by (simp add: shrinks_def)
    let ?t = "free_object i s3"
    have t: "hs_requests ?t = hs_requests s3" "hs_lost ?t = hs_lost s3" by (simp_all add: free_object_def)
    have "exact Z (outside ?h ?t) ?t"
      using free_exact [OF ex3 2(4)] t by (simp add: outside_def [abs_def])
    moreover have "requests_ok ?t"
    proof -
      have "\<forall>rq \<in> set (hs_requests s3). hr_queue rq \<noteq> i" using s2(6) s3(3) by (simp add: shrinks_def)
      then have q: "\<exists>c q. hs_heap ?t (hr_queue rq) = Some (c, Queue q) \<and> 0 < c" if "rq \<in> set (hs_requests ?t)" for rq
        using requests_okD(2) [OF r3, of rq] that t by (simp add: free_object_def)
      have "request_ok ?t rq" if "rq \<in> set (hs_requests ?t) \<union> set (hs_lost ?t)" for rq
        using requests_okD(1) [OF r3, of rq] that t i3 unfolding request_ok_def free_object_def by fastforce
      then show ?thesis using q by (rule requests_okI)
    qed
    moreover have "bodies_from s ?t"
    proof -
      have "bodies_from s s1" by (rule shrinks_bodies [OF 2(2)])
      moreover have "bodies_from s3 ?t" by (auto simp: bodies_from_def free_object_def)
      ultimately show ?thesis using s2(4) shrinks_bodies [OF s3(3)] bodies_trans by blast
    qed
    ultimately show ?thesis using 2(1) s2(1) s3(1) by (simp add: xrp_release_queue_def)
  qed
qed

text \<open>A change of the counter of an event, or of its status.\<close>

lemma requests_ok_event:
  assumes "requests_ok s" "hs_heap s e = Some (c, Event ev)" "he_queue ev' = he_queue ev"
  shows "requests_ok (s\<lparr>hs_heap := (hs_heap s)(e \<mapsto> (c', Event ev'))\<rparr>)" (is "requests_ok ?t")
proof (rule requests_okI)
  fix rq assume "rq \<in> set (hs_requests ?t) \<union> set (hs_lost ?t)"
  then have ok: "request_ok s rq" using requests_okD(1) [OF assms(1)] by simp
  have "\<exists>c gr. hs_heap ?t g = Some (c, Group gr)" if "hr_group rq = Some g" for g
    using ok that assms(2) unfolding request_ok_def by (cases "g = e") auto
  moreover have "\<exists>c ev. hs_heap ?t f = Some (c, Event ev) \<and> he_queue ev = Some (hr_queue rq)" if "hr_event rq = Some f" for f
    using ok that assms(2,3) unfolding request_ok_def by (cases "f = e") auto
  ultimately show "request_ok ?t rq" by (simp add: request_ok_def)
next
  fix rq assume "rq \<in> set (hs_requests ?t)"
  then obtain c q where "hs_heap s (hr_queue rq) = Some (c, Queue q)" "0 < c" using requests_okD(2) [OF assms(1), of rq] by auto
  then show "\<exists>c q. hs_heap ?t (hr_queue rq) = Some (c, Queue q) \<and> 0 < c" using assms(2) by auto
qed

lemma release_event_ok:
  assumes "exact Z (outside h s) s" "0 < h e" "hs_heap s e = Some (c, Event ev)" "requests_ok s"
  shows "\<exists>t. xrp_release_event self e s = Some t \<and> exact Z (outside (h(e := h e - 1)) t) t \<and> requests_ok t \<and>
    bodies_from s t"
proof -
  let ?h = "h(e := h e - 1)"
  have pos: "0 < outside h s e" using assms(2) by (simp add: outside_def)
  have out: "(outside h s)(e := outside h s e - 1) = outside ?h s" using assms(2) by (auto simp: outside_def fun_eq_iff)
  show ?thesis
  proof (cases rule: release_cases [OF assms(1) pos assms(3)])
    case (1 s1)
    have "outside ?h s1 = outside ?h s" unfolding 1(4) by (simp add: outside_def fun_eq_iff)
    then have "exact Z (outside ?h s1) s1" using 1(3) by (simp only: out)
    moreover have "requests_ok s1" unfolding 1(4) by (rule requests_ok_event [OF assms(4,3) refl])
    ultimately show ?thesis using 1(1) shrinks_bodies [OF 1(2)] by (simp add: xrp_release_event_def)
  next
    case (2 s1)
    obtain q where q: "he_queue ev = Some q" using exactD(4) [OF 2(5,3)] by auto
    let ?h2 = "\<lambda>k. ?h k + count_list [q] k"
    have r1: "requests_ok s1" unfolding 2(6) by (rule requests_ok_event [OF assms(4,3) refl])
    have "(\<lambda>k. ((outside h s)(e := outside h s e - 1)) k + count_list (kids (Event ev)) k) = outside ?h2 s1"
      unfolding out unfolding 2(6) by (simp add: outside_def fun_eq_iff q)
    then have ex1: "exact (insert e Z) (outside ?h2 s1) s1" using 2(5) by (simp only:)
    have qpos: "0 < ?h2 q" by simp
    then have "0 < outside ?h2 s1 q" by (simp add: outside_def)
    then obtain cq bq where "hs_heap s1 q = Some (cq, bq)" by (rule exact_live [OF ex1])
    moreover have "kind_of bq = Queue_Kind" using exactD(6) [OF ex1 2(3), of q cq bq] calculation q by simp
    ultimately obtain qb where qb: "hs_heap s1 q = Some (cq, Queue qb)" by (cases bq) auto
    obtain t where t: "xrp_release_queue self q s1 = Some t" "exact (insert e Z) (outside (?h2(q := ?h2 q - 1)) t) t"
      "requests_ok t" "bodies_from s1 t"
      using release_queue_ok [OF ex1 qpos qb r1] by blast
    have "?h2(q := ?h2 q - 1) = ?h" by (auto simp: fun_eq_iff)
    then have ext: "exact (insert e Z) (outside ?h t) t" using t(2) by simp
    have "exact_at (insert e Z) (outside ?h t) (hs_heap t) e" by (rule exactD(3) [OF ext])
    then obtain be where te: "hs_heap t e = Some (0, be)" "outside ?h t e = 0" by (auto simp: exact_at_def split: option.splits)
    have "be = Event ev" using t(4) te(1) 2(3) unfolding bodies_from_def by fastforce
    note te = te [unfolded this]
    let ?u = "free_object e t"
    have u: "hs_requests ?u = hs_requests t" "hs_lost ?u = hs_lost t" by (simp_all add: free_object_def)
    have "outside ?h ?u = outside ?h t" using u by (simp add: outside_def fun_eq_iff)
    then have "exact Z (outside ?h ?u) ?u" using free_exact [OF ext 2(4)] by simp
    moreover have "requests_ok ?u"
    proof (rule requests_okI)
      fix rq assume rq: "rq \<in> set (hs_requests ?u) \<union> set (hs_lost ?u)"
      have ok: "request_ok t rq" using requests_okD(1) [OF t(3)] rq u by simp
      have "count_list (request_refs rq) e = 0"
        using rq u refs_of_mem [of rq "hs_requests t" e] refs_of_mem [of rq "hs_lost t" e] te(2) by (auto simp: outside_def)
      then have ne: "hr_event rq \<noteq> Some e" by (auto simp: request_refs_def)
      then show "request_ok ?u rq" using ok te(1) unfolding request_ok_def free_object_def by fastforce
    next
      fix rq assume "rq \<in> set (hs_requests ?u)"
      then obtain c q where "hs_heap t (hr_queue rq) = Some (c, Queue q)" "0 < c" using requests_okD(2) [OF t(3), of rq] u by auto
      then show "\<exists>c q. hs_heap ?u (hr_queue rq) = Some (c, Queue q) \<and> 0 < c" using te(1) by (auto simp: free_object_def)
    qed
    moreover have "bodies_from s ?u"
    proof -
      have "bodies_from t ?u" by (auto simp: bodies_from_def free_object_def)
      then show ?thesis using shrinks_bodies [OF 2(2)] t(4) bodies_trans by blast
    qed
    ultimately show ?thesis using 2(1) q t(1) by (simp add: xrp_release_event_def)
  qed
qed

lemma process_ok:
  assumes "exact {} (\<lambda>k. outside h s k + count_list (request_refs rq) k) s" "requests_ok s" "request_ok s rq"
    and "\<exists>c q. hs_heap s (hr_queue rq) = Some (c, Queue q) \<and> 0 < c"
  shows "\<exists>t. xrp_request_process rq ret s = Some t \<and> exact {} (outside h t) t \<and> requests_ok t \<and>
    (\<forall>e. hr_event rq = Some e \<longrightarrow> 0 < h e \<longrightarrow>
      xrp_event_status e t = Some (if ret then XRP_STATUS_SUCCESS else XRP_STATUS_FAILURE))"
proof -
  let ?K = "{Device_Kind, Buffer_Kind, Group_Kind}" and ?gs = "case hr_group rq of None \<Rightarrow> [] | Some g \<Rightarrow> [g]"
  let ?es = "case hr_event rq of None \<Rightarrow> [] | Some e \<Rightarrow> [e]"
  let ?r = "\<lambda>k. outside h s k + count_list (request_refs rq) k"
  have refs: "count_list (request_refs rq) k = count_list ?es k + count_list ?gs k" for k by (simp add: request_refs_def)
  obtain cq q where q: "hs_heap s (hr_queue rq) = Some (cq, Queue q)" using assms(4) by blast
  have "hq_device q \<in> set (kids (Queue q))" by simp
  then obtain cd bd where d: "hs_heap s (hq_device q) = Some (cd, bd)" "kind_of bd = Device_Kind"
    using kid_live [OF assms(1) q] by force
  then obtain fd where dev: "hs_heap s (hq_device q) = Some (cd, Device fd)" by (cases bd) auto
  have grp: "0 < ?r g \<and> (\<exists>c b. hs_heap s g = Some (c, Group b))" if "hr_group rq = Some g" for g
    using assms(3) that by (auto simp: request_ok_def request_refs_def)
  obtain args where args: "xrp_run_command rq s = Some args"
    using run_command_ok [OF assms(1) q dev] grp by blast
  obtain t where t: "release_group_option (hr_group rq) s = Some t" "exact {} (\<lambda>k. ?r k - count_list ?gs k) t" "shrinks ?K s t"
    using release_group_option_ok [OF assms(1) grp] by blast
  have req: "hs_requests t = hs_requests s" "hs_lost t = hs_lost s" using t(3) by (simp_all add: shrinks_def)
  have "(\<lambda>k. ?r k - count_list ?gs k) = outside (\<lambda>k. h k + count_list ?es k) t"
    using refs req by (simp add: fun_eq_iff outside_def)
  then have ext: "exact {} (outside (\<lambda>k. h k + count_list ?es k) t) t" using t(2) by simp
  have rt: "requests_ok t" by (rule requests_ok_shrinks [OF assms(2) t(3) ext]) (simp add: outside_def)
  show ?thesis
  proof (cases "hr_event rq")
    case None
    then show ?thesis using args t(1) ext rt by (simp add: xrp_request_process_def)
  next
    case (Some e)
    obtain c ev where ev: "hs_heap s e = Some (c, Event ev)" "he_queue ev = Some (hr_queue rq)"
      using assms(3) Some by (auto simp: request_ok_def)
    have te: "hs_heap t e = Some (c, Event ev)" using ev(1) t(3) by (simp add: shrinks_def)
    let ?st = "if ret then XRP_STATUS_SUCCESS else XRP_STATUS_FAILURE"
    let ?ev = "ev\<lparr>he_status := ?st\<rparr>"
    let ?u = "t\<lparr>hs_heap := (hs_heap t)(e \<mapsto> (c, Event ?ev))\<rparr>"
    have b: "xrp_impl_broadcast_event e ?st t = Some ?u" using te by (simp add: xrp_impl_broadcast_event_def set_body_def)
    have live: "c = outside (\<lambda>k. h k + count_list ?es k) t e + held {} (hs_heap t) e" "0 < c"
      using exactD(3) [OF ext, of e] te by (auto simp: exact_at_def)
    have "exact {} (outside (\<lambda>k. h k + count_list ?es k) t) ?u"
      using no_self_kid [OF ext te] exactD(4-6) [OF ext te] live
      by (intro exact_update [OF ext te]) auto
    moreover have "outside (\<lambda>k. h k + count_list ?es k) t = outside (\<lambda>k. h k + count_list ?es k) ?u"
      by (simp add: outside_def fun_eq_iff)
    ultimately have exu: "exact {} (outside (\<lambda>k. h k + count_list ?es k) ?u) ?u" by simp
    have ru: "requests_ok ?u" by (rule requests_ok_event [OF rt te]) simp
    have ue: "hs_heap ?u e = Some (c, Event ?ev)" by simp
    have hp: "0 < h e + count_list ?es e" using Some by simp
    obtain v where v: "xrp_release_event True e ?u = Some v"
      "exact {} (outside ((\<lambda>k. h k + count_list ?es k)(e := h e + count_list ?es e - 1)) v) v" "requests_ok v" "bodies_from ?u v"
      using release_event_ok [OF exu hp ue ru] by blast
    have "(\<lambda>k. h k + count_list ?es k)(e := h e + count_list ?es e - 1) = h" using Some by (auto simp: fun_eq_iff)
    then have ev_: "exact {} (outside h v) v" using v(2) by simp
    have "xrp_event_status e v = Some ?st" if "0 < h e"
    proof -
      have "0 < outside h v e" using that by (simp add: outside_def)
      then obtain c' b' where e': "hs_heap v e = Some (c', b')" by (rule exact_live [OF ev_])
      then have "b' = Event ?ev" using v(4) ue unfolding bodies_from_def by fastforce
      then show ?thesis using e' by (simp add: xrp_event_status_def)
    qed
    then show ?thesis using args t(1) Some b v(1,3) ev_ by (simp add: xrp_request_process_def)
  qed
qed

section \<open>A client\<close>

text \<open>
  A program that uses the library: \<open>h\<close> counts the references it holds, a mapping of a buffer being
  one. \<open>Release\<close> is the release function of the object's type; \<open>Serve\<close> is the worker of a queue
  running its next request. The program is allowed to pass objects it holds a reference of, to the
  functions for their type.
\<close>

datatype host_op =
  Open_Device "nat option" bool
| Create_Buffer "nat option" u64 u64 bool "(u64 \<times> u64) option"
| Create_Group bool
| Create_Queue nat "u8 list option" u32 bool
| Enqueue nat "u8 list" u64 u64 "nat option" bool bool bool
| Retain nat
| Release nat
| Map_Buffer nat u64 u64 u32
| Unmap_Buffer nat u64
| Add_Buffer nat nat u32 bool
| Set_Buffer nat nat nat u32
| Serve nat bool

type_synonym client = "(nat \<Rightarrow> nat) \<times> host_state"

definition release_object :: "nat \<Rightarrow> host_state \<Rightarrow> host_state option" where
  "release_object i s =
     (case hs_heap s i of
        None \<Rightarrow> None
      | Some (c, Device _) \<Rightarrow> xrp_release_device i s
      | Some (c, Buffer _) \<Rightarrow> xrp_release_buffer i s
      | Some (c, Group _) \<Rightarrow> xrp_release_buffer_group i s
      | Some (c, Queue _) \<Rightarrow> xrp_release_queue False i s
      | Some (c, Event _) \<Rightarrow> xrp_release_event False i s)"

definition got :: "(nat \<Rightarrow> nat) \<Rightarrow> (nat option \<times> xrp_status) \<times> host_state \<Rightarrow> client" where
  "got h res = (case fst (fst res) of None \<Rightarrow> h | Some i \<Rightarrow> h(i := h i + 1), snd res)"

fun host_exec :: "host_op \<Rightarrow> client \<Rightarrow> client option" where
  "host_exec (Open_Device fd ok) (h, s) = Some (got h (xrp_open_device fd ok s))"
| "host_exec (Create_Buffer d sz p ok io) (h, s) = map_option (got h) (xrp_create_buffer d sz p ok io s)"
| "host_exec (Create_Group ok) (h, s) = Some (got h (xrp_create_buffer_group ok s))"
| "host_exec (Create_Queue d nsid prio ok) (h, s) = map_option (got h) (xrp_create_nsp_queue d nsid prio ok s)"
| "host_exec (Enqueue q inp out n gr evt ok1 ok2) (h, s) =
    map_option (got h) (xrp_enqueue_command q inp out n gr evt ok1 ok2 s)"
| "host_exec (Retain i) (h, s) = map_option (Pair (h(i := h i + 1))) (retain_refcounted i s)"
| "host_exec (Release i) (h, s) = map_option (Pair (h(i := h i - 1))) (release_object i s)"
| "host_exec (Map_Buffer i off sz fl) (h, s) =
    map_option (\<lambda>((p, st), t). (if p = None then h else h(i := h i + 1), t)) (xrp_map_buffer i off sz fl s)"
| "host_exec (Unmap_Buffer i p) (h, s) =
    map_option (\<lambda>(st, t). (if st = XRP_STATUS_SUCCESS then h(i := h i - 1) else h, t)) (xrp_unmap_buffer i p s)"
| "host_exec (Add_Buffer g b fl ok) (h, s) = map_option (\<lambda>(x, t). (h, t)) (xrp_add_buffer_to_group g b fl ok s)"
| "host_exec (Set_Buffer g n b fl) (h, s) = map_option (\<lambda>(x, t). (h, t)) (xrp_set_buffer_in_group g n b fl s)"
| "host_exec (Serve q ret) (h, s) = map_option (Pair h) (serve q ret s)"

definition holds_ref :: "client \<Rightarrow> nat \<Rightarrow> kind \<Rightarrow> bool" where
  "holds_ref c i K \<longleftrightarrow> 0 < fst c i \<and> (case hs_heap (snd c) i of None \<Rightarrow> False | Some (n, b) \<Rightarrow> kind_of b = K)"

fun allowed :: "host_op \<Rightarrow> client \<Rightarrow> bool" where
  "allowed (Create_Buffer d sz p ok io) c = (case d of None \<Rightarrow> True | Some i \<Rightarrow> holds_ref c i Device_Kind)"
| "allowed (Create_Queue d nsid prio ok) c = holds_ref c d Device_Kind"
| "allowed (Enqueue q inp out n gr evt ok1 ok2) c =
    (holds_ref c q Queue_Kind \<and> (case gr of None \<Rightarrow> True | Some g \<Rightarrow> holds_ref c g Group_Kind))"
| "allowed (Retain i) c = (0 < fst c i)"
| "allowed (Release i) c = (0 < fst c i)"
| "allowed (Map_Buffer i off sz fl) c = holds_ref c i Buffer_Kind"
| "allowed (Unmap_Buffer i p) c = holds_ref c i Buffer_Kind"
| "allowed (Add_Buffer g b fl ok) c = (holds_ref c g Group_Kind \<and> holds_ref c b Buffer_Kind)"
| "allowed (Set_Buffer g n b fl) c = (holds_ref c g Group_Kind \<and> holds_ref c b Buffer_Kind)"
| "allowed _ c = True"

definition host_inv :: "(nat \<Rightarrow> nat) \<Rightarrow> host_state \<Rightarrow> bool" where
  "host_inv h s \<longleftrightarrow> exact {} (outside h s) s \<and> requests_ok s"

text \<open>Releases and operations that leave the requests alone keep the invariant.\<close>

lemma inv_shrinks:
  assumes "host_inv h s" "exact {} r t" "shrinks {Device_Kind, Buffer_Kind, Group_Kind} s t" "r = outside h' s"
  shows "host_inv h' t"
proof -
  have req: "hs_requests t = hs_requests s" "hs_lost t = hs_lost s" using assms(3) by (simp_all add: shrinks_def)
  then have o': "outside h' t = outside h' s" by (simp add: outside_def fun_eq_iff)
  have "requests_ok t"
    by (rule requests_ok_shrinks [OF _ assms(3,2)]) (use assms(1,4) req in \<open>auto simp: host_inv_def outside_def\<close>)
  then show ?thesis using assms(2,4) o' by (simp add: host_inv_def)
qed

lemma outside_minus: "0 < h i \<Longrightarrow> (outside h s)(i := outside h s i - 1) = outside (h(i := h i - 1)) s"
  by (auto simp: outside_def fun_eq_iff)

lemma outside_plus: "(outside h s)(i := outside h s i + 1) = outside (h(i := h i + 1)) s"
  by (auto simp: outside_def fun_eq_iff)

lemma outside_pos: "0 < h i \<Longrightarrow> 0 < outside h s i"
  by (simp add: outside_def)

lemma release_object_ok:
  assumes "host_inv h s" "0 < h i"
  shows "\<exists>t. release_object i s = Some t \<and> host_inv (h(i := h i - 1)) t"
proof -
  have ex: "exact {} (outside h s) s" "requests_ok s" using assms(1) by (auto simp: host_inv_def)
  have pos: "0 < outside h s i" by (rule outside_pos) (rule assms(2))
  have minus: "(outside h s)(i := outside h s i - 1) = outside (h(i := h i - 1)) s"
    by (rule outside_minus) (rule assms(2))
  have keep: "host_inv (h(i := h i - 1)) t"
    if "exact {} ((outside h s)(i := outside h s i - 1)) t" "shrinks {Device_Kind, Buffer_Kind, Group_Kind} s t" for t
    by (rule inv_shrinks [OF assms(1) that minus])
  obtain c b where i: "hs_heap s i = Some (c, b)" using exact_live [OF ex(1) pos] by blast
  show ?thesis
  proof (cases b)
    case (Device fd)
    obtain t where "xrp_release_device i s = Some t" "exact {} ((outside h s)(i := outside h s i - 1)) t" "shrinks {Device_Kind} s t"
      using release_device_ok [OF ex(1) pos i [unfolded Device]] by blast
    then show ?thesis
      using keep [OF _ shrinks_mono, of t "{Device_Kind}"] i Device by (auto simp: release_object_def)
  next
    case (Buffer bf)
    obtain t where "xrp_release_buffer i s = Some t" "exact {} ((outside h s)(i := outside h s i - 1)) t"
      "shrinks {Device_Kind, Buffer_Kind} s t"
      using release_buffer_ok [OF ex(1) pos i [unfolded Buffer]] by blast
    then show ?thesis
      using keep [OF _ shrinks_mono, of t "{Device_Kind, Buffer_Kind}"] i Buffer by (auto simp: release_object_def)
  next
    case (Group g)
    obtain t where "xrp_release_buffer_group i s = Some t" "exact {} ((outside h s)(i := outside h s i - 1)) t"
      "shrinks {Device_Kind, Buffer_Kind, Group_Kind} s t"
      using release_group_ok [OF ex(1) pos i [unfolded Group]] by blast
    then show ?thesis
      using keep [of t] i Group by (auto simp: release_object_def)
  next
    case (Queue q)
    then show ?thesis
      using release_queue_ok [OF ex(1) assms(2) _ ex(2), of c q False] i by (auto simp: release_object_def host_inv_def)
  next
    case (Event ev)
    then show ?thesis
      using release_event_ok [OF ex(1) assms(2) _ ex(2), of c ev False] i by (auto simp: release_object_def host_inv_def)
  qed
qed

text \<open>The parts the operations are made of: changing one entry, taking a reference, a new object.\<close>

lemma requests_ok_upd:
  assumes "requests_ok s" "hs_heap s i = Some (c, b)" "0 < c'" "kind_of b' = kind_of b" "kind_of b = Event_Kind \<Longrightarrow> b' = b"
  shows "requests_ok (s\<lparr>hs_heap := (hs_heap s)(i \<mapsto> (c', b'))\<rparr>)" (is "requests_ok ?t")
proof (rule requests_okI)
  fix rq assume "rq \<in> set (hs_requests ?t) \<union> set (hs_lost ?t)"
  then have ok: "request_ok s rq" using requests_okD(1) [OF assms(1)] by simp
  have "\<exists>c gr. hs_heap ?t g = Some (c, Group gr)" if "hr_group rq = Some g" for g
    using ok that assms(2,4) unfolding request_ok_def by (cases "g = i"; cases b') auto
  moreover have "\<exists>c ev. hs_heap ?t f = Some (c, Event ev) \<and> he_queue ev = Some (hr_queue rq)" if "hr_event rq = Some f" for f
    using ok that assms(2,4,5) unfolding request_ok_def by (cases "f = i") auto
  ultimately show "request_ok ?t rq" by (simp add: request_ok_def)
next
  fix rq assume "rq \<in> set (hs_requests ?t)"
  then obtain cq q where "hs_heap s (hr_queue rq) = Some (cq, Queue q)" "0 < cq"
    using requests_okD(2) [OF assms(1), of rq] by auto
  then show "\<exists>c q. hs_heap ?t (hr_queue rq) = Some (c, Queue q) \<and> 0 < c"
    using assms(2-4) by (cases "hr_queue rq = i"; cases b') auto
qed

lemma inv_update:
  assumes "host_inv h s" "hs_heap s i = Some (c, b)"
    and "kind_of b' = kind_of b" "body_ok b'" "kind_of b = Event_Kind \<Longrightarrow> b' = b"
      "\<And>k. k \<in> set (kids b') \<Longrightarrow> k \<in> set (kids b) \<or> (\<exists>n b''. hs_heap s k = Some (n, b'') \<and> kind_of b'' = kid_kind (kind_of b))"
      "\<And>k. h' k + count_list (kids b') k + (if k = i then c else 0) = h k + count_list (kids b) k + (if k = i then c' else 0)"
      "0 < c'"
  shows "host_inv h' (s\<lparr>hs_heap := (hs_heap s)(i \<mapsto> (c', b'))\<rparr>)"
proof -
  let ?t = "s\<lparr>hs_heap := (hs_heap s)(i \<mapsto> (c', b'))\<rparr>"
  have ex: "exact {} (outside h s) s" and ok: "requests_ok s" using assms(1) by (auto simp: host_inv_def)
  note self = no_self_kid [OF ex assms(2)]
  have self': "i \<notin> set (kids b')"
  proof
    assume "i \<in> set (kids b')"
    then have "kind_of b = kid_kind (kind_of b)" using assms(2,6) self by force
    then have "kids b' = []" using assms(3) by (cases b; cases b') auto
    then show False using \<open>i \<in> set (kids b')\<close> by simp
  qed
  have at: "c = outside h s i + held {} (hs_heap s) i"
    using exactD(3) [OF ex, of i] assms(2) by (simp add: exact_at_def)
  have "exact {} (outside h' s) ?t"
  proof (rule exact_update [OF ex assms(2) _ assms(3,4) _ self self'])
    fix k assume k: "k \<in> set (kids b')"
    show "k < hs_next s \<and> (\<forall>c' b''. hs_heap s k = Some (c', b'') \<longrightarrow> kind_of b'' = kid_kind (kind_of b))"
    proof (cases "k \<in> set (kids b)")
      case True
      then show ?thesis using exactD(5,6) [OF ex assms(2)] by blast
    next
      case False
      then obtain n b'' where "hs_heap s k = Some (n, b'')" "kind_of b'' = kid_kind (kind_of b)" using assms(6) [OF k] by blast
      moreover have "k < hs_next s" using calculation exactD(2) [OF ex, of k] by (cases "hs_next s \<le> k") auto
      ultimately show ?thesis by simp
    qed
  next
    show "outside h' s k + count_list (kids b') k = outside h s k + count_list (kids b) k" if "k \<noteq> i" for k
      using assms(7) [of k] that by (simp add: outside_def)
    have "count_list (kids b) i = 0" "count_list (kids b') i = 0" using self self' by (simp_all add: count_list_0_iff)
    then show "c' = outside h' s i + held {} (hs_heap s) i"
      using assms(7) [of i] at by (simp add: outside_def)
  qed (use assms(8) in auto)
  moreover have "outside h' ?t = outside h' s" by (simp add: outside_def fun_eq_iff)
  ultimately show ?thesis using requests_ok_upd [OF ok assms(2,8,3,5)] by (simp add: host_inv_def)
qed

lemma retain_ok:
  assumes "host_inv h s" "0 < h i"
  shows "\<exists>t c b. retain_refcounted i s = Some t \<and> hs_heap s i = Some (c, b) \<and> 0 < c \<and>
    t = s\<lparr>hs_heap := (hs_heap s)(i \<mapsto> (c + 1, b))\<rparr> \<and> host_inv (h(i := h i + 1)) t"
proof -
  have ex: "exact {} (outside h s) s" using assms(1) by (simp add: host_inv_def)
  have pos: "0 < outside h s i" by (rule outside_pos) (rule assms(2))
  obtain c b where i: "hs_heap s i = Some (c, b)" "c = outside h s i + held {} (hs_heap s) i"
    using exact_live [OF ex pos] by blast
  have "0 < c" using i(2) pos by simp
  have "host_inv (h(i := h i + 1)) (s\<lparr>hs_heap := (hs_heap s)(i \<mapsto> (c + 1, b))\<rparr>)"
    by (rule inv_update [OF assms(1) i(1)]) (use exactD(4) [OF ex i(1)] in auto)
  then show ?thesis using i(1) \<open>0 < c\<close> by (simp add: retain_refcounted_def)
qed

lemma inv_none: "host_inv h s \<Longrightarrow> hs_heap s (hs_next s) = None \<and> h (hs_next s) = 0"
proof -
  assume inv: "host_inv h s"
  then have ex: "exact {} (outside h s) s" by (simp add: host_inv_def)
  have n: "hs_heap s (hs_next s) = None" by (rule exactD(2) [OF ex]) simp
  then have "outside h s (hs_next s) = 0" using exactD(3) [OF ex, of "hs_next s"] by (simp add: exact_at_def)
  then show ?thesis using n by (simp add: outside_def)
qed

lemma alloc_ok:
  assumes "host_inv h s" "body_ok b"
    and "\<And>k. k \<in> set (kids b) \<Longrightarrow> \<exists>c b'. hs_heap s k = Some (c, b') \<and> kind_of b' = kid_kind (kind_of b)"
    and "\<And>k. k \<noteq> hs_next s \<Longrightarrow> h' k + count_list (kids b) k = h k" "h' (hs_next s) = 1"
  shows "host_inv h' (snd (alloc_refcounted b s))"
proof -
  let ?n = "hs_next s" and ?t = "snd (alloc_refcounted b s)"
  have ex: "exact {} (outside h s) s" and ok: "requests_ok s" using assms(1) by (auto simp: host_inv_def)
  have n: "hs_heap s ?n = None" using inv_none [OF assms(1)] by blast
  have z: "outside h s ?n = 0" using exactD(3) [OF ex, of ?n] n by (simp add: exact_at_def)
  have "exact {} (outside h' s) ?t"
  proof (rule alloc_exact [OF ex assms(2)])
    show "k < ?n \<and> (\<forall>c' b'. hs_heap s k = Some (c', b') \<longrightarrow> kind_of b' = kid_kind (kind_of b))"
      if "k \<in> set (kids b)" for k
      using assms(3) [OF that] exactD(2) [OF ex, of k] by (cases "?n \<le> k") auto
    show "outside h' s k + count_list (kids b) k = outside h s k" if "k \<noteq> ?n" for k
      using assms(4) [OF that] by (simp add: outside_def)
    show "outside h' s ?n = 1" using z assms(5) by (simp add: outside_def)
  qed
  moreover have "outside h' ?t = outside h' s" by (simp add: outside_def alloc_refcounted_def fun_eq_iff)
  moreover have "requests_ok ?t"
  proof (rule requests_okI)
    fix rq assume "rq \<in> set (hs_requests ?t) \<union> set (hs_lost ?t)"
    then have "request_ok s rq" using requests_okD(1) [OF ok] by (simp add: alloc_refcounted_def)
    then show "request_ok ?t rq" using n unfolding request_ok_def alloc_refcounted_def by fastforce
  next
    fix rq assume "rq \<in> set (hs_requests ?t)"
    then have "\<exists>c q. hs_heap s (hr_queue rq) = Some (c, Queue q) \<and> 0 < c"
      by (intro requests_okD(2) [OF ok]) (simp add: alloc_refcounted_def)
    then show "\<exists>c q. hs_heap ?t (hr_queue rq) = Some (c, Queue q) \<and> 0 < c"
      using n by (auto simp: alloc_refcounted_def)
  qed
  ultimately show ?thesis by (simp add: host_inv_def)
qed

lemma holds_refD:
  assumes "holds_ref (h, s) i K"
  obtains c b where "0 < h i" "hs_heap s i = Some (c, b)" "kind_of b = K"
  using assms by (auto simp: holds_ref_def split: option.splits)

lemma kind_bodies:
  "kind_of b = Buffer_Kind \<longleftrightarrow> (\<exists>bf. b = Buffer bf)" "kind_of b = Group_Kind \<longleftrightarrow> (\<exists>g. b = Group g)"
  "kind_of b = Device_Kind \<longleftrightarrow> (\<exists>fd. b = Device fd)" "kind_of b = Queue_Kind \<longleftrightarrow> (\<exists>q. b = Queue q)"
  "kind_of b = Event_Kind \<longleftrightarrow> (\<exists>e. b = Event e)"
  by (cases b; simp)+

text \<open>A new object that holds a reference the client took for it.\<close>

lemma alloc_with_kid:
  assumes "host_inv (h(d := h d + 1)) s" "hs_heap s d = Some (c, b')" "kids b = [d]" "body_ok b"
    "kind_of b' = kid_kind (kind_of b)"
  shows "host_inv (h(hs_next s := h (hs_next s) + 1)) (snd (alloc_refcounted b s))"
proof (rule alloc_ok [OF assms(1,4)])
  note n = inv_none [OF assms(1)]
  have ne: "d \<noteq> hs_next s" using n assms(2) by auto
  show "\<exists>c b'. hs_heap s k = Some (c, b') \<and> kind_of b' = kid_kind (kind_of b)" if "k \<in> set (kids b)" for k
    using that assms(2,3,5) by simp
  show "(h(hs_next s := h (hs_next s) + 1)) k + count_list (kids b) k = (h(d := h d + 1)) k" if "k \<noteq> hs_next s" for k
    using that assms(3) by simp
  show "(h(hs_next s := h (hs_next s) + 1)) (hs_next s) = 1" using n ne by simp
qed

lemma open_device_ok:
  assumes "host_inv h s"
  shows "\<exists>h1 t. got h (xrp_open_device fd ok s) = (h1, t) \<and> host_inv h1 t"
proof -
  have a: "host_inv (h(hs_next t := h (hs_next t) + 1)) (snd (alloc_refcounted (Device f) t))" if "host_inv h t" for t f
    using inv_none [OF that] by (intro alloc_ok [OF that]) auto
  have f: "host_inv h (s\<lparr>hs_fds := fds\<rparr>)" for fds
    using assms exact_heap_cong [of "{}" _ s "s\<lparr>hs_fds := fds\<rparr>"]
    by (simp add: host_inv_def outside_def [abs_def] requests_ok_def request_ok_def)
  show ?thesis
    using assms a [OF f] f by (auto simp: xrp_open_device_def got_def Let_def alloc_refcounted_def split: option.splits)
qed

lemma create_group_ok:
  assumes "host_inv h s"
  shows "\<exists>h1 t. got h (xrp_create_buffer_group ok s) = (h1, t) \<and> host_inv h1 t"
proof -
  have "host_inv (h(hs_next s := h (hs_next s) + 1)) (snd (alloc_refcounted (Group \<lparr>hg_capacity = 0, hg_records = []\<rparr>) s))"
    using inv_none [OF assms] by (intro alloc_ok [OF assms]) auto
  then show ?thesis using assms by (auto simp: xrp_create_buffer_group_def got_def Let_def alloc_refcounted_def)
qed

lemma device_retained:
  assumes "host_inv h s" "holds_ref (h, s) d Device_Kind"
  shows "\<exists>t u c fd. retain_refcounted d s = Some t \<and> hs_heap t d = Some (c, Device fd) \<and> host_inv (h(d := h d + 1)) t \<and>
    xrp_release_device d t = Some u \<and> host_inv h u"
proof -
  obtain c0 fd where d: "0 < h d" "hs_heap s d = Some (c0, Device fd)" using assms(2) by (auto elim!: holds_refD simp: kind_bodies)
  obtain t c b where t: "retain_refcounted d s = Some t" "hs_heap s d = Some (c, b)"
    "t = s\<lparr>hs_heap := (hs_heap s)(d \<mapsto> (c + 1, b))\<rparr>" "host_inv (h(d := h d + 1)) t"
    using retain_ok [of h s d] assms(1) d(1) by blast
  have td: "hs_heap t d = Some (c0 + 1, Device fd)" using t(2,3) d(2) by simp
  have "0 < (h(d := h d + 1)) d" by simp
  then obtain u where "release_object d t = Some u" "host_inv ((h(d := h d + 1))(d := (h(d := h d + 1)) d - 1)) u"
    using release_object_ok [OF t(4)] by blast
  then have "xrp_release_device d t = Some u" "host_inv h u" using td by (simp_all add: release_object_def)
  then show ?thesis using t(1,4) td by blast
qed

lemma inv_update_body:
  assumes "host_inv h s" "hs_heap s i = Some (c, b)" "kind_of b' = kind_of b" "body_ok b'" "kids b' = kids b"
    "kind_of b \<noteq> Event_Kind"
  shows "host_inv h (s\<lparr>hs_heap := (hs_heap s)(i \<mapsto> (c, b'))\<rparr>)"
proof (rule inv_update [OF assms(1-4)])
  have "exact_at {} (outside h s) (hs_heap s) i" using assms(1) by (simp add: host_inv_def exactD)
  then show "0 < c" using assms(2) unfolding exact_at_def by auto
qed (use assms(5,6) in simp_all)

lemma inv_heap_cong:
  assumes "host_inv h s" "hs_heap t = hs_heap s" "hs_next t = hs_next s" "hs_requests t = hs_requests s" "hs_lost t = hs_lost s"
  shows "host_inv h t"
  using assms exact_heap_cong [of "{}" _ s t]
  by (simp add: host_inv_def outside_def [abs_def] requests_ok_def request_ok_def)

lemma create_buffer_ok:
  assumes "host_inv h s" "case d of None \<Rightarrow> True | Some i \<Rightarrow> holds_ref (h, s) i Device_Kind"
  shows "\<exists>x. xrp_create_buffer d sz p ok io s = Some x \<and> host_inv (fst (got h x)) (snd (got h x))"
proof (cases "p = 0")
  case False
  let ?b = "Buffer \<lparr>hb_on_device = False, hb_device = None, hb_ptr = p, hb_phy_addr = 0,
              hb_size = sz, hb_map_count = 0, hb_map_flags = 0\<rparr>"
  have "host_inv (h(hs_next s := h (hs_next s) + 1)) (snd (alloc_refcounted ?b s))"
    using inv_none [OF assms(1)] by (intro alloc_ok [OF assms(1)]) auto
  then show ?thesis using False assms(1) by (auto simp: xrp_create_buffer_def got_def Let_def alloc_refcounted_def)
next
  case True
  show ?thesis
  proof (cases "d = None \<or> \<not> ok")
    case True
    then show ?thesis using \<open>p = 0\<close> assms(1) by (auto simp: xrp_create_buffer_def got_def)
  next
    case False
    then obtain i where i: "d = Some i" "ok" by auto
    then obtain t u c fd where t: "retain_refcounted i s = Some t" "hs_heap t i = Some (c, Device fd)" "host_inv (h(i := h i + 1)) t"
      "xrp_release_device i t = Some u" "host_inv h u"
      using device_retained [OF assms(1), of i] assms(2) by auto
    show ?thesis
    proof (cases io)
      case None
      then show ?thesis using i t \<open>p = 0\<close> by (simp add: xrp_create_buffer_def got_def)
    next
      case (Some ap)
      obtain a pa where ap: "ap = (a, pa)" by fastforce
      let ?b = "Buffer \<lparr>hb_on_device = True, hb_device = Some i, hb_ptr = a, hb_phy_addr = pa,
              hb_size = sz, hb_map_count = 0, hb_map_flags = 0\<rparr>"
      have "host_inv (h(hs_next t := h (hs_next t) + 1)) (snd (alloc_refcounted ?b t))"
        by (rule alloc_with_kid [OF t(3,2)]) auto
      then have "host_inv (h(hs_next t := h (hs_next t) + 1))
          ((snd (alloc_refcounted ?b t))\<lparr>hs_areas := a # hs_areas (snd (alloc_refcounted ?b t))\<rparr>)"
        by (rule inv_heap_cong) auto
      then show ?thesis
        using i t(1) Some ap \<open>p = 0\<close> by (simp add: xrp_create_buffer_def got_def Let_def alloc_refcounted_def)
    qed
  qed
qed

lemma create_queue_ok:
  assumes "host_inv h s" "holds_ref (h, s) d Device_Kind"
  shows "\<exists>x. xrp_create_nsp_queue d nsid prio ok s = Some x \<and> host_inv (fst (got h x)) (snd (got h x))"
proof -
  obtain t u c fd where t: "retain_refcounted d s = Some t" "hs_heap t d = Some (c, Device fd)" "host_inv (h(d := h d + 1)) t"
    "xrp_release_device d t = Some u" "host_inv h u"
    using device_retained [OF assms] by blast
  show ?thesis
  proof (cases ok)
    case True
    let ?b = "Queue \<lparr>hq_device = d, hq_nsid = map_option (take 16) nsid, hq_priority = prio\<rparr>"
    have "host_inv (h(hs_next t := h (hs_next t) + 1)) (snd (alloc_refcounted ?b t))"
      by (rule alloc_with_kid [OF t(3,2)]) auto
    then show ?thesis using True t(1) by (simp add: xrp_create_nsp_queue_def got_def Let_def alloc_refcounted_def)
  next
    case False
    then show ?thesis using t by (simp add: xrp_create_nsp_queue_def got_def)
  qed
qed

lemma map_buffer_ok:
  assumes "host_inv h s" "holds_ref (h, s) i Buffer_Kind"
  shows "\<exists>p st t. xrp_map_buffer i off sz fl s = Some ((p, st), t) \<and> host_inv (if p = None then h else h(i := h i + 1)) t"
proof -
  obtain c bf where i: "0 < h i" "hs_heap s i = Some (c, Buffer bf)" using assms(2) by (auto elim!: holds_refD simp: kind_bodies)
  show ?thesis
  proof (cases "off \<le> hb_size bf \<and> sz \<le> hb_size bf - off")
    case True
    obtain t where t: "retain_refcounted i s = Some t" "t = s\<lparr>hs_heap := (hs_heap s)(i \<mapsto> (c + 1, Buffer bf))\<rparr>"
      "host_inv (h(i := h i + 1)) t"
      using retain_ok [of h s i] assms(1) i by auto
    let ?b = "Buffer (bf\<lparr>hb_map_count := hb_map_count bf + 1, hb_map_flags := hb_map_flags bf OR fl\<rparr>)"
    have ti: "hs_heap t i = Some (c + 1, Buffer bf)" using t(2) by simp
    have ok: "body_ok (Buffer bf)" using assms(1) exactD(4) i(2) unfolding host_inv_def by blast
    have "host_inv (h(i := h i + 1)) (t\<lparr>hs_heap := (hs_heap t)(i \<mapsto> (c + 1, ?b))\<rparr>)"
      by (rule inv_update_body [OF t(3) ti]) (use ok in simp_all)
    then show ?thesis using True i t(1) ti by (simp add: xrp_map_buffer_def set_body_def)
  next
    case False
    then have "xrp_map_buffer i off sz fl s = Some ((None, XRP_STATUS_FAILURE), s)"
      using i by (auto simp: xrp_map_buffer_def)
    then show ?thesis using assms(1) by simp
  qed
qed

lemma unmap_buffer_ok:
  assumes "host_inv h s" "holds_ref (h, s) i Buffer_Kind"
  shows "\<exists>st t. xrp_unmap_buffer i p s = Some (st, t) \<and>
    host_inv (if st = XRP_STATUS_SUCCESS then h(i := h i - 1) else h) t"
proof -
  obtain c bf where i: "0 < h i" "hs_heap s i = Some (c, Buffer bf)" using assms(2) by (auto elim!: holds_refD simp: kind_bodies)
  show ?thesis
  proof (cases "hb_ptr bf \<le> p \<and> p - hb_ptr bf \<le> hb_size bf")
    case True
    have ex: "exact {} (outside h s) s" using assms(1) by (simp add: host_inv_def)
    have ok: "body_ok (Buffer bf)" by (rule exactD(4) [OF ex i(2)])
    let ?b = "Buffer (bf\<lparr>hb_map_count := hb_map_count bf - 1\<rparr>)"
    let ?t = "s\<lparr>hs_heap := (hs_heap s)(i \<mapsto> (c, ?b))\<rparr>"
    have "host_inv h ?t" by (rule inv_update_body [OF assms(1) i(2)]) (use ok in simp_all)
    then obtain u where "release_object i ?t = Some u" "host_inv (h(i := h i - 1)) u"
      using release_object_ok i(1) by blast
    then show ?thesis using True i(2) by (simp add: xrp_unmap_buffer_def set_body_def release_object_def)
  next
    case False
    then have "xrp_unmap_buffer i p s = Some (XRP_STATUS_FAILURE, s)"
      using i by (auto simp: xrp_unmap_buffer_def)
    then show ?thesis using assms(1) by simp
  qed
qed

lemma add_buffer_ok:
  assumes "host_inv h s" "holds_ref (h, s) g Group_Kind" "holds_ref (h, s) b Buffer_Kind"
  shows "\<exists>x t. xrp_add_buffer_to_group g b fl ok s = Some (x, t) \<and> host_inv h t"
proof -
  obtain cg gr where g: "0 < h g" "hs_heap s g = Some (cg, Group gr)" using assms(2) by (auto elim!: holds_refD simp: kind_bodies)
  obtain cb bf where b: "0 < h b" "hs_heap s b = Some (cb, Buffer bf)" using assms(3) by (auto elim!: holds_refD simp: kind_bodies)
  have ne: "g \<noteq> b" using g(2) b(2) by auto
  have le: "length (hg_records gr) \<le> hg_capacity gr"
    using assms(1) exactD(4) [of "{}" "outside h s" s g cg "Group gr"] g(2) by (simp add: host_inv_def)
  show ?thesis
  proof (cases "length (hg_records gr) = hg_capacity gr \<and> \<not> ok")
    case True
    then show ?thesis using g assms(1) by (simp add: xrp_add_buffer_to_group_def)
  next
    case False
    let ?cap = "if length (hg_records gr) = hg_capacity gr then (hg_capacity gr + 2) * 2 else hg_capacity gr"
    let ?b = "Group \<lparr>hg_capacity = ?cap, hg_records = hg_records gr @ [(b, fl)]\<rparr>"
    have room: "\<not> ?cap \<le> length (hg_records gr)" "length (hg_records gr) + 1 \<le> ?cap" using le by auto
    obtain t where t: "retain_refcounted b s = Some t" "t = s\<lparr>hs_heap := (hs_heap s)(b \<mapsto> (cb + 1, Buffer bf))\<rparr>"
      "host_inv (h(b := h b + 1)) t"
      using retain_ok [of h s b] assms(1) b by auto
    have tg: "hs_heap t g = Some (cg, Group gr)" and tb: "hs_heap t b = Some (cb + 1, Buffer bf)" using t(2) g(2) ne by auto
    have cg: "0 < cg" using exactD(3) [of "{}" "outside h s" s g] assms(1) g(2) unfolding host_inv_def exact_at_def by auto
    have "host_inv h (t\<lparr>hs_heap := (hs_heap t)(g \<mapsto> (cg, ?b))\<rparr>)"
    proof (rule inv_update [OF t(3) tg])
      show "k \<in> set (kids (Group gr)) \<or> (\<exists>n b''. hs_heap t k = Some (n, b'') \<and> kind_of b'' = kid_kind (kind_of (Group gr)))"
        if "k \<in> set (kids ?b)" for k
        using that tb by auto
    qed (use room(2) cg in simp_all)
    then show ?thesis
      using False g(2) t(1) tg room(1) by (simp add: xrp_add_buffer_to_group_def set_body_def Let_def, blast)
  qed
qed

lemma count_list_update:
  "i < length xs \<Longrightarrow> count_list (xs[i := x]) k + (if xs ! i = k then 1 else 0) = count_list xs k + (if x = k then 1 else 0)"
proof (induction xs arbitrary: i)
  case (Cons y ys)
  show ?case
  proof (cases i)
    case (Suc j)
    then show ?thesis using Cons.IH [of j] Cons.prems by (cases "ys ! j = k"; cases "x = k"; simp)
  qed simp
qed simp

lemma set_buffer_ok:
  assumes "host_inv h s" "holds_ref (h, s) g Group_Kind" "holds_ref (h, s) b Buffer_Kind"
  shows "\<exists>x t. xrp_set_buffer_in_group g n b fl s = Some (x, t) \<and> host_inv h t"
proof -
  obtain cg gr where g: "0 < h g" "hs_heap s g = Some (cg, Group gr)" using assms(2) by (auto elim!: holds_refD simp: kind_bodies)
  obtain cb bf where b: "0 < h b" "hs_heap s b = Some (cb, Buffer bf)" using assms(3) by (auto elim!: holds_refD simp: kind_bodies)
  have ne: "g \<noteq> b" using g(2) b(2) by auto
  obtain t where t: "retain_refcounted b s = Some t" "t = s\<lparr>hs_heap := (hs_heap s)(b \<mapsto> (cb + 1, Buffer bf))\<rparr>"
    "host_inv (h(b := h b + 1)) t"
    using retain_ok [of h s b] assms(1) b by auto
  have tg: "hs_heap t g = Some (cg, Group gr)" and tb: "hs_heap t b = Some (cb + 1, Buffer bf)" using t(2) g(2) ne by auto
  have ext: "exact {} (outside (h(b := h b + 1)) t) t" using t(3) by (simp add: host_inv_def)
  show ?thesis
  proof (cases "n < length (hg_records gr)")
    case False
    have "0 < (h(b := h b + 1)) b" by simp
    then obtain u where "release_object b t = Some u" "host_inv ((h(b := h b + 1))(b := (h(b := h b + 1)) b - 1)) u"
      using release_object_ok [OF t(3)] by blast
    then have "xrp_release_buffer b t = Some u" "host_inv h u" using tb by (simp_all add: release_object_def)
    then show ?thesis using False t(1) tg by (simp add: xrp_set_buffer_in_group_def)
  next
    case True
    let ?o = "fst (hg_records gr ! n)" and ?h1 = "\<lambda>k. h k + count_list [fst (hg_records gr ! n)] k"
    let ?b = "Group (gr\<lparr>hg_records := (hg_records gr)[n := (b, fl)]\<rparr>)"
    let ?u = "t\<lparr>hs_heap := (hs_heap t)(g \<mapsto> (cg, ?b))\<rparr>"
    have le: "length (hg_records gr) \<le> hg_capacity gr" using exactD(4) [OF ext tg] by simp
    have cg: "0 < cg" using exactD(3) [OF ext, of g] tg unfolding exact_at_def by auto
    have cnt: "count_list (map fst ((hg_records gr)[n := (b, fl)])) k + (if ?o = k then 1 else 0) =
        count_list (map fst (hg_records gr)) k + (if b = k then 1 else 0)" for k
      using count_list_update [of n "map fst (hg_records gr)" b k] True by (simp add: map_update)
    have inv: "host_inv ?h1 ?u"
    proof (rule inv_update [OF t(3) tg])
      fix k
      show "?h1 k + count_list (kids ?b) k + (if k = g then cg else 0) =
          (h(b := h b + 1)) k + count_list (kids (Group gr)) k + (if k = g then cg else 0)"
        using cnt [of k] by (auto split: if_splits)
      assume "k \<in> set (kids ?b)"
      then have "k = b \<or> k \<in> set (kids (Group gr))" using set_update_subset_insert [of "hg_records gr" n "(b, fl)"] by auto
      then show "k \<in> set (kids (Group gr)) \<or> (\<exists>m b''. hs_heap t k = Some (m, b'') \<and> kind_of b'' = kid_kind (kind_of (Group gr)))"
        using tb by auto
    qed (use le cg in simp_all)
    have mem: "?o \<in> set (kids (Group gr))" using True by simp
    obtain co bo where o: "hs_heap t ?o = Some (co, bo)" "kind_of bo = Buffer_Kind" using kid_live [OF ext tg _ mem] by auto
    then obtain bb where bb: "bo = Buffer bb" by (auto simp: kind_bodies)
    have uo: "hs_heap ?u ?o = Some (co, Buffer bb)" using o(1) bb tg by auto
    have pos: "0 < ?h1 ?o" by simp
    obtain v where v: "release_object ?o ?u = Some v" "host_inv (?h1(?o := ?h1 ?o - 1)) v"
      using release_object_ok [of ?h1 ?u ?o, OF inv pos] by (elim exE conjE)
    have "?h1(?o := ?h1 ?o - 1) = h" by (auto simp: fun_eq_iff)
    then have "xrp_release_buffer ?o ?u = Some v" "host_inv h v" using v uo by (simp_all add: release_object_def)
    then show ?thesis using True t(1) tg by (simp add: xrp_set_buffer_in_group_def set_body_def)
  qed
qed

text \<open>Taking the reference of the group and pushing the request, to which the caller's reference of the event passes.\<close>

lemma push_ok:
  assumes "host_inv h s" "hs_heap s q = Some (cq, Queue qb)"
    and "\<And>g. gr = Some g \<Longrightarrow> 0 < h g \<and> (\<exists>c b. hs_heap s g = Some (c, Group b))"
    and "\<And>e. hr_event rq = Some e \<Longrightarrow> \<exists>c b. hs_heap s e = Some (c, Event b) \<and> he_queue b = Some q"
    and "\<And>k. h k = h0 k + count_list (case hr_event rq of None \<Rightarrow> [] | Some e \<Rightarrow> [e]) k"
    and "hr_queue rq = q" "hr_group rq = gr"
  shows "\<exists>v c. retain_group_option gr s = Some v \<and> hs_heap v q = Some (c, Queue qb) \<and>
    host_inv h0 (v\<lparr>hs_requests := hs_requests v @ [rq]\<rparr>)"
proof -
  let ?gs = "case gr of None \<Rightarrow> [] | Some g \<Rightarrow> [g]"
  have "\<exists>v. retain_group_option gr s = Some v \<and> host_inv (\<lambda>k. h k + count_list ?gs k) v \<and>
      (\<forall>i c b. hs_heap s i = Some (c, b) \<longrightarrow> (\<exists>c'. hs_heap v i = Some (c', b)))"
  proof (cases gr)
    case None
    then show ?thesis using assms(1) by (simp add: retain_group_option_def)
  next
    case (Some g)
    have pos: "0 < h g" using assms(3) [OF Some] by blast
    obtain t c b where t: "retain_refcounted g s = Some t" "hs_heap s g = Some (c, b)" "0 < c"
      "t = s\<lparr>hs_heap := (hs_heap s)(g \<mapsto> (c + 1, b))\<rparr>" "host_inv (h(g := h g + 1)) t"
      using retain_ok [of h s g, OF assms(1) pos] by (elim exE conjE)
    have "h(g := h g + 1) = (\<lambda>k. h k + count_list ?gs k)" using Some by (auto simp: fun_eq_iff)
    then show ?thesis using t Some by (auto simp: retain_group_option_def)
  qed
  then obtain v where v: "retain_group_option gr s = Some v" "host_inv (\<lambda>k. h k + count_list ?gs k) v"
    "\<And>i c b. hs_heap s i = Some (c, b) \<Longrightarrow> \<exists>c'. hs_heap v i = Some (c', b)" by blast
  let ?t = "v\<lparr>hs_requests := hs_requests v @ [rq]\<rparr>" and ?h = "\<lambda>k. h k + count_list ?gs k"
  have ex: "exact {} (outside ?h v) v" and ok: "requests_ok v" using v(2) by (auto simp: host_inv_def)
  obtain c where q: "hs_heap v q = Some (c, Queue qb)" using v(3) [OF assms(2)] by blast
  have c: "0 < c" using exactD(3) [OF ex, of q] q unfolding exact_at_def by auto
  have "outside h0 ?t = outside ?h v"
    using assms(5-7) by (auto simp: fun_eq_iff outside_def request_refs_def)
  then have "exact {} (outside h0 ?t) ?t" using exact_heap_cong [OF ex, of ?t] by simp
  moreover have "requests_ok ?t"
  proof (rule requests_okI)
    have "request_ok v rq"
      using assms(3,4,6,7) v(3) unfolding request_ok_def by metis
    then show "request_ok ?t r" if "r \<in> set (hs_requests ?t) \<union> set (hs_lost ?t)" for r
      using requests_okD(1) [OF ok, of r] that request_ok_cong [of ?t v] by auto
    show "\<exists>c q. hs_heap ?t (hr_queue r) = Some (c, Queue q) \<and> 0 < c" if "r \<in> set (hs_requests ?t)" for r
      using requests_okD(2) [OF ok, of r] that q c assms(6) by auto
  qed
  ultimately show ?thesis using v(1) q by (simp add: host_inv_def)
qed

lemma enqueue_ok:
  assumes "host_inv h s" "holds_ref (h, s) q Queue_Kind" "case gr of None \<Rightarrow> True | Some g \<Rightarrow> holds_ref (h, s) g Group_Kind"
  shows "\<exists>x. xrp_enqueue_command q inp out n gr evt ok1 ok2 s = Some x \<and> host_inv (fst (got h x)) (snd (got h x))"
proof (cases "\<not> ok1 \<or> evt \<and> \<not> ok2")
  case True
  then show ?thesis using assms(1) by (simp add: xrp_enqueue_command_def got_def)
next
  case False
  obtain cq qb where q: "0 < h q" "hs_heap s q = Some (cq, Queue qb)" using assms(2) by (auto elim!: holds_refD simp: kind_bodies)
  have grp: "0 < h g \<and> (\<exists>c b. hs_heap s g = Some (c, Group b))" if "gr = Some g" for g
    using assms(3) that by (auto elim!: holds_refD simp: kind_bodies)
  show ?thesis
  proof (cases evt)
    case True
    let ?e = "hs_next s" and ?b = "Event \<lparr>he_queue = Some q, he_status = XRP_STATUS_PENDING\<rparr>"
    note n = inv_none [OF assms(1)]
    have ne: "?e \<noteq> q" using n q(2) by auto
    obtain t where t: "retain_refcounted q s = Some t" "t = s\<lparr>hs_heap := (hs_heap s)(q \<mapsto> (cq + 1, Queue qb))\<rparr>"
      "host_inv (h(q := h q + 1)) t"
      using retain_ok [of h s q] assms(1) q by auto
    have tq: "hs_heap t q = Some (cq + 1, Queue qb)" and tn: "hs_next t = ?e" using t(2) by simp_all
    have a: "host_inv (h(?e := h ?e + 1)) (snd (alloc_refcounted ?b t))"
      using alloc_with_kid [OF t(3) tq, of ?b] tn by simp
    have ae: "hs_heap (snd (alloc_refcounted ?b t)) ?e = Some (1, ?b)" using tn by (simp add: alloc_refcounted_def)
    have "0 < (h(?e := h ?e + 1)) ?e" by simp
    then obtain u c0 b0 where u: "retain_refcounted ?e (snd (alloc_refcounted ?b t)) = Some u"
      "host_inv ((h(?e := h ?e + 1))(?e := (h(?e := h ?e + 1)) ?e + 1)) u"
      "u = (snd (alloc_refcounted ?b t))\<lparr>hs_heap := (hs_heap (snd (alloc_refcounted ?b t)))(?e \<mapsto> (c0 + 1, b0))\<rparr>"
      "hs_heap (snd (alloc_refcounted ?b t)) ?e = Some (c0, b0)"
      using retain_ok [OF a] by blast
    have ueq: "u = s\<lparr>hs_heap := (hs_heap s)(q \<mapsto> (cq + 1, Queue qb), ?e \<mapsto> (2, ?b)), hs_next := ?e + 1\<rparr>"
    proof -
      have "c0 = 1" "b0 = ?b" using u(4) ae by simp_all
      then show ?thesis using u(3) t(2) by (simp add: alloc_refcounted_def numeral_2_eq_2)
    qed
    let ?h = "h(?e := h ?e + 1)"
    have code: "xrp_enqueue_command q inp out n gr evt ok1 ok2 s =
      do { s2 \<leftarrow> retain_group_option gr u;
           (_, _) \<leftarrow> hs_heap s2 q;
           Some ((Some ?e, XRP_STATUS_SUCCESS),
               s2\<lparr>hs_requests := hs_requests s2 @ [\<lparr>hr_queue = q, hr_event = Some ?e, hr_group = gr, hr_in_data = inp,
                 hr_out_data = out, hr_out_data_size = n\<rparr>]\<rparr>) }"
    proof -
      have hp: "((hs_heap s)(?e \<mapsto> (1, Event \<lparr>he_queue = None, he_status = XRP_STATUS_PENDING\<rparr>), q \<mapsto> (cq + 1, Queue qb),
          ?e \<mapsto> (1, ?b), ?e \<mapsto> (2, ?b))) = (hs_heap s)(q \<mapsto> (cq + 1, Queue qb), ?e \<mapsto> (2, ?b))"
        using ne by (simp add: fun_eq_iff)
      have "(let (e, t1) = alloc_refcounted (Event \<lparr>he_queue = None, he_status = XRP_STATUS_PENDING\<rparr>) s in
          do { t2 \<leftarrow> retain_refcounted q t1;
               t3 \<leftarrow> set_body e (Event \<lparr>he_queue = Some q, he_status = XRP_STATUS_PENDING\<rparr>) t2;
               t4 \<leftarrow> retain_refcounted e t3;
               Some (Some e, t4) }) = Some (Some ?e, u)"
        using q(2) ne hp
        by (simp add: ueq alloc_refcounted_def retain_refcounted_def set_body_def Let_def numeral_2_eq_2)
      then show ?thesis using False True by (simp add: xrp_enqueue_command_def)
    qed
    have uq: "hs_heap u q = Some (cq + 1, Queue qb)" and ue: "hs_heap u ?e = Some (2, ?b)" using ueq ne by auto
    have ugr: "0 < (?h(?e := ?h ?e + 1)) g \<and> (\<exists>c b. hs_heap u g = Some (c, Group b))" if "gr = Some g" for g
      using grp [OF that] ueq q(2) n by auto
    let ?rq = "\<lparr>hr_queue = q, hr_event = Some ?e, hr_group = gr, hr_in_data = inp, hr_out_data = out, hr_out_data_size = n\<rparr>"
    have evs: "\<exists>c b. hs_heap u e = Some (c, Event b) \<and> he_queue b = Some q" if "hr_event ?rq = Some e" for e
      using ue that by simp
    have cnt: "(?h(?e := ?h ?e + 1)) k = ?h k + count_list (case hr_event ?rq of None \<Rightarrow> [] | Some e \<Rightarrow> [e]) k" for k
      by simp
    have rq: "hr_queue ?rq = q" "hr_group ?rq = gr" by simp_all
    obtain v c where v: "retain_group_option gr u = Some v" "hs_heap v q = Some (c, Queue qb)"
      "host_inv ?h (v\<lparr>hs_requests := hs_requests v @ [?rq]\<rparr>)"
      using push_ok [OF u(2) uq ugr evs cnt rq] by blast
    then show ?thesis unfolding code by (simp add: got_def)
  next
    case no: False
    let ?rq = "\<lparr>hr_queue = q, hr_event = None, hr_group = gr, hr_in_data = inp, hr_out_data = out, hr_out_data_size = n\<rparr>"
    obtain v c where "retain_group_option gr s = Some v" "hs_heap v q = Some (c, Queue qb)"
      "host_inv h (v\<lparr>hs_requests := hs_requests v @ [?rq]\<rparr>)"
      using push_ok [OF assms(1) q(2) grp, where rq = ?rq and ?h0.0 = h] by auto
    then show ?thesis using False no by (simp add: xrp_enqueue_command_def got_def)
  qed
qed

lemma serve_ok:
  assumes "host_inv h s"
  shows "\<exists>t. serve q ret s = Some t \<and> host_inv h t \<and>
    (\<forall>e. queued q s \<noteq> [] \<longrightarrow> hr_event (hd (queued q s)) = Some e \<longrightarrow> 0 < h e \<longrightarrow>
      xrp_event_status e t = Some (if ret then XRP_STATUS_SUCCESS else XRP_STATUS_FAILURE))"
proof (cases "queued q s")
  case Nil
  then show ?thesis using assms by (simp add: serve_def)
next
  case (Cons rq rqs)
  have rq: "rq \<in> set (hs_requests s)" "hr_queue rq = q"
    using Cons filter_set [of "\<lambda>rq. hr_queue rq = q" "hs_requests s"] unfolding queued_def by (metis (mono_tags, lifting) filter_eq_Cons_iff in_set_conv_decomp)+
  let ?t = "s\<lparr>hs_requests := remove1 rq (hs_requests s)\<rparr>"
  have ex: "exact {} (outside h s) s" and ok: "requests_ok s" using assms by (auto simp: host_inv_def)
  have "outside h s = (\<lambda>k. outside h ?t k + count_list (request_refs rq) k)"
    using refs_of_remove1 [OF rq(1)] by (simp add: outside_def fun_eq_iff)
  then have 1: "exact {} (\<lambda>k. outside h ?t k + count_list (request_refs rq) k) ?t"
    using exact_heap_cong [OF ex, of ?t] by simp
  have sub: "set (remove1 rq (hs_requests s)) \<subseteq> set (hs_requests s)" by (rule set_remove1_subset)
  have 2: "requests_ok ?t"
  proof (rule requests_okI)
    show "request_ok ?t r" if "r \<in> set (hs_requests ?t) \<union> set (hs_lost ?t)" for r
      using requests_okD(1) [OF ok, of r] that sub request_ok_cong [of ?t s] by auto
    show "\<exists>c q. hs_heap ?t (hr_queue r) = Some (c, Queue q) \<and> 0 < c" if "r \<in> set (hs_requests ?t)" for r
      using requests_okD(2) [OF ok, of r] that sub by auto
  qed
  have 3: "request_ok ?t rq" using requests_okD(1) [OF ok, of rq] rq request_ok_cong [of ?t s] by simp
  have 4: "\<exists>c q. hs_heap ?t (hr_queue rq) = Some (c, Queue q) \<and> 0 < c" using requests_okD(2) [OF ok rq(1)] by simp
  obtain u where "xrp_request_process rq ret ?t = Some u" "exact {} (outside h u) u" "requests_ok u"
    "\<And>e. hr_event rq = Some e \<Longrightarrow> 0 < h e \<Longrightarrow>
      xrp_event_status e u = Some (if ret then XRP_STATUS_SUCCESS else XRP_STATUS_FAILURE)"
    using process_ok [OF 1 2 3 4] by blast
  then show ?thesis using Cons by (simp add: serve_def host_inv_def)
qed

lemma host_exec_ok:
  assumes "host_inv h s" "allowed oper (h, s)"
  shows "\<exists>h1 t. host_exec oper (h, s) = Some (h1, t) \<and> host_inv h1 t"
proof (cases oper)
  case (Release i)
  then show ?thesis using release_object_ok [of h s i] assms by auto
next
  case (Retain i)
  then show ?thesis using retain_ok [of h s i] assms by auto
next
  case (Map_Buffer i off sz fl)
  then show ?thesis using map_buffer_ok [of h s i off sz fl] assms by fastforce
next
  case (Unmap_Buffer i p)
  then show ?thesis using unmap_buffer_ok [of h s i p] assms by fastforce
next
  case (Create_Buffer d sz p ok io)
  then obtain x where "host_exec oper (h, s) = Some (got h x)" "host_inv (fst (got h x)) (snd (got h x))"
    using create_buffer_ok [of h s d sz p ok io] assms by auto
  then show ?thesis by (intro exI [of _ "fst (got h x)"] exI [of _ "snd (got h x)"]) simp
next
  case (Create_Queue d nsid prio ok)
  then obtain x where "host_exec oper (h, s) = Some (got h x)" "host_inv (fst (got h x)) (snd (got h x))"
    using create_queue_ok [of h s d nsid prio ok] assms by auto
  then show ?thesis by (intro exI [of _ "fst (got h x)"] exI [of _ "snd (got h x)"]) simp
next
  case (Enqueue q inp out n gr evt ok1 ok2)
  then obtain x where "host_exec oper (h, s) = Some (got h x)" "host_inv (fst (got h x)) (snd (got h x))"
    using enqueue_ok [of h s q gr inp out n evt ok1 ok2] assms by auto
  then show ?thesis by (intro exI [of _ "fst (got h x)"] exI [of _ "snd (got h x)"]) simp
next
  case (Open_Device fd ok)
  then show ?thesis using open_device_ok assms by simp
next
  case (Create_Group ok)
  then show ?thesis using create_group_ok assms by simp
next
  case (Add_Buffer g b fl ok)
  then show ?thesis using add_buffer_ok [of h s g b fl ok] assms by auto
next
  case (Set_Buffer g n b fl)
  then show ?thesis using set_buffer_ok [of h s g b n fl] assms by auto
next
  case (Serve q ret)
  then show ?thesis using serve_ok [of h s q ret] assms by auto
qed

section \<open>Reachable states\<close>

definition host_start :: host_state where
  "host_start = \<lparr>hs_heap = Map.empty, hs_next = 0, hs_fds = [], hs_areas = [], hs_requests = [], hs_lost = []\<rparr>"

definition host_rel :: "client \<Rightarrow> client \<Rightarrow> bool" where
  "host_rel c d \<longleftrightarrow> (\<exists>oper. allowed oper c \<and> host_exec oper c = Some d)"

definition client_inv :: "client \<Rightarrow> bool" where
  "client_inv c \<longleftrightarrow> host_inv (fst c) (snd c)"

lemma client_start: "client_inv (\<lambda>i. 0, host_start)"
proof -
  have "exact {} (outside (\<lambda>i. 0) host_start) host_start"
    by (rule exactI) (simp_all add: exact_at_def held_def weigh_def outside_def host_start_def)
  then show ?thesis by (simp add: client_inv_def host_inv_def requests_ok_def host_start_def)
qed

interpretation hosts: invariant_system "\<lambda>c. c = (\<lambda>i. 0, host_start)" host_rel client_inv
proof unfold_locales
  show "c = (\<lambda>i. 0, host_start) \<Longrightarrow> client_inv c" for c using client_start by simp
  fix c d assume inv: "client_inv c" and rel: "host_rel c d"
  obtain oper where "allowed oper c" "host_exec oper c = Some d" using rel by (auto simp: host_rel_def)
  then show "client_inv d" using host_exec_ok [of "fst c" "snd c" oper] inv by (auto simp: client_inv_def)
qed

text \<open>The contract of the counted objects, for whatever the client does with its references.\<close>

definition take_reference :: "nat \<Rightarrow> host_state \<Rightarrow> host_state \<times> unit res" where
  "take_reference i s = (case retain_refcounted i s of None \<Rightarrow> (s, Oops) | Some t \<Rightarrow> (t, Ok ()))"

definition drop_reference :: "nat \<Rightarrow> host_state \<Rightarrow> host_state \<times> unit res" where
  "drop_reference i s = (case release_object i s of None \<Rightarrow> (s, Oops) | Some t \<Rightarrow> (t, Ok ()))"

interpretation objects: ref_store host_inv take_reference drop_reference m for m
proof unfold_locales
  show "\<exists>t. take_reference i s = (t, Ok ()) \<and> host_inv (h(i := h i + 1)) t" if "host_inv h s" "0 < h i" for h s i
    using retain_ok [of h s i] that by (auto simp: take_reference_def)
  show "\<exists>t. drop_reference i s = (t, Ok ()) \<and> host_inv (h(i := h i - 1)) t" if "host_inv h s" "0 < h i" for h s i
    using release_object_ok [of h s i] that by (auto simp: drop_reference_def)
qed

text \<open>Without references from outside nothing is alive: every object would need a holder of a higher level.\<close>

lemma held_parent:
  assumes "0 < held Z hp k"
  shows "\<exists>j c b. hp j = Some (c, b) \<and> k \<in> set (kids b)"
proof (rule ccontr)
  assume no: "\<not> ?thesis"
  have "count_list (kids (snd (the (hp i)))) k = 0" if "i \<in> dom hp - Z" for i
    using no that by (force simp: count_list_0_iff)
  then have "held Z hp k = 0" by (simp add: held_def weigh_def)
  then show False using assms by simp
qed

lemma kid_level: "kids b = [] \<or> level (kid_kind (kind_of b)) < level (kind_of b)"
  by (rule body.exhaust [of b]) simp_all

lemma unreferenced_empty:
  assumes "host_inv h s" "\<And>i. outside h s i = 0"
  shows "hs_heap s = Map.empty"
proof (rule ccontr)
  assume "hs_heap s \<noteq> Map.empty"
  then obtain i c b where i: "hs_heap s i = Some (c, b)" by (metis ext old.prod.exhaust option.exhaust)
  have ex: "exact {} (outside h s) s" using assms(1) by (simp add: host_inv_def)
  have up: "\<exists>j c' b'. hs_heap s j = Some (c', b') \<and> level (kind_of b) < level (kind_of b')"
    if "hs_heap s i = Some (c, b)" for i c b
  proof -
    have "0 < held {} (hs_heap s) i" using exactD(3) [OF ex, of i] that assms(2) unfolding exact_at_def by auto
    then obtain j c' b' where j: "hs_heap s j = Some (c', b')" "i \<in> set (kids b')" using held_parent by blast
    have "kind_of b = kid_kind (kind_of b')" by (rule exactD(6) [OF ex j that])
    then show ?thesis using j kid_level [of b'] by force
  qed
  have le: "level (kind_of b) \<le> 2" for b by (cases b) auto
  obtain i1 c1 b1 where 1: "hs_heap s i1 = Some (c1, b1)" "level (kind_of b) < level (kind_of b1)" using up [OF i] by blast
  obtain i2 c2 b2 where 2: "hs_heap s i2 = Some (c2, b2)" "level (kind_of b1) < level (kind_of b2)" using up [OF 1(1)] by blast
  obtain i3 c3 b3 where 3: "hs_heap s i3 = Some (c3, b3)" "level (kind_of b2) < level (kind_of b3)" using up [OF 2(1)] by blast
  show False using 1(2) 2(2) 3(2) le [of b3] by linarith
qed

section \<open>Properties\<close>

text \<open>
  C7: No sequence of calls in which the program passes objects it holds a reference of uses an
  object that was freed: not in nested releases, not when a queue is destroyed with requests left
  or by its own worker.
\<close>

theorem host_no_use_after_free:
  assumes "host_rel\<^sup>*\<^sup>* (\<lambda>i. 0, host_start) c" "allowed oper c"
  shows "\<exists>d. host_exec oper c = Some d"
proof -
  have "client_inv c" by (rule hosts.reachable_inv [OF refl assms(1)])
  then show ?thesis using host_exec_ok [of "fst c" "snd c" oper] assms(2) by (auto simp: client_inv_def)
qed

text \<open>
  C8: Nothing leaks: when the program has given up all its references, by releasing them in any
  order, and no request is queued or was left by a worker that destroyed its queue, no object is
  left.
\<close>

theorem host_no_leak:
  assumes "host_rel\<^sup>*\<^sup>* (\<lambda>i. 0, host_start) (h, s)" "\<And>i. count_list is i = h i"
  shows "\<exists>t. objects.drop_all is s = (t, Ok ()) \<and> (hs_requests t = [] \<longrightarrow> hs_lost t = [] \<longrightarrow> hs_heap t = Map.empty)"
proof -
  have "host_inv h s" using hosts.reachable_inv [OF refl assms(1)] by (simp add: client_inv_def)
  then obtain t where t: "objects.drop_all is s = (t, Ok ())" "host_inv (\<lambda>i. h i - count_list is i) t"
    using objects.drop_all_counted [of h s "is"] assms(2) by auto
  have "hs_heap t = Map.empty" if "hs_requests t = []" "hs_lost t = []"
    by (rule unreferenced_empty [OF t(2)]) (simp add: outside_def assms(2) that)
  then show ?thesis using t(1) by blast
qed

text \<open>
  A command completes: when the worker has run the first request of a queue, the status of its
  event, which the program still holds, is the result of the ioctl.
\<close>

theorem event_reports_result:
  assumes "host_rel\<^sup>*\<^sup>* (\<lambda>i. 0, host_start) (h, s)" "queued q s = rq # rqs" "hr_event rq = Some e" "0 < h e"
  shows "\<exists>t. serve q ret s = Some t \<and>
    xrp_event_status e t = Some (if ret then XRP_STATUS_SUCCESS else XRP_STATUS_FAILURE)"
proof -
  have "host_inv h s" using hosts.reachable_inv [OF refl assms(1)] by (simp add: client_inv_def)
  from serve_ok [OF this, of q ret] show ?thesis using assms(2-4) by auto
qed

text \<open>
  A mapping lies inside the buffer, whatever offset and size are asked for, and a buffer that
  is mapped has one more reference; a request that does not fit changes nothing.
\<close>

theorem map_buffer_inside:
  assumes "hs_heap s i = Some (c, Buffer bf)" "xrp_map_buffer i off sz fl s = Some ((p, st), t)"
  shows "(st = XRP_STATUS_SUCCESS \<longleftrightarrow> unat off + unat sz \<le> unat (hb_size bf)) \<and>
    (st = XRP_STATUS_SUCCESS \<longrightarrow> p = Some (hb_ptr bf + off) \<and>
       hs_heap t i = Some (c + 1, Buffer (bf\<lparr>hb_map_count := hb_map_count bf + 1, hb_map_flags := hb_map_flags bf OR fl\<rparr>))) \<and>
    (st \<noteq> XRP_STATUS_SUCCESS \<longrightarrow> p = None \<and> t = s)"
proof -
  have fit: "off \<le> hb_size bf \<and> sz \<le> hb_size bf - off \<longleftrightarrow> unat off + unat sz \<le> unat (hb_size bf)"
  proof (cases "off \<le> hb_size bf")
    case True
    then have "unat (hb_size bf - off) = unat (hb_size bf) - unat off" by (simp add: unat_sub)
    then show ?thesis using True by (auto simp: word_le_nat_alt)
  next
    case False
    then show ?thesis by (simp add: word_le_nat_alt)
  qed
  show ?thesis
    using assms fit by (auto simp: xrp_map_buffer_def retain_refcounted_def set_body_def split: if_splits)
qed

text \<open>
  The header says that a buffer taken out of a group has to be released; no reference was taken for
  it, and a program that follows the header frees the buffer under the group: releasing the group
  then uses it.
\<close>

fun host_execs :: "host_op list \<Rightarrow> client \<Rightarrow> client option" where
  "host_execs [] c = Some c"
| "host_execs (oper # opers) c =
    (if allowed oper c then (case host_exec oper c of None \<Rightarrow> None | Some d \<Rightarrow> host_execs opers d) else None)"

lemma host_execs_rel: "host_execs opers c = Some d \<Longrightarrow> host_rel\<^sup>*\<^sup>* c d"
proof (induction opers arbitrary: c)
  case (Cons oper opers)
  then obtain e where "allowed oper c" "host_exec oper c = Some e" "host_execs opers e = Some d"
    by (auto split: if_splits option.splits)
  moreover from this have "host_rel c e" unfolding host_rel_def by blast
  ultimately show ?case using Cons.IH by (blast intro: converse_rtranclp_into_rtranclp)
qed simp

lemma documented_release_faults:
  "\<exists>h s t. host_rel\<^sup>*\<^sup>* (\<lambda>i. 0, host_start) (h, s) \<and> xrp_get_buffer_from_group 0 0 s = Some (Some 1, XRP_STATUS_SUCCESS) \<and>
    xrp_release_buffer 1 s = Some t \<and> h 0 = 1 \<and> xrp_release_buffer_group 0 t = None"
proof -
  let ?as = "[Create_Group True, Create_Buffer None 64 0x1000 True None, Add_Buffer 0 1 3 True, Release 1]"
  have "\<exists>h s t. host_execs ?as (\<lambda>i. 0, host_start) = Some (h, s) \<and>
      xrp_get_buffer_from_group 0 0 s = Some (Some 1, XRP_STATUS_SUCCESS) \<and>
      xrp_release_buffer 1 s = Some t \<and> h 0 = 1 \<and> xrp_release_buffer_group 0 t = None"
    by (simp add: host_start_def xrp_create_buffer_group_def got_def alloc_refcounted_def xrp_create_buffer_def
      xrp_add_buffer_to_group_def holds_ref_def retain_refcounted_def set_body_def release_object_def xrp_release_buffer_def
      last_release_refcounted_def xrp_get_buffer_from_group_def xrp_release_buffer_group_def free_object_def)
  then show ?thesis using host_execs_rel by blast
qed

text \<open>The descriptor stays open when the device cannot be allocated.\<close>

lemma open_device_leaks: "hs_fds (snd (xrp_open_device (Some fd) False s)) = fd # hs_fds s"
  by (simp add: xrp_open_device_def)

section \<open>A program\<close>

text \<open>A device, a queue, a group with a buffer of the device, and a queued command with an event.\<close>

definition demo_ops :: "host_op list" where
  "demo_ops = [Open_Device (Some 3) True, Create_Queue 0 None 1 True, Create_Group True,
     Create_Buffer (Some 0) 64 0 True (Some (0x1000, 0x2000)), Add_Buffer 2 3 3 True, Release 3,
     Enqueue 1 [7] 0 0 (Some 2) True True True, Release 2, Release 1]"

lemma demo_client:
  "\<exists>h s. host_rel\<^sup>*\<^sup>* (\<lambda>i. 0, host_start) (h, s) \<and> h = (\<lambda>i. 0)(0 := 1, 4 := 1) \<and>
    (\<exists>rq. queued 1 s = [rq] \<and> hr_event rq = Some 4 \<and> hr_group rq = Some 2) \<and> hs_heap s 3 \<noteq> None"
proof -
  have "\<exists>h s. host_execs demo_ops (\<lambda>i. 0, host_start) = Some (h, s) \<and> (\<forall>i. h i = ((\<lambda>i. 0)(0 := 1, 4 := 1)) i) \<and>
      (\<exists>rq. queued 1 s = [rq] \<and> hr_event rq = Some 4 \<and> hr_group rq = Some 2) \<and> hs_heap s 3 \<noteq> None"
    by (simp add: demo_ops_def host_start_def xrp_open_device_def xrp_create_nsp_queue_def xrp_create_buffer_group_def got_def
      alloc_refcounted_def xrp_create_buffer_def xrp_add_buffer_to_group_def holds_ref_def retain_refcounted_def set_body_def
      release_object_def xrp_release_buffer_def last_release_refcounted_def xrp_release_buffer_group_def xrp_enqueue_command_def
      retain_group_option_def xrp_release_queue_def queued_def)
  then show ?thesis using host_execs_rel unfolding fun_eq_iff by blast
qed

theorem host_no_use_after_free_witness:
  "\<exists>c d. host_rel\<^sup>*\<^sup>* (\<lambda>i. 0, host_start) c \<and> queued 1 (snd c) \<noteq> [] \<and> host_exec (Serve 1 True) c = Some d"
proof -
  obtain h s rq where c: "host_rel\<^sup>*\<^sup>* (\<lambda>i. 0, host_start) (h, s)" "queued 1 s = [rq]" using demo_client by blast
  have "allowed (Serve 1 True) (h, s)" by simp
  from host_no_use_after_free [OF c(1) this] obtain d where "host_exec (Serve 1 True) (h, s) = Some d" by blast
  moreover have "queued 1 (snd (h, s)) \<noteq> []" using c(2) by simp
  ultimately show ?thesis using c(1) by blast
qed

theorem event_reports_result_witness:
  "\<exists>h s t. host_rel\<^sup>*\<^sup>* (\<lambda>i. 0, host_start) (h, s) \<and> serve 1 False s = Some t \<and>
    xrp_event_status 4 t = Some XRP_STATUS_FAILURE"
proof -
  obtain h s rq where c: "host_rel\<^sup>*\<^sup>* (\<lambda>i. 0, host_start) (h, s)" "h = (\<lambda>i. 0)(0 := 1, 4 := 1)" "queued 1 s = [rq]"
    "hr_event rq = Some 4" using demo_client by blast
  have "0 < h 4" using c(2) by simp
  from event_reports_result [OF c(1,3,4) this, of False] show ?thesis using c(1) by auto
qed

theorem host_no_leak_witness:
  "\<exists>s t. host_rel\<^sup>*\<^sup>* (\<lambda>i. 0, host_start) ((\<lambda>i. 0)(0 := 1, 1 := 1), s) \<and> objects.drop_all [0, 1] s = (t, Ok ()) \<and>
    (hs_requests t = [] \<longrightarrow> hs_lost t = [] \<longrightarrow> hs_heap t = Map.empty)"
proof -
  have "\<exists>s. host_execs [Open_Device (Some 3) True, Create_Queue 0 None 1 True] (\<lambda>i. 0, host_start) =
      Some ((\<lambda>i. 0)(0 := 1, 1 := 1), s)"
    by (simp add: host_start_def xrp_open_device_def xrp_create_nsp_queue_def got_def alloc_refcounted_def holds_ref_def
      retain_refcounted_def)
  then obtain s where r: "host_rel\<^sup>*\<^sup>* (\<lambda>i. 0, host_start) ((\<lambda>i. 0)(0 := 1, 1 := 1), s)" using host_execs_rel by blast
  have "count_list [0, 1] i = ((\<lambda>i. 0)(0 := 1, 1 := 1)) i" for i :: nat by simp
  from host_no_leak [OF r this] show ?thesis using r by blast
qed

theorem map_buffer_inside_witness:
  "\<exists>s t bf. hs_heap s 0 = Some (1, Buffer bf) \<and> hb_size bf = 64 \<and>
    xrp_map_buffer 0 16 48 2 s = Some ((Some 0x1010, XRP_STATUS_SUCCESS), t)"
proof -
  let ?bf = "\<lparr>hb_on_device = False, hb_device = None, hb_ptr = 0x1000, hb_phy_addr = 0, hb_size = 64, hb_map_count = 0,
     hb_map_flags = 0\<rparr>"
  let ?s = "host_start\<lparr>hs_heap := [0 \<mapsto> (1, Buffer ?bf)], hs_next := 1\<rparr>"
  have h: "hs_heap ?s 0 = Some (1, Buffer ?bf)" by simp
  obtain p st t where t: "xrp_map_buffer 0 16 48 2 ?s = Some ((p, st), t)"
    by (simp add: xrp_map_buffer_def retain_refcounted_def set_body_def)
  from map_buffer_inside [OF h t] have "st = XRP_STATUS_SUCCESS" "p = Some 0x1010" by simp_all
  then show ?thesis using h t by (intro exI [of _ ?s] exI [of _ t] exI [of _ ?bf]) simp
qed

end
