(* ===== verification/Host_Calls.thy ===== *)
theory Host_Calls
  imports Host_Objects "HOL-Library.Multiset"
begin

text \<open>
  The calls of \<open>Host_Objects\<close> as a program sees them: which references it holds before and after a
  call and which objects stay what they are. With these rules the code of \<open>dsp-ps/\<close> is verified.
  The file also holds the inquiries of \<open>xrp_host_common.c\<close> and \<open>xrp_run_command_sync\<close>.
\<close>

section \<open>What calls leave unchanged\<close>

text \<open>
  \<open>kept X s t\<close>: objects of \<open>s\<close> that still exist in \<open>t\<close> are the same up to their counters, those in
  \<open>X\<close> excepted; nothing new has an old address.
\<close>

fun same_object :: "body \<Rightarrow> body \<Rightarrow> bool" where
  "same_object (Device fd) (Device fd') \<longleftrightarrow> fd = fd'"
| "same_object (Buffer b) (Buffer b') \<longleftrightarrow> hb_on_device b = hb_on_device b' \<and> hb_device b = hb_device b' \<and>
     hb_ptr b = hb_ptr b' \<and> hb_phy_addr b = hb_phy_addr b' \<and> hb_size b = hb_size b'"
| "same_object (Group g) (Group g') \<longleftrightarrow> hg_records g = hg_records g'"
| "same_object (Queue q) (Queue q') \<longleftrightarrow> q = q'"
| "same_object (Event e) (Event e') \<longleftrightarrow> he_queue e = he_queue e'"
| "same_object _ _ \<longleftrightarrow> False"

lemma same_object_refl [simp]: "same_object b b"
  by (cases b) simp_all

lemma same_object_trans: "same_object a b \<Longrightarrow> same_object b c \<Longrightarrow> same_object a c"
  by (cases a; cases b; cases c) simp_all

lemma same_object_cases:
  "same_object (Device fd) b \<longleftrightarrow> b = Device fd"
  "same_object (Queue q) b \<longleftrightarrow> b = Queue q"
  "same_object (Group g) b \<longleftrightarrow> (\<exists>g'. b = Group g' \<and> hg_records g' = hg_records g)"
  "same_object (Buffer x) b \<longleftrightarrow> (\<exists>x'. b = Buffer x' \<and> hb_on_device x = hb_on_device x' \<and> hb_device x = hb_device x' \<and>
     hb_ptr x = hb_ptr x' \<and> hb_phy_addr x = hb_phy_addr x' \<and> hb_size x = hb_size x')"
  "same_object (Event e) b \<longleftrightarrow> (\<exists>e'. b = Event e' \<and> he_queue e' = he_queue e)"
  by (cases b; auto)+

definition kept :: "nat set \<Rightarrow> host_state \<Rightarrow> host_state \<Rightarrow> bool" where
  "kept X s t \<longleftrightarrow> hs_next s \<le> hs_next t \<and>
     (\<forall>i c b. i < hs_next s \<longrightarrow> i \<notin> X \<longrightarrow> hs_heap t i = Some (c, b) \<longrightarrow>
        (\<exists>c0 b0. hs_heap s i = Some (c0, b0) \<and> same_object b0 b))"

lemma kept_refl [simp]: "kept X s s"
  by (auto simp: kept_def)

lemma kept_trans:
  assumes "kept X s t" "kept Y t u"
  shows "kept (X \<union> Y) s u"
proof -
  have "\<exists>c0 b0. hs_heap s i = Some (c0, b0) \<and> same_object b0 b"
    if i: "i < hs_next s" "i \<notin> X" "i \<notin> Y" "hs_heap u i = Some (c, b)" for i c b
  proof -
    have "i < hs_next t" using assms(1) i(1) by (simp add: kept_def)
    then obtain c1 b1 where 1: "hs_heap t i = Some (c1, b1)" "same_object b1 b"
      using assms(2) i unfolding kept_def by blast
    then obtain c0 b0 where "hs_heap s i = Some (c0, b0)" "same_object b0 b1"
      using assms(1) i unfolding kept_def by blast
    then show ?thesis using 1(2) same_object_trans by blast
  qed
  then show ?thesis using assms by (simp add: kept_def)
qed

lemma kept_trans0 [trans]: "kept X s t \<Longrightarrow> kept {} t u \<Longrightarrow> kept X s u"
  using kept_trans [of X s t "{}"] by simp

lemma kept_then: "kept {} s t \<Longrightarrow> kept X t u \<Longrightarrow> kept X s u"
  using kept_trans [of "{}" s t X] by simp

lemma kept_fresh: "kept X s t \<Longrightarrow> (\<And>i. i \<in> X \<Longrightarrow> hs_next s \<le> i) \<Longrightarrow> kept {} s t"
  unfolding kept_def by (metis empty_iff not_le)

lemma kept_mono: "kept X s t \<Longrightarrow> X \<subseteq> Y \<Longrightarrow> kept Y s t"
  unfolding kept_def by blast

lemma kept_cong:
  "hs_heap t = hs_heap s \<Longrightarrow> hs_next t = hs_next s \<Longrightarrow> kept {} s t"
  by (auto simp: kept_def)

lemma kept_entry:
  "hs_heap s i = Some (c, b) \<Longrightarrow> same_object b b' \<Longrightarrow>
    kept {} s (s\<lparr>hs_heap := (hs_heap s)(i \<mapsto> (c', b'))\<rparr>)"
  by (auto simp: kept_def)

lemma kept_alloc: "kept {} s (snd (alloc_refcounted b s))"
  by (auto simp: kept_def alloc_refcounted_def)

lemma kept_free: "kept {} s (free_object i s)"
  by (auto simp: kept_def free_object_def)

lemma kept_retain: "retain_refcounted i s = Some t \<Longrightarrow> kept {} s t"
  by (auto simp: retain_refcounted_def Option.bind_eq_Some_conv intro: kept_entry)

lemma kept_last: "last_release_refcounted i s = Some (g, b, t) \<Longrightarrow> kept {} s t"
  by (auto simp: last_release_refcounted_def Let_def Option.bind_eq_Some_conv intro: kept_entry)

lemma last_then:
  assumes "Option.bind (last_release_refcounted i s) f = Some t"
  obtains g b s1 where "last_release_refcounted i s = Some (g, b, s1)" "kept {} s s1" "f (g, b, s1) = Some t"
  using assms kept_last by (auto simp: Option.bind_eq_Some_conv)

lemma kept_free_then: "kept {} s t \<Longrightarrow> kept {} s (free_object i t)"
  using kept_trans0 kept_free by blast

lemma kept_cong_then: "kept {} t u \<Longrightarrow> hs_heap t = hs_heap s \<Longrightarrow> hs_next t = hs_next s \<Longrightarrow> kept {} s u"
  using kept_trans0 kept_cong by blast

lemma kept_release_device: "xrp_release_device i s = Some t \<Longrightarrow> kept {} s t"
  unfolding xrp_release_device_def
  by (erule last_then, simp split: body.split_asm if_split_asm)
    (auto intro!: kept_free_then intro: kept_trans0 [OF _ kept_cong])

lemma kept_release_buffer: "xrp_release_buffer i s = Some t \<Longrightarrow> kept {} s t"
proof -
  assume r: "xrp_release_buffer i s = Some t"
  have dev: "kept {} v u" if "xrp_impl_release_device_buffer bf v = Some u" for bf u v
    using that by (auto simp: xrp_impl_release_device_buffer_def Option.bind_eq_Some_conv
        intro: kept_cong_then [OF kept_release_device])
  show ?thesis
    using r unfolding xrp_release_buffer_def
    by (elim last_then) (auto simp: Option.bind_eq_Some_conv split: body.split_asm if_split_asm
        dest!: dev intro!: kept_free_then intro: kept_trans0)
qed

lemma kept_release_buffers: "release_buffers bs s = Some t \<Longrightarrow> kept {} s t"
  by (induction bs arbitrary: s)
    (auto simp: Option.bind_eq_Some_conv dest!: kept_release_buffer intro: kept_trans0)

lemma kept_release_group: "xrp_release_buffer_group i s = Some t \<Longrightarrow> kept {} s t"
  unfolding xrp_release_buffer_group_def
  by (erule last_then) (auto simp: Option.bind_eq_Some_conv split: body.split_asm if_split_asm
      dest!: kept_release_buffers intro!: kept_free_then intro: kept_trans0)

lemma kept_release_group_option: "release_group_option g s = Some t \<Longrightarrow> kept {} s t"
  by (auto simp: release_group_option_def split: option.splits dest: kept_release_group)

lemma kept_drain: "drain rqs s = Some t \<Longrightarrow> kept {} s t"
  by (induction rqs arbitrary: s)
    (auto simp: Option.bind_eq_Some_conv split: if_splits dest!: kept_release_group_option intro: kept_trans0)

lemma kept_queue_destroy: "xrp_queue_destroy self i s = Some t \<Longrightarrow> kept {} s t"
  by (auto simp: xrp_queue_destroy_def Let_def split: if_splits intro: kept_cong kept_cong_then [OF kept_drain])

lemma kept_release_queue: "xrp_release_queue self i s = Some t \<Longrightarrow> kept {} s t"
  unfolding xrp_release_queue_def
  by (erule last_then) (auto simp: Option.bind_eq_Some_conv split: body.split_asm if_split_asm
      dest!: kept_queue_destroy kept_release_device intro!: kept_free_then intro: kept_trans0)

lemma kept_release_event: "xrp_release_event self i s = Some t \<Longrightarrow> kept {} s t"
  unfolding xrp_release_event_def
  by (erule last_then) (auto simp: Option.bind_eq_Some_conv split: body.split_asm if_split_asm
      dest!: kept_release_queue intro!: kept_free_then intro: kept_trans0)

lemma kept_release_object: "release_object i s = Some t \<Longrightarrow> kept {} s t"
  by (auto simp: release_object_def split: option.splits body.splits
      dest: kept_release_device kept_release_buffer kept_release_group kept_release_queue kept_release_event)

lemma kept_set_body:
  "set_body i b' s = Some t \<Longrightarrow> (\<And>c b. hs_heap s i = Some (c, b) \<Longrightarrow> same_object b b') \<Longrightarrow> kept {} s t"
  by (auto simp: set_body_def Option.bind_eq_Some_conv intro: kept_entry)

lemma kept_process: "xrp_request_process rq ret s = Some t \<Longrightarrow> kept {} s t"
proof -
  assume r: "xrp_request_process rq ret s = Some t"
  have b: "kept {} u v" if "xrp_impl_broadcast_event e st u = Some v" for e st u v
    using that by (auto simp: xrp_impl_broadcast_event_def set_body_def Option.bind_eq_Some_conv
        split: option.splits body.splits intro!: kept_entry)
  show ?thesis
    using r by (auto simp: xrp_request_process_def Option.bind_eq_Some_conv split: option.splits
        dest!: kept_release_group_option b kept_release_event intro: kept_trans0)
qed

lemma kept_serve: "serve q ret s = Some t \<Longrightarrow> kept {} s t"
  by (auto simp: serve_def split: list.splits intro: kept_cong_then [OF kept_process])

section \<open>References a program holds\<close>

text \<open>
  \<open>holding h M s\<close>: the invariant of \<open>Host_Objects\<close> when the program holds the references \<open>h\<close> and
  those of the multiset \<open>M\<close>; \<open>is_object s i b\<close>: the object at \<open>i\<close> is \<open>b\<close> up to its counters.
\<close>

definition holding :: "(nat \<Rightarrow> nat) \<Rightarrow> nat multiset \<Rightarrow> host_state \<Rightarrow> bool" where
  "holding h M s \<longleftrightarrow> host_inv (\<lambda>k. h k + count M k) s"

definition is_object :: "host_state \<Rightarrow> nat \<Rightarrow> body \<Rightarrow> bool" where
  "is_object s i b \<longleftrightarrow> (\<exists>c b'. hs_heap s i = Some (c, b') \<and> same_object b b')"

lemma holding_empty: "holding h {#} s \<longleftrightarrow> host_inv h s"
  by (simp add: holding_def)

lemma holding_fun:
  assumes "host_inv h' s" "\<And>k. h' k = h k + count M k"
  shows "holding h M s"
proof -
  have "h' = (\<lambda>k. h k + count M k)" using assms(2) by (simp add: fun_eq_iff)
  then show ?thesis using assms(1) by (simp add: holding_def)
qed

lemma holding_heap_cong:
  assumes "holding h M s" "hs_heap t = hs_heap s" "hs_next t = hs_next s" "hs_requests t = hs_requests s" "hs_lost t = hs_lost s"
  shows "holding h M t"
  using inv_heap_cong [OF _ assms(2-5)] assms(1) by (simp add: holding_def)

lemma live_entry:
  assumes "holding h M s" "0 < h i + count M i"
  shows "\<exists>c b. hs_heap s i = Some (c, b) \<and> 0 < c"
proof -
  let ?h = "\<lambda>k. h k + count M k"
  have ex: "exact {} (outside ?h s) s" using assms(1) by (simp add: holding_def host_inv_def)
  have pos: "0 < outside ?h s i" using assms(2) by (simp add: outside_def)
  obtain c b where cb: "hs_heap s i = Some (c, b)" "c = outside ?h s i + held {} (hs_heap s) i"
    using exact_live [OF ex pos] by blast
  have "0 < c" using cb(2) pos by linarith
  then show ?thesis using cb(1) by blast
qed

lemma entry_below:
  assumes "holding h M s" "hs_heap s i = Some (c, b)"
  shows "i < hs_next s"
  using exactD(2) [of "{}" _ s i] assms by (cases "hs_next s \<le> i") (auto simp: holding_def host_inv_def)

lemma still:
  assumes "is_object s i b" "holding h M s" "kept X s t" "i \<notin> X" "holding h' M' t" "0 < h' i + count M' i"
  shows "is_object t i b"
proof -
  obtain c b1 where 1: "hs_heap s i = Some (c, b1)" "same_object b b1" using assms(1) by (auto simp: is_object_def)
  obtain c' b' where 2: "hs_heap t i = Some (c', b')" using live_entry [OF assms(5,6)] by blast
  have "i < hs_next s" by (rule entry_below [OF assms(2) 1(1)])
  then have "same_object b1 b'" using assms(3,4) 1(1) 2 unfolding kept_def by fastforce
  then show ?thesis using 1(2) 2 same_object_trans by (auto simp: is_object_def)
qed

lemma is_object_holds:
  "is_object s i b \<Longrightarrow> 0 < h i \<Longrightarrow> holds_ref (h, s) i (kind_of b)"
  by (cases b) (auto simp: is_object_def holds_ref_def same_object_cases)

lemma release_spec:
  assumes "holding h (add_mset i M) s"
  shows "\<exists>t. release_object i s = Some t \<and> holding h M t \<and> kept {} s t"
proof -
  let ?h = "\<lambda>k. h k + count (add_mset i M) k"
  have inv: "host_inv ?h s" using assms by (simp add: holding_def)
  have pos: "0 < ?h i" by simp
  obtain t where t: "release_object i s = Some t" "host_inv (?h(i := ?h i - 1)) t"
    using release_object_ok [OF inv pos] by blast
  have "holding h M t" by (rule holding_fun [OF t(2)]) simp
  then show ?thesis using t(1) kept_release_object by blast
qed

lemma release_as:
  "is_object s i (Device fd) \<Longrightarrow> release_object i s = xrp_release_device i s"
  "is_object s i (Buffer bf) \<Longrightarrow> release_object i s = xrp_release_buffer i s"
  "is_object s i (Group g) \<Longrightarrow> release_object i s = xrp_release_buffer_group i s"
  "is_object s i (Queue q) \<Longrightarrow> release_object i s = xrp_release_queue False i s"
  "is_object s i (Event e) \<Longrightarrow> release_object i s = xrp_release_event False i s"
  by (auto simp: is_object_def release_object_def same_object_cases)

lemma release_buffer_spec:
  assumes "holding h (add_mset i M) s" "is_object s i (Buffer bf)"
  shows "\<exists>t. xrp_release_buffer i s = Some t \<and> holding h M t \<and> kept {} s t"
  using release_spec [OF assms(1)] release_as(2) [OF assms(2)] by simp

lemma release_group_spec:
  assumes "holding h (add_mset i M) s" "is_object s i (Group g)"
  shows "\<exists>t. xrp_release_buffer_group i s = Some t \<and> holding h M t \<and> kept {} s t"
  using release_spec [OF assms(1)] release_as(3) [OF assms(2)] by simp

text \<open>A new object and the reference the program gets.\<close>

lemma new_object:
  assumes "host_inv h' t" "h' = (\<lambda>k. h k + count M k)(hs_next s := h (hs_next s) + count M (hs_next s) + 1)"
  shows "holding h (add_mset (hs_next s) M) t"
  by (rule holding_fun [OF assms(1)]) (simp add: assms(2))

lemma create_group_spec:
  assumes "holding h M s"
  shows "\<exists>r t. xrp_create_buffer_group ok s = (r, t) \<and> kept {} s t \<and>
    (if ok then r = (Some (hs_next s), XRP_STATUS_SUCCESS) \<and> holding h (add_mset (hs_next s) M) t \<and>
        is_object t (hs_next s) (Group \<lparr>hg_capacity = 0, hg_records = []\<rparr>) \<and> hs_heap s (hs_next s) = None
     else r = (None, XRP_STATUS_FAILURE) \<and> t = s)"
proof -
  let ?h = "\<lambda>k. h k + count M k" and ?b = "Group \<lparr>hg_capacity = 0, hg_records = []\<rparr>"
  have inv: "host_inv ?h s" using assms by (simp add: holding_def)
  obtain h1 t where "got ?h (xrp_create_buffer_group ok s) = (h1, t)" "host_inv h1 t"
    using create_group_ok [OF inv] by blast
  then show ?thesis
    using kept_alloc [of s ?b] inv_none [OF inv] new_object [of h1 t h M s]
    by (auto simp: xrp_create_buffer_group_def alloc_refcounted_def got_def is_object_def)
qed

lemma create_buffer_spec:
  assumes "holding h M s" "is_object s d (Device fd)" "0 < h d + count M d"
  shows "\<exists>r t. xrp_create_buffer (Some d) sz 0 ok io s = Some (r, t) \<and> kept {} s t \<and>
    (case io of
       Some (p, phy) \<Rightarrow> if ok then r = (Some (hs_next s), XRP_STATUS_SUCCESS) \<and> holding h (add_mset (hs_next s) M) t \<and>
          is_object t (hs_next s) (Buffer \<lparr>hb_on_device = True, hb_device = Some d, hb_ptr = p, hb_phy_addr = phy, hb_size = sz,
             hb_map_count = 0, hb_map_flags = 0\<rparr>) \<and> hs_heap s (hs_next s) = None
        else r = (None, XRP_STATUS_FAILURE) \<and> holding h M t
     | None \<Rightarrow> r = (None, XRP_STATUS_FAILURE) \<and> holding h M t)"
proof -
  let ?h = "\<lambda>k. h k + count M k"
  have inv: "host_inv ?h s" using assms(1) by (simp add: holding_def)
  have "holds_ref (?h, s) d Device_Kind" using is_object_holds [OF assms(2), of ?h] assms(3) by simp
  then have "case Some d of None \<Rightarrow> True | Some i \<Rightarrow> holds_ref (?h, s) i Device_Kind" by simp
  from create_buffer_ok [OF inv this] obtain x where
    x: "xrp_create_buffer (Some d) sz 0 ok io s = Some x" "host_inv (fst (got ?h x)) (snd (got ?h x))" by blast
  obtain c where d: "hs_heap s d = Some (c, Device fd)" using assms(2) by (auto simp: is_object_def same_object_cases)
  show ?thesis
  proof (cases "ok \<and> io \<noteq> None")
    case False
    obtain t where xt: "x = ((None, XRP_STATUS_FAILURE), t)" "kept {} s t"
    proof (cases ok)
      case True
      then have "io = None" using False by blast
      then obtain s1 s2 where "retain_refcounted d s = Some s1" "xrp_release_device d s1 = Some s2"
        "x = ((None, XRP_STATUS_FAILURE), s2)"
        using x(1) True by (auto simp: xrp_create_buffer_def Option.bind_eq_Some_conv)
      then show thesis using that kept_retain kept_release_device kept_trans0 by blast
    next
      case False
      then show thesis using x(1) that by (auto simp: xrp_create_buffer_def)
    qed
    moreover have "holding h M t" using x(2) xt(1) by (simp add: got_def holding_def)
    ultimately show ?thesis using x(1) False by (auto split: option.splits)
  next
    case True
    then obtain p phy where io: "io = Some (p, phy)" "ok" by auto
    let ?b = "Buffer \<lparr>hb_on_device = True, hb_device = Some d, hb_ptr = p, hb_phy_addr = phy, hb_size = sz,
             hb_map_count = 0, hb_map_flags = 0\<rparr>"
    let ?s1 = "s\<lparr>hs_heap := (hs_heap s)(d \<mapsto> (c + 1, Device fd))\<rparr>"
    let ?t = "(snd (alloc_refcounted ?b ?s1))\<lparr>hs_areas := p # hs_areas s\<rparr>"
    have e: "x = ((Some (hs_next s), XRP_STATUS_SUCCESS), ?t)"
      using x(1) io d by (simp add: xrp_create_buffer_def retain_refcounted_def alloc_refcounted_def)
    have n: "hs_heap s (hs_next s) = None" using inv_none [OF inv] by blast
    have k: "kept {} s ?t"
    proof -
      have "kept {} s ?s1" by (rule kept_entry [OF d]) simp
      moreover have "kept {} ?s1 (snd (alloc_refcounted ?b ?s1))" by (rule kept_alloc)
      ultimately have "kept {} s (snd (alloc_refcounted ?b ?s1))" by (rule kept_trans0)
      then show ?thesis by (simp add: kept_def)
    qed
    have o: "is_object ?t (hs_next s) ?b" by (simp add: is_object_def alloc_refcounted_def)
    have "holding h (add_mset (hs_next s) M) ?t"
      using x(2) new_object [of _ ?t h M s] unfolding e by (simp add: got_def)
    then show ?thesis using x(1) k o n unfolding e io(1) by (simp add: io(2))
  qed
qed

section \<open>Buffers and groups\<close>

text \<open>
  \<open>xrp_buffer_get_info\<close> and \<open>xrp_buffer_group_get_info\<close> on a machine with pointers of 8 bytes; the
  outer \<open>None\<close> is a bad object, the inner one the status of failure.
\<close>

datatype buffer_info = XRP_BUFFER_SIZE_SIZE_T | XRP_BUFFER_HOST_POINTER_PTR | XRP_BUFFER_PHY_ADDR | XRP_BUFFER_USER_ADDR

definition xrp_buffer_get_info :: "nat \<Rightarrow> buffer_info \<Rightarrow> nat \<Rightarrow> host_state \<Rightarrow> u64 option option" where
  "xrp_buffer_get_info i info out_sz s =
     do { (c, b) \<leftarrow> hs_heap s i;
          (case b of
             Buffer bf \<Rightarrow>
               Some (if out_sz = 8 then
                 Some (case info of
                     XRP_BUFFER_SIZE_SIZE_T \<Rightarrow> hb_size bf
                   | XRP_BUFFER_HOST_POINTER_PTR \<Rightarrow> (if hb_on_device bf then 0 else hb_ptr bf)
                   | XRP_BUFFER_PHY_ADDR \<Rightarrow> hb_phy_addr bf
                   | XRP_BUFFER_USER_ADDR \<Rightarrow> hb_ptr bf)
                 else None)
           | _ \<Rightarrow> None) }"

datatype group_info = XRP_BUFFER_GROUP_BUFFER_FLAGS_ENUM | XRP_BUFFER_GROUP_SIZE_SIZE_T

definition xrp_buffer_group_get_info :: "nat \<Rightarrow> group_info \<Rightarrow> nat \<Rightarrow> nat \<Rightarrow> host_state \<Rightarrow> nat option option" where
  "xrp_buffer_group_get_info gi info idx out_sz s =
     do { (c, b) \<leftarrow> hs_heap s gi;
          (case b of
             Group g \<Rightarrow>
               Some (case info of
                   XRP_BUFFER_GROUP_BUFFER_FLAGS_ENUM \<Rightarrow>
                     if length (hg_records g) \<le> idx \<or> out_sz \<noteq> 4 then None else Some (unat (snd (hg_records g ! idx)))
                 | XRP_BUFFER_GROUP_SIZE_SIZE_T \<Rightarrow> if out_sz \<noteq> 8 then None else Some (length (hg_records g)))
           | _ \<Rightarrow> None) }"

lemma get_info_spec:
  assumes "is_object s i (Buffer bf)"
  shows "xrp_buffer_get_info i XRP_BUFFER_PHY_ADDR 8 s = Some (Some (hb_phy_addr bf))"
    and "xrp_buffer_get_info i XRP_BUFFER_USER_ADDR 8 s = Some (Some (hb_ptr bf))"
  using assms by (auto simp: is_object_def same_object_cases xrp_buffer_get_info_def)

lemma group_size_spec:
  "is_object s g (Group gr) \<Longrightarrow>
    xrp_buffer_group_get_info g XRP_BUFFER_GROUP_SIZE_SIZE_T k 8 s = Some (Some (length (hg_records gr)))"
  by (auto simp: is_object_def same_object_cases xrp_buffer_group_get_info_def)

lemma get_from_group_spec:
  "is_object s g (Group gr) \<Longrightarrow> k < length (hg_records gr) \<Longrightarrow>
    xrp_get_buffer_from_group g k s = Some (Some (fst (hg_records gr ! k)), XRP_STATUS_SUCCESS)"
  by (auto simp: is_object_def same_object_cases xrp_get_buffer_from_group_def)

text \<open>What a group or an event refers to is alive as long as it is.\<close>

lemma group_member:
  assumes "holding h M s" "is_object s g (Group gr)" "(b, fl) \<in> set (hg_records gr)"
  shows "\<exists>bf. is_object s b (Buffer bf)"
proof -
  have ex: "exact {} (outside (\<lambda>k. h k + count M k) s) s" using assms(1) by (simp add: holding_def host_inv_def)
  obtain c g' where g: "hs_heap s g = Some (c, Group g')" "hg_records g' = hg_records gr"
    using assms(2) by (auto simp: is_object_def same_object_cases)
  have "b \<in> set (kids (Group g'))" using assms(3) g(2) by force
  from kid_live [OF ex g(1) _ this] obtain c' b' where "hs_heap s b = Some (c', b')" "kind_of b' = Buffer_Kind"
    by auto
  then show ?thesis by (cases b') (auto simp: is_object_def)
qed

lemma add_buffer_spec:
  assumes "holding h M s" "is_object s g (Group gr)" "0 < h g + count M g" "is_object s b (Buffer bf)" "0 < h b + count M b"
  shows "\<exists>r t. xrp_add_buffer_to_group g b fl ok s = Some (r, t) \<and> holding h M t \<and>
    (r = (Some (length (hg_records gr)), XRP_STATUS_SUCCESS) \<and> kept {g} s t \<and>
        is_object t g (Group (gr\<lparr>hg_records := hg_records gr @ [(b, fl)]\<rparr>)) \<or>
     \<not> ok \<and> r = (None, XRP_STATUS_FAILURE) \<and> t = s)"
proof -
  let ?h = "\<lambda>k. h k + count M k"
  have inv: "host_inv ?h s" using assms(1) by (simp add: holding_def)
  have holds: "holds_ref (?h, s) g Group_Kind" "holds_ref (?h, s) b Buffer_Kind"
    using is_object_holds [OF assms(2), of ?h] is_object_holds [OF assms(4), of ?h] assms(3,5) by simp_all
  obtain r t where rt: "xrp_add_buffer_to_group g b fl ok s = Some (r, t)" "host_inv ?h t"
    using add_buffer_ok [OF inv holds] by (metis surj_pair)
  have hold: "holding h M t" using rt(2) by (simp add: holding_def)
  obtain cg g' where g: "hs_heap s g = Some (cg, Group g')" "hg_records g' = hg_records gr"
    using assms(2) by (auto simp: is_object_def same_object_cases)
  obtain cb b' where b: "hs_heap s b = Some (cb, Buffer b')"
    using assms(4) by (auto simp: is_object_def same_object_cases)
  have ne: "b \<noteq> g" using g b by auto
  show ?thesis
  proof (cases "length (hg_records g') = hg_capacity g' \<and> \<not> ok")
    case True
    then show ?thesis using rt(1) hold g by (auto simp: xrp_add_buffer_to_group_def)
  next
    case False
    let ?cap = "if length (hg_records g') = hg_capacity g' then (hg_capacity g' + 2) * 2 else hg_capacity g'"
    let ?t = "s\<lparr>hs_heap := (hs_heap s)(b \<mapsto> (cb + 1, Buffer b'),
       g \<mapsto> (cg, Group \<lparr>hg_capacity = ?cap, hg_records = hg_records gr @ [(b, fl)]\<rparr>))\<rparr>"
    have "r = (Some (length (hg_records gr)), XRP_STATUS_SUCCESS) \<and> t = ?t"
      using rt(1) False g b ne
      by (auto simp: xrp_add_buffer_to_group_def retain_refcounted_def set_body_def Let_def split: if_splits)
    then show ?thesis using rt(1) hold b by (auto simp: kept_def is_object_def)
  qed
qed

lemma map_buffer_spec:
  assumes "holding h M s" "is_object s i (Buffer bf)" "0 < h i + count M i"
  shows "\<exists>r t. xrp_map_buffer i off sz fl s = Some (r, t) \<and> kept {} s t \<and>
    (if off \<le> hb_size bf \<and> sz \<le> hb_size bf - off
     then r = (Some (hb_ptr bf + off), XRP_STATUS_SUCCESS) \<and> holding h (add_mset i M) t
     else r = (None, XRP_STATUS_FAILURE) \<and> t = s)"
proof -
  let ?h = "\<lambda>k. h k + count M k"
  have inv: "host_inv ?h s" using assms(1) by (simp add: holding_def)
  have "holds_ref (?h, s) i Buffer_Kind" using is_object_holds [OF assms(2), of ?h] assms(3) by simp
  from map_buffer_ok [OF inv this] obtain p st t where
    m: "xrp_map_buffer i off sz fl s = Some ((p, st), t)" "host_inv (if p = None then ?h else ?h(i := ?h i + 1)) t" by blast
  obtain c b' where b: "hs_heap s i = Some (c, Buffer b')" "hb_ptr b' = hb_ptr bf" "hb_size b' = hb_size bf"
    using assms(2) by (auto simp: is_object_def same_object_cases)
  show ?thesis
  proof (cases "off \<le> hb_size bf \<and> sz \<le> hb_size bf - off")
    case True
    then have "p = Some (hb_ptr bf + off)" "st = XRP_STATUS_SUCCESS" and
      t: "t = s\<lparr>hs_heap := (hs_heap s)(i \<mapsto> (c + 1, Buffer (b'\<lparr>hb_map_count := hb_map_count b' + 1,
         hb_map_flags := hb_map_flags b' OR fl\<rparr>)))\<rparr>"
      using m(1) b by (auto simp: xrp_map_buffer_def retain_refcounted_def set_body_def)
    moreover have "holding h (add_mset i M) t"
      using m(2) calculation(1) by (auto intro: holding_fun)
    ultimately show ?thesis using True m(1) b(1) by (auto intro!: kept_entry)
  next
    case False
    then have "p = None" "st = XRP_STATUS_FAILURE" "t = s" using m(1) b by (auto simp: xrp_map_buffer_def)
    then show ?thesis using False m(1) by auto
  qed
qed

lemma unmap_buffer_spec:
  assumes "holding h (add_mset i M) s" "is_object s i (Buffer bf)" "hb_ptr bf \<le> p" "p - hb_ptr bf \<le> hb_size bf"
  shows "\<exists>t. xrp_unmap_buffer i p s = Some (XRP_STATUS_SUCCESS, t) \<and> holding h M t \<and> kept {} s t"
proof -
  let ?h = "\<lambda>k. h k + count (add_mset i M) k"
  have inv: "host_inv ?h s" using assms(1) by (simp add: holding_def)
  have pos: "0 < ?h i" by simp
  have "holds_ref (?h, s) i Buffer_Kind" using is_object_holds [OF assms(2), of ?h] pos by simp
  from unmap_buffer_ok [OF inv this] obtain st t where
    m: "xrp_unmap_buffer i p s = Some (st, t)" "host_inv (if st = XRP_STATUS_SUCCESS then ?h(i := ?h i - 1) else ?h) t" by blast
  obtain c b' where b: "hs_heap s i = Some (c, Buffer b')" "hb_ptr b' = hb_ptr bf" "hb_size b' = hb_size bf"
    using assms(2) by (auto simp: is_object_def same_object_cases)
  have st: "st = XRP_STATUS_SUCCESS" and
    r: "xrp_release_buffer i (s\<lparr>hs_heap := (hs_heap s)(i \<mapsto> (c, Buffer (b'\<lparr>hb_map_count := hb_map_count b' - 1\<rparr>)))\<rparr>) = Some t"
    using m(1) b assms(3,4) by (auto simp: xrp_unmap_buffer_def set_body_def Option.bind_eq_Some_conv)
  have "kept {} s t" by (rule kept_trans0 [OF kept_entry [OF b(1)] kept_release_buffer [OF r]]) simp
  moreover have "holding h M t" using m(2) unfolding st by (auto intro: holding_fun)
  ultimately show ?thesis using m(1) st by blast
qed

section \<open>A command that waits\<close>

text \<open>
  \<open>xrp_run_command_sync\<close>: the command is queued behind others, the worker runs them in order, the
  caller wakes up when its event has a status and releases the event. \<open>rets k\<close> is the result of the
  ioctl when \<open>k\<close> commands remain after it. What the driver is given for this command is a result of
  the model. The worker is done with the request before the caller continues; its release of the
  event and the caller's commute.
\<close>

fun serve_many :: "nat \<Rightarrow> nat \<Rightarrow> (nat \<Rightarrow> bool) \<Rightarrow> host_state \<Rightarrow> host_state option" where
  "serve_many q 0 rets s = Some s"
| "serve_many q (Suc k) rets s = do { t \<leftarrow> serve q (rets (Suc k)) s; serve_many q k rets t }"

definition xrp_run_command_sync ::
  "nat \<Rightarrow> u8 list \<Rightarrow> u64 \<Rightarrow> u64 \<Rightarrow> nat option \<Rightarrow> bool \<Rightarrow> bool \<Rightarrow> (nat \<Rightarrow> bool) \<Rightarrow> host_state \<Rightarrow>
    (xrp_status \<times> queue_ioctl option \<times> host_state) option" where
  "xrp_run_command_sync q in_data out_data out_size gr malloc_ok calloc_ok rets s =
     do { ((evt, st), s1) \<leftarrow> xrp_enqueue_command q in_data out_data out_size gr True malloc_ok calloc_ok s;
          (case evt of
             None \<Rightarrow> Some (st, None, s1)
           | Some e \<Rightarrow>
               do { s2 \<leftarrow> serve_many q (length (queued q s)) rets s1;
                    args \<leftarrow> (case queued q s2 of [] \<Rightarrow> None | rq # _ \<Rightarrow> xrp_run_command rq s2);
                    s3 \<leftarrow> serve q (rets 0) s2;
                    st3 \<leftarrow> xrp_event_status e s3;
                    s4 \<leftarrow> xrp_release_event False e s3;
                    Some (st3, Some args, s4) }) }"

text \<open>Serving a queue that stays alive removes its first request only.\<close>

lemma release_queue_requests:
  "xrp_release_queue self q s = Some t \<Longrightarrow> hs_heap t q \<noteq> None \<Longrightarrow> hs_requests t = hs_requests s"
  unfolding xrp_release_queue_def
  by (erule last_then)
    (auto simp: last_release_refcounted_def Let_def Option.bind_eq_Some_conv free_object_def split: body.split_asm if_split_asm)

lemma shrinks_requests: "shrinks K s t \<Longrightarrow> hs_requests t = hs_requests s"
  by (simp add: shrinks_def)

lemma release_device_requests: "xrp_release_device i s = Some t \<Longrightarrow> hs_requests t = hs_requests s"
  unfolding xrp_release_device_def
  by (erule last_then)
    (auto simp: last_release_refcounted_def Let_def Option.bind_eq_Some_conv free_object_def split: body.split_asm if_split_asm)

lemma last_requests: "last_release_refcounted i s = Some (g, b, t) \<Longrightarrow> hs_requests t = hs_requests s"
  by (auto simp: last_release_refcounted_def Let_def Option.bind_eq_Some_conv)

lemma release_buffer_requests: "xrp_release_buffer i s = Some t \<Longrightarrow> hs_requests t = hs_requests s"
  unfolding xrp_release_buffer_def
  by (erule last_then)
    (auto simp: xrp_impl_release_device_buffer_def Option.bind_eq_Some_conv free_object_def
      dest!: last_requests release_device_requests split: body.split_asm if_split_asm)

lemma release_buffers_requests: "release_buffers bs s = Some t \<Longrightarrow> hs_requests t = hs_requests s"
  by (induction bs arbitrary: s) (auto simp: Option.bind_eq_Some_conv dest!: release_buffer_requests)

lemma release_group_requests: "release_group_option g s = Some t \<Longrightarrow> hs_requests t = hs_requests s"
proof -
  have "xrp_release_buffer_group i s = Some t \<Longrightarrow> hs_requests t = hs_requests s" for i
    unfolding xrp_release_buffer_group_def
    by (erule last_then)
      (auto simp: Option.bind_eq_Some_conv free_object_def dest!: last_requests release_buffers_requests
        split: body.split_asm if_split_asm)
  then show "release_group_option g s = Some t \<Longrightarrow> hs_requests t = hs_requests s"
    by (auto simp: release_group_option_def split: option.splits)
qed

lemma release_event_requests:
  assumes "xrp_release_event self e s = Some t" "hs_heap s e = Some (c, Event ev)" "he_queue ev = Some q" "hs_heap t q \<noteq> None"
  shows "hs_requests t = hs_requests s"
proof -
  obtain g b s1 where 1: "last_release_refcounted e s = Some (g, b, s1)" "b = Event ev"
    using assms(1,2) by (auto simp: xrp_release_event_def last_release_refcounted_def Let_def Option.bind_eq_Some_conv)
  show ?thesis
  proof (cases g)
    case False
    then show ?thesis using assms(1) 1 last_requests [OF 1(1)] by (simp add: xrp_release_event_def)
  next
    case True
    then obtain s2 where "xrp_release_queue self q s1 = Some s2" "t = free_object e s2"
      using assms(1,3) 1 by (auto simp: xrp_release_event_def Option.bind_eq_Some_conv)
    then show ?thesis
      using release_queue_requests [of self q s1 s2] last_requests [OF 1(1)] assms(4)
      by (auto simp: free_object_def split: if_splits)
  qed
qed

lemma serve_requests:
  assumes "holding h M s" "queued q s = rq # rqs" "serve q ret s = Some t" "hs_heap t q \<noteq> None"
  shows "hs_requests t = remove1 rq (hs_requests s)"
proof -
  have rq: "rq \<in> set (hs_requests s)" "hr_queue rq = q"
    using assms(2) unfolding queued_def by (metis (mono_tags, lifting) filter_eq_Cons_iff in_set_conv_decomp)+
  let ?s = "s\<lparr>hs_requests := remove1 rq (hs_requests s)\<rparr>"
  have p: "xrp_request_process rq ret ?s = Some t" using assms(2,3) by (simp add: serve_def)
  then obtain s1 where g: "release_group_option (hr_group rq) ?s = Some s1"
    by (auto simp: xrp_request_process_def Option.bind_eq_Some_conv)
  have r1: "hs_requests s1 = remove1 rq (hs_requests s)" using release_group_requests [OF g] by simp
  show ?thesis
  proof (cases "hr_event rq")
    case None
    then show ?thesis using p g r1 by (auto simp: xrp_request_process_def Option.bind_eq_Some_conv)
  next
    case (Some e)
    have "requests_ok s" using assms(1) by (simp add: holding_def host_inv_def)
    then have "request_ok s rq" using requests_okD(1) rq(1) by blast
    then obtain c ev where e: "hs_heap s e = Some (c, Event ev)" "he_queue ev = Some q"
      using Some rq(2) by (auto simp: request_ok_def)
    obtain s2 where b: "xrp_impl_broadcast_event e (if ret then XRP_STATUS_SUCCESS else XRP_STATUS_FAILURE) s1 = Some s2"
      "xrp_release_event True e s2 = Some t"
      using p g Some by (auto simp: xrp_request_process_def Option.bind_eq_Some_conv)
    obtain c1 ev1 where e1: "hs_heap s1 e = Some (c1, Event ev1)"
      using b(1) by (auto simp: xrp_impl_broadcast_event_def split: option.splits body.splits)
    have "kept {} s s1" by (rule kept_cong_then [OF kept_release_group_option [OF g]]) simp_all
    then have "he_queue ev1 = Some q"
      using e1 e entry_below [OF assms(1) e(1)] by (fastforce simp: kept_def)
    moreover obtain ev2 where "hs_heap s2 e = Some (c1, Event ev2)" "he_queue ev2 = he_queue ev1" "hs_requests s2 = hs_requests s1"
      using b(1) e1 by (auto simp: xrp_impl_broadcast_event_def set_body_def)
    ultimately show ?thesis using release_event_requests [OF b(2)] assms(4) r1 by simp
  qed
qed

lemma serve_spec:
  assumes "holding h M s" "is_object s q (Queue qb)" "0 < h q + count M q"
  shows "\<exists>t. serve q ret s = Some t \<and> holding h M t \<and> kept {} s t \<and> queued q t = tl (queued q s) \<and>
    (\<forall>e. queued q s \<noteq> [] \<longrightarrow> hr_event (hd (queued q s)) = Some e \<longrightarrow> 0 < h e + count M e \<longrightarrow>
      xrp_event_status e t = Some (if ret then XRP_STATUS_SUCCESS else XRP_STATUS_FAILURE))"
proof -
  have inv: "host_inv (\<lambda>k. h k + count M k) s" using assms(1) by (simp add: holding_def)
  obtain t where t: "serve q ret s = Some t" "host_inv (\<lambda>k. h k + count M k) t"
    "\<forall>e. queued q s \<noteq> [] \<longrightarrow> hr_event (hd (queued q s)) = Some e \<longrightarrow> 0 < h e + count M e \<longrightarrow>
      xrp_event_status e t = Some (if ret then XRP_STATUS_SUCCESS else XRP_STATUS_FAILURE)"
    using serve_ok [OF inv, of q ret] by blast
  have hold: "holding h M t" using t(2) by (simp add: holding_def)
  have "queued q t = tl (queued q s)"
  proof (cases "queued q s")
    case Nil
    then show ?thesis using t(1) by (simp add: serve_def)
  next
    case (Cons rq rqs)
    have "hs_heap t q \<noteq> None" using live_entry [OF hold assms(3)] by auto
    then have r: "hs_requests t = remove1 rq (hs_requests s)" by (rule serve_requests [OF assms(1) Cons t(1)])
    have f: "filter P (remove1 x xs) = remove1 x (filter P xs)" if "P x" for P and x :: request_item and xs
      using that by (induction xs) auto
    have "hr_queue rq = q" using Cons unfolding queued_def by (auto dest!: filter_eq_ConsD)
    then have "queued q t = remove1 rq (queued q s)"
      unfolding queued_def r using f [of "\<lambda>x. hr_queue x = q" rq "hs_requests s"] by simp
    then show ?thesis using Cons by simp
  qed
  then show ?thesis using t hold kept_serve by blast
qed

lemma serve_many_spec:
  assumes "holding h M s" "is_object s q (Queue qb)" "0 < h q + count M q" "k \<le> length (queued q s)"
  shows "\<exists>t. serve_many q k rets s = Some t \<and> holding h M t \<and> kept {} s t \<and> queued q t = drop k (queued q s)"
  using assms
proof (induction k arbitrary: s)
  case (Suc k)
  obtain t where t: "serve q (rets (Suc k)) s = Some t" "holding h M t" "kept {} s t" "queued q t = tl (queued q s)"
    using serve_spec [OF Suc.prems(1-3)] by blast
  have "is_object t q (Queue qb)" by (rule still [OF Suc.prems(2,1) t(3) _ t(2) Suc.prems(3)]) simp
  moreover have "k \<le> length (queued q t)" using t(4) Suc.prems(4) by simp
  ultimately obtain u where u: "serve_many q k rets t = Some u" "holding h M u" "kept {} t u" "queued q u = drop k (queued q t)"
    using Suc.IH [OF t(2) _ Suc.prems(3)] by blast
  then show ?case using t kept_trans0 [OF t(3) u(3)] by (simp add: drop_Suc)
qed simp

text \<open>Queueing a command.\<close>

definition member_views :: "host_state \<Rightarrow> (nat \<times> u32) list \<Rightarrow> (u32 \<times> u64 \<times> u64) list" where
  "member_views s rs =
     map (\<lambda>(i, fl). case hs_heap s i of Some (c, Buffer bf) \<Rightarrow> (fl, hb_size bf, hb_ptr bf) | _ \<Rightarrow> (fl, 0, 0)) rs"

lemma ioctl_buffers_views: "ioctl_buffers rs s = Some bs \<Longrightarrow> bs = member_views s rs"
  by (induction rs arbitrary: bs)
    (auto simp: member_views_def Option.bind_eq_Some_conv split: option.splits body.splits)

lemma member_views_cong:
  assumes "\<And>i fl. (i, fl) \<in> set rs \<Longrightarrow> \<exists>bf. is_object s i (Buffer bf) \<and> is_object t i (Buffer bf)"
  shows "member_views t rs = member_views s rs"
proof -
  have "(case hs_heap t i of Some (c, Buffer bf) \<Rightarrow> (fl, hb_size bf, hb_ptr bf) | _ \<Rightarrow> (fl, 0, 0)) =
      (case hs_heap s i of Some (c, Buffer bf) \<Rightarrow> (fl, hb_size bf, hb_ptr bf) | _ \<Rightarrow> (fl, 0, 0))"
    if "(i, fl) \<in> set rs" for i fl
    using assms [OF that] by (auto simp: is_object_def same_object_cases)
  then show ?thesis by (auto simp: member_views_def)
qed

lemma enqueue_spec:
  assumes "holding h M s" "is_object s q (Queue qb)" "0 < h q + count M q"
    and "\<And>g. gr = Some g \<Longrightarrow> 0 < h g + count M g \<and> (\<exists>b. is_object s g (Group b))"
  shows "\<exists>r t. xrp_enqueue_command q inp out n gr True ok1 ok2 s = Some (r, t) \<and> kept {} s t \<and>
    (if ok1 \<and> ok2 then r = (Some (hs_next s), XRP_STATUS_SUCCESS) \<and> hs_heap s (hs_next s) = None \<and>
        holding h (add_mset (hs_next s) M) t \<and> (\<exists>ev. is_object t (hs_next s) (Event ev) \<and> he_queue ev = Some q) \<and>
        hs_requests t = hs_requests s @ [\<lparr>hr_queue = q, hr_event = Some (hs_next s), hr_group = gr, hr_in_data = inp,
          hr_out_data = out, hr_out_data_size = n\<rparr>]
     else r = (None, XRP_STATUS_FAILURE) \<and> t = s)"
proof -
  let ?h = "\<lambda>k. h k + count M k"
  have inv: "host_inv ?h s" using assms(1) by (simp add: holding_def)
  have 1: "holds_ref (?h, s) q Queue_Kind" using is_object_holds [OF assms(2), of ?h] assms(3) by simp
  have "case gr of None \<Rightarrow> True | Some g \<Rightarrow> holds_ref (?h, s) g Group_Kind"
    using assms(4) is_object_holds [where h = ?h] by (fastforce split: option.splits)
  from enqueue_ok [OF inv 1 this] obtain x where
    x: "xrp_enqueue_command q inp out n gr True ok1 ok2 s = Some x" "host_inv (fst (got ?h x)) (snd (got ?h x))" by blast
  show ?thesis
  proof (cases "ok1 \<and> ok2")
    case False
    then show ?thesis by (auto simp: xrp_enqueue_command_def)
  next
    case True
    let ?e = "hs_next s" and ?b = "Event \<lparr>he_queue = Some q, he_status = XRP_STATUS_PENDING\<rparr>"
    obtain c where q: "hs_heap s q = Some (c, Queue qb)" using assms(2) by (auto simp: is_object_def same_object_cases)
    have n: "hs_heap s ?e = None" using inv_none [OF inv] by blast
    have ne: "q \<noteq> ?e" using q n by auto
    let ?t1 = "s\<lparr>hs_next := ?e + 1, hs_heap := (hs_heap s)(q \<mapsto> (c + 1, Queue qb), ?e \<mapsto> (2, ?b))\<rparr>"
    have hp: "(hs_heap s)(?e \<mapsto> (1, Event \<lparr>he_queue = None, he_status = XRP_STATUS_PENDING\<rparr>), q \<mapsto> (c + 1, Queue qb),
        ?e \<mapsto> (1, ?b), ?e \<mapsto> (2, ?b)) = (hs_heap s)(q \<mapsto> (c + 1, Queue qb), ?e \<mapsto> (2, ?b))"
      using ne by (auto simp: fun_eq_iff)
    let ?rq = "\<lparr>hr_queue = q, hr_event = Some ?e, hr_group = gr, hr_in_data = inp, hr_out_data = out, hr_out_data_size = n\<rparr>"
    obtain t2 where t2: "retain_group_option gr ?t1 = Some t2"
      "x = ((Some ?e, XRP_STATUS_SUCCESS), t2\<lparr>hs_requests := hs_requests t2 @ [?rq]\<rparr>)"
      using x(1) True q ne hp
      by (auto simp: xrp_enqueue_command_def alloc_refcounted_def retain_refcounted_def set_body_def Let_def
          Option.bind_eq_Some_conv numeral_2_eq_2)
    let ?t = "t2\<lparr>hs_requests := hs_requests t2 @ [?rq]\<rparr>"
    have 2: "kept {} ?t1 t2" "hs_requests t2 = hs_requests s"
      using t2(1) kept_retain by (auto simp: retain_group_option_def retain_refcounted_def Option.bind_eq_Some_conv split: option.splits)
    have "kept {} s ?t1" using q by (auto simp: kept_def)
    then have 3: "kept {} s ?t" using kept_trans0 [OF _ 2(1), of "{}" s] kept_trans0 [OF _ kept_cong] by simp
    have hold: "holding h (add_mset ?e M) ?t"
      using x(2) new_object [of _ ?t h M s] unfolding t2(2) by (simp add: got_def)
    have ev: "\<exists>ev. is_object ?t ?e (Event ev) \<and> he_queue ev = Some q"
    proof -
      obtain c' b' where e': "hs_heap t2 ?e = Some (c', b')" using live_entry [OF hold, of ?e] by auto
      moreover have "hs_heap ?t1 ?e = Some (2, ?b)" by simp
      ultimately have "same_object ?b b'" using 2(1) by (fastforce simp: kept_def)
      then show ?thesis using e' by (intro exI [of _ "\<lparr>he_queue = Some q, he_status = XRP_STATUS_PENDING\<rparr>"]) (simp add: is_object_def)
    qed
    show ?thesis using x(1) True 2(2) 3 hold ev n unfolding t2(2) by simp
  qed
qed

lemma release_event_spec:
  assumes "holding h (add_mset e M) s" "is_object s e (Event ev)"
  shows "\<exists>t. xrp_release_event False e s = Some t \<and> holding h M t \<and> kept {} s t"
  using release_spec [OF assms(1)] release_as(5) [OF assms(2)] by simp

lemma run_command_views:
  assumes "xrp_run_command rq s = Some a" "is_object s (hr_queue rq) (Queue qb)"
  shows "iq_in_data a = hr_in_data rq \<and> iq_out_data a = hr_out_data rq \<and> iq_out_data_size a = hr_out_data_size rq \<and>
    iq_nsid a = hq_nsid qb \<and> (hr_group rq = None \<longrightarrow> iq_buffers a = []) \<and>
    (\<forall>g gb. hr_group rq = Some g \<longrightarrow> is_object s g (Group gb) \<longrightarrow> iq_buffers a = member_views s (hg_records gb))"
proof -
  obtain c where q: "hs_heap s (hr_queue rq) = Some (c, Queue qb)"
    using assms(2) by (auto simp: is_object_def same_object_cases)
  let ?bufs = "case hr_group rq of None \<Rightarrow> Some []
          | Some gi \<Rightarrow> (case hs_heap s gi of Some (c, Group g) \<Rightarrow> ioctl_buffers (hg_records g) s | _ \<Rightarrow> None)"
  obtain bs where bs: "?bufs = Some bs"
    using assms(1) by (auto simp: xrp_run_command_def Option.bind_eq_Some_conv)
  obtain cd bd where d: "hs_heap s (hq_device qb) = Some (cd, bd)"
    using assms(1) by (cases "hs_heap s (hq_device qb)") (auto simp: xrp_run_command_def bs q)
  obtain fd where fd: "bd = Device fd"
    using assms(1) by (cases bd) (simp_all add: xrp_run_command_def bs q d)
  have a: "iq_in_data a = hr_in_data rq \<and> iq_out_data a = hr_out_data rq \<and> iq_out_data_size a = hr_out_data_size rq \<and>
    iq_nsid a = hq_nsid qb \<and> iq_buffers a = bs"
    using assms(1) by (auto simp: xrp_run_command_def bs q d fd)
  have "bs = member_views s (hg_records gb)" if "hr_group rq = Some g" "is_object s g (Group gb)" for g gb
    using that bs by (auto simp: is_object_def same_object_cases dest!: ioctl_buffers_views)
  moreover have "bs = []" if "hr_group rq = None" using that bs by simp
  ultimately show ?thesis using a by simp
qed

lemma run_command_heap: "hs_heap t = hs_heap s \<Longrightarrow> xrp_run_command rq t = xrp_run_command rq s"
proof -
  assume e: "hs_heap t = hs_heap s"
  have "ioctl_buffers rs t = ioctl_buffers rs s" for rs
    by (induction rs) (auto simp: e split: option.splits body.splits)
  then have "ioctl_buffers rs t = ioctl_buffers rs s" for rs by blast
  then show ?thesis unfolding xrp_run_command_def e by (simp cong: option.case_cong prod.case_cong body.case_cong)
qed

lemma run_sync_spec:
  assumes "holding h M s" "is_object s q (Queue qb)" "0 < h q + count M q"
    and "\<And>g. gr = Some g \<Longrightarrow> 0 < h g + count M g \<and> (\<exists>b. is_object s g (Group b))"
  shows "\<exists>st args t. xrp_run_command_sync q inp out n gr ok1 ok2 rets s = Some (st, args, t) \<and> holding h M t \<and> kept {} s t \<and>
    (if ok1 \<and> ok2 then st = (if rets 0 then XRP_STATUS_SUCCESS else XRP_STATUS_FAILURE) \<and>
       (\<exists>a. args = Some a \<and> iq_in_data a = inp \<and> iq_out_data a = out \<and> iq_out_data_size a = n \<and> iq_nsid a = hq_nsid qb \<and>
         (gr = None \<longrightarrow> iq_buffers a = []) \<and>
         (\<forall>g b. gr = Some g \<longrightarrow> is_object s g (Group b) \<longrightarrow> iq_buffers a = member_views s (hg_records b)))
     else st = XRP_STATUS_FAILURE \<and> args = None)"
proof -
  obtain r s1 where 1: "xrp_enqueue_command q inp out n gr True ok1 ok2 s = Some (r, s1)" "kept {} s s1"
    "if ok1 \<and> ok2 then r = (Some (hs_next s), XRP_STATUS_SUCCESS) \<and> hs_heap s (hs_next s) = None \<and>
        holding h (add_mset (hs_next s) M) s1 \<and> (\<exists>ev. is_object s1 (hs_next s) (Event ev) \<and> he_queue ev = Some q) \<and>
        hs_requests s1 = hs_requests s @ [\<lparr>hr_queue = q, hr_event = Some (hs_next s), hr_group = gr, hr_in_data = inp,
          hr_out_data = out, hr_out_data_size = n\<rparr>]
     else r = (None, XRP_STATUS_FAILURE) \<and> s1 = s"
    using enqueue_spec [OF assms] by blast
  show ?thesis
  proof (cases "ok1 \<and> ok2")
    case False
    then show ?thesis using 1 assms(1) by (auto simp: xrp_run_command_sync_def)
  next
    case True
    let ?e = "hs_next s" and ?M = "add_mset (hs_next s) M"
    let ?rq = "\<lparr>hr_queue = q, hr_event = Some ?e, hr_group = gr, hr_in_data = inp, hr_out_data = out, hr_out_data_size = n\<rparr>"
    have r: "r = (Some ?e, XRP_STATUS_SUCCESS)" and h1: "holding h ?M s1" and rqs: "hs_requests s1 = hs_requests s @ [?rq]"
      and "\<exists>ev. is_object s1 ?e (Event ev) \<and> he_queue ev = Some q"
      using 1(3) True by simp_all
    then obtain ev where ev: "is_object s1 ?e (Event ev)" by blast
    have pq: "0 < h q + count ?M q" and pe: "0 < h ?e + count ?M ?e" using assms(3) by auto
    have q1: "is_object s1 q (Queue qb)" by (rule still [OF assms(2,1) 1(2) _ h1 pq]) simp
    have k1: "queued q s1 = queued q s @ [?rq]" using rqs by (simp add: queued_def)
    obtain s2 where 2: "serve_many q (length (queued q s)) rets s1 = Some s2" "holding h ?M s2" "kept {} s1 s2"
      "queued q s2 = drop (length (queued q s)) (queued q s1)"
      using serve_many_spec [OF h1 q1 pq, of "length (queued q s)" rets] k1 by auto
    have k2: "queued q s2 = [?rq]" using 2(4) k1 by simp
    have q2: "is_object s2 q (Queue qb)" by (rule still [OF q1 h1 2(3) _ 2(2) pq]) simp
    obtain s3 where 3: "serve q (rets 0) s2 = Some s3" "holding h ?M s3" "kept {} s2 s3"
      "xrp_event_status ?e s3 = Some (if rets 0 then XRP_STATUS_SUCCESS else XRP_STATUS_FAILURE)"
      using serve_spec [OF 2(2) q2 pq, of "rets 0"] k2 pe by auto
    have e2: "is_object s2 ?e (Event ev)" by (rule still [OF ev h1 2(3) _ 2(2) pe]) simp
    have e3: "is_object s3 ?e (Event ev)" by (rule still [OF e2 2(2) 3(3) _ 3(2) pe]) simp
    obtain s4 where 4: "xrp_release_event False ?e s3 = Some s4" "holding h M s4" "kept {} s3 s4"
      using release_event_spec [OF 3(2) e3] by blast
    obtain a where a: "xrp_run_command ?rq s2 = Some a"
      using 3(1) k2 run_command_heap [of "s2\<lparr>hs_requests := remove1 ?rq (hs_requests s2)\<rparr>" s2 ?rq]
      by (auto simp: serve_def xrp_request_process_def Option.bind_eq_Some_conv)
    have k02: "kept {} s s2" by (rule kept_trans0 [OF 1(2) 2(3)])
    have views: "iq_buffers a = member_views s (hg_records b)" if g: "gr = Some g" "is_object s g (Group b)" for g b
    proof -
      have pg: "0 < h g + count ?M g" using assms(4) [OF g(1)] by auto
      have g2: "is_object s2 g (Group b)" by (rule still [OF g(2) assms(1) k02 _ 2(2) pg]) simp
      have "member_views s2 (hg_records b) = member_views s (hg_records b)"
      proof (rule member_views_cong)
        fix i fl assume i: "(i, fl) \<in> set (hg_records b)"
        obtain bf where "is_object s i (Buffer bf)" using group_member [OF assms(1) g(2) i] by blast
        moreover obtain c2 bf2 where s2: "hs_heap s2 i = Some (c2, Buffer bf2)"
          using group_member [OF 2(2) g2 i] by (auto simp: is_object_def same_object_cases)
        moreover obtain c0 b0 where "hs_heap s i = Some (c0, Buffer b0)" using calculation(1) by (auto simp: is_object_def same_object_cases)
        moreover have "i < hs_next s" using entry_below [OF assms(1)] calculation(3) by blast
        then have "\<exists>c0 b0. hs_heap s i = Some (c0, b0) \<and> same_object b0 (Buffer bf2)" using k02 s2 unfolding kept_def by blast
        ultimately show "\<exists>bf. is_object s i (Buffer bf) \<and> is_object s2 i (Buffer bf)"
          by (intro exI [of _ b0]) (auto simp: is_object_def same_object_cases)
      qed
      then show ?thesis using run_command_views [OF a, of qb] q2 g2 g(1) by simp
    qed
    have "kept {} s s4" using k02 3(3) 4(3) kept_trans0 by blast
    then show ?thesis
      using 1(1) r 2(1) k2 a 3(1,4) 4(1,2) True run_command_views [OF a, of qb] q2 views
      by (simp add: xrp_run_command_sync_def)
  qed
qed

end
