(* ===== verification/Dsp_Command.thy ===== *)
theory Dsp_Command
  imports Host_Calls Comm
begin

text \<open>
  Commands of the application library to the DSP, \<open>dsp-ps/csi_dsp_core.c\<close>: a command that waits for
  its answer, and the functions that hand the DSP an algorithm with its settings in buffers they
  create, add to a group and release. The layout of the structures in memory (\<open>layout\<close>) and the
  memory of the application (\<open>mem\<close>) are arguments.
\<close>

section \<open>Commands\<close>

text \<open>The outcome of the allocations of a command and of the ioctls of its queue.\<close>

record command_env =
  ce_malloc :: bool
  ce_rq_malloc :: bool
  ce_event_calloc :: bool
  ce_rets :: "nat \<Rightarrow> bool"

datatype ps_cmd = PS_CMD_IDLE | PS_CMD_TASK_ALLOC | PS_CMD_TASK_FREE | PS_CMD_LOOPBACK_TEST | PS_CMD_REPORT_CONFIG |
  PS_CMD_LOG_CONFIG | PS_CMD_HEART_BEAT_REQ | PS_CMD_LOAD_MINITOR_REQ | PS_CMD_FE_CONFIG | PS_CMD_BE_CONFIG |
  PS_CMD_ALGO_CONFIG | PS_CMD_TASK_START | PS_CMD_TASK_STOP | PS_CMD_DATA_MOVE | PS_CMD_DSP_IP_TEST |
  PS_CMD_BE_ASSGIN_BUF | PS_CMD_ALGO_LOAD

fun cmd_code :: "ps_cmd \<Rightarrow> u32" where
  "cmd_code PS_CMD_IDLE = 0"
| "cmd_code PS_CMD_TASK_ALLOC = 1"
| "cmd_code PS_CMD_TASK_FREE = 2"
| "cmd_code PS_CMD_LOOPBACK_TEST = 3"
| "cmd_code PS_CMD_REPORT_CONFIG = 4"
| "cmd_code PS_CMD_LOG_CONFIG = 5"
| "cmd_code PS_CMD_HEART_BEAT_REQ = 6"
| "cmd_code PS_CMD_LOAD_MINITOR_REQ = 7"
| "cmd_code PS_CMD_FE_CONFIG = 8"
| "cmd_code PS_CMD_BE_CONFIG = 9"
| "cmd_code PS_CMD_ALGO_CONFIG = 10"
| "cmd_code PS_CMD_TASK_START = 11"
| "cmd_code PS_CMD_TASK_STOP = 12"
| "cmd_code PS_CMD_DATA_MOVE = 13"
| "cmd_code PS_CMD_DSP_IP_TEST = 14"
| "cmd_code PS_CMD_BE_ASSGIN_BUF = 15"
| "cmd_code PS_CMD_ALGO_LOAD = 16"

definition csi_dsp_cmd_send ::
  "nat \<Rightarrow> ps_cmd \<Rightarrow> u8 list \<Rightarrow> u64 \<Rightarrow> u64 \<Rightarrow> nat option \<Rightarrow> command_env \<Rightarrow> host_state \<Rightarrow>
    (int \<times> queue_ioctl option \<times> host_state) option" where
  "csi_dsp_cmd_send q cmd_type payload resp resp_size gr e s =
     (if \<not> ce_malloc e then Some (- 1, None, s)
      else do { (st, args, t) \<leftarrow> xrp_run_command_sync q (le_bytes (cmd_code cmd_type) @ payload) resp resp_size gr
                  (ce_rq_malloc e) (ce_event_calloc e) (ce_rets e) s;
                Some (if st \<noteq> XRP_STATUS_SUCCESS then - 1 else 0, args, t) })"

definition sent :: "command_env \<Rightarrow> bool" where
  "sent e \<longleftrightarrow> ce_malloc e \<and> ce_rq_malloc e \<and> ce_event_calloc e \<and> ce_rets e 0"

lemma cmd_send_spec:
  assumes "holding h M s" "is_object s q (Queue qb)" "0 < h q + count M q"
    and "\<And>g. gr = Some g \<Longrightarrow> 0 < h g + count M g \<and> (\<exists>b. is_object s g (Group b))"
  shows "\<exists>args t. csi_dsp_cmd_send q cmd p resp n gr e s = Some (if sent e then 0 else - 1, args, t) \<and> holding h M t \<and> kept {} s t \<and>
    (sent e \<longrightarrow> (\<exists>a. args = Some a \<and> iq_in_data a = le_bytes (cmd_code cmd) @ p \<and> iq_out_data a = resp \<and>
       iq_out_data_size a = n \<and> iq_nsid a = hq_nsid qb \<and> (gr = None \<longrightarrow> iq_buffers a = []) \<and>
       (\<forall>g b. gr = Some g \<longrightarrow> is_object s g (Group b) \<longrightarrow> iq_buffers a = member_views s (hg_records b))))"
proof (cases "ce_malloc e")
  case False
  then show ?thesis using assms(1) by (simp add: csi_dsp_cmd_send_def sent_def)
next
  case True
  obtain st args t where r: "xrp_run_command_sync q (le_bytes (cmd_code cmd) @ p) resp n gr (ce_rq_malloc e) (ce_event_calloc e)
      (ce_rets e) s = Some (st, args, t)" "holding h M t" "kept {} s t"
    and v: "if ce_rq_malloc e \<and> ce_event_calloc e
     then st = (if ce_rets e 0 then XRP_STATUS_SUCCESS else XRP_STATUS_FAILURE) \<and>
       (\<exists>a. args = Some a \<and> iq_in_data a = le_bytes (cmd_code cmd) @ p \<and> iq_out_data a = resp \<and> iq_out_data_size a = n \<and>
         iq_nsid a = hq_nsid qb \<and> (gr = None \<longrightarrow> iq_buffers a = []) \<and>
         (\<forall>g b. gr = Some g \<longrightarrow> is_object s g (Group b) \<longrightarrow> iq_buffers a = member_views s (hg_records b)))
     else st = XRP_STATUS_FAILURE \<and> args = None"
    using run_sync_spec [OF assms, where inp = "le_bytes (cmd_code cmd) @ p" and out = resp and n = n and
        ?ok1.0 = "ce_rq_malloc e" and ?ok2.0 = "ce_event_calloc e" and rets = "ce_rets e"] by blast
  have "csi_dsp_cmd_send q cmd p resp n gr e s = Some (if st \<noteq> XRP_STATUS_SUCCESS then - 1 else 0, args, t)"
    using True r(1) by (simp add: csi_dsp_cmd_send_def)
  moreover have "(if st \<noteq> XRP_STATUS_SUCCESS then - 1 else 0) = (if sent e then 0 else - 1 :: int)"
    using v True by (auto simp: sent_def split: if_splits)
  ultimately show ?thesis using r(2,3) v by (auto simp: sent_def)
qed

section \<open>Handing over an algorithm\<close>

text \<open>
  The structures the functions work on: \<open>struct csi_dsp_algo_config_par\<close>, and of the handler of a
  task what they read; \<open>None\<close> are null pointers.
\<close>

record algo_config =
  ac_algo_id :: u16
  ac_task_id :: u32
  ac_algo_ptr :: u64
  ac_sett_ptr :: u64
  ac_sett_length :: u32
  ac_bufs_ptr :: u64
  ac_buf_num :: u32
  ac_algo_size :: u32

record dsp_instance =
  di_device :: nat
  di_comm_queue :: "nat option"

record algo_task =
  at_task_id :: u32
  at_instance :: "dsp_instance option"
  at_algo :: algo_config

text \<open>The outcome of creating a buffer and of adding it to a group.\<close>

record buffer_env =
  be_calloc :: bool
  be_ioctl :: "(u64 \<times> u64) option"
  be_realloc :: bool

abbreviation (input) XRP_READ :: u32 where "XRP_READ \<equiv> 1"
abbreviation (input) XRP_WRITE :: u32 where "XRP_WRITE \<equiv> 2"

definition SIZEOF_DSP_BUFFER :: u64 where
  "SIZEOF_DSP_BUFFER = 120"

type_synonym staged = "(nat \<times> u64 \<times> u64) option"

text \<open>
  One of the three blocks of \<open>csi_dsp_task_config_algo\<close> that create a buffer, add it to the group and
  ask for its addresses; \<open>False\<close> is the jump to the error label. The status of adding is not tested.
\<close>

definition stage_buffer :: "bool \<Rightarrow> nat \<Rightarrow> nat \<Rightarrow> u64 \<Rightarrow> buffer_env \<Rightarrow> host_state \<Rightarrow> (bool \<times> staged \<times> host_state) option" where
  "stage_buffer want dev g sz e s =
     (if \<not> want then Some (True, None, s)
      else
        do { ((b, st), s1) \<leftarrow> xrp_create_buffer (Some dev) sz 0 (be_calloc e) (be_ioctl e) s;
             if st \<noteq> XRP_STATUS_SUCCESS then Some (False, None, s1)
             else
               do { i \<leftarrow> b;
                    (_, s2) \<leftarrow> xrp_add_buffer_to_group g i XRP_READ (be_realloc e) s1;
                    phy \<leftarrow> xrp_buffer_get_info i XRP_BUFFER_PHY_ADDR 8 s2;
                    ptr \<leftarrow> xrp_buffer_get_info i XRP_BUFFER_USER_ADDR 8 s2;
                    (case (phy, ptr) of (Some ph, Some pt) \<Rightarrow> Some (True, Some (i, ph, pt), s2) | _ \<Rightarrow> None) } })"

definition release_staged :: "staged \<Rightarrow> host_state \<Rightarrow> host_state option" where
  "release_staged r s = (case r of None \<Rightarrow> Some s | Some (i, _) \<Rightarrow> xrp_release_buffer i s)"

definition staged_phy :: "staged \<Rightarrow> u64" where
  "staged_phy r = (case r of None \<Rightarrow> 0 | Some (i, phy, ptr) \<Rightarrow> phy)"

definition staged_write :: "staged \<Rightarrow> u8 list \<Rightarrow> (u64 \<times> u8 list) list" where
  "staged_write r bytes = (case r of None \<Rightarrow> [] | Some (i, phy, ptr) \<Rightarrow> [(ptr, bytes)])"

record algo_env =
  ae_group :: bool
  ae_sett :: buffer_env
  ae_bufs :: buffer_env
  ae_algo :: buffer_env
  ae_send :: command_env
  ae_resp_at :: u64
  ae_resp :: int

record algo_result =
  ar_ret :: int
  ar_algo :: "algo_config option"
  ar_writes :: "(u64 \<times> u8 list) list"
  ar_sent :: "queue_ioctl option"

definition algo_failed :: "(u64 \<times> u8 list) list \<Rightarrow> queue_ioctl option \<Rightarrow> algo_result" where
  "algo_failed w a = \<lparr>ar_ret = - 1, ar_algo = None, ar_writes = w, ar_sent = a\<rparr>"

text \<open>The labels \<open>Err3\<close>, \<open>Err2\<close> and \<open>Err1\<close>: none releases \<open>algo_set_buffer\<close>.\<close>

definition algo_err3 :: "nat \<Rightarrow> algo_result \<Rightarrow> host_state \<Rightarrow> (algo_result \<times> host_state) option" where
  "algo_err3 g r s = do { t \<leftarrow> xrp_release_buffer_group g s; Some (r, t) }"

definition algo_err2 :: "nat \<Rightarrow> staged \<Rightarrow> algo_result \<Rightarrow> host_state \<Rightarrow> (algo_result \<times> host_state) option" where
  "algo_err2 g buffer r s = do { t \<leftarrow> release_staged buffer s; algo_err3 g r t }"

definition algo_err1 :: "nat \<Rightarrow> staged \<Rightarrow> staged \<Rightarrow> algo_result \<Rightarrow> host_state \<Rightarrow> (algo_result \<times> host_state) option" where
  "algo_err1 g buffer algo_buffer r s = do { t \<leftarrow> release_staged algo_buffer s; algo_err2 g buffer r t }"

text \<open>Which of the three buffers are asked for.\<close>

definition wants_sett :: "algo_config \<Rightarrow> bool" where
  "wants_sett cp \<longleftrightarrow> ac_sett_ptr cp \<noteq> 0 \<and> ac_sett_length cp \<noteq> 0"

definition wants_bufs :: "algo_config \<Rightarrow> bool" where
  "wants_bufs cp \<longleftrightarrow> ac_bufs_ptr cp \<noteq> 0 \<and> ac_buf_num cp \<noteq> 0"

definition wants_algo :: "algo_config \<Rightarrow> bool" where
  "wants_algo cp \<longleftrightarrow> ac_algo_ptr cp \<noteq> 0 \<and> ac_algo_size cp \<noteq> 0"

text \<open>
  \<open>ar_algo\<close> is what is stored in the handler of the task, \<open>ar_writes\<close> what is copied into the buffers,
  \<open>ar_sent\<close> what the driver is given with the command.
\<close>

definition csi_dsp_task_config_algo ::
  "(algo_config \<Rightarrow> u8 list) \<Rightarrow> (u64 \<Rightarrow> nat \<Rightarrow> u8 list) \<Rightarrow> algo_task option \<Rightarrow> algo_config \<Rightarrow> algo_env \<Rightarrow> host_state \<Rightarrow>
    (algo_result \<times> host_state) option" where
  "csi_dsp_task_config_algo layout mem task cp e s =
     (case task of None \<Rightarrow> Some (algo_failed [] None, s) | Some tk \<Rightarrow>
      (case at_instance tk of None \<Rightarrow> Some (algo_failed [] None, s) | Some inst \<Rightarrow>
       (case di_comm_queue inst of None \<Rightarrow> Some (algo_failed [] None, s) | Some q \<Rightarrow>
        (case xrp_create_buffer_group (ae_group e) s of
          ((None, st), s1) \<Rightarrow> Some (algo_failed [] None, s1)
        | ((Some g, st), s1) \<Rightarrow>
          if st \<noteq> XRP_STATUS_SUCCESS then Some (algo_failed [] None, s1)
          else
            do { (ok1, buffer, s2) \<leftarrow> stage_buffer (wants_sett cp) (di_device inst) g
                   (ucast (ac_sett_length cp)) (ae_sett e) s1;
                 if \<not> ok1 then algo_err3 g (algo_failed [] None) s2
                 else
                   do { let w1 = staged_write buffer (mem (ac_sett_ptr cp) (unat (ac_sett_length cp)));
                        (ok2, algo_set_buffer, s3) \<leftarrow> stage_buffer (wants_bufs cp) (di_device inst) g
                          (ucast (ac_buf_num cp) * SIZEOF_DSP_BUFFER) (ae_bufs e) s2;
                        if \<not> ok2 then algo_err3 g (algo_failed w1 None) s3
                        else
                          do { let w2 = w1 @ staged_write algo_set_buffer
                                 (mem (ac_bufs_ptr cp) (unat (ucast (ac_buf_num cp) * SIZEOF_DSP_BUFFER)));
                               (ok3, algo_buffer, s4) \<leftarrow> stage_buffer (wants_algo cp)
                                 (di_device inst) g (ucast (ac_algo_size cp)) (ae_algo e) s3;
                               if \<not> ok3 then algo_err2 g buffer (algo_failed w2 None) s4
                               else
                                 do { let w3 = w2 @ staged_write algo_buffer (mem (ac_algo_ptr cp) (unat (ac_algo_size cp)));
                                      let config = cp\<lparr>ac_task_id := at_task_id tk, ac_algo_ptr := staged_phy algo_buffer,
                                        ac_sett_ptr := staged_phy buffer, ac_bufs_ptr := staged_phy algo_set_buffer\<rparr>;
                                      (r, args, s5) \<leftarrow> csi_dsp_cmd_send q PS_CMD_ALGO_CONFIG (layout config) (ae_resp_at e) 4
                                        (Some g) (ae_send e) s4;
                                      if r \<noteq> 0 \<or> ae_resp e \<noteq> 0 then algo_err1 g buffer algo_buffer (algo_failed w3 args) s5
                                      else
                                        do { s6 \<leftarrow> release_staged buffer s5;
                                             s7 \<leftarrow> release_staged algo_set_buffer s6;
                                             s8 \<leftarrow> release_staged algo_buffer s7;
                                             s9 \<leftarrow> xrp_release_buffer_group g s8;
                                             Some (\<lparr>ar_ret = 0, ar_algo = Some config, ar_writes = w3, ar_sent = args\<rparr>, s9) } } } } }))))"

text \<open>\<open>csi_dsp_task_load_algo\<close>: an algorithm that is already in memory. The request is \<open>csi_dsp_algo_load_req\<close>.\<close>

record algo_load_req =
  lr_algo_id :: u16
  lr_task_id :: u32
  lr_algo_ptr :: u64

definition load_stored :: "algo_load_req \<Rightarrow> algo_config \<Rightarrow> algo_config" where
  "load_stored rq a = a\<lparr>ac_algo_id := lr_algo_id rq, ac_algo_ptr := lr_algo_ptr rq\<rparr>"

definition csi_dsp_task_load_algo ::
  "(algo_load_req \<Rightarrow> u8 list) \<Rightarrow> algo_task option \<Rightarrow> algo_load_req \<Rightarrow> command_env \<Rightarrow> u64 \<Rightarrow> int \<Rightarrow> host_state \<Rightarrow>
    ((int \<times> algo_task option) \<times> host_state) option" where
  "csi_dsp_task_load_algo layout task rq e resp_at resp s =
     (case task of None \<Rightarrow> Some ((- 1, task), s) | Some tk \<Rightarrow>
      (case at_instance tk of None \<Rightarrow> Some ((- 1, task), s) | Some inst \<Rightarrow>
       (case di_comm_queue inst of None \<Rightarrow> Some ((- 1, task), s) | Some q \<Rightarrow>
          let rq' = rq\<lparr>lr_task_id := at_task_id tk\<rparr> in
          do { (r, args, t) \<leftarrow> csi_dsp_cmd_send q PS_CMD_ALGO_LOAD (layout rq') resp_at 12 None e s;
               if r \<noteq> 0 \<or> resp \<noteq> 0 then Some ((- 1, task), t)
               else Some ((0, Some (tk\<lparr>at_algo := load_stored rq' (at_algo tk)\<rparr>)), t) })))"

text \<open>
  \<open>csi_dsp_task_acquire_algo\<close>: an algorithm from a file of \<open>/lib/firmware\<close>, of which \<open>read\<close> bytes can be
  read. \<open>aq_open\<close> tells whether the file is left open.
\<close>

record acquire_env =
  ae_q_group :: bool
  ae_q_buffer :: buffer_env
  ae_q_read :: nat
  ae_q_send :: command_env
  ae_q_resp_at :: u64
  ae_q_resp :: int

record acquire_result =
  aq_ret :: int
  aq_task :: "algo_task option"
  aq_open :: bool
  aq_writes :: "(u64 \<times> u8 list) list"
  aq_sent :: "queue_ioctl option"

definition algo_file :: "string \<Rightarrow> string" where
  "algo_file name = ''/lib/firmware/'' @ name @ ''.lib''"

definition acquire_failed :: "algo_task \<Rightarrow> bool \<Rightarrow> (u64 \<times> u8 list) list \<Rightarrow> queue_ioctl option \<Rightarrow> acquire_result" where
  "acquire_failed tk opened w a = \<lparr>aq_ret = - 1, aq_task = Some tk, aq_open = opened, aq_writes = w, aq_sent = a\<rparr>"

definition csi_dsp_task_acquire_algo ::
  "(algo_load_req \<Rightarrow> u8 list) \<Rightarrow> (string \<Rightarrow> u8 list option) \<Rightarrow> algo_task option \<Rightarrow> string option \<Rightarrow> acquire_env \<Rightarrow>
    host_state \<Rightarrow> (acquire_result \<times> host_state) option" where
  "csi_dsp_task_acquire_algo layout fopen task name e s =
     (case (task, name) of
        (Some tk, Some nm) \<Rightarrow>
          if 100 < length nm then Some (acquire_failed tk False [] None, s)
          else
          (case fopen (algo_file nm) of
             None \<Rightarrow> Some (acquire_failed tk False [] None, s)
           | Some bytes \<Rightarrow>
             let sz = (of_nat (length bytes) :: u32) in
             if sz = 0 then Some (acquire_failed tk True [] None, s)
             else
             (case xrp_create_buffer_group (ae_q_group e) s of
                ((None, st), s1) \<Rightarrow> Some (acquire_failed tk True [] None, s1)
              | ((Some g, st), s1) \<Rightarrow>
                if st \<noteq> XRP_STATUS_SUCCESS then Some (acquire_failed tk True [] None, s1)
                else
                  do { inst \<leftarrow> at_instance tk;
                       (ok, buffer, s2) \<leftarrow> stage_buffer True (di_device inst) g (scast sz) (ae_q_buffer e) s1;
                       if \<not> ok then Some (acquire_failed tk True [] None, s2)
                       else
                         do { (i, buf_phy, buf_ptr) \<leftarrow> buffer;
                              let got = take (unat (scast sz :: u64)) (take (ae_q_read e) bytes);
                              if (of_nat (length got) :: u32) \<noteq> sz then Some (acquire_failed tk True [(buf_ptr, got)] None, s2)
                              else
                                do { q \<leftarrow> di_comm_queue inst;
                                     let rq = \<lparr>lr_algo_id = - 1, lr_task_id = at_task_id tk, lr_algo_ptr = buf_phy\<rparr>;
                                     (r, args, s3) \<leftarrow> csi_dsp_cmd_send q PS_CMD_ALGO_LOAD (layout rq) (ae_q_resp_at e) 12
                                       (Some g) (ae_q_send e) s2;
                                     if r \<noteq> 0 \<or> ae_q_resp e \<noteq> 0 then Some (acquire_failed tk False [(buf_ptr, got)] args, s3)
                                     else
                                       do { s4 \<leftarrow> xrp_release_buffer i s3;
                                            s5 \<leftarrow> xrp_release_buffer_group g s4;
                                            Some (\<lparr>aq_ret = 0, aq_task = Some (tk\<lparr>at_algo := load_stored rq (at_algo tk)\<rparr>),
                                              aq_open = False, aq_writes = [(buf_ptr, got)], aq_sent = args\<rparr>, s5) } } } }))
      | _ \<Rightarrow> Some (\<lparr>aq_ret = - 1, aq_task = task, aq_open = False, aq_writes = [], aq_sent = None\<rparr>, s))"

section \<open>References of the staging\<close>

definition can :: "buffer_env \<Rightarrow> bool" where
  "can e \<longleftrightarrow> be_calloc e \<and> be_ioctl e \<noteq> None"

definition area :: "buffer_env \<Rightarrow> u64 \<times> u64" where
  "area e = the (be_ioctl e)"

definition device_buffer :: "nat \<Rightarrow> u64 \<Rightarrow> buffer_env \<Rightarrow> body" where
  "device_buffer dev sz e = Buffer \<lparr>hb_on_device = True, hb_device = Some dev, hb_ptr = fst (area e), hb_phy_addr = snd (area e),
     hb_size = sz, hb_map_count = 0, hb_map_flags = 0\<rparr>"

definition staged_as :: "bool \<Rightarrow> buffer_env \<Rightarrow> nat \<Rightarrow> staged" where
  "staged_as want e i = (if want \<and> can e then Some (i, snd (area e), fst (area e)) else None)"

definition staged_id :: "staged \<Rightarrow> nat multiset" where
  "staged_id r = (case r of None \<Rightarrow> {#} | Some (i, _) \<Rightarrow> {#i#})"

definition staged_ids :: "staged \<Rightarrow> nat list" where
  "staged_ids r = (case r of None \<Rightarrow> [] | Some (i, _) \<Rightarrow> [i])"

lemma staged_simps [simp]:
  "staged_id None = {#}" "staged_id (Some (i, x)) = {#i#}" "staged_ids None = []" "staged_ids (Some (i, x)) = [i]"
  "staged_phy None = 0" "staged_phy (Some (i, phy, ptr)) = phy" "staged_write None bs = []"
  "staged_write (Some (i, phy, ptr)) bs = [(ptr, bs)]"
  by (simp_all add: staged_id_def staged_ids_def staged_phy_def staged_write_def)

text \<open>A program that holds its device, a group and what was staged.\<close>

lemma stage_spec:
  assumes "holding h M s" "is_object s dev (Device fd)" "0 < h dev" "is_object s g (Group gr)" "0 < count M g"
  shows "\<exists>t gr'. stage_buffer want dev g sz e s = Some (want \<longrightarrow> can e, staged_as want e (hs_next s), t) \<and>
    holding h (staged_id (staged_as want e (hs_next s)) + M) t \<and> kept {g} s t \<and> is_object t g (Group gr') \<and>
    (want \<and> can e \<longrightarrow> is_object t (hs_next s) (device_buffer dev sz e) \<and> hs_heap s (hs_next s) = None) \<and>
    (want \<and> can e \<and> be_realloc e \<longrightarrow> hg_records gr' = hg_records gr @ [(hs_next s, XRP_READ)]) \<and>
    (\<not> (want \<and> can e) \<longrightarrow> hg_records gr' = hg_records gr)"
proof (cases want)
  case False
  then show ?thesis using assms by (auto simp: stage_buffer_def staged_as_def intro: exI [of _ gr])
next
  case True
  have pd: "0 < h dev + count M dev" using assms(3) by simp
  have pg: "0 < h g + count M g" using assms(5) by simp
  obtain r t where rt: "xrp_create_buffer (Some dev) sz 0 (be_calloc e) (be_ioctl e) s = Some (r, t)" "kept {} s t"
    "case be_ioctl e of
       Some (p, phy) \<Rightarrow> if be_calloc e then r = (Some (hs_next s), XRP_STATUS_SUCCESS) \<and> holding h (add_mset (hs_next s) M) t \<and>
          is_object t (hs_next s) (Buffer \<lparr>hb_on_device = True, hb_device = Some dev, hb_ptr = p, hb_phy_addr = phy, hb_size = sz,
             hb_map_count = 0, hb_map_flags = 0\<rparr>) \<and> hs_heap s (hs_next s) = None
        else r = (None, XRP_STATUS_FAILURE) \<and> holding h M t
     | None \<Rightarrow> r = (None, XRP_STATUS_FAILURE) \<and> holding h M t"
    using create_buffer_spec [OF assms(1,2) pd] by blast
  show ?thesis
  proof (cases "can e")
    case False
    then have r: "r = (None, XRP_STATUS_FAILURE)" "holding h M t" using rt(3) by (auto simp: can_def split: option.splits)
    have "is_object t g (Group gr)" by (rule still [OF assms(4,1) rt(2) _ r(2) pg]) simp
    then show ?thesis
      using True False r rt(1,2) kept_mono [OF rt(2)] by (auto simp: stage_buffer_def staged_as_def intro: exI [of _ gr])
  next
    case can: True
    let ?i = "hs_next s" and ?b = "device_buffer dev sz e"
    obtain p phy where io: "be_ioctl e = Some (p, phy)" "be_calloc e" using can by (auto simp: can_def)
    have r: "r = (Some ?i, XRP_STATUS_SUCCESS)" "holding h (add_mset ?i M) t" "is_object t ?i ?b" "hs_heap s ?i = None"
      using rt(3) io by (simp_all add: device_buffer_def area_def)
    obtain bf where bf: "?b = Buffer bf" "hb_phy_addr bf = snd (area e)" "hb_ptr bf = fst (area e)"
      by (simp add: device_buffer_def)
    have pg1: "0 < h g + count (add_mset ?i M) g" and pi: "0 < h ?i + count (add_mset ?i M) ?i" using pg by auto
    have ne: "g \<noteq> ?i" using r(4) assms(4) by (auto simp: is_object_def)
    have g1: "is_object t g (Group gr)" by (rule still [OF assms(4,1) rt(2) _ r(2) pg1]) simp
    obtain x u where u: "xrp_add_buffer_to_group g ?i XRP_READ (be_realloc e) t = Some (x, u)" "holding h (add_mset ?i M) u"
      "x = (Some (length (hg_records gr)), XRP_STATUS_SUCCESS) \<and> kept {g} t u \<and>
          is_object u g (Group (gr\<lparr>hg_records := hg_records gr @ [(?i, XRP_READ)]\<rparr>)) \<or>
       \<not> be_realloc e \<and> x = (None, XRP_STATUS_FAILURE) \<and> u = t"
      using add_buffer_spec [OF r(2) g1 pg1 r(3) [unfolded bf(1)] pi] by blast
    have ku: "kept {g} t u" using u(3) by auto
    have iu: "is_object u ?i ?b" by (rule still [OF r(3,2) ku _ u(2) pi]) (use ne in simp)
    have info: "xrp_buffer_get_info ?i XRP_BUFFER_PHY_ADDR 8 u = Some (Some (snd (area e)))"
      "xrp_buffer_get_info ?i XRP_BUFFER_USER_ADDR 8 u = Some (Some (fst (area e)))"
      using get_info_spec [OF iu [unfolded bf(1)]] bf(2,3) by simp_all
    obtain gr' where gr': "is_object u g (Group gr')" "be_realloc e \<longrightarrow> hg_records gr' = hg_records gr @ [(?i, XRP_READ)]"
      using u(3) g1 by auto
    have "stage_buffer want dev g sz e s = Some (True, Some (?i, snd (area e), fst (area e)), u)"
      using True rt(1) r(1) u(1) info by (simp add: stage_buffer_def)
    then show ?thesis
      using True can u(2) iu gr' kept_then [OF rt(2) ku] r(4) by (intro exI [of _ u] exI [of _ gr']) (simp add: staged_as_def)
  qed
qed

definition staged_at :: "host_state \<Rightarrow> staged \<Rightarrow> body \<Rightarrow> bool" where
  "staged_at s r b \<longleftrightarrow> (\<forall>i x. r = Some (i, x) \<longrightarrow> is_object s i b)"

lemma staged_still:
  assumes "staged_at s r b" "holding h M s" "kept X s t" "holding h' M' t" "staged_id r \<subseteq># M'" "\<And>i x. r = Some (i, x) \<Longrightarrow> i \<notin> X"
  shows "staged_at t r b"
proof -
  have "is_object t i b" if r: "r = Some (i, x)" for i x
  proof -
    have "0 < h' i + count M' i" using assms(5) r by simp
    then show ?thesis using still [OF _ assms(2,3) assms(6) [OF r] assms(4)] assms(1) r by (simp add: staged_at_def)
  qed
  then show ?thesis by (simp add: staged_at_def)
qed

lemma release_staged_spec:
  assumes "holding h (staged_id r + M) s" "staged_at s r (Buffer bf)"
  shows "\<exists>t. release_staged r s = Some t \<and> holding h M t \<and> kept {} s t"
proof (cases r)
  case None
  then show ?thesis using assms(1) by (simp add: release_staged_def)
next
  case (Some y)
  obtain i x where "y = (i, x)" by (cases y)
  then show ?thesis using release_buffer_spec [of h i M s] assms Some by (simp add: release_staged_def staged_at_def)
qed

lemma err3_spec:
  assumes "holding h (add_mset g M) s" "is_object s g (Group gr)"
  shows "\<exists>t. algo_err3 g r s = Some (r, t) \<and> holding h M t \<and> kept {} s t"
  using release_group_spec [OF assms] by (auto simp: algo_err3_def)

lemma err2_spec:
  assumes "holding h (staged_id b + add_mset g M) s" "staged_at s b (Buffer bf)" "is_object s g (Group gr)"
  shows "\<exists>t. algo_err2 g b r s = Some (r, t) \<and> holding h M t \<and> kept {} s t"
proof -
  obtain t where t: "release_staged b s = Some t" "holding h (add_mset g M) t" "kept {} s t"
    using release_staged_spec [OF assms(1,2)] by blast
  have "is_object t g (Group gr)" by (rule still [OF assms(3,1) t(3) _ t(2)]) simp_all
  then show ?thesis using err3_spec [OF t(2), of gr r] t kept_trans0 by (auto simp: algo_err2_def)
qed

lemma err1_spec:
  assumes "holding h (staged_id a + (staged_id b + add_mset g M)) s" "staged_at s a (Buffer af)" "staged_at s b (Buffer bf)"
    "is_object s g (Group gr)"
  shows "\<exists>t. algo_err1 g b a r s = Some (r, t) \<and> holding h M t \<and> kept {} s t"
proof -
  obtain t where t: "release_staged a s = Some t" "holding h (staged_id b + add_mset g M) t" "kept {} s t"
    using release_staged_spec [OF assms(1,2)] by blast
  have g: "is_object t g (Group gr)" by (rule still [OF assms(4,1) t(3) _ t(2)]) simp_all
  have b: "staged_at t b (Buffer bf)" by (rule staged_still [OF assms(3,1) t(3) t(2)]) simp_all
  show ?thesis using err2_spec [OF t(2) b g, of r] t kept_trans0 by (auto simp: algo_err1_def)
qed

definition instance_ok :: "(nat \<Rightarrow> nat) \<Rightarrow> host_state \<Rightarrow> dsp_instance \<Rightarrow> bool" where
  "instance_ok h s inst \<longleftrightarrow> 0 < h (di_device inst) \<and> (\<exists>fd. is_object s (di_device inst) (Device fd)) \<and>
     (\<forall>q. di_comm_queue inst = Some q \<longrightarrow> 0 < h q \<and> (\<exists>qb. is_object s q (Queue qb)))"

lemma instance_still:
  assumes "instance_ok h s inst" "holding h M s" "kept X s t" "holding h M' t"
    "\<And>i. i \<in> X \<Longrightarrow> \<exists>gr. is_object s i (Group gr)"
  shows "instance_ok h t inst"
proof -
  have s: "is_object t i b" if "is_object s i b" "0 < h i" "\<And>gr. b \<noteq> Group gr" for i b
  proof (rule still [OF that(1) assms(2,3) _ assms(4)])
    show "i \<notin> X"
    proof
      assume "i \<in> X"
      then obtain gr where "is_object s i (Group gr)" using assms(5) by blast
      then show False using that(1,3) by (cases b) (auto simp: is_object_def same_object_cases)
    qed
  qed (use that(2) in simp)
  show ?thesis using assms(1) s unfolding instance_ok_def by blast
qed

text \<open>How many references of buffers the program never gets rid of.\<close>

definition config_algo_leak :: "algo_config \<Rightarrow> algo_env \<Rightarrow> nat" where
  "config_algo_leak cp e =
     (if \<not> ae_group e \<or> wants_sett cp \<and> \<not> can (ae_sett e) then 0
      else if wants_bufs cp \<and> \<not> can (ae_bufs e) then (if wants_sett cp then 1 else 0)
      else if wants_algo cp \<and> \<not> can (ae_algo e) \<or> \<not> sent (ae_send e) \<or> ae_resp e \<noteq> 0 then (if wants_bufs cp then 1 else 0)
      else 0)"

definition config_algo_fine :: "algo_config \<Rightarrow> algo_env \<Rightarrow> bool" where
  "config_algo_fine cp e \<longleftrightarrow> ae_group e \<and> (wants_sett cp \<longrightarrow> can (ae_sett e)) \<and> (wants_bufs cp \<longrightarrow> can (ae_bufs e)) \<and>
     (wants_algo cp \<longrightarrow> can (ae_algo e)) \<and> sent (ae_send e) \<and> ae_resp e = 0"

definition config_sent :: "algo_task \<Rightarrow> algo_config \<Rightarrow> algo_env \<Rightarrow> algo_config" where
  "config_sent tk cp e = cp\<lparr>ac_task_id := at_task_id tk,
     ac_algo_ptr := (if wants_algo cp then snd (area (ae_algo e)) else 0),
     ac_sett_ptr := (if wants_sett cp then snd (area (ae_sett e)) else 0),
     ac_bufs_ptr := (if wants_bufs cp then snd (area (ae_bufs e)) else 0)\<rparr>"

definition buffers_sent :: "algo_config \<Rightarrow> algo_env \<Rightarrow> (u32 \<times> u64 \<times> u64) list" where
  "buffers_sent cp e =
     (if wants_sett cp then [(XRP_READ, ucast (ac_sett_length cp), fst (area (ae_sett e)))] else []) @
     (if wants_bufs cp then [(XRP_READ, ucast (ac_buf_num cp) * SIZEOF_DSP_BUFFER, fst (area (ae_bufs e)))] else []) @
     (if wants_algo cp then [(XRP_READ, ucast (ac_algo_size cp), fst (area (ae_algo e)))] else [])"

definition writes_done :: "(u64 \<Rightarrow> nat \<Rightarrow> u8 list) \<Rightarrow> algo_config \<Rightarrow> algo_env \<Rightarrow> (u64 \<times> u8 list) list" where
  "writes_done mem cp e =
     (if wants_sett cp then [(fst (area (ae_sett e)), mem (ac_sett_ptr cp) (unat (ac_sett_length cp)))] else []) @
     (if wants_bufs cp then [(fst (area (ae_bufs e)), mem (ac_bufs_ptr cp) (unat (ucast (ac_buf_num cp) * SIZEOF_DSP_BUFFER)))] else []) @
     (if wants_algo cp then [(fst (area (ae_algo e)), mem (ac_algo_ptr cp) (unat (ac_algo_size cp)))] else [])"

definition all_added :: "algo_env \<Rightarrow> bool" where
  "all_added e \<longleftrightarrow> be_realloc (ae_sett e) \<and> be_realloc (ae_bufs e) \<and> be_realloc (ae_algo e)"

lemma staged_view:
  "staged_at s (staged_as want e i) (device_buffer dev sz e) \<Longrightarrow> want \<longrightarrow> can e \<Longrightarrow>
    member_views s (map (\<lambda>i. (i, XRP_READ)) (staged_ids (staged_as want e i))) =
      (if want then [(XRP_READ, sz, fst (area e))] else [])"
  by (auto simp: staged_at_def staged_as_def is_object_def same_object_cases device_buffer_def member_views_def)

lemma member_views_append: "member_views s (xs @ ys) = member_views s xs @ member_views s ys"
  by (simp add: member_views_def)

lemma device_buffer_buffer: "\<exists>bf. device_buffer dev sz e = Buffer bf"
  by (simp add: device_buffer_def)

lemma staged_not_group:
  "staged_at s r (device_buffer dev sz e) \<Longrightarrow> is_object s g (Group gr) \<Longrightarrow> r = Some (i, x) \<Longrightarrow> i \<notin> {g}"
  by (auto simp: staged_at_def is_object_def same_object_cases device_buffer_def)

text \<open>One block, with the buffers of the blocks before it.\<close>

lemma stage_step:
  assumes "holding h M s" "instance_ok h s inst" "is_object s g (Group gr)" "0 < count M g"
  obtains t gr' where
    "stage_buffer want (di_device inst) g sz e s = Some (want \<longrightarrow> can e, staged_as want e (hs_next s), t)"
    "holding h (staged_id (staged_as want e (hs_next s)) + M) t" "kept {g} s t" "is_object t g (Group gr')"
    "instance_ok h t inst"
    "staged_at t (staged_as want e (hs_next s)) (device_buffer (di_device inst) sz e)"
    "be_realloc e \<Longrightarrow> want \<longrightarrow> can e \<Longrightarrow>
      hg_records gr' = hg_records gr @ map (\<lambda>i. (i, XRP_READ)) (staged_ids (staged_as want e (hs_next s)))"
    "\<And>r b e'. staged_at s r (device_buffer (di_device inst) b e') \<Longrightarrow> staged_id r \<subseteq># M \<Longrightarrow>
      staged_at t r (device_buffer (di_device inst) b e')"
proof -
  obtain fd where dev: "is_object s (di_device inst) (Device fd)" "0 < h (di_device inst)"
    using assms(2) by (auto simp: instance_ok_def)
  obtain t gr' where t: "stage_buffer want (di_device inst) g sz e s = Some (want \<longrightarrow> can e, staged_as want e (hs_next s), t)"
    "holding h (staged_id (staged_as want e (hs_next s)) + M) t" "kept {g} s t" "is_object t g (Group gr')"
    "want \<and> can e \<longrightarrow> is_object t (hs_next s) (device_buffer (di_device inst) sz e) \<and> hs_heap s (hs_next s) = None"
    "want \<and> can e \<and> be_realloc e \<longrightarrow> hg_records gr' = hg_records gr @ [(hs_next s, XRP_READ)]"
    "\<not> (want \<and> can e) \<longrightarrow> hg_records gr' = hg_records gr"
    using stage_spec [OF assms(1) dev assms(3,4), of want sz e] by blast
  have i: "instance_ok h t inst"
    by (rule instance_still [OF assms(2,1) t(3,2)]) (use assms(3) in blast)
  have old: "staged_at t r (device_buffer (di_device inst) b e')"
    if "staged_at s r (device_buffer (di_device inst) b e')" "staged_id r \<subseteq># M" for r b e'
    by (rule staged_still [OF that(1) assms(1) t(3,2)])
      (use that(2) staged_not_group [OF that(1) assms(3)] in \<open>auto intro: subset_mset.order_trans\<close>)
  show thesis
    by (rule that [OF t(1-4) i]) (use t(5-7) old in \<open>auto simp: staged_at_def staged_as_def\<close>)
qed

lemma config_algo_run:
  assumes "host_inv h s" "instance_ok h s inst" "at_instance tk = Some inst" "di_comm_queue inst = Some q"
  shows "\<exists>r t M. csi_dsp_task_config_algo layout mem (Some tk) cp e s = Some (r, t) \<and> holding h M t \<and> kept {} s t \<and>
    size M = config_algo_leak cp e \<and> (\<forall>i \<in># M. \<exists>bf. is_object t i (Buffer bf)) \<and>
    (if config_algo_fine cp e then ar_ret r = 0 \<and> ar_algo r = Some (config_sent tk cp e) \<and> ar_writes r = writes_done mem cp e \<and>
       (\<exists>a. ar_sent r = Some a \<and> iq_in_data a = le_bytes (cmd_code PS_CMD_ALGO_CONFIG) @ layout (config_sent tk cp e) \<and>
         (all_added e \<longrightarrow> iq_buffers a = buffers_sent cp e))
     else ar_ret r = - 1 \<and> ar_algo r = None)"
    (is "\<exists>r t M. ?run = Some (r, t) \<and> _")
proof (cases "ae_group e")
  case False
  then have "?run = Some (algo_failed [] None, s)"
    using assms(3,4) by (simp add: csi_dsp_task_config_algo_def xrp_create_buffer_group_def)
  then show ?thesis
    using False assms(1) by (auto simp: holding_empty config_algo_leak_def config_algo_fine_def algo_failed_def intro!: exI [of _ "{#}"])
next
  case group: True
  let ?g = "hs_next s" and ?d = "di_device inst"
  let ?z1 = "ucast (ac_sett_length cp) :: u64" and ?z2 = "ucast (ac_buf_num cp) * SIZEOF_DSP_BUFFER" and ?z3 = "ucast (ac_algo_size cp) :: u64"
  have "holding h {#} s" using assms(1) by (simp add: holding_empty)
  from create_group_spec [OF this, of True] obtain s1 where
    c: "xrp_create_buffer_group True s = ((Some ?g, XRP_STATUS_SUCCESS), s1)" and k1: "kept {} s s1" and
    h1: "holding h {#?g#} s1" and g1: "is_object s1 ?g (Group \<lparr>hg_capacity = 0, hg_records = []\<rparr>)" by auto
  have i1: "instance_ok h s1 inst"
    by (rule instance_still [OF assms(2) \<open>holding h {#} s\<close> k1 h1]) simp
  have one: "0 < count {#?g#} ?g" by simp
  obtain s2 gr2 where S1: "stage_buffer (wants_sett cp) ?d ?g ?z1 (ae_sett e) s1 =
      Some (wants_sett cp \<longrightarrow> can (ae_sett e), staged_as (wants_sett cp) (ae_sett e) (hs_next s1), s2)"
    and h2: "holding h (staged_id (staged_as (wants_sett cp) (ae_sett e) (hs_next s1)) + {#?g#}) s2"
    and k2: "kept {?g} s1 s2" and g2: "is_object s2 ?g (Group gr2)" and i2: "instance_ok h s2 inst"
    and b12: "staged_at s2 (staged_as (wants_sett cp) (ae_sett e) (hs_next s1)) (device_buffer ?d ?z1 (ae_sett e))"
    and rec2: "be_realloc (ae_sett e) \<Longrightarrow> wants_sett cp \<longrightarrow> can (ae_sett e) \<Longrightarrow>
      hg_records gr2 = [] @ map (\<lambda>i. (i, XRP_READ)) (staged_ids (staged_as (wants_sett cp) (ae_sett e) (hs_next s1)))"
    by (rule stage_step [OF h1 i1 g1 one, of "wants_sett cp" ?z1 "ae_sett e"]) simp
  define r1 where "r1 = staged_as (wants_sett cp) (ae_sett e) (hs_next s1)"
  note [folded r1_def] = S1 h2 b12 rec2
  note S1 = this(1) and h2 = this(2) and b12 = this(3) and rec2 = this(4)
  note fins = config_algo_leak_def config_algo_fine_def algo_failed_def group
  note start = csi_dsp_task_config_algo_def assms(3,4) group c S1
  have fin: "kept {} s u" if "kept {?g} s1 v" "kept {} v u" for u v
  proof (rule kept_fresh)
    show "kept {?g} s u" using kept_trans0 [OF kept_then [OF k1 that(1)] that(2)] .
  qed simp
  show ?thesis
  proof (cases "wants_sett cp \<longrightarrow> can (ae_sett e)")
    case False
    then have "r1 = None" by (auto simp: r1_def staged_as_def)
    then have "holding h (add_mset ?g {#}) s2" using h2 by simp
    from err3_spec [OF this g2] obtain t where "algo_err3 ?g (algo_failed [] None) s2 = Some (algo_failed [] None, t)"
      "holding h {#} t" "kept {} s2 t" by blast
    moreover have "?run = algo_err3 ?g (algo_failed [] None) s2" by (simp add: start False)
    ultimately show ?thesis
      using False fin [OF k2] by (intro exI [of _ "algo_failed [] None"] exI [of _ t] exI [of _ "{#}"]) (simp add: fins)
  next
    case ok1: True
    let ?w1 = "staged_write r1 (mem (ac_sett_ptr cp) (unat (ac_sett_length cp)))"
    have gc2: "0 < count (staged_id r1 + {#?g#}) ?g" by simp
    obtain s3 gr3 where S2: "stage_buffer (wants_bufs cp) ?d ?g ?z2 (ae_bufs e) s2 =
        Some (wants_bufs cp \<longrightarrow> can (ae_bufs e), staged_as (wants_bufs cp) (ae_bufs e) (hs_next s2), s3)"
      and h3: "holding h (staged_id (staged_as (wants_bufs cp) (ae_bufs e) (hs_next s2)) + (staged_id r1 + {#?g#})) s3"
      and k3: "kept {?g} s2 s3" and g3: "is_object s3 ?g (Group gr3)" and i3: "instance_ok h s3 inst"
      and b23: "staged_at s3 (staged_as (wants_bufs cp) (ae_bufs e) (hs_next s2)) (device_buffer ?d ?z2 (ae_bufs e))"
      and rec3: "be_realloc (ae_bufs e) \<Longrightarrow> wants_bufs cp \<longrightarrow> can (ae_bufs e) \<Longrightarrow>
        hg_records gr3 = hg_records gr2 @ map (\<lambda>i. (i, XRP_READ)) (staged_ids (staged_as (wants_bufs cp) (ae_bufs e) (hs_next s2)))"
      and old3: "\<And>r b e'. staged_at s2 r (device_buffer ?d b e') \<Longrightarrow> staged_id r \<subseteq># staged_id r1 + {#?g#} \<Longrightarrow>
        staged_at s3 r (device_buffer ?d b e')"
      by (rule stage_step [OF h2 i2 g2 gc2, of "wants_bufs cp" ?z2 "ae_bufs e"]) simp
    define r2 where "r2 = staged_as (wants_bufs cp) (ae_bufs e) (hs_next s2)"
    note [folded r2_def] = S2 h3 b23 rec3
    note S2 = this(1) and h3 = this(2) and b23 = this(3) and rec3 = this(4)
    have b13: "staged_at s3 r1 (device_buffer ?d ?z1 (ae_sett e))" using old3 [OF b12] by simp
    have k13: "kept {?g} s1 s3" using kept_trans [OF k2 k3] by simp
    obtain bf1 bf2 bf3 where bf: "device_buffer ?d ?z1 (ae_sett e) = Buffer bf1" "device_buffer ?d ?z2 (ae_bufs e) = Buffer bf2"
      "device_buffer ?d ?z3 (ae_algo e) = Buffer bf3"
      using device_buffer_buffer by metis
    have member: "\<exists>bf. is_object t i (Buffer bf)" if "staged_at t r (Buffer bf)" "i \<in># staged_id r" for t r i bf
      using that by (cases r) (auto simp: staged_at_def staged_id_def)
    show ?thesis
    proof (cases "wants_bufs cp \<longrightarrow> can (ae_bufs e)")
      case False
      then have "r2 = None" by (auto simp: r2_def staged_as_def)
      then have h: "holding h (add_mset ?g (staged_id r1)) s3" using h3 by simp
      obtain t where t: "algo_err3 ?g (algo_failed ?w1 None) s3 = Some (algo_failed ?w1 None, t)"
        "holding h (staged_id r1) t" "kept {} s3 t"
        using err3_spec [OF h g3] by blast
      have run: "?run = algo_err3 ?g (algo_failed ?w1 None) s3" by (simp add: start S2 ok1 False)
      have "staged_at t r1 (Buffer bf1)" by (rule staged_still [OF b13 [unfolded bf] h t(3,2)]) simp_all
      moreover have "size (staged_id r1) = config_algo_leak cp e"
        using False ok1 by (auto simp: fins r1_def staged_as_def)
      ultimately show ?thesis
        using False t run fin [OF k13 t(3)] member
        by (intro exI [of _ "algo_failed ?w1 None"] exI [of _ t] exI [of _ "staged_id r1"]) (auto simp: fins)
    next
      case ok2: True
      let ?w2 = "?w1 @ staged_write r2 (mem (ac_bufs_ptr cp) (unat ?z2))"
      let ?M2 = "staged_id r2 + (staged_id r1 + {#?g#})"
      have gc3: "0 < count ?M2 ?g" by simp
      obtain s4 gr4 where S3: "stage_buffer (wants_algo cp) ?d ?g ?z3 (ae_algo e) s3 =
          Some (wants_algo cp \<longrightarrow> can (ae_algo e), staged_as (wants_algo cp) (ae_algo e) (hs_next s3), s4)"
        and h4: "holding h (staged_id (staged_as (wants_algo cp) (ae_algo e) (hs_next s3)) + ?M2) s4"
        and k4: "kept {?g} s3 s4" and g4: "is_object s4 ?g (Group gr4)" and i4: "instance_ok h s4 inst"
        and b34: "staged_at s4 (staged_as (wants_algo cp) (ae_algo e) (hs_next s3)) (device_buffer ?d ?z3 (ae_algo e))"
        and rec4: "be_realloc (ae_algo e) \<Longrightarrow> wants_algo cp \<longrightarrow> can (ae_algo e) \<Longrightarrow>
          hg_records gr4 = hg_records gr3 @ map (\<lambda>i. (i, XRP_READ)) (staged_ids (staged_as (wants_algo cp) (ae_algo e) (hs_next s3)))"
        and old4: "\<And>r b e'. staged_at s3 r (device_buffer ?d b e') \<Longrightarrow> staged_id r \<subseteq># ?M2 \<Longrightarrow>
          staged_at s4 r (device_buffer ?d b e')"
        by (rule stage_step [OF h3 i3 g3 gc3, of "wants_algo cp" ?z3 "ae_algo e"]) simp
      define r3 where "r3 = staged_as (wants_algo cp) (ae_algo e) (hs_next s3)"
      note [folded r3_def] = S3 h4 b34 rec4
      note S3 = this(1) and h4 = this(2) and b34 = this(3) and rec4 = this(4)
      have b14: "staged_at s4 r1 (device_buffer ?d ?z1 (ae_sett e))" using old4 [OF b13] by simp
      have b24: "staged_at s4 r2 (device_buffer ?d ?z2 (ae_bufs e))" using old4 [OF b23] by simp
      have k14: "kept {?g} s1 s4" using kept_trans [OF k13 k4] by simp
      show ?thesis
      proof (cases "wants_algo cp \<longrightarrow> can (ae_algo e)")
        case False
        then have "r3 = None" by (auto simp: r3_def staged_as_def)
        then have h: "holding h (staged_id r1 + add_mset ?g (staged_id r2)) s4" using h4 by (simp add: union_ac)
        obtain t where t: "algo_err2 ?g r1 (algo_failed ?w2 None) s4 = Some (algo_failed ?w2 None, t)"
          "holding h (staged_id r2) t" "kept {} s4 t"
          using err2_spec [OF h b14 [unfolded bf] g4] by blast
        have run: "?run = algo_err2 ?g r1 (algo_failed ?w2 None) s4" by (simp add: start S2 S3 ok1 ok2 False)
        have "staged_at t r2 (Buffer bf2)" by (rule staged_still [OF b24 [unfolded bf] h t(3,2)]) simp_all
        moreover have "size (staged_id r2) = config_algo_leak cp e"
          using False ok1 ok2 by (auto simp: fins r2_def staged_as_def)
        ultimately show ?thesis
          using False t run fin [OF k14 t(3)] member
          by (intro exI [of _ "algo_failed ?w2 None"] exI [of _ t] exI [of _ "staged_id r2"]) (auto simp: fins)
      next
        case ok3: True
        let ?w3 = "?w2 @ staged_write r3 (mem (ac_algo_ptr cp) (unat (ac_algo_size cp)))"
        let ?M4 = "staged_id r3 + ?M2"
        note oks = ok1 ok2 ok3 and rs = r1_def r2_def r3_def staged_as_def
        have conf: "cp\<lparr>ac_task_id := at_task_id tk, ac_algo_ptr := staged_phy r3, ac_sett_ptr := staged_phy r1,
            ac_bufs_ptr := staged_phy r2\<rparr> = config_sent tk cp e"
          using oks by (simp add: config_sent_def rs)
        have ws: "?w3 = writes_done mem cp e" using oks by (simp add: writes_done_def rs)
        obtain qb where q4: "is_object s4 q (Queue qb)" "0 < h q" using i4 assms(4) by (auto simp: instance_ok_def)
        have pq: "0 < h q + count ?M4 q" using q4(2) by simp
        have grp: "0 < h g + count ?M4 g \<and> (\<exists>b. is_object s4 g (Group b))" if "Some ?g = Some g" for g
          using that g4 by auto
        obtain args s5 where S4: "csi_dsp_cmd_send q PS_CMD_ALGO_CONFIG (layout (config_sent tk cp e)) (ae_resp_at e) 4 (Some ?g)
            (ae_send e) s4 = Some (if sent (ae_send e) then 0 else - 1, args, s5)"
          and h5: "holding h ?M4 s5" and k5: "kept {} s4 s5"
          and v: "sent (ae_send e) \<longrightarrow> (\<exists>a. args = Some a \<and>
             iq_in_data a = le_bytes (cmd_code PS_CMD_ALGO_CONFIG) @ layout (config_sent tk cp e) \<and> iq_out_data a = ae_resp_at e \<and>
             iq_out_data_size a = 4 \<and> iq_nsid a = hq_nsid qb \<and> (Some ?g = None \<longrightarrow> iq_buffers a = []) \<and>
             (\<forall>g b. Some ?g = Some g \<longrightarrow> is_object s4 g (Group b) \<longrightarrow> iq_buffers a = member_views s4 (hg_records b)))"
          using cmd_send_spec [where gr = "Some ?g" and cmd = PS_CMD_ALGO_CONFIG and p = "layout (config_sent tk cp e)" and
              resp = "ae_resp_at e" and n = 4 and e = "ae_send e", OF h4 q4(1) pq grp] by blast
        have g5: "is_object s5 ?g (Group gr4)" by (rule still [OF g4 h4 k5 _ h5]) simp_all
        have b5: "staged_at s5 r1 (Buffer bf1)" "staged_at s5 r2 (Buffer bf2)" "staged_at s5 r3 (Buffer bf3)"
          by (rule staged_still [OF b14 [unfolded bf] h4 k5 h5] staged_still [OF b24 [unfolded bf] h4 k5 h5]
              staged_still [OF b34 [unfolded bf] h4 k5 h5]; simp)+
        have k15: "kept {?g} s1 s5" by (rule kept_trans0 [OF k14 k5])
        show ?thesis
        proof (cases "sent (ae_send e) \<and> ae_resp e = 0")
          case False
          have h: "holding h (staged_id r3 + (staged_id r1 + add_mset ?g (staged_id r2))) s5" using h5 by (simp add: union_ac)
          obtain t where t: "algo_err1 ?g r1 r3 (algo_failed ?w3 args) s5 = Some (algo_failed ?w3 args, t)"
            "holding h (staged_id r2) t" "kept {} s5 t"
            using err1_spec [OF h b5(3,1) g5] by blast
          have "((if sent (ae_send e) then 0 else - 1) \<noteq> (0 :: int) \<or> ae_resp e \<noteq> 0) = True" using False by auto
          then have run: "?run = algo_err1 ?g r1 r3 (algo_failed ?w3 args) s5"
            by (simp add: start S2 S3 oks conf S4 del: append.simps)
          have "staged_at t r2 (Buffer bf2)" by (rule staged_still [OF b5(2) h t(3,2)]) simp_all
          moreover have "size (staged_id r2) = config_algo_leak cp e"
            using False oks by (auto simp: fins rs)
          ultimately show ?thesis
            using False t run fin [OF k15 t(3)] member
            by (intro exI [of _ "algo_failed ?w3 args"] exI [of _ t] exI [of _ "staged_id r2"]) (auto simp: fins)
        next
          case True
          have h: "holding h (staged_id r1 + (staged_id r2 + (staged_id r3 + {#?g#}))) s5" using h5 by (simp add: union_ac)
          obtain s6 where 6: "release_staged r1 s5 = Some s6" "holding h (staged_id r2 + (staged_id r3 + {#?g#})) s6" "kept {} s5 s6"
            using release_staged_spec [OF h b5(1)] by blast
          have b6: "staged_at s6 r2 (Buffer bf2)" "staged_at s6 r3 (Buffer bf3)" "is_object s6 ?g (Group gr4)"
            by (rule staged_still [OF b5(2) h5 6(3,2)] staged_still [OF b5(3) h5 6(3,2)] still [OF g5 h5 6(3) _ 6(2)]; simp)+
          obtain s7 where 7: "release_staged r2 s6 = Some s7" "holding h (staged_id r3 + {#?g#}) s7" "kept {} s6 s7"
            using release_staged_spec [OF 6(2) b6(1)] by blast
          have b7: "staged_at s7 r3 (Buffer bf3)" "is_object s7 ?g (Group gr4)"
            by (rule staged_still [OF b6(2) 6(2) 7(3,2)] still [OF b6(3) 6(2) 7(3) _ 7(2)]; simp)+
          obtain s8 where 8: "release_staged r3 s7 = Some s8" "holding h {#?g#} s8" "kept {} s7 s8"
            using release_staged_spec [OF 7(2) b7(1)] by blast
          have b8: "is_object s8 ?g (Group gr4)" by (rule still [OF b7(2) 7(2) 8(3) _ 8(2)]) simp_all
          obtain s9 where 9: "xrp_release_buffer_group ?g s8 = Some s9" "holding h {#} s9" "kept {} s8 s9"
            using release_group_spec [OF 8(2) b8] by blast
          have k: "kept {} s s9"
            using fin [OF k15 kept_trans0 [OF kept_trans0 [OF kept_trans0 [OF 6(3) 7(3)] 8(3)] 9(3)]] .
          have "((if sent (ae_send e) then 0 else - 1) \<noteq> (0 :: int) \<or> ae_resp e \<noteq> 0) = False" using True by auto
          then have run: "?run = Some (\<lparr>ar_ret = 0, ar_algo = Some (config_sent tk cp e), ar_writes = ?w3, ar_sent = args\<rparr>, s9)"
            by (simp add: start S2 S3 oks conf S4 6(1) 7(1) 8(1) 9(1) del: append.simps)
          have views: "member_views s4 (hg_records gr4) = buffers_sent cp e" if "all_added e"
          proof -
            have "hg_records gr4 = map (\<lambda>i. (i, XRP_READ)) (staged_ids r1 @ staged_ids r2 @ staged_ids r3)"
              using rec2 rec3 rec4 oks that by (simp add: all_added_def)
            then show ?thesis
              using staged_view [OF b14 [unfolded r1_def] ok1] staged_view [OF b24 [unfolded r2_def] ok2]
                staged_view [OF b34 [unfolded r3_def] ok3]
              by (simp add: member_views_append buffers_sent_def r1_def r2_def r3_def)
          qed
          have fine: "config_algo_fine cp e" "config_algo_leak cp e = 0"
            using True oks group by (auto simp: config_algo_fine_def config_algo_leak_def)
          have "\<exists>a. args = Some a \<and> iq_in_data a = le_bytes (cmd_code PS_CMD_ALGO_CONFIG) @ layout (config_sent tk cp e) \<and>
              (all_added e \<longrightarrow> iq_buffers a = buffers_sent cp e)"
            using v True g4 views by auto
          then show ?thesis using run 9(2) k ws fine
            by (intro exI [of _ "\<lparr>ar_ret = 0, ar_algo = Some (config_sent tk cp e), ar_writes = ?w3, ar_sent = args\<rparr>"]
                exI [of _ s9] exI [of _ "{#}"]) simp
        qed
      qed
    qed
  qed
qed

text \<open>The file name fits the array of 128 characters with its terminator.\<close>

lemma algo_file_fits: "length name \<le> 100 \<Longrightarrow> length (algo_file name) < 128"
  by (simp add: algo_file_def)

lemma load_algo_run:
  assumes "host_inv h s" "instance_ok h s inst" "at_instance tk = Some inst" "di_comm_queue inst = Some q"
  shows "\<exists>t. csi_dsp_task_load_algo layout (Some tk) rq e at resp s =
      Some (if sent e \<and> resp = 0
        then (0, Some (tk\<lparr>at_algo := (at_algo tk)\<lparr>ac_algo_id := lr_algo_id rq, ac_algo_ptr := lr_algo_ptr rq\<rparr>\<rparr>))
        else (- 1, Some tk), t) \<and> host_inv h t \<and> kept {} s t"
proof -
  have h: "holding h {#} s" using assms(1) by (simp add: holding_empty)
  obtain qb where q: "is_object s q (Queue qb)" "0 < h q + count {#} q" using assms(2,4) by (auto simp: instance_ok_def)
  obtain args t where c: "csi_dsp_cmd_send q PS_CMD_ALGO_LOAD (layout (rq\<lparr>lr_task_id := at_task_id tk\<rparr>)) at 12 None e s =
      Some (if sent e then 0 else - 1, args, t)" "holding h {#} t" "kept {} s t"
    using cmd_send_spec [OF h q, of None PS_CMD_ALGO_LOAD "layout (rq\<lparr>lr_task_id := at_task_id tk\<rparr>)" at 12 e] by auto
  then show ?thesis
    using assms(3,4) by (cases "sent e") (auto simp: csi_dsp_task_load_algo_def Let_def holding_empty load_stored_def)
qed

text \<open>What becomes of an existing file: the result, whether it stays open, and the references that are lost.\<close>

definition file_read :: "acquire_env \<Rightarrow> u8 list \<Rightarrow> u8 list" where
  "file_read e bytes = take (unat (scast (of_nat (length bytes) :: u32) :: u64)) (take (ae_q_read e) bytes)"

definition acquire_outcome :: "acquire_env \<Rightarrow> u8 list \<Rightarrow> int \<times> bool \<times> nat" where
  "acquire_outcome e bytes =
     (if (of_nat (length bytes) :: u32) = 0 \<or> \<not> ae_q_group e then (- 1, True, 0)
      else if \<not> can (ae_q_buffer e) then (- 1, True, 1)
      else if (of_nat (length (file_read e bytes)) :: u32) \<noteq> of_nat (length bytes) then (- 1, True, 2)
      else if \<not> sent (ae_q_send e) \<or> ae_q_resp e \<noteq> 0 then (- 1, False, 2)
      else (0, False, 0))"

lemma acquire_run:
  assumes "host_inv h s" "instance_ok h s inst" "at_instance tk = Some inst" "di_comm_queue inst = Some q"
    and "length name \<le> 100" "fopen (algo_file name) = Some bytes"
  shows "\<exists>r t M. csi_dsp_task_acquire_algo layout fopen (Some tk) (Some name) e s = Some (r, t) \<and> holding h M t \<and>
    (aq_ret r, aq_open r, size M) = acquire_outcome e bytes"
    (is "\<exists>r t M. ?run = Some (r, t) \<and> _")
proof -
  let ?sz = "of_nat (length bytes) :: u32" and ?g = "hs_next s" and ?d = "di_device inst"
  have h0: "holding h {#} s" using assms(1) by (simp add: holding_empty)
  note start = csi_dsp_task_acquire_algo_def assms(3-6) acquire_failed_def acquire_outcome_def Let_def
  have names: "\<not> 100 < length name" using assms(5) by simp
  show ?thesis
  proof (cases "?sz = 0 \<or> \<not> ae_q_group e")
    case True
    then show ?thesis using names h0
      by (intro exI [of _ "acquire_failed tk True [] None"] exI [of _ s] exI [of _ "{#}"])
        (auto simp: start xrp_create_buffer_group_def)
  next
    case False
    from create_group_spec [OF h0, of True] obtain s1 where
      c: "xrp_create_buffer_group True s = ((Some ?g, XRP_STATUS_SUCCESS), s1)" and k1: "kept {} s s1" and
      h1: "holding h {#?g#} s1" and g1: "is_object s1 ?g (Group \<lparr>hg_capacity = 0, hg_records = []\<rparr>)" by auto
    have i1: "instance_ok h s1 inst" by (rule instance_still [OF assms(2) h0 k1 h1]) simp
    have one: "0 < count {#?g#} ?g" by simp
    obtain s2 gr2 where S: "stage_buffer True ?d ?g (scast ?sz) (ae_q_buffer e) s1 =
        Some (True \<longrightarrow> can (ae_q_buffer e), staged_as True (ae_q_buffer e) (hs_next s1), s2)"
      and h2: "holding h (staged_id (staged_as True (ae_q_buffer e) (hs_next s1)) + {#?g#}) s2"
      and g2: "is_object s2 ?g (Group gr2)" and i2: "instance_ok h s2 inst"
      and b2: "staged_at s2 (staged_as True (ae_q_buffer e) (hs_next s1)) (device_buffer ?d (scast ?sz) (ae_q_buffer e))"
      by (rule stage_step [OF h1 i1 g1 one, of True "scast ?sz" "ae_q_buffer e"]) simp
    note start = start c S
    show ?thesis
    proof (cases "can (ae_q_buffer e)")
      case no: False
      then have "holding h {#?g#} s2" using h2 by (simp add: staged_as_def)
      then show ?thesis using no names False
        by (intro exI [of _ "acquire_failed tk True [] None"] exI [of _ s2] exI [of _ "{#?g#}"]) (simp add: start)
    next
      case can: True
      let ?i = "hs_next s1" and ?got = "file_read e bytes" and ?p = "fst (area (ae_q_buffer e))"
      have h2: "holding h {#?i, ?g#} s2" using h2 can by (simp add: staged_as_def add_mset_commute)
      have b2: "is_object s2 ?i (device_buffer ?d (scast ?sz) (ae_q_buffer e))"
        using b2 can by (simp add: staged_as_def staged_at_def)
      obtain bf where bf: "device_buffer ?d (scast ?sz) (ae_q_buffer e) = Buffer bf" using device_buffer_buffer by blast
      note start = start staged_as_def can
      show ?thesis
      proof (cases "(of_nat (length ?got) :: u32) = ?sz")
        case short: False
        then show ?thesis using h2 names False
          by (intro exI [of _ "acquire_failed tk True [(?p, ?got)] None"] exI [of _ s2] exI [of _ "{#?i, ?g#}"])
            (simp add: start file_read_def)
      next
        case full: True
        let ?rq = "\<lparr>lr_algo_id = - 1, lr_task_id = at_task_id tk, lr_algo_ptr = snd (area (ae_q_buffer e))\<rparr>"
        obtain qb where q: "is_object s2 q (Queue qb)" "0 < h q + count {#?i, ?g#} q"
          using i2 assms(4) by (auto simp: instance_ok_def)
        have grp: "0 < h g + count {#?i, ?g#} g \<and> (\<exists>b. is_object s2 g (Group b))" if "Some ?g = Some g" for g
          using that g2 by auto
        obtain args s3 where S4: "csi_dsp_cmd_send q PS_CMD_ALGO_LOAD (layout ?rq) (ae_q_resp_at e) 12 (Some ?g)
            (ae_q_send e) s2 = Some (if sent (ae_q_send e) then 0 else - 1, args, s3)"
          and h3: "holding h {#?i, ?g#} s3" and k3: "kept {} s2 s3"
          using cmd_send_spec [where gr = "Some ?g" and cmd = PS_CMD_ALGO_LOAD and p = "layout ?rq" and
              resp = "ae_q_resp_at e" and n = 12 and e = "ae_q_send e", OF h2 q grp] by blast
        have o3: "is_object s3 ?i (Buffer bf)" "is_object s3 ?g (Group gr2)"
          by (rule still [OF b2 [unfolded bf] h2 k3 _ h3] still [OF g2 h2 k3 _ h3]; simp)+
        note start = start S4
        show ?thesis
        proof (cases "sent (ae_q_send e) \<and> ae_q_resp e = 0")
          case no: False
          then show ?thesis using h3 names False full
            by (intro exI [of _ "acquire_failed tk False [(?p, ?got)] args"] exI [of _ s3] exI [of _ "{#?i, ?g#}"])
              (auto simp: start file_read_def)
        next
          case True
          obtain s4 where 4: "xrp_release_buffer ?i s3 = Some s4" "holding h {#?g#} s4" "kept {} s3 s4"
            using release_buffer_spec [OF h3 o3(1)] by blast
          have g4: "is_object s4 ?g (Group gr2)" by (rule still [OF o3(2) h3 4(3) _ 4(2)]) simp_all
          obtain s5 where 5: "xrp_release_buffer_group ?g s4 = Some s5" "holding h {#} s5"
            using release_group_spec [OF 4(2) g4] by blast
          show ?thesis using 4(1) 5 names False full True
            by (intro exI [of _ "\<lparr>aq_ret = 0, aq_task = Some (tk\<lparr>at_algo := load_stored ?rq (at_algo tk)\<rparr>),
               aq_open = False, aq_writes = [(?p, ?got)], aq_sent = args\<rparr>"] exI [of _ s5] exI [of _ "{#}"])
              (simp add: start file_read_def)
        qed
      qed
    qed
  qed
qed

section \<open>Properties\<close>

text \<open>
  C32: When no call fails, \<open>csi_dsp_task_config_algo\<close> returns 0; the DSP is sent the configuration with
  the physical addresses of the buffers, zero for those not asked for; the driver is given exactly these
  buffers to synchronise, in order and for reading, and their content is what the caller passed; the
  handler keeps what was sent, and every buffer and the group are released again.
\<close>

theorem config_algo_delivers:
  assumes "host_inv h s" "instance_ok h s inst" "at_instance tk = Some inst" "di_comm_queue inst = Some q"
    and "config_algo_fine cp e" "all_added e"
  shows "\<exists>a t. csi_dsp_task_config_algo layout mem (Some tk) cp e s =
      Some (\<lparr>ar_ret = 0, ar_algo = Some (config_sent tk cp e), ar_writes = writes_done mem cp e, ar_sent = Some a\<rparr>, t) \<and>
    iq_in_data a = le_bytes (cmd_code PS_CMD_ALGO_CONFIG) @ layout (config_sent tk cp e) \<and>
    iq_buffers a = buffers_sent cp e \<and> host_inv h t"
proof -
  obtain r t M where r: "csi_dsp_task_config_algo layout mem (Some tk) cp e s = Some (r, t)" "holding h M t"
    "size M = config_algo_leak cp e" "if config_algo_fine cp e then ar_ret r = 0 \<and> ar_algo r = Some (config_sent tk cp e) \<and>
       ar_writes r = writes_done mem cp e \<and> (\<exists>a. ar_sent r = Some a \<and>
         iq_in_data a = le_bytes (cmd_code PS_CMD_ALGO_CONFIG) @ layout (config_sent tk cp e) \<and>
         (all_added e \<longrightarrow> iq_buffers a = buffers_sent cp e)) else ar_ret r = - 1 \<and> ar_algo r = None"
    using config_algo_run [OF assms(1-4), of layout mem cp e] by blast
  have "config_algo_leak cp e = 0" using assms(5) by (auto simp: config_algo_leak_def config_algo_fine_def)
  then have "host_inv h t" using r(2,3) by (simp add: holding_empty)
  moreover obtain a where "ar_sent r = Some a" "iq_in_data a = le_bytes (cmd_code PS_CMD_ALGO_CONFIG) @ layout (config_sent tk cp e)"
    "iq_buffers a = buffers_sent cp e" using r(4) assms(5,6) by auto
  moreover have "r = \<lparr>ar_ret = 0, ar_algo = Some (config_sent tk cp e), ar_writes = writes_done mem cp e, ar_sent = Some a\<rparr>"
    using r(4) assms(5) calculation(2) by (cases r) simp
  ultimately show ?thesis using r(1) by blast
qed

text \<open>
  C33: Whatever fails, \<open>csi_dsp_task_config_algo\<close> uses no freed object and returns; how many of its
  references it then still holds is \<open>config_algo_leak\<close>: the buffer of the buffer list after every
  failure behind its creation, the buffer of the settings when that creation fails. It returns 0
  exactly when nothing failed, and then nothing is left.
\<close>

theorem config_algo_leaks:
  assumes "host_inv h s" "instance_ok h s inst" "at_instance tk = Some inst" "di_comm_queue inst = Some q"
  shows "\<exists>r t M. csi_dsp_task_config_algo layout mem (Some tk) cp e s = Some (r, t) \<and> holding h M t \<and>
    size M = config_algo_leak cp e \<and> (\<forall>i \<in># M. \<exists>bf. is_object t i (Buffer bf)) \<and>
    ar_ret r = (if config_algo_fine cp e then 0 else - 1)"
  using config_algo_run [OF assms, of layout mem cp e] by (metis (full_types))

text \<open>
  \<open>csi_dsp_task_acquire_algo\<close> on a file that exists: the table \<open>acquire_outcome\<close> says what it returns,
  whether it leaves the file open and how many references it loses: after every failure the objects
  created so far are kept, and the file is closed only when it was read completely.
\<close>

theorem acquire_algo_leaks:
  assumes "host_inv h s" "instance_ok h s inst" "at_instance tk = Some inst" "di_comm_queue inst = Some q"
    and "length name \<le> 100" "fopen (algo_file name) = Some bytes"
  shows "\<exists>r t M. csi_dsp_task_acquire_algo layout fopen (Some tk) (Some name) e s = Some (r, t) \<and> holding h M t \<and>
    (aq_ret r, aq_open r, size M) = acquire_outcome e bytes"
  by (rule acquire_run [where fopen = fopen, OF assms])

section \<open>Witnesses\<close>

text \<open>A program with a device at 0 and the queue for commands at 1.\<close>

definition open_ops :: "host_op list" where
  "open_ops = [Open_Device (Some 3) True, Create_Queue 0 (Some [1]) 0 True]"

definition open_state :: host_state where
  "open_state = \<lparr>hs_heap = [0 \<mapsto> (2, Device 3), 1 \<mapsto> (1, Queue \<lparr>hq_device = 0, hq_nsid = Some [1], hq_priority = 0\<rparr>)], hs_next = 2,
     hs_fds = [3], hs_areas = [], hs_requests = [], hs_lost = []\<rparr>"

definition open_refs :: "nat \<Rightarrow> nat" where
  "open_refs = (\<lambda>i. 0)(0 := 1, 1 := 1)"

definition open_instance :: dsp_instance where
  "open_instance = \<lparr>di_device = 0, di_comm_queue = Some 1\<rparr>"

lemma open_program: "host_execs open_ops (\<lambda>i. 0, host_start) = Some (open_refs, open_state)"
  by (simp add: open_ops_def host_start_def open_state_def open_refs_def xrp_open_device_def xrp_create_nsp_queue_def Let_def
      alloc_refcounted_def retain_refcounted_def got_def holds_ref_def numeral_2_eq_2)

lemma open_holds: "host_inv open_refs open_state" "instance_ok open_refs open_state open_instance"
proof -
  have "host_rel\<^sup>*\<^sup>* (\<lambda>i. 0, host_start) (open_refs, open_state)" by (rule host_execs_rel [OF open_program])
  then show "host_inv open_refs open_state" using hosts.reachable_inv [OF refl, of "(open_refs, open_state)"]
    by (simp add: client_inv_def)
  show "instance_ok open_refs open_state open_instance"
    by (auto simp: instance_ok_def open_instance_def open_refs_def open_state_def is_object_def same_object_cases)
qed

definition good_buffer :: "u64 \<Rightarrow> buffer_env" where
  "good_buffer p = \<lparr>be_calloc = True, be_ioctl = Some (p, p + 0x80000000), be_realloc = True\<rparr>"

definition good_send :: command_env where
  "good_send = \<lparr>ce_malloc = True, ce_rq_malloc = True, ce_event_calloc = True, ce_rets = (\<lambda>k. True)\<rparr>"

definition demo_config :: algo_config where
  "demo_config = \<lparr>ac_algo_id = 7, ac_task_id = 0, ac_algo_ptr = 0, ac_sett_ptr = 0x500, ac_sett_length = 2, ac_bufs_ptr = 0x600,
     ac_buf_num = 1, ac_algo_size = 0\<rparr>"

definition demo_task :: algo_task where
  "demo_task = \<lparr>at_task_id = 4, at_instance = Some open_instance, at_algo = demo_config\<rparr>"

definition demo_env_algo :: "int \<Rightarrow> algo_env" where
  "demo_env_algo resp = \<lparr>ae_group = True, ae_sett = good_buffer 0x1000, ae_bufs = good_buffer 0x2000, ae_algo = good_buffer 0x3000,
     ae_send = good_send, ae_resp_at = 0x9000, ae_resp = resp\<rparr>"

lemmas demo_simps = demo_env_algo_def demo_config_def demo_task_def good_buffer_def good_send_def open_instance_def
  wants_sett_def wants_bufs_def wants_algo_def can_def sent_def area_def

theorem config_algo_delivers_witness:
  "\<exists>a t. csi_dsp_task_config_algo (\<lambda>c. []) (\<lambda>p n. replicate n 5) (Some demo_task) demo_config (demo_env_algo 0) open_state =
     Some (\<lparr>ar_ret = 0, ar_algo = Some (config_sent demo_task demo_config (demo_env_algo 0)),
       ar_writes = [(0x1000, replicate 2 5), (0x2000, replicate 120 5)], ar_sent = Some a\<rparr>, t) \<and>
     iq_buffers a = [(1, 2, 0x1000), (1, 120, 0x2000)] \<and> host_inv open_refs t"
proof -
  have tk: "at_instance demo_task = Some open_instance" "di_comm_queue open_instance = Some 1"
    by (simp_all add: demo_simps)
  have fine: "config_algo_fine demo_config (demo_env_algo 0)" "all_added (demo_env_algo 0)"
    by (simp_all add: config_algo_fine_def all_added_def demo_simps)
  have w: "writes_done (\<lambda>p n. replicate n 5) demo_config (demo_env_algo 0) = [(0x1000, replicate 2 5), (0x2000, replicate 120 5)]"
    by (simp add: writes_done_def demo_simps SIZEOF_DSP_BUFFER_def)
  have b: "buffers_sent demo_config (demo_env_algo 0) = [(1, 2, 0x1000), (1, 120, 0x2000)]"
    by (simp add: buffers_sent_def demo_simps SIZEOF_DSP_BUFFER_def)
  show ?thesis
    using config_algo_delivers [OF open_holds tk fine, of "\<lambda>c. []" "\<lambda>p n. replicate n 5"] unfolding w b by blast
qed

theorem config_algo_leaks_witness:
  "\<exists>r t M. csi_dsp_task_config_algo (\<lambda>c. []) (\<lambda>p n. []) (Some demo_task) demo_config (demo_env_algo (- 1)) open_state = Some (r, t) \<and>
     holding open_refs M t \<and> size M = 1 \<and> ar_ret r = - 1"
proof -
  have tk: "at_instance demo_task = Some open_instance" "di_comm_queue open_instance = Some 1"
    by (simp_all add: demo_simps)
  have l: "config_algo_leak demo_config (demo_env_algo (- 1)) = 1" "\<not> config_algo_fine demo_config (demo_env_algo (- 1))"
    by (simp_all add: config_algo_leak_def config_algo_fine_def demo_simps)
  show ?thesis
    using config_algo_leaks [OF open_holds tk, of "\<lambda>c. []" "\<lambda>p n. []" demo_config "demo_env_algo (- 1)"] l by auto
qed

theorem acquire_algo_leaks_witness:
  "\<exists>r t M. csi_dsp_task_acquire_algo (\<lambda>c. []) (\<lambda>f. if f = ''/lib/firmware/blur.lib'' then Some [1, 2, 3] else None)
      (Some demo_task) (Some ''blur'')
      \<lparr>ae_q_group = True, ae_q_buffer = good_buffer 0x1000, ae_q_read = 2, ae_q_send = good_send, ae_q_resp_at = 0, ae_q_resp = 0\<rparr>
      open_state = Some (r, t) \<and> holding open_refs M t \<and> size M = 2 \<and> aq_open r"
proof -
  let ?e = "\<lparr>ae_q_group = True, ae_q_buffer = good_buffer 0x1000, ae_q_read = 2, ae_q_send = good_send, ae_q_resp_at = 0, ae_q_resp = 0\<rparr>"
  let ?f = "\<lambda>f. if f = ''/lib/firmware/blur.lib'' then Some [1, 2, 3 :: u8] else None"
  have tk: "at_instance demo_task = Some open_instance" "di_comm_queue open_instance = Some 1"
    by (simp_all add: demo_simps)
  have f: "?f (algo_file ''blur'') = Some [1, 2, 3]" "length ''blur'' \<le> 100" by (simp_all add: algo_file_def)
  have o: "acquire_outcome ?e [1, 2, 3] = (- 1, True, 2)"
    by (simp add: acquire_outcome_def file_read_def demo_simps)
  show ?thesis
    using acquire_algo_leaks [OF open_holds tk f(2), of ?f "[1, 2, 3]" "\<lambda>c. []" ?e] f(1) o by auto
qed

end
