(* ===== verification/Task_Request.thy ===== *)
theory Task_Request
  imports Dsp_Command
begin

text \<open>
  The buffers of a task and the requests of a software task, \<open>dsp-ps/csi_dsp_core.c\<close>: planes that the
  driver allocates or that are imported from other devices, the settings of a request, and the release
  of all of them. Fields of the structures that no function reads are left out.
\<close>

section \<open>Planes\<close>

record csi_dsp_plane =
  pl_fd :: u32
  pl_stride :: u32
  pl_size :: u32
  pl_buf_phy :: u64
  pl_buf_vir :: u64

datatype buffer_property = CSI_DSP_BUFFER_IN | CSI_DSP_BUFFER_OUT | CSI_DSP_BUFFER_IN_OUT

datatype buf_type = CSI_DSP_BUF_TYPE_DMA_BUF_IMPORT | CSI_DSP_BUF_TYPE_DMA_BUF_EXPORT | CSI_DSP_BUF_ALLOC_APP |
  CSI_DSP_BUF_ALLOC_DRV | CSI_DSP_BUF_ALLOC_FM

text \<open>\<open>db_planes\<close> are the three entries of the array, of which \<open>db_plane_count\<close> are used.\<close>

record csi_dsp_buffer =
  db_dir :: buffer_property
  db_type :: buf_type
  db_plane_count :: u8
  db_planes :: "csi_dsp_plane list"

text \<open>The outcome for one plane: creating, adding, the import, and a release of an import.\<close>

record plane_env =
  pe_buffer :: buffer_env
  pe_import :: "(u64 \<times> u64 \<times> u64) option"
  pe_release :: bool

definition dir_flag :: "csi_dsp_buffer \<Rightarrow> u32" where
  "dir_flag b = (if db_dir b = CSI_DSP_BUFFER_IN then XRP_READ else XRP_WRITE)"

text \<open>The body of the loop over the planes of a buffer of the driver; \<open>False\<close> is a jump to \<open>err_1\<close>.\<close>

definition add_plane ::
  "nat \<Rightarrow> nat \<Rightarrow> u32 \<Rightarrow> buffer_env \<Rightarrow> csi_dsp_plane \<Rightarrow> host_state \<Rightarrow> (bool \<times> csi_dsp_plane \<times> host_state) option" where
  "add_plane dev g flag e p s =
     do { ((b, st), s1) \<leftarrow> xrp_create_buffer (Some dev) (ucast (pl_size p)) 0 (be_calloc e) (be_ioctl e) s;
          if st \<noteq> XRP_STATUS_SUCCESS then Some (False, p, s1)
          else
            do { bi \<leftarrow> b;
                 ((v, st), s2) \<leftarrow> xrp_map_buffer bi 0 (ucast (pl_size p)) flag s1;
                 let p1 = p\<lparr>pl_buf_vir := (case v of None \<Rightarrow> 0 | Some a \<Rightarrow> a)\<rparr>;
                 if st \<noteq> XRP_STATUS_SUCCESS then do { s3 \<leftarrow> xrp_release_buffer bi s2; Some (False, p1, s3) }
                 else
                   do { phy \<leftarrow> xrp_buffer_get_info bi XRP_BUFFER_PHY_ADDR 8 s2;
                        (case phy of
                           None \<Rightarrow> do { (_, s3) \<leftarrow> xrp_unmap_buffer bi (pl_buf_vir p1) s2;
                                       s4 \<leftarrow> xrp_release_buffer bi s3; Some (False, p1, s4) }
                         | Some ph \<Rightarrow>
                             do { ((idx, st), s3) \<leftarrow> xrp_add_buffer_to_group g bi flag (be_realloc e) s2;
                                  let p2 = p1\<lparr>pl_buf_phy := ph, pl_fd := (case idx of None \<Rightarrow> - 1 | Some n \<Rightarrow> of_nat n)\<rparr>;
                                  if st \<noteq> XRP_STATUS_SUCCESS then
                                    do { (_, s4) \<leftarrow> xrp_unmap_buffer bi (pl_buf_vir p2) s3;
                                         s5 \<leftarrow> xrp_release_buffer bi s4; Some (False, p2, s5) }
                                  else Some (True, p2, s3) }) } } }"

text \<open>
  The loop, from plane \<open>i\<close> on with \<open>k\<close> to go; it gives the number of the plane that failed. A plane
  behind the array is a fault.
\<close>

fun add_planes ::
  "nat \<Rightarrow> nat \<Rightarrow> u32 \<Rightarrow> (nat \<Rightarrow> plane_env) \<Rightarrow> nat \<Rightarrow> nat \<Rightarrow> csi_dsp_plane list \<Rightarrow> host_state \<Rightarrow>
    (bool \<times> nat \<times> csi_dsp_plane list \<times> host_state) option" where
  "add_planes dev g flag env i 0 ps s = Some (True, i, ps, s)"
| "add_planes dev g flag env i (Suc k) ps s =
    (if length ps \<le> i then None
     else
       do { (ok, p, s1) \<leftarrow> add_plane dev g flag (pe_buffer (env i)) (ps ! i) s;
            if \<not> ok then Some (False, i, ps[i := p], s1)
            else add_planes dev g flag env (i + 1) k (ps[i := p]) s1 })"

text \<open>
  Taking planes of the driver back: the buffer is looked up in the group by the number in \<open>pl_fd\<close>,
  unmapped and released; a number that is not in the group gives a null pointer.
\<close>

fun release_planes :: "nat \<Rightarrow> csi_dsp_plane list \<Rightarrow> host_state \<Rightarrow> host_state option" where
  "release_planes g [] s = Some s"
| "release_planes g (p # ps) s =
    do { (b, _) \<leftarrow> xrp_get_buffer_from_group g (unat (scast (pl_fd p) :: u64)) s;
         i \<leftarrow> b;
         (_, s1) \<leftarrow> xrp_unmap_buffer i (pl_buf_vir p) s;
         s2 \<leftarrow> xrp_release_buffer i s1;
         release_planes g ps s2 }"

definition used_planes :: "csi_dsp_buffer \<Rightarrow> csi_dsp_plane list option" where
  "used_planes b = (if unat (db_plane_count b) \<le> length (db_planes b) then Some (take (unat (db_plane_count b)) (db_planes b)) else None)"

section \<open>Imported planes\<close>

text \<open>
  The calls for buffers of other devices in \<open>xrp_linux.c\<close>; the state is the list of the imports of the
  program, the driver's answer an argument.
\<close>

definition xrp_import_dma_buf ::
  "u32 \<Rightarrow> u32 \<Rightarrow> (u64 \<times> u64 \<times> u64) option \<Rightarrow> u32 list \<Rightarrow> ((u64 \<times> u64 \<times> u64) option \<times> xrp_status) \<times> u32 list" where
  "xrp_import_dma_buf fd flag ioctl_import im =
     (if sint fd < 0 \<or> flag AND 3 = 0 then ((None, XRP_STATUS_FAILURE), im)
      else case ioctl_import of
        None \<Rightarrow> ((None, XRP_STATUS_FAILURE), im)
      | Some x \<Rightarrow> ((Some x, XRP_STATUS_SUCCESS), fd # im))"

definition xrp_release_dma_buf :: "u32 \<Rightarrow> bool \<Rightarrow> u32 list \<Rightarrow> xrp_status \<times> u32 list" where
  "xrp_release_dma_buf fd ioctl_release im =
     (if sint fd < 0 \<or> \<not> ioctl_release then (XRP_STATUS_FAILURE, im) else (XRP_STATUS_SUCCESS, remove1 fd im))"

text \<open>The size is stored as 8 bytes into the field of 4 and the padding behind it.\<close>

fun import_planes ::
  "u32 \<Rightarrow> (nat \<Rightarrow> plane_env) \<Rightarrow> nat \<Rightarrow> nat \<Rightarrow> csi_dsp_plane list \<Rightarrow> u32 list \<Rightarrow> (bool \<times> nat \<times> csi_dsp_plane list \<times> u32 list) option" where
  "import_planes flag env i 0 ps im = Some (True, i, ps, im)"
| "import_planes flag env i (Suc k) ps im =
    (if length ps \<le> i then None
     else case xrp_import_dma_buf (pl_fd (ps ! i)) flag (pe_import (env i)) im of
       ((Some (phy, vir, sz), st), im1) \<Rightarrow>
         import_planes flag env (i + 1) k
           (ps[i := (ps ! i)\<lparr>pl_size := ucast sz, pl_buf_phy := phy, pl_buf_vir := vir\<rparr>]) im1
     | ((None, st), im1) \<Rightarrow> Some (False, i, ps, im1))"

text \<open>The label \<open>err_2\<close>: for every plane that was imported the descriptor of the one that failed is released.\<close>

fun release_failed :: "u32 \<Rightarrow> (nat \<Rightarrow> plane_env) \<Rightarrow> nat \<Rightarrow> u32 list \<Rightarrow> u32 list" where
  "release_failed fd env 0 im = im"
| "release_failed fd env (Suc j) im = snd (xrp_release_dma_buf fd (pe_release (env j)) (release_failed fd env j im))"

definition import_buffer :: "csi_dsp_buffer \<Rightarrow> (nat \<Rightarrow> plane_env) \<Rightarrow> u32 list \<Rightarrow> ((bool \<times> csi_dsp_buffer) \<times> u32 list) option" where
  "import_buffer b env im =
     do { (ok, i, ps, im1) \<leftarrow> import_planes (dir_flag b) env 0 (unat (db_plane_count b)) (db_planes b) im;
          Some ((ok, b\<lparr>db_planes := ps\<rparr>), if ok then im1 else release_failed (pl_fd (ps ! i)) env i im1) }"

text \<open>\<open>err_1\<close>: the planes in front of the one that failed are taken back.\<close>

definition alloc_buffer ::
  "nat \<Rightarrow> nat \<Rightarrow> csi_dsp_buffer \<Rightarrow> (nat \<Rightarrow> plane_env) \<Rightarrow> host_state \<Rightarrow> ((bool \<times> csi_dsp_buffer) \<times> host_state) option" where
  "alloc_buffer dev g b env s =
     do { (ok, i, ps, s1) \<leftarrow> add_planes dev g (dir_flag b) env 0 (unat (db_plane_count b)) (db_planes b) s;
          if ok then Some ((True, b\<lparr>db_planes := ps\<rparr>), s1)
          else do { s2 \<leftarrow> release_planes g (take i ps) s1; Some ((False, b\<lparr>db_planes := ps\<rparr>), s2) } }"

section \<open>Buffers of a task\<close>

type_synonym app_state = "host_state \<times> u32 list"

definition csi_dsp_task_create_buffer ::
  "nat \<Rightarrow> nat option \<Rightarrow> csi_dsp_buffer \<Rightarrow> (nat \<Rightarrow> plane_env) \<Rightarrow> app_state \<Rightarrow> ((int \<times> csi_dsp_buffer) \<times> app_state) option" where
  "csi_dsp_task_create_buffer dev buffers b env a =
     (case (buffers, a) of
        (None, _) \<Rightarrow> Some ((- 1, b), a)
      | (Some g, (s, im)) \<Rightarrow>
        (case db_type b of
           CSI_DSP_BUF_ALLOC_DRV \<Rightarrow>
             do { ((ok, b1), s1) \<leftarrow> alloc_buffer dev g b env s; Some ((if ok then 0 else - 1, b1), (s1, im)) }
         | CSI_DSP_BUF_ALLOC_APP \<Rightarrow> Some ((0, b), a)
         | CSI_DSP_BUF_TYPE_DMA_BUF_EXPORT \<Rightarrow> Some ((0, b), a)
         | CSI_DSP_BUF_TYPE_DMA_BUF_IMPORT \<Rightarrow>
             do { ((ok, b1), im1) \<leftarrow> import_buffer b env im; Some ((if ok then 0 else - 1, b1), (s, im1)) }
         | CSI_DSP_BUF_ALLOC_FM \<Rightarrow> Some ((- 1, b), a)))"

fun release_imports :: "csi_dsp_plane list \<Rightarrow> (nat \<Rightarrow> plane_env) \<Rightarrow> nat \<Rightarrow> u32 list \<Rightarrow> bool \<times> u32 list" where
  "release_imports [] env i im = (True, im)"
| "release_imports (p # ps) env i im =
    (let (st, im1) = xrp_release_dma_buf (pl_fd p) (pe_release (env i)) im in
     if st \<noteq> XRP_STATUS_SUCCESS then (False, im1) else release_imports ps env (i + 1) im1)"

definition csi_dsp_task_free_buffer ::
  "nat option \<Rightarrow> csi_dsp_buffer \<Rightarrow> (nat \<Rightarrow> plane_env) \<Rightarrow> app_state \<Rightarrow> (int \<times> app_state) option" where
  "csi_dsp_task_free_buffer buffers b env a =
     (case (buffers, a) of
        (None, _) \<Rightarrow> Some (- 1, a)
      | (Some g, (s, im)) \<Rightarrow>
        (case db_type b of
           CSI_DSP_BUF_ALLOC_DRV \<Rightarrow> do { ps \<leftarrow> used_planes b; s1 \<leftarrow> release_planes g ps s; Some (0, (s1, im)) }
         | CSI_DSP_BUF_ALLOC_APP \<Rightarrow> Some (0, a)
         | CSI_DSP_BUF_TYPE_DMA_BUF_EXPORT \<Rightarrow> Some (0, a)
         | CSI_DSP_BUF_TYPE_DMA_BUF_IMPORT \<Rightarrow>
             do { ps \<leftarrow> used_planes b;
                  let (ok, im1) = release_imports ps env 0 im;
                  Some (if ok then 0 else - 1, (s, im1)) }
         | CSI_DSP_BUF_ALLOC_FM \<Rightarrow> Some (- 1, a)))"

section \<open>Requests\<close>

datatype req_status = CSI_DSP_SW_REQ_IDLE | CSI_DSP_SW_REQ_RUNNING | CSI_DSP_SW_REQ_FAIL | CSI_DSP_SW_REQ_DONE

abbreviation (input) CSI_DSP_MAX_BUFFER :: nat where "CSI_DSP_MAX_BUFFER \<equiv> 8"

text \<open>
  \<open>sr_buffers\<close> are the entries of the array that are used, \<open>buffer_num\<close> of them. \<open>sr_dev\<close> is the device
  of the task's instance, \<open>sr_group\<close> the pointer \<open>priv\<close>.
\<close>

record sw_request =
  sr_algo_id :: u16
  sr_request_id :: u16
  sr_status :: req_status
  sr_sett_length :: u32
  sr_sett_ptr :: u64
  sr_buffers :: "csi_dsp_buffer list"
  sr_dev :: nat
  sr_group :: "nat option"

datatype task_mode = CSI_DSP_TASK_SW_TO_SW | CSI_DSP_TASK_SW_TO_HW | CSI_DSP_TASK_HW_TO_SW | CSI_DSP_TASK_HW_TO_HW

text \<open>
  The algorithm of a task is compared as a sign-extended 16-bit number with \<open>DSP_INVALID_ITEM\<close>;
  \<open>dsp_task_init\<close> stores the number cut to 16 bits.
\<close>

definition DSP_INVALID_ITEM :: u32 where
  "DSP_INVALID_ITEM = 0xdead"

definition csi_dsp_task_create_request ::
  "nat \<Rightarrow> task_mode \<Rightarrow> u16 \<Rightarrow> bool \<Rightarrow> bool \<Rightarrow> u32 \<Rightarrow> host_state \<Rightarrow> sw_request option \<times> host_state" where
  "csi_dsp_task_create_request dev mode algo_id malloc_ok calloc_ok rand s =
     (if mode \<noteq> CSI_DSP_TASK_SW_TO_SW then (None, s)
      else if (scast algo_id :: u32) = DSP_INVALID_ITEM then (None, s)
      else if \<not> malloc_ok then (None, s)
      else
        case xrp_create_buffer_group calloc_ok s of
          ((g, st), s1) \<Rightarrow>
            if st \<noteq> XRP_STATUS_SUCCESS then (None, s1)
            else (Some \<lparr>sr_algo_id = algo_id, sr_request_id = ucast rand, sr_status = CSI_DSP_SW_REQ_IDLE, sr_sett_length = 0,
                     sr_sett_ptr = 0, sr_buffers = [], sr_dev = dev, sr_group = g\<rparr>, s1))"

text \<open>\<open>req->buffers[req->buffer_num++]\<close> is not tested against the eight entries of the array.\<close>

definition append_buffer :: "csi_dsp_buffer \<Rightarrow> sw_request \<Rightarrow> sw_request option" where
  "append_buffer b rq =
     (if CSI_DSP_MAX_BUFFER \<le> length (sr_buffers rq) then None else Some (rq\<lparr>sr_buffers := sr_buffers rq @ [b]\<rparr>))"

definition csi_dsp_request_add_buffer ::
  "sw_request \<Rightarrow> csi_dsp_buffer \<Rightarrow> (nat \<Rightarrow> plane_env) \<Rightarrow> app_state \<Rightarrow> ((int \<times> sw_request) \<times> app_state) option" where
  "csi_dsp_request_add_buffer rq b env a =
     (let (s, im) = a in
      case db_type b of
        CSI_DSP_BUF_ALLOC_DRV \<Rightarrow>
          do { g \<leftarrow> sr_group rq;
               ((ok, b1), s1) \<leftarrow> alloc_buffer (sr_dev rq) g b env s;
               if ok then do { rq1 \<leftarrow> append_buffer b1 rq; Some ((0, rq1), (s1, im)) }
               else Some ((- 1, rq), (s1, im)) }
      | CSI_DSP_BUF_TYPE_DMA_BUF_EXPORT \<Rightarrow> Some ((- 1, rq), a)
      | CSI_DSP_BUF_TYPE_DMA_BUF_IMPORT \<Rightarrow>
          do { ((ok, b1), im1) \<leftarrow> import_buffer b env im;
               if ok then do { rq1 \<leftarrow> append_buffer b1 rq; Some ((0, rq1), (s, im1)) }
               else Some ((- 1, rq), (s, im1)) }
      | CSI_DSP_BUF_ALLOC_APP \<Rightarrow> Some ((0, rq), a)
      | CSI_DSP_BUF_ALLOC_FM \<Rightarrow> Some ((- 1, rq), a))"

text \<open>
  \<open>property\<close> is the memory the settings are copied from, \<open>None\<close> a null pointer; what is copied into
  the buffer is a result.
\<close>

definition csi_dsp_request_set_property ::
  "sw_request \<Rightarrow> u8 list option \<Rightarrow> u64 \<Rightarrow> buffer_env \<Rightarrow> host_state \<Rightarrow>
    ((int \<times> sw_request \<times> (u64 \<times> u8 list) list) \<times> host_state) option" where
  "csi_dsp_request_set_property rq property sz e s =
     (case property of
        None \<Rightarrow> Some ((- 1, rq, []), s)
      | Some bytes \<Rightarrow>
        if sz = 0 then Some ((- 1, rq, []), s)
        else
          let rq1 = rq\<lparr>sr_sett_length := ucast sz\<rparr> in
          do { ((b, st), s1) \<leftarrow> xrp_create_buffer (Some (sr_dev rq)) (ucast (sr_sett_length rq1)) 0 (be_calloc e) (be_ioctl e) s;
               if st \<noteq> XRP_STATUS_SUCCESS then Some ((- 1, rq1, []), s1)
               else
                 do { i \<leftarrow> b;
                      vir \<leftarrow> xrp_buffer_get_info i XRP_BUFFER_USER_ADDR 8 s1;
                      (case vir of
                         None \<Rightarrow> do { s2 \<leftarrow> xrp_release_buffer i s1; Some ((- 1, rq1, []), s2) }
                       | Some v \<Rightarrow>
                         do { phy \<leftarrow> xrp_buffer_get_info i XRP_BUFFER_PHY_ADDR 8 s1;
                              (case phy of
                                 None \<Rightarrow> do { s2 \<leftarrow> xrp_release_buffer i s1; Some ((- 1, rq1, []), s2) }
                               | Some ph \<Rightarrow>
                                 let rq2 = rq1\<lparr>sr_sett_ptr := ph\<rparr> in
                                 do { g \<leftarrow> sr_group rq;
                                      ((_, st), s2) \<leftarrow> xrp_add_buffer_to_group g i XRP_READ (be_realloc e) s1;
                                      if st \<noteq> XRP_STATUS_SUCCESS then
                                        do { s3 \<leftarrow> xrp_release_buffer i s2; Some ((- 1, rq2, []), s3) }
                                      else Some ((0, rq2, [(v, take (unat (sr_sett_length rq2)) bytes)]), s2) }) }) } })"

text \<open>The release: the buffers of the request, the buffer of the settings, the group.\<close>

fun release_req_buffers :: "nat \<Rightarrow> csi_dsp_buffer list \<Rightarrow> (nat \<Rightarrow> nat \<Rightarrow> plane_env) \<Rightarrow> nat \<Rightarrow> app_state \<Rightarrow> app_state option" where
  "release_req_buffers g [] env n a = Some a"
| "release_req_buffers g (b # bs) env n (s, im) =
    do { ps \<leftarrow> used_planes b;
         a1 \<leftarrow> (if db_type b \<in> {CSI_DSP_BUF_TYPE_DMA_BUF_IMPORT, CSI_DSP_BUF_TYPE_DMA_BUF_EXPORT} then
             Some (s, fold (\<lambda>(k, p) im. snd (xrp_release_dma_buf (pl_fd p) (pe_release (env n k)) im)) (enumerate 0 ps) im)
           else do { s1 \<leftarrow> release_planes g ps s; Some (s1, im) });
         release_req_buffers g bs env (n + 1) a1 }"

text \<open>The search for the buffer of the settings, from number \<open>i\<close> of the group on with \<open>k\<close> to go.\<close>

fun release_setting :: "nat \<Rightarrow> u64 \<Rightarrow> nat \<Rightarrow> nat \<Rightarrow> host_state \<Rightarrow> host_state option" where
  "release_setting g sett i 0 s = Some s"
| "release_setting g sett i (Suc k) s =
    do { (b, _) \<leftarrow> xrp_get_buffer_from_group g i s;
         bi \<leftarrow> b;
         phy \<leftarrow> xrp_buffer_get_info bi XRP_BUFFER_PHY_ADDR 8 s;
         if phy = Some sett then xrp_release_buffer bi s else release_setting g sett (i + 1) k s }"

definition csi_dsp_task_release_request ::
  "sw_request option \<Rightarrow> (nat \<Rightarrow> nat \<Rightarrow> plane_env) \<Rightarrow> app_state \<Rightarrow> (int \<times> app_state) option" where
  "csi_dsp_task_release_request req env a =
     do { rq \<leftarrow> req;
          (case sr_group rq of
             None \<Rightarrow> Some (- 1, a)
           | Some g \<Rightarrow>
             do { (s1, im1) \<leftarrow> release_req_buffers g (sr_buffers rq) env 0 a;
                  n \<leftarrow> xrp_buffer_group_get_info g XRP_BUFFER_GROUP_SIZE_SIZE_T 0 8 s1;
                  (case n of
                     None \<Rightarrow> Some (- 1, (s1, im1))
                   | Some k \<Rightarrow>
                     do { s2 \<leftarrow> release_setting g (sr_sett_ptr rq) 0 k s1;
                          s3 \<leftarrow> xrp_release_buffer_group g s2;
                          Some (0, (s3, im1)) }) }) }"

section \<open>References of the planes\<close>

text \<open>A member of a group is what it was as long as the group exists.\<close>

lemma member_still:
  assumes "holding h M s" "is_object s g (Group gr)" "(i, fl) \<in> set (hg_records gr)" "is_object s i (Buffer b)" "kept X s t"
    "X \<subseteq> {g}" "holding h' M' t" "is_object t g (Group gr')" "set (hg_records gr) \<subseteq> set (hg_records gr')"
  shows "is_object t i (Buffer b)"
proof -
  have ne: "i \<notin> X" using assms(2,4,6) by (auto simp: is_object_def same_object_cases)
  obtain c b0 where s: "hs_heap s i = Some (c, b0)" "same_object (Buffer b) b0" using assms(4) by (auto simp: is_object_def)
  obtain bf where "is_object t i (Buffer bf)" using group_member [OF assms(7,8)] assms(3,9) by blast
  then obtain c' b' where t: "hs_heap t i = Some (c', b')" by (auto simp: is_object_def)
  have "i < hs_next s" by (rule entry_below [OF assms(1) s(1)])
  then have "same_object b0 b'" using assms(5) ne s(1) t unfolding kept_def by fastforce
  then show ?thesis using s(2) t same_object_trans by (auto simp: is_object_def)
qed

definition plane_index :: "csi_dsp_plane \<Rightarrow> nat" where
  "plane_index p = unat (scast (pl_fd p) :: u64)"

definition plane_id :: "host_group \<Rightarrow> csi_dsp_plane \<Rightarrow> nat" where
  "plane_id gr p = fst (hg_records gr ! plane_index p)"

definition plane_ok :: "host_state \<Rightarrow> host_group \<Rightarrow> csi_dsp_plane \<Rightarrow> bool" where
  "plane_ok s gr p \<longleftrightarrow> plane_index p < length (hg_records gr) \<and>
     (\<exists>bf. is_object s (plane_id gr p) (Buffer bf) \<and> pl_buf_vir p = hb_ptr bf)"

text \<open>Every plane holds the reference of its creation and the one of its mapping.\<close>

definition planes_held :: "host_group \<Rightarrow> csi_dsp_plane list \<Rightarrow> nat multiset" where
  "planes_held gr ps = mset (map (plane_id gr) ps) + mset (map (plane_id gr) ps)"

lemma planes_held_simps [simp]:
  "planes_held gr [] = {#}"
  "planes_held gr (p # ps) = add_mset (plane_id gr p) (add_mset (plane_id gr p) (planes_held gr ps))"
  "planes_held gr (ps @ qs) = planes_held gr ps + planes_held gr qs"
  by (simp_all add: planes_held_def)

lemma plane_ok_later:
  assumes "plane_ok s gr p" "holding h M s" "is_object s g (Group gr)" "kept X s t" "X \<subseteq> {g}" "holding h' M' t"
    "is_object t g (Group gr')" "hg_records gr' = hg_records gr @ rs"
  shows "plane_ok t gr' p \<and> plane_id gr' p = plane_id gr p"
proof -
  have i: "plane_index p < length (hg_records gr)" using assms(1) by (simp add: plane_ok_def)
  have same: "plane_id gr' p = plane_id gr p" using i assms(8) by (simp add: plane_id_def nth_append)
  obtain bf where bf: "is_object s (plane_id gr p) (Buffer bf)" "pl_buf_vir p = hb_ptr bf"
    using assms(1) by (auto simp: plane_ok_def)
  have m: "(plane_id gr p, snd (hg_records gr ! plane_index p)) \<in> set (hg_records gr)"
    using i by (simp add: plane_id_def)
  have "is_object t (plane_id gr p) (Buffer bf)"
    by (rule member_still [OF assms(2,3) m bf(1) assms(4-7)]) (simp add: assms(8))
  then show ?thesis using same i bf(2) assms(8) by (auto simp: plane_ok_def)
qed

lemma planes_held_later:
  assumes "\<And>p. p \<in> set ps \<Longrightarrow> plane_id gr' p = plane_id gr p"
  shows "planes_held gr' ps = planes_held gr ps"
  using assms by (simp add: planes_held_def cong: map_cong)

lemma release_planes_spec:
  assumes "holding h (planes_held gr ps + M) s" "is_object s g (Group gr)" "0 < h g + count M g"
    "\<And>p. p \<in> set ps \<Longrightarrow> plane_ok s gr p"
  shows "\<exists>t. release_planes g ps s = Some t \<and> holding h M t \<and> kept {} s t"
  using assms
proof (induction ps arbitrary: s)
  case (Cons p ps)
  let ?i = "plane_id gr p" and ?R = "planes_held gr ps + M"
  have ok: "plane_ok s gr p" using Cons.prems(4) by simp
  obtain bf where bf: "is_object s ?i (Buffer bf)" "pl_buf_vir p = hb_ptr bf" and idx: "plane_index p < length (hg_records gr)"
    using ok by (auto simp: plane_ok_def)
  have get: "xrp_get_buffer_from_group g (plane_index p) s = Some (Some ?i, XRP_STATUS_SUCCESS)"
    using get_from_group_spec [OF Cons.prems(2) idx] by (simp add: plane_id_def)
  have h2: "holding h (add_mset ?i (add_mset ?i ?R)) s" using Cons.prems(1) by simp
  obtain s1 where 1: "xrp_unmap_buffer ?i (pl_buf_vir p) s = Some (XRP_STATUS_SUCCESS, s1)" "holding h (add_mset ?i ?R) s1"
    "kept {} s s1"
    using unmap_buffer_spec [OF h2 bf(1), of "pl_buf_vir p"] bf(2) by auto
  have b1: "is_object s1 ?i (Buffer bf)" by (rule still [OF bf(1) h2 1(3) _ 1(2)]) simp_all
  obtain s2 where 2: "xrp_release_buffer ?i s1 = Some s2" "holding h ?R s2" "kept {} s1 s2"
    using release_buffer_spec [OF 1(2) b1] by blast
  have k: "kept {} s s2" by (rule kept_trans0 [OF 1(3) 2(3)])
  have g2: "is_object s2 g (Group gr)"
    by (rule still [OF Cons.prems(2,1) k _ 2(2)]) (use Cons.prems(3) in auto)
  have oks: "plane_ok s2 gr q" if "q \<in> set ps" for q
    using plane_ok_later [OF Cons.prems(4) Cons.prems(1,2) k _ 2(2) g2, of q "[]"] that by simp
  obtain t where "release_planes g ps s2 = Some t" "holding h M t" "kept {} s2 t"
    using Cons.IH [OF 2(2) g2 Cons.prems(3) oks] by blast
  then show ?case
    using get 1(1) 2(1) kept_trans0 [OF k] by (auto simp: plane_index_def [symmetric])
qed simp

lemma plane_index_of_nat:
  assumes "n < 2 ^ 31"
  shows "unat (scast (of_nat n :: u32) :: u64) = n"
proof -
  have "signed_take_bit 31 (int n) = int n" using assms by (intro signed_take_bit_int_eq_self) auto
  then have "(scast (of_nat n :: u32) :: u64) = of_nat n" by (simp add: signed_of_nat)
  then show ?thesis using assms by (simp add: unat_of_nat)
qed

lemma add_plane_spec:
  assumes "holding h M s" "instance_ok h s inst" "is_object s g (Group gr)" "0 < count M g" "length (hg_records gr) < 2 ^ 31"
  shows "\<exists>ok p' t gr'. add_plane (di_device inst) g flag e p s = Some (ok, p', t) \<and> kept {g} s t \<and> is_object t g (Group gr') \<and>
    (if ok then (\<exists>i. hg_records gr' = hg_records gr @ [(i, flag)] \<and> holding h (add_mset i (add_mset i M)) t \<and>
        plane_ok t gr' p' \<and> plane_id gr' p' = i \<and> (\<exists>bf. is_object t i (Buffer bf) \<and> be_ioctl e = Some (hb_ptr bf, hb_phy_addr bf)))
     else hg_records gr' = hg_records gr \<and> holding h M t)"
proof -
  let ?d = "di_device inst" and ?sz = "ucast (pl_size p) :: u64"
  obtain fd where dev: "is_object s ?d (Device fd)" "0 < h ?d + count M ?d" using assms(2) by (auto simp: instance_ok_def)
  have pg: "0 < h g + count M g" using assms(4) by simp
  obtain r s1 where 1: "xrp_create_buffer (Some ?d) ?sz 0 (be_calloc e) (be_ioctl e) s = Some (r, s1)" "kept {} s s1"
    "case be_ioctl e of
       Some (a, phy) \<Rightarrow> if be_calloc e then r = (Some (hs_next s), XRP_STATUS_SUCCESS) \<and> holding h (add_mset (hs_next s) M) s1 \<and>
          is_object s1 (hs_next s) (Buffer \<lparr>hb_on_device = True, hb_device = Some ?d, hb_ptr = a, hb_phy_addr = phy, hb_size = ?sz,
             hb_map_count = 0, hb_map_flags = 0\<rparr>) \<and> hs_heap s (hs_next s) = None
        else r = (None, XRP_STATUS_FAILURE) \<and> holding h M s1
     | None \<Rightarrow> r = (None, XRP_STATUS_FAILURE) \<and> holding h M s1"
    using create_buffer_spec [OF assms(1) dev] by blast
  show ?thesis
  proof (cases "be_calloc e \<and> be_ioctl e \<noteq> None")
    case False
    then have r: "r = (None, XRP_STATUS_FAILURE)" "holding h M s1" using 1(3) by (auto split: option.splits)
    have "is_object s1 g (Group gr)" by (rule still [OF assms(3,1) 1(2) _ r(2) pg]) simp
    then show ?thesis
      using 1(1) r kept_mono [OF 1(2)] by (intro exI [of _ False] exI [of _ p] exI [of _ s1] exI [of _ gr]) (simp add: add_plane_def)
  next
    case True
    then obtain a phy where io: "be_ioctl e = Some (a, phy)" "be_calloc e" by auto
    let ?i = "hs_next s" and ?b = "\<lparr>hb_on_device = True, hb_device = Some ?d, hb_ptr = a, hb_phy_addr = phy, hb_size = ?sz,
             hb_map_count = 0, hb_map_flags = 0\<rparr>"
    let ?M1 = "add_mset ?i M" and ?M2 = "add_mset ?i (add_mset ?i M)"
    have r: "r = (Some ?i, XRP_STATUS_SUCCESS)" "holding h ?M1 s1" "is_object s1 ?i (Buffer ?b)" "hs_heap s ?i = None"
      using 1(3) io by simp_all
    have ne: "g \<noteq> ?i" using r(4) assms(3) by (auto simp: is_object_def)
    have p1: "0 < h ?i + count ?M1 ?i" "0 < h ?i + count ?M2 ?i" "0 < h g + count ?M1 g" "0 < h g + count ?M2 g" using pg by auto
    have g1: "is_object s1 g (Group gr)" by (rule still [OF assms(3,1) 1(2) _ r(2) p1(3)]) simp
    obtain s2 where 2: "xrp_map_buffer ?i 0 ?sz flag s1 = Some ((Some a, XRP_STATUS_SUCCESS), s2)" "kept {} s1 s2" "holding h ?M2 s2"
      using map_buffer_spec [OF r(2,3) p1(1), of 0 ?sz flag] by auto
    have b2: "is_object s2 ?i (Buffer ?b)" by (rule still [OF r(3,2) 2(2) _ 2(3) p1(2)]) simp
    have g2: "is_object s2 g (Group gr)" by (rule still [OF g1 r(2) 2(2) _ 2(3) p1(4)]) simp
    have info: "xrp_buffer_get_info ?i XRP_BUFFER_PHY_ADDR 8 s2 = Some (Some phy)" using get_info_spec(1) [OF b2] by simp
    obtain x s3 where 3: "xrp_add_buffer_to_group g ?i flag (be_realloc e) s2 = Some (x, s3)" "holding h ?M2 s3"
      "x = (Some (length (hg_records gr)), XRP_STATUS_SUCCESS) \<and> kept {g} s2 s3 \<and>
          is_object s3 g (Group (gr\<lparr>hg_records := hg_records gr @ [(?i, flag)]\<rparr>)) \<or>
       \<not> be_realloc e \<and> x = (None, XRP_STATUS_FAILURE) \<and> s3 = s2"
      using add_buffer_spec [OF 2(3) g2 p1(4) b2 p1(2)] by blast
    have k02: "kept {} s s2" by (rule kept_trans0 [OF 1(2) 2(2)])
    show ?thesis
    proof (cases "x = (None, XRP_STATUS_FAILURE)")
      case failed: True
      then have s3: "s3 = s2" using 3(3) by auto
      let ?p = "p\<lparr>pl_buf_vir := a, pl_buf_phy := phy, pl_fd := - 1\<rparr>"
      obtain s4 where 4: "xrp_unmap_buffer ?i a s2 = Some (XRP_STATUS_SUCCESS, s4)" "holding h ?M1 s4" "kept {} s2 s4"
        using unmap_buffer_spec [OF 2(3) b2, of a] by auto
      have b4: "is_object s4 ?i (Buffer ?b)" by (rule still [OF b2 2(3) 4(3) _ 4(2) p1(1)]) simp
      obtain s5 where 5: "xrp_release_buffer ?i s4 = Some s5" "holding h M s5" "kept {} s4 s5"
        using release_buffer_spec [OF 4(2) b4] by blast
      have k: "kept {} s s5" using kept_trans0 [OF kept_trans0 [OF k02 4(3)] 5(3)] .
      have "is_object s5 g (Group gr)" by (rule still [OF assms(3,1) k _ 5(2) pg]) simp
      then show ?thesis
        using 1(1) r(1) 2(1) info 3(1) failed s3 4(1) 5(1,2) kept_mono [OF k]
        by (intro exI [of _ False] exI [of _ ?p] exI [of _ s5] exI [of _ gr]) (simp add: add_plane_def)
    next
      case False
      let ?n = "length (hg_records gr)" and ?gr = "gr\<lparr>hg_records := hg_records gr @ [(?i, flag)]\<rparr>"
      let ?p = "p\<lparr>pl_buf_vir := a, pl_buf_phy := phy, pl_fd := of_nat ?n\<rparr>"
      have x: "x = (Some ?n, XRP_STATUS_SUCCESS)" "kept {g} s2 s3" "is_object s3 g (Group ?gr)" using 3(3) False by auto
      have b3: "is_object s3 ?i (Buffer ?b)" by (rule still [OF b2 2(3) x(2) _ 3(2) p1(2)]) (use ne in simp)
      have idx: "plane_index ?p = ?n" using plane_index_of_nat [OF assms(5)] by (simp add: plane_index_def)
      have pid: "plane_id ?gr ?p = ?i" unfolding plane_id_def idx by simp
      have "plane_ok s3 ?gr ?p" unfolding plane_ok_def pid idx using b3 by auto
      then show ?thesis
        using 1(1) r(1) 2(1) info 3(1,2) x kept_then [OF k02 x(2)] pid b3 io(1)
        by (intro exI [of _ True] exI [of _ ?p] exI [of _ s3] exI [of _ ?gr]) (auto simp: add_plane_def)
    qed
  qed
qed

text \<open>The physical addresses that the driver gives out satisfy \<open>P\<close>.\<close>

definition phys_ok :: "(u64 \<Rightarrow> bool) \<Rightarrow> buffer_env \<Rightarrow> bool" where
  "phys_ok P e \<longleftrightarrow> (\<forall>x. be_ioctl e = Some x \<longrightarrow> P (snd x))"

definition members_ok :: "(u64 \<Rightarrow> bool) \<Rightarrow> host_state \<Rightarrow> (nat \<times> u32) list \<Rightarrow> bool" where
  "members_ok P s rs \<longleftrightarrow> (\<forall>(i, fl) \<in> set rs. \<exists>bf. is_object s i (Buffer bf) \<and> P (hb_phy_addr bf))"

lemma members_append: "members_ok P s (xs @ ys) \<longleftrightarrow> members_ok P s xs \<and> members_ok P s ys"
  by (auto simp: members_ok_def)

lemma members_later:
  assumes "members_ok P s rs" "set rs \<subseteq> set (hg_records gr)" "holding h M s" "is_object s g (Group gr)" "kept X s t" "X \<subseteq> {g}"
    "holding h' M' t" "is_object t g (Group gr')" "set (hg_records gr) \<subseteq> set (hg_records gr')"
  shows "members_ok P t rs"
proof -
  have "\<exists>bf. is_object t i (Buffer bf) \<and> P (hb_phy_addr bf)" if i: "(i, fl) \<in> set rs" for i fl
  proof -
    obtain bf where bf: "is_object s i (Buffer bf)" "P (hb_phy_addr bf)" using assms(1) i by (auto simp: members_ok_def)
    have "(i, fl) \<in> set (hg_records gr)" using i assms(2) by blast
    then show ?thesis using member_still [OF assms(3,4) _ bf(1) assms(5-9)] bf(2) by blast
  qed
  then show ?thesis by (auto simp: members_ok_def)
qed

lemma add_planes_spec:
  assumes "holding h (planes_held gr (take i ps) + M) s" "instance_ok h s inst" "is_object s g (Group gr)" "0 < count M g"
    "i + k \<le> length ps" "length (hg_records gr) + k \<le> 2 ^ 31" "\<And>p. p \<in> set (take i ps) \<Longrightarrow> plane_ok s gr p"
    "\<And>j. j < i + k \<Longrightarrow> phys_ok P (pe_buffer (env j))"
  shows "\<exists>ok j ps' t gr' rs. add_planes (di_device inst) g flag env i k ps s = Some (ok, j, ps', t) \<and> kept {g} s t \<and>
    is_object t g (Group gr') \<and> hg_records gr' = hg_records gr @ rs \<and> members_ok P t rs \<and> length rs \<le> k \<and>
    holding h (planes_held gr' (take j ps') + M) t \<and> length ps' = length ps \<and> (\<forall>p \<in> set (take j ps'). plane_ok t gr' p) \<and>
    j \<le> length ps \<and> (ok \<longrightarrow> j = i + k)"
  using assms
proof (induction k arbitrary: i ps s gr)
  case 0
  then show ?case by (intro exI [of _ True] exI [of _ i] exI [of _ ps] exI [of _ s] exI [of _ gr] exI [of _ "[]"])
    (auto simp: members_ok_def)
next
  case (Suc k)
  let ?M = "planes_held gr (take i ps) + M"
  have i: "i < length ps" using Suc.prems(5) by simp
  have gM: "0 < count ?M g" using Suc.prems(4) by simp
  have len: "length (hg_records gr) < 2 ^ 31" using Suc.prems(6) by simp
  obtain ok p' t gr1 where A: "add_plane (di_device inst) g flag (pe_buffer (env i)) (ps ! i) s = Some (ok, p', t)"
    "kept {g} s t" "is_object t g (Group gr1)"
    "if ok then (\<exists>b. hg_records gr1 = hg_records gr @ [(b, flag)] \<and> holding h (add_mset b (add_mset b ?M)) t \<and>
        plane_ok t gr1 p' \<and> plane_id gr1 p' = b \<and>
        (\<exists>bf. is_object t b (Buffer bf) \<and> be_ioctl (pe_buffer (env i)) = Some (hb_ptr bf, hb_phy_addr bf)))
     else hg_records gr1 = hg_records gr \<and> holding h ?M t"
    using add_plane_spec [OF Suc.prems(1,2,3) gM len, of flag "pe_buffer (env i)" "ps ! i"] by blast
  have take_i: "take i (ps[i := p']) = take i ps" by simp
  show ?case
  proof (cases ok)
    case False
    then have B: "hg_records gr1 = hg_records gr" "holding h ?M t" using A(4) by simp_all
    have later: "plane_ok t gr1 p \<and> plane_id gr1 p = plane_id gr p" if "p \<in> set (take i ps)" for p
      using plane_ok_later [OF Suc.prems(7) Suc.prems(1,3) A(2) _ B(2) A(3), of p "[]"] that B(1) by simp
    have "planes_held gr1 (take i ps) = planes_held gr (take i ps)" by (rule planes_held_later) (use later in blast)
    then show ?thesis
      using A(1-3) B False i take_i later
      by (intro exI [of _ False] exI [of _ i] exI [of _ "ps[i := p']"] exI [of _ t] exI [of _ gr1] exI [of _ "[]"])
        (auto simp: members_ok_def)
  next
    case True
    then obtain b bf where B: "hg_records gr1 = hg_records gr @ [(b, flag)]" "holding h (add_mset b (add_mset b ?M)) t"
      "plane_ok t gr1 p'" "plane_id gr1 p' = b" "is_object t b (Buffer bf)" "be_ioctl (pe_buffer (env i)) = Some (hb_ptr bf, hb_phy_addr bf)"
      using A(4) by auto
    let ?ps = "ps[i := p']"
    have later: "plane_ok t gr1 p \<and> plane_id gr1 p = plane_id gr p" if "p \<in> set (take i ps)" for p
      using plane_ok_later [OF Suc.prems(7) Suc.prems(1,3) A(2) _ B(2) A(3) B(1)] that by simp
    have same: "planes_held gr1 (take i ps) = planes_held gr (take i ps)" by (rule planes_held_later) (use later in blast)
    have take_Suc: "take (i + 1) ?ps = take i ps @ [p']" using i by (simp add: take_Suc_conv_app_nth)
    have h1: "holding h (planes_held gr1 (take (i + 1) ?ps) + M) t"
      using B(2,4) same unfolding take_Suc by (simp add: union_ac)
    have inst1: "instance_ok h t inst" by (rule instance_still [OF Suc.prems(2,1) A(2) h1]) (use Suc.prems(3) in blast)
    have oks: "plane_ok t gr1 p" if "p \<in> set (take (i + 1) ?ps)" for p
      using that later B(3) unfolding take_Suc by auto
    have ph: "phys_ok P (pe_buffer (env j))" if "j < i + 1 + k" for j using Suc.prems(8) that by simp
    obtain ok' j ps' u gr2 rs where C: "add_planes (di_device inst) g flag env (i + 1) k ?ps t = Some (ok', j, ps', u)" "kept {g} t u"
      "is_object u g (Group gr2)" "hg_records gr2 = hg_records gr1 @ rs" "members_ok P u rs" "length rs \<le> k"
      "holding h (planes_held gr2 (take j ps') + M) u" "length ps' = length ?ps" "\<forall>p \<in> set (take j ps'). plane_ok u gr2 p"
      "j \<le> length ?ps" "ok' \<longrightarrow> j = i + 1 + k"
      using Suc.IH [OF h1 inst1 A(3) Suc.prems(4) _ _ oks ph] Suc.prems(5,6) B(1) by auto
    have "members_ok P t [(b, flag)]" using B(5,6) Suc.prems(8) [of i] by (auto simp: members_ok_def phys_ok_def)
    then have "members_ok P u [(b, flag)]"
      by (rule members_later [OF _ _ B(2) A(3) C(2) _ C(7,3)]) (use B(1) C(4) in auto)
    then have "members_ok P u ((b, flag) # rs)" using C(5) by (auto simp: members_ok_def)
    moreover have "kept {g} s u" using kept_trans [OF A(2) C(2)] by simp
    ultimately show ?thesis
      using A(1) True i C B(1)
      by (intro exI [of _ ok'] exI [of _ j] exI [of _ ps'] exI [of _ u] exI [of _ gr2] exI [of _ "(b, flag) # rs"]) simp
  qed
qed

definition driver_planes :: "csi_dsp_buffer \<Rightarrow> csi_dsp_plane list" where
  "driver_planes b = (if db_type b \<in> {CSI_DSP_BUF_TYPE_DMA_BUF_IMPORT, CSI_DSP_BUF_TYPE_DMA_BUF_EXPORT} then []
     else take (unat (db_plane_count b)) (db_planes b))"

definition planes_fit :: "csi_dsp_buffer \<Rightarrow> bool" where
  "planes_fit b \<longleftrightarrow> unat (db_plane_count b) \<le> length (db_planes b)"

text \<open>A buffer of the driver: either all planes are held, or none is and the members stay in the group.\<close>

lemma alloc_buffer_spec:
  assumes "holding h M s" "instance_ok h s inst" "is_object s g (Group gr)" "0 < count M g" "planes_fit b"
    "length (hg_records gr) + unat (db_plane_count b) \<le> 2 ^ 31" "db_type b = CSI_DSP_BUF_ALLOC_DRV"
    "\<And>j. j < unat (db_plane_count b) \<Longrightarrow> phys_ok P (pe_buffer (env j))"
  shows "\<exists>ok b1 t gr' rs. alloc_buffer (di_device inst) g b env s = Some ((ok, b1), t) \<and> kept {g} s t \<and> is_object t g (Group gr') \<and>
    hg_records gr' = hg_records gr @ rs \<and> members_ok P t rs \<and> length rs \<le> unat (db_plane_count b) \<and>
    (if ok then holding h (planes_held gr' (driver_planes b1) + M) t \<and> (\<forall>p \<in> set (driver_planes b1). plane_ok t gr' p) \<and>
       planes_fit b1
     else holding h M t)"
proof -
  let ?n = "unat (db_plane_count b)"
  have h0: "holding h (planes_held gr (take 0 (db_planes b)) + M) s" using assms(1) by simp
  obtain ok j ps' t gr' rs where A: "add_planes (di_device inst) g (dir_flag b) env 0 ?n (db_planes b) s = Some (ok, j, ps', t)"
    "kept {g} s t" "is_object t g (Group gr')" "hg_records gr' = hg_records gr @ rs" "members_ok P t rs" "length rs \<le> ?n"
    "holding h (planes_held gr' (take j ps') + M) t" "length ps' = length (db_planes b)" "\<forall>p \<in> set (take j ps'). plane_ok t gr' p"
    "j \<le> length (db_planes b)" "ok \<longrightarrow> j = 0 + ?n"
    using add_planes_spec [OF h0 assms(2-4), of ?n P env "dir_flag b"] assms(5,6,8) by (auto simp: planes_fit_def)
  show ?thesis
  proof (cases ok)
    case True
    let ?b1 = "b\<lparr>db_planes := ps'\<rparr>"
    have "driver_planes ?b1 = take j ps'" using A(11) True assms(7) by (simp add: driver_planes_def)
    moreover have "planes_fit ?b1" using assms(5) A(8) by (simp add: planes_fit_def)
    ultimately show ?thesis using A True by (auto simp: alloc_buffer_def)
  next
    case False
    have pg: "0 < h g + count M g" using assms(4) by simp
    obtain u where u: "release_planes g (take j ps') t = Some u" "holding h M u" "kept {} t u"
      using release_planes_spec [OF A(7,3) pg] A(9) by blast
    have g: "is_object u g (Group gr')" by (rule still [OF A(3,7) u(3) _ u(2) pg]) simp
    have m: "members_ok P u rs"
      by (rule members_later [OF A(5) _ A(7,3) u(3) _ u(2) g]) (use A(4) in auto)
    show ?thesis
      using A(1,4,6) False u(1,2) kept_trans0 [OF A(2) u(3)] g m
      by (intro exI [of _ False] exI [of _ "b\<lparr>db_planes := ps'\<rparr>"] exI [of _ u] exI [of _ gr'] exI [of _ rs])
        (simp add: alloc_buffer_def)
  qed
qed

text \<open>The settings: the request keeps one reference, the group another.\<close>

lemma set_property_spec:
  assumes "holding h M s" "instance_ok h s inst" "sr_dev rq = di_device inst" "sr_group rq = Some g" "is_object s g (Group gr)"
    "0 < count M g"
  shows "\<exists>r rq1 w t gr' rs. csi_dsp_request_set_property rq property sz e s = Some ((r, rq1, w), t) \<and> kept {g} s t \<and>
    is_object t g (Group gr') \<and> hg_records gr' = hg_records gr @ rs \<and> length rs \<le> 1 \<and>
    sr_group rq1 = sr_group rq \<and> sr_dev rq1 = sr_dev rq \<and> sr_buffers rq1 = sr_buffers rq \<and>
    (if r = 0 then (\<exists>i bf. rs = [(i, XRP_READ)] \<and> holding h (add_mset i M) t \<and> is_object t i (Buffer bf) \<and>
        be_ioctl e = Some (hb_ptr bf, hb_phy_addr bf) \<and> sr_sett_ptr rq1 = hb_phy_addr bf \<and>
        w = [(hb_ptr bf, take (unat (ucast sz :: u32)) (the property))])
     else r = - 1 \<and> rs = [] \<and> w = [] \<and> holding h M t \<and>
       (sr_sett_ptr rq1 = sr_sett_ptr rq \<or> (\<exists>x. be_ioctl e = Some x \<and> sr_sett_ptr rq1 = snd x)))"
proof (cases "property = None \<or> sz = 0")
  case True
  then have "csi_dsp_request_set_property rq property sz e s = Some ((- 1, rq, []), s)"
    by (auto simp: csi_dsp_request_set_property_def split: option.splits)
  then show ?thesis using assms(1,5)
    by (intro exI [of _ "- 1"] exI [of _ rq] exI [of _ "[]"] exI [of _ s] exI [of _ gr]) simp
next
  case False
  then obtain bytes where bytes: "property = Some bytes" "sz \<noteq> 0" by auto
  let ?d = "di_device inst" and ?n = "ucast (ucast sz :: u32) :: u64" and ?rq1 = "rq\<lparr>sr_sett_length := ucast sz\<rparr>"
  obtain fd where dev: "is_object s ?d (Device fd)" "0 < h ?d + count M ?d" using assms(2) by (auto simp: instance_ok_def)
  have pg: "0 < h g + count M g" using assms(6) by simp
  obtain r s1 where 1: "xrp_create_buffer (Some ?d) ?n 0 (be_calloc e) (be_ioctl e) s = Some (r, s1)" "kept {} s s1"
    "case be_ioctl e of
       Some (a, phy) \<Rightarrow> if be_calloc e then r = (Some (hs_next s), XRP_STATUS_SUCCESS) \<and> holding h (add_mset (hs_next s) M) s1 \<and>
          is_object s1 (hs_next s) (Buffer \<lparr>hb_on_device = True, hb_device = Some ?d, hb_ptr = a, hb_phy_addr = phy, hb_size = ?n,
             hb_map_count = 0, hb_map_flags = 0\<rparr>) \<and> hs_heap s (hs_next s) = None
        else r = (None, XRP_STATUS_FAILURE) \<and> holding h M s1
     | None \<Rightarrow> r = (None, XRP_STATUS_FAILURE) \<and> holding h M s1"
    using create_buffer_spec [OF assms(1) dev] by blast
  note code = csi_dsp_request_set_property_def bytes assms(3,4) Let_def 1(1)
  show ?thesis
  proof (cases "be_calloc e \<and> be_ioctl e \<noteq> None")
    case False
    then have r: "r = (None, XRP_STATUS_FAILURE)" "holding h M s1" using 1(3) by (auto split: option.splits)
    have "is_object s1 g (Group gr)" by (rule still [OF assms(5,1) 1(2) _ r(2) pg]) simp
    then show ?thesis
      using r kept_mono [OF 1(2)]
      by (intro exI [of _ "- 1"] exI [of _ ?rq1] exI [of _ "[]"] exI [of _ s1] exI [of _ gr]) (simp add: code)
  next
    case True
    then obtain a phy where io: "be_ioctl e = Some (a, phy)" "be_calloc e" by auto
    let ?i = "hs_next s" and ?b = "\<lparr>hb_on_device = True, hb_device = Some ?d, hb_ptr = a, hb_phy_addr = phy, hb_size = ?n,
             hb_map_count = 0, hb_map_flags = 0\<rparr>"
    let ?M1 = "add_mset ?i M" and ?rq2 = "?rq1\<lparr>sr_sett_ptr := phy\<rparr>"
    have r: "r = (Some ?i, XRP_STATUS_SUCCESS)" "holding h ?M1 s1" "is_object s1 ?i (Buffer ?b)" "hs_heap s ?i = None"
      using 1(3) io by simp_all
    have ne: "?i \<notin> {g}" using r(4) assms(5) by (auto simp: is_object_def)
    have p1: "0 < h ?i + count ?M1 ?i" "0 < h g + count ?M1 g" using pg by auto
    have g1: "is_object s1 g (Group gr)" by (rule still [OF assms(5,1) 1(2) _ r(2) p1(2)]) simp
    note info = get_info_spec [OF r(3), simplified]
    obtain x s2 where 2: "xrp_add_buffer_to_group g ?i XRP_READ (be_realloc e) s1 = Some (x, s2)" "holding h ?M1 s2"
      "x = (Some (length (hg_records gr)), XRP_STATUS_SUCCESS) \<and> kept {g} s1 s2 \<and>
          is_object s2 g (Group (gr\<lparr>hg_records := hg_records gr @ [(?i, XRP_READ)]\<rparr>)) \<or>
       \<not> be_realloc e \<and> x = (None, XRP_STATUS_FAILURE) \<and> s2 = s1"
      using add_buffer_spec [OF r(2) g1 p1(2) r(3) p1(1)] by blast
    show ?thesis
    proof (cases "x = (None, XRP_STATUS_FAILURE)")
      case failed: True
      then have s2: "s2 = s1" using 2(3) by auto
      obtain s3 where 3: "xrp_release_buffer ?i s1 = Some s3" "holding h M s3" "kept {} s1 s3"
        using release_buffer_spec [OF r(2,3)] by blast
      have k: "kept {} s s3" by (rule kept_trans0 [OF 1(2) 3(3)])
      have "is_object s3 g (Group gr)" by (rule still [OF assms(5,1) k _ 3(2) pg]) simp
      moreover have "csi_dsp_request_set_property rq property sz e s = Some ((- 1, ?rq2, []), s3)"
        using r(1) info 2(1) failed s2 3(1) by (simp add: code)
      ultimately show ?thesis
        using 3(2) kept_mono [OF k] io(1)
        by (intro exI [of _ "- 1"] exI [of _ ?rq2] exI [of _ "[]"] exI [of _ s3] exI [of _ gr]) simp
    next
      case False
      let ?gr = "gr\<lparr>hg_records := hg_records gr @ [(?i, XRP_READ)]\<rparr>"
      have x: "x = (Some (length (hg_records gr)), XRP_STATUS_SUCCESS)" "kept {g} s1 s2" "is_object s2 g (Group ?gr)"
        using 2(3) False by auto
      have b2: "is_object s2 ?i (Buffer ?b)" by (rule still [OF r(3,2) x(2) ne 2(2) p1(1)])
      have run: "csi_dsp_request_set_property rq property sz e s =
          Some ((0, ?rq2, [(a, take (unat (ucast sz :: u32)) bytes)]), s2)"
        using r(1) info 2(1) x(1) by (simp add: code)
      let ?w = "[(a, take (unat (ucast sz :: u32)) bytes)]"
      have ex: "\<exists>i bf. [(?i, XRP_READ)] = [(i, XRP_READ)] \<and> holding h (add_mset i M) s2 \<and> is_object s2 i (Buffer bf) \<and>
        be_ioctl e = Some (hb_ptr bf, hb_phy_addr bf) \<and> sr_sett_ptr ?rq2 = hb_phy_addr bf \<and>
        ?w = [(hb_ptr bf, take (unat (ucast sz :: u32)) (the property))]"
        by (rule exI [of _ ?i], rule exI [of _ ?b]) (simp add: 2(2) b2 io(1) bytes(1))
      show ?thesis
        by (rule exI [of _ 0], rule exI [of _ ?rq2], rule exI [of _ ?w], rule exI [of _ s2], rule exI [of _ ?gr],
            rule exI [of _ "[(?i, XRP_READ)]"], simp only: run if_True ex)
          (simp add: x(3) kept_then [OF 1(2) x(2)])
    qed
  qed
qed

text \<open>Releasing a request.\<close>

lemma release_req_buffers_spec:
  assumes "holding h (planes_held gr (concat (map driver_planes bs)) + M) s" "is_object s g (Group gr)" "0 < h g + count M g"
    "\<forall>b \<in> set bs. planes_fit b \<and> (\<forall>p \<in> set (driver_planes b). plane_ok s gr p)"
  shows "\<exists>t im1. release_req_buffers g bs env n (s, im) = Some (t, im1) \<and> holding h M t \<and> kept {} s t"
  using assms
proof (induction bs arbitrary: s n im)
  case (Cons b bs)
  let ?R = "planes_held gr (concat (map driver_planes bs)) + M"
  have used: "used_planes b = Some (take (unat (db_plane_count b)) (db_planes b))"
    using Cons.prems(4) by (simp add: used_planes_def planes_fit_def)
  have h: "holding h (planes_held gr (driver_planes b) + ?R) s" using Cons.prems(1) by (simp add: union_ac)
  have pg: "0 < h g + count ?R g" using Cons.prems(3) by auto
  have oks: "plane_ok s gr p" if "p \<in> set (driver_planes b)" for p using Cons.prems(4) that by simp
  obtain t where t: "release_planes g (driver_planes b) s = Some t" "holding h ?R t" "kept {} s t"
    using release_planes_spec [OF h Cons.prems(2) pg oks] by blast
  have gt: "is_object t g (Group gr)" by (rule still [OF Cons.prems(2,1) t(3) _ t(2) pg]) simp
  have later: "\<forall>c \<in> set bs. planes_fit c \<and> (\<forall>p \<in> set (driver_planes c). plane_ok t gr p)"
  proof (intro ballI conjI)
    fix c assume c: "c \<in> set bs"
    then show "planes_fit c" using Cons.prems(4) by simp
    fix p assume "p \<in> set (driver_planes c)"
    then have "plane_ok s gr p" using c Cons.prems(4) by simp
    then show "plane_ok t gr p" using plane_ok_later [OF _ Cons.prems(1,2) t(3) _ t(2) gt, of p "[]"] by simp
  qed
  have next_: "\<exists>u im1. release_req_buffers g bs env (n + 1) (t, im') = Some (u, im1) \<and> holding h M u \<and> kept {} t u" for im'
    using Cons.IH [OF t(2) gt Cons.prems(3) later] by blast
  show ?case
  proof (cases "db_type b \<in> {CSI_DSP_BUF_TYPE_DMA_BUF_IMPORT, CSI_DSP_BUF_TYPE_DMA_BUF_EXPORT}")
    case True
    then have "t = s" using t(1) by (auto simp: driver_planes_def)
    then show ?thesis using next_ True used by (auto simp: Let_def)
  next
    case False
    then have "driver_planes b = take (unat (db_plane_count b)) (db_planes b)" by (simp add: driver_planes_def)
    then have "release_planes g (take (unat (db_plane_count b)) (db_planes b)) s = Some t" using t(1) by simp
    moreover obtain u im1 where "release_req_buffers g bs env (n + 1) (t, im) = Some (u, im1)" "holding h M u" "kept {} t u"
      using next_ [of im] by blast
    ultimately show ?thesis using False used kept_trans0 [OF t(3)] by auto
  qed
qed simp

lemma release_setting_Suc:
  assumes "is_object s g (Group gr)" "drop i (hg_records gr) = (c, fc) # zs" "is_object s c (Buffer cf)"
  shows "release_setting g sett i (Suc k) s =
    (if hb_phy_addr cf = sett then xrp_release_buffer c s else release_setting g sett (i + 1) k s)"
    and "drop (i + 1) (hg_records gr) = zs"
proof -
  have i: "i < length (hg_records gr)"
  proof (rule ccontr)
    assume "\<not> ?thesis"
    then show False using assms(2) by simp
  qed
  then have "hg_records gr ! i = (c, fc)" and d: "drop (i + 1) (hg_records gr) = zs"
    using Cons_nth_drop_Suc [OF i] assms(2) by simp_all
  then have "xrp_get_buffer_from_group g i s = Some (Some c, XRP_STATUS_SUCCESS)"
    using get_from_group_spec [OF assms(1) i] by simp
  then show "release_setting g sett i (Suc k) s =
      (if hb_phy_addr cf = sett then xrp_release_buffer c s else release_setting g sett (i + 1) k s)"
    using get_info_spec(1) [OF assms(3)] by simp
  show "drop (i + 1) (hg_records gr) = zs" by (rule d)
qed

lemma release_setting_none:
  assumes "is_object s g (Group gr)"
  shows "drop i (hg_records gr) = zs \<Longrightarrow> members_ok (\<lambda>phy. phy \<noteq> sett) s zs \<Longrightarrow> release_setting g sett i (length zs) s = Some s"
proof (induction zs arbitrary: i)
  case (Cons z zs)
  obtain c fc where z: "z = (c, fc)" by (cases z)
  obtain cf where c: "is_object s c (Buffer cf)" "hb_phy_addr cf \<noteq> sett" using Cons.prems(2) z by (auto simp: members_ok_def)
  have "members_ok (\<lambda>phy. phy \<noteq> sett) s zs" using Cons.prems(2) by (simp add: members_ok_def)
  then show ?case
    using release_setting_Suc(1) [OF assms Cons.prems(1) [unfolded z] c(1), of sett "length zs"]
      release_setting_Suc(2) [OF assms Cons.prems(1) [unfolded z] c(1)] c(2) Cons.IH by simp
qed simp

lemma release_setting_found:
  assumes "is_object s g (Group gr)" "is_object s b (Buffer bf)" "hb_phy_addr bf = sett"
  shows "drop i (hg_records gr) = xs @ (b, fl) # ys \<Longrightarrow> members_ok (\<lambda>phy. phy \<noteq> sett) s xs \<Longrightarrow>
    release_setting g sett i (length (xs @ (b, fl) # ys)) s = xrp_release_buffer b s"
proof (induction xs arbitrary: i)
  case Nil
  then show ?case using release_setting_Suc(1) [OF assms(1) _ assms(2), of i fl ys sett "length ys"] assms(3) by simp
next
  case (Cons x xs)
  obtain c fc where x: "x = (c, fc)" by (cases x)
  obtain cf where c: "is_object s c (Buffer cf)" "hb_phy_addr cf \<noteq> sett" using Cons.prems(2) x by (auto simp: members_ok_def)
  have d: "drop i (hg_records gr) = (c, fc) # (xs @ (b, fl) # ys)" using Cons.prems(1) x by simp
  have "members_ok (\<lambda>phy. phy \<noteq> sett) s xs" using Cons.prems(2) by (simp add: members_ok_def)
  then show ?case
    using release_setting_Suc(1) [OF assms(1) d c(1), of sett "length (xs @ (b, fl) # ys)"]
      release_setting_Suc(2) [OF assms(1) d c(1)] c(2) Cons.IH by simp
qed

text \<open>
  The state of a request: \<open>sett\<close> is the buffer of its settings. The planes' buffers have physical
  addresses other than 0 and other than \<open>phy\<close>, the one of the settings.
\<close>

definition differs :: "u64 \<Rightarrow> u64 \<Rightarrow> bool" where
  "differs phy x \<longleftrightarrow> x \<noteq> 0 \<and> x \<noteq> phy"

definition sett_refs :: "nat option \<Rightarrow> nat multiset" where
  "sett_refs sett = (case sett of None \<Rightarrow> {#} | Some i \<Rightarrow> {#i#})"

definition sett_ok :: "u64 \<Rightarrow> host_state \<Rightarrow> u64 \<Rightarrow> (nat \<times> u32) list \<Rightarrow> nat option \<Rightarrow> bool" where
  "sett_ok phy s ptr rs sett \<longleftrightarrow>
     (case sett of
        None \<Rightarrow> members_ok (differs phy) s rs \<and> (ptr = 0 \<or> ptr = phy)
      | Some i \<Rightarrow> \<exists>xs fl ys bf. rs = xs @ (i, fl) # ys \<and> members_ok (differs phy) s xs \<and> is_object s i (Buffer bf) \<and>
          hb_phy_addr bf = ptr \<and> ptr = phy)"

definition request_state ::
  "(nat \<Rightarrow> nat) \<Rightarrow> dsp_instance \<Rightarrow> u64 \<Rightarrow> sw_request \<Rightarrow> nat \<Rightarrow> host_group \<Rightarrow> nat option \<Rightarrow> host_state \<Rightarrow> bool" where
  "request_state h inst phy rq g gr sett s \<longleftrightarrow>
     sr_group rq = Some g \<and> sr_dev rq = di_device inst \<and> instance_ok h s inst \<and> is_object s g (Group gr) \<and>
     holding h (planes_held gr (concat (map driver_planes (sr_buffers rq))) + add_mset g (sett_refs sett)) s \<and>
     (\<forall>b \<in> set (sr_buffers rq). planes_fit b \<and> (\<forall>p \<in> set (driver_planes b). plane_ok s gr p)) \<and>
     sett_ok phy s (sr_sett_ptr rq) (hg_records gr) sett"

lemma release_request_spec:
  assumes "request_state h inst phy rq g gr sett s"
  shows "\<exists>t im1. csi_dsp_task_release_request (Some rq) env (s, im) = Some (0, (t, im1)) \<and> host_inv h t \<and> kept {} s t"
proof -
  let ?M = "add_mset g (sett_refs sett)"
  have st: "sr_group rq = Some g" "is_object s g (Group gr)"
    "holding h (planes_held gr (concat (map driver_planes (sr_buffers rq))) + ?M) s"
    "sett_ok phy s (sr_sett_ptr rq) (hg_records gr) sett"
    and oks: "\<forall>b \<in> set (sr_buffers rq). planes_fit b \<and> (\<forall>p \<in> set (driver_planes b). plane_ok s gr p)"
    using assms by (auto simp: request_state_def)
  have pg: "0 < h g + count ?M g" by simp
  obtain t im1 where 1: "release_req_buffers g (sr_buffers rq) env 0 (s, im) = Some (t, im1)" "holding h ?M t" "kept {} s t"
    using release_req_buffers_spec [OF st(3,2) pg oks] by blast
  have gt: "is_object t g (Group gr)" by (rule still [OF st(2,3) 1(3) _ 1(2) pg]) simp
  have later: "members_ok P t rs" if "members_ok P s rs" "set rs \<subseteq> set (hg_records gr)" for P rs
    by (rule members_later [OF that st(3,2) 1(3) _ 1(2) gt]) simp_all
  have "\<exists>u. release_setting g (sr_sett_ptr rq) 0 (length (hg_records gr)) t = Some u \<and> holding h {#g#} u \<and> kept {} t u"
  proof (cases sett)
    case None
    then have "members_ok (differs phy) t (hg_records gr)" "sr_sett_ptr rq = 0 \<or> sr_sett_ptr rq = phy"
      using st(4) later by (auto simp: sett_ok_def)
    then have "members_ok (\<lambda>x. x \<noteq> sr_sett_ptr rq) t (hg_records gr)" by (fastforce simp: members_ok_def differs_def)
    then show ?thesis using release_setting_none [OF gt, of 0] 1(2) None by (auto simp: sett_refs_def)
  next
    case (Some i)
    then obtain xs fl ys bf where i: "hg_records gr = xs @ (i, fl) # ys" "members_ok (differs phy) s xs" "is_object s i (Buffer bf)"
      "hb_phy_addr bf = sr_sett_ptr rq" "sr_sett_ptr rq = phy"
      using st(4) by (auto simp: sett_ok_def)
    have "is_object t i (Buffer bf)" by (rule still [OF i(3) st(3) 1(3) _ 1(2)]) (use Some in \<open>simp_all add: sett_refs_def\<close>)
    moreover have "members_ok (differs phy) t xs" using later [OF i(2)] i(1) by auto
    then have "members_ok (\<lambda>x. x \<noteq> sr_sett_ptr rq) t xs" using i(5) by (fastforce simp: members_ok_def differs_def)
    ultimately have "release_setting g (sr_sett_ptr rq) 0 (length (hg_records gr)) t = xrp_release_buffer i t"
      using release_setting_found [OF gt _ i(4), where i = 0 and xs = xs and fl = fl and ys = ys] i(1) by simp
    moreover have "holding h (add_mset i {#g#}) t" using 1(2) Some by (simp add: sett_refs_def add_mset_commute)
    ultimately show ?thesis using release_buffer_spec \<open>is_object t i (Buffer bf)\<close> by metis
  qed
  then obtain u where 2: "release_setting g (sr_sett_ptr rq) 0 (length (hg_records gr)) t = Some u" "holding h {#g#} u" "kept {} t u"
    by blast
  have gu: "is_object u g (Group gr)" by (rule still [OF gt 1(2) 2(3) _ 2(2)]) simp_all
  obtain v where "xrp_release_buffer_group g u = Some v" "holding h {#} v" "kept {} u v"
    using release_group_spec [OF 2(2) gu] by blast
  then show ?thesis
    using st(1) 1(1) 2(1) group_size_spec [OF gt] kept_trans0 [OF kept_trans0 [OF 1(3) 2(3)]]
    by (auto simp: csi_dsp_task_release_request_def holding_empty)
qed

text \<open>What a program does with a request between its creation and its release.\<close>

datatype request_op =
  Add_Plane_Buffer csi_dsp_buffer "nat \<Rightarrow> plane_env"
| Set_Property "u8 list option" u64 buffer_env

fun request_exec :: "request_op \<Rightarrow> sw_request \<times> app_state \<Rightarrow> (sw_request \<times> app_state) option" where
  "request_exec (Add_Plane_Buffer b env) (rq, a) =
    do { ((r, rq1), a1) \<leftarrow> csi_dsp_request_add_buffer rq b env a; Some (rq1, a1) }"
| "request_exec (Set_Property property sz e) (rq, (s, im)) =
    do { ((r, rq1, w), s1) \<leftarrow> csi_dsp_request_set_property rq property sz e s; Some (rq1, (s1, im)) }"

fun request_run :: "request_op list \<Rightarrow> sw_request \<times> app_state \<Rightarrow> (sw_request \<times> app_state) option" where
  "request_run [] c = Some c"
| "request_run (oper # opers) c = do { d \<leftarrow> request_exec oper c; request_run opers d }"

fun adds_buffer :: "request_op \<Rightarrow> bool" where
  "adds_buffer (Add_Plane_Buffer _ _) = True"
| "adds_buffer _ = False"

text \<open>
  Buffers have the three planes of the structure and use no more; the driver gives the buffers of
  planes addresses that differ from the one of the settings, and not 0.
\<close>

fun op_allowed :: "u64 \<Rightarrow> request_op \<Rightarrow> bool" where
  "op_allowed phy (Add_Plane_Buffer b env) \<longleftrightarrow> length (db_planes b) = 3 \<and> unat (db_plane_count b) \<le> 3 \<and>
     (\<forall>j < unat (db_plane_count b). phys_ok (differs phy) (pe_buffer (env j)))"
| "op_allowed phy (Set_Property property sz e) \<longleftrightarrow> phys_ok (\<lambda>x. x = phy) e"

lemma import_planes_total:
  "i + k \<le> length ps \<Longrightarrow> \<exists>ok j ps' im'. import_planes flag env i k ps im = Some (ok, j, ps', im') \<and> length ps' = length ps"
proof (induction k arbitrary: i ps im)
  case (Suc k)
  obtain r st im1 where r: "xrp_import_dma_buf (pl_fd (ps ! i)) flag (pe_import (env i)) im = ((r, st), im1)"
    by (metis surj_pair)
  show ?case
  proof (cases r)
    case None
    then show ?thesis using r Suc.prems by (intro exI [of _ False] exI [of _ i] exI [of _ ps] exI [of _ im1]) simp
  next
    case (Some x)
    obtain phy vir sz where "x = (phy, vir, sz)" by (metis surj_pair)
    then show ?thesis
      using r Some Suc.prems Suc.IH [of "i + 1" "ps[i := (ps ! i)\<lparr>pl_size := ucast sz, pl_buf_phy := phy, pl_buf_vir := vir\<rparr>]" im1]
      by simp
  qed
qed (simp, blast)

lemma request_state_group:
  assumes "request_state h inst phy rq g gr sett s" "kept {g} s t" "is_object t g (Group gr')" "hg_records gr' = hg_records gr @ rs"
    "holding h M' t" "planes_held gr (concat (map driver_planes (sr_buffers rq))) + add_mset g (sett_refs sett) \<subseteq># M'"
    "members_ok (differs phy) t rs"
  shows "instance_ok h t inst" "\<forall>b \<in> set (sr_buffers rq). \<forall>p \<in> set (driver_planes b). plane_ok t gr' p"
    "planes_held gr' (concat (map driver_planes (sr_buffers rq))) = planes_held gr (concat (map driver_planes (sr_buffers rq)))"
    "sett_ok phy t (sr_sett_ptr rq) (hg_records gr') sett"
proof -
  let ?M = "planes_held gr (concat (map driver_planes (sr_buffers rq))) + add_mset g (sett_refs sett)"
  have st: "instance_ok h s inst" "is_object s g (Group gr)" "holding h ?M s" "sett_ok phy s (sr_sett_ptr rq) (hg_records gr) sett"
    and oks: "\<And>b p. b \<in> set (sr_buffers rq) \<Longrightarrow> p \<in> set (driver_planes b) \<Longrightarrow> plane_ok s gr p"
    using assms(1) by (auto simp: request_state_def)
  have later: "plane_ok t gr' p \<and> plane_id gr' p = plane_id gr p" if "b \<in> set (sr_buffers rq)" "p \<in> set (driver_planes b)" for b p
    using plane_ok_later [OF oks [OF that] st(3,2) assms(2) _ assms(5,3,4)] by simp
  show "instance_ok h t inst" by (rule instance_still [OF st(1,3) assms(2,5)]) (use st(2) in blast)
  show "\<forall>b \<in> set (sr_buffers rq). \<forall>p \<in> set (driver_planes b). plane_ok t gr' p" using later by blast
  show "planes_held gr' (concat (map driver_planes (sr_buffers rq))) = planes_held gr (concat (map driver_planes (sr_buffers rq)))"
    by (rule planes_held_later) (use later in auto)
  have old: "members_ok (differs phy) t zs" if "members_ok (differs phy) s zs" "set zs \<subseteq> set (hg_records gr)" for zs
    by (rule members_later [OF that st(3,2) assms(2) _ assms(5,3)]) (use assms(4) in auto)
  show "sett_ok phy t (sr_sett_ptr rq) (hg_records gr') sett"
  proof (cases sett)
    case None
    then have "members_ok (differs phy) t (hg_records gr)" using st(4) old by (simp add: sett_ok_def)
    then show ?thesis using None st(4) assms(4,7) by (simp add: sett_ok_def members_append)
  next
    case (Some i)
    then obtain xs fl ys bf where i: "hg_records gr = xs @ (i, fl) # ys" "members_ok (differs phy) s xs" "is_object s i (Buffer bf)"
      "hb_phy_addr bf = sr_sett_ptr rq" "sr_sett_ptr rq = phy"
      using st(4) by (auto simp: sett_ok_def)
    have "i \<notin> {g}" using i(3) st(2) by (auto simp: is_object_def same_object_cases)
    moreover have "0 < count M' i"
      using assms(6) Some by (auto simp: sett_refs_def dest: mset_subset_eqD)
    ultimately have "is_object t i (Buffer bf)" using still [OF i(3) st(3) assms(2) _ assms(5)] by simp
    moreover have "members_ok (differs phy) t xs" using old [OF i(2)] i(1) by auto
    moreover have "hg_records gr' = xs @ (i, fl) # (ys @ rs)" using i(1) assms(4) by simp
    ultimately show ?thesis using Some i(4,5) unfolding sett_ok_def by auto
  qed
qed

lemma add_buffer_exec:
  assumes "request_state h inst phy rq g gr sett s" "op_allowed phy (Add_Plane_Buffer b env)"
    "length (sr_buffers rq) < CSI_DSP_MAX_BUFFER" "length (hg_records gr) + 3 \<le> 2 ^ 31"
  shows "\<exists>r rq1 t im1 gr'. csi_dsp_request_add_buffer rq b env (s, im) = Some ((r, rq1), (t, im1)) \<and>
    request_state h inst phy rq1 g gr' sett t \<and> length (sr_buffers rq1) \<le> length (sr_buffers rq) + 1 \<and>
    length (hg_records gr') \<le> length (hg_records gr) + 3"
proof -
  let ?H = "planes_held gr (concat (map driver_planes (sr_buffers rq)))" and ?M = "add_mset g (sett_refs sett)"
  have st: "sr_group rq = Some g" "sr_dev rq = di_device inst" "instance_ok h s inst" "is_object s g (Group gr)" "holding h (?H + ?M) s"
    "\<And>b. b \<in> set (sr_buffers rq) \<Longrightarrow> planes_fit b"
    using assms(1) by (auto simp: request_state_def)
  have b: "planes_fit b" "unat (db_plane_count b) \<le> 3" using assms(2) by (simp_all add: planes_fit_def)
  have unchanged: "\<exists>r rq1 t im1 gr'. Some ((r0, rq), (s, im0)) = Some ((r, rq1), (t, im1)) \<and>
    request_state h inst phy rq1 g gr' sett t \<and> length (sr_buffers rq1) \<le> length (sr_buffers rq) + 1 \<and>
    length (hg_records gr') \<le> length (hg_records gr) + 3" for r0 :: int and im0 :: "u32 list"
    using assms(1) by (intro exI [of _ r0] exI [of _ rq] exI [of _ s] exI [of _ im0] exI [of _ gr]) simp
  show ?thesis
  proof (cases "db_type b")
    case CSI_DSP_BUF_ALLOC_DRV
    have gM: "0 < count (?H + ?M) g" by simp
    have ph: "phys_ok (differs phy) (pe_buffer (env j))" if "j < unat (db_plane_count b)" for j using assms(2) that by simp
    have len: "length (hg_records gr) + unat (db_plane_count b) \<le> 2 ^ 31" using assms(4) b(2) by simp
    obtain ok b1 t gr' rs where A: "alloc_buffer (di_device inst) g b env s = Some ((ok, b1), t)" "kept {g} s t" "is_object t g (Group gr')"
      "hg_records gr' = hg_records gr @ rs" "members_ok (differs phy) t rs" "length rs \<le> unat (db_plane_count b)"
      "if ok then holding h (planes_held gr' (driver_planes b1) + (?H + ?M)) t \<and> (\<forall>p \<in> set (driver_planes b1). plane_ok t gr' p) \<and>
         planes_fit b1 else holding h (?H + ?M) t"
      using alloc_buffer_spec [where env = env and P = "differs phy", OF st(5,3,4) gM b(1) len CSI_DSP_BUF_ALLOC_DRV ph] by blast
    show ?thesis
    proof (cases ok)
      case True
      let ?M' = "planes_held gr' (driver_planes b1) + (?H + ?M)" and ?rq1 = "rq\<lparr>sr_buffers := sr_buffers rq @ [b1]\<rparr>"
      have B: "holding h ?M' t" "\<forall>p \<in> set (driver_planes b1). plane_ok t gr' p" "planes_fit b1" using A(7) True by simp_all
      note later = request_state_group [OF assms(1) A(2,3,4) B(1) _ A(5)]
      have app: "append_buffer b1 rq = Some ?rq1" using assms(3) by (simp add: append_buffer_def)
      have "request_state h inst phy ?rq1 g gr' sett t"
        using st B A(3) later by (auto simp: request_state_def union_ac)
      then show ?thesis
        using A(1,4,6) b(2) True CSI_DSP_BUF_ALLOC_DRV st(1,2) app
        by (intro exI [of _ 0] exI [of _ ?rq1] exI [of _ t] exI [of _ im] exI [of _ gr']) (simp add: csi_dsp_request_add_buffer_def)
    next
      case False
      then have B: "holding h (?H + ?M) t" using A(7) by simp
      note later = request_state_group [OF assms(1) A(2,3,4) B _ A(5)]
      have "request_state h inst phy rq g gr' sett t"
        using st B A(3) later by (auto simp: request_state_def)
      then show ?thesis
        using A(1,4,6) b(2) False CSI_DSP_BUF_ALLOC_DRV st(1,2)
        by (intro exI [of _ "- 1"] exI [of _ rq] exI [of _ t] exI [of _ im] exI [of _ gr']) (simp add: csi_dsp_request_add_buffer_def)
    qed
  next
    case CSI_DSP_BUF_TYPE_DMA_BUF_IMPORT
    obtain ok j ps' im1 where I: "import_planes (dir_flag b) env 0 (unat (db_plane_count b)) (db_planes b) im = Some (ok, j, ps', im1)"
      "length ps' = length (db_planes b)"
      using import_planes_total [of 0 "unat (db_plane_count b)" "db_planes b" "dir_flag b" env im] b(1) by (auto simp: planes_fit_def)
    show ?thesis
    proof (cases ok)
      case True
      let ?b1 = "b\<lparr>db_planes := ps'\<rparr>" and ?rq1 = "rq\<lparr>sr_buffers := sr_buffers rq @ [b\<lparr>db_planes := ps'\<rparr>]\<rparr>"
      have none: "driver_planes ?b1 = []" "planes_fit ?b1"
        using CSI_DSP_BUF_TYPE_DMA_BUF_IMPORT b(1) I(2) by (simp_all add: driver_planes_def planes_fit_def)
      have "append_buffer ?b1 rq = Some ?rq1" using assms(3) by (simp add: append_buffer_def)
      moreover have "request_state h inst phy ?rq1 g gr sett s" using assms(1) none by (simp add: request_state_def)
      ultimately show ?thesis
        using I(1) True CSI_DSP_BUF_TYPE_DMA_BUF_IMPORT
        by (intro exI [of _ 0] exI [of _ ?rq1] exI [of _ s] exI [of _ im1] exI [of _ gr])
          (simp add: csi_dsp_request_add_buffer_def import_buffer_def)
    next
      case False
      then show ?thesis
        using I(1) CSI_DSP_BUF_TYPE_DMA_BUF_IMPORT unchanged by (simp add: csi_dsp_request_add_buffer_def import_buffer_def)
    qed
  qed (simp_all add: csi_dsp_request_add_buffer_def, (rule exI [of _ gr], simp add: assms(1))+)
qed

lemma set_property_exec:
  assumes "request_state h inst phy rq g gr None s" "op_allowed phy (Set_Property property sz e)"
  shows "\<exists>r rq1 w t gr' sett. csi_dsp_request_set_property rq property sz e s = Some ((r, rq1, w), t) \<and>
    request_state h inst phy rq1 g gr' sett t \<and> sr_buffers rq1 = sr_buffers rq \<and>
    length (hg_records gr') \<le> length (hg_records gr) + 3"
proof -
  let ?M = "planes_held gr (concat (map driver_planes (sr_buffers rq))) + {#g#}"
  have st: "sr_group rq = Some g" "sr_dev rq = di_device inst" "instance_ok h s inst" "is_object s g (Group gr)" "holding h ?M s"
    "sett_ok phy s (sr_sett_ptr rq) (hg_records gr) None" "\<And>b. b \<in> set (sr_buffers rq) \<Longrightarrow> planes_fit b"
    using assms(1) by (auto simp: request_state_def sett_refs_def)
  have gM: "0 < count ?M g" by simp
  obtain r rq1 w t gr' rs where A: "csi_dsp_request_set_property rq property sz e s = Some ((r, rq1, w), t)" "kept {g} s t"
    "is_object t g (Group gr')" "hg_records gr' = hg_records gr @ rs" "length rs \<le> 1"
    "sr_group rq1 = sr_group rq" "sr_dev rq1 = sr_dev rq" "sr_buffers rq1 = sr_buffers rq"
    "if r = 0 then (\<exists>i bf. rs = [(i, XRP_READ)] \<and> holding h (add_mset i ?M) t \<and> is_object t i (Buffer bf) \<and>
        be_ioctl e = Some (hb_ptr bf, hb_phy_addr bf) \<and> sr_sett_ptr rq1 = hb_phy_addr bf \<and>
        w = [(hb_ptr bf, take (unat (ucast sz :: u32)) (the property))])
     else r = - 1 \<and> rs = [] \<and> w = [] \<and> holding h ?M t \<and>
       (sr_sett_ptr rq1 = sr_sett_ptr rq \<or> (\<exists>x. be_ioctl e = Some x \<and> sr_sett_ptr rq1 = snd x))"
    using set_property_spec [OF st(5,3,2,1,4) gM, of property sz e] by blast
  show ?thesis
  proof (cases "r = 0")
    case False
    then have B: "rs = []" "holding h ?M t" "sr_sett_ptr rq1 = sr_sett_ptr rq \<or> sr_sett_ptr rq1 = phy"
      using A(9) assms(2) by (auto simp: phys_ok_def)
    have m: "members_ok (differs phy) t rs" using B(1) by (simp add: members_ok_def)
    note later = request_state_group [OF assms(1) A(2,3,4) B(2) _ m]
    have "sett_ok phy t (sr_sett_ptr rq) (hg_records gr') None" using later(4) by (simp add: sett_refs_def)
    then have "sett_ok phy t (sr_sett_ptr rq1) (hg_records gr') None"
      using B(3) st(6) by (auto simp: sett_ok_def)
    then have "request_state h inst phy rq1 g gr' None t"
      using st A(3,6-8) B(2) later by (auto simp: request_state_def sett_refs_def)
    then show ?thesis using A(1,4,5,8) by (intro exI [of _ r] exI [of _ rq1] exI [of _ w] exI [of _ t] exI [of _ gr'] exI [of _ None]) simp
  next
    case True
    then obtain i bf where B: "rs = [(i, XRP_READ)]" "holding h (add_mset i ?M) t" "is_object t i (Buffer bf)"
      "be_ioctl e = Some (hb_ptr bf, hb_phy_addr bf)" "sr_sett_ptr rq1 = hb_phy_addr bf"
      using A(9) by auto
    have phy: "hb_phy_addr bf = phy" using assms(2) B(4) by (simp add: phys_ok_def)
    have none: "members_ok (differs phy) t []" by (simp add: members_ok_def)
    have st': "members_ok (differs phy) s (hg_records gr)" using st(6) by (simp add: sett_ok_def)
    have old: "members_ok (differs phy) t (hg_records gr)"
      by (rule members_later [OF st' _ st(5,4) A(2) _ B(2) A(3)]) (use A(4) in auto)
    have oks: "plane_ok t gr' p \<and> plane_id gr' p = plane_id gr p" if "b \<in> set (sr_buffers rq)" "p \<in> set (driver_planes b)" for b p
    proof -
      have "plane_ok s gr p" using assms(1) that by (auto simp: request_state_def)
      then show ?thesis using plane_ok_later [OF _ st(5,4) A(2) _ B(2) A(3,4)] by simp
    qed
    have same: "planes_held gr' (concat (map driver_planes (sr_buffers rq))) = planes_held gr (concat (map driver_planes (sr_buffers rq)))"
      by (rule planes_held_later) (use oks in auto)
    have inst: "instance_ok h t inst" by (rule instance_still [OF st(3,5) A(2) B(2)]) (use st(4) in blast)
    have "sett_ok phy t (sr_sett_ptr rq1) (hg_records gr') (Some i)"
      unfolding sett_ok_def option.case
      by (intro exI [of _ "hg_records gr"] exI [of _ XRP_READ] exI [of _ "[]"] exI [of _ bf])
        (use old B(3,5) phy A(4) B(1) in simp)
    moreover have "holding h (planes_held gr' (concat (map driver_planes (sr_buffers rq1))) + add_mset g (sett_refs (Some i))) t"
      using B(2) same A(8) by (simp add: sett_refs_def add_mset_commute)
    ultimately have "request_state h inst phy rq1 g gr' (Some i) t"
      using st(1,2,7) A(3,6-8) inst oks by (auto simp: request_state_def)
    then show ?thesis using A(1,4,5,8) by (intro exI [of _ r] exI [of _ rq1] exI [of _ w] exI [of _ t] exI [of _ gr'] exI [of _ "Some i"]) simp
  qed
qed

lemma request_run_spec:
  assumes "request_state h inst phy rq g gr sett s" "\<forall>oper \<in> set opers. op_allowed phy oper"
    "length (sr_buffers rq) + length (filter adds_buffer opers) \<le> CSI_DSP_MAX_BUFFER"
    "length (filter (\<lambda>oper. \<not> adds_buffer oper) opers) \<le> (if sett = None \<and> fresh then 1 else 0)" "fresh \<longrightarrow> sett = None"
    "length (hg_records gr) + 3 * length opers \<le> 2 ^ 31"
  shows "\<exists>rq1 t im1 gr' sett'. request_run opers (rq, (s, im)) = Some (rq1, (t, im1)) \<and> request_state h inst phy rq1 g gr' sett' t"
  using assms
proof (induction opers arbitrary: rq gr sett s im fresh)
  case Nil
  then show ?case by (intro exI [of _ rq] exI [of _ s] exI [of _ im] exI [of _ gr] exI [of _ sett]) simp
next
  case (Cons oper opers)
  show ?case
  proof (cases oper)
    case (Add_Plane_Buffer b env)
    have len: "length (sr_buffers rq) < CSI_DSP_MAX_BUFFER" "length (hg_records gr) + 3 \<le> 2 ^ 31" and
      ok: "op_allowed phy (Add_Plane_Buffer b env)"
      using Cons.prems(2,3,6) Add_Plane_Buffer by simp_all
    obtain r rq1 t im1 gr' where A: "csi_dsp_request_add_buffer rq b env (s, im) = Some ((r, rq1), (t, im1))"
      "request_state h inst phy rq1 g gr' sett t" "length (sr_buffers rq1) \<le> length (sr_buffers rq) + 1"
      "length (hg_records gr') \<le> length (hg_records gr) + 3"
      using add_buffer_exec [OF Cons.prems(1) ok len] by blast
    have "\<exists>rq2 u im2 gr2 sett2. request_run opers (rq1, (t, im1)) = Some (rq2, (u, im2)) \<and> request_state h inst phy rq2 g gr2 sett2 u"
      by (rule Cons.IH [OF A(2), of fresh]) (use Cons.prems(2-6) A(3,4) Add_Plane_Buffer in auto)
    then show ?thesis using A(1) Add_Plane_Buffer by simp
  next
    case (Set_Property property sz e)
    then have none: "sett = None" and ok: "op_allowed phy (Set_Property property sz e)" and
      rest: "length (filter (\<lambda>oper. \<not> adds_buffer oper) opers) = 0"
      using Cons.prems(2,4) by (auto split: if_splits)
    obtain r rq1 w t gr' sett' where A: "csi_dsp_request_set_property rq property sz e s = Some ((r, rq1, w), t)"
      "request_state h inst phy rq1 g gr' sett' t" "sr_buffers rq1 = sr_buffers rq" "length (hg_records gr') \<le> length (hg_records gr) + 3"
      using set_property_exec [OF Cons.prems(1) [unfolded none] ok] by blast
    have "\<exists>rq2 u im2 gr2 sett2. request_run opers (rq1, (t, im)) = Some (rq2, (u, im2)) \<and> request_state h inst phy rq2 g gr2 sett2 u"
      by (rule Cons.IH [OF A(2), of False]) (use Cons.prems(2,3,6) A(3,4) Set_Property rest in auto)
    then show ?thesis using A(1) Set_Property by simp
  qed
qed

lemma create_request_spec:
  assumes "host_inv h s" "instance_ok h s inst"
    and "csi_dsp_task_create_request (di_device inst) mode algo_id malloc_ok calloc_ok rand s = (Some rq, s1)"
  shows "request_state h inst phy rq (hs_next s) \<lparr>hg_capacity = 0, hg_records = []\<rparr> None s1 \<and> sr_buffers rq = []"
proof -
  have h0: "holding h {#} s" using assms(1) by (simp add: holding_empty)
  have ok: "calloc_ok" using assms(3) by (auto simp: csi_dsp_task_create_request_def xrp_create_buffer_group_def split: if_splits)
  obtain t where c: "xrp_create_buffer_group True s = ((Some (hs_next s), XRP_STATUS_SUCCESS), t)" "kept {} s t"
    "holding h {#hs_next s#} t" "is_object t (hs_next s) (Group \<lparr>hg_capacity = 0, hg_records = []\<rparr>)"
    using create_group_spec [OF h0, of True] by auto
  have "instance_ok h t inst" by (rule instance_still [OF assms(2) h0 c(2,3)]) simp
  moreover have "s1 = t" "sr_group rq = Some (hs_next s)" "sr_dev rq = di_device inst" "sr_buffers rq = []" "sr_sett_ptr rq = 0"
    using assms(3) ok c(1) by (auto simp: csi_dsp_task_create_request_def split: if_splits)
  ultimately show ?thesis using c(3,4) by (simp add: request_state_def sett_refs_def sett_ok_def members_ok_def)
qed

section \<open>Imports of a request\<close>

lemma import_planes_adds:
  "import_planes flag env i k ps im = Some (ok, j, ps', im') \<Longrightarrow>
    i \<le> j \<and> j \<le> i + k \<and> (\<not> ok \<longrightarrow> j < i + k \<and> j < length ps \<and>
      (pe_import (env j) = None \<or> sint (pl_fd (ps ! j)) < 0 \<or> flag AND 3 = 0)) \<and>
    (\<forall>n. pl_fd (ps' ! n) = pl_fd (ps ! n)) \<and>
    (\<forall>fd. count_list im' fd = count_list im fd + count_list (map (\<lambda>n. pl_fd (ps ! n)) [i..<j]) fd)"
proof (induction k arbitrary: i ps im)
  case (Suc k)
  obtain r st im1 where r: "xrp_import_dma_buf (pl_fd (ps ! i)) flag (pe_import (env i)) im = ((r, st), im1)"
    by (metis surj_pair)
  have i: "i < length ps" using Suc.prems by (simp split: if_splits)
  show ?case
  proof (cases r)
    case None
    then have "im1 = im" "pe_import (env i) = None \<or> sint (pl_fd (ps ! i)) < 0 \<or> flag AND 3 = 0"
      using r by (auto simp: xrp_import_dma_buf_def split: if_splits option.splits)
    then show ?thesis using r None Suc.prems i by auto
  next
    case (Some x)
    obtain phy vir sz where x: "x = (phy, vir, sz)" by (metis surj_pair)
    have im1: "im1 = pl_fd (ps ! i) # im"
      using r Some by (auto simp: xrp_import_dma_buf_def split: if_splits option.splits)
    let ?ps = "ps[i := (ps ! i)\<lparr>pl_size := ucast sz, pl_buf_phy := phy, pl_buf_vir := vir\<rparr>]"
    have same: "pl_fd (?ps ! n) = pl_fd (ps ! n)" for n using i by (cases "n = i") simp_all
    have run: "import_planes flag env (i + 1) k ?ps im1 = Some (ok, j, ps', im')" using Suc.prems r Some x i by simp
    from Suc.IH [OF run] have IH: "i + 1 \<le> j" "j \<le> i + 1 + k" "\<And>n. pl_fd (ps' ! n) = pl_fd (ps ! n)"
      "\<not> ok \<Longrightarrow> j < i + 1 + k \<and> j < length ps \<and> (pe_import (env j) = None \<or> sint (pl_fd (ps ! j)) < 0 \<or> flag AND 3 = 0)"
      "\<And>fd. count_list im' fd = count_list im1 fd + count_list (map (\<lambda>n. pl_fd (ps ! n)) [i + 1..<j]) fd"
      using same by auto
    have "[i..<j] = i # [i + 1..<j]" using IH(1) by (simp add: upt_conv_Cons)
    then show ?thesis using IH im1 by simp
  qed
qed auto

text \<open>
  The imports that the buffers of a request hold. A buffer whose import succeeds adds one for each of
  its planes; the release of the request gives them back.
\<close>

lemma count_list_mset: "count (mset xs) x = count_list xs x"
  by (induction xs) auto

definition imported :: "csi_dsp_buffer \<Rightarrow> u32 multiset" where
  "imported b = (if db_type b = CSI_DSP_BUF_TYPE_DMA_BUF_IMPORT
     then mset (map pl_fd (take (unat (db_plane_count b)) (db_planes b))) else {#})"

fun import_succeeds :: "request_op \<Rightarrow> bool" where
  "import_succeeds (Add_Plane_Buffer b env) \<longleftrightarrow> db_type b = CSI_DSP_BUF_TYPE_DMA_BUF_IMPORT \<longrightarrow>
     (\<forall>j < unat (db_plane_count b). pe_import (env j) \<noteq> None \<and> 0 \<le> sint (pl_fd (db_planes b ! j)))"
| "import_succeeds (Set_Property _ _ _) = True"

definition import_state :: "u32 list \<Rightarrow> sw_request \<Rightarrow> u32 list \<Rightarrow> bool" where
  "import_state im0 rq im \<longleftrightarrow> mset im = mset im0 + sum_list (map imported (sr_buffers rq)) \<and>
     (\<forall>b \<in> set (sr_buffers rq). planes_fit b \<and> db_type b \<noteq> CSI_DSP_BUF_TYPE_DMA_BUF_EXPORT \<and> (\<forall>fd \<in># imported b. 0 \<le> sint fd))"

lemma import_planes_end: "import_planes flag env i k ps im = Some (True, j, ps', im') \<Longrightarrow> j = i + k \<and> length ps' = length ps"
  by (induction k arbitrary: i ps im) (fastforce split: if_splits prod.splits option.splits)+

lemma import_buffer_all:
  assumes "import_buffer b env im = Some ((ok, b1), im')" "db_type b = CSI_DSP_BUF_TYPE_DMA_BUF_IMPORT" "planes_fit b"
    "\<forall>j < unat (db_plane_count b). pe_import (env j) \<noteq> None \<and> 0 \<le> sint (pl_fd (db_planes b ! j))"
  shows "ok \<and> db_type b1 = db_type b \<and> planes_fit b1 \<and> mset im' = mset im + imported b1 \<and> (\<forall>fd \<in># imported b1. 0 \<le> sint fd)"
proof -
  let ?n = "unat (db_plane_count b)"
  obtain j ps im1 where r: "import_planes (dir_flag b) env 0 ?n (db_planes b) im = Some (ok, j, ps, im1)"
    "b1 = b\<lparr>db_planes := ps\<rparr>" "im' = (if ok then im1 else release_failed (pl_fd (ps ! j)) env j im1)"
    using assms(1) by (auto simp: import_buffer_def Option.bind_eq_Some_conv)
  note a = import_planes_adds [OF r(1)]
  have "dir_flag b AND 3 \<noteq> 0" by (simp add: dir_flag_def)
  then have ok: "ok" using a assms(4) by fastforce
  have e: "j = ?n" "length ps = length (db_planes b)" using import_planes_end [of "dir_flag b" env 0 ?n] r(1) ok by auto
  have fds: "map pl_fd (take ?n ps) = map (\<lambda>n. pl_fd (db_planes b ! n)) [0..<?n]"
    using a e assms(3) by (intro nth_equalityI) (auto simp: planes_fit_def)
  have im: "imported b1 = mset (map (\<lambda>n. pl_fd (db_planes b ! n)) [0..<?n])"
    using r(2) assms(2) fds by (simp add: imported_def del: mset_map)
  have "mset im1 = mset im + imported b1"
    unfolding im by (rule multiset_eqI) (use a e(1) in \<open>simp add: count_list_mset del: mset_map\<close>)
  then show ?thesis using ok r(2,3) assms(2-4) e(2) im by (auto simp: planes_fit_def)
qed

lemma alloc_buffer_type: "alloc_buffer dev g b env s = Some ((ok, b1), t) \<Longrightarrow> db_type b1 = db_type b"
  by (auto simp: alloc_buffer_def Option.bind_eq_Some_conv split: if_splits)

lemma add_planes_length: "add_planes dev g flag env i k ps s = Some (ok, j, ps', t) \<Longrightarrow> length ps' = length ps"
  by (induction k arbitrary: i ps s) (fastforce simp: Option.bind_eq_Some_conv split: if_splits)+

lemma alloc_buffer_fit: "alloc_buffer dev g b env s = Some ((ok, b1), t) \<Longrightarrow> planes_fit b \<Longrightarrow> planes_fit b1"
  by (auto simp: alloc_buffer_def planes_fit_def Option.bind_eq_Some_conv split: if_splits dest: add_planes_length)

lemma add_buffer_imports:
  assumes "import_state im0 rq im" "csi_dsp_request_add_buffer rq b env (s, im) = Some ((r, rq1), (t, im1))"
    "import_succeeds (Add_Plane_Buffer b env)" "planes_fit b"
  shows "import_state im0 rq1 im1"
proof (cases "db_type b")
  case CSI_DSP_BUF_TYPE_DMA_BUF_IMPORT
  then obtain ok b1 im' where i: "import_buffer b env im = Some ((ok, b1), im')"
    and e: "(if ok then do { rq1 \<leftarrow> append_buffer b1 rq; Some ((0, rq1), (s, im')) } else Some ((- 1, rq), (s, im'))) = Some ((r, rq1), (t, im1))"
    using assms(2) by (auto simp: csi_dsp_request_add_buffer_def Option.bind_eq_Some_conv)
  note a = import_buffer_all [OF i CSI_DSP_BUF_TYPE_DMA_BUF_IMPORT assms(4)]
  have law: "ok" "db_type b1 = db_type b" "planes_fit b1" "mset im' = mset im + imported b1" "\<forall>fd \<in># imported b1. 0 \<le> sint fd"
    using a assms(3) CSI_DSP_BUF_TYPE_DMA_BUF_IMPORT by simp_all
  have "rq1 = rq\<lparr>sr_buffers := sr_buffers rq @ [b1]\<rparr>" "im1 = im'"
    using e law(1) by (auto simp: append_buffer_def Option.bind_eq_Some_conv split: if_splits)
  then show ?thesis using assms(1) law(2-) CSI_DSP_BUF_TYPE_DMA_BUF_IMPORT by (auto simp: import_state_def)
next
  case CSI_DSP_BUF_ALLOC_DRV
  then obtain g ok b1 where i: "alloc_buffer (sr_dev rq) g b env s = Some ((ok, b1), t)" "im1 = im"
      "rq1 = (if ok then rq\<lparr>sr_buffers := sr_buffers rq @ [b1]\<rparr> else rq)"
    using assms(2) by (auto simp: csi_dsp_request_add_buffer_def append_buffer_def Option.bind_eq_Some_conv split: if_splits)
  have "db_type b1 = CSI_DSP_BUF_ALLOC_DRV" "planes_fit b1"
    using alloc_buffer_type [OF i(1)] alloc_buffer_fit [OF i(1) assms(4)] CSI_DSP_BUF_ALLOC_DRV by simp_all
  then show ?thesis using assms(1) i(2,3) by (auto simp: import_state_def imported_def)
qed (use assms(1,2) in \<open>auto simp: csi_dsp_request_add_buffer_def\<close>)

lemma set_property_buffers:
  "csi_dsp_request_set_property rq property sz e s = Some ((r, rq1, w), t) \<Longrightarrow> sr_buffers rq1 = sr_buffers rq"
  by (auto simp: csi_dsp_request_set_property_def Let_def Option.bind_eq_Some_conv split: option.splits if_splits)

lemma request_run_imports:
  assumes "request_run opers (rq, (s, im)) = Some (rq1, (t, im1))" "import_state im0 rq im"
    "\<forall>oper \<in> set opers. op_allowed phy oper \<and> import_succeeds oper"
  shows "import_state im0 rq1 im1"
  using assms
proof (induction opers arbitrary: rq s im)
  case (Cons oper opers)
  obtain rq2 u im2 where e: "request_exec oper (rq, (s, im)) = Some (rq2, (u, im2))"
    "request_run opers (rq2, (u, im2)) = Some (rq1, (t, im1))"
    using Cons.prems(1) by (auto simp: Option.bind_eq_Some_conv)
  have "import_state im0 rq2 im2"
  proof (cases oper)
    case (Add_Plane_Buffer b env)
    then obtain r where "csi_dsp_request_add_buffer rq b env (s, im) = Some ((r, rq2), (u, im2))"
      using e(1) by (auto simp: Option.bind_eq_Some_conv)
    then show ?thesis
      using add_buffer_imports [OF Cons.prems(2)] Cons.prems(3) Add_Plane_Buffer by (auto simp: planes_fit_def)
  next
    case (Set_Property property sz e')
    then show ?thesis
      using e(1) Cons.prems(2) by (auto simp: Option.bind_eq_Some_conv import_state_def dest!: set_property_buffers)
  qed
  then show ?case using Cons.IH [OF e(2)] Cons.prems(3) by simp
qed simp

lemma release_fold_imports:
  assumes "\<forall>p \<in> set ps. 0 \<le> sint (pl_fd p)" "\<And>k. pe_release (env k)"
  shows "mset (fold (\<lambda>(k, p) im. snd (xrp_release_dma_buf (pl_fd p) (pe_release (env k)) im)) (enumerate i ps) im) =
    mset im - mset (map pl_fd ps)"
  using assms(1) by (induction ps arbitrary: i im) (simp_all add: xrp_release_dma_buf_def assms(2))

lemma release_req_imports:
  assumes "release_req_buffers g bs env n (s, im) = Some (t, im1)" "\<And>n k. pe_release (env n k)"
    "mset im = M + sum_list (map imported bs)"
    "\<forall>b \<in> set bs. planes_fit b \<and> db_type b \<noteq> CSI_DSP_BUF_TYPE_DMA_BUF_EXPORT \<and> (\<forall>fd \<in># imported b. 0 \<le> sint fd)"
  shows "mset im1 = M"
  using assms(1,3,4)
proof (induction bs arbitrary: n s im)
  case (Cons b bs)
  let ?ps = "take (unat (db_plane_count b)) (db_planes b)"
  have used: "used_planes b = Some ?ps" using Cons.prems(3) by (simp add: used_planes_def planes_fit_def)
  show ?case
  proof (cases "db_type b = CSI_DSP_BUF_TYPE_DMA_BUF_IMPORT")
    case True
    let ?im = "fold (\<lambda>(k, p) im. snd (xrp_release_dma_buf (pl_fd p) (pe_release (env n k)) im)) (enumerate 0 ?ps) im"
    have r: "release_req_buffers g bs env (n + 1) (s, ?im) = Some (t, im1)" using Cons.prems(1) True used by simp
    have i: "imported b = mset (map pl_fd ?ps)" using True by (simp add: imported_def)
    have "\<forall>p \<in> set ?ps. 0 \<le> sint (pl_fd p)" using Cons.prems(3) i by auto
    then have "mset ?im = mset im - imported b" unfolding i by (rule release_fold_imports) (rule assms(2))
    then have "mset ?im = M + sum_list (map imported bs)" using Cons.prems(2) by simp
    then show ?thesis using Cons.IH [OF r] Cons.prems(3) by simp
  next
    case False
    then obtain s1 where "release_req_buffers g bs env (n + 1) (s1, im) = Some (t, im1)"
      using Cons.prems(1,3) used by (auto simp: Option.bind_eq_Some_conv)
    moreover have "imported b = {#}" using False by (simp add: imported_def)
    ultimately show ?thesis using Cons.IH Cons.prems(2,3) by simp
  qed
qed simp

section \<open>Properties\<close>

text \<open>
  C9: The life of a request: after its creation any sequence of at most eight added buffers of any
  type, each of which may fail at any plane, with at most one call that sets the settings, the release
  returns 0 and the program holds exactly the references to devices, queues, buffers and groups it held
  before: none leaks, nothing is used after it was freed, and no access is outside a table.
  The driver is relied on to give the settings an address that no plane has, and no plane the address 0:
  the release finds the buffer of the settings by its physical address, and with the same address it
  would release another one once too often (lemma \<open>zero_address_faults\<close>). Buffers of other devices are
  not such objects: their imports are all given back when every import succeeded and the driver
  releases them; after a failed import some stay (lemma \<open>failed_import_leaks\<close>).
\<close>

theorem request_lifecycle:
  assumes "host_inv h s" "instance_ok h s inst"
    and "csi_dsp_task_create_request (di_device inst) mode algo_id malloc_ok calloc_ok rand s = (Some rq, s1)"
    and "\<forall>oper \<in> set opers. op_allowed phy oper" "length (filter adds_buffer opers) \<le> CSI_DSP_MAX_BUFFER"
    and "length (filter (\<lambda>oper. \<not> adds_buffer oper) opers) \<le> 1"
  shows "\<exists>rq1 a1 t im1. request_run opers (rq, (s1, im)) = Some (rq1, a1) \<and>
    csi_dsp_task_release_request (Some rq1) env a1 = Some (0, (t, im1)) \<and> host_inv h t \<and>
    ((\<forall>oper \<in> set opers. import_succeeds oper) \<and> (\<forall>n k. pe_release (env n k)) \<longrightarrow> mset im1 = mset im)"
proof -
  note start = create_request_spec [OF assms(1-3), of phy]
  have "length opers = length (filter adds_buffer opers) + length (filter (\<lambda>oper. \<not> adds_buffer oper) opers)"
    by (rule sum_length_filter_compl [symmetric])
  then have "length opers \<le> 9" using assms(5,6) by simp
  then obtain rq1 t im1 gr' sett' where r: "request_run opers (rq, (s1, im)) = Some (rq1, (t, im1))"
    "request_state h inst phy rq1 (hs_next s) gr' sett' t"
    using request_run_spec [OF conjunct1 [OF start] assms(4), of True im] assms(5,6) start by auto
  obtain u im2 where u: "csi_dsp_task_release_request (Some rq1) env (t, im1) = Some (0, (u, im2))" "host_inv h u"
    using release_request_spec [OF r(2), of env im1] by blast
  have "mset im2 = mset im" if "\<forall>oper \<in> set opers. import_succeeds oper" "\<And>n k. pe_release (env n k)"
  proof -
    have "import_state im rq im" using start by (simp add: import_state_def)
    then have "import_state im rq1 im1" using request_run_imports [OF r(1)] assms(4) that(1) by blast
    moreover obtain g t1 where "release_req_buffers g (sr_buffers rq1) env 0 (t, im1) = Some (t1, im2)"
      using u(1) by (auto simp: csi_dsp_task_release_request_def Option.bind_eq_Some_conv split: option.splits)
    ultimately show ?thesis using release_req_imports that(2) unfolding import_state_def by blast
  qed
  then show ?thesis using r(1) u by blast
qed

text \<open>
  A buffer of a task that was created and freed again costs the program no reference; but the
  group of the task keeps one of every plane, so that the memory stays allocated until the task is
  destroyed.
\<close>

theorem task_buffer_freed_stays:
  assumes "holding h M s" "instance_ok h s inst" "is_object s g (Group gr)" "0 < count M g" "planes_fit b"
    and "length (hg_records gr) + unat (db_plane_count b) \<le> 2 ^ 31" "db_type b = CSI_DSP_BUF_ALLOC_DRV"
  shows "\<exists>r b1 t. csi_dsp_task_create_buffer (di_device inst) (Some g) b env (s, im) = Some ((r, b1), (t, im)) \<and>
    (if r = 0 then \<exists>u gr'. csi_dsp_task_free_buffer (Some g) b1 env' (t, im) = Some (0, (u, im)) \<and> holding h M u \<and>
        is_object u g (Group gr') \<and> (\<forall>p \<in> set (driver_planes b1). \<exists>bf. is_object u (plane_id gr' p) (Buffer bf))
     else r = - 1 \<and> holding h M t)"
proof -
  have any: "phys_ok (\<lambda>x. True) (pe_buffer (env j))" for j by (simp add: phys_ok_def)
  obtain ok b1 t gr' rs where A: "alloc_buffer (di_device inst) g b env s = Some ((ok, b1), t)" "is_object t g (Group gr')"
    "if ok then holding h (planes_held gr' (driver_planes b1) + M) t \<and> (\<forall>p \<in> set (driver_planes b1). plane_ok t gr' p) \<and>
       planes_fit b1 else holding h M t"
    using alloc_buffer_spec [where env = env and P = "\<lambda>x. True", OF assms(1-7) any] by blast
  have type: "db_type b1 = CSI_DSP_BUF_ALLOC_DRV"
    using A(1) assms(7) by (auto simp: alloc_buffer_def Option.bind_eq_Some_conv split: if_splits)
  show ?thesis
  proof (cases ok)
    case False
    then show ?thesis using A assms(7) by (auto simp: csi_dsp_task_create_buffer_def)
  next
    case True
    then have B: "holding h (planes_held gr' (driver_planes b1) + M) t" "\<And>p. p \<in> set (driver_planes b1) \<Longrightarrow> plane_ok t gr' p"
      "planes_fit b1" using A(3) by auto
    have pg: "0 < h g + count M g" using assms(4) by simp
    obtain u where u: "release_planes g (driver_planes b1) t = Some u" "holding h M u" "kept {} t u"
      using release_planes_spec [OF B(1) A(2) pg B(2)] by blast
    have gu: "is_object u g (Group gr')" by (rule still [OF A(2) B(1) u(3) _ u(2) pg]) simp
    have alive: "\<exists>bf. is_object u (plane_id gr' p) (Buffer bf)" if "p \<in> set (driver_planes b1)" for p
      using plane_ok_later [OF B(2) [OF that] B(1) A(2) u(3) _ u(2) gu, of "[]"] by (auto simp: plane_ok_def)
    have "used_planes b1 = Some (driver_planes b1)"
      using B(3) type by (simp add: used_planes_def driver_planes_def planes_fit_def)
    then have "csi_dsp_task_free_buffer (Some g) b1 env' (t, im) = Some (0, (u, im))"
      using u(1) type by (simp add: csi_dsp_task_free_buffer_def)
    moreover have "csi_dsp_task_create_buffer (di_device inst) (Some g) b env (s, im) = Some ((0, b1), (t, im))"
      using A(1) True assms(7) by (simp add: csi_dsp_task_create_buffer_def)
    ultimately show ?thesis using u(2) gu alive by auto
  qed
qed

lemma release_failed_keeps: "fd \<noteq> fd' \<Longrightarrow> count_list (release_failed fd' env k im) fd = count_list im fd"
proof (induction k)
  case (Suc k)
  have r: "count_list (remove1 fd' xs) fd = count_list xs fd" for xs using Suc.prems by (induction xs) auto
  show ?case using Suc r by (simp add: xrp_release_dma_buf_def)
qed simp

text \<open>A number that was cut to 16 bits is never \<open>DSP_INVALID_ITEM\<close> again: the test of an unset algorithm never holds.\<close>

lemma invalid_item_unseen: "(scast (a :: u16) :: u32) \<noteq> DSP_INVALID_ITEM"
proof
  assume a: "(scast a :: u32) = DSP_INVALID_ITEM"
  have "sint (scast a :: u32) = sint a" by (rule sint_up_scast) (simp add: is_up)
  moreover have "sint a < 2 ^ 15" using sint_lt [of a] by simp
  ultimately show False using a by (simp add: DSP_INVALID_ITEM_def)
qed

text \<open>
  When the import of a plane fails, the descriptor of this plane is released once for every plane
  before it, and those planes stay imported: every other descriptor is imported as often as before plus
  once for each of the planes in front of the one that failed.
\<close>

theorem failed_import_leaks:
  assumes "import_buffer b env im = Some ((False, b1), im')"
  shows "\<exists>k < unat (db_plane_count b). (pe_import (env k) = None \<or> sint (pl_fd (db_planes b ! k)) < 0) \<and>
    (\<forall>fd. fd \<noteq> pl_fd (db_planes b ! k) \<longrightarrow>
       count_list im' fd = count_list im fd + count_list (map pl_fd (take k (db_planes b))) fd)"
proof -
  obtain k ps im1 where r: "import_planes (dir_flag b) env 0 (unat (db_plane_count b)) (db_planes b) im = Some (False, k, ps, im1)"
    "im' = release_failed (pl_fd (ps ! k)) env k im1"
    using assms by (auto simp: import_buffer_def Option.bind_eq_Some_conv split: if_splits)
  note a = import_planes_adds [OF r(1)]
  have "dir_flag b AND 3 \<noteq> 0" by (simp add: dir_flag_def)
  then have k: "k < unat (db_plane_count b)" "k < length (db_planes b)" "pe_import (env k) = None \<or> sint (pl_fd (db_planes b ! k)) < 0"
    using a by auto
  have "map (\<lambda>n. pl_fd (db_planes b ! n)) [0..<k] = map pl_fd (take k (db_planes b))"
    by (rule nth_equalityI) (use k(2) in simp_all)
  then show ?thesis using a k r(2) release_failed_keeps by (intro exI [of _ k]) auto
qed

section \<open>Witnesses\<close>

definition demo_plane :: "u32 \<Rightarrow> csi_dsp_plane" where
  "demo_plane fd = \<lparr>pl_fd = fd, pl_stride = 64, pl_size = 256, pl_buf_phy = 0, pl_buf_vir = 0\<rparr>"

definition demo_buffer :: "buf_type \<Rightarrow> csi_dsp_buffer" where
  "demo_buffer ty = \<lparr>db_dir = CSI_DSP_BUFFER_IN, db_type = ty, db_plane_count = 2, db_planes = [demo_plane 5, demo_plane 6, demo_plane 0]\<rparr>"

definition demo_plane_env :: "nat \<Rightarrow> plane_env" where
  "demo_plane_env i = \<lparr>pe_buffer = good_buffer 0x4000, pe_import = (if i = 0 then Some (0x1000, 0x2000, 256) else None), pe_release = True\<rparr>"

text \<open>The driver refuses memory for the second plane.\<close>

definition demo_drv_env :: "nat \<Rightarrow> plane_env" where
  "demo_drv_env i = \<lparr>pe_buffer = (good_buffer 0x4000)\<lparr>be_calloc := i = 0\<rparr>, pe_import = None, pe_release = True\<rparr>"

definition sett_env :: buffer_env where
  "sett_env = good_buffer 0x7000"

definition demo_opers :: "request_op list" where
  "demo_opers = [Add_Plane_Buffer (demo_buffer CSI_DSP_BUF_ALLOC_DRV) demo_drv_env, Set_Property (Some [1, 2]) 2 sett_env,
     Add_Plane_Buffer (demo_buffer CSI_DSP_BUF_TYPE_DMA_BUF_IMPORT) demo_plane_env]"

theorem request_lifecycle_witness:
  "\<exists>rq s1 rq1 a1 t im1. csi_dsp_task_create_request 0 CSI_DSP_TASK_SW_TO_SW 7 True True 5 open_state = (Some rq, s1) \<and>
     request_run demo_opers (rq, (s1, [])) = Some (rq1, a1) \<and>
     csi_dsp_task_release_request (Some rq1) (\<lambda>k. demo_drv_env) a1 = Some (0, (t, im1)) \<and> host_inv open_refs t"
proof -
  obtain rq s1 where c: "csi_dsp_task_create_request (di_device open_instance) CSI_DSP_TASK_SW_TO_SW 7 True True 5 open_state = (Some rq, s1)"
    by (cases "alloc_refcounted (Group \<lparr>hg_capacity = 0, hg_records = []\<rparr>) open_state")
      (simp add: csi_dsp_task_create_request_def DSP_INVALID_ITEM_def xrp_create_buffer_group_def)
  have ok: "\<forall>oper \<in> set demo_opers. op_allowed 0x80007000 oper"
    by (auto simp: demo_opers_def phys_ok_def planes_fit_def demo_buffer_def demo_plane_env_def demo_drv_env_def sett_env_def good_buffer_def differs_def)
  have n: "length (filter adds_buffer demo_opers) \<le> 8" "length (filter (\<lambda>oper. \<not> adds_buffer oper) demo_opers) \<le> 1"
    by (simp_all add: demo_opers_def)
  show ?thesis using request_lifecycle [OF open_holds c ok n, of "[]" "\<lambda>k. demo_drv_env"] c by (auto simp: open_instance_def)
qed

text \<open>
  Where the driver gave a plane the address 0, the release of a request without settings takes the
  plane for the settings' buffer, drops the reference of the group, and the group then reads the buffer
  that was freed.
\<close>

definition zero_env :: "nat \<Rightarrow> plane_env" where
  "zero_env i = \<lparr>pe_buffer = good_buffer (- 0x80000000), pe_import = None, pe_release = True\<rparr>"

lemma zero_address_faults:
  "case csi_dsp_task_create_request 0 CSI_DSP_TASK_SW_TO_SW 7 True True 5 open_state of
     (Some rq, s1) \<Rightarrow>
       (case request_run [Add_Plane_Buffer ((demo_buffer CSI_DSP_BUF_ALLOC_DRV)\<lparr>db_plane_count := 1\<rparr>) zero_env] (rq, (s1, [])) of
          Some (rq1, a1) \<Rightarrow> csi_dsp_task_release_request (Some rq1) (\<lambda>k. demo_drv_env) a1 = None
        | None \<Rightarrow> False)
   | (None, s1) \<Rightarrow> False"
  by code_simp

theorem failed_import_leaks_witness:
  "\<exists>b1 im'. import_buffer (demo_buffer CSI_DSP_BUF_TYPE_DMA_BUF_IMPORT) demo_plane_env [] = Some ((False, b1), im') \<and>
     count_list im' 5 = 1"
proof -
  let ?b = "demo_buffer CSI_DSP_BUF_TYPE_DMA_BUF_IMPORT"
  have n: "unat (db_plane_count ?b) = Suc (Suc 0)" by (simp add: demo_buffer_def)
  obtain b1 im' where r: "import_buffer ?b demo_plane_env [] = Some ((False, b1), im')"
    unfolding import_buffer_def n by (auto simp: demo_buffer_def demo_plane_env_def demo_plane_def dir_flag_def xrp_import_dma_buf_def)
  obtain k where k: "k < 2" "pe_import (demo_plane_env k) = None \<or> sint (pl_fd (db_planes ?b ! k)) < 0"
    "\<And>fd. fd \<noteq> pl_fd (db_planes ?b ! k) \<Longrightarrow> count_list im' fd = count_list [] fd + count_list (map pl_fd (take k (db_planes ?b))) fd"
    using failed_import_leaks [OF r(1)] by (auto simp: demo_buffer_def)
  have "k = 1" using k(1,2) by (cases k) (auto simp: demo_buffer_def demo_plane_env_def demo_plane_def)
  then show ?thesis using k(3) [of 5] r(1) by (auto simp: demo_buffer_def demo_plane_def)
qed

theorem task_buffer_freed_stays_witness:
  "\<exists>s g r b1 t. csi_dsp_task_create_buffer 0 (Some g) (demo_buffer CSI_DSP_BUF_ALLOC_DRV) (\<lambda>i. demo_plane_env 0) (s, []) =
      Some ((r, b1), (t, [])) \<and>
     (if r = 0 then \<exists>u. csi_dsp_task_free_buffer (Some g) b1 (\<lambda>i. demo_plane_env 0) (t, []) = Some (0, (u, [])) \<and>
        holding open_refs {#g#} u else holding open_refs {#g#} t)"
proof -
  have h0: "holding open_refs {#} open_state" using open_holds(1) by (simp add: holding_empty)
  let ?g = "hs_next open_state"
  obtain s where c: "xrp_create_buffer_group True open_state = ((Some ?g, XRP_STATUS_SUCCESS), s)" "kept {} open_state s"
    "holding open_refs {#?g#} s" "is_object s ?g (Group \<lparr>hg_capacity = 0, hg_records = []\<rparr>)"
    using create_group_spec [OF h0, of True] by auto
  have i: "instance_ok open_refs s open_instance" by (rule instance_still [OF open_holds(2) h0 c(2,3)]) simp
  have f: "planes_fit (demo_buffer CSI_DSP_BUF_ALLOC_DRV)" "db_type (demo_buffer CSI_DSP_BUF_ALLOC_DRV) = CSI_DSP_BUF_ALLOC_DRV"
    "length (hg_records \<lparr>hg_capacity = 0, hg_records = []\<rparr>) + unat (db_plane_count (demo_buffer CSI_DSP_BUF_ALLOC_DRV)) \<le> 2 ^ 31"
    by (simp_all add: planes_fit_def demo_buffer_def)
  have di: "di_device open_instance = 0" by (simp add: open_instance_def)
  have g: "0 < count {#?g#} ?g" by simp
  show ?thesis
    using task_buffer_freed_stays [OF c(3) i c(4) g f(1,3,2), of "\<lambda>i. demo_plane_env 0" "[]" "\<lambda>i. demo_plane_env 0"]
    unfolding di by (smt (verit, best))
qed

end
