(* ===== verification/Dsp_Task.thy ===== *)
theory Dsp_Task
  imports Task_Request Host_Report
begin

text \<open>
  Instances, reporters and tasks of the application library, \<open>dsp-ps/csi_dsp_core.c\<close> and
  \<open>dsp-ps/csi_dsp_helper.c\<close>: how they are created and destroyed, the configuration of a task, its
  callback, its requests in flight, and the check of the DSP's heartbeat. The answers of the DSP and
  the outcome of allocations are arguments.
\<close>

section \<open>State\<close>

datatype fe_type = CSI_DSP_FE_TYPE_CPU | CSI_DSP_FE_TYPE_ISP | CSI_DSP_FE_TYPE_VIPRE | CSI_DSP_FE_TYPE_INVALID

datatype be_type = CSI_DSP_BE_TYPE_HOST | CSI_DSP_BE_TYPE_POST_ISP | CSI_DSP_BE_TYPE_INVALID

text \<open>The parameters of a front end; \<open>fe_union\<close> are the bytes of the union.\<close>

record fe_para =
  fe_frontend_type :: fe_type
  fe_task_id :: u32
  fe_union :: "u8 list"

text \<open>
  Those of a back end: \<open>be_num_buf\<close> is the first word of the union, \<open>be_rest\<close> the memory behind it, of
  which 124 bytes belong to the structure and the further buffers follow.
\<close>

record be_para =
  be_backend_type :: be_type
  be_task_id :: u32
  be_num_buf :: u32
  be_rest :: "u8 list"

record task_handler =
  th_task_id :: u32
  th_task_ns :: "u8 list"
  th_mode :: task_mode
  th_queue :: "nat option"
  th_fe :: fe_para
  th_be :: be_para
  th_algo :: algo_config
  th_buffers :: "nat option"
  th_report_id :: u32
  th_report_size :: u32
  th_cb :: "nat option"
  th_context :: u64
  th_private :: nat

text \<open>
  \<open>struct xrp_report\<close> with its counter and its device, and the list of a software task: the events
  in flight with their requests.
\<close>

record user_reporter =
  rp_count :: nat
  rp_device :: nat
  rp_report :: host_report

record task_event =
  te_event :: nat
  te_req :: nat

record task_manager =
  tm_events :: "task_event list"

text \<open>
  The memory of one instance: the handlers, managers and requests that are allocated, the task list of
  the instance, of which every item points to a handler, and its reporter.
\<close>

record dsp_app =
  da_host :: host_state
  da_handlers :: "nat \<rightharpoonup> task_handler"
  da_managers :: "nat \<rightharpoonup> task_manager"
  da_requests :: "nat \<rightharpoonup> sw_request"
  da_next :: nat
  da_task_list :: "nat list"
  da_report_impl :: "user_reporter option"

section \<open>Instances and reporters\<close>


definition xrp_create_ns_queue :: "nat \<Rightarrow> u8 list option \<Rightarrow> bool \<Rightarrow> host_state \<Rightarrow> ((nat option \<times> xrp_status) \<times> host_state) option" where
  "xrp_create_ns_queue d nsid = xrp_create_nsp_queue d nsid 0"







section \<open>Tasks\<close>

fun mode_code :: "task_mode \<Rightarrow> u32" where
  "mode_code CSI_DSP_TASK_SW_TO_SW = 1"
| "mode_code CSI_DSP_TASK_SW_TO_HW = 2"
| "mode_code CSI_DSP_TASK_HW_TO_SW = 4"
| "mode_code CSI_DSP_TASK_HW_TO_HW = 8"

text \<open>
  The outcome of the calls of \<open>csi_dsp_create_task\<close>, with the answer of the DSP; \<open>ct_memory\<close> is what the
  memory of the handler holds before, \<open>ct_priority\<close> the priority of the request, which is never set.
\<close>

record create_task_env =
  ct_item_malloc :: bool
  ct_task_malloc :: bool
  ct_memory :: task_handler
  ct_priority :: u32
  ct_send :: command_env
  ct_resp_at :: u64
  ct_resp_status :: int
  ct_resp_ns :: "u8 list"
  ct_resp_task_id :: u32
  ct_queue :: bool
  ct_ctx_malloc :: bool
  ct_group :: bool

definition dsp_task_init :: "task_handler \<Rightarrow> task_handler" where
  "dsp_task_init tk =
     tk\<lparr>th_algo := (th_algo tk)\<lparr>ac_algo_id := ucast DSP_INVALID_ITEM, ac_task_id := DSP_INVALID_ITEM\<rparr>,
        th_fe := (th_fe tk)\<lparr>fe_frontend_type := CSI_DSP_FE_TYPE_INVALID\<rparr>,
        th_be := (th_be tk)\<lparr>be_backend_type := CSI_DSP_BE_TYPE_INVALID\<rparr>,
        th_report_id := - 1\<rparr>"

text \<open>The queue of a software task and its manager; \<open>None\<close> inside is a jump to \<open>error\<close>.\<close>

definition create_task_queue ::
  "dsp_instance \<Rightarrow> task_mode \<Rightarrow> create_task_env \<Rightarrow> dsp_app \<Rightarrow> ((nat option \<times> nat) option \<times> dsp_app) option" where
  "create_task_queue inst mode e a =
     (if mode \<in> {CSI_DSP_TASK_SW_TO_SW, CSI_DSP_TASK_SW_TO_HW} then
        do { ((q, st), s1) \<leftarrow> xrp_create_ns_queue (di_device inst) (Some (ct_resp_ns e)) (ct_queue e) (da_host a);
             if st \<noteq> XRP_STATUS_SUCCESS then Some (None, a\<lparr>da_host := s1\<rparr>)
             else if \<not> ct_ctx_malloc e then do { qi \<leftarrow> q; s2 \<leftarrow> xrp_release_queue False qi s1; Some (None, a\<lparr>da_host := s2\<rparr>) }
             else Some (Some (q, da_next a),
               a\<lparr>da_host := s1, da_managers := (da_managers a)(da_next a \<mapsto> \<lparr>tm_events = []\<rparr>), da_next := da_next a + 1\<rparr>) }
      else Some (Some (None, th_private (ct_memory e)), a))"

definition csi_dsp_create_task :: "dsp_instance option \<Rightarrow> task_mode \<Rightarrow> create_task_env \<Rightarrow> dsp_app \<Rightarrow> (nat option \<times> dsp_app) option" where
  "csi_dsp_create_task dsp mode e a =
     (case dsp of
        None \<Rightarrow> Some (None, a)
      | Some inst \<Rightarrow>
        if \<not> ct_item_malloc e \<or> \<not> ct_task_malloc e then Some (None, a)
        else
          do { cq \<leftarrow> di_comm_queue inst;
               (r, _, s1) \<leftarrow> csi_dsp_cmd_send cq PS_CMD_TASK_ALLOC (le_bytes (mode_code mode) @ le_bytes (ct_priority e))
                 (ct_resp_at e) 24 None (ct_send e) (da_host a);
               let a1 = a\<lparr>da_host := s1\<rparr>;
               if r \<noteq> 0 \<or> ct_resp_status e \<noteq> 0 then Some (None, a1)
               else
                 do { (made, a2) \<leftarrow> create_task_queue inst mode e a1;
                      (case made of
                         None \<Rightarrow> Some (None, a2)
                       | Some (q, manager) \<Rightarrow>
                         (case xrp_create_buffer_group (ct_group e) (da_host a2) of
                            ((g, _), s3) \<Rightarrow>
                              let task = dsp_task_init ((ct_memory e)\<lparr>th_queue := q, th_private := manager, th_buffers := g,
                                    th_task_ns := ct_resp_ns e, th_task_id := ct_resp_task_id e, th_mode := mode\<rparr>) in
                              Some (Some (da_next a2),
                                a2\<lparr>da_host := s3, da_handlers := (da_handlers a2)(da_next a2 \<mapsto> task), da_next := da_next a2 + 1,
                                  da_task_list := da_task_list a2 @ [da_next a2]\<rparr>))) } })"

text \<open>A function of the reporter that the code calls without a test for one.\<close>

definition remove_report_item :: "u32 \<Rightarrow> user_reporter option \<Rightarrow> user_reporter option option" where
  "remove_report_item i rp =
     do { r \<leftarrow> rp;
          (case xrp_remove_report_item i (rp_report r) of Inl _ \<Rightarrow> None | Inr r1 \<Rightarrow> Some (Some (r\<lparr>rp_report := r1\<rparr>))) }"

definition csi_dsp_destroy_task :: "dsp_instance \<Rightarrow> nat option \<Rightarrow> command_env \<Rightarrow> u64 \<Rightarrow> dsp_app \<Rightarrow> dsp_app option" where
  "csi_dsp_destroy_task inst task_ctx e resp_at a =
     (case task_ctx of
        None \<Rightarrow> Some a
      | Some i \<Rightarrow>
          do { tk \<leftarrow> da_handlers a i;
               s1 \<leftarrow> (case th_queue tk of None \<Rightarrow> Some (da_host a) | Some q \<Rightarrow> xrp_release_queue False q (da_host a));
               rp \<leftarrow> (if 0 \<le>s th_report_id tk then remove_report_item (th_report_id tk) (da_report_impl a)
                      else Some (da_report_impl a));
               s2 \<leftarrow> (case th_buffers tk of None \<Rightarrow> Some s1 | Some g \<Rightarrow> xrp_release_buffer_group g s1);
               cq \<leftarrow> di_comm_queue inst;
               (_, _, s3) \<leftarrow> csi_dsp_cmd_send cq PS_CMD_TASK_FREE (le_bytes (th_task_id tk) @ th_task_ns tk) resp_at 4 None e s2;
               Some (a\<lparr>da_host := s3, da_report_impl := rp, da_handlers := (da_handlers a)(i := None)\<rparr>) })"

section \<open>Configuration\<close>

fun fe_code :: "fe_type \<Rightarrow> u32" where
  "fe_code CSI_DSP_FE_TYPE_CPU = 0"
| "fe_code CSI_DSP_FE_TYPE_ISP = 1"
| "fe_code CSI_DSP_FE_TYPE_VIPRE = 2"
| "fe_code CSI_DSP_FE_TYPE_INVALID = 3"


definition fe_bytes :: "fe_para \<Rightarrow> u8 list" where
  "fe_bytes c = le_bytes (fe_code (fe_frontend_type c)) @ le_bytes (fe_task_id c) @ fe_union c"




text \<open>A command on behalf of a task whose answer is one status.\<close>

definition task_command ::
  "dsp_instance \<Rightarrow> ps_cmd \<Rightarrow> u8 list \<Rightarrow> command_env \<Rightarrow> u64 \<Rightarrow> int \<Rightarrow> dsp_app \<Rightarrow> (bool \<times> dsp_app) option" where
  "task_command inst cmd payload e resp_at resp a =
     do { cq \<leftarrow> di_comm_queue inst;
          (r, _, s) \<leftarrow> csi_dsp_cmd_send cq cmd payload resp_at 4 None e (da_host a);
          Some (r = 0 \<and> resp = 0, a\<lparr>da_host := s\<rparr>) }"

definition set_handler :: "nat \<Rightarrow> task_handler \<Rightarrow> dsp_app \<Rightarrow> dsp_app" where
  "set_handler i tk a = a\<lparr>da_handlers := (da_handlers a)(i \<mapsto> tk)\<rparr>"

definition csi_dsp_task_config_frontend ::
  "dsp_instance \<Rightarrow> nat option \<Rightarrow> fe_para \<Rightarrow> command_env \<Rightarrow> u64 \<Rightarrow> int \<Rightarrow> dsp_app \<Rightarrow> ((int \<times> fe_para) \<times> dsp_app) option" where
  "csi_dsp_task_config_frontend inst task_ctx c e resp_at resp a =
     (if task_ctx = None \<or> di_comm_queue inst = None then Some ((- 1, c), a)
      else
        do { i \<leftarrow> task_ctx;
             tk \<leftarrow> da_handlers a i;
             let c1 = c\<lparr>fe_task_id := th_task_id tk\<rparr>;
             (ok, a1) \<leftarrow> task_command inst PS_CMD_FE_CONFIG (fe_bytes c1) e resp_at resp a;
             if ok then Some ((0, c1), set_handler i (tk\<lparr>th_fe := c1\<rparr>) a1) else Some ((- 1, c1), a1) })"

definition csi_dsp_task_get_frontend :: "dsp_instance \<Rightarrow> nat option \<Rightarrow> fe_para option \<Rightarrow> dsp_app \<Rightarrow> (int \<times> fe_para option) option" where
  "csi_dsp_task_get_frontend inst task_ctx c a =
     (if c = None \<or> task_ctx = None \<or> di_comm_queue inst = None then Some (- 1, c)
      else do { i \<leftarrow> task_ctx; tk \<leftarrow> da_handlers a i; Some (0, Some (th_fe tk)) })"



definition csi_dsp_task_get_backend :: "dsp_instance \<Rightarrow> nat option \<Rightarrow> be_para \<Rightarrow> dsp_app \<Rightarrow> (int \<times> be_para) option" where
  "csi_dsp_task_get_backend inst task_ctx c a =
     (if task_ctx = None \<or> di_comm_queue inst = None then Some (- 1, c)
      else do { i \<leftarrow> task_ctx; tk \<leftarrow> da_handlers a i; Some (0, th_be tk) })"



definition csi_dsp_test_config ::
  "dsp_instance option \<Rightarrow> u8 list \<Rightarrow> u32 \<Rightarrow> u64 \<Rightarrow> command_env \<Rightarrow> dsp_app \<Rightarrow> (int \<times> dsp_app) option" where
  "csi_dsp_test_config dsp para result_buf_size buf e a =
     (case dsp of
        None \<Rightarrow> Some (- 1, a)
      | Some inst \<Rightarrow>
          if buf = 0 \<or> result_buf_size = 0 then Some (- 1, a)
          else
            do { cq \<leftarrow> di_comm_queue inst;
                 (r, _, s) \<leftarrow> csi_dsp_cmd_send cq PS_CMD_DSP_IP_TEST (para @ le_bytes result_buf_size) buf
                   (scast result_buf_size) None e (da_host a);
                 Some (if r \<noteq> 0 then - 1 else 0, a\<lparr>da_host := s\<rparr>) })"

section \<open>Callbacks\<close>

datatype cmd_type = CMD_SETUP | CMD_RELEASE | CMD_INVALID

fun cmd_type_code :: "cmd_type \<Rightarrow> u32" where
  "cmd_type_code CMD_SETUP = 0"
| "cmd_type_code CMD_RELEASE = 1"
| "cmd_type_code CMD_INVALID = 2"

text \<open>\<open>pad\<close> is the padding in front of the address.\<close>

definition report_config_msg :: "cmd_type \<Rightarrow> task_handler \<Rightarrow> u8 list \<Rightarrow> u8 list" where
  "report_config_msg flag tk pad =
     le_bytes (cmd_type_code flag) @ le_bytes (th_report_id tk) @ th_task_ns tk @ le_bytes (th_report_size tk) @ pad @
     le_bytes 0xdeadbeef @ le_bytes 0"

definition csi_dsp_config_report_item_to_dsp ::
  "dsp_instance \<Rightarrow> nat \<Rightarrow> cmd_type \<Rightarrow> command_env \<Rightarrow> u64 \<Rightarrow> int \<Rightarrow> dsp_app \<Rightarrow> (bool \<times> dsp_app) option" where
  "csi_dsp_config_report_item_to_dsp inst i flag e resp_at resp a =
     do { tk \<leftarrow> da_handlers a i;
          if th_report_id tk <s 0 \<or> di_comm_queue inst = None then Some (False, a)
          else task_command inst PS_CMD_REPORT_CONFIG (report_config_msg flag tk [0, 0, 0, 0]) e resp_at resp a }"

definition csi_dsp_task_register_cb ::
  "dsp_instance \<Rightarrow> nat option \<Rightarrow> nat option \<Rightarrow> u64 \<Rightarrow> u64 \<Rightarrow> malloc_fn \<Rightarrow> bool \<Rightarrow> command_env \<Rightarrow> u64 \<Rightarrow> int \<Rightarrow> dsp_app \<Rightarrow>
    (int \<times> dsp_app) option" where
  "csi_dsp_task_register_cb inst task_ctx cb ctx data_size malloc node_ok e resp_at resp a =
     do { i \<leftarrow> task_ctx;
          tk \<leftarrow> da_handlers a i;
          let tk1 = tk\<lparr>th_report_id := th_task_id tk\<rparr>;
          if th_report_id tk1 <s 0 then Some (- 1, set_handler i tk1 a)
          else
            do { let tk2 = tk1\<lparr>th_report_size := ucast data_size\<rparr>;
                 rp \<leftarrow> da_report_impl a;
                 (case xrp_add_report_item_with_id malloc node_ok cb (th_report_id tk2) ctx data_size (rp_report rp) of
                    (r1, ret) \<Rightarrow>
                      let a1 = (set_handler i tk2 a)\<lparr>da_report_impl := Some (rp\<lparr>rp_report := r1\<rparr>)\<rparr> in
                      if ret <s 0 then Some (- 1, a1)
                      else
                        do { (ok, a2) \<leftarrow> csi_dsp_config_report_item_to_dsp inst i CMD_SETUP e resp_at resp a1;
                             if \<not> ok then Some (- 1, a2)
                             else Some (0, set_handler i (tk2\<lparr>th_cb := cb, th_context := ctx\<rparr>) a2) }) } }"


section \<open>Heartbeat\<close>

text \<open>
  The handler of the timer: when the DSP does not answer, the callbacks of the hardware tasks are
  called with the error; it gives the calls. Every item of the task list is read.
\<close>

fun heartbeat_tasks :: "dsp_app \<Rightarrow> nat list \<Rightarrow> (nat \<times> u64) list option" where
  "heartbeat_tasks a [] = Some []"
| "heartbeat_tasks a (i # is) =
    do { tk \<leftarrow> da_handlers a i;
         calls \<leftarrow> heartbeat_tasks a is;
         Some (if mode_code (th_mode tk) AND 12 \<noteq> 0 then
                 (case th_cb tk of None \<Rightarrow> calls | Some f \<Rightarrow> (f, th_context tk) # calls)
               else calls) }"

definition csi_dsp_heartbeak_polling :: "dsp_instance option \<Rightarrow> command_env \<Rightarrow> dsp_app \<Rightarrow> ((nat \<times> u64) list \<times> dsp_app) option" where
  "csi_dsp_heartbeak_polling inst e a =
     (case inst of
        None \<Rightarrow> Some ([], a)
      | Some dsp \<Rightarrow>
          do { cq \<leftarrow> di_comm_queue dsp;
               (r, _, s) \<leftarrow> csi_dsp_cmd_send cq PS_CMD_HEART_BEAT_REQ [] 0 0 None e (da_host a);
               let a1 = a\<lparr>da_host := s\<rparr>;
               if r \<noteq> 0 then do { calls \<leftarrow> heartbeat_tasks a1 (da_task_list a1); Some (calls, a1) } else Some ([], a1) })"

section \<open>Requests in flight\<close>

text \<open>
  \<open>layout\<close> gives the memory of a request; \<open>i\<close> is its task. Flushing imported buffers changes nothing here.
\<close>

definition csi_dsp_request_enqueue ::
  "(sw_request \<Rightarrow> u8 list) \<Rightarrow> nat option \<Rightarrow> nat \<Rightarrow> bool \<Rightarrow> bool \<Rightarrow> bool \<Rightarrow> u64 \<Rightarrow> dsp_app \<Rightarrow> (int \<times> dsp_app) option" where
  "csi_dsp_request_enqueue layout req i item_malloc malloc_ok calloc_ok resp_at a =
     (case req of
        None \<Rightarrow> Some (- 1, a)
      | Some r \<Rightarrow>
          do { rq \<leftarrow> da_requests a r;
               tk \<leftarrow> da_handlers a i;
               if \<not> item_malloc then Some (- 1, a)
               else
                 do { q \<leftarrow> th_queue tk;
                      ((evt, st), s) \<leftarrow> xrp_enqueue_command q (layout rq) resp_at 4 (sr_group rq) True malloc_ok calloc_ok (da_host a);
                      if st \<noteq> XRP_STATUS_SUCCESS then Some (- 1, a\<lparr>da_host := s\<rparr>)
                      else
                        do { ev \<leftarrow> evt;
                             mgr \<leftarrow> da_managers a (th_private tk);
                             Some (0, a\<lparr>da_host := s, da_requests := (da_requests a)(r \<mapsto> rq\<lparr>sr_status := CSI_DSP_SW_REQ_RUNNING\<rparr>),
                               da_managers := (da_managers a)(th_private tk \<mapsto>
                                 mgr\<lparr>tm_events := tm_events mgr @ [\<lparr>te_event = ev, te_req = r\<rparr>]\<rparr>)\<rparr>) } } })"

text \<open>
  \<open>woken\<close> is the number \<open>xrp_wait_any\<close> returns, \<open>resp\<close> the status the DSP stored in the item; the
  status of the event is not looked at.
\<close>

definition csi_dsp_request_dequeue :: "nat \<Rightarrow> nat \<Rightarrow> int \<Rightarrow> dsp_app \<Rightarrow> (nat option \<times> dsp_app) option" where
  "csi_dsp_request_dequeue i woken resp a =
     do { tk \<leftarrow> da_handlers a i;
          mgr \<leftarrow> da_managers a (th_private tk);
          let evts = map te_event (tm_events mgr);
          if length evts \<le> woken then Some (None, a)
          else
            do { item \<leftarrow> find (\<lambda>it. te_event it = evts ! woken) (tm_events mgr);
                 s \<leftarrow> xrp_release_event False (te_event item) (da_host a);
                 rq \<leftarrow> da_requests a (te_req item);
                 Some (Some (te_req item),
                   a\<lparr>da_host := s, da_managers := (da_managers a)(th_private tk \<mapsto> mgr\<lparr>tm_events := remove1 item (tm_events mgr)\<rparr>),
                     da_requests := (da_requests a)(te_req item \<mapsto>
                       rq\<lparr>sr_status := (if resp = 0 then CSI_DSP_SW_REQ_DONE else CSI_DSP_SW_REQ_FAIL)\<rparr>)\<rparr>) } }"

section \<open>References of a task\<close>

lemma create_queue_spec:
  assumes "holding h M s" "is_object s d (Device fd)" "0 < h d + count M d"
  shows "\<exists>r t. xrp_create_ns_queue d nsid ok s = Some (r, t) \<and> kept {} s t \<and>
    (if ok then r = (Some (hs_next s), XRP_STATUS_SUCCESS) \<and> holding h (add_mset (hs_next s) M) t \<and>
        (\<exists>q. is_object t (hs_next s) (Queue q))
     else r = (None, XRP_STATUS_FAILURE) \<and> holding h M t)"
proof -
  let ?h = "\<lambda>k. h k + count M k"
  have inv: "host_inv ?h s" using assms(1) by (simp add: holding_def)
  have "holds_ref (?h, s) d Device_Kind" using is_object_holds [OF assms(2), of ?h] assms(3) by simp
  from create_queue_ok [OF inv this, of nsid 0 ok] obtain x where
    x: "xrp_create_nsp_queue d nsid 0 ok s = Some x" "host_inv (fst (got ?h x)) (snd (got ?h x))" by blast
  obtain s1 where s1: "retain_refcounted d s = Some s1" using x(1) by (auto simp: xrp_create_nsp_queue_def Option.bind_eq_Some_conv)
  have n: "hs_next s1 = hs_next s" using s1 by (auto simp: retain_refcounted_def Option.bind_eq_Some_conv)
  show ?thesis
  proof (cases ok)
    case False
    then obtain t where "x = ((None, XRP_STATUS_FAILURE), t)" "xrp_release_device d s1 = Some t"
      using x(1) s1 by (auto simp: xrp_create_nsp_queue_def Option.bind_eq_Some_conv)
    then show ?thesis
      using x False kept_trans0 [OF kept_retain [OF s1] kept_release_device, of d t]
      by (simp add: xrp_create_ns_queue_def got_def holding_def)
  next
    case True
    let ?b = "Queue \<lparr>hq_device = d, hq_nsid = map_option (take 16) nsid, hq_priority = 0\<rparr>"
    let ?t = "snd (alloc_refcounted ?b s1)"
    have e: "x = ((Some (hs_next s), XRP_STATUS_SUCCESS), ?t)"
      using x(1) s1 True n by (simp add: xrp_create_nsp_queue_def alloc_refcounted_def)
    have o: "is_object ?t (hs_next s) ?b" by (simp add: is_object_def alloc_refcounted_def n)
    have "holding h (add_mset (hs_next s) M) ?t"
      using x(2) new_object [of _ ?t h M s] unfolding e by (simp add: got_def)
    then show ?thesis
      using x(1) o True kept_trans0 [OF kept_retain [OF s1] kept_alloc, of ?b] unfolding e
      by (auto simp: xrp_create_ns_queue_def)
  qed
qed

lemma release_queue_spec:
  assumes "holding h (add_mset i M) s" "is_object s i (Queue q)"
  shows "\<exists>t. xrp_release_queue False i s = Some t \<and> holding h M t \<and> kept {} s t"
  using release_spec [OF assms(1)] release_as(4) [OF assms(2)] by simp



definition task_refs :: "task_handler \<Rightarrow> nat multiset" where
  "task_refs tk = (case th_queue tk of None \<Rightarrow> {#} | Some q \<Rightarrow> {#q#}) + (case th_buffers tk of None \<Rightarrow> {#} | Some g \<Rightarrow> {#g#})"

definition task_objects :: "host_state \<Rightarrow> task_handler \<Rightarrow> bool" where
  "task_objects s tk \<longleftrightarrow> (\<forall>q. th_queue tk = Some q \<longrightarrow> (\<exists>b. is_object s q (Queue b))) \<and>
     (\<forall>g. th_buffers tk = Some g \<longrightarrow> (\<exists>b. is_object s g (Group b)))"

definition registered :: "u32 \<Rightarrow> user_reporter option \<Rightarrow> bool" where
  "registered i rp \<longleftrightarrow> (case rp of None \<Rightarrow> False | Some r \<Rightarrow> xrp_get_report_entry (rl_items (hr_list (rp_report r))) i \<noteq> None)"

text \<open>
  A task at \<open>i\<close> between two calls: its handler is allocated and holds its queue and its group; \<open>P\<close> is
  what the number of the report that the handler keeps has to do with the reporter.
\<close>

type_synonym report_link = "u32 \<Rightarrow> user_reporter option \<Rightarrow> bool"

definition task_state :: "(nat \<Rightarrow> nat) \<Rightarrow> dsp_instance \<Rightarrow> nat \<Rightarrow> report_link \<Rightarrow> dsp_app \<Rightarrow> bool" where
  "task_state h inst i P a \<longleftrightarrow> instance_ok h (da_host a) inst \<and> di_comm_queue inst \<noteq> None \<and>
     (\<exists>tk. da_handlers a i = Some tk \<and> holding h (task_refs tk) (da_host a) \<and> task_objects (da_host a) tk \<and>
        P (th_report_id tk) (da_report_impl a))"

text \<open>
  Two such relations: that the reporter has its one reference and its buffer of \<open>B\<close> bytes, and that in
  addition a number that the handler keeps is registered.
\<close>

definition reporter_kept :: "u32 option \<Rightarrow> report_link" where
  "reporter_kept B i rp \<longleftrightarrow> map_option (\<lambda>r. hr_buf_size (rp_report r)) rp = B \<and> (\<forall>r. rp = Some r \<longrightarrow> rp_count r = 1)"

definition report_kept :: "u32 option \<Rightarrow> report_link" where
  "report_kept B i rp \<longleftrightarrow> map_option (\<lambda>r. hr_buf_size (rp_report r)) rp = B \<and> (i <s 0 \<or> registered i rp)"

lemma task_objects_still:
  assumes "task_objects s tk" "holding h M s" "kept {} s t" "holding h (task_refs tk) t"
  shows "task_objects t tk"
proof -
  have q: "\<exists>b. is_object t q (Queue b)" if q: "th_queue tk = Some q" for q
  proof -
    obtain b where b: "is_object s q (Queue b)" using assms(1) q unfolding task_objects_def by blast
    have "is_object t q (Queue b)" by (rule still [OF b assms(2,3) _ assms(4)]) (simp_all add: task_refs_def q)
    then show ?thesis by blast
  qed
  have g: "\<exists>b. is_object t g (Group b)" if g: "th_buffers tk = Some g" for g
  proof -
    obtain b where b: "is_object s g (Group b)" using assms(1) g unfolding task_objects_def by blast
    have "is_object t g (Group b)" by (rule still [OF b assms(2,3) _ assms(4)]) (simp_all add: task_refs_def g)
    then show ?thesis by blast
  qed
  show ?thesis using q g unfolding task_objects_def by blast
qed

lemma task_command_spec:
  assumes "holding h M (da_host a)" "instance_ok h (da_host a) inst" "di_comm_queue inst \<noteq> None"
  shows "\<exists>t. task_command inst cmd p e at resp a = Some (sent e \<and> resp = 0, a\<lparr>da_host := t\<rparr>) \<and> holding h M t \<and>
    kept {} (da_host a) t"
proof -
  obtain q qb where q: "di_comm_queue inst = Some q" "is_object (da_host a) q (Queue qb)" "0 < h q + count M q"
    using assms(2,3) by (auto simp: instance_ok_def)
  obtain args t where "csi_dsp_cmd_send q cmd p at 4 None e (da_host a) = Some (if sent e then 0 else - 1, args, t)"
    "holding h M t" "kept {} (da_host a) t"
    using cmd_send_spec [OF assms(1) q(2,3), of None cmd p at 4 e] by auto
  then show ?thesis using q(1) by (intro exI [of _ t]) (simp add: task_command_def)
qed

lemma task_state_host:
  assumes "task_state h inst i B a" "da_handlers a i = Some tk" "holding h (task_refs tk) t" "kept {} (da_host a) t"
  shows "task_state h inst i B (a\<lparr>da_host := t\<rparr>)"
proof -
  have s: "holding h (task_refs tk) (da_host a)" "task_objects (da_host a) tk" "instance_ok h (da_host a) inst"
    using assms(1,2) by (auto simp: task_state_def)
  have "instance_ok h t inst" by (rule instance_still [OF s(3,1) assms(4,3)]) simp
  moreover have "task_objects t tk" by (rule task_objects_still [OF s(2,1) assms(4,3)])
  ultimately show ?thesis using assms by (auto simp: task_state_def)
qed



text \<open>A command of a task whose handler may be changed afterwards.\<close>

lemma task_command_state:
  assumes "task_state h inst i B a" "da_handlers a i = Some tk"
  shows "\<exists>t. task_command inst cmd p e at resp a = Some (sent e \<and> resp = 0, a\<lparr>da_host := t\<rparr>) \<and>
    task_state h inst i B (a\<lparr>da_host := t\<rparr>)"
proof -
  have s: "holding h (task_refs tk) (da_host a)" "instance_ok h (da_host a) inst" "di_comm_queue inst \<noteq> None"
    using assms by (auto simp: task_state_def)
  show ?thesis using task_command_spec [OF s, of cmd p e at resp] task_state_host [OF assms] by blast
qed





lemma remove_item_spec:
  "remove_report_item i rp = None \<longleftrightarrow> \<not> registered i rp"
  "remove_report_item i rp = Some rp' \<Longrightarrow> reporter_kept B i rp \<Longrightarrow> reporter_kept B j rp'"
  "remove_report_item i rp = Some rp' \<Longrightarrow> report_kept B i rp \<Longrightarrow> report_kept B (- 1) rp'"
  by (cases rp; auto simp: registered_def remove_report_item_def xrp_remove_report_item_def reporter_kept_def report_kept_def
      word_sless_alt split: option.splits)+

section \<open>Operations on a task\<close>

datatype task_op =
  Config_Frontend fe_para command_env u64 int
| Config_Backend be_para command_env u64 int
| Update_Backend be_para command_env u64 int
| Start_Task "u8 list" command_env u64 int
| Stop_Task "u8 list" command_env u64
| Register_Cb "nat option" u64 u64 malloc_fn bool command_env u64 int
| Unregister_Cb command_env u64 int



text \<open>
  When an operation faults: the memory of a back end ends before the buffers it counts, a callback is
  registered without a reporter, or the handler keeps the number of a report that is not registered and
  the DSP accepts that it is removed.
\<close>

definition stale_report :: "nat \<Rightarrow> dsp_app \<Rightarrow> bool" where
  "stale_report i a \<longleftrightarrow> (case da_handlers a i of None \<Rightarrow> False
     | Some tk \<Rightarrow> \<not> th_report_id tk <s 0 \<and> \<not> registered (th_report_id tk) (da_report_impl a))"




text \<open>A relation of a handler's report to the reporter that an operation keeps.\<close>

definition link_kept :: "report_link \<Rightarrow> task_op \<Rightarrow> bool" where
  "link_kept P oper \<longleftrightarrow> (\<forall>i j rp. P i rp \<longrightarrow> j <s 0 \<longrightarrow> P j rp) \<and>
     (\<forall>i rp rp'. P i rp \<longrightarrow> remove_report_item i rp = Some rp' \<longrightarrow> P (- 1) rp') \<and>
     (case oper of Register_Cb cb ctx n malloc node_ok e at resp \<Rightarrow>
        \<forall>i j rp r1 ret. P j (Some rp) \<longrightarrow> \<not> i <s 0 \<longrightarrow>
          xrp_add_report_item_with_id malloc node_ok cb i ctx n (rp_report rp) = (r1, ret) \<longrightarrow> P i (Some (rp\<lparr>rp_report := r1\<rparr>))
      | _ \<Rightarrow> True)"

lemma link_kept_neg: "link_kept P oper \<Longrightarrow> P i rp \<Longrightarrow> j <s 0 \<Longrightarrow> P j rp"
  unfolding link_kept_def by blast

lemma link_kept_remove: "link_kept P oper \<Longrightarrow> P i rp \<Longrightarrow> remove_report_item i rp = Some rp' \<Longrightarrow> P (- 1) rp'"
  unfolding link_kept_def by blast




text \<open>What every operation starts from, and how it ends when it changes the handler.\<close>

lemma task_stateD:
  assumes "task_state h inst i B a"
  obtains tk q where "da_handlers a i = Some tk" "di_comm_queue inst = Some q" "B (th_report_id tk) (da_report_impl a)"
  using assms unfolding task_state_def by blast












section \<open>Creation and destruction\<close>

text \<open>When a task comes into being: nothing fails, and the queue and its manager are needed by software tasks only.\<close>

definition queue_made :: "task_mode \<Rightarrow> create_task_env \<Rightarrow> bool" where
  "queue_made mode e \<longleftrightarrow> mode \<in> {CSI_DSP_TASK_SW_TO_SW, CSI_DSP_TASK_SW_TO_HW} \<longrightarrow> ct_queue e \<and> ct_ctx_malloc e"

definition task_made :: "task_mode \<Rightarrow> create_task_env \<Rightarrow> bool" where
  "task_made mode e \<longleftrightarrow> ct_item_malloc e \<and> ct_task_malloc e \<and> sent (ct_send e) \<and> ct_resp_status e = 0 \<and> queue_made mode e"

text \<open>The queue of a task: the references it leaves and that nothing else of the application changes.\<close>

lemma create_task_queue_spec:
  assumes "holding h {#} (da_host a)" "instance_ok h (da_host a) inst"
  shows "\<exists>r b. create_task_queue inst mode e a = Some (r, b) \<and> kept {} (da_host a) (da_host b) \<and>
    da_handlers b = da_handlers a \<and> da_task_list b = da_task_list a \<and> da_report_impl b = da_report_impl a \<and> da_next a \<le> da_next b \<and>
    (r \<noteq> None \<longleftrightarrow> queue_made mode e) \<and>
    (case r of None \<Rightarrow> holding h {#} (da_host b)
     | Some (None, m) \<Rightarrow> holding h {#} (da_host b)
     | Some (Some q, m) \<Rightarrow> holding h {#q#} (da_host b) \<and> (\<exists>qb. is_object (da_host b) q (Queue qb)))"
proof (cases "mode \<in> {CSI_DSP_TASK_SW_TO_SW, CSI_DSP_TASK_SW_TO_HW}")
  case False
  then show ?thesis using assms(1)
    by (intro exI [of _ "Some (None, th_private (ct_memory e))"] exI [of _ a]) (auto simp: create_task_queue_def kept_def queue_made_def)
next
  case True
  obtain fd where d: "is_object (da_host a) (di_device inst) (Device fd)" "0 < h (di_device inst) + count {#} (di_device inst)"
    using assms(2) by (auto simp: instance_ok_def)
  obtain r t where t: "xrp_create_ns_queue (di_device inst) (Some (ct_resp_ns e)) (ct_queue e) (da_host a) = Some (r, t)"
    "kept {} (da_host a) t"
    "if ct_queue e then r = (Some (hs_next (da_host a)), XRP_STATUS_SUCCESS) \<and> holding h {#hs_next (da_host a)#} t \<and>
        (\<exists>q. is_object t (hs_next (da_host a)) (Queue q))
     else r = (None, XRP_STATUS_FAILURE) \<and> holding h {#} t"
    using create_queue_spec [OF assms(1) d, of "Some (ct_resp_ns e)" "ct_queue e"] by auto
  show ?thesis
  proof (cases "ct_queue e")
    case False
    then show ?thesis using t True
      by (intro exI [of _ None] exI [of _ "a\<lparr>da_host := t\<rparr>"]) (simp add: create_task_queue_def queue_made_def)
  next
    case ok: True
    let ?q = "hs_next (da_host a)"
    obtain qb where q: "r = (Some ?q, XRP_STATUS_SUCCESS)" "holding h {#?q#} t" "is_object t ?q (Queue qb)"
      using t(3) ok by auto
    obtain u where u: "xrp_release_queue False ?q t = Some u" "holding h {#} u" "kept {} t u"
      using release_queue_spec [OF q(2,3)] by blast
    show ?thesis
    proof (cases "ct_ctx_malloc e")
      case False
      then show ?thesis using t(1) q(1) u True kept_trans0 [OF t(2) u(3)]
        by (intro exI [of _ None] exI [of _ "a\<lparr>da_host := u\<rparr>"]) (simp add: create_task_queue_def queue_made_def)
    next
      case ctx: True
      show ?thesis using t(1,2) q True ctx ok by (auto simp: create_task_queue_def queue_made_def)
    qed
  qed
qed

lemma create_task_spec:
  assumes "host_inv h (da_host a)" "instance_ok h (da_host a) inst" "di_comm_queue inst \<noteq> None" "P (- 1) (da_report_impl a)"
  shows "\<exists>r b. csi_dsp_create_task (Some inst) mode e a = Some (r, b) \<and> (r \<noteq> None \<longleftrightarrow> task_made mode e) \<and>
    (case r of
       None \<Rightarrow> host_inv h (da_host b) \<and> instance_ok h (da_host b) inst \<and> da_handlers b = da_handlers a \<and> da_task_list b = da_task_list a
     | Some i \<Rightarrow> task_state h inst i P b \<and> da_next a \<le> i \<and> da_task_list b = da_task_list a @ [i] \<and>
         (\<forall>j. j \<noteq> i \<longrightarrow> da_handlers b j = da_handlers a j) \<and>
         (case da_handlers b i of None \<Rightarrow> False | Some tk \<Rightarrow> th_buffers tk \<noteq> None \<longleftrightarrow> ct_group e))"
proof -
  have h0: "holding h {#} (da_host a)" using assms(1) by (simp add: holding_empty)
  have rest: "host_inv h t \<and> instance_ok h t inst" if "holding h {#} t" "kept {} (da_host a) t" for t
    using that instance_still [OF assms(2) h0 that(2,1)] by (simp add: holding_empty)
  show ?thesis
  proof (cases "ct_item_malloc e \<and> ct_task_malloc e")
    case False
    then show ?thesis using assms(1,2) by (intro exI [of _ None] exI [of _ a]) (auto simp: csi_dsp_create_task_def task_made_def)
  next
    case mem: True
    obtain cq qb where cq: "di_comm_queue inst = Some cq" "is_object (da_host a) cq (Queue qb)" "0 < h cq + count {#} cq"
      using assms(2,3) by (auto simp: instance_ok_def)
    obtain args s1 where s1: "csi_dsp_cmd_send cq PS_CMD_TASK_ALLOC (le_bytes (mode_code mode) @ le_bytes (ct_priority e))
        (ct_resp_at e) 24 None (ct_send e) (da_host a) = Some (if sent (ct_send e) then 0 else - 1, args, s1)"
      "holding h {#} s1" "kept {} (da_host a) s1"
      using cmd_send_spec [OF h0 cq(2,3), of None PS_CMD_TASK_ALLOC "le_bytes (mode_code mode) @ le_bytes (ct_priority e)"
          "ct_resp_at e" 24 "ct_send e"] by auto
    note start = csi_dsp_create_task_def cq(1) mem s1(1)
    show ?thesis
    proof (cases "sent (ct_send e) \<and> ct_resp_status e = 0")
      case False
      then show ?thesis using rest [OF s1(2,3)]
        by (intro exI [of _ None] exI [of _ "a\<lparr>da_host := s1\<rparr>"]) (auto simp: start task_made_def)
    next
      case answer: True
      let ?a1 = "a\<lparr>da_host := s1\<rparr>"
      have i1: "instance_ok h s1 inst" using rest [OF s1(2,3)] by simp
      obtain made a2 where a2: "create_task_queue inst mode e ?a1 = Some (made, a2)" "kept {} s1 (da_host a2)"
        "da_handlers a2 = da_handlers a" "da_task_list a2 = da_task_list a" "da_report_impl a2 = da_report_impl a" "da_next a \<le> da_next a2"
        "made \<noteq> None \<longleftrightarrow> queue_made mode e"
        and m: "case made of None \<Rightarrow> holding h {#} (da_host a2)
           | Some (None, m) \<Rightarrow> holding h {#} (da_host a2)
           | Some (Some q, m) \<Rightarrow> holding h {#q#} (da_host a2) \<and> (\<exists>qb. is_object (da_host a2) q (Queue qb))"
        using create_task_queue_spec [of h ?a1 inst mode e] s1(2) i1 by auto
      have k2: "kept {} (da_host a) (da_host a2)" by (rule kept_trans0 [OF s1(3) a2(2)])
      note start = start answer a2(1)
      show ?thesis
      proof (cases made)
        case None
        then show ?thesis using rest [OF _ k2] m a2(3,4,7) by (intro exI [of _ None] exI [of _ a2]) (simp add: start task_made_def)
      next
        case (Some qm)
        obtain q n where qm: "qm = (q, n)" by (metis surj_pair)
        let ?Q = "case q of None \<Rightarrow> {#} | Some q \<Rightarrow> {#q#}"
        have hq: "holding h ?Q (da_host a2)" and oq: "\<And>x. q = Some x \<Longrightarrow> \<exists>qb. is_object (da_host a2) x (Queue qb)"
          using m Some qm by (auto split: option.splits)
        obtain r t where g: "xrp_create_buffer_group (ct_group e) (da_host a2) = (r, t)" "kept {} (da_host a2) t"
          "if ct_group e then r = (Some (hs_next (da_host a2)), XRP_STATUS_SUCCESS) \<and> holding h (add_mset (hs_next (da_host a2)) ?Q) t \<and>
              is_object t (hs_next (da_host a2)) (Group \<lparr>hg_capacity = 0, hg_records = []\<rparr>)
           else r = (None, XRP_STATUS_FAILURE) \<and> t = da_host a2"
          using create_group_spec [OF hq, of "ct_group e"] by auto
        let ?i = "da_next a2"
        let ?tk = "dsp_task_init ((ct_memory e)\<lparr>th_queue := q, th_private := n, th_buffers := fst r, th_task_ns := ct_resp_ns e,
            th_task_id := ct_resp_task_id e, th_mode := mode\<rparr>)"
        let ?b = "a2\<lparr>da_host := t, da_handlers := (da_handlers a2)(?i \<mapsto> ?tk), da_next := ?i + 1, da_task_list := da_task_list a2 @ [?i]\<rparr>"
        have run: "csi_dsp_create_task (Some inst) mode e a = Some (Some ?i, ?b)"
          by (cases r) (simp add: start Some qm g(1) Let_def)
        have refs: "task_refs ?tk = ?Q + (case fst r of None \<Rightarrow> {#} | Some g \<Rightarrow> {#g#})"
          by (simp add: task_refs_def dsp_task_init_def)
        have hold: "holding h (task_refs ?tk) t" using g(3) hq refs by (auto split: if_splits)
        have "is_object t x (Queue qb)" if "q = Some x" "is_object (da_host a2) x (Queue qb)" for x qb
          by (rule still [OF that(2) hq g(2) _ hold]) (use that(1) refs in simp_all)
        then have obj: "task_objects t ?tk"
          using oq g(3) by (fastforce simp: task_objects_def dsp_task_init_def split: if_splits)
        have "instance_ok h t inst" by (rule instance_still [OF assms(2) h0 kept_trans0 [OF k2 g(2)] hold]) simp
        moreover have "th_report_id ?tk = - 1" by (simp add: dsp_task_init_def)
        ultimately have "task_state h inst ?i P ?b"
          using hold obj assms(3,4) a2(5) unfolding task_state_def by simp
        moreover have "th_buffers ?tk \<noteq> None \<longleftrightarrow> ct_group e" using g(3) by (cases "ct_group e") (auto simp: dsp_task_init_def)
        ultimately show ?thesis using run a2(3,4,6,7) mem answer Some by (intro exI [of _ "Some ?i"] exI [of _ ?b]) (simp add: task_made_def)
      qed
    qed
  qed
qed

lemma destroy_task_spec:
  assumes "task_state h inst i P a"
  shows "if stale_report i a then csi_dsp_destroy_task inst (Some i) e at a = None
    else \<exists>b. csi_dsp_destroy_task inst (Some i) e at a = Some b \<and> host_inv h (da_host b) \<and> instance_ok h (da_host b) inst \<and>
      da_handlers b = (da_handlers a)(i := None) \<and> da_task_list b = da_task_list a \<and> da_managers b = da_managers a \<and>
      (link_kept P oper \<longrightarrow> P (- 1) (da_report_impl b))"
proof -
  obtain tk q where tk: "da_handlers a i = Some tk" "di_comm_queue inst = Some q" "P (th_report_id tk) (da_report_impl a)"
    by (rule task_stateD [OF assms])
  have s: "holding h (task_refs tk) (da_host a)" "task_objects (da_host a) tk" "instance_ok h (da_host a) inst"
    using assms tk(1) by (auto simp: task_state_def)
  have sgn: "0 \<le>s th_report_id tk \<longleftrightarrow> \<not> th_report_id tk <s 0" by (simp add: word_sless_alt word_sle_eq not_less)
  let ?Q = "case th_queue tk of None \<Rightarrow> {#} | Some q \<Rightarrow> {#q#}" and ?G = "case th_buffers tk of None \<Rightarrow> {#} | Some g \<Rightarrow> {#g#}"
  have h: "holding h (?Q + ?G) (da_host a)" using s(1) by (simp add: task_refs_def)
  obtain s1 where s1: "(case th_queue tk of None \<Rightarrow> Some (da_host a) | Some q \<Rightarrow> xrp_release_queue False q (da_host a)) = Some s1"
    "holding h ?G s1" "kept {} (da_host a) s1"
  proof (cases "th_queue tk")
    case None
    then show thesis using that [of "da_host a"] h by (simp add: kept_def)
  next
    case (Some x)
    then obtain qb where "is_object (da_host a) x (Queue qb)" using s(2) by (auto simp: task_objects_def)
    then show thesis using that release_queue_spec [of h x ?G "da_host a"] h Some by auto
  qed
  obtain s2 where s2: "(case th_buffers tk of None \<Rightarrow> Some s1 | Some g \<Rightarrow> xrp_release_buffer_group g s1) = Some s2"
    "holding h {#} s2" "kept {} s1 s2"
  proof (cases "th_buffers tk")
    case None
    then show thesis using that [of s1] s1(2) by (simp add: kept_def)
  next
    case (Some x)
    then obtain gb where g: "is_object (da_host a) x (Group gb)" using s(2) by (auto simp: task_objects_def)
    have "is_object s1 x (Group gb)" by (rule still [OF g h s1(3) _ s1(2)]) (simp_all add: Some)
    then show thesis using that release_group_spec [of h x "{#}" s1] s1(2) Some by auto
  qed
  have k: "kept {} (da_host a) s2" by (rule kept_trans0 [OF s1(3) s2(3)])
  have i2: "instance_ok h s2 inst" by (rule instance_still [OF s(3) h k s2(2)]) simp
  obtain qb where qb: "is_object s2 q (Queue qb)" "0 < h q + count {#} q" using i2 tk(2) by (auto simp: instance_ok_def)
  obtain args s3 where s3: "csi_dsp_cmd_send q PS_CMD_TASK_FREE (le_bytes (th_task_id tk) @ th_task_ns tk) at 4 None e s2 =
      Some (if sent e then 0 else - 1, args, s3)" "holding h {#} s3" "kept {} s2 s3"
    using cmd_send_spec [OF s2(2) qb, of None PS_CMD_TASK_FREE "le_bytes (th_task_id tk) @ th_task_ns tk" at 4 e] by auto
  have i3: "instance_ok h s3 inst" by (rule instance_still [OF i2 s2(2) s3(3,2)]) simp
  let ?rp = "if 0 \<le>s th_report_id tk then remove_report_item (th_report_id tk) (da_report_impl a) else Some (da_report_impl a)"
  have stale: "stale_report i a \<longleftrightarrow> ?rp = None" using tk(1) sgn remove_item_spec(1) by (simp add: stale_report_def)
  have run: "csi_dsp_destroy_task inst (Some i) e at a =
      map_option (\<lambda>rp. a\<lparr>da_host := s3, da_report_impl := rp, da_handlers := (da_handlers a)(i := None)\<rparr>) ?rp"
    unfolding csi_dsp_destroy_task_def using tk(1,2) s1(1) s2(1) s3(1) by (cases ?rp) simp_all
  show ?thesis
  proof (cases ?rp)
    case (Some rp)
    have "P (- 1) rp" if "link_kept P oper"
      using Some sgn link_kept_neg [OF that tk(3), of "- 1"] link_kept_remove [OF that tk(3)]
      by (auto simp: word_sless_alt split: if_splits)
    then show ?thesis using run Some stale s3(2) i3 by (simp add: holding_empty)
  qed (use run stale in simp)
qed

text \<open>The timer reads every item of the task list.\<close>

lemma heartbeat_tasks_dangling:
  "i \<in> set is \<Longrightarrow> da_handlers a i = None \<Longrightarrow> heartbeat_tasks a is = None"
  by (induction "is") (auto simp: Option.bind_eq_None_conv)

section \<open>Nothing queued\<close>

text \<open>No request is queued or lost; every function of this theory keeps it so, since a command waits for its answer.\<close>

definition idle :: "host_state \<Rightarrow> bool" where
  "idle s \<longleftrightarrow> hs_requests s = [] \<and> hs_lost s = []"

named_theorems idle_intros

lemma idle_cong [idle_intros]:
  "idle (s\<lparr>hs_heap := x\<rparr>) = idle s" "idle (s\<lparr>hs_fds := y\<rparr>) = idle s" "idle (s\<lparr>hs_areas := z\<rparr>) = idle s"
  "idle (s\<lparr>hs_next := n\<rparr>) = idle s"
  by (simp_all add: idle_def)



lemma idle_free [idle_intros]: "idle (free_object i s) = idle s"
  by (simp add: free_object_def idle_intros)








































section \<open>Properties\<close>


text \<open>
  C35: A destroyed task stays in the task list of its instance: when the DSP does not answer the next
  heartbeat, the timer reads the freed handler.
\<close>

theorem heartbeat_reads_freed_task:
  assumes "host_inv h (da_host a)" "instance_ok h (da_host a) inst"
    "csi_dsp_create_task (Some inst) mode e a = Some (Some i, b)" "\<not> sent e''"
  shows "\<exists>c. csi_dsp_destroy_task inst (Some i) e' at b = Some c \<and> i \<in> set (da_task_list c) \<and>
    csi_dsp_heartbeak_polling (Some inst) e'' c = None"
proof -
  have cq: "di_comm_queue inst \<noteq> None" using assms(3) by (cases "di_comm_queue inst") (auto simp: csi_dsp_create_task_def split: if_splits)
  note created = create_task_spec [where P = "\<lambda>i rp. i = - 1", OF assms(1,2) cq refl, of mode e]
  have st: "task_state h inst i (\<lambda>i rp. i = - 1) b" "i \<in> set (da_task_list b)"
    using created assms(3) by auto
  have fresh: "\<not> stale_report i b" using st(1) by (auto simp: task_state_def stale_report_def word_sless_alt)
  obtain c where c: "csi_dsp_destroy_task inst (Some i) e' at b = Some c" "host_inv h (da_host c)" "instance_ok h (da_host c) inst"
    "da_handlers c = (da_handlers b)(i := None)" "da_task_list c = da_task_list b"
    using destroy_task_spec [OF st(1), of e' at] fresh by auto
  obtain q qb where q: "di_comm_queue inst = Some q" "is_object (da_host c) q (Queue qb)" "0 < h q + count {#} q"
    using c(3) cq by (auto simp: instance_ok_def)
  have h0: "holding h {#} (da_host c)" using c(2) by (simp add: holding_empty)
  obtain args t where t: "csi_dsp_cmd_send q PS_CMD_HEART_BEAT_REQ [] 0 0 None e'' (da_host c) = Some (- 1, args, t)"
    using cmd_send_spec [OF h0 q(2,3), of None PS_CMD_HEART_BEAT_REQ "[]" 0 0 e''] assms(4) by auto
  have "heartbeat_tasks (c\<lparr>da_host := t\<rparr>) (da_task_list c) = None"
    by (rule heartbeat_tasks_dangling [of i]) (use c(4,5) st(2) in simp_all)
  then show ?thesis using c(1,5) st(2) q(1) t by (simp add: csi_dsp_heartbeak_polling_def)
qed

text \<open>
  A callback whose registration fails for want of memory leaves the number of its report in the
  handler: destroying the task then looks up an item that was never registered and reads through the
  null pointer that the search returns.
\<close>

theorem failed_registration_faults:
  assumes "da_handlers a i = Some tk" "0 \<le>s th_task_id tk" "da_report_impl a = Some rp"
    "xrp_get_report_entry (rl_items (hr_list (rp_report rp))) (th_task_id tk) = None" "malloc (unat n) = None"
  shows "\<exists>b. csi_dsp_task_register_cb inst (Some i) cb ctx n malloc node_ok e at resp a = Some (- 1, b) \<and>
    csi_dsp_destroy_task inst (Some i) e' at' b = None"
proof -
  have i: "\<not> th_task_id tk <s 0" using assms(2) by (simp add: word_sless_alt word_sle_eq)
  have add: "xrp_add_report_item_with_id malloc node_ok cb (th_task_id tk) ctx n (rp_report rp) = (rp_report rp, - 1)"
    using i assms(5) by (simp add: xrp_add_report_item_with_id_def)
  let ?tk = "tk\<lparr>th_report_id := th_task_id tk, th_report_size := ucast n\<rparr>"
  have "csi_dsp_task_register_cb inst (Some i) cb ctx n malloc node_ok e at resp a =
      Some (- 1, (set_handler i ?tk a)\<lparr>da_report_impl := Some rp\<rparr>)"
    using assms(1,3) i add by (simp add: csi_dsp_task_register_cb_def Let_def word_sless_alt)
  moreover have "csi_dsp_destroy_task inst (Some i) e' at' ((set_handler i ?tk a)\<lparr>da_report_impl := Some rp\<rparr>) = None"
    using assms(2,4)
    by (simp add: csi_dsp_destroy_task_def set_handler_def remove_report_item_def xrp_remove_report_item_def bind_eq_None_conv)
  ultimately show ?thesis by blast
qed

text \<open>
  The front end of a task is what the DSP last accepted: \<open>csi_dsp_task_config_frontend\<close> returns 0
  exactly when the command was sent and answered with success, and then \<open>csi_dsp_task_get_frontend\<close>
  gives the parameters with the number of the task; in every other case it gives what it gave before.
\<close>

theorem frontend_round_trip:
  assumes "task_state h inst i B a" "da_handlers a i = Some tk"
  shows "\<exists>r b. csi_dsp_task_config_frontend inst (Some i) c e at resp a = Some ((r, c\<lparr>fe_task_id := th_task_id tk\<rparr>), b) \<and>
    (r = 0 \<longleftrightarrow> sent e \<and> resp = 0) \<and> csi_dsp_task_get_frontend inst (Some i) (Some x) b =
      Some (0, Some (if r = 0 then c\<lparr>fe_task_id := th_task_id tk\<rparr> else th_fe tk))"
proof -
  obtain q where q: "di_comm_queue inst = Some q" by (rule task_stateD [OF assms(1)])
  let ?c = "c\<lparr>fe_task_id := th_task_id tk\<rparr>"
  obtain t where t: "task_command inst PS_CMD_FE_CONFIG (fe_bytes ?c) e at resp a = Some (sent e \<and> resp = 0, a\<lparr>da_host := t\<rparr>)"
    using task_command_state [OF assms] by blast
  have "csi_dsp_task_config_frontend inst (Some i) c e at resp a = Some (if sent e \<and> resp = 0
      then ((0, ?c), set_handler i (tk\<lparr>th_fe := ?c\<rparr>) (a\<lparr>da_host := t\<rparr>)) else ((- 1, ?c), a\<lparr>da_host := t\<rparr>))"
    using t q assms(2) by (simp add: csi_dsp_task_config_frontend_def Let_def)
  then show ?thesis using q assms(2)
    by (cases "sent e \<and> resp = 0") (auto simp: csi_dsp_task_get_frontend_def set_handler_def)
qed

text \<open>
  Taking a finished request out: the request of the event that \<open>xrp_wait_any\<close> names is returned, it is
  marked done exactly when the DSP stored success, its event is released, and the other requests in
  flight keep their events and their order.
\<close>

theorem dequeue_takes_one:
  assumes "da_handlers a i = Some tk" "da_managers a (th_private tk) = Some \<lparr>tm_events = before @ it # after\<rparr>"
    and "distinct (map te_event (before @ it # after))" "da_requests a (te_req it) = Some rq"
    and "holding h (mset (map te_event (before @ it # after)) + M) (da_host a)" "is_object (da_host a) (te_event it) (Event ev)"
  shows "\<exists>b. csi_dsp_request_dequeue i (length before) resp a = Some (Some (te_req it), b) \<and>
    da_managers b (th_private tk) = Some \<lparr>tm_events = before @ after\<rparr> \<and>
    holding h (mset (map te_event (before @ after)) + M) (da_host b) \<and>
    map_option sr_status (da_requests b (te_req it)) = Some (if resp = 0 then CSI_DSP_SW_REQ_DONE else CSI_DSP_SW_REQ_FAIL) \<and>
    (\<forall>j. j \<noteq> te_req it \<longrightarrow> da_requests b j = da_requests a j)"
proof -
  let ?M = "mset (map te_event (before @ after)) + M"
  have h: "holding h (add_mset (te_event it) ?M) (da_host a)" using assms(5) by (simp add: ac_simps)
  obtain t where t: "xrp_release_event False (te_event it) (da_host a) = Some t" "holding h ?M t"
    using release_event_spec [OF h assms(6)] by blast
  have new: "te_event x \<noteq> te_event it" "x \<noteq> it" if "x \<in> set before" for x
  proof -
    have "te_event x \<in> te_event ` set before" "te_event it \<notin> te_event ` set before" using assms(3) that by simp_all
    then show "te_event x \<noteq> te_event it" "x \<noteq> it" by metis+
  qed
  have "find (\<lambda>x. te_event x = te_event it) before = None" using new(1) by (auto simp: find_None_iff)
  then have f: "find (\<lambda>x. te_event x = te_event it) (before @ it # after) = Some it"
    by (induction before) (auto split: if_splits)
  have r: "remove1 it (before @ it # after) = before @ after" using new(2) by (auto simp: remove1_append)
  show ?thesis using assms(1,2,4) t f r by (simp add: csi_dsp_request_dequeue_def nth_append Let_def)
qed


section \<open>Witnesses\<close>

definition demo_handler :: task_handler where
  "demo_handler = \<lparr>th_task_id = 0, th_task_ns = [], th_mode = CSI_DSP_TASK_SW_TO_SW, th_queue = None,
     th_fe = \<lparr>fe_frontend_type = CSI_DSP_FE_TYPE_CPU, fe_task_id = 0, fe_union = replicate 112 0\<rparr>,
     th_be = \<lparr>be_backend_type = CSI_DSP_BE_TYPE_HOST, be_task_id = 0, be_num_buf = 0, be_rest = replicate 124 0\<rparr>,
     th_algo = demo_config, th_buffers = None, th_report_id = 0, th_report_size = 0, th_cb = None, th_context = 0, th_private = 0\<rparr>"

definition demo_create_env :: create_task_env where
  "demo_create_env = \<lparr>ct_item_malloc = True, ct_task_malloc = True, ct_memory = demo_handler, ct_priority = 0, ct_send = good_send,
     ct_resp_at = 0x9000, ct_resp_status = 0, ct_resp_ns = replicate 16 3, ct_resp_task_id = 5, ct_queue = True,
     ct_ctx_malloc = True, ct_group = True\<rparr>"

definition lost_send :: command_env where
  "lost_send = good_send\<lparr>ce_rets := (\<lambda>k. False)\<rparr>"

text \<open>A program with its instance and a reporter, for which it holds a second reference of the device.\<close>

definition reporter_ops :: "host_op list" where
  "reporter_ops = open_ops @ [Retain 0]"

definition reporter_refs :: "nat \<Rightarrow> nat" where
  "reporter_refs = (\<lambda>i. 0)(0 := 2, 1 := 1)"

definition reporter_state :: host_state where
  "reporter_state = open_state\<lparr>hs_heap := (hs_heap open_state)(0 \<mapsto> (3, Device 3))\<rparr>"

definition empty_report :: host_report where
  "empty_report = \<lparr>hr_list = \<lparr>rl_items = [], rl_nodes = 0\<rparr>, hr_buf = Some (0, replicate 284 0), hr_buf_size = 288, hr_data_bufs = 0\<rparr>"

definition demo_app :: dsp_app where
  "demo_app = \<lparr>da_host = reporter_state, da_handlers = Map.empty, da_managers = Map.empty, da_requests = Map.empty, da_next = 0,
     da_task_list = [], da_report_impl = Some \<lparr>rp_count = 1, rp_device = 0, rp_report = empty_report\<rparr>\<rparr>"

lemma demo_app_holds:
  "host_inv reporter_refs (da_host demo_app)" "instance_ok reporter_refs (da_host demo_app) open_instance"
  "di_comm_queue open_instance \<noteq> None"
proof -
  have "host_execs reporter_ops (\<lambda>i. 0, host_start) = Some (reporter_refs, reporter_state)"
    by (simp add: reporter_ops_def open_ops_def host_start_def open_state_def reporter_state_def reporter_refs_def xrp_open_device_def
        xrp_create_nsp_queue_def Let_def alloc_refcounted_def retain_refcounted_def got_def holds_ref_def numeral_2_eq_2 numeral_3_eq_3
        fun_upd_twist)
  then have "host_rel\<^sup>*\<^sup>* (\<lambda>i. 0, host_start) (reporter_refs, reporter_state)" by (rule host_execs_rel)
  then show "host_inv reporter_refs (da_host demo_app)"
    using hosts.reachable_inv [OF refl, of "(reporter_refs, reporter_state)"] by (simp add: client_inv_def demo_app_def)
  show "instance_ok reporter_refs (da_host demo_app) open_instance"
    by (auto simp: instance_ok_def open_instance_def reporter_refs_def demo_app_def reporter_state_def open_state_def is_object_def
        same_object_cases)
  show "di_comm_queue open_instance \<noteq> None" by (simp add: open_instance_def)
qed



lemma demo_task_made: "task_made mode demo_create_env"
  by (auto simp: task_made_def queue_made_def demo_create_env_def good_send_def sent_def)


theorem heartbeat_reads_freed_task_witness:
  "\<exists>i b c. csi_dsp_create_task (Some open_instance) CSI_DSP_TASK_HW_TO_HW demo_create_env demo_app = Some (Some i, b) \<and>
     csi_dsp_destroy_task open_instance (Some i) good_send 0 b = Some c \<and>
     csi_dsp_heartbeak_polling (Some open_instance) lost_send c = None"
proof -
  obtain i b where c: "csi_dsp_create_task (Some open_instance) CSI_DSP_TASK_HW_TO_HW demo_create_env demo_app = Some (Some i, b)"
    using create_task_spec [where P = "\<lambda>i rp. True", OF demo_app_holds TrueI, of CSI_DSP_TASK_HW_TO_HW demo_create_env] demo_task_made by auto
  have "\<not> sent lost_send" by (simp add: lost_send_def sent_def)
  then show ?thesis using heartbeat_reads_freed_task [OF demo_app_holds(1,2) c, of lost_send good_send 0] c by blast
qed

theorem failed_registration_faults_witness:
  "\<exists>b. csi_dsp_task_register_cb open_instance (Some 0) (Some 77) 0 64 (\<lambda>n. None) True good_send 0 0
       (set_handler 0 (demo_handler\<lparr>th_task_id := 5\<rparr>) demo_app) = Some (- 1, b) \<and>
     csi_dsp_destroy_task open_instance (Some 0) good_send 0 b = None"
  by (rule failed_registration_faults [where tk = "demo_handler\<lparr>th_task_id := 5\<rparr>" and
        rp = "\<lparr>rp_count = 1, rp_device = 0, rp_report = empty_report\<rparr>"])
    (simp_all add: set_handler_def demo_app_def empty_report_def word_sle_eq)

text \<open>A task at 0 with nothing but its number.\<close>

lemma demo_task_state:
  "task_state reporter_refs open_instance 0 (\<lambda>i rp. True) (set_handler 0 (demo_handler\<lparr>th_report_id := - 1\<rparr>) demo_app)"
  using demo_app_holds
  by (simp add: task_state_def set_handler_def demo_handler_def task_refs_def task_objects_def holding_empty)

theorem frontend_round_trip_witness:
  "\<exists>r b. csi_dsp_task_config_frontend open_instance (Some 0) (th_fe demo_handler) good_send 0 0
       (set_handler 0 (demo_handler\<lparr>th_report_id := - 1\<rparr>) demo_app) = Some ((r, th_fe demo_handler), b) \<and> r = 0 \<and>
     csi_dsp_task_get_frontend open_instance (Some 0) (Some (th_fe demo_handler)) b = Some (0, Some (th_fe demo_handler))"
proof -
  have h: "da_handlers (set_handler 0 (demo_handler\<lparr>th_report_id := - 1\<rparr>) demo_app) 0 = Some (demo_handler\<lparr>th_report_id := - 1\<rparr>)"
    by (simp add: set_handler_def)
  have s: "sent good_send" by (simp add: sent_def good_send_def)
  have same: "(th_fe demo_handler)\<lparr>fe_task_id := th_task_id (demo_handler\<lparr>th_report_id := - 1\<rparr>)\<rparr> = th_fe demo_handler"
    by (simp add: demo_handler_def)
  show ?thesis
    using frontend_round_trip [OF demo_task_state h, of "th_fe demo_handler" good_send 0 0 "th_fe demo_handler"] s unfolding same by auto
qed



text \<open>An event in flight: the first command on the queue of \<open>open_state\<close>.\<close>

definition event_state :: host_state where
  "event_state = open_state\<lparr>hs_heap := (hs_heap open_state)(1 \<mapsto> (2, Queue \<lparr>hq_device = 0, hq_nsid = Some [1], hq_priority = 0\<rparr>),
     2 \<mapsto> (2, Event \<lparr>he_queue = Some 1, he_status = XRP_STATUS_PENDING\<rparr>)), hs_next := 3,
     hs_requests := [\<lparr>hr_queue = 1, hr_event = Some 2, hr_group = None, hr_in_data = [], hr_out_data = 0, hr_out_data_size = 4\<rparr>]\<rparr>"

lemma event_state_holds: "holding open_refs {#2#} event_state"
proof -
  have "host_execs (open_ops @ [Enqueue 1 [] 0 4 None True True True]) (\<lambda>i. 0, host_start) = Some (open_refs(2 := 1), event_state)"
    by (simp add: open_ops_def host_start_def open_state_def event_state_def open_refs_def xrp_open_device_def
        xrp_create_nsp_queue_def xrp_enqueue_command_def retain_group_option_def set_body_def Let_def alloc_refcounted_def
        retain_refcounted_def got_def holds_ref_def numeral_2_eq_2 numeral_3_eq_3 fun_upd_twist)
  then have "host_rel\<^sup>*\<^sup>* (\<lambda>i. 0, host_start) (open_refs(2 := 1), event_state)" by (rule host_execs_rel)
  then have "host_inv (open_refs(2 := 1)) event_state"
    using hosts.reachable_inv [OF refl, of "(open_refs(2 := 1), event_state)"] by (simp add: client_inv_def)
  then show ?thesis by (rule holding_fun) (simp add: open_refs_def)
qed

theorem dequeue_takes_one_witness:
  "\<exists>rq b. csi_dsp_request_dequeue 0 0 (- 1) (demo_app\<lparr>da_host := event_state, da_handlers := [0 \<mapsto> demo_handler],
       da_managers := [0 \<mapsto> \<lparr>tm_events = [\<lparr>te_event = 2, te_req = 7\<rparr>]\<rparr>], da_requests := [7 \<mapsto> rq]\<rparr>) = Some (Some 7, b) \<and>
     map_option sr_status (da_requests b 7) = Some CSI_DSP_SW_REQ_FAIL \<and> host_inv open_refs (da_host b)"
proof -
  fix rq :: sw_request
  let ?a = "demo_app\<lparr>da_host := event_state, da_handlers := [0 \<mapsto> demo_handler],
       da_managers := [0 \<mapsto> \<lparr>tm_events = [\<lparr>te_event = 2, te_req = 7\<rparr>]\<rparr>], da_requests := [7 \<mapsto> rq]\<rparr>"
  have o: "is_object event_state 2 (Event \<lparr>he_queue = Some 1, he_status = XRP_STATUS_PENDING\<rparr>)"
    by (simp add: is_object_def event_state_def)
  show ?thesis
    using dequeue_takes_one [where before = "[]" and after = "[]" and M = "{#}" and it = "\<lparr>te_event = 2, te_req = 7\<rparr>" and a = ?a and
        i = 0 and h = open_refs and resp = "- 1", of demo_handler rq "\<lparr>he_queue = Some 1, he_status = XRP_STATUS_PENDING\<rparr>"]
      event_state_holds o by (auto simp: demo_handler_def holding_empty)
qed

end
