(* ===== verification/Wait_Any.thy ===== *)
theory Wait_Any
  imports Host_Objects
begin

text \<open>
  Waiting for one of several events, \<open>xrp_wait_any\<close> of \<open>xrp-host/xrp_threaded_queue.c\<close>: every waiter
  links an element of an array of its own into a list at each of its events, sleeps until one of
  them completes, and takes its elements out again. The lists are doubly linked, belong to other threads,
  and a completion walks along them to wake up the waiters, whose stacks hold what it writes. One lock per
  event makes each of these operations one step; any number of threads wait while events complete.
\<close>

section \<open>State\<close>

text \<open>
  \<open>(t, i)\<close> is the address of element \<open>i\<close> of the array of thread \<open>t\<close>; a group, the event that a waiter
  has on its stack, is named by its thread. What is not in \<open>ws_links\<close> and \<open>ws_groups\<close> is not allocated.
\<close>

type_synonym link_at = "nat \<times> nat"

record event_link =
  el_group :: "nat option"
  el_next :: "link_at option"
  el_prev :: "link_at option"

record event_cell =
  ec_status :: xrp_status
  ec_group :: "nat option"
  ec_link :: "link_at option"

datatype wait_pc = Called | Linking nat | Blocked | Unlinking nat nat nat | Returned nat | Refused

record wait_state =
  ws_events :: "nat \<Rightarrow> event_cell"
  ws_links :: "link_at \<rightharpoonup> event_link"
  ws_groups :: "nat \<rightharpoonup> xrp_status"
  ws_pc :: "nat \<Rightarrow> wait_pc"

text \<open>
  The threads are those below \<open>we_threads\<close>; \<open>we_events t\<close> is the array that \<open>t\<close> passes. A thread calls once, a second call
  is a thread of its own. \<open>calloc\<close> is taken to succeed, the code does not test it.
\<close>

record wait_env =
  we_threads :: nat
  we_events :: "nat \<Rightarrow> nat list"

section \<open>Steps\<close>

text \<open>A store through a pointer to an element, \<open>None\<close> when it is not allocated.\<close>

definition set_link :: "link_at \<Rightarrow> (event_link \<Rightarrow> event_link) \<Rightarrow> (link_at \<rightharpoonup> event_link) \<Rightarrow> (link_at \<rightharpoonup> event_link) option" where
  "set_link p f L = (case L p of None \<Rightarrow> None | Some k \<Rightarrow> Some (L(p \<mapsto> f k)))"

text \<open>The body of the first loop, for a pending event.\<close>

definition link_event :: "nat \<Rightarrow> nat \<Rightarrow> nat \<Rightarrow> wait_state \<Rightarrow> wait_state option" where
  "link_event t i e s =
     (let c = ws_events s e in
      do { L1 \<leftarrow> set_link (t, i) (\<lambda>k. k\<lparr>el_group := ec_group c, el_next := ec_link c\<rparr>) (ws_links s);
           L2 \<leftarrow> (case ec_link c of None \<Rightarrow> Some L1 | Some l \<Rightarrow> set_link l (\<lambda>k. k\<lparr>el_prev := Some (t, i)\<rparr>) L1);
           Some (s\<lparr>ws_links := L2, ws_events := (ws_events s)(e := c\<lparr>ec_group := Some t, ec_link := Some (t, i)\<rparr>)\<rparr>) })"

text \<open>The body of the second loop without the test of the status.\<close>

definition unlink_event :: "nat \<Rightarrow> nat \<Rightarrow> nat \<Rightarrow> wait_state \<Rightarrow> wait_state option" where
  "unlink_event t i e s =
     (let c = ws_events s e in
      do { k \<leftarrow> ws_links s (t, i);
           let c1 = (if ec_group c = Some t then c\<lparr>ec_group := el_group k, ec_link := el_next k\<rparr> else c);
           L1 \<leftarrow> (case el_next k of None \<Rightarrow> Some (ws_links s)
             | Some m \<Rightarrow> set_link m (\<lambda>l. l\<lparr>el_prev := el_prev k\<rparr>) (ws_links s));
           k1 \<leftarrow> L1 (t, i);
           L2 \<leftarrow> (case el_prev k1 of None \<Rightarrow> Some L1
             | Some m \<Rightarrow> set_link m (\<lambda>l. if el_group l = Some t then l\<lparr>el_group := el_group k1, el_next := el_next k1\<rparr> else l) L1);
           Some (s\<lparr>ws_links := L2, ws_events := (ws_events s)(e := c1)\<rparr>) })"

text \<open>
  The loop of \<open>xrp_impl_broadcast_event\<close>: the status of every group in the list. A list with more elements
  than there are threads would be a fault, as is an element or a group that is gone.
\<close>

fun wake_groups :: "nat \<Rightarrow> nat option \<Rightarrow> link_at option \<Rightarrow> xrp_status \<Rightarrow> wait_state \<Rightarrow> wait_state option" where
  "wake_groups fuel g None st s = Some s"
| "wake_groups 0 g (Some l) st s = None"
| "wake_groups (Suc fuel) g (Some l) st s =
    do { t \<leftarrow> g;
         _ \<leftarrow> ws_groups s t;
         k \<leftarrow> ws_links s l;
         wake_groups fuel (el_group k) (el_next k) st (s\<lparr>ws_groups := (ws_groups s)(t \<mapsto> st)\<rparr>) }"

definition broadcast :: "nat \<Rightarrow> nat \<Rightarrow> xrp_status \<Rightarrow> wait_state \<Rightarrow> wait_state option" where
  "broadcast n e st s =
     (let c = ws_events s e in
      wake_groups n (ec_group c) (ec_link c) st (s\<lparr>ws_events := (ws_events s)(e := c\<lparr>ec_status := st\<rparr>)\<rparr>))"

definition goto_pc :: "nat \<Rightarrow> wait_pc \<Rightarrow> wait_state \<Rightarrow> wait_state" where
  "goto_pc t pc s = s\<lparr>ws_pc := (ws_pc s)(t := pc)\<rparr>"

text \<open>
  A step of thread \<open>t\<close>, with \<open>n\<close> events: \<open>Linking i\<close> is the head of the first loop, \<open>Blocked\<close> the call of
  \<open>xrp_wait\<close>, \<open>Unlinking i m rv\<close> the head of the second loop over \<open>m\<close> elements. The outer \<open>None\<close> says that the
  thread cannot run, the inner one is a fault.
\<close>

definition thread_step :: "nat list \<Rightarrow> nat \<Rightarrow> wait_state \<Rightarrow> wait_state option option" where
  "thread_step es t s =
     (let n = length es in
      case ws_pc s t of
        Called \<Rightarrow>
          if n = 0 then Some (Some (goto_pc t Refused s))
          else Some (Some (goto_pc t (Linking 0)
            (s\<lparr>ws_links := (\<lambda>p. if fst p = t \<and> snd p < n then Some \<lparr>el_group = None, el_next = None, el_prev = None\<rparr> else ws_links s p),
               ws_groups := (ws_groups s)(t \<mapsto> XRP_STATUS_PENDING)\<rparr>)))
      | Linking i \<Rightarrow>
          if i < n then
            if ec_status (ws_events s (es ! i)) = XRP_STATUS_PENDING
            then Some (map_option (goto_pc t (Linking (i + 1))) (link_event t i (es ! i) s))
            else Some (Some (goto_pc t (Unlinking 0 i i) s))
          else Some (Some (goto_pc t Blocked s))
      | Blocked \<Rightarrow>
          (case ws_groups s t of
             None \<Rightarrow> Some None
           | Some st \<Rightarrow> if st = XRP_STATUS_PENDING then None else Some (Some (goto_pc t (Unlinking 0 n n) s)))
      | Unlinking i m rv \<Rightarrow>
          if i < m then
            Some (map_option (goto_pc t (Unlinking (i + 1) m
                (if ec_status (ws_events s (es ! i)) \<noteq> XRP_STATUS_PENDING then i else rv)))
              (unlink_event t i (es ! i) s))
          else Some (Some (goto_pc t (Returned rv)
            (s\<lparr>ws_links := (\<lambda>p. if fst p = t then None else ws_links s p), ws_groups := (ws_groups s)(t := None)\<rparr>)))
      | Returned rv \<Rightarrow> None
      | Refused \<Rightarrow> None)"

datatype wait_act = Thread nat | Complete nat xrp_status

fun wait_step :: "wait_env \<Rightarrow> wait_act \<Rightarrow> wait_state \<Rightarrow> wait_state option option" where
  "wait_step en (Thread t) s = (if t < we_threads en then thread_step (we_events en t) t s else None)"
| "wait_step en (Complete e st) s = (if st = XRP_STATUS_PENDING then None else Some (broadcast (we_threads en) e st s))"

definition wait_start :: "(nat \<Rightarrow> xrp_status) \<Rightarrow> wait_state" where
  "wait_start st = \<lparr>ws_events = (\<lambda>e. \<lparr>ec_status = st e, ec_group = None, ec_link = None\<rparr>), ws_links = Map.empty,
     ws_groups = Map.empty, ws_pc = (\<lambda>t. Called)\<rparr>"

text \<open>What can be reached; a thread passes no event twice.\<close>

inductive waiting :: "wait_env \<Rightarrow> wait_state \<Rightarrow> bool" for en where
  start: "waiting en (wait_start st)"
| step: "waiting en s \<Longrightarrow> wait_step en a s = Some (Some t) \<Longrightarrow> waiting en t"

section \<open>The list of an event\<close>

text \<open>
  \<open>chain L g l q ps g' l' q'\<close>: from the group \<open>g\<close> and the link \<open>l\<close>, with \<open>q\<close> in front, the elements \<open>ps\<close> follow
  one another; behind them come \<open>g'\<close> and \<open>l'\<close>, with \<open>q'\<close> in front.
\<close>

fun chain :: "(link_at \<rightharpoonup> event_link) \<Rightarrow> nat option \<Rightarrow> link_at option \<Rightarrow> link_at option \<Rightarrow> link_at list \<Rightarrow>
    nat option \<Rightarrow> link_at option \<Rightarrow> link_at option \<Rightarrow> bool" where
  "chain L g l q [] g' l' q' \<longleftrightarrow> g = g' \<and> l = l' \<and> q = q'"
| "chain L g l q (p # ps) g' l' q' \<longleftrightarrow> g = Some (fst p) \<and> l = Some p \<and>
    (case L p of None \<Rightarrow> False | Some k \<Rightarrow> el_prev k = q \<and> chain L (el_group k) (el_next k) (Some p) ps g' l' q')"

lemma chain_append:
  "chain L g l q (ps @ qs) g' l' q' \<longleftrightarrow> (\<exists>h m r. chain L g l q ps h m r \<and> chain L h m r qs g' l' q')"
  by (induction ps arbitrary: g l q) (auto split: option.splits)

lemma chain_frame:
  "(\<And>p. p \<in> set ps \<Longrightarrow> L' p = L p) \<Longrightarrow> chain L' g l q ps g' l' q' = chain L g l q ps g' l' q'"
  by (induction ps arbitrary: g l q) (auto split: option.splits)

lemma chain_upd [simp]: "p \<notin> set ps \<Longrightarrow> chain (L(p := x)) g l q ps g' l' q' = chain L g l q ps g' l' q'"
  by (rule chain_frame) auto

lemma chain_alive: "chain L g l q ps g' l' q' \<Longrightarrow> p \<in> set ps \<Longrightarrow> \<exists>k. L p = Some k"
  by (induction ps arbitrary: g l q) (auto split: option.splits)

lemma chain_last: "chain L g l q ps g' l' q' \<Longrightarrow> q' = (if ps = [] then q else Some (last ps))"
  by (induction ps arbitrary: g l q) (auto split: option.splits)

definition list_at :: "wait_state \<Rightarrow> nat \<Rightarrow> link_at list \<Rightarrow> bool" where
  "list_at s e ps \<longleftrightarrow> distinct ps \<and>
     (\<exists>q. chain (ws_links s) (ec_group (ws_events s e)) (ec_link (ws_events s e)) None ps None None q)"

lemma list_at_frame:
  assumes "list_at s e ps" "\<And>p. p \<in> set ps \<Longrightarrow> ws_links t p = ws_links s p"
    "ec_group (ws_events t e) = ec_group (ws_events s e)" "ec_link (ws_events t e) = ec_link (ws_events s e)"
  shows "list_at t e ps"
  using assms chain_frame [of ps "ws_links t" "ws_links s"] by (simp add: list_at_def)

lemma list_at_head:
  "list_at s e ps \<Longrightarrow> ec_link (ws_events s e) = (case ps of [] \<Rightarrow> None | p # _ \<Rightarrow> Some p) \<and>
    ec_group (ws_events s e) = (case ps of [] \<Rightarrow> None | p # _ \<Rightarrow> Some (fst p))"
  by (cases ps) (auto simp: list_at_def)

lemma link_event_status: "link_event t i e s = Some s' \<Longrightarrow> ec_status (ws_events s' x) = ec_status (ws_events s x)"
  by (auto simp: link_event_def Let_def bind_eq_Some_conv split: option.splits)

lemma unlink_event_status: "unlink_event t i e s = Some s' \<Longrightarrow> ec_status (ws_events s' x) = ec_status (ws_events s x)"
  by (auto simp: unlink_event_def Let_def bind_eq_Some_conv split: option.splits)

text \<open>Linking an element puts it in front, unlinking takes it out wherever it is; nothing else changes.\<close>

lemma link_event_list:
  assumes "list_at s e ps" "(t, i) \<notin> set ps" "ws_links s (t, i) = Some k" "el_prev k = None"
  shows "\<exists>s'. link_event t i e s = Some s' \<and> list_at s' e ((t, i) # ps) \<and>
    (\<forall>p. p \<notin> set ((t, i) # ps) \<longrightarrow> ws_links s' p = ws_links s p) \<and> (\<forall>p. ws_links s' p = None \<longleftrightarrow> ws_links s p = None) \<and>
    (\<forall>e'. e' \<noteq> e \<longrightarrow> ws_events s' e' = ws_events s e') \<and> ec_status (ws_events s' e) = ec_status (ws_events s e) \<and>
    ws_groups s' = ws_groups s \<and> ws_pc s' = ws_pc s"
proof (cases ps)
  case Nil
  then show ?thesis using assms list_at_head [OF assms(1)]
    by (auto simp: link_event_def set_link_def list_at_def Let_def)
next
  case (Cons p qs)
  obtain r and kp :: event_link where c: "ws_links s p = Some kp" "chain (ws_links s) (el_group kp) (el_next kp) (Some p) qs None None r"
    "p \<notin> set qs" "distinct qs"
    using assms(1) Cons by (auto simp: list_at_def split: option.splits)
  have head: "ec_link (ws_events s e) = Some p" "ec_group (ws_events s e) = Some (fst p)"
    using list_at_head [OF assms(1)] Cons by simp_all
  have ne: "p \<noteq> (t, i)" "(t, i) \<notin> set qs" using assms(2) Cons by auto
  let ?L = "(ws_links s)((t, i) \<mapsto> k\<lparr>el_group := Some (fst p), el_next := Some p\<rparr>, p \<mapsto> kp\<lparr>el_prev := Some (t, i)\<rparr>)"
  have "chain ?L (el_group kp) (el_next kp) (Some p) qs None None r"
    using c(2,3) ne by simp
  then show ?thesis using assms(3,4) head c ne Cons
    by (auto simp: link_event_def set_link_def list_at_def Let_def)
qed

text \<open>The two stores of the second loop: what follows gets what is in front as its predecessor, and the other way round.\<close>

lemma chain_skip_next:
  assumes "chain L g l (Some p) qs None None q" "distinct qs"
  shows "\<exists>L1 q1. (case l of None \<Rightarrow> Some L | Some m \<Rightarrow> set_link m (\<lambda>k. k\<lparr>el_prev := r\<rparr>) L) = Some L1 \<and>
    chain L1 g l r qs None None q1 \<and> (\<forall>x. x \<notin> set qs \<longrightarrow> L1 x = L x) \<and> (\<forall>x. L1 x = None \<longleftrightarrow> L x = None)"
proof (cases qs)
  case Nil
  then show ?thesis using assms by auto
next
  case (Cons b qs')
  obtain kb :: event_link where b: "g = Some (fst b)" "l = Some b" "L b = Some kb"
    "chain L (el_group kb) (el_next kb) (Some b) qs' None None q" "b \<notin> set qs'"
    using assms Cons by (auto split: option.splits)
  have "chain (L(b \<mapsto> kb\<lparr>el_prev := r\<rparr>)) (el_group kb) (el_next kb) (Some b) qs' None None q"
    using b(4,5) by simp
  then show ?thesis using b(1-3) Cons by (auto simp: set_link_def)
qed

lemma chain_skip_prev:
  assumes "chain L g l None (ps @ [a]) (Some t) (Some p) r" "distinct (ps @ [a])"
  shows "\<exists>L2. set_link a (\<lambda>l. if el_group l = Some t then l\<lparr>el_group := h, el_next := m\<rparr> else l) L = Some L2 \<and>
    chain L2 g l None (ps @ [a]) h m (Some a) \<and> (\<forall>x. x \<noteq> a \<longrightarrow> L2 x = L x) \<and> (\<forall>x. L2 x = None \<longleftrightarrow> L x = None)"
proof -
  obtain g1 l1 q1 where 1: "chain L g l None ps g1 l1 q1" "chain L g1 l1 q1 [a] (Some t) (Some p) r"
    using assms(1) by (auto simp: chain_append)
  obtain ka :: event_link where a: "L a = Some ka" "el_group ka = Some t" "g1 = Some (fst a)" "l1 = Some a" "el_prev ka = q1"
    using 1(2) by (auto split: option.splits)
  let ?L = "L(a \<mapsto> ka\<lparr>el_group := h, el_next := m\<rparr>)"
  have "chain ?L g l None ps g1 l1 q1" using 1(1) assms(2) by simp
  moreover have "chain ?L g1 l1 q1 [a] h m (Some a)" using a by simp
  ultimately have "chain ?L g l None (ps @ [a]) h m (Some a)" unfolding chain_append by blast
  then show ?thesis using a(1,2) by (auto simp: set_link_def)
qed

lemma unlink_event_list:
  assumes "list_at s e (ps @ (t, i) # qs)" "t \<notin> fst ` set (ps @ qs)"
  shows "\<exists>s'. unlink_event t i e s = Some s' \<and> list_at s' e (ps @ qs) \<and>
    (\<forall>p. p \<notin> set (ps @ (t, i) # qs) \<longrightarrow> ws_links s' p = ws_links s p) \<and> (\<forall>p. ws_links s' p = None \<longleftrightarrow> ws_links s p = None) \<and>
    (\<forall>e'. e' \<noteq> e \<longrightarrow> ws_events s' e' = ws_events s e') \<and> ec_status (ws_events s' e) = ec_status (ws_events s e) \<and>
    ws_groups s' = ws_groups s \<and> ws_pc s' = ws_pc s"
proof -
  let ?c = "ws_events s e" and ?L = "ws_links s"
  have d: "distinct (ps @ (t, i) # qs)" using assms(1) by (simp add: list_at_def)
  obtain q r h m where ch: "chain ?L (ec_group ?c) (ec_link ?c) None ps h m r" "chain ?L h m r ((t, i) # qs) None None q"
    using assms(1) by (auto simp: list_at_def chain_append)
  obtain k :: event_link where k: "h = Some t" "m = Some (t, i)" "?L (t, i) = Some k" "el_prev k = r"
    "chain ?L (el_group k) (el_next k) (Some (t, i)) qs None None q"
    using ch(2) by (auto split: option.splits)
  obtain L1 q1 where L1: "(case el_next k of None \<Rightarrow> Some ?L | Some m \<Rightarrow> set_link m (\<lambda>l. l\<lparr>el_prev := el_prev k\<rparr>) ?L) = Some L1"
    "chain L1 (el_group k) (el_next k) (el_prev k) qs None None q1" "\<And>x. x \<notin> set qs \<Longrightarrow> L1 x = ?L x" "\<And>x. L1 x = None \<longleftrightarrow> ?L x = None"
    using chain_skip_next [OF k(5), of "el_prev k"] d by auto
  have k1: "L1 (t, i) = Some k" using L1(3) [of "(t, i)"] k(3) d by auto
  show ?thesis
  proof (cases ps rule: rev_cases)
    case Nil
    then have e: "r = None" "ec_group ?c = Some t" using ch(1) k(1) by simp_all
    let ?s = "s\<lparr>ws_links := L1, ws_events := (ws_events s)(e := ?c\<lparr>ec_group := el_group k, ec_link := el_next k\<rparr>)\<rparr>"
    have "unlink_event t i e s = Some ?s"
      unfolding unlink_event_def Let_def
      using e(2) by (simp add: k(3) L1(1) k1) (simp add: k(4) e(1))
    moreover have "list_at ?s e (ps @ qs)" using L1(2) e(1) k(4) d Nil by (auto simp: list_at_def)
    ultimately show ?thesis using L1(3,4) Nil by auto
  next
    case (snoc ps' a)
    have r: "r = Some a" using chain_last [OF ch(1)] snoc by simp
    have g: "ec_group ?c \<noteq> Some t" using list_at_head [OF assms(1)] assms(2) snoc by (cases ps') auto
    have "chain L1 (ec_group ?c) (ec_link ?c) None ps h m r"
      using ch(1) chain_frame [of ps L1 ?L] L1(3) d by (metis (no_types, lifting) IntI distinct_append empty_iff list.set_intros(2))
    then have "chain L1 (ec_group ?c) (ec_link ?c) None (ps' @ [a]) (Some t) (Some (t, i)) r" using k(1,2) snoc by simp
    then obtain L2 where L2: "set_link a (\<lambda>l. if el_group l = Some t then l\<lparr>el_group := el_group k, el_next := el_next k\<rparr> else l) L1 = Some L2"
      "chain L2 (ec_group ?c) (ec_link ?c) None (ps' @ [a]) (el_group k) (el_next k) (Some a)"
      "\<And>x. x \<noteq> a \<Longrightarrow> L2 x = L1 x" "\<And>x. L2 x = None \<longleftrightarrow> L1 x = None"
      using chain_skip_prev [where h = "el_group k" and m = "el_next k", of L1 _ _ ps' a t _ r] d snoc
      by (metis (no_types, lifting) distinct_append)
    have "L2 x = L1 x" if "x \<in> set qs" for x using L2(3) [of x] that d snoc by auto
    then have "chain L2 (el_group k) (el_next k) (Some a) qs None None q1"
      using L1(2) r k(4) chain_frame [of qs L2 L1 "el_group k" "el_next k" "Some a" None None q1] by simp
    then have all: "chain L2 (ec_group ?c) (ec_link ?c) None (ps @ qs) None None q1"
      using L2(2) snoc chain_append [of L2 _ _ None ps qs None None q1] by blast
    let ?s = "s\<lparr>ws_links := L2, ws_events := (ws_events s)(e := ?c)\<rparr>"
    have "unlink_event t i e s = Some ?s"
      unfolding unlink_event_def Let_def
      using g by (simp add: k(3) L1(1) k1) (simp add: k(4) r L2(1))
    moreover have "list_at ?s e (ps @ qs)" using all d by (auto simp: list_at_def)
    ultimately show ?thesis using L1(3,4) L2(3,4) snoc by auto
  qed
qed

lemma wake_groups_chain:
  assumes "chain (ws_links s) g l q ps None None r" "\<And>p. p \<in> set ps \<Longrightarrow> ws_groups s (fst p) \<noteq> None" "length ps \<le> fuel"
  shows "wake_groups fuel g l st s = Some (s\<lparr>ws_groups := (\<lambda>t. if t \<in> fst ` set ps then Some st else ws_groups s t)\<rparr>)"
  using assms
proof (induction ps arbitrary: fuel g l q s)
  case Nil
  then show ?case by simp
next
  case (Cons p ps)
  obtain n where n: "fuel = Suc n" using Cons.prems(3) by (cases fuel) auto
  obtain k where k: "ws_links s p = Some k" "chain (ws_links s) (el_group k) (el_next k) (Some p) ps None None r"
    "g = Some (fst p)" "l = Some p" using Cons.prems(1) by (auto split: option.splits)
  obtain st0 where st0: "ws_groups s (fst p) = Some st0" using Cons.prems(2) [of p] by auto
  let ?s = "s\<lparr>ws_groups := (ws_groups s)(fst p \<mapsto> st)\<rparr>"
  have "wake_groups n (el_group k) (el_next k) st ?s =
      Some (?s\<lparr>ws_groups := (\<lambda>t. if t \<in> fst ` set ps then Some st else ws_groups ?s t)\<rparr>)"
    by (rule Cons.IH) (use k(2) Cons.prems(2,3) n in auto)
  moreover have "(\<lambda>t. if t \<in> fst ` set ps then Some st else ws_groups ?s t) =
      (\<lambda>t. if t \<in> fst ` set (p # ps) then Some st else ws_groups s t)" by auto
  ultimately have "wake_groups n (el_group k) (el_next k) st ?s =
      Some (?s\<lparr>ws_groups := (\<lambda>t. if t \<in> fst ` set (p # ps) then Some st else ws_groups s t)\<rparr>)" by (simp only:)
  then show ?case using n k(1,3,4) st0 by simp
qed

section \<open>Invariant\<close>

definition completed :: "wait_state \<Rightarrow> nat \<Rightarrow> bool" where
  "completed s e \<longleftrightarrow> ec_status (ws_events s e) \<noteq> XRP_STATUS_PENDING"

text \<open>Which elements of a thread with \<open>n\<close> events are linked, and whether its array and its group exist.\<close>

fun linked :: "wait_pc \<Rightarrow> nat \<Rightarrow> nat \<Rightarrow> bool" where
  "linked (Linking j) n i \<longleftrightarrow> i < j"
| "linked Blocked n i \<longleftrightarrow> i < n"
| "linked (Unlinking j m rv) n i \<longleftrightarrow> j \<le> i \<and> i < m"
| "linked _ n i \<longleftrightarrow> False"

fun active :: "wait_pc \<Rightarrow> bool" where
  "active Called = False"
| "active (Returned rv) = False"
| "active Refused = False"
| "active _ = True"

text \<open>What a thread may rely on at each of its places; \<open>es\<close> are its events.\<close>

fun thread_ok :: "nat list \<Rightarrow> nat \<Rightarrow> wait_state \<Rightarrow> wait_pc \<Rightarrow> bool" where
  "thread_ok es t s Called \<longleftrightarrow> True"
| "thread_ok es t s Refused \<longleftrightarrow> es = []"
| "thread_ok es t s (Linking j) \<longleftrightarrow> j \<le> length es \<and> es \<noteq> [] \<and>
    (\<forall>i. j \<le> i \<longrightarrow> i < length es \<longrightarrow> map_option el_prev (ws_links s (t, i)) = Some None) \<and>
    (\<forall>i < j. completed s (es ! i) \<longrightarrow> ws_groups s t \<noteq> Some XRP_STATUS_PENDING) \<and>
    (ws_groups s t \<noteq> Some XRP_STATUS_PENDING \<longrightarrow> (\<exists>i < length es. completed s (es ! i)))"
| "thread_ok es t s Blocked \<longleftrightarrow>
    (\<forall>i < length es. completed s (es ! i) \<longrightarrow> ws_groups s t \<noteq> Some XRP_STATUS_PENDING) \<and>
    (ws_groups s t \<noteq> Some XRP_STATUS_PENDING \<longrightarrow> (\<exists>i < length es. completed s (es ! i)))"
| "thread_ok es t s (Unlinking i m rv) \<longleftrightarrow> i \<le> m \<and> m \<le> length es \<and>
    (rv < length es \<and> completed s (es ! rv) \<or> (\<exists>j. i \<le> j \<and> j < m \<and> completed s (es ! j)))"
| "thread_ok es t s (Returned rv) \<longleftrightarrow> rv < length es \<and> completed s (es ! rv)"

text \<open>\<open>W e\<close> is the list of event \<open>e\<close>: it holds exactly the elements that are linked there.\<close>

definition lists_ok :: "wait_env \<Rightarrow> wait_state \<Rightarrow> (nat \<Rightarrow> link_at list) \<Rightarrow> bool" where
  "lists_ok en s W \<longleftrightarrow> (\<forall>e. list_at s e (W e)) \<and>
     (\<forall>e t i. (t, i) \<in> set (W e) \<longleftrightarrow> t < we_threads en \<and> i < length (we_events en t) \<and> we_events en t ! i = e \<and>
        linked (ws_pc s t) (length (we_events en t)) i)"

definition memory_ok :: "wait_env \<Rightarrow> wait_state \<Rightarrow> bool" where
  "memory_ok en s \<longleftrightarrow>
     (\<forall>t i. ws_links s (t, i) \<noteq> None \<longleftrightarrow> t < we_threads en \<and> active (ws_pc s t) \<and> i < length (we_events en t)) \<and>
     (\<forall>t. ws_groups s t \<noteq> None \<longleftrightarrow> t < we_threads en \<and> active (ws_pc s t)) \<and>
     (\<forall>t. we_threads en \<le> t \<longrightarrow> ws_pc s t = Called)"

definition waiting_inv :: "wait_env \<Rightarrow> wait_state \<Rightarrow> bool" where
  "waiting_inv en s \<longleftrightarrow> (\<exists>W. lists_ok en s W) \<and> memory_ok en s \<and>
     (\<forall>t < we_threads en. thread_ok (we_events en t) t s (ws_pc s t))"

definition distinct_events :: "wait_env \<Rightarrow> bool" where
  "distinct_events en \<longleftrightarrow> (\<forall>t < we_threads en. distinct (we_events en t))"

lemma linked_active: "linked pc n i \<Longrightarrow> active pc"
  by (cases pc) auto

lemma one_list: "lists_ok en s W \<Longrightarrow> p \<in> set (W e) \<Longrightarrow> p \<in> set (W e') \<Longrightarrow> e = e'"
  unfolding lists_ok_def by (metis prod.exhaust)

text \<open>A thread is at most once in the list of an event.\<close>

lemma waiter_once:
  assumes "lists_ok en s W" "distinct_events en" "(t, i) \<in> set (W e)" "(t, j) \<in> set (W e)"
  shows "i = j"
proof -
  have "t < we_threads en" "i < length (we_events en t)" "j < length (we_events en t)" "we_events en t ! i = we_events en t ! j"
    using assms(1,3,4) by (auto simp: lists_ok_def)
  then show ?thesis using assms(2) by (auto simp: distinct_events_def nth_eq_iff_index_eq)
qed

lemma waiters_bounded:
  assumes "lists_ok en s W" "distinct_events en"
  shows "length (W e) \<le> we_threads en"
proof -
  have inj: "inj_on fst (set (W e))" using waiter_once [OF assms] by (auto simp: inj_on_def)
  have "fst ` set (W e) \<subseteq> {..<we_threads en}" using assms(1) by (auto simp: lists_ok_def)
  then have "card (set (W e)) \<le> we_threads en" using card_inj_on_le [OF inj] by (metis card_lessThan finite_lessThan)
  moreover have "distinct (W e)" using assms(1) by (simp add: lists_ok_def list_at_def)
  ultimately show ?thesis by (simp add: distinct_card)
qed

text \<open>A step of thread \<open>t\<close> does not disturb another one that sees the same statuses and its own memory.\<close>

lemma thread_ok_frame:
  assumes "thread_ok es u s pc" "\<And>e. ec_status (ws_events s' e) = ec_status (ws_events s e)" "ws_groups s' u = ws_groups s u"
    "\<And>i j. pc = Linking j \<Longrightarrow> j \<le> i \<Longrightarrow> i < length es \<Longrightarrow> ws_links s' (u, i) = ws_links s (u, i)"
  shows "thread_ok es u s' pc"
  using assms by (cases pc) (auto simp: completed_def)


text \<open>The other threads after a step of thread \<open>t\<close>.\<close>

lemma others_ok:
  assumes "waiting_inv en s" "\<And>e. ec_status (ws_events s' e) = ec_status (ws_events s e)"
    "\<And>u. u \<noteq> t \<Longrightarrow> ws_groups s' u = ws_groups s u" "\<And>u. u \<noteq> t \<Longrightarrow> ws_pc s' u = ws_pc s u"
    "\<And>u i. u \<noteq> t \<Longrightarrow> \<not> linked (ws_pc s u) (length (we_events en u)) i \<Longrightarrow> ws_links s' (u, i) = ws_links s (u, i)"
    "u < we_threads en" "u \<noteq> t"
  shows "thread_ok (we_events en u) u s' (ws_pc s' u)"
proof -
  have "thread_ok (we_events en u) u s (ws_pc s u)" using assms(1,6) by (simp add: waiting_inv_def)
  then have "thread_ok (we_events en u) u s' (ws_pc s u)"
    by (rule thread_ok_frame) (use assms(2,3,5,7) in auto)
  then show ?thesis using assms(4,7) by simp
qed

lemma waiting_invI:
  assumes "lists_ok en s W" "memory_ok en s" "ws_pc s t = pc" "thread_ok (we_events en t) t s pc"
    "\<And>u. u < we_threads en \<Longrightarrow> u \<noteq> t \<Longrightarrow> thread_ok (we_events en u) u s (ws_pc s u)"
  shows "waiting_inv en s"
  using assms unfolding waiting_inv_def by metis

lemma inv_link:
  assumes inv: "waiting_inv en s" and d: "distinct_events en" and t: "t < we_threads en" and pc: "ws_pc s t = Linking i"
    and i: "i < length (we_events en t)" and pend: "\<not> completed s (we_events en t ! i)"
  shows "\<exists>s'. link_event t i (we_events en t ! i) s = Some s' \<and> waiting_inv en (goto_pc t (Linking (i + 1)) s')"
proof -
  let ?es = "we_events en t" and ?e = "we_events en t ! i"
  obtain W where W: "lists_ok en s W" and mem: "memory_ok en s" and ok: "thread_ok ?es t s (Linking i)"
    using inv t pc by (auto simp: waiting_inv_def)
  have at: "list_at s e (W e)" for e using W by (simp add: lists_ok_def)
  have mem_iff: "(u, j) \<in> set (W e) \<longleftrightarrow> u < we_threads en \<and> j < length (we_events en u) \<and> we_events en u ! j = e \<and>
      linked (ws_pc s u) (length (we_events en u)) j" for u j e using W by (simp add: lists_ok_def)
  have new: "(t, i) \<notin> set (W e)" for e using mem_iff [of t i] pc by simp
  obtain k where k: "ws_links s (t, i) = Some k" "el_prev k = None" using ok i by auto
  obtain s' where s': "link_event t i ?e s = Some s'" "list_at s' ?e ((t, i) # W ?e)"
    "\<And>p. p \<notin> set ((t, i) # W ?e) \<Longrightarrow> ws_links s' p = ws_links s p" "\<And>p. ws_links s' p = None \<longleftrightarrow> ws_links s p = None"
    "\<And>e'. e' \<noteq> ?e \<Longrightarrow> ws_events s' e' = ws_events s e'" "ec_status (ws_events s' ?e) = ec_status (ws_events s ?e)"
    "ws_groups s' = ws_groups s" "ws_pc s' = ws_pc s"
    using link_event_list [OF at new k] by blast
  let ?s = "goto_pc t (Linking (i + 1)) s'" and ?W = "W(?e := (t, i) # W ?e)"
  have st: "ec_status (ws_events ?s e) = ec_status (ws_events s e)" for e
    using s'(5,6) by (cases "e = ?e") (auto simp: goto_pc_def)
  have other: "list_at ?s e (W e)" if "e \<noteq> ?e" for e
  proof (rule list_at_frame [OF at])
    show "ws_links ?s p = ws_links s p" if p: "p \<in> set (W e)" for p
    proof -
      have "p \<notin> set ((t, i) # W ?e)" using p new [of e] one_list [OF W p, of ?e] \<open>e \<noteq> ?e\<close> by auto
      then show ?thesis using s'(3) by (simp add: goto_pc_def)
    qed
  qed (use s'(5) that in \<open>simp_all add: goto_pc_def\<close>)
  have "list_at ?s ?e ((t, i) # W ?e)" by (rule list_at_frame [OF s'(2)]) (auto simp: goto_pc_def)
  then have "list_at ?s e (?W e)" for e using other by simp
  moreover have "(u, j) \<in> set (?W e) \<longleftrightarrow> u < we_threads en \<and> j < length (we_events en u) \<and> we_events en u ! j = e \<and>
      linked (ws_pc ?s u) (length (we_events en u)) j" for u j e
    using mem_iff [of u j e] pc i t s'(8) by (auto simp: goto_pc_def less_Suc_eq)
  ultimately have "lists_ok en ?s ?W" by (simp add: lists_ok_def)
  moreover have "memory_ok en ?s" using mem pc t s'(4,7,8) by (auto simp: memory_ok_def goto_pc_def)
  moreover have "thread_ok ?es t ?s (Linking (i + 1))"
    using ok pend st s'(3,7) i mem_iff pc by (auto simp: completed_def goto_pc_def less_Suc_eq)
  moreover have "thread_ok (we_events en u) u ?s (ws_pc ?s u)" if "u < we_threads en" "u \<noteq> t" for u
    by (rule others_ok [OF inv st _ _ _ that]) (use s'(3,7,8) mem_iff in \<open>auto simp: goto_pc_def\<close>)
  ultimately have "waiting_inv en ?s" by (intro waiting_invI [where t = t and pc = "Linking (i + 1)"]) (auto simp: goto_pc_def)
  then show ?thesis using s'(1) by blast
qed


lemma inv_unlink:
  assumes inv: "waiting_inv en s" and d: "distinct_events en" and t: "t < we_threads en" and pc: "ws_pc s t = Unlinking i m rv"
    and i: "i < m"
  shows "\<exists>s'. unlink_event t i (we_events en t ! i) s = Some s' \<and>
    waiting_inv en (goto_pc t (Unlinking (i + 1) m (if completed s (we_events en t ! i) then i else rv)) s')"
proof -
  let ?es = "we_events en t" and ?e = "we_events en t ! i"
  obtain W where W: "lists_ok en s W" and mem: "memory_ok en s" and ok: "thread_ok ?es t s (Unlinking i m rv)"
    using inv t pc by (auto simp: waiting_inv_def)
  have at: "list_at s e (W e)" for e using W by (simp add: lists_ok_def)
  have mem_iff: "(u, j) \<in> set (W e) \<longleftrightarrow> u < we_threads en \<and> j < length (we_events en u) \<and> we_events en u ! j = e \<and>
      linked (ws_pc s u) (length (we_events en u)) j" for u j e using W by (simp add: lists_ok_def)
  have in_W: "(t, i) \<in> set (W ?e)" using mem_iff [of t i] pc i t ok by simp
  then obtain ps qs where psqs: "W ?e = ps @ (t, i) # qs" by (meson split_list)
  have dist: "distinct (ps @ (t, i) # qs)" using at [of ?e] psqs by (simp add: list_at_def)
  have once: "t \<notin> fst ` set (ps @ qs)"
  proof
    assume "t \<in> fst ` set (ps @ qs)"
    then obtain j where j: "(t, j) \<in> set (ps @ qs)" by (metis imageE prod.collapse)
    then have "(t, j) \<in> set (W ?e)" using psqs by auto
    then have "j = i" using waiter_once [OF W d _ in_W] by simp
    then show False using j dist by auto
  qed
  obtain s' where s': "unlink_event t i ?e s = Some s'" "list_at s' ?e (ps @ qs)"
    "\<And>p. p \<notin> set (ps @ (t, i) # qs) \<Longrightarrow> ws_links s' p = ws_links s p" "\<And>p. ws_links s' p = None \<longleftrightarrow> ws_links s p = None"
    "\<And>e'. e' \<noteq> ?e \<Longrightarrow> ws_events s' e' = ws_events s e'" "ec_status (ws_events s' ?e) = ec_status (ws_events s ?e)"
    "ws_groups s' = ws_groups s" "ws_pc s' = ws_pc s"
    using unlink_event_list [OF at [of ?e, unfolded psqs] once] by blast
  let ?pc = "Unlinking (i + 1) m (if completed s ?e then i else rv)"
  let ?s = "goto_pc t ?pc s'" and ?W = "W(?e := ps @ qs)"
  have st: "ec_status (ws_events ?s e) = ec_status (ws_events s e)" for e
    using s'(5,6) by (cases "e = ?e") (auto simp: goto_pc_def)
  have links: "ws_links ?s p = ws_links s p" if "p \<notin> set (W ?e)" for p
    using s'(3) that psqs by (simp add: goto_pc_def)
  have other: "list_at ?s e (W e)" if ne: "e \<noteq> ?e" for e
  proof (rule list_at_frame [OF at])
    show "ws_links ?s p = ws_links s p" if p: "p \<in> set (W e)" for p
      by (rule links) (use one_list [OF W p, of ?e] ne in blast)
  qed (use s'(5) ne in \<open>simp_all add: goto_pc_def\<close>)
  have "list_at ?s ?e (ps @ qs)" by (rule list_at_frame [OF s'(2)]) (auto simp: goto_pc_def)
  then have "list_at ?s e (?W e)" for e using other by simp
  moreover have "(u, j) \<in> set (?W e) \<longleftrightarrow> u < we_threads en \<and> j < length (we_events en u) \<and> we_events en u ! j = e \<and>
      linked (ws_pc ?s u) (length (we_events en u)) j" for u j e
  proof -
    have "(u, j) \<in> set (?W e) \<longleftrightarrow> (u, j) \<in> set (W e) \<and> (u, j) \<noteq> (t, i)"
      by (cases "e = ?e") (use psqs dist one_list [OF W in_W, of e] in \<open>simp, blast\<close>, use one_list [OF W in_W, of e] in \<open>simp, metis\<close>)
    then show ?thesis using mem_iff [of u j e] pc s'(8) by (auto simp: goto_pc_def)
  qed
  ultimately have "lists_ok en ?s ?W" by (simp add: lists_ok_def)
  moreover have "memory_ok en ?s" using mem pc t s'(4,7,8) by (auto simp: memory_ok_def goto_pc_def)
  moreover have "thread_ok ?es t ?s ?pc"
    using ok st i by (auto simp: completed_def) (metis Suc_leI le_neq_implies_less)+
  moreover have "thread_ok (we_events en u) u ?s (ws_pc ?s u)" if "u < we_threads en" "u \<noteq> t" for u
    by (rule others_ok [OF inv st _ _ _ that]) (use links s'(7,8) mem_iff in \<open>auto simp: goto_pc_def\<close>)
  ultimately have "waiting_inv en ?s" by (intro waiting_invI [where t = t and pc = ?pc]) (auto simp: goto_pc_def)
  then show ?thesis using s'(1) by blast
qed


text \<open>A step that touches the memory of its own thread only, and no element that is linked.\<close>

lemma inv_local:
  assumes inv: "waiting_inv en s" and t: "t < we_threads en"
    and ev: "ws_events s' = ws_events s" and pcs: "ws_pc s' = (ws_pc s)(t := pc)"
    and lk: "\<And>i. i < length (we_events en t) \<Longrightarrow> linked pc (length (we_events en t)) i = linked (ws_pc s t) (length (we_events en t)) i"
    and lo: "\<And>p. fst p \<noteq> t \<or> linked pc (length (we_events en t)) (snd p) \<and> snd p < length (we_events en t) \<Longrightarrow> ws_links s' p = ws_links s p"
    and lt: "\<And>i. ws_links s' (t, i) \<noteq> None \<longleftrightarrow> active pc \<and> i < length (we_events en t)"
    and go: "\<And>u. u \<noteq> t \<Longrightarrow> ws_groups s' u = ws_groups s u" and gt: "ws_groups s' t \<noteq> None \<longleftrightarrow> active pc"
    and ok: "thread_ok (we_events en t) t s' pc"
  shows "waiting_inv en s'"
proof -
  obtain W where W: "lists_ok en s W" and mem: "memory_ok en s" using inv by (auto simp: waiting_inv_def)
  have mem_iff: "(u, j) \<in> set (W e) \<longleftrightarrow> u < we_threads en \<and> j < length (we_events en u) \<and> we_events en u ! j = e \<and>
      linked (ws_pc s u) (length (we_events en u)) j" for u j e using W by (simp add: lists_ok_def)
  have same: "ws_links s' p = ws_links s p" if "p \<in> set (W e)" for p e
    by (rule lo) (use that mem_iff [of "fst p" "snd p" e] lk in auto)
  have "list_at s' e (W e)" for e
    by (rule list_at_frame [where s = s]) (use W ev same in \<open>auto simp: lists_ok_def\<close>)
  moreover have "(u, j) \<in> set (W e) \<longleftrightarrow> u < we_threads en \<and> j < length (we_events en u) \<and> we_events en u ! j = e \<and>
      linked (ws_pc s' u) (length (we_events en u)) j" for u j e
    unfolding mem_iff using pcs lk by auto
  ultimately have "lists_ok en s' W" by (simp add: lists_ok_def)
  moreover have "memory_ok en s'" using mem pcs lo lt go gt t unfolding memory_ok_def by auto
  moreover have "thread_ok (we_events en u) u s' (ws_pc s' u)" if "u < we_threads en" "u \<noteq> t" for u
    by (rule others_ok [OF inv _ _ _ _ that]) (use ev go pcs lo in auto)
  ultimately show ?thesis using ok pcs by (intro waiting_invI [where t = t and pc = pc]) auto
qed

text \<open>A completion: every waiter of the event gets the status.\<close>

lemma inv_complete:
  assumes inv: "waiting_inv en s" and d: "distinct_events en" and st: "st \<noteq> XRP_STATUS_PENDING"
  shows "\<exists>s'. broadcast (we_threads en) e st s = Some s' \<and> waiting_inv en s' \<and> completed s' e \<and>
    (\<forall>e'. completed s e' \<longrightarrow> completed s' e') \<and> ws_pc s' = ws_pc s"
proof -
  obtain W where W: "lists_ok en s W" and mem: "memory_ok en s" using inv by (auto simp: waiting_inv_def)
  have mem_iff: "(u, j) \<in> set (W e) \<longleftrightarrow> u < we_threads en \<and> j < length (we_events en u) \<and> we_events en u ! j = e \<and>
      linked (ws_pc s u) (length (we_events en u)) j" for u j e using W by (simp add: lists_ok_def)
  let ?s1 = "s\<lparr>ws_events := (ws_events s)(e := (ws_events s e)\<lparr>ec_status := st\<rparr>)\<rparr>"
  let ?s = "?s1\<lparr>ws_groups := (\<lambda>t. if t \<in> fst ` set (W e) then Some st else ws_groups ?s1 t)\<rparr>"
  obtain q where q: "chain (ws_links s) (ec_group (ws_events s e)) (ec_link (ws_events s e)) None (W e) None None q"
    using W unfolding lists_ok_def list_at_def by blast
  have gr: "ws_groups s (fst p) \<noteq> None" if "p \<in> set (W e)" for p
    using mem mem_iff [of "fst p" "snd p" e] that linked_active by (auto simp: memory_ok_def)
  have "wake_groups (we_threads en) (ec_group (ws_events s e)) (ec_link (ws_events s e)) st ?s1 =
      Some (?s1\<lparr>ws_groups := (\<lambda>t. if t \<in> fst ` set (W e) then Some st else ws_groups ?s1 t)\<rparr>)"
    by (rule wake_groups_chain [where q = None and r = q]) (use q gr waiters_bounded [OF W d] in auto)
  then have run: "broadcast (we_threads en) e st s = Some ?s" by (simp add: broadcast_def Let_def)
  have comp: "completed ?s e' \<longleftrightarrow> e' = e \<or> completed s e'" for e' using st by (auto simp: completed_def)
  have "list_at ?s e' (W e')" for e'
    by (rule list_at_frame [where s = s]) (use W in \<open>auto simp: lists_ok_def\<close>)
  then have lists: "lists_ok en ?s W" using W by (simp add: lists_ok_def)
  have "memory_ok en ?s" using mem gr by (auto simp: memory_ok_def)
  moreover have "thread_ok (we_events en u) u ?s (ws_pc ?s u)" if u: "u < we_threads en" for u
  proof -
    have ok: "thread_ok (we_events en u) u s (ws_pc s u)" using inv u by (simp add: waiting_inv_def)
    have w: "u \<in> fst ` set (W e) \<longleftrightarrow> (\<exists>j < length (we_events en u). we_events en u ! j = e \<and> linked (ws_pc s u) (length (we_events en u)) j)"
      using mem_iff u by (auto simp: image_iff) (metis fst_conv)
    show ?thesis using ok w st by (cases "ws_pc s u") (auto simp: comp)
  qed
  ultimately have "waiting_inv en ?s" using lists by (auto simp: waiting_inv_def)
  then show ?thesis using run comp by auto
qed


section \<open>Every step\<close>

lemma inv_start: "waiting_inv en (wait_start st)"
  unfolding waiting_inv_def
proof (intro conjI)
  have "lists_ok en (wait_start st) (\<lambda>e. [])" by (simp add: lists_ok_def list_at_def wait_start_def)
  then show "\<exists>W. lists_ok en (wait_start st) W" by blast
qed (simp_all add: memory_ok_def wait_start_def)

text \<open>A thread step that can be made is no fault, keeps the invariant, leaves the statuses and goes on.\<close>

fun steps_left :: "nat \<Rightarrow> wait_pc \<Rightarrow> nat" where
  "steps_left n Called = 2 * n + 4"
| "steps_left n (Linking i) = (n - i) + n + 3"
| "steps_left n Blocked = n + 2"
| "steps_left n (Unlinking i m rv) = m - i + 1"
| "steps_left n _ = 0"

lemma thread_step_inv:
  assumes inv: "waiting_inv en s" and d: "distinct_events en" and t: "t < we_threads en"
    and st: "thread_step (we_events en t) t s = Some r"
  shows "\<exists>s'. r = Some s' \<and> waiting_inv en s' \<and> (\<forall>e. completed s' e = completed s e) \<and>
    steps_left (length (we_events en t)) (ws_pc s' t) < steps_left (length (we_events en t)) (ws_pc s t)"
proof -
  let ?n = "length (we_events en t)"
  have ok: "thread_ok (we_events en t) t s (ws_pc s t)" using inv t by (simp add: waiting_inv_def)
  have mem: "memory_ok en s" using inv by (simp add: waiting_inv_def)
  have lks: "ws_links s (t, i) \<noteq> None \<longleftrightarrow> active (ws_pc s t) \<and> i < ?n" for i using mem t by (simp add: memory_ok_def)
  have grs: "ws_groups s t \<noteq> None \<longleftrightarrow> active (ws_pc s t)" using mem t by (simp add: memory_ok_def)
  show ?thesis
  proof (cases "ws_pc s t")
    case Called
    show ?thesis
    proof (cases "?n = 0")
      case True
      then have r: "r = Some (goto_pc t Refused s)" using st Called by (simp add: thread_step_def)
      have "waiting_inv en (goto_pc t Refused s)"
        by (rule inv_local [OF inv t, where pc = Refused]) (use lks grs Called True in \<open>auto simp: goto_pc_def\<close>)
      then show ?thesis using r Called by (auto simp: goto_pc_def completed_def)
    next
      case False
      let ?s = "goto_pc t (Linking 0) (s\<lparr>ws_links := (\<lambda>p. if fst p = t \<and> snd p < ?n
        then Some \<lparr>el_group = None, el_next = None, el_prev = None\<rparr> else ws_links s p), ws_groups := (ws_groups s)(t \<mapsto> XRP_STATUS_PENDING)\<rparr>)"
      have r: "r = Some ?s" using st Called False by (simp add: thread_step_def)
      have "waiting_inv en ?s"
        by (rule inv_local [OF inv t, where pc = "Linking 0"]) (use lks Called False in \<open>auto simp: goto_pc_def\<close>)
      then show ?thesis using r Called by (auto simp: goto_pc_def completed_def)
    qed
  next
    case (Linking i)
    consider "i < ?n" "\<not> completed s (we_events en t ! i)" | "i < ?n" "completed s (we_events en t ! i)" | "\<not> i < ?n" by blast
    then show ?thesis
    proof cases
      case 1
      obtain s' where s': "link_event t i (we_events en t ! i) s = Some s'" "waiting_inv en (goto_pc t (Linking (i + 1)) s')"
        using inv_link [OF inv d t Linking 1] by blast
      then show ?thesis using st Linking 1 link_event_status [OF s'(1)] by (auto simp: thread_step_def completed_def goto_pc_def)
    next
      case 2
      have r: "r = Some (goto_pc t (Unlinking 0 i i) s)" using st Linking 2 by (simp add: thread_step_def completed_def)
      have "waiting_inv en (goto_pc t (Unlinking 0 i i) s)"
        by (rule inv_local [OF inv t, where pc = "Unlinking 0 i i"]) (use lks grs Linking 2 ok in \<open>auto simp: goto_pc_def completed_def\<close>)
      then show ?thesis using r Linking 2 by (auto simp: goto_pc_def completed_def)
    next
      case 3
      have r: "r = Some (goto_pc t Blocked s)" using st Linking 3 by (simp add: thread_step_def)
      have "waiting_inv en (goto_pc t Blocked s)"
        by (rule inv_local [OF inv t, where pc = Blocked]) (use lks grs Linking 3 ok in \<open>auto simp: goto_pc_def completed_def\<close>)
      then show ?thesis using r Linking 3 by (auto simp: goto_pc_def completed_def)
    qed
  next
    case Blocked
    obtain g where g: "ws_groups s t = Some g" "g \<noteq> XRP_STATUS_PENDING" "r = Some (goto_pc t (Unlinking 0 ?n ?n) s)"
      using st Blocked grs by (auto simp: thread_step_def Let_def split: option.splits if_splits)
    have "waiting_inv en (goto_pc t (Unlinking 0 ?n ?n) s)"
      by (rule inv_local [OF inv t, where pc = "Unlinking 0 ?n ?n"]) (use lks grs Blocked g ok in \<open>auto simp: goto_pc_def completed_def\<close>)
    then show ?thesis using g Blocked by (auto simp: goto_pc_def completed_def)
  next
    case (Unlinking i m rv)
    show ?thesis
    proof (cases "i < m")
      case True
      obtain s' where s': "unlink_event t i (we_events en t ! i) s = Some s'"
        "waiting_inv en (goto_pc t (Unlinking (i + 1) m (if completed s (we_events en t ! i) then i else rv)) s')"
        using inv_unlink [OF inv d t Unlinking True] by blast
      then show ?thesis using st Unlinking True unlink_event_status [OF s'(1)] by (auto simp: thread_step_def completed_def goto_pc_def)
    next
      case False
      let ?s = "goto_pc t (Returned rv) (s\<lparr>ws_links := (\<lambda>p. if fst p = t then None else ws_links s p), ws_groups := (ws_groups s)(t := None)\<rparr>)"
      have r: "r = Some ?s" using st Unlinking False by (simp add: thread_step_def)
      have "waiting_inv en ?s"
        by (rule inv_local [OF inv t, where pc = "Returned rv"]) (use Unlinking False ok in \<open>auto simp: goto_pc_def completed_def\<close>)
      then show ?thesis using r Unlinking by (auto simp: goto_pc_def completed_def)
    qed
  qed (use st in \<open>auto simp: thread_step_def\<close>)
qed


lemma wait_step_inv:
  assumes "waiting_inv en s" "distinct_events en" "wait_step en a s = Some r"
  shows "\<exists>s'. r = Some s' \<and> waiting_inv en s' \<and> (\<forall>e. completed s e \<longrightarrow> completed s' e)"
proof (cases a)
  case (Thread t)
  then show ?thesis using thread_step_inv [OF assms(1,2), of t r] assms(3) by (auto split: if_splits)
next
  case (Complete e st)
  then show ?thesis using inv_complete [OF assms(1,2), of st e] assms(3) by (auto split: if_splits)
qed

lemma waiting_invariant: "waiting en s \<Longrightarrow> distinct_events en \<Longrightarrow> waiting_inv en s"
proof (induction rule: waiting.induct)
  case (step s a t)
  then show ?case using wait_step_inv [of en s a "Some t"] by auto
qed (rule inv_start)

text \<open>A thread with a completed event can make a step.\<close>

lemma thread_can_step:
  assumes inv: "waiting_inv en s" and t: "t < we_threads en" and e: "e \<in> set (we_events en t)" "completed s e"
    and run: "\<nexists>rv. ws_pc s t = Returned rv"
  shows "thread_step (we_events en t) t s \<noteq> None"
proof -
  obtain i where i: "i < length (we_events en t)" "we_events en t ! i = e" using e(1) by (auto simp: in_set_conv_nth)
  have ok: "thread_ok (we_events en t) t s (ws_pc s t)" using inv t by (simp add: waiting_inv_def)
  have "ws_groups s t \<noteq> None \<longleftrightarrow> active (ws_pc s t)" using inv t by (simp add: waiting_inv_def memory_ok_def)
  then show ?thesis using ok run e i
    by (cases "ws_pc s t") (auto simp: thread_step_def Let_def split: option.splits)
qed

fun run_thread :: "wait_env \<Rightarrow> nat \<Rightarrow> nat \<Rightarrow> wait_state \<Rightarrow> wait_state option" where
  "run_thread en t 0 s = Some s"
| "run_thread en t (Suc k) s = (case wait_step en (Thread t) s of Some (Some s') \<Rightarrow> run_thread en t k s' | _ \<Rightarrow> None)"

lemma thread_returns:
  assumes "waiting_inv en s" "distinct_events en" "t < we_threads en" "e \<in> set (we_events en t)" "completed s e"
    "steps_left (length (we_events en t)) (ws_pc s t) \<le> n"
  shows "\<exists>k s' rv. k \<le> n \<and> run_thread en t k s = Some s' \<and> ws_pc s' t = Returned rv"
  using assms
proof (induction n arbitrary: s)
  case 0
  have "\<exists>rv. ws_pc s t = Returned rv"
    using thread_can_step [OF 0(1,3,4,5)] thread_step_inv [OF 0(1,2,3)] 0(6) by fastforce
  then show ?case by (metis le_refl run_thread.simps(1))
next
  case (Suc n)
  show ?case
  proof (cases "\<exists>rv. ws_pc s t = Returned rv")
    case True
    then show ?thesis by (metis le0 run_thread.simps(1))
  next
    case False
    then obtain r where r: "thread_step (we_events en t) t s = Some r" using thread_can_step [OF Suc.prems(1,3,4,5)] by auto
    obtain s' where s': "r = Some s'" "waiting_inv en s'" "completed s' e"
      "steps_left (length (we_events en t)) (ws_pc s' t) < steps_left (length (we_events en t)) (ws_pc s t)"
      using thread_step_inv [OF Suc.prems(1,2,3) r] Suc.prems(5) by auto
    obtain k u rv where k: "k \<le> n" "run_thread en t k s' = Some u" "ws_pc u t = Returned rv"
      using Suc.IH [OF s'(2) Suc.prems(2,3,4) s'(3)] s'(4) Suc.prems(6) by auto
    have "run_thread en t (Suc k) s = Some u" using r s'(1) k(2) Suc.prems(3) by simp
    then show ?thesis using k(1,3) by (metis Suc_le_mono)
  qed
qed

lemma run_thread_inv:
  "waiting_inv en s \<Longrightarrow> distinct_events en \<Longrightarrow> t < we_threads en \<Longrightarrow> run_thread en t k s = Some s' \<Longrightarrow> waiting_inv en s'"
proof (induction k arbitrary: s)
  case (Suc k)
  then show ?case using wait_step_inv [of en s "Thread t"] by (fastforce split: option.splits)
qed simp

lemma steps_left_le: "thread_ok es t s pc \<Longrightarrow> steps_left (length es) pc \<le> 2 * length es + 4"
  by (cases pc) auto

section \<open>Properties\<close>

text \<open>Waiters and completions of an example: two threads wait for events 7 and 8.\<close>

definition two_waiters :: wait_env where
  "two_waiters = \<lparr>we_threads = 2, we_events = (\<lambda>t. [7, 8])\<rparr>"

fun wait_run :: "wait_env \<Rightarrow> wait_act list \<Rightarrow> wait_state \<Rightarrow> wait_state option option" where
  "wait_run en [] s = Some (Some s)"
| "wait_run en (a # as) s = (case wait_step en a s of Some (Some t) \<Rightarrow> wait_run en as t | r \<Rightarrow> r)"

lemma waiting_run: "waiting en s \<Longrightarrow> wait_run en as s = Some (Some t) \<Longrightarrow> waiting en t"
  by (induction as arbitrary: s) (auto split: option.splits intro: waiting.step)

lemma waiting_fault: "waiting en s \<Longrightarrow> wait_run en as s = Some None \<Longrightarrow> \<exists>t a. waiting en t \<and> wait_step en a t = Some None"
  by (induction as arbitrary: s) (auto split: option.splits intro: waiting.step)

text \<open>
  C11: Whatever threads wait for whatever events, no step faults as long as no thread passes an event twice: a
  completion walks over elements and groups of waiters that have not returned, never reaches more of them than there are threads,
  and taking an element out stores into elements that exist only. So the array and the group on the stack of a waiter
  can go when \<open>xrp_wait_any\<close> returns.
\<close>

theorem wait_any_no_fault:
  assumes "waiting en s" "distinct_events en"
  shows "wait_step en a s \<noteq> Some None"
  using wait_step_inv [OF waiting_invariant [OF assms] assms(2), of a None] by auto


lemma blocked_example:
  "\<exists>s. wait_run two_waiters [Thread 0, Thread 0, Thread 0, Thread 0, Thread 1, Thread 1, Thread 1, Thread 1]
      (wait_start (\<lambda>e. XRP_STATUS_PENDING)) = Some (Some s) \<and>
    ws_pc s 0 = Blocked \<and> ws_pc s 1 = Blocked \<and> ec_link (ws_events s 8) = Some (1, 1)"
  by (simp add: two_waiters_def wait_start_def thread_step_def goto_pc_def link_event_def set_link_def Let_def)

lemma two_waiters_distinct: "distinct_events two_waiters"
  by (simp add: distinct_events_def two_waiters_def)

theorem wait_any_no_fault_witness:
  "\<exists>s. waiting two_waiters s \<and> ws_pc s 0 = Blocked \<and> ws_pc s 1 = Blocked \<and> wait_step two_waiters (Complete 8 XRP_STATUS_SUCCESS) s \<noteq> Some None"
proof -
  obtain s where s: "wait_run two_waiters [Thread 0, Thread 0, Thread 0, Thread 0, Thread 1, Thread 1, Thread 1, Thread 1]
      (wait_start (\<lambda>e. XRP_STATUS_PENDING)) = Some (Some s)" "ws_pc s 0 = Blocked" "ws_pc s 1 = Blocked"
    using blocked_example by blast
  have w: "waiting two_waiters s" by (rule waiting_run [OF waiting.start s(1)])
  show ?thesis using w s(2,3) wait_any_no_fault [OF w two_waiters_distinct] by blast
qed

text \<open>
  C12: No wake-up is lost: once one of its events has completed, before or while the thread links its elements or
  when it already sleeps, \<open>xrp_wait_any\<close> returns after at most \<open>2 * n + 4\<close> steps of the thread, with the index of a completed
  event. As for C11 no thread passes an event twice (\<open>double_event_faults\<close> shows what happens then).
\<close>

theorem wait_any_returns:
  assumes "waiting en s" "distinct_events en" "t < we_threads en" "e \<in> set (we_events en t)" "completed s e"
  shows "\<exists>k s' rv. k \<le> 2 * length (we_events en t) + 4 \<and> run_thread en t k s = Some s' \<and> ws_pc s' t = Returned rv \<and>
    rv < length (we_events en t) \<and> completed s' (we_events en t ! rv)"
proof -
  have inv: "waiting_inv en s" by (rule waiting_invariant [OF assms(1,2)])
  then have "thread_ok (we_events en t) t s (ws_pc s t)" using assms(3) by (simp add: waiting_inv_def)
  then obtain k s' rv where k: "k \<le> 2 * length (we_events en t) + 4" "run_thread en t k s = Some s'" "ws_pc s' t = Returned rv"
    using thread_returns [OF inv assms(2-5) steps_left_le] by blast
  have "waiting_inv en s'" by (rule run_thread_inv [OF inv assms(2,3) k(2)])
  then have "thread_ok (we_events en t) t s' (Returned rv)" using assms(3) k(3) by (auto simp: waiting_inv_def)
  then show ?thesis using k by auto
qed

theorem wait_any_returns_witness:
  "\<exists>s k s' rv. waiting two_waiters s \<and> ws_pc s 1 = Blocked \<and> k \<le> 8 \<and> run_thread two_waiters 1 k s = Some s' \<and>
    ws_pc s' 1 = Returned rv \<and> completed s' ([7, 8] ! rv)"
proof -
  obtain s where s: "wait_run two_waiters [Thread 0, Thread 0, Thread 0, Thread 0, Thread 1, Thread 1, Thread 1, Thread 1]
      (wait_start (\<lambda>e. XRP_STATUS_PENDING)) = Some (Some s)" "ws_pc s 0 = Blocked" "ws_pc s 1 = Blocked"
    using blocked_example by blast
  have w: "waiting two_waiters s" by (rule waiting_run [OF waiting.start s(1)])
  obtain s1 where s1: "broadcast 2 8 XRP_STATUS_SUCCESS s = Some s1" "completed s1 8" "ws_pc s1 = ws_pc s"
    using inv_complete [OF waiting_invariant [OF w two_waiters_distinct] two_waiters_distinct, of XRP_STATUS_SUCCESS 8]
    by (auto simp: two_waiters_def)
  have w1: "waiting two_waiters s1"
    by (rule waiting.step [OF w, where a = "Complete 8 XRP_STATUS_SUCCESS"]) (simp add: s1(1), simp add: two_waiters_def s1(1))
  have "\<exists>k s' rv. k \<le> 2 * length (we_events two_waiters 1) + 4 \<and> run_thread two_waiters 1 k s1 = Some s' \<and> ws_pc s' 1 = Returned rv \<and>
      rv < length (we_events two_waiters 1) \<and> completed s' (we_events two_waiters 1 ! rv)"
    by (rule wait_any_returns [OF w1 two_waiters_distinct, of 1 8]) (simp_all add: two_waiters_def s1(2))
  then obtain k s' rv where "k \<le> 8" "run_thread two_waiters 1 k s1 = Some s'" "ws_pc s' 1 = Returned rv" "completed s' ([7, 8] ! rv)"
    by (auto simp: two_waiters_def)
  moreover have "ws_pc s1 1 = Blocked" using s(3) s1(3) by simp
  ultimately show ?thesis using w1 by blast
qed

text \<open>Thread 1 passes event 7 twice.\<close>

definition double_waiter :: wait_env where
  "double_waiter = \<lparr>we_threads = 3, we_events = (\<lambda>t. if t = 1 then [7, 7, 8] else if t = 0 then [7, 8] else [7])\<rparr>"

definition double_acts :: "wait_act list" where
  "double_acts = [Thread 0, Thread 0, Thread 0, Thread 0, Thread 1, Thread 1, Thread 1, Thread 1, Thread 1,
    Complete 8 XRP_STATUS_SUCCESS, Thread 1, Thread 1, Thread 2, Thread 2, Thread 1, Thread 1, Thread 1,
    Thread 0, Thread 0, Thread 0, Thread 0]"

lemma double_run:
  "case wait_run double_waiter double_acts (wait_start (\<lambda>e. XRP_STATUS_PENDING)) of
     Some (Some s) \<Rightarrow> ws_pc s 1 = Returned 2 \<and> ws_pc s 0 = Returned 1 \<and>
       (case wait_step double_waiter (Complete 7 XRP_STATUS_SUCCESS) s of Some None \<Rightarrow> True | _ \<Rightarrow> False)
   | _ \<Rightarrow> False"
  by code_simp

text \<open>
  A thread that passes an event twice breaks the list of the event for the others: its two elements leave a
  predecessor that is gone, a third waiter is not told that its successor has returned, and the next completion of the event
  stores into the stack of that waiter. The documentation does not rule out such an array.
\<close>

theorem double_event_faults:
  "\<exists>s a. waiting double_waiter s \<and> ws_pc s 1 = Returned 2 \<and> ws_pc s 0 = Returned 1 \<and> wait_step double_waiter a s = Some None"
proof -
  obtain s where s: "wait_run double_waiter double_acts (wait_start (\<lambda>e. XRP_STATUS_PENDING)) = Some (Some s)"
    "ws_pc s 1 = Returned 2" "ws_pc s 0 = Returned 1" "wait_step double_waiter (Complete 7 XRP_STATUS_SUCCESS) s = Some None"
    using double_run by (auto split: option.splits)
  then show ?thesis using waiting_run [OF waiting.start s(1)] by blast
qed


section \<open>The variant without threads\<close>

text \<open>
  \<open>xrp_sync_queue.c\<close>: a request runs inside its push, so an event that is pending when someone waits will
  stay so. The second function looks at the first event only.
\<close>

definition sync_queue_push :: "('r \<Rightarrow> 's \<Rightarrow> 's) \<Rightarrow> 'r \<Rightarrow> 's \<Rightarrow> 's" where
  "sync_queue_push fn rq s = fn rq s"

definition sync_wait :: "(nat \<Rightarrow> xrp_status) \<Rightarrow> nat \<Rightarrow> xrp_status" where
  "sync_wait st e = (if st e = XRP_STATUS_PENDING then XRP_STATUS_FAILURE else XRP_STATUS_SUCCESS)"

definition sync_wait_any :: "(nat \<Rightarrow> xrp_status) \<Rightarrow> nat list \<Rightarrow> nat \<times> xrp_status" where
  "sync_wait_any st es = (0, if es \<noteq> [] \<and> st (es ! 0) \<noteq> XRP_STATUS_PENDING then XRP_STATUS_SUCCESS else XRP_STATUS_FAILURE)"

lemma sync_wait_any_sound:
  "sync_wait_any st es = (i, XRP_STATUS_SUCCESS) \<Longrightarrow> i < length es \<and> sync_wait st (es ! i) = XRP_STATUS_SUCCESS"
  by (auto simp: sync_wait_any_def sync_wait_def split: if_splits)

lemma sync_wait_any_misses:
  "sync_wait_any (\<lambda>e. if e = 8 then XRP_STATUS_SUCCESS else XRP_STATUS_PENDING) [7, 8] = (0, XRP_STATUS_FAILURE)"
  by (simp add: sync_wait_any_def)

end
