(* ===== verification/List_Head.thy ===== *)
theory List_Head
  imports Interfaces "HOL-Library.Monad_Syntax"
begin

text \<open>
  The doubly linked circular lists of \<open>dsp-ps/list.h\<close>, in which the user library keeps its tasks, reports and
  requests in flight: a head and the elements are nodes of one ring. The operations are stores through pointers that may
  coincide; they are shown to be insertion, deletion and moves of a HOL list, for any sequence of them
  on any number of lists.
\<close>

section \<open>Nodes and operations\<close>

record list_head =
  lh_next :: nat
  lh_prev :: nat

type_synonym nodes = "nat \<rightharpoonup> list_head"

text \<open>Stores through a pointer; \<open>None\<close> is an access to memory that is not there.\<close>

definition store_next :: "nat \<Rightarrow> nat \<Rightarrow> nodes \<Rightarrow> nodes option" where
  "store_next p v m = map_option (\<lambda>n. m(p \<mapsto> n\<lparr>lh_next := v\<rparr>)) (m p)"

definition store_prev :: "nat \<Rightarrow> nat \<Rightarrow> nodes \<Rightarrow> nodes option" where
  "store_prev p v m = map_option (\<lambda>n. m(p \<mapsto> n\<lparr>lh_prev := v\<rparr>)) (m p)"

definition INIT_LIST_HEAD :: "nat \<Rightarrow> nodes \<Rightarrow> nodes option" where
  "INIT_LIST_HEAD l m = do { m1 \<leftarrow> store_prev l l m; store_next l l m1 }"

definition list_add_between :: "nat \<Rightarrow> nat \<Rightarrow> nat \<Rightarrow> nodes \<Rightarrow> nodes option" where
  "list_add_between entry prev next m =
     do { m1 \<leftarrow> store_prev next entry m;
          m2 \<leftarrow> store_next entry next m1;
          m3 \<leftarrow> store_prev entry prev m2;
          store_next prev entry m3 }"

definition list_add :: "nat \<Rightarrow> nat \<Rightarrow> nodes \<Rightarrow> nodes option" where
  "list_add entry head m = do { h \<leftarrow> m head; list_add_between entry head (lh_next h) m }"

definition list_add_tail :: "nat \<Rightarrow> nat \<Rightarrow> nodes \<Rightarrow> nodes option" where
  "list_add_tail entry head m = do { h \<leftarrow> m head; list_add_between entry (lh_prev h) head m }"

definition list_del_between :: "nat \<Rightarrow> nat \<Rightarrow> nodes \<Rightarrow> nodes option" where
  "list_del_between prev next m = do { m1 \<leftarrow> store_prev next prev m; store_next prev next m1 }"

definition list_del :: "nat \<Rightarrow> nodes \<Rightarrow> nodes option" where
  "list_del entry m = do { n \<leftarrow> m entry; list_del_between (lh_prev n) (lh_next n) m }"

definition list_del_init :: "nat \<Rightarrow> nodes \<Rightarrow> nodes option" where
  "list_del_init entry m = do { m1 \<leftarrow> list_del entry m; INIT_LIST_HEAD entry m1 }"

definition list_move_tail :: "nat \<Rightarrow> nat \<Rightarrow> nodes \<Rightarrow> nodes option" where
  "list_move_tail entry head m = do { m1 \<leftarrow> list_del entry m; list_add_tail entry head m1 }"

definition list_empty :: "nat \<Rightarrow> nodes \<Rightarrow> bool option" where
  "list_empty head m = map_option (\<lambda>h. lh_next h = head) (m head)"

text \<open>
  The loops of the macros, with the positions at which the body runs as their value; a ring that does not come back
  to the head is no value. The safe variant reads the next element before the body, which may change the memory.
\<close>

partial_function (option) list_for_each_from :: "nat \<Rightarrow> nat \<Rightarrow> nodes \<Rightarrow> nat list option" where
  "list_for_each_from pos head m =
     (if pos = head then Some []
      else do { n \<leftarrow> m pos; ps \<leftarrow> list_for_each_from (lh_next n) head m; Some (pos # ps) })"

definition list_for_each_entry :: "nat \<Rightarrow> nodes \<Rightarrow> nat list option" where
  "list_for_each_entry head m = do { h \<leftarrow> m head; list_for_each_from (lh_next h) head m }"

partial_function (option) list_for_each_back :: "nat \<Rightarrow> nat \<Rightarrow> nodes \<Rightarrow> nat list option" where
  "list_for_each_back pos head m =
     (if pos = head then Some []
      else do { n \<leftarrow> m pos; ps \<leftarrow> list_for_each_back (lh_prev n) head m; Some (pos # ps) })"

definition list_for_each_entry_reverse :: "nat \<Rightarrow> nodes \<Rightarrow> nat list option" where
  "list_for_each_entry_reverse head m = do { h \<leftarrow> m head; list_for_each_back (lh_prev h) head m }"

partial_function (option) for_each_safe_from ::
  "(nat \<Rightarrow> nodes \<Rightarrow> nodes option) \<Rightarrow> nat \<Rightarrow> nat \<Rightarrow> nat \<Rightarrow> nodes \<Rightarrow> nodes option" where
  "for_each_safe_from body pos tmp head m =
     (if pos = head then Some m
      else do { m1 \<leftarrow> body pos m; t \<leftarrow> m1 tmp; for_each_safe_from body tmp (lh_next t) head m1 })"

definition list_for_each_entry_safe :: "(nat \<Rightarrow> nodes \<Rightarrow> nodes option) \<Rightarrow> nat \<Rightarrow> nodes \<Rightarrow> nodes option" where
  "list_for_each_entry_safe body head m =
     do { h \<leftarrow> m head; n \<leftarrow> m (lh_next h); for_each_safe_from body (lh_next h) (lh_next n) head m }"

section \<open>Rings\<close>

definition nx :: "nodes \<Rightarrow> nat \<Rightarrow> nat option" where
  "nx m p = map_option lh_next (m p)"

definition pv :: "nodes \<Rightarrow> nat \<Rightarrow> nat option" where
  "pv m p = map_option lh_prev (m p)"

text \<open>From \<open>a\<close> over \<open>xs\<close> to \<open>b\<close>, in both directions.\<close>

fun seg :: "nodes \<Rightarrow> nat \<Rightarrow> nat list \<Rightarrow> nat \<Rightarrow> bool" where
  "seg m a [] b \<longleftrightarrow> nx m a = Some b \<and> pv m b = Some a"
| "seg m a (x # xs) b \<longleftrightarrow> nx m a = Some x \<and> pv m x = Some a \<and> seg m x xs b"

definition is_ring :: "nodes \<Rightarrow> nat \<Rightarrow> nat list \<Rightarrow> bool" where
  "is_ring m h xs \<longleftrightarrow> distinct (h # xs) \<and> seg m h xs h"

lemma seg_frame:
  assumes "\<And>p. p \<in> set (a # xs) \<Longrightarrow> nx m' p = nx m p" "\<And>p. p \<in> set (b # xs) \<Longrightarrow> pv m' p = pv m p"
  shows "seg m' a xs b = seg m a xs b"
  using assms by (induction xs arbitrary: a) auto

lemma seg_at: "seg m a (us @ e # vs) b \<Longrightarrow> pv m e = Some (last (a # us)) \<and> nx m e = Some (hd (vs @ [b]))"
proof (induction us arbitrary: a)
  case Nil
  then show ?case by (cases vs) auto
qed auto

lemma seg_append: "seg m a (us @ e # vs) b \<longleftrightarrow> seg m a us e \<and> seg m e vs b"
  by (induction us arbitrary: a) auto

lemma seg_ends: "seg m a xs b \<Longrightarrow> nx m a = Some (hd (xs @ [b])) \<and> pv m b = Some (last (a # xs))"
  by (induction xs arbitrary: a) auto

lemma seg_alive: "seg m a xs b \<Longrightarrow> p \<in> set (a # xs) \<Longrightarrow> m p \<noteq> None"
  by (induction xs arbitrary: a) (auto simp: nx_def)

text \<open>What the two kinds of stores leave, also when the neighbours coincide.\<close>

lemma add_between_stores:
  assumes "m e \<noteq> None" "m p \<noteq> None" "m n \<noteq> None" "e \<noteq> p" "e \<noteq> n"
  shows "\<exists>m'. list_add_between e p n m = Some m' \<and> (\<forall>q. nx m' q = (if q = p then Some e else if q = e then Some n else nx m q)) \<and>
    (\<forall>q. pv m' q = (if q = n then Some e else if q = e then Some p else pv m q)) \<and> dom m' = dom m"
  using assms
  by (auto simp: list_add_between_def store_next_def store_prev_def nx_def pv_def)

lemma del_between_stores:
  assumes "m p \<noteq> None" "m n \<noteq> None"
  shows "\<exists>m'. list_del_between p n m = Some m' \<and> (\<forall>q. nx m' q = (if q = p then Some n else nx m q)) \<and>
    (\<forall>q. pv m' q = (if q = n then Some p else pv m q)) \<and> dom m' = dom m"
  using assms
  by (auto simp: list_del_between_def store_next_def store_prev_def nx_def pv_def)

lemma seg_insert:
  assumes "seg m a (us @ vs) b" "distinct (a # us @ vs)" "b \<notin> set (us @ vs)" "e \<notin> set (b # a # us @ vs)"
    "\<And>q. nx m' q = (if q = last (a # us) then Some e else if q = e then Some (hd (vs @ [b])) else nx m q)"
    "\<And>q. pv m' q = (if q = hd (vs @ [b]) then Some e else if q = e then Some (last (a # us)) else pv m q)"
  shows "seg m' a (us @ e # vs) b"
  using assms
proof (induction us arbitrary: a)
  case Nil
  show ?case
  proof (cases vs)
    case (Cons v ws)
    then have "seg m' v ws b = seg m v ws b" using Nil by (intro seg_frame) auto
    then show ?thesis using Nil Cons by simp
  qed (use Nil in simp)
next
  case (Cons u us)
  have "seg m' u (us @ e # vs) b" by (rule Cons.IH) (use Cons.prems in auto)
  moreover have "a \<noteq> last (u # us)" "a \<noteq> e" using Cons.prems(2,4) by auto
  moreover have "u \<noteq> hd (vs @ [b])" "u \<noteq> e" using Cons.prems(2,3,4) by (cases vs; auto)+
  ultimately show ?case using Cons.prems by simp
qed

lemma seg_remove:
  assumes "seg m a (us @ e # vs) b" "distinct (a # us @ e # vs)" "b \<notin> set (us @ e # vs)"
    "\<And>q. nx m' q = (if q = last (a # us) then Some (hd (vs @ [b])) else nx m q)"
    "\<And>q. pv m' q = (if q = hd (vs @ [b]) then Some (last (a # us)) else pv m q)"
  shows "seg m' a (us @ vs) b"
  using assms
proof (induction us arbitrary: a)
  case Nil
  show ?case
  proof (cases vs)
    case (Cons v ws)
    then have "seg m' v ws b = seg m v ws b" using Nil by (intro seg_frame) auto
    then show ?thesis using Nil Cons by simp
  qed (use Nil in simp)
next
  case (Cons u us)
  have "seg m' u (us @ vs) b" by (rule Cons.IH) (use Cons.prems in auto)
  moreover have "a \<noteq> last (u # us)" using Cons.prems(2) by auto
  moreover have "u \<noteq> hd (vs @ [b])" using Cons.prems(2,3) by (cases vs; auto)
  ultimately show ?case using Cons.prems by simp
qed


section \<open>Operations on one ring\<close>

text \<open>Only the nodes \<open>ps\<close> change, and none is allocated or freed.\<close>

definition same_off :: "nat list \<Rightarrow> nodes \<Rightarrow> nodes \<Rightarrow> bool" where
  "same_off ps m m' \<longleftrightarrow> dom m' = dom m \<and> (\<forall>q. q \<notin> set ps \<longrightarrow> nx m' q = nx m q \<and> pv m' q = pv m q)"

lemma same_off_node: "same_off ps m m' \<Longrightarrow> q \<notin> set ps \<Longrightarrow> m' q = m q"
proof -
  assume o: "same_off ps m m'" "q \<notin> set ps"
  then have "nx m' q = nx m q" "pv m' q = pv m q" "q \<in> dom m' \<longleftrightarrow> q \<in> dom m" by (simp_all add: same_off_def)
  then show "m' q = m q" by (cases "m q"; cases "m' q") (auto simp: nx_def pv_def domIff)
qed

lemma ring_frame: "is_ring m h xs \<Longrightarrow> same_off ps m m' \<Longrightarrow> set ps \<inter> set (h # xs) = {} \<Longrightarrow> is_ring m' h xs"
  unfolding is_ring_def same_off_def by (subst seg_frame [where m = m]) auto

lemma ring_node: "is_ring m h xs \<Longrightarrow> p \<in> set (h # xs) \<Longrightarrow> \<exists>n. m p = Some n \<and> nx m p = Some (lh_next n) \<and> pv m p = Some (lh_prev n)"
  unfolding is_ring_def using seg_alive [of m h xs h p] by (auto simp: nx_def pv_def)

lemma ring_alive: "is_ring m h xs \<Longrightarrow> p \<in> set (h # xs) \<Longrightarrow> m p \<noteq> None"
  unfolding is_ring_def using seg_alive [of m h xs h p] by simp

lemma ring_head:
  assumes "is_ring m h xs"
  shows "\<exists>n. m h = Some n \<and> lh_next n = hd (xs @ [h]) \<and> lh_prev n = last (h # xs)"
  using ring_node [OF assms, of h] seg_ends [of m h xs h] assms by (auto simp: is_ring_def)

lemma INIT_LIST_HEAD_ring:
  assumes "m h \<noteq> None"
  shows "\<exists>m'. INIT_LIST_HEAD h m = Some m' \<and> is_ring m' h [] \<and> same_off [h] m m'"
  using assms by (auto simp: INIT_LIST_HEAD_def store_prev_def store_next_def is_ring_def nx_def pv_def same_off_def)

lemma add_between_ring:
  assumes "is_ring m h (us @ vs)" "e \<notin> set (h # us @ vs)" "m e \<noteq> None"
  shows "\<exists>m'. list_add_between e (last (h # us)) (hd (vs @ [h])) m = Some m' \<and> is_ring m' h (us @ e # vs) \<and> same_off (e # h # us @ vs) m m'"
proof -
  let ?p = "last (h # us)" and ?n = "hd (vs @ [h])"
  have pn: "?p \<in> set (h # us @ vs)" "?n \<in> set (h # us @ vs)" by (auto split: if_splits) (cases vs; auto)
  have "m ?p \<noteq> None" "m ?n \<noteq> None" by (rule ring_alive [OF assms(1) pn(1)], rule ring_alive [OF assms(1) pn(2)])
  moreover have "e \<noteq> ?p" "e \<noteq> ?n" using pn assms(2) by metis+
  ultimately obtain m' where m': "list_add_between e ?p ?n m = Some m'" "dom m' = dom m"
    "\<And>q. nx m' q = (if q = ?p then Some e else if q = e then Some ?n else nx m q)"
    "\<And>q. pv m' q = (if q = ?n then Some e else if q = e then Some ?p else pv m q)"
    using add_between_stores [of m e ?p ?n] assms(3) by blast
  have "seg m' h (us @ e # vs) h"
    by (rule seg_insert [of m]) (use assms(1,2) m'(3,4) in \<open>auto simp: is_ring_def\<close>)
  then have "is_ring m' h (us @ e # vs)" using assms(1,2) by (auto simp: is_ring_def)
  moreover have "same_off (e # h # us @ vs) m m'" using m'(2,3,4) pn by (auto simp: same_off_def)
  ultimately show ?thesis using m'(1) by blast
qed

lemma list_add_ring:
  assumes "is_ring m h xs" "e \<notin> set (h # xs)" "m e \<noteq> None"
  shows "\<exists>m'. list_add e h m = Some m' \<and> is_ring m' h (e # xs) \<and> same_off (e # h # xs) m m'"
  using add_between_ring [of m h "[]" xs e] ring_head [OF assms(1)] assms by (auto simp: list_add_def)

lemma list_add_tail_ring:
  assumes "is_ring m h xs" "e \<notin> set (h # xs)" "m e \<noteq> None"
  shows "\<exists>m'. list_add_tail e h m = Some m' \<and> is_ring m' h (xs @ [e]) \<and> same_off (e # h # xs) m m'"
  using add_between_ring [of m h xs "[]" e] ring_head [OF assms(1)] assms by (auto simp: list_add_tail_def)

lemma list_del_ring:
  assumes "is_ring m h xs" "e \<in> set xs"
  shows "\<exists>m'. list_del e m = Some m' \<and> is_ring m' h (remove1 e xs) \<and> same_off (h # xs) m m'"
proof -
  obtain us vs where xs: "xs = us @ e # vs" using assms(2) by (meson split_list)
  let ?p = "last (h # us)" and ?n = "hd (vs @ [h])"
  have d: "distinct (h # us @ e # vs)" using assms(1) xs by (simp add: is_ring_def)
  have pn: "?p \<in> set (h # xs)" "?n \<in> set (h # xs)" unfolding xs by (auto split: if_splits) (cases vs; auto)
  have "m ?p \<noteq> None" "m ?n \<noteq> None" by (rule ring_alive [OF assms(1) pn(1)], rule ring_alive [OF assms(1) pn(2)])
  then obtain m' where m': "list_del_between ?p ?n m = Some m'" "dom m' = dom m"
    "\<And>q. nx m' q = (if q = ?p then Some ?n else nx m q)" "\<And>q. pv m' q = (if q = ?n then Some ?p else pv m q)"
    using del_between_stores [of m ?p ?n] by blast
  obtain n where n: "m e = Some n" "nx m e = Some (lh_next n)" "pv m e = Some (lh_prev n)"
    using ring_node [OF assms(1)] assms(2) by auto
  have "lh_prev n = ?p" "lh_next n = ?n"
    using seg_at [of m h us e vs h] n(2,3) assms(1) xs by (simp_all add: is_ring_def)
  then have "list_del e m = Some m'" using n(1) m'(1) by (simp add: list_del_def)
  moreover have "seg m' h (us @ vs) h"
    by (rule seg_remove [of m h us e vs]) (use assms(1) xs m'(3,4) d in \<open>auto simp: is_ring_def\<close>)
  moreover have "remove1 e xs = us @ vs" using d xs by (simp add: remove1_append)
  moreover have "same_off (h # xs) m m'" using m'(2,3,4) pn by (auto simp: same_off_def)
  ultimately show ?thesis using d by (auto simp: is_ring_def)
qed

text \<open>
  \<open>list_empty\<close> holds exactly of a list without elements, as its name and its callers have it; the comment on it says the opposite.
\<close>

lemma list_empty_ring: "is_ring m h xs \<Longrightarrow> list_empty h m = Some (xs = [])"
  using ring_head [of m h xs] by (cases xs) (auto simp: list_empty_def is_ring_def)

text \<open>The loops visit the elements in their order.\<close>

lemma for_each_from_seg:
  "seg m a xs h \<Longrightarrow> h \<notin> set xs \<Longrightarrow> list_for_each_from (hd (xs @ [h])) h m = Some xs"
proof (induction xs arbitrary: a)
  case (Cons x xs)
  have "\<exists>n. m x = Some n \<and> lh_next n = hd (xs @ [h])" using Cons.prems(1) seg_ends [of m x xs h] by (auto simp: nx_def)
  moreover have "list_for_each_from (hd (xs @ [h])) h m = Some xs" using Cons by auto
  ultimately show ?case using Cons.prems(2) by (subst list_for_each_from.simps) auto
qed (subst list_for_each_from.simps, simp)

lemma for_each_back_seg:
  "seg m h xs b \<Longrightarrow> h \<notin> set xs \<Longrightarrow> list_for_each_back (last (h # xs)) h m = Some (rev xs)"
proof (induction xs arbitrary: b rule: rev_induct)
  case (snoc x xs)
  have x: "seg m h xs x" "pv m x = Some (last (h # xs))"
    using snoc.prems(1) seg_at [of m h xs x "[]" b] seg_append [of m h xs x "[]" b] by auto
  then obtain n where "m x = Some n" "lh_prev n = last (h # xs)" by (auto simp: pv_def)
  moreover have "list_for_each_back (last (h # xs)) h m = Some (rev xs)" using snoc x(1) by auto
  ultimately show ?case using snoc.prems(2) by (subst list_for_each_back.simps) auto
qed (subst list_for_each_back.simps, simp)

lemma for_each_ring: "is_ring m h xs \<Longrightarrow> list_for_each_entry h m = Some xs"
  using ring_head [of m h xs] for_each_from_seg [of m h xs h] by (auto simp: list_for_each_entry_def is_ring_def)

lemma for_each_reverse_ring: "is_ring m h xs \<Longrightarrow> list_for_each_entry_reverse h m = Some (rev xs)"
  using ring_head [of m h xs] for_each_back_seg [of m h xs h] by (auto simp: list_for_each_entry_reverse_def is_ring_def)


text \<open>The body that deletes and frees the elements with \<open>P\<close>; only the safe loop may run it.\<close>

definition delete_if :: "(nat \<Rightarrow> bool) \<Rightarrow> nat \<Rightarrow> nodes \<Rightarrow> nodes option" where
  "delete_if P e m = (if P e then do { m1 \<leftarrow> list_del e m; Some (m1(e := None)) } else Some m)"

lemma delete_if_ring:
  assumes "is_ring m h xs" "e \<in> set xs"
  shows "\<exists>m'. delete_if P e m = Some m' \<and> is_ring m' h (if P e then remove1 e xs else xs)"
proof (cases "P e")
  case True
  obtain m1 where m1: "list_del e m = Some m1" "is_ring m1 h (remove1 e xs)" using list_del_ring [OF assms] by blast
  have "e \<notin> set (h # remove1 e xs)" using assms by (auto simp: is_ring_def)
  then have "seg (m1(e := None)) h (remove1 e xs) h = seg m1 h (remove1 e xs) h"
    by (intro seg_frame) (auto simp: nx_def pv_def)
  then show ?thesis using m1 True by (auto simp: delete_if_def is_ring_def)
qed (use assms in \<open>simp add: delete_if_def\<close>)

lemma safe_loop_ring:
  assumes "is_ring m h (ks @ zs)" "\<And>z. zs \<noteq> [] \<Longrightarrow> z = hd (tl zs @ [h]) \<Longrightarrow> tmp = z"
  shows "\<exists>m'. for_each_safe_from (delete_if P) (hd (zs @ [h])) tmp h m = Some m' \<and> is_ring m' h (ks @ filter (\<lambda>z. \<not> P z) zs)"
  using assms
proof (induction zs arbitrary: ks m tmp)
  case Nil
  then show ?case by (subst for_each_safe_from.simps) simp
next
  case (Cons z zs)
  have tmp: "tmp = hd (zs @ [h])" using Cons.prems(2) by simp
  have d: "distinct (h # ks @ z # zs)" using Cons.prems(1) by (simp add: is_ring_def)
  let ?ks = "if P z then ks else ks @ [z]"
  obtain m1 where m1: "delete_if P z m = Some m1" "is_ring m1 h (?ks @ zs)"
    using delete_if_ring [OF Cons.prems(1), of z P] d by (auto simp: remove1_append split: if_splits)
  have "tmp \<in> set (h # ?ks @ zs)" unfolding tmp by (cases zs) auto
  then obtain t where t: "m1 tmp = Some t" "nx m1 tmp = Some (lh_next t)" using ring_node [OF m1(2)] by blast
  have next_tmp: "lh_next t = hd (tl zs @ [h])" if ne: "zs \<noteq> []"
  proof -
    obtain y ys where "zs = y # ys" using ne by (cases zs) auto
    then show ?thesis using seg_at [of m1 h ?ks y ys h] m1(2) t(2) tmp by (simp add: is_ring_def)
  qed
  have "\<exists>m'. for_each_safe_from (delete_if P) (hd (zs @ [h])) (lh_next t) h m1 = Some m' \<and>
      is_ring m' h (?ks @ filter (\<lambda>z. \<not> P z) zs)"
    by (rule Cons.IH [OF m1(2)]) (use next_tmp in simp)
  then obtain m' where "for_each_safe_from (delete_if P) (hd (zs @ [h])) (lh_next t) h m1 = Some m'"
    "is_ring m' h (?ks @ filter (\<lambda>z. \<not> P z) zs)" by blast
  then show ?case using m1(1) t(1) d tmp by (subst for_each_safe_from.simps) (auto split: if_splits)
qed

section \<open>Any number of lists\<close>

text \<open>
  \<open>rep A m L\<close>: the allocated nodes are \<open>A\<close>, and the list at head \<open>h\<close> is \<open>L h\<close>; no node is in two of them.
\<close>

definition in_lists :: "(nat \<rightharpoonup> nat list) \<Rightarrow> nat \<Rightarrow> bool" where
  "in_lists L p \<longleftrightarrow> (\<exists>h xs. L h = Some xs \<and> p \<in> set (h # xs))"

definition rep :: "nat set \<Rightarrow> nodes \<Rightarrow> (nat \<rightharpoonup> nat list) \<Rightarrow> bool" where
  "rep A m L \<longleftrightarrow> dom m = A \<and> (\<forall>h xs. L h = Some xs \<longrightarrow> is_ring m h xs) \<and>
     (\<forall>h h' xs xs'. L h = Some xs \<longrightarrow> L h' = Some xs' \<longrightarrow> h \<noteq> h' \<longrightarrow> set (h # xs) \<inter> set (h' # xs') = {})"

datatype list_op = Init nat | Add nat nat | Add_Tail nat nat | Del nat | Move_Tail nat nat

fun list_exec :: "list_op \<Rightarrow> nodes \<Rightarrow> nodes option" where
  "list_exec (Init h) m = INIT_LIST_HEAD h m"
| "list_exec (Add e h) m = list_add e h m"
| "list_exec (Add_Tail e h) m = list_add_tail e h m"
| "list_exec (Del e) m = list_del e m"
| "list_exec (Move_Tail e h) m = list_move_tail e h m"

definition abs_del :: "nat \<Rightarrow> (nat \<rightharpoonup> nat list) \<Rightarrow> (nat \<rightharpoonup> nat list)" where
  "abs_del e L = (\<lambda>h. map_option (remove1 e) (L h))"

fun abs_list_op :: "list_op \<Rightarrow> (nat \<rightharpoonup> nat list) \<Rightarrow> (nat \<rightharpoonup> nat list)" where
  "abs_list_op (Init h) L = L(h \<mapsto> [])"
| "abs_list_op (Add e h) L = L(h := map_option (\<lambda>xs. e # xs) (L h))"
| "abs_list_op (Add_Tail e h) L = L(h := map_option (\<lambda>xs. xs @ [e]) (L h))"
| "abs_list_op (Del e) L = abs_del e L"
| "abs_list_op (Move_Tail e h) L = (abs_del e L)(h := map_option (\<lambda>xs. xs @ [e]) (abs_del e L h))"

text \<open>What the callers have to respect: a node goes into one list only, and only elements are taken out.\<close>

definition is_element :: "(nat \<rightharpoonup> nat list) \<Rightarrow> nat \<Rightarrow> bool" where
  "is_element L e \<longleftrightarrow> (\<exists>h xs. L h = Some xs \<and> e \<in> set xs)"

fun list_op_ok :: "nat set \<Rightarrow> list_op \<Rightarrow> (nat \<rightharpoonup> nat list) \<Rightarrow> bool" where
  "list_op_ok A (Init h) L \<longleftrightarrow> h \<in> A \<and> \<not> in_lists L h"
| "list_op_ok A (Add e h) L \<longleftrightarrow> e \<in> A \<and> \<not> in_lists L e \<and> L h \<noteq> None"
| "list_op_ok A (Add_Tail e h) L \<longleftrightarrow> e \<in> A \<and> \<not> in_lists L e \<and> L h \<noteq> None"
| "list_op_ok A (Del e) L \<longleftrightarrow> is_element L e"
| "list_op_ok A (Move_Tail e h) L \<longleftrightarrow> is_element L e \<and> L h \<noteq> None"

text \<open>The nodes an operation brings into the lists.\<close>

fun op_nodes :: "list_op \<Rightarrow> nat set" where
  "op_nodes (Init h) = {h}"
| "op_nodes (Add e h) = {e}"
| "op_nodes (Add_Tail e h) = {e}"
| "op_nodes (Del e) = {}"
| "op_nodes (Move_Tail e h) = {}"

text \<open>All other nodes outside the lists stay as they are.\<close>

definition kept :: "nat set \<Rightarrow> (nat \<rightharpoonup> nat list) \<Rightarrow> nodes \<Rightarrow> nodes \<Rightarrow> bool" where
  "kept X L m m' \<longleftrightarrow> (\<forall>p. p \<notin> X \<longrightarrow> \<not> in_lists L p \<longrightarrow> m' p = m p)"

lemma keptI: "same_off ps m m' \<Longrightarrow> (\<And>p. p \<in> set ps \<Longrightarrow> p \<in> X \<or> in_lists L p) \<Longrightarrow> kept X L m m'"
  unfolding kept_def using same_off_node by blast

lemma rep_disjoint: "rep A m L \<Longrightarrow> L h = Some xs \<Longrightarrow> L h' = Some xs' \<Longrightarrow> h \<noteq> h' \<Longrightarrow> set (h # xs) \<inter> set (h' # xs') = {}"
  unfolding rep_def by blast

text \<open>One list changes, by nodes of its own and at most one that is in no list.\<close>

lemma rep_update:
  assumes "rep A m L" "is_ring m' h ys" "same_off ps m m'" "L h = Some xs \<or> \<not> in_lists L h \<and> xs = []"
    "\<And>p. p \<in> set ps \<union> set ys \<Longrightarrow> p \<in> set (h # xs) \<or> \<not> in_lists L p"
  shows "rep A m' (L(h \<mapsto> ys))"
proof -
  have off: "q \<notin> set (h' # xs')" if "L h' = Some xs'" "h' \<noteq> h" "q \<in> set (h # xs) \<or> \<not> in_lists L q" for q h' xs'
    using that assms(4) rep_disjoint [OF assms(1) that(1) _ that(2)] by (auto simp: in_lists_def)
  have "is_ring m' h' xs'" if "L h' = Some xs'" "h' \<noteq> h" for h' xs'
    by (rule ring_frame [OF _ assms(3)]) (use assms(1,5) off [OF that] that in \<open>auto simp: rep_def\<close>)
  moreover have "set (h # ys) \<inter> set (h' # xs') = {}" if "L h' = Some xs'" "h' \<noteq> h" for h' xs'
    using off [OF that] assms(5) by auto
  ultimately show ?thesis using assms(1-3) unfolding rep_def same_off_def by (auto split: if_splits) blast+
qed

lemma rep_ring: "rep A m L \<Longrightarrow> L h = Some xs \<Longrightarrow> is_ring m h xs"
  by (simp add: rep_def)

lemma del_rep:
  assumes "rep A m L" "is_element L e"
  shows "\<exists>m'. list_del e m = Some m' \<and> rep A m' (abs_del e L) \<and> \<not> in_lists (abs_del e L) e \<and> e \<in> A \<and> kept {} L m m'"
proof -
  obtain h xs where h: "L h = Some xs" "e \<in> set xs" using assms(2) by (auto simp: is_element_def)
  obtain m' where m': "list_del e m = Some m'" "is_ring m' h (remove1 e xs)" "same_off (h # xs) m m'"
    using list_del_ring [OF rep_ring [OF assms(1) h(1)] h(2)] by blast
  have d: "distinct (h # xs)" using rep_ring [OF assms(1) h(1)] by (simp add: is_ring_def)
  have other: "e \<notin> set (h' # xs')" if "L h' = Some xs'" "h' \<noteq> h" for h' xs'
    using rep_disjoint [OF assms(1) that(1) h(1) that(2)] h(2) by auto
  have eq: "abs_del e L = L(h \<mapsto> remove1 e xs)"
    using other h(1) by (auto simp: abs_del_def fun_eq_iff remove1_idem split: option.splits) (metis list.set_intros(2) option.exhaust option.map(1,2) remove1_idem)+
  have "rep A m' (L(h \<mapsto> remove1 e xs))"
    by (rule rep_update [OF assms(1) m'(2,3), of xs]) (use h(1) notin_set_remove1 in \<open>auto dest: notin_set_remove1\<close>)
  moreover have "\<not> in_lists (L(h \<mapsto> remove1 e xs)) e" using other d h(2) by (auto simp: in_lists_def)
  moreover have "e \<in> A" using assms(1) ring_alive [OF rep_ring [OF assms(1) h(1)], of e] h(2) by (auto simp: rep_def)
  moreover have "kept {} L m m'" by (rule keptI [OF m'(3)]) (use h(1) in \<open>auto simp: in_lists_def\<close>)
  ultimately show ?thesis using m'(1) eq by auto
qed

lemma add_tail_rep:
  assumes "rep A m L" "e \<in> A" "\<not> in_lists L e" "L h = Some xs"
  shows "\<exists>m'. list_add_tail e h m = Some m' \<and> rep A m' (L(h \<mapsto> xs @ [e])) \<and> kept {e} L m m'"
proof -
  have e: "e \<notin> set (h # xs)" "m e \<noteq> None" using assms by (auto simp: in_lists_def rep_def)
  obtain m' where m': "list_add_tail e h m = Some m'" "is_ring m' h (xs @ [e])" "same_off (e # h # xs) m m'"
    using list_add_tail_ring [OF rep_ring [OF assms(1,4)] e] by blast
  have "rep A m' (L(h \<mapsto> xs @ [e]))"
    by (rule rep_update [OF assms(1) m'(2,3), of xs]) (use assms(3,4) in auto)
  moreover have "kept {e} L m m'" by (rule keptI [OF m'(3)]) (use assms(4) in \<open>auto simp: in_lists_def\<close>)
  ultimately show ?thesis using m'(1) by blast
qed

lemma add_rep:
  assumes "rep A m L" "e \<in> A" "\<not> in_lists L e" "L h = Some xs"
  shows "\<exists>m'. list_add e h m = Some m' \<and> rep A m' (L(h \<mapsto> e # xs)) \<and> kept {e} L m m'"
proof -
  have e: "e \<notin> set (h # xs)" "m e \<noteq> None" using assms by (auto simp: in_lists_def rep_def)
  obtain m' where m': "list_add e h m = Some m'" "is_ring m' h (e # xs)" "same_off (e # h # xs) m m'"
    using list_add_ring [OF rep_ring [OF assms(1,4)] e] by blast
  have "rep A m' (L(h \<mapsto> e # xs))"
    by (rule rep_update [OF assms(1) m'(2,3), of xs]) (use assms(3,4) in auto)
  moreover have "kept {e} L m m'" by (rule keptI [OF m'(3)]) (use assms(4) in \<open>auto simp: in_lists_def\<close>)
  ultimately show ?thesis using m'(1) by blast
qed


lemma list_exec_rep:
  assumes "rep A m L" "list_op_ok A c L"
  shows "\<exists>m'. list_exec c m = Some m' \<and> rep A m' (abs_list_op c L) \<and> kept (op_nodes c) L m m'"
proof (cases c)
  case (Init h)
  have h: "h \<in> A" "\<not> in_lists L h" using assms(2) Init by auto
  obtain m' where m': "INIT_LIST_HEAD h m = Some m'" "is_ring m' h []" "same_off [h] m m'"
    using INIT_LIST_HEAD_ring [of m h] h(1) assms(1) by (auto simp: rep_def)
  have "rep A m' (L(h \<mapsto> []))" by (rule rep_update [OF assms(1) m'(2,3)]) (use h in auto)
  moreover have "kept {h} L m m'" by (rule keptI [OF m'(3)]) simp
  ultimately show ?thesis using Init m'(1) by simp
next
  case (Add e h)
  then obtain xs where "L h = Some xs" using assms(2) by auto
  then show ?thesis using add_rep [OF assms(1)] assms(2) Add by simp
next
  case (Add_Tail e h)
  then obtain xs where "L h = Some xs" using assms(2) by auto
  then show ?thesis using add_tail_rep [OF assms(1)] assms(2) Add_Tail by simp
next
  case (Del e)
  then show ?thesis using del_rep [OF assms(1), of e] assms(2) by auto
next
  case (Move_Tail e h)
  obtain m1 where m1: "list_del e m = Some m1" "rep A m1 (abs_del e L)" "\<not> in_lists (abs_del e L) e" "e \<in> A" "kept {} L m m1"
    using del_rep [OF assms(1), of e] assms(2) Move_Tail by auto
  obtain ys where ys: "abs_del e L h = Some ys" using assms(2) Move_Tail by (auto simp: abs_del_def)
  obtain m' where m': "list_add_tail e h m1 = Some m'" "rep A m' ((abs_del e L)(h \<mapsto> ys @ [e]))" "kept {e} (abs_del e L) m1 m'"
    using add_tail_rep [OF m1(2,4,3) ys] by blast
  have "is_element L e" using assms(2) Move_Tail by simp
  then have "kept {} L m m'"
    using m1(5) m'(3) by (auto simp: kept_def abs_del_def in_lists_def is_element_def dest: notin_set_remove1) (metis in_set_remove1 notin_set_remove1)
  then show ?thesis using m1(1) m'(1,2) ys Move_Tail by (simp add: list_move_tail_def)
qed

text \<open>
  The relation with a frame: the nodes outside the set \<open>T\<close> are those of \<open>m0\<close>.
\<close>

definition framed :: "nat set \<Rightarrow> nat set \<Rightarrow> nodes \<Rightarrow> nodes \<Rightarrow> (nat \<rightharpoonup> nat list) \<Rightarrow> bool" where
  "framed A T m0 m L \<longleftrightarrow> rep A m L \<and> (\<forall>p. in_lists L p \<longrightarrow> p \<in> T) \<and> (\<forall>p. p \<notin> T \<longrightarrow> m p = m0 p)"

lemma in_lists_op: "in_lists (abs_list_op c L) p \<Longrightarrow> list_op_ok A c L \<Longrightarrow> in_lists L p \<or> p \<in> op_nodes c"
  by (cases c) (auto simp: in_lists_def is_element_def abs_del_def split: if_splits dest: notin_set_remove1)

lemma list_exec_framed:
  assumes "framed A T m0 m L" "list_op_ok A c L \<and> op_nodes c \<subseteq> T"
  shows "\<exists>m'. list_exec c m = Some m' \<and> framed A T m0 m' (abs_list_op c L)"
proof -
  obtain m' where m': "list_exec c m = Some m'" "rep A m' (abs_list_op c L)" "kept (op_nodes c) L m m'"
    using list_exec_rep [of A m L c] assms by (auto simp: framed_def)
  have "p \<in> T" if "in_lists (abs_list_op c L) p" for p
    using in_lists_op [OF that] assms by (auto simp: framed_def)
  moreover have "m' p = m0 p" if "p \<notin> T" for p
    using that m'(3) assms unfolding kept_def framed_def by (metis subsetD)
  ultimately show ?thesis using m'(1,2) by (auto simp: framed_def)
qed

section \<open>Implementing an abstract object by steps that can fail\<close>

text \<open>The client sees the abstract operations only; \<open>ok\<close> is what it has to respect.\<close>

locale step_refinement =
  fixes impl_rel :: "'c \<Rightarrow> 'a \<Rightarrow> bool"
    and run :: "'o \<Rightarrow> 'c \<Rightarrow> 'c option"
    and spec :: "'o \<Rightarrow> 'a \<Rightarrow> 'a"
    and ok :: "'o \<Rightarrow> 'a \<Rightarrow> bool"
  assumes run_refines: "impl_rel c a \<Longrightarrow> ok x a \<Longrightarrow> \<exists>c'. run x c = Some c' \<and> impl_rel c' (spec x a)"
begin

fun run_all :: "'o list \<Rightarrow> 'c \<Rightarrow> 'c option" where
  "run_all [] c = Some c"
| "run_all (x # xs) c = (case run x c of None \<Rightarrow> None | Some c' \<Rightarrow> run_all xs c')"

fun all_ok :: "'o list \<Rightarrow> 'a \<Rightarrow> bool" where
  "all_ok [] a = True"
| "all_ok (x # xs) a = (ok x a \<and> all_ok xs (spec x a))"

lemma run_all_refines:
  "impl_rel c a \<Longrightarrow> all_ok xs a \<Longrightarrow> \<exists>c'. run_all xs c = Some c' \<and> impl_rel c' (fold spec xs a)"
proof (induction xs arbitrary: c a)
  case (Cons x xs)
  then obtain c1 where "run x c = Some c1" "impl_rel c1 (spec x a)" using run_refines by fastforce
  then show ?case using Cons.IH [of c1 "spec x a"] Cons.prems(2) by auto
qed simp

end

interpretation linked: step_refinement "framed A T m0" list_exec abs_list_op
    "\<lambda>c L. list_op_ok A c L \<and> op_nodes c \<subseteq> T" for A T m0
  by unfold_locales (rule list_exec_framed)

fun list_run :: "list_op list \<Rightarrow> nodes \<Rightarrow> nodes option" where
  "list_run [] m = Some m"
| "list_run (c # cs) m = (case list_exec c m of None \<Rightarrow> None | Some m' \<Rightarrow> list_run cs m')"

fun list_ops_ok :: "nat set \<Rightarrow> list_op list \<Rightarrow> (nat \<rightharpoonup> nat list) \<Rightarrow> bool" where
  "list_ops_ok A [] L = True"
| "list_ops_ok A (c # cs) L = (list_op_ok A c L \<and> list_ops_ok A cs (abs_list_op c L))"

lemma list_run_eq: "list_run cs m = linked.run_all cs m"
  by (induction cs arbitrary: m) (auto split: option.splits)

lemma list_ops_ok_all: "list_ops_ok A cs L \<Longrightarrow> (\<And>c. c \<in> set cs \<Longrightarrow> op_nodes c \<subseteq> T) \<Longrightarrow> linked.all_ok A T cs L"
  by (induction cs arbitrary: L) auto

section \<open>Properties\<close>

text \<open>
  C16: Whatever lists are made and whatever is put into them, moved between them or taken out (as \<open>list_op_ok\<close> asks of the
  callers: a node is in one list at most, and only elements are taken out), the stores through the pointers compute the
  operations on HOL lists: a node goes into the front or the end, leaves from any place, and the loops in both directions
  see exactly the list. No access is invalid, and a node that was never made a head nor put into a list is untouched.
\<close>

theorem linked_lists_refine:
  assumes "list_ops_ok (dom m) cs Map.empty"
  shows "\<exists>m'. list_run cs m = Some m' \<and> dom m' = dom m \<and>
    (\<forall>p. p \<notin> \<Union> (op_nodes ` set cs) \<longrightarrow> m' p = m p) \<and>
    (\<forall>h xs. fold abs_list_op cs Map.empty h = Some xs \<longrightarrow>
       list_for_each_entry h m' = Some xs \<and> list_for_each_entry_reverse h m' = Some (rev xs))"
proof -
  let ?T = "\<Union> (op_nodes ` set cs)"
  have "framed (dom m) ?T m m Map.empty" by (simp add: framed_def rep_def in_lists_def)
  moreover have "linked.all_ok (dom m) ?T cs Map.empty" by (rule list_ops_ok_all [OF assms]) auto
  ultimately obtain m' where m': "list_run cs m = Some m'" "framed (dom m) ?T m m' (fold abs_list_op cs Map.empty)"
    using linked.run_all_refines [of "dom m" ?T m m Map.empty cs] by (auto simp: list_run_eq)
  then have r: "rep (dom m) m' (fold abs_list_op cs Map.empty)" "\<forall>p. p \<notin> ?T \<longrightarrow> m' p = m p"
    by (simp_all add: framed_def)
  show ?thesis
    using m'(1) r(2) for_each_ring for_each_reverse_ring rep_ring [OF r(1)] r(1) by (auto simp: rep_def)
qed

text \<open>
  The safe loop may take out and free any of the elements it visits: it ends with the list of those that stay, and never reads
  an element that was freed.
\<close>

theorem safe_loop_deletes:
  assumes "is_ring m h xs"
  shows "\<exists>m'. list_for_each_entry_safe (delete_if P) h m = Some m' \<and> is_ring m' h (filter (\<lambda>z. \<not> P z) xs)"
proof -
  obtain n where n: "m h = Some n" "lh_next n = hd (xs @ [h])" using ring_head [OF assms] by blast
  have "hd (xs @ [h]) \<in> set (h # xs)" by (cases xs) auto
  then obtain k where k: "m (hd (xs @ [h])) = Some k" "nx m (hd (xs @ [h])) = Some (lh_next k)" using ring_node [OF assms] by blast
  have "lh_next k = hd (tl xs @ [h])" if ne: "xs \<noteq> []"
  proof -
    obtain y ys where "xs = y # ys" using ne by (cases xs) auto
    then show ?thesis using seg_at [of m h "[]" y ys h] assms k(2) by (simp add: is_ring_def)
  qed
  then have "\<exists>m'. for_each_safe_from (delete_if P) (hd (xs @ [h])) (lh_next k) h m = Some m' \<and> is_ring m' h ([] @ filter (\<lambda>z. \<not> P z) xs)"
    by (intro safe_loop_ring) (use assms in auto)
  then show ?thesis using n k(1) by (simp add: list_for_each_entry_safe_def)
qed

text \<open>
  \<open>list_del\<close> of the head does not do what the comment says, reset it as an empty list: the head still points to the elements.
\<close>

lemma list_del_head_keeps:
  assumes "is_ring m h (x # xs)"
  shows "\<exists>m'. list_del h m = Some m' \<and> list_empty h m' = Some False"
proof -
  have d: "h \<notin> set (x # xs)" using assms by (simp add: is_ring_def)
  obtain n where n: "m h = Some n" "lh_next n = x" "lh_prev n = last (x # xs)" using ring_head [OF assms] by auto
  have "last (x # xs) \<in> set (h # x # xs)" "x \<in> set (h # x # xs)" by auto
  then have "m (last (x # xs)) \<noteq> None" "m x \<noteq> None" using ring_alive [OF assms] by blast+
  then obtain m' where m': "list_del_between (last (x # xs)) x m = Some m'" "\<And>q. nx m' q = (if q = last (x # xs) then Some x else nx m q)"
    using del_between_stores by blast
  have "last (x # xs) \<noteq> h" using d last_in_set by (metis list.distinct(1))
  then have "nx m' h = Some x" using m'(2) n by (simp add: nx_def)
  then have "list_empty h m' = Some (x = h)" by (auto simp: nx_def list_empty_def)
  then show ?thesis using m'(1) n d by (auto simp: list_del_def)
qed

definition demo_nodes :: nodes where
  "demo_nodes = (\<lambda>p. if p < 6 then Some \<lparr>lh_next = 99, lh_prev = 99\<rparr> else None)"

theorem linked_lists_refine_witness:
  "\<exists>m'. list_run [Init 0, Init 1, Add_Tail 2 0, Add_Tail 3 0, Add 4 0, Move_Tail 3 1, Del 2] demo_nodes = Some m' \<and>
    list_for_each_entry 0 m' = Some [4] \<and> list_for_each_entry 1 m' = Some [3] \<and> m' 5 = demo_nodes 5"
proof -
  let ?cs = "[Init 0, Init 1, Add_Tail 2 0, Add_Tail 3 0, Add 4 0, Move_Tail 3 1, Del 2]"
  have "dom demo_nodes = {..<6}" by (auto simp: demo_nodes_def dom_def)
  then have "list_ops_ok (dom demo_nodes) ?cs Map.empty"
    by (auto simp: in_lists_def is_element_def abs_del_def split: if_splits)
  moreover have "fold abs_list_op ?cs Map.empty 0 = Some [4]" "fold abs_list_op ?cs Map.empty 1 = Some [3]"
    by (simp_all add: abs_del_def)
  ultimately show ?thesis using linked_lists_refine [of demo_nodes ?cs] by fastforce
qed

definition three_nodes :: nodes where
  "three_nodes = [0 \<mapsto> \<lparr>lh_next = 1, lh_prev = 2\<rparr>, 1 \<mapsto> \<lparr>lh_next = 2, lh_prev = 0\<rparr>, 2 \<mapsto> \<lparr>lh_next = 0, lh_prev = 1\<rparr>]"

theorem safe_loop_deletes_witness:
  "\<exists>m'. list_for_each_entry_safe (delete_if (\<lambda>e. e = 1)) 0 three_nodes = Some m' \<and> is_ring m' 0 [2]"
proof -
  have "is_ring three_nodes 0 [1, 2]" by (simp add: is_ring_def three_nodes_def nx_def pv_def)
  from safe_loop_deletes [OF this, of "\<lambda>e. e = 1"] show ?thesis by simp
qed

end
