(* ===== verification/Probe.thy ===== *)
theory Probe
  imports Device_Init Hw_Simple
begin

unbundle bit_operations_syntax

text \<open>
  The platform drivers on top of hardware layer and generic driver: probing and removing a core of
  \<open>xrp_hw_simple.c\<close>, the driver of the registers that the cores share in \<open>xrp_hw_comm.c\<close>, and the generic probe of
  \<open>xvp_main.c\<close> with its ACPI branch. Memory and mappings from the \<open>devm\<close> functions belong to the driver core, which
  releases them when a probe fails and after a removal.
\<close>

section \<open>One core\<close>

datatype simple_match = Match_Simple | Match_V1 | Match_CMA

text \<open>\<open>Xrp_Small\<close> is a pointer made from a return value that is no device.\<close>

datatype xrp_ptr = Xrp_Null | Xrp_Device | Xrp_Small

record platform =
  pf_hw :: hw_simple
  pf_host_irq :: bool
  pf_xrp :: xrp_ptr

definition zeroed_hw :: hw_simple where
  "zeroed_hw = \<lparr>hw_dev_regs_phys = 0, hw_dev_regs = Io_Null, hw_irq_regs_dev_phys = 0, hw_device_irq_regs_phys = 0,
     hw_device_irq_regs = Io_Null, hw_host_irq_regs_phys = 0, hw_host_irq_regs = Io_Null, hw_device_irq_mode = XRP_IRQ_NONE,
     hw_device_irq = [0, 0, 0], hw_device_irq_host_offset = 0, hw_host_irq_mode = XRP_IRQ_NONE, hw_host_irq = [0, 0],
     hw_host_irq_offset = 0, hw_device_id = 0, hw_cclk = 0, hw_pclk = 0, hw_log = []\<rparr>"

fun dev_regs_index :: "simple_match \<Rightarrow> nat" where
  "dev_regs_index Match_Simple = 2"
| "dev_regs_index Match_V1 = 1"
| "dev_regs_index Match_CMA = 1"

text \<open>
  \<open>xrp_hw_simple_probe\<close> with \<open>init\<close>, \<open>init_v1\<close> and \<open>init_cma\<close>: what the driver core keeps (\<open>None\<close> after a failure), what the
  generic driver holds, and the result.
\<close>

definition xrp_hw_simple_probe ::
  "bool \<Rightarrow> simple_match option \<Rightarrow> probe_env \<Rightarrow> init_env \<Rightarrow> platform option \<times> ledger \<times> unit res" where
  "xrp_hw_simple_probe kzalloc_ok mtch pe ie =
     (if \<not> kzalloc_ok then (None, empty_ledger, Error ENOMEM)
      else
        (case mtch of
           None \<Rightarrow> (None, empty_ledger, Error ENODEV)
         | Some k \<Rightarrow>
             (case init_hw pe (dev_regs_index k) zeroed_hw of
                (hw, irq, Inl e) \<Rightarrow> (None, empty_ledger, Inl e)
              | (hw, irq, Inr _) \<Rightarrow>
                  (case xrp_init_common ie of
                     (lg, r) \<Rightarrow>
                       (case probe_result r of
                          Inl e \<Rightarrow> (None, lg, Inl e)
                        | Inr _ \<Rightarrow> (Some \<lparr>pf_hw = hw, pf_host_irq = irq, pf_xrp = (if r = Probed then Xrp_Device else Xrp_Small)\<rparr>,
                            lg, Ok ()))))))"

text \<open>
  \<open>xrp_hw_simple_remove\<close>. The registration and the pool are taken back without a test, so they have to be there:
  releasing one twice is a fault.
\<close>

definition xrp_hw_simple_remove :: "bool \<Rightarrow> ledger \<Rightarrow> ledger res" where
  "xrp_hw_simple_remove suspended lg = (if lg_misc lg \<and> lg_pool lg then Ok (xrp_deinit suspended lg) else Oops)"

section \<open>The shared registers\<close>

text \<open>The static pointer \<open>hw_drvdata\<close>; the memory behind it belongs to the driver core.\<close>

datatype hw_drvdata = No_Drvdata | Freed_Drvdata | Drvdata iomem

definition xrp_hw_common_probe :: "bool \<Rightarrow> iomem option \<Rightarrow> hw_drvdata \<times> unit res" where
  "xrp_hw_common_probe kzalloc_ok mem =
     (if \<not> kzalloc_ok then (No_Drvdata, Error ENOMEM)
      else (case mem of None \<Rightarrow> (Freed_Drvdata, Error ENODEV) | Some io \<Rightarrow> (Drvdata io, Ok ())))"

definition xrp_hw_common_remove :: "hw_drvdata \<Rightarrow> hw_drvdata" where
  "xrp_hw_common_remove d = (case d of No_Drvdata \<Rightarrow> No_Drvdata | _ \<Rightarrow> Freed_Drvdata)"

definition reset_core :: "hw_drvdata \<Rightarrow> u32 \<Rightarrow> u32 \<Rightarrow> (u32 list \<times> bool) res" where
  "reset_core d dsp_id reg =
     (case d of
        No_Drvdata \<Rightarrow> Ok (xrp_set_reset_reg dsp_id None)
      | Drvdata Io_Map \<Rightarrow> Ok (xrp_set_reset_reg dsp_id (Some reg))
      | _ \<Rightarrow> Oops)"

section \<open>The generic driver\<close>

text \<open>
  With ACPI the DSP sees its own shared memory only, so the entry of the communication area is narrowed to it. The search
  gives a pointer into the table; the entries of a table are different.
\<close>

definition acpi_mapping :: "bsearch_fn \<Rightarrow> map_entry list \<Rightarrow> phys_addr \<Rightarrow> u64 \<Rightarrow> map_entry list \<times> unit res" where
  "acpi_mapping bs mp comm shared =
     (case xrp_get_address_mapping bs mp comm of
        None \<Rightarrow> (mp, Error EINVAL)
      | Some e \<Rightarrow>
          (map (\<lambda>x. if x = e then \<lparr>src_addr = comm, dst_addr = ucast comm, me_size = ucast shared + 4096\<rparr> else x) mp, Ok ()))"

text \<open>
  \<open>xrp_probe\<close>: \<open>match\<close> tells whether the device tree has one, \<open>mp\<close>, \<open>comm\<close> and \<open>shared\<close> are what the initialisation found.
  A return value that is no error counts as the address of the device.
\<close>

definition xrp_probe ::
  "bool \<Rightarrow> bool \<Rightarrow> init_env \<Rightarrow> bsearch_fn \<Rightarrow> map_entry list \<Rightarrow> phys_addr \<Rightarrow> u64 \<Rightarrow> ledger \<times> map_entry list \<times> unit res" where
  "xrp_probe match acpi ie bs mp comm shared =
     (if match then (case xrp_init_common ie of (lg, r) \<Rightarrow> (lg, mp, probe_result r))
      else if \<not> acpi then (empty_ledger, mp, Error EINVAL)
      else
        (case xrp_init_common ie of
           (lg, r) \<Rightarrow>
             (case probe_result r of
                Inl e \<Rightarrow> (lg, mp, Inl e)
              | Inr _ \<Rightarrow>
                  if r \<noteq> Probed then (lg, mp, Oops)
                  else (case acpi_mapping bs mp comm shared of (mp1, r1) \<Rightarrow> (lg, mp1, r1)))))"

section \<open>Properties\<close>

text \<open>
  C30: A core whose probe succeeded can be removed, and then nothing is left but the address table (and the clock of a DSP
  that was started although the power management calls it suspended); the exceptions are the four
  failures that look like a success, after which everything is already released and the removal is a fault. After a probe that
  failed the pool, the number, the proc directory and the registration are not held.
\<close>

theorem probe_remove:
  assumes "xrp_hw_simple_probe kzalloc_ok mtch pe ie = (pf, lg, r)"
  shows "(case r of
       Inl e \<Rightarrow> pf = None \<and> \<not> lg_pool lg \<and> \<not> lg_id lg \<and> \<not> lg_proc lg \<and> \<not> lg_misc lg
     | Inr _ \<Rightarrow> (case snd (xrp_init_common ie) of
          Probed \<Rightarrow> map_option pf_xrp pf = Some Xrp_Device \<and> 
            xrp_hw_simple_remove suspended lg = Ok (empty_ledger\<lparr>lg_map := True, lg_powered := lg_powered lg \<and> suspended\<rparr>)
        | Failed _ \<Rightarrow> map_option pf_xrp pf = Some Xrp_Small \<and> xrp_hw_simple_remove suspended lg = Oops))"
proof -
  obtain lg1 r1 where i: "xrp_init_common ie = (lg1, r1)" by fastforce
  note c = init_common_cleanup [OF i]
  have un: "lg1 = \<lparr>lg_comm = lg_comm lg1, lg_pool = lg_pool lg1, lg_map = lg_map lg1, lg_id = lg_id lg1, lg_proc = lg_proc lg1,
      lg_pm = lg_pm lg1, lg_powered = lg_powered lg1, lg_misc = lg_misc lg1\<rparr>" by simp
  show ?thesis
    using assms i c
    by (auto simp: xrp_hw_simple_probe_def probe_result_def xrp_hw_simple_remove_def xrp_deinit_def xrp_free_address_map_def
        empty_ledger_def Let_def split: if_splits option.splits prod.splits sum.splits init_result.splits)
qed


lemma ones_u32: "ucast (- 1 :: u32) = (0xffffffff :: u64)"
  by transfer (simp add: mask_eq_exp_minus_1)

lemma search_single:
  assumes "bsearch_law bs"
  shows "xrp_get_address_mapping bs [e] a = (if src_addr e \<le> a \<and> a - src_addr e < ucast (me_size e) then Some e else None)"
proof -
  have "ordered_for (xrp_compare_address a) [e]" by (simp add: ordered_for_def)
  then have "case bs (xrp_compare_address a) [e] of None \<Rightarrow> xrp_compare_address a e \<noteq> 0 | Some x \<Rightarrow> x = e \<and> xrp_compare_address a e = 0"
    using assms [unfolded bsearch_law_def, rule_format, of "xrp_compare_address a" "[e]"] by (auto split: option.splits)
  then show ?thesis
    by (auto simp: xrp_get_address_mapping_def xrp_compare_address_def not_less split: option.splits if_splits)
qed

text \<open>
  C31: On a system with ACPI, where the address map is the identity, the probe narrows it to the shared memory: exactly the addresses from the
  communication page on, as many as fit 32 bits of its size, translate to themselves, every other one is refused, the bounds
  included. An area that the identity map does not cover is an error of the probe although the device stays registered.
\<close>

theorem acpi_translation:
  assumes "bsearch_law bs" "xrp_init_common ie = (lg, Probed)" "xrp_probe False True ie bs identity_map comm shared = (lg', mp, r)"
  shows "lg' = lg \<and> lg_misc lg' \<and>
    (if comm < 0xffffffff
     then r = Ok () \<and> (\<forall>a. xrp_translate_to_dsp bs mp a =
       (if comm \<le> a \<and> a - comm < ucast (ucast shared + 4096 :: u32) then ucast a else XRP_NO_TRANSLATION))
     else r = Error EINVAL)"
proof -
  let ?e = "\<lparr>src_addr = 0, dst_addr = 0, me_size = - 1\<rparr>"
  let ?n = "\<lparr>src_addr = comm, dst_addr = ucast comm, me_size = ucast shared + 4096\<rparr>"
  have search: "xrp_get_address_mapping bs [?e] comm = (if comm < 0xffffffff then Some ?e else None)"
    unfolding search_single [OF assms(1)] by (simp add: ones_u32)
  have run: "(lg', mp, r) = (lg, fst (acpi_mapping bs [?e] comm shared), snd (acpi_mapping bs [?e] comm shared))"
    using assms(2,3) by (simp add: xrp_probe_def probe_result_def identity_map_def split: prod.splits)
  have misc: "lg_misc lg" using init_common_cleanup [OF assms(2)] by simp
  show ?thesis
  proof (cases "comm < 0xffffffff")
    case True
    then have r: "r = Ok ()" "mp = [?n]" using run search by (simp_all add: acpi_mapping_def)
    have "unat comm < 2 ^ 32" using True by (simp add: word_less_nat_alt)
    then have "unat (ucast (ucast comm :: u32) :: u64) = unat comm" by (simp add: unat_ucast_mod)
    then have "ucast (ucast comm :: u32) = comm" by (metis unsigned_word_eqI)
    then have "xrp_translate_to_dsp bs [?n] a =
       (if comm \<le> a \<and> a - comm < ucast (ucast shared + 4096 :: u32) then ucast a else XRP_NO_TRANSLATION)" for a
      by (simp add: xrp_translate_to_dsp_def search_single [OF assms(1)])
    then show ?thesis using True r run misc by simp
  next
    case False
    then show ?thesis using run search misc by (simp add: acpi_mapping_def)
  qed
qed

text \<open>The reset of a core after the probe of the shared registers failed follows a pointer to memory that is gone.\<close>

lemma reset_after_failed_probe:
  "xrp_hw_common_probe True None = (d, r) \<Longrightarrow> r = Error ENODEV \<and> reset_core d dsp_id reg = Oops"
  by (auto simp: xrp_hw_common_probe_def reset_core_def)

definition core_probe :: probe_env where
  "core_probe = demo_probe\<lparr>pe_u32 := (\<lambda>p. Some 1)\<rparr>"

theorem probe_remove_witness:
  "\<exists>pf lg. xrp_hw_simple_probe True (Some Match_V1) core_probe good_init = (pf, lg, Ok ()) \<and> lg_misc lg \<and>
     xrp_hw_simple_remove False lg = Ok (empty_ledger\<lparr>lg_map := True\<rparr>)"
proof -
  obtain lg where lg: "xrp_init_common good_init = (lg, Probed)"
    by (simp add: xrp_init_common_def init_queue_memory_def init_named_def init_finish_def good_init_def numeral_2_eq_2 Let_def)
  have "\<exists>hw irq. init_hw core_probe (dev_regs_index Match_V1) zeroed_hw = (hw, irq, Ok ())"
    by (simp add: init_hw_def init_hw_irq_def init_hw_device_def init_host_irq_def init_device_irq_def core_probe_def demo_probe_def
        zeroed_hw_def irq_mode_of_def Let_def, blast)
  then obtain pf where run: "xrp_hw_simple_probe True (Some Match_V1) core_probe good_init = (pf, lg, Ok ())"
    using lg by (auto simp: xrp_hw_simple_probe_def probe_result_def)
  have e: "empty_ledger\<lparr>lg_map := True, lg_powered := False\<rparr> = empty_ledger\<lparr>lg_map := True\<rparr>" by (simp add: empty_ledger_def)
  show ?thesis using probe_remove [OF run, of False] run lg init_common_cleanup [OF lg] e by auto
qed

theorem acpi_translation_witness:
  "\<exists>lg mp. xrp_probe False True good_init linear_search identity_map 0x90000000 0x1000 = (lg, mp, Ok ()) \<and>
     xrp_translate_to_dsp linear_search mp 0x90001fff = 0x90001fff \<and> xrp_translate_to_dsp linear_search mp 0x90002000 = XRP_NO_TRANSLATION"
proof -
  obtain lg where lg: "xrp_init_common good_init = (lg, Probed)"
    by (simp add: xrp_init_common_def init_queue_memory_def init_named_def init_finish_def good_init_def numeral_2_eq_2 Let_def)
  obtain lg' mp r where run: "xrp_probe False True good_init linear_search identity_map 0x90000000 0x1000 = (lg', mp, r)"
    by (metis prod.exhaust)
  show ?thesis using acpi_translation [OF linear_search_law lg run] run by simp
qed

end
