(* ===== verification/Spec2Isabelle.thy ===== *)
theory Spec2Isabelle
  imports Alloc Address_Map Ns_Map Comm Hw_Request Share Submit Obj_Store File_Alloc Report Dma_Buf Io_Copy Hw_Simple Panic_Log
    Firmware Dsp_Power Device_Init Ring_Buffer Host_Report Host_Queue Host_Objects Host_Calls Dsp_Command
    Task_Request Dsp_Task Wait_Any List_Head Probe
begin

text \<open>
  A verification development of the XRP driver stack: the Linux driver through which a host talks to DSP cores
  (\<open>src/driver/xrp-kernel\<close>), the user library on top of it (\<open>xrp-user/xrp-host\<close>, \<open>xrp-user/xrp-common\<close>) and the
  application library on top of that (\<open>xrp-user/dsp-ps\<close>). The definitions are translated from the C code, one for each function and with its name
  where HOL allows it; the theorems are about them.

  \<^bold>\<open>The program.\<close> A program opens a device, allocates or imports buffers, groups them, and queues commands. The user library
  keeps devices, buffers, groups, queues and events as objects with counted references; a worker thread per queue
  turns each command into an \<open>ioctl\<close>. The driver shares the buffers of the command with the DSP (pinning pages, finding
  page frames or copying), writes the command into a slot of the communication area, raises an interrupt, waits, and
  undoes the sharing. When a command times out the driver restarts the firmware, with all queues locked. In the other direction the
  DSP posts reports, which reach callbacks of the program through a signal, and writes a log, which the driver
  takes out of a ring. The application library creates tasks on the DSP, configures them and queues their
  requests. What the parts keep and how they call each other is below in the order of the import graph.

  \<^bold>\<open>Conventions\<close> (\<open>Prelude\<close>). \<open>u8\<close>, \<open>u32\<close> and \<open>u64\<close> are words, so arithmetic wraps as in C; sums that a proof needs without
  wrap-around are bounded with \<open>unat\<close>. A C function that can fail returns \<open>err + 'a\<close>: \<open>Errno e\<close> is what it returns, \<open>Fault\<close> (written
  \<open>Oops\<close>) is undefined behaviour or a crash, such as a null pointer, an access outside an object or a use after \<open>kfree\<close>. In the user
  library such a fault is \<open>None\<close> of an option. Shared objects are maps from addresses or fresh numbers; an entry that is \<open>None\<close> is memory that was
  freed. What the code asks of the kernel, the C library or the hardware (an allocation, \<open>ioremap\<close>, a copy from user space, \<open>bsearch\<close>, \<open>sort\<close>,
  \<open>realloc\<close>, the device tree, the answer of the DSP) is an argument: a flag or result for each call, or a function
  with its documented law as a hypothesis (\<open>bsearch_law\<close>, \<open>index_sort_law\<close>), and the witnesses instantiate it.

  \<^bold>\<open>Contracts\<close> (\<open>Interfaces\<close>). \<open>invariant_system\<close> is a transition system with an invariant, \<open>keyed_registry\<close> a table that never
  overwrites, \<open>ref_store\<close> a store of counted objects; \<open>step_refinement\<close> in \<open>List_Head\<close> is an implementation by steps that can fail. They are
  interpreted on the operations of the code: the pool, the open file, the power states, the submission, the worker's queue and the objects of a program as
  systems, the namespace table as a registry, the allocation objects of the driver and the objects of the user library as stores, the linked
  lists as a refinement.

  \<^bold>\<open>Kernel driver.\<close>
  \<^item> \<open>Intervals\<close>, \<open>Alloc\<close>: \<open>xrp_alloc.c\<close>, \<open>xrp_alloc.h\<close>, \<open>xrp_cma_alloc.c\<close>. The free list as a list of blocks; \<open>xrp_private_alloc\<close>
    and \<open>xrp_private_free\<close> with splitting and merging; the abstract view is a sorted list of intervals and the set of addresses it covers. First fit is
    sound and complete, freeing undoes an allocation, every address has one owner in every reachable state, sizes that wrap are served wrongly.
  \<^item> \<open>Address_Map\<close>: \<open>xrp_address_map.c\<close>. Reading the \<open>ranges\<close> property, ordering, translation in both directions, round trip and
    uniqueness on well-formed maps.
  \<^item> \<open>Comm\<close>, \<open>Hw_Request\<close>: the communication area and the command slots in \<open>xvp_main.c\<close> with the layouts of \<open>xrp_kernel_dsp_interface.h\<close>. Word and byte transfers, the
    handshakes of both versions against an arbitrary sequence of answers, the stores that fill a slot in program order, both waits, the interrupt handler, and
    the read-back of the result.
  \<^item> \<open>Share\<close>, \<open>Obj_Store\<close>: from \<open>xrp_put_pages\<close> to \<open>xrp_map_request\<close> in \<open>xvp_main.c\<close>. Native, pinned, page-frame and copied mappings;
    mapping and unmapping a whole request restores pool, objects and page references, and so does a mapping that fails, but for
    a region of the pool that the allocator loses when its second \<open>kzalloc\<close> fails.
  \<^item> \<open>Submit\<close>: \<open>xrp_ioctl_submit_sync\<close> for any number of threads, as an interleaving of the steps between its lock operations: the restart excludes
    everyone else and nobody is blocked for ever.
  \<^item> \<open>File_Alloc\<close>, \<open>Dma_Buf\<close>, \<open>Report\<close>: the busy list, areas and reference counts of an open file, imported buffers, the report buffer and its signals.
  \<^item> \<open>Io_Copy\<close>, \<open>Hw_Simple\<close>, \<open>Probe\<close>: \<open>xrp_hw_simple.c\<close> and \<open>xrp_hw_comm.c\<close>. Copy loops with their equivalence to a loop over
    the bytes, registers and interrupts, clocks, what the DSP is told at start, probing and removing.
  \<^item> \<open>Firmware\<close>, \<open>Dsp_Power\<close>, \<open>Device_Init\<close>: \<open>xrp_firmware.c\<close> and the life of a device in \<open>xvp_main.c\<close>. The loaded image is the one the ELF headers describe; the
    clocks are balanced over resume, suspend and restart; initialisation with its cleanup labels as a ledger of what is held.
  \<^item> \<open>Panic_Log\<close>, \<open>Ring_Buffer\<close>: \<open>xrp_debug.c\<close> and the writer of the DSP in \<open>xrp-common/xrp_rb_file.c\<close>. The two ends of the log together lose
    nothing.

  \<^bold>\<open>User library.\<close>
  \<^item> \<open>Ns_Map\<close>: \<open>xrp-common/xrp_ns.c\<close>, the growing sorted table of command namespaces, refining a finite map.
  \<^item> \<open>Host_Queue\<close>, \<open>Wait_Any\<close>: \<open>xrp_threaded_queue.c\<close>. The list of requests with its worker and its destruction; the lists through which
    threads wait for several events, with any number of waiters and completions interleaved; the wait functions of \<open>xrp_sync_queue.c\<close>.
  \<^item> \<open>Host_Objects\<close>, \<open>Host_Calls\<close>: \<open>xrp_host_common.c\<close> and \<open>hosted/xrp_linux.c\<close>. All objects in one store; any sequence of calls on references that the program
    holds uses no freed object and leaks none; \<open>Host_Calls\<close> states what a program sees of each call (\<open>holding\<close>, \<open>kept\<close>) and carries the proofs of the
    theories above it.
  \<^item> \<open>Host_Report\<close>: \<open>xrp_report.c\<close>, the callbacks and the signal handler, joined to \<open>Report\<close> by a theorem from the post of the DSP to the call of the function.

  \<^bold>\<open>Application library.\<close>
  \<^item> \<open>List_Head\<close>: \<open>dsp-ps/list.h\<close>, the rings of nodes; every sequence of operations computes what the HOL lists of the other theories do.
  \<^item> \<open>Dsp_Command\<close>, \<open>Task_Request\<close>, \<open>Dsp_Task\<close>: \<open>csi_dsp_core.c\<close> and the heartbeat of \<open>csi_dsp_helper.c\<close>. Commands with answers, algorithms,
    buffers with their planes, requests, instances, reporters, tasks and their life; each function on every branch, down to the objects of the user
    library, so that leaks and uses of freed memory show.

  \<^bold>\<open>Properties.\<close> The claims stand in the theory of the component they are about, each behind a text block with its number; most of them need lemmas of several
  components. The first ones join components: a command from the request to the slot and back (C1, C2, C21, C22, C24), the restart (C3, C23), memory
  from the pool to the areas of a process (C4, C5, C19, C20, C36, C37), the objects of a whole session (C7 to C10, C34), waiting (C11, C12, C38, C39), reports and the log (C25 to C27).
  Lemmas that are no claims state the behaviour of the other operations and the failures they do not handle.

  \<^bold>\<open>Bounds and fuel.\<close> Loops over lists are structural; a polling loop with a deadline is a list of what its rounds see. Loops that may not end
  (waiting for a register, searching symbols, copying the log, following pointers)
  are \<open>partial_function (option)\<close>, and a claim that they return is proved as such. Fuel is the number of threads in \<open>wake_groups\<close> (a walk that is
  longer is a fault, which the claim excludes, so the number suffices), the number of queued requests in \<open>serve_many\<close> (one round each), and the number of steps in \<open>worker_run\<close> and
  \<open>run_thread\<close>, for which the claims give the bound. The receiver of the handshake (\<open>parse_tlvs\<close>) and the proc file (\<open>show_pieces\<close>) have fuel for the number of records and
  of bytes. The reference counts of the driver's allocations are words of 32 bits: the claims about an open file are for runs of fewer than
  \<open>2 ^ 32 - 1\<close> operations, in which no count can wrap; sizes are at most \<open>MAX_REQUEST\<close>, above which rounding to pages wraps (\<open>xrp_private_alloc_wraps\<close>).
  The counters of the user library are natural numbers, as 64 bits cannot be counted up to. \<open>find_loop\<close> of the namespace table, the copy loops, the walk over areas and the writer of the log end by a measure.

  \<^bold>\<open>Not modelled.\<close> \<open>xrp_hw_hikey960.c\<close> does not compile in this tree: it calls \<open>xrp_init_v1\<close> with an argument less than \<open>xrp_hw.h\<close> declares. In
  \<open>xrp_hw_simple.c\<close> the cache maintenance for xtensa and arm builds and the second copy of the log functions, which no table of operations names; in \<open>xvp_main.c\<close> the
  choice between a driver's own and the default DMA synchronisation and the dispatch of \<open>xvp_ioctl\<close>, which has no state. The content of
  DMA and of page caches: a synchronisation is a call without effect on the model's state. The memory order of the processors: every lock makes
  the operations under it one step, and the slot is filled in program order. The tests, the firmware
  images, the board files and the build scripts are not part of the program's logic.
\<close>

end
